(* ===== verification/Prelude.thy ===== *)
theory Prelude
  imports Main "HOL-Library.Word"
begin

text \<open>
  Shared vocabulary of the development: the machine integer types of the C sources, the
  byte/half-word conversions they use, conditional flag accumulation, and generic facts on
  words, bits and lists. Two collections drive the component proofs:
  \<open>flag_bits\<close> reads single bits out of accumulated flag bytes and \<open>carry_bits\<close> relates bits of
  sums and differences to carries and borrows of the operands.
\<close>

unbundle bit_operations_syntax

named_theorems flag_bits
named_theorems carry_bits

type_synonym u8 = "8 word"
type_synonym u16 = "16 word"
type_synonym u32 = "32 word"

text \<open>The C idioms \<^verbatim>\<open>w >> 8\<close> and \<^verbatim>\<open>w & 0xFF\<close> stored into a \<^verbatim>\<open>uint8_t\<close>, and
  \<^verbatim>\<open>((uint16_t)h << 8) | l\<close>.\<close>

definition hi8 :: "u16 \<Rightarrow> u8" where
  "hi8 w = ucast (drop_bit 8 w)"

definition lo8 :: "u16 \<Rightarrow> u8" where
  "lo8 w = ucast (w AND 0xFF)"

definition mk16 :: "u8 \<Rightarrow> u8 \<Rightarrow> u16" where
  "mk16 h l = push_bit 8 (ucast h) OR ucast l"

text \<open>The C idiom \<^verbatim>\<open>if (c) f |= m;\<close> and the conditional operand \<^verbatim>\<open>(c ? m : 0)\<close>.\<close>

definition or_if :: "bool \<Rightarrow> u8 \<Rightarrow> u8 \<Rightarrow> u8" where
  "or_if c m f = (if c then f OR m else f)"

definition sel :: "bool \<Rightarrow> u8 \<Rightarrow> u8" where
  "sel c m = (if c then m else 0)"

text \<open>A word is true in a C condition iff it is not zero.\<close>

abbreviation nz :: "'a::len word \<Rightarrow> bool" where
  "nz w \<equiv> w \<noteq> 0"

text \<open>Error numbers of \<^verbatim>\<open>src/common/errno.h\<close>; kernel calls return them negated. The invalid page
  id is the all-ones word of the target's \<^verbatim>\<open>page_id_t\<close>.\<close>

abbreviation EPERM :: int where "EPERM \<equiv> 1"
abbreviation ENOENT :: int where "ENOENT \<equiv> 2"
abbreviation ESRCH :: int where "ESRCH \<equiv> 3"
abbreviation EINTR :: int where "EINTR \<equiv> 4"
abbreviation EIO :: int where "EIO \<equiv> 5"
abbreviation EBADF :: int where "EBADF \<equiv> 9"
abbreviation EAGAIN :: int where "EAGAIN \<equiv> 11"
abbreviation ENOMEM :: int where "ENOMEM \<equiv> 12"
abbreviation EFAULT :: int where "EFAULT \<equiv> 14"
abbreviation EBUSY :: int where "EBUSY \<equiv> 16"
abbreviation EEXIST :: int where "EEXIST \<equiv> 17"
abbreviation EXDEV :: int where "EXDEV \<equiv> 18"
abbreviation ENODEV :: int where "ENODEV \<equiv> 19"
abbreviation ENOTDIR :: int where "ENOTDIR \<equiv> 20"
abbreviation EISDIR :: int where "EISDIR \<equiv> 21"
abbreviation EINVAL :: int where "EINVAL \<equiv> 22"
abbreviation EMFILE :: int where "EMFILE \<equiv> 24"
abbreviation ENOTTY :: int where "ENOTTY \<equiv> 25"
abbreviation ENOSPC :: int where "ENOSPC \<equiv> 28"
abbreviation ESPIPE :: int where "ESPIPE \<equiv> 29"
abbreviation EROFS :: int where "EROFS \<equiv> 30"
abbreviation EPIPE :: int where "EPIPE \<equiv> 32"
abbreviation ENAMETOOLONG :: int where "ENAMETOOLONG \<equiv> 36"
abbreviation ENOSYS :: int where "ENOSYS \<equiv> 38"
abbreviation ENOTEMPTY :: int where "ENOTEMPTY \<equiv> 39"
abbreviation ELOOP :: int where "ELOOP \<equiv> 40"
abbreviation ETIMEDOUT :: int where "ETIMEDOUT \<equiv> 110"

definition PAGE_ID_INVALID :: "'p::len word" where
  "PAGE_ID_INVALID = - 1"

subsection \<open>Ranges of machine integers\<close>

lemma unat_u8_less [simp]: "unat (w :: u8) < 256"
proof -
  have "unat w < 2 ^ LENGTH(8)" by (rule unsigned_less)
  then show ?thesis by simp
qed

lemma unat_u16_less [simp]: "unat (w :: u16) < 65536"
proof -
  have "unat w < 2 ^ LENGTH(16)" by (rule unsigned_less)
  then show ?thesis by simp
qed

lemma unat_u32_less [simp]: "unat (w :: u32) < 4294967296"
proof -
  have "unat w < 2 ^ LENGTH(32)" by (rule unsigned_less)
  then show ?thesis by simp
qed

lemma unat_ucast_8_16 [simp]: "unat (ucast (w :: u8) :: u16) = unat w"
  by (simp add: unsigned_ucast_eq take_bit_eq_mod less_trans [OF unat_u8_less])

lemma unat_ucast_8_32 [simp]: "unat (ucast (w :: u8) :: u32) = unat w"
  by (simp add: unsigned_ucast_eq take_bit_eq_mod less_trans [OF unat_u8_less])

lemma unat_ucast_16_32 [simp]: "unat (ucast (w :: u16) :: u32) = unat w"
  by (simp add: unsigned_ucast_eq take_bit_eq_mod less_trans [OF unat_u16_less])

lemma unat_ucast_16_8: "unat (ucast (w :: u16) :: u8) = unat w mod 256"
  by (simp add: unsigned_ucast_eq take_bit_eq_mod)

lemma unat_ucast_32_16: "unat (ucast (w :: u32) :: u16) = unat w mod 65536"
  by (simp add: unsigned_ucast_eq take_bit_eq_mod)

subsection \<open>Bits of bytes and half-words\<close>

lemma bit_or_if [flag_bits]: "bit (or_if c m f) n \<longleftrightarrow> bit f n \<or> (c \<and> bit m n)"
  by (simp add: or_if_def bit_or_iff)

lemma bit_sel [flag_bits]: "bit (sel c m) n \<longleftrightarrow> c \<and> bit m n"
  by (simp add: sel_def)

lemma bit_hi8 [simp]: "bit (hi8 w) n \<longleftrightarrow> n < 8 \<and> bit w (n + 8)"
  by (auto simp: hi8_def bit_simps ac_simps)

lemma and_FF_take_bit: "(w :: 'a::len word) AND 0xFF = take_bit 8 w"
  by (simp add: take_bit_eq_mask mask_eq_exp_minus_1)

lemma and_FFFF_take_bit: "(w :: 'a::len word) AND 0xFFFF = take_bit 16 w"
  by (simp add: take_bit_eq_mask mask_eq_exp_minus_1)

lemma bit_lo8 [simp]: "bit (lo8 w) n \<longleftrightarrow> n < 8 \<and> bit w n"
  by (auto simp: lo8_def and_FF_take_bit bit_simps)

lemma bit_mk16:
  "bit (mk16 h l) n \<longleftrightarrow> (if n < 8 then bit l n else bit h (n - 8))"
  by (auto simp: mk16_def bit_simps not_less dest: bit_imp_le_length)

lemma hi8_mk16 [simp]: "hi8 (mk16 h l) = h"
  by (rule bit_word_eqI) (simp add: bit_mk16)

lemma lo8_mk16 [simp]: "lo8 (mk16 h l) = l"
  by (rule bit_word_eqI) (simp add: bit_mk16)

lemma mk16_hi8_lo8 [simp]: "mk16 (hi8 w) (lo8 w) = w"
  by (rule bit_word_eqI) (auto simp: bit_mk16)

lemma mk16_inject [simp]: "mk16 h l = mk16 h' l' \<longleftrightarrow> h = h' \<and> l = l'"
  by (metis hi8_mk16 lo8_mk16)

lemma unat_hi8: "unat (hi8 w) = unat w div 256"
proof -
  have "unat (drop_bit 8 w) = unat w div 256" unfolding unat_drop_bit_eq by (simp add: drop_bit_eq_div)
  moreover have "unat w div 256 < 256" using unat_u16_less [of w] by linarith
  ultimately show ?thesis by (simp add: hi8_def unat_ucast_16_8)
qed

lemma unat_lo8: "unat (lo8 w) = unat w mod 256"
proof -
  have "unat (take_bit 8 w) = unat w mod 256"
    unfolding unsigned_take_bit_eq by (simp add: take_bit_eq_mod)
  then show ?thesis by (simp add: lo8_def and_FF_take_bit unat_ucast_16_8)
qed

lemma unat_mk16: "unat (mk16 h l) = 256 * unat h + unat l"
proof -
  have "unat (mk16 h l) = 256 * (unat (mk16 h l) div 256) + unat (mk16 h l) mod 256" by simp
  also have "\<dots> = 256 * unat (hi8 (mk16 h l)) + unat (lo8 (mk16 h l))"
    by (simp only: unat_hi8 unat_lo8)
  finally show ?thesis by simp
qed

subsection \<open>Carries, borrows and signs\<close>

lemma odd_add_div:
  fixes x y c :: nat
  assumes "c \<le> 1"
  shows "odd ((x + y + c) div 2 ^ n) \<longleftrightarrow>
    (odd (x div 2 ^ n) \<noteq> (odd (y div 2 ^ n) \<noteq> (2 ^ n \<le> x mod 2 ^ n + y mod 2 ^ n + c)))"
proof -
  let ?m = "(2::nat) ^ n"
  have "x + y + c = ?m * (x div ?m + y div ?m) + (x mod ?m + y mod ?m + c)"
    by (simp add: algebra_simps)
  then have eq: "(x + y + c) div ?m = x div ?m + y div ?m + (x mod ?m + y mod ?m + c) div ?m"
    by (metis div_mult_self2 power_not_zero zero_neq_numeral add.commute)
  have "x mod ?m < ?m" "y mod ?m < ?m" by simp_all
  with assms have "x mod ?m + y mod ?m + c < 2 * ?m" by linarith
  then have "(x mod ?m + y mod ?m + c) div ?m = (if ?m \<le> x mod ?m + y mod ?m + c then 1 else 0)"
    by (auto simp: div_nat_eqI not_le)
  with eq show ?thesis by auto
qed

lemma bit_word_iff_odd: "bit (w :: 'a::len word) n \<longleftrightarrow> odd (unat w div 2 ^ n)"
  by (metis bit_iff_odd bit_unsigned_iff bit_imp_le_length possible_bit_nat)

lemma bit_word_add [carry_bits]:
  fixes x y c :: "'a::len word"
  assumes "n < LENGTH('a)" and "unat c \<le> 1"
  shows "bit (x + y + c) n \<longleftrightarrow>
    (bit x n \<noteq> (bit y n \<noteq> (2 ^ n \<le> unat x mod 2 ^ n + unat y mod 2 ^ n + unat c)))"
proof -
  have "unat (x + y + c) = (unat x + unat y + unat c) mod 2 ^ LENGTH('a)"
    by (simp add: unat_word_ariths mod_simps)
  moreover have "odd ((s mod 2 ^ LENGTH('a)) div 2 ^ n) \<longleftrightarrow> odd (s div 2 ^ n)" for s :: nat
    using assms(1) by (metis bit_iff_odd bit_take_bit_iff take_bit_eq_mod)
  ultimately show ?thesis
    using odd_add_div [OF assms(2)] by (simp add: bit_word_iff_odd)
qed

lemma bit_word_sub [carry_bits]:
  fixes x y c :: "'a::len word"
  assumes "n < LENGTH('a)" and "unat c \<le> 1"
  shows "bit (x - y - c) n \<longleftrightarrow>
    (bit x n \<noteq> (bit y n \<noteq> (unat x mod 2 ^ n < unat y mod 2 ^ n + unat c)))"
proof -
  define r where "r = x - y - c"
  let ?m = "(2::nat) ^ n"
  let ?s = "unat r mod ?m + unat y mod ?m + unat c"
  have x: "x = r + y + c" by (simp add: r_def)
  have mm: "(s mod 2 ^ LENGTH('a)) mod ?m = s mod ?m" for s :: nat
    using assms(1) by (simp add: mod_mod_cancel le_imp_power_dvd)
  have "unat x = (unat r + unat y + unat c) mod 2 ^ LENGTH('a)"
    by (simp add: x unat_word_ariths mod_simps)
  then have "unat x mod ?m = (unat r + unat y + unat c) mod ?m" by (simp add: mm)
  also have "\<dots> = ?s mod ?m" by (metis mod_add_left_eq mod_add_eq)
  finally have xm: "unat x mod ?m = ?s mod ?m" .
  have rm: "unat r mod ?m < ?m" "unat y mod ?m < ?m" by simp_all
  have "unat x mod ?m < unat y mod ?m + unat c \<longleftrightarrow> ?m \<le> ?s"
  proof (cases "?m \<le> ?s")
    case True
    moreover from rm assms(2) have "?s - ?m < ?m" by linarith
    ultimately have "?s mod ?m = ?s - ?m" by (simp only: le_mod_geq mod_less)
    with True rm xm show ?thesis by linarith
  next
    case False
    then have "?s mod ?m = ?s" by simp
    with False xm show ?thesis by linarith
  qed
  with bit_word_add [OF assms, of r y] show ?thesis by (auto simp: x [symmetric] simp flip: r_def)
qed


lemma uint_ucast_mod: "uint (ucast w :: 'b::len word) = uint w mod 2 ^ LENGTH('b)"
  by (simp add: unsigned_ucast_eq take_bit_eq_mod)

lemma ucast_down_add:
  fixes x y :: "'a::len word"
  assumes "LENGTH('b) \<le> LENGTH('a)"
  shows "(ucast (x + y) :: 'b::len word) = ucast x + ucast y"
proof (rule word_eq_iff_unsigned [THEN iffD2])
  have "s mod 2 ^ LENGTH('a) mod 2 ^ LENGTH('b) = s mod 2 ^ LENGTH('b)" for s :: int
    using assms by (simp add: mod_mod_cancel le_imp_power_dvd)
  then show "uint (ucast (x + y) :: 'b word) = uint (ucast x + ucast y :: 'b word)"
    by (simp add: uint_ucast_mod uint_word_ariths mod_simps)
qed

lemma ucast_down_sub:
  fixes x y :: "'a::len word"
  assumes "LENGTH('b) \<le> LENGTH('a)"
  shows "(ucast (x - y) :: 'b::len word) = ucast x - ucast y"
proof (rule word_eq_iff_unsigned [THEN iffD2])
  have "s mod 2 ^ LENGTH('a) mod 2 ^ LENGTH('b) = s mod 2 ^ LENGTH('b)" for s :: int
    using assms by (simp add: mod_mod_cancel le_imp_power_dvd)
  then show "uint (ucast (x - y) :: 'b word) = uint (ucast x - ucast y :: 'b word)"
    by (simp add: uint_ucast_mod uint_word_ariths mod_simps)
qed

lemma lo8_ucast: "lo8 w = ucast w"
  by (rule bit_word_eqI) (simp add: bit_simps)

lemma ucast_ucast_8_16 [simp]: "(ucast (ucast (a :: u8) :: u16) :: u8) = a"
  by (rule bit_word_eqI) (simp add: bit_simps)

lemma lo8_arith [simp]:
  "lo8 (x + y) = lo8 x + lo8 y" "lo8 (x - y) = lo8 x - lo8 y" "lo8 (ucast a) = a"
  by (simp_all add: lo8_ucast ucast_down_add ucast_down_sub)

lemma odd_div_top: "x < 2 * m \<Longrightarrow> odd (x div m) \<longleftrightarrow> m \<le> (x :: nat)"
proof (cases "m \<le> x")
  case True
  moreover assume "x < 2 * m"
  ultimately have "x div m = 1" by (intro div_nat_eqI) auto
  with True show ?thesis by simp
qed simp

lemma bit_msb_iff_unat: "bit (w :: 'a::len word) (LENGTH('a) - 1) \<longleftrightarrow> 2 ^ (LENGTH('a) - 1) \<le> unat w"
proof -
  have "unat w < 2 ^ LENGTH('a)" by (rule unsigned_less)
  also have "\<dots> = 2 * 2 ^ (LENGTH('a) - 1)" by (simp flip: power_Suc)
  finally show ?thesis by (simp add: bit_word_iff_odd odd_div_top)
qed

lemma sint_unat:
  "sint (w :: 'a::len word) =
    (if unat w < 2 ^ (LENGTH('a) - 1) then int (unat w) else int (unat w) - 2 ^ LENGTH('a))"
proof -
  have "uint w < 2 ^ LENGTH('a)" by (rule unsigned_less)
  then have "take_bit (LENGTH('a)) (uint w) = uint w" by (simp add: take_bit_int_eq_self)
  moreover have "bit (uint w) (LENGTH('a) - 1) \<longleftrightarrow> 2 ^ (LENGTH('a) - 1) \<le> unat w"
    using bit_msb_iff_unat [of w] by (simp add: bit_uint_iff)
  ultimately show ?thesis
    by (simp add: sint_uint signed_take_bit_eq_take_bit_minus not_less)
qed

lemma sint_u8: "sint (w :: u8) = (if unat w < 128 then int (unat w) else int (unat w) - 256)"
  using sint_unat [of w] by simp

lemma sint_u16: "sint (w :: u16) = (if unat w < 32768 then int (unat w) else int (unat w) - 65536)"
  using sint_unat [of w] by simp

lemma msb_u8: "bit (w :: u8) 7 \<longleftrightarrow> 128 \<le> unat w"
  using bit_msb_iff_unat [of w] by simp

lemma msb_u16: "bit (w :: u16) 15 \<longleftrightarrow> 32768 \<le> unat w"
  using bit_msb_iff_unat [of w] by simp

lemma nz_and_exp: "(w :: 'a::len word) AND 2 ^ n \<noteq> 0 \<longleftrightarrow> bit w n"
  by (metis and_exp_eq_0_iff_not_bit)

lemma nz_and_bit [flag_bits]:
  fixes w :: "'a::len word"
  shows "w AND 1 \<noteq> 0 \<longleftrightarrow> bit w 0" "w AND 2 \<noteq> 0 \<longleftrightarrow> bit w 1" "w AND 4 \<noteq> 0 \<longleftrightarrow> bit w 2"
    "w AND 8 \<noteq> 0 \<longleftrightarrow> bit w 3" "w AND 16 \<noteq> 0 \<longleftrightarrow> bit w 4" "w AND 32 \<noteq> 0 \<longleftrightarrow> bit w 5"
    "w AND 64 \<noteq> 0 \<longleftrightarrow> bit w 6" "w AND 128 \<noteq> 0 \<longleftrightarrow> bit w 7"
  using nz_and_exp [of w 0] nz_and_exp [of w 1] nz_and_exp [of w 2] nz_and_exp [of w 3]
    nz_and_exp [of w 4] nz_and_exp [of w 5] nz_and_exp [of w 6] nz_and_exp [of w 7]
  by simp_all

lemma unat_of_bool [simp]: "unat (of_bool b :: 'a::len word) = of_bool b"
  by (cases b) simp_all

lemma unat_and_1: "unat (f AND 1 :: 'a::len word) = of_bool (bit f 0)"
  by (simp add: and_one_eq mod_2_eq_odd bit_0)

lemma wrap_once:
  fixes x y k m :: nat
  assumes "x < m" and "y < m" and "k \<le> 1"
  shows "(x + y + k) mod m = (if x + y + k < m then x + y + k else x + y + k - m)"
proof -
  have "x + y + k - m < m" if "\<not> x + y + k < m" using assms that by linarith
  then show ?thesis by (simp add: le_mod_geq not_less)
qed

lemma add_overflow_nat:
  fixes x y k h :: nat
  assumes "x < 2 * h" and "y < 2 * h" and "k \<le> 1" and "s = (x + y + k) mod (2 * h)"
  shows "(h \<le> x \<longleftrightarrow> h \<le> y) \<and> (h \<le> x) \<noteq> (h \<le> s) \<longleftrightarrow>
    (if x < h then int x else int x - 2 * int h) + (if y < h then int y else int y - 2 * int h) + int k
      \<notin> {- int h..int h - 1}"
proof -
  have "s = (if x + y + k < 2 * h then x + y + k else x + y + k - 2 * h)"
    using wrap_once [OF assms(1,2,3)] assms(4) by simp
  then show ?thesis
    using assms(1,2,3) by (cases "x < h"; cases "y < h"; cases "x + y + k < 2 * h") auto
qed

lemma sub_overflow_nat:
  fixes x y k h :: nat
  assumes "x < 2 * h" and "y < 2 * h" and "k \<le> 1" and "s < 2 * h" "x = (s + y + k) mod (2 * h)"
  shows "(h \<le> x) \<noteq> (h \<le> y) \<and> (h \<le> x) \<noteq> (h \<le> s) \<longleftrightarrow>
    (if x < h then int x else int x - 2 * int h) - (if y < h then int y else int y - 2 * int h) - int k
      \<notin> {- int h..int h - 1}"
proof -
  have "x = (if s + y + k < 2 * h then s + y + k else s + y + k - 2 * h)"
    using wrap_once [OF assms(4,2,3)] assms(5) by simp
  then show ?thesis
    using assms(1,2,3,4) by (cases "x < h"; cases "y < h"; cases "s + y + k < 2 * h") auto
qed

lemma uint_ucast_8 [simp]:
  "uint (ucast (w :: u8) :: u16) = uint w" "uint (ucast w :: u32) = uint w"
  by (metis uint_nat unat_ucast_8_16 unat_ucast_8_32)+

lemma unat_inc_less: "(i :: 'a::len word) < n \<Longrightarrow> unat (i + 1) = Suc (unat i)"
proof -
  assume "i < n"
  then have "Suc (unat i) \<le> unat n" by (simp add: word_less_nat_alt)
  moreover have "unat n < 2 ^ LENGTH('a)" by (rule unsigned_less)
  ultimately have "Suc (unat i) < 2 ^ LENGTH('a)" by linarith
  then show ?thesis by (simp add: unat_word_ariths)
qed

lemma unat_and_0F: "unat (w AND 0x0F :: u8) = unat w mod 16"
proof -
  have "w AND 0x0F = take_bit 4 w" by (simp add: take_bit_eq_mask mask_eq_exp_minus_1)
  then show ?thesis by (simp only: unsigned_take_bit_eq) (simp add: take_bit_eq_mod)
qed

subsection \<open>Exhaustive checks\<close>

lemma all_u8: "(\<forall>v :: u8. P v) \<longleftrightarrow> (\<forall>n \<in> set [0..<256]. P (of_nat n))"
proof
  assume *: "\<forall>n \<in> set [0..<256]. P (of_nat n)"
  show "\<forall>v :: u8. P v"
  proof
    fix v :: u8
    have "unat v \<in> set [0..<256]" by simp
    with * have "P (of_nat (unat v))" by blast
    then show "P v" by simp
  qed
qed simp

subsection \<open>Invariants of transition systems\<close>

text \<open>The state machines of the development are step relations; what every step keeps holds in every
  reachable state.\<close>

locale step_system =
  fixes step :: "'s \<Rightarrow> 's \<Rightarrow> bool" and inv :: "'s \<Rightarrow> bool"
  assumes step_inv: "step s s' \<Longrightarrow> inv s \<Longrightarrow> inv s'"
begin

lemma reach_inv: "step\<^sup>*\<^sup>* s s' \<Longrightarrow> inv s \<Longrightarrow> inv s'"
  by (induction rule: rtranclp_induct) (auto intro: step_inv)

end

end
