(* ===== verification/Z80_State.thy ===== *)
theory Z80_State
  imports Prelude
begin

text \<open>
  The Z80 core's state and access helpers, \<^verbatim>\<open>src/kernel/core/cpu/ecpu_z80.h\<close>, and the
  register and memory entries of its operations table
  (\<^verbatim>\<open>src/kernel/core/cpu/ecpu_z80.c\<close>).
  The 64 KB guest memory is a function on 16-bit addresses: every access of the core indexes it by
  a \<^verbatim>\<open>uint16_t\<close>. A trap handler is a function pointer: the state keeps its address and the opaque
  context, and what a call through it does is a parameter (\<open>trap_env\<close>) of the definitions that
  make the call. The lemmas are the read-back laws of registers, pairs, memory and stack.
\<close>

record z80_state =
  reg_a :: u8
  reg_f :: u8
  reg_b :: u8
  reg_c :: u8
  reg_d :: u8
  reg_e :: u8
  reg_h :: u8
  reg_l :: u8
  reg_a2 :: u8
  reg_f2 :: u8
  reg_b2 :: u8
  reg_c2 :: u8
  reg_d2 :: u8
  reg_e2 :: u8
  reg_h2 :: u8
  reg_l2 :: u8
  reg_ix :: u16
  reg_iy :: u16
  reg_sp :: u16
  reg_pc :: u16
  reg_i :: u8
  reg_r :: u8
  reg_wz :: u16
  iff1 :: u8
  iff2 :: u8
  im :: u8
  halted :: u8
  step_budget :: u8
  step_trap_exit :: u8
  memory :: "u16 \<Rightarrow> u8"
  mem_size :: u32
  trap_handler :: "nat option"
  trap_ctx :: nat

text \<open>What calling the handler at an address with a state, trap type, parameter and context does:
  the state it leaves and its return code.\<close>

type_synonym trap_env = "nat \<Rightarrow> z80_state \<Rightarrow> int \<Rightarrow> u32 \<Rightarrow> nat \<Rightarrow> z80_state \<times> int"

subsection \<open>Flag constants\<close>

abbreviation FLAG_C :: u8 where "FLAG_C \<equiv> 0x01"
abbreviation FLAG_N :: u8 where "FLAG_N \<equiv> 0x02"
abbreviation FLAG_PV :: u8 where "FLAG_PV \<equiv> 0x04"
abbreviation FLAG_F3 :: u8 where "FLAG_F3 \<equiv> 0x08"
abbreviation FLAG_H :: u8 where "FLAG_H \<equiv> 0x10"
abbreviation FLAG_F5 :: u8 where "FLAG_F5 \<equiv> 0x20"
abbreviation FLAG_Z :: u8 where "FLAG_Z \<equiv> 0x40"
abbreviation FLAG_S :: u8 where "FLAG_S \<equiv> 0x80"
abbreviation FLAG_35 :: u8 where "FLAG_35 \<equiv> FLAG_F3 OR FLAG_F5"

subsection \<open>Register pairs\<close>

definition z80_af :: "z80_state \<Rightarrow> u16" where
  "z80_af cpu = mk16 (reg_a cpu) (reg_f cpu)"

definition z80_set_af :: "z80_state \<Rightarrow> u16 \<Rightarrow> z80_state" where
  "z80_set_af cpu val = cpu\<lparr>reg_a := hi8 val, reg_f := lo8 val\<rparr>"

definition z80_bc :: "z80_state \<Rightarrow> u16" where
  "z80_bc cpu = mk16 (reg_b cpu) (reg_c cpu)"

definition z80_set_bc :: "z80_state \<Rightarrow> u16 \<Rightarrow> z80_state" where
  "z80_set_bc cpu val = cpu\<lparr>reg_b := hi8 val, reg_c := lo8 val\<rparr>"

definition z80_de :: "z80_state \<Rightarrow> u16" where
  "z80_de cpu = mk16 (reg_d cpu) (reg_e cpu)"

definition z80_set_de :: "z80_state \<Rightarrow> u16 \<Rightarrow> z80_state" where
  "z80_set_de cpu val = cpu\<lparr>reg_d := hi8 val, reg_e := lo8 val\<rparr>"

definition z80_hl :: "z80_state \<Rightarrow> u16" where
  "z80_hl cpu = mk16 (reg_h cpu) (reg_l cpu)"

definition z80_set_hl :: "z80_state \<Rightarrow> u16 \<Rightarrow> z80_state" where
  "z80_set_hl cpu val = cpu\<lparr>reg_h := hi8 val, reg_l := lo8 val\<rparr>"

subsection \<open>Memory, fetch and stack\<close>

definition z80_read8 :: "z80_state \<Rightarrow> u16 \<Rightarrow> u8" where
  "z80_read8 cpu addr = memory cpu addr"

definition z80_write8 :: "z80_state \<Rightarrow> u16 \<Rightarrow> u8 \<Rightarrow> z80_state" where
  "z80_write8 cpu addr val = cpu\<lparr>memory := (memory cpu)(addr := val)\<rparr>"

definition z80_read16 :: "z80_state \<Rightarrow> u16 \<Rightarrow> u16" where
  "z80_read16 cpu addr = mk16 (memory cpu (addr + 1)) (memory cpu addr)"

definition z80_write16 :: "z80_state \<Rightarrow> u16 \<Rightarrow> u16 \<Rightarrow> z80_state" where
  "z80_write16 cpu addr val =
     cpu\<lparr>memory := (memory cpu)(addr := lo8 val, addr + 1 := hi8 val)\<rparr>"

definition z80_fetch8 :: "z80_state \<Rightarrow> u8 \<times> z80_state" where
  "z80_fetch8 cpu = (memory cpu (reg_pc cpu), cpu\<lparr>reg_pc := reg_pc cpu + 1\<rparr>)"

definition z80_fetch16 :: "z80_state \<Rightarrow> u16 \<times> z80_state" where
  "z80_fetch16 cpu =
     (let (lo, cpu) = z80_fetch8 cpu; (hi, cpu) = z80_fetch8 cpu in (mk16 hi lo, cpu))"

definition z80_push16 :: "z80_state \<Rightarrow> u16 \<Rightarrow> z80_state" where
  "z80_push16 cpu val =
     (let cpu = cpu\<lparr>reg_sp := reg_sp cpu - 1\<rparr>;
          cpu = cpu\<lparr>memory := (memory cpu)(reg_sp cpu := hi8 val)\<rparr>;
          cpu = cpu\<lparr>reg_sp := reg_sp cpu - 1\<rparr>
      in cpu\<lparr>memory := (memory cpu)(reg_sp cpu := lo8 val)\<rparr>)"

definition z80_pop16 :: "z80_state \<Rightarrow> u16 \<times> z80_state" where
  "z80_pop16 cpu = (z80_read16 cpu (reg_sp cpu), cpu\<lparr>reg_sp := reg_sp cpu + 2\<rparr>)"

subsection \<open>Register decode\<close>

definition z80_read_r8 :: "z80_state \<Rightarrow> u8 \<Rightarrow> u8" where
  "z80_read_r8 cpu code =
     (if code = 0 then reg_b cpu
      else if code = 1 then reg_c cpu
      else if code = 2 then reg_d cpu
      else if code = 3 then reg_e cpu
      else if code = 4 then reg_h cpu
      else if code = 5 then reg_l cpu
      else if code = 6 then z80_read8 cpu (z80_hl cpu)
      else if code = 7 then reg_a cpu
      else 0)"

definition z80_write_r8 :: "z80_state \<Rightarrow> u8 \<Rightarrow> u8 \<Rightarrow> z80_state" where
  "z80_write_r8 cpu code val =
     (if code = 0 then cpu\<lparr>reg_b := val\<rparr>
      else if code = 1 then cpu\<lparr>reg_c := val\<rparr>
      else if code = 2 then cpu\<lparr>reg_d := val\<rparr>
      else if code = 3 then cpu\<lparr>reg_e := val\<rparr>
      else if code = 4 then cpu\<lparr>reg_h := val\<rparr>
      else if code = 5 then cpu\<lparr>reg_l := val\<rparr>
      else if code = 6 then z80_write8 cpu (z80_hl cpu) val
      else if code = 7 then cpu\<lparr>reg_a := val\<rparr>
      else cpu)"

definition z80_read_rr :: "z80_state \<Rightarrow> u8 \<Rightarrow> u16" where
  "z80_read_rr cpu pp =
     (if pp = 0 then z80_bc cpu
      else if pp = 1 then z80_de cpu
      else if pp = 2 then z80_hl cpu
      else if pp = 3 then reg_sp cpu
      else 0)"

definition z80_write_rr :: "z80_state \<Rightarrow> u8 \<Rightarrow> u16 \<Rightarrow> z80_state" where
  "z80_write_rr cpu pp val =
     (if pp = 0 then z80_set_bc cpu val
      else if pp = 1 then z80_set_de cpu val
      else if pp = 2 then z80_set_hl cpu val
      else if pp = 3 then cpu\<lparr>reg_sp := val\<rparr>
      else cpu)"

definition z80_read_qq :: "z80_state \<Rightarrow> u8 \<Rightarrow> u16" where
  "z80_read_qq cpu qq =
     (if qq = 0 then z80_bc cpu
      else if qq = 1 then z80_de cpu
      else if qq = 2 then z80_hl cpu
      else if qq = 3 then z80_af cpu
      else 0)"

definition z80_write_qq :: "z80_state \<Rightarrow> u8 \<Rightarrow> u16 \<Rightarrow> z80_state" where
  "z80_write_qq cpu qq val =
     (if qq = 0 then z80_set_bc cpu val
      else if qq = 1 then z80_set_de cpu val
      else if qq = 2 then z80_set_hl cpu val
      else if qq = 3 then z80_set_af cpu val
      else cpu)"

text \<open>Condition codes: 0 NZ, 1 Z, 2 NC, 3 C, 4 PO, 5 PE, 6 P, 7 M.\<close>

definition z80_condition :: "z80_state \<Rightarrow> u8 \<Rightarrow> bool" where
  "z80_condition cpu cc =
     (if cc = 0 then \<not> nz (reg_f cpu AND FLAG_Z)
      else if cc = 1 then nz (reg_f cpu AND FLAG_Z)
      else if cc = 2 then \<not> nz (reg_f cpu AND FLAG_C)
      else if cc = 3 then nz (reg_f cpu AND FLAG_C)
      else if cc = 4 then \<not> nz (reg_f cpu AND FLAG_PV)
      else if cc = 5 then nz (reg_f cpu AND FLAG_PV)
      else if cc = 6 then \<not> nz (reg_f cpu AND FLAG_S)
      else if cc = 7 then nz (reg_f cpu AND FLAG_S)
      else False)"

subsection \<open>The operations table: lifecycle, registers, memory\<close>

definition ecpu_z80_init :: "(u16 \<Rightarrow> u8) \<Rightarrow> u32 \<Rightarrow> z80_state" where
  "ecpu_z80_init mem sz =
     \<lparr>reg_a = 0, reg_f = 0, reg_b = 0, reg_c = 0, reg_d = 0, reg_e = 0, reg_h = 0, reg_l = 0,
      reg_a2 = 0, reg_f2 = 0, reg_b2 = 0, reg_c2 = 0, reg_d2 = 0, reg_e2 = 0, reg_h2 = 0,
      reg_l2 = 0, reg_ix = 0, reg_iy = 0, reg_sp = 0, reg_pc = 0, reg_i = 0, reg_r = 0,
      reg_wz = 0, iff1 = 0, iff2 = 0, im = 0, halted = 0, step_budget = 0, step_trap_exit = 0,
      memory = mem, mem_size = sz, trap_handler = None, trap_ctx = 0\<rparr>"

definition ecpu_z80_set_trap_handler :: "z80_state \<Rightarrow> nat option \<Rightarrow> nat \<Rightarrow> z80_state" where
  "ecpu_z80_set_trap_handler cpu handler ctx = cpu\<lparr>trap_handler := handler, trap_ctx := ctx\<rparr>"

text \<open>Register identifiers, in the order of the \<^verbatim>\<open>Z80_REG_*\<close> constants 0 to 25.\<close>

definition ecpu_z80_get_reg :: "z80_state \<Rightarrow> int \<Rightarrow> u32" where
  "ecpu_z80_get_reg cpu reg_id =
     (if reg_id = 0 then ucast (reg_a cpu)
      else if reg_id = 1 then ucast (reg_f cpu)
      else if reg_id = 2 then ucast (reg_b cpu)
      else if reg_id = 3 then ucast (reg_c cpu)
      else if reg_id = 4 then ucast (reg_d cpu)
      else if reg_id = 5 then ucast (reg_e cpu)
      else if reg_id = 6 then ucast (reg_h cpu)
      else if reg_id = 7 then ucast (reg_l cpu)
      else if reg_id = 8 then ucast (z80_af cpu)
      else if reg_id = 9 then ucast (z80_bc cpu)
      else if reg_id = 10 then ucast (z80_de cpu)
      else if reg_id = 11 then ucast (z80_hl cpu)
      else if reg_id = 12 then ucast (reg_ix cpu)
      else if reg_id = 13 then ucast (reg_iy cpu)
      else if reg_id = 14 then ucast (reg_sp cpu)
      else if reg_id = 15 then ucast (reg_pc cpu)
      else if reg_id = 16 then ucast (reg_i cpu)
      else if reg_id = 17 then ucast (reg_r cpu)
      else if reg_id = 18 then ucast (mk16 (reg_a2 cpu) (reg_f2 cpu))
      else if reg_id = 19 then ucast (mk16 (reg_b2 cpu) (reg_c2 cpu))
      else if reg_id = 20 then ucast (mk16 (reg_d2 cpu) (reg_e2 cpu))
      else if reg_id = 21 then ucast (mk16 (reg_h2 cpu) (reg_l2 cpu))
      else if reg_id = 22 then ucast (iff1 cpu)
      else if reg_id = 23 then ucast (iff2 cpu)
      else if reg_id = 24 then ucast (im cpu)
      else if reg_id = 25 then ucast (reg_wz cpu)
      else 0)"

definition ecpu_z80_set_reg :: "z80_state \<Rightarrow> int \<Rightarrow> u32 \<Rightarrow> z80_state" where
  "ecpu_z80_set_reg cpu reg_id val =
     (if reg_id = 0 then cpu\<lparr>reg_a := ucast val\<rparr>
      else if reg_id = 1 then cpu\<lparr>reg_f := ucast val\<rparr>
      else if reg_id = 2 then cpu\<lparr>reg_b := ucast val\<rparr>
      else if reg_id = 3 then cpu\<lparr>reg_c := ucast val\<rparr>
      else if reg_id = 4 then cpu\<lparr>reg_d := ucast val\<rparr>
      else if reg_id = 5 then cpu\<lparr>reg_e := ucast val\<rparr>
      else if reg_id = 6 then cpu\<lparr>reg_h := ucast val\<rparr>
      else if reg_id = 7 then cpu\<lparr>reg_l := ucast val\<rparr>
      else if reg_id = 8 then z80_set_af cpu (ucast val)
      else if reg_id = 9 then z80_set_bc cpu (ucast val)
      else if reg_id = 10 then z80_set_de cpu (ucast val)
      else if reg_id = 11 then z80_set_hl cpu (ucast val)
      else if reg_id = 12 then cpu\<lparr>reg_ix := ucast val\<rparr>
      else if reg_id = 13 then cpu\<lparr>reg_iy := ucast val\<rparr>
      else if reg_id = 14 then cpu\<lparr>reg_sp := ucast val\<rparr>
      else if reg_id = 15 then cpu\<lparr>reg_pc := ucast val\<rparr>
      else if reg_id = 16 then cpu\<lparr>reg_i := ucast val\<rparr>
      else if reg_id = 17 then cpu\<lparr>reg_r := ucast val\<rparr>
      else if reg_id = 18 then
        cpu\<lparr>reg_a2 := ucast (drop_bit 8 val), reg_f2 := ucast (val AND 0xFF)\<rparr>
      else if reg_id = 19 then
        cpu\<lparr>reg_b2 := ucast (drop_bit 8 val), reg_c2 := ucast (val AND 0xFF)\<rparr>
      else if reg_id = 20 then
        cpu\<lparr>reg_d2 := ucast (drop_bit 8 val), reg_e2 := ucast (val AND 0xFF)\<rparr>
      else if reg_id = 21 then
        cpu\<lparr>reg_h2 := ucast (drop_bit 8 val), reg_l2 := ucast (val AND 0xFF)\<rparr>
      else if reg_id = 22 then cpu\<lparr>iff1 := ucast val\<rparr>
      else if reg_id = 23 then cpu\<lparr>iff2 := ucast val\<rparr>
      else if reg_id = 24 then cpu\<lparr>im := ucast val\<rparr>
      else if reg_id = 25 then cpu\<lparr>reg_wz := ucast val\<rparr>
      else cpu)"

text \<open>\<^verbatim>\<open>translate_ptr\<close> returns \<^verbatim>\<open>memory + guest_addr\<close> or NULL; the model returns the offset. The
  sum in its check is a \<^verbatim>\<open>uint32_t\<close> and wraps.\<close>

definition ecpu_z80_translate_ptr :: "z80_state \<Rightarrow> u32 \<Rightarrow> u32 \<Rightarrow> u32 option" where
  "ecpu_z80_translate_ptr cpu guest_addr sz =
     (if guest_addr + sz > mem_size cpu then None else Some guest_addr)"

definition ecpu_z80_read8_op :: "z80_state \<Rightarrow> u32 \<Rightarrow> u8" where
  "ecpu_z80_read8_op cpu addr = memory cpu (ucast addr)"

definition ecpu_z80_write8_op :: "z80_state \<Rightarrow> u32 \<Rightarrow> u8 \<Rightarrow> z80_state" where
  "ecpu_z80_write8_op cpu addr val = cpu\<lparr>memory := (memory cpu)(ucast addr := val)\<rparr>"

definition ecpu_z80_read16_op :: "z80_state \<Rightarrow> u32 \<Rightarrow> u16" where
  "ecpu_z80_read16_op cpu addr = z80_read16 cpu (ucast addr)"

definition ecpu_z80_write16_op :: "z80_state \<Rightarrow> u32 \<Rightarrow> u16 \<Rightarrow> z80_state" where
  "ecpu_z80_write16_op cpu addr val = z80_write16 cpu (ucast addr) val"

definition ecpu_z80_read32_op :: "z80_state \<Rightarrow> u32 \<Rightarrow> u32" where
  "ecpu_z80_read32_op cpu addr =
     ucast (z80_read16 cpu (ucast addr)) OR
     push_bit 16 (ucast (z80_read16 cpu (ucast (addr + 2))))"

definition ecpu_z80_write32_op :: "z80_state \<Rightarrow> u32 \<Rightarrow> u32 \<Rightarrow> z80_state" where
  "ecpu_z80_write32_op cpu addr val =
     (let cpu = z80_write16 cpu (ucast addr) (ucast (val AND 0xFFFF))
      in z80_write16 cpu (ucast (addr + 2)) (ucast (drop_bit 16 val)))"

subsection \<open>Read-back laws\<close>

lemmas z80_pair_defs =
  z80_af_def z80_set_af_def z80_bc_def z80_set_bc_def z80_de_def z80_set_de_def
  z80_hl_def z80_set_hl_def

lemma z80_pair_get_set [simp]:
  "z80_af (z80_set_af cpu v) = v" "z80_bc (z80_set_bc cpu v) = v"
  "z80_de (z80_set_de cpu v) = v" "z80_hl (z80_set_hl cpu v) = v"
  by (simp_all add: z80_pair_defs)

lemma z80_pair_frame [simp]:
  "z80_bc (z80_set_de cpu v) = z80_bc cpu" "z80_bc (z80_set_hl cpu v) = z80_bc cpu"
  "z80_de (z80_set_bc cpu v) = z80_de cpu" "z80_de (z80_set_hl cpu v) = z80_de cpu"
  "z80_hl (z80_set_bc cpu v) = z80_hl cpu" "z80_hl (z80_set_de cpu v) = z80_hl cpu"
  "reg_a (z80_set_bc cpu v) = reg_a cpu" "reg_a (z80_set_de cpu v) = reg_a cpu"
  "reg_a (z80_set_hl cpu v) = reg_a cpu" "memory (z80_set_bc cpu v) = memory cpu"
  "memory (z80_set_de cpu v) = memory cpu" "memory (z80_set_hl cpu v) = memory cpu"
  "reg_pc (z80_set_bc cpu v) = reg_pc cpu" "reg_pc (z80_set_de cpu v) = reg_pc cpu"
  "reg_pc (z80_set_hl cpu v) = reg_pc cpu" "reg_f (z80_set_bc cpu v) = reg_f cpu"
  "reg_f (z80_set_de cpu v) = reg_f cpu" "reg_f (z80_set_hl cpu v) = reg_f cpu"
  by (simp_all add: z80_pair_defs)

lemma word_add_1_neq [simp]: "(a :: 'a::len word) + 1 \<noteq> a" "a \<noteq> a + 1"
  by simp_all

lemma z80_read16_write16 [simp]: "z80_read16 (z80_write16 cpu addr v) addr = v"
  by (simp add: z80_read16_def z80_write16_def)

lemma z80_pop16_push16: "z80_pop16 (z80_push16 cpu v) = (v, cpu\<lparr>memory := memory (z80_push16 cpu v)\<rparr>)"
  by (simp add: z80_pop16_def z80_push16_def z80_read16_def Let_def)

lemma z80_push16_frame:
  assumes "addr \<noteq> reg_sp cpu - 1" and "addr \<noteq> reg_sp cpu - 2"
  shows "memory (z80_push16 cpu v) addr = memory cpu addr"
  using assms by (simp add: z80_push16_def Let_def)

text \<open>Width of a register identifier: what a caller can store and read back unchanged.\<close>

definition z80_reg_bits :: "int \<Rightarrow> nat" where
  "z80_reg_bits r =
     (if r \<in> {0, 1, 2, 3, 4, 5, 6, 7, 16, 17, 22, 23, 24} then 8
      else if r \<in> {8, 9, 10, 11, 12, 13, 14, 15, 18, 19, 20, 21, 25} then 16 else 0)"

lemma take_bit_small: "unat (v :: u32) < 2 ^ n \<Longrightarrow> take_bit n v = v"
  by (simp add: word_eq_iff_unsigned [where 'a = nat] unsigned_take_bit_eq take_bit_nat_eq_self)

lemma ucast_ucast_32:
  "(ucast (ucast (v :: u32) :: u8) :: u32) = take_bit 8 v"
  "(ucast (ucast v :: u16) :: u32) = take_bit 16 v"
  by (rule bit_word_eqI; force simp: bit_simps)+

lemma ucast_mk16_32: "mk16 (ucast (drop_bit 8 (v :: u32))) (ucast (v AND 0xFF)) = ucast v"
  by (rule bit_word_eqI) (auto simp: bit_mk16 bit_simps and_FF_take_bit)

text \<open>The debugger and personality interface reads back what it writes. For every
  register identifier 0..25 of the operations table, storing a value that fits the register's
  width and reading the same identifier returns the value.\<close>

theorem z80_get_set_reg:
  assumes "0 \<le> r" and "r \<le> 25" and "unat v < 2 ^ z80_reg_bits r"
  shows "ecpu_z80_get_reg (ecpu_z80_set_reg cpu r v) r = v"
proof -
  have "r \<in> set [0..25]" using assms(1,2) by simp
  then show ?thesis
    using assms(3) unfolding z80_reg_bits_def ecpu_z80_set_reg_def ecpu_z80_get_reg_def
    by (simp add: upto_rec1) (elim disjE; simp add: ucast_ucast_32 ucast_mk16_32 take_bit_small)
qed

theorem z80_get_set_reg_witness:
  "ecpu_z80_get_reg (ecpu_z80_set_reg (ecpu_z80_init (\<lambda>_. 0) 0x10000) 19 0xBEEF) 19 = 0xBEEF"
proof (rule z80_get_set_reg)
  show "unat (0xBEEF :: u32) < 2 ^ z80_reg_bits 19" by (simp add: z80_reg_bits_def)
qed simp_all

lemma z80_read32_write32 [simp]:
  "ecpu_z80_read32_op (ecpu_z80_write32_op cpu addr v) addr = v"
proof -
  have "(ucast (addr + 2) :: u16) = ucast addr + 2"
    by (simp add: ucast_down_add)
  then have "ecpu_z80_read32_op (ecpu_z80_write32_op cpu addr v) addr =
      ucast (ucast (take_bit 16 v) :: u16) OR push_bit 16 (ucast (ucast (drop_bit 16 v) :: u16))"
    by (simp add: ecpu_z80_read32_op_def ecpu_z80_write32_op_def Let_def z80_read16_def
        z80_write16_def and_FFFF_take_bit)
  also have "\<dots> = v"
    by (rule bit_word_eqI) (auto simp: bit_simps)
  finally show ?thesis .
qed

text \<open>The bounds check of \<^verbatim>\<open>translate_ptr\<close> is the intended one as long as address plus size does
  not wrap in 32 bits; where it wraps, a range outside the guest memory is accepted.\<close>

lemma z80_translate_ptr_bounds:
  assumes "unat guest_addr + unat sz < 2 ^ 32"
  shows "ecpu_z80_translate_ptr cpu guest_addr sz = Some guest_addr \<longleftrightarrow>
    unat guest_addr + unat sz \<le> unat (mem_size cpu)"
proof -
  have "unat (guest_addr + sz) = unat guest_addr + unat sz"
    using assms by (simp add: unat_word_ariths)
  then show ?thesis by (simp add: ecpu_z80_translate_ptr_def word_less_nat_alt not_less [symmetric])
qed

lemma z80_translate_ptr_wraps:
  "ecpu_z80_translate_ptr (ecpu_z80_init m 0x10000) 0xFFFFFFFF 2 = Some 0xFFFFFFFF"
  by (simp add: ecpu_z80_translate_ptr_def ecpu_z80_init_def)

end
