(* ===== verification/Z80_ALU.thy ===== *)
theory Z80_ALU
  imports Z80_State
begin

text \<open>
  The Z80 arithmetic unit, \<^verbatim>\<open>src/kernel/core/cpu/ecpu_z80_alu.c\<close>, one definition per C
  function. C's integer promotions are written out: an 8-bit sum or difference is formed at the
  width of the C variable it is stored in, and the flag tests read that variable. The lemmas relate
  every flag the code computes to the arithmetic fact the flag stands for (unsigned carry and
  borrow, half carry, signed overflow, sign, zero, parity), and show that DAA after ADD is decimal
  addition.
\<close>

text \<open>\<^verbatim>\<open>z80_parity_table\<close>: FLAG_PV for bytes with an even number of set bits.\<close>

definition z80_parity_table :: "u8 list" where
  "z80_parity_table =
     [
      4, 0, 0, 4, 0, 4, 4, 0, 0, 4, 4, 0, 4, 0, 0, 4,
      0, 4, 4, 0, 4, 0, 0, 4, 4, 0, 0, 4, 0, 4, 4, 0,
      0, 4, 4, 0, 4, 0, 0, 4, 4, 0, 0, 4, 0, 4, 4, 0,
      4, 0, 0, 4, 0, 4, 4, 0, 0, 4, 4, 0, 4, 0, 0, 4,
      0, 4, 4, 0, 4, 0, 0, 4, 4, 0, 0, 4, 0, 4, 4, 0,
      4, 0, 0, 4, 0, 4, 4, 0, 0, 4, 4, 0, 4, 0, 0, 4,
      4, 0, 0, 4, 0, 4, 4, 0, 0, 4, 4, 0, 4, 0, 0, 4,
      0, 4, 4, 0, 4, 0, 0, 4, 4, 0, 0, 4, 0, 4, 4, 0,
      0, 4, 4, 0, 4, 0, 0, 4, 4, 0, 0, 4, 0, 4, 4, 0,
      4, 0, 0, 4, 0, 4, 4, 0, 0, 4, 4, 0, 4, 0, 0, 4,
      4, 0, 0, 4, 0, 4, 4, 0, 0, 4, 4, 0, 4, 0, 0, 4,
      0, 4, 4, 0, 4, 0, 0, 4, 4, 0, 0, 4, 0, 4, 4, 0,
      4, 0, 0, 4, 0, 4, 4, 0, 0, 4, 4, 0, 4, 0, 0, 4,
      0, 4, 4, 0, 4, 0, 0, 4, 4, 0, 0, 4, 0, 4, 4, 0,
      0, 4, 4, 0, 4, 0, 0, 4, 4, 0, 0, 4, 0, 4, 4, 0,
      4, 0, 0, 4, 0, 4, 4, 0, 0, 4, 4, 0, 4, 0, 0, 4]"

abbreviation parity_of :: "u8 \<Rightarrow> u8" where
  "parity_of v \<equiv> z80_parity_table ! unat v"

subsection \<open>8-bit operations\<close>

definition z80_add_a :: "z80_state \<Rightarrow> u8 \<Rightarrow> z80_state" where
  "z80_add_a cpu val =
     (let result = ucast (reg_a cpu) + ucast val :: u16;
          res8 = lo8 result;
          f = res8 AND FLAG_35;
          f = or_if (res8 = 0) FLAG_Z f;
          f = or_if (nz (res8 AND 0x80)) FLAG_S f;
          f = or_if (result > 0xFF) FLAG_C f;
          f = or_if (nz ((reg_a cpu XOR val XOR res8) AND 0x10)) FLAG_H f;
          f = or_if (nz ((NOT (reg_a cpu XOR val) AND (reg_a cpu XOR res8)) AND 0x80)) FLAG_PV f
      in cpu\<lparr>reg_f := f, reg_a := res8\<rparr>)"

definition z80_adc_a :: "z80_state \<Rightarrow> u8 \<Rightarrow> z80_state" where
  "z80_adc_a cpu val =
     (let carry = reg_f cpu AND FLAG_C;
          result = ucast (reg_a cpu) + ucast val + ucast carry :: u16;
          res8 = lo8 result;
          f = res8 AND FLAG_35;
          f = or_if (res8 = 0) FLAG_Z f;
          f = or_if (nz (res8 AND 0x80)) FLAG_S f;
          f = or_if (result > 0xFF) FLAG_C f;
          f = or_if (nz ((reg_a cpu XOR val XOR res8) AND 0x10)) FLAG_H f;
          f = or_if (nz ((NOT (reg_a cpu XOR val) AND (reg_a cpu XOR res8)) AND 0x80)) FLAG_PV f
      in cpu\<lparr>reg_f := f, reg_a := res8\<rparr>)"

definition z80_sub_a :: "z80_state \<Rightarrow> u8 \<Rightarrow> z80_state" where
  "z80_sub_a cpu val =
     (let result = ucast (reg_a cpu) - ucast val :: u16;
          res8 = lo8 result;
          f = (res8 AND FLAG_35) OR FLAG_N;
          f = or_if (res8 = 0) FLAG_Z f;
          f = or_if (nz (res8 AND 0x80)) FLAG_S f;
          f = or_if (result > 0xFF) FLAG_C f;
          f = or_if (nz ((reg_a cpu XOR val XOR res8) AND 0x10)) FLAG_H f;
          f = or_if (nz (((reg_a cpu XOR val) AND (reg_a cpu XOR res8)) AND 0x80)) FLAG_PV f
      in cpu\<lparr>reg_f := f, reg_a := res8\<rparr>)"

definition z80_sbc_a :: "z80_state \<Rightarrow> u8 \<Rightarrow> z80_state" where
  "z80_sbc_a cpu val =
     (let carry = reg_f cpu AND FLAG_C;
          result = ucast (reg_a cpu) - ucast val - ucast carry :: u16;
          res8 = lo8 result;
          f = (res8 AND FLAG_35) OR FLAG_N;
          f = or_if (res8 = 0) FLAG_Z f;
          f = or_if (nz (res8 AND 0x80)) FLAG_S f;
          f = or_if (result > 0xFF) FLAG_C f;
          f = or_if (nz ((reg_a cpu XOR val XOR res8) AND 0x10)) FLAG_H f;
          f = or_if (nz (((reg_a cpu XOR val) AND (reg_a cpu XOR res8)) AND 0x80)) FLAG_PV f
      in cpu\<lparr>reg_f := f, reg_a := res8\<rparr>)"

definition z80_and_a :: "z80_state \<Rightarrow> u8 \<Rightarrow> z80_state" where
  "z80_and_a cpu val =
     (let a = reg_a cpu AND val;
          f = (a AND FLAG_35) OR FLAG_H;
          f = or_if (a = 0) FLAG_Z f;
          f = or_if (nz (a AND 0x80)) FLAG_S f
      in cpu\<lparr>reg_a := a, reg_f := f OR parity_of a\<rparr>)"

definition z80_xor_a :: "z80_state \<Rightarrow> u8 \<Rightarrow> z80_state" where
  "z80_xor_a cpu val =
     (let a = reg_a cpu XOR val;
          f = a AND FLAG_35;
          f = or_if (a = 0) FLAG_Z f;
          f = or_if (nz (a AND 0x80)) FLAG_S f
      in cpu\<lparr>reg_a := a, reg_f := f OR parity_of a\<rparr>)"

definition z80_or_a :: "z80_state \<Rightarrow> u8 \<Rightarrow> z80_state" where
  "z80_or_a cpu val =
     (let a = reg_a cpu OR val;
          f = a AND FLAG_35;
          f = or_if (a = 0) FLAG_Z f;
          f = or_if (nz (a AND 0x80)) FLAG_S f
      in cpu\<lparr>reg_a := a, reg_f := f OR parity_of a\<rparr>)"

definition z80_cp_a :: "z80_state \<Rightarrow> u8 \<Rightarrow> z80_state" where
  "z80_cp_a cpu val =
     (let result = ucast (reg_a cpu) - ucast val :: u16;
          res8 = lo8 result;
          f = (val AND FLAG_35) OR FLAG_N;
          f = or_if (res8 = 0) FLAG_Z f;
          f = or_if (nz (res8 AND 0x80)) FLAG_S f;
          f = or_if (result > 0xFF) FLAG_C f;
          f = or_if (nz ((reg_a cpu XOR val XOR res8) AND 0x10)) FLAG_H f;
          f = or_if (nz (((reg_a cpu XOR val) AND (reg_a cpu XOR res8)) AND 0x80)) FLAG_PV f
      in cpu\<lparr>reg_f := f\<rparr>)"

definition z80_alu_op :: "z80_state \<Rightarrow> u8 \<Rightarrow> u8 \<Rightarrow> z80_state" where
  "z80_alu_op cpu op val =
     (if op = 0 then z80_add_a cpu val
      else if op = 1 then z80_adc_a cpu val
      else if op = 2 then z80_sub_a cpu val
      else if op = 3 then z80_sbc_a cpu val
      else if op = 4 then z80_and_a cpu val
      else if op = 5 then z80_xor_a cpu val
      else if op = 6 then z80_or_a cpu val
      else if op = 7 then z80_cp_a cpu val
      else cpu)"

definition z80_inc8 :: "z80_state \<Rightarrow> u8 \<Rightarrow> u8 \<times> z80_state" where
  "z80_inc8 cpu val =
     (let res = val + 1;
          f = (reg_f cpu AND FLAG_C) OR (res AND FLAG_35) OR sel (res = 0) FLAG_Z OR (res AND 0x80)
              OR sel (val AND 0x0F = 0x0F) FLAG_H OR sel (val = 0x7F) FLAG_PV
      in (res, cpu\<lparr>reg_f := f\<rparr>))"

definition z80_dec8 :: "z80_state \<Rightarrow> u8 \<Rightarrow> u8 \<times> z80_state" where
  "z80_dec8 cpu val =
     (let res = val - 1;
          f = (reg_f cpu AND FLAG_C) OR (res AND FLAG_35) OR FLAG_N OR sel (res = 0) FLAG_Z
              OR (res AND 0x80) OR sel (val AND 0x0F = 0x00) FLAG_H OR sel (val = 0x80) FLAG_PV
      in (res, cpu\<lparr>reg_f := f\<rparr>))"

subsection \<open>16-bit operations\<close>

definition z80_add_hl :: "z80_state \<Rightarrow> u16 \<Rightarrow> z80_state" where
  "z80_add_hl cpu val =
     (let hl = z80_hl cpu;
          result = ucast hl + ucast val :: u32;
          res16 = ucast (result AND 0xFFFF) :: u16;
          f = (reg_f cpu AND (FLAG_S OR FLAG_Z OR FLAG_PV)) OR (hi8 res16 AND FLAG_35)
              OR sel (result > 0xFFFF) FLAG_C
              OR sel (nz (drop_bit 8 (hl XOR val XOR res16) AND 0x10)) FLAG_H;
          cpu = z80_set_hl (cpu\<lparr>reg_f := f\<rparr>) res16
      in cpu\<lparr>reg_wz := hl + 1\<rparr>)"

definition z80_adc_hl :: "z80_state \<Rightarrow> u16 \<Rightarrow> z80_state" where
  "z80_adc_hl cpu val =
     (let hl = z80_hl cpu;
          carry = reg_f cpu AND FLAG_C;
          result = ucast hl + ucast val + ucast carry :: u32;
          res16 = ucast (result AND 0xFFFF) :: u16;
          f = (hi8 res16 AND (FLAG_S OR FLAG_35)) OR sel (res16 = 0) FLAG_Z
              OR sel (result > 0xFFFF) FLAG_C
              OR sel (nz (drop_bit 8 (hl XOR val XOR res16) AND 0x10)) FLAG_H
              OR sel (nz (drop_bit 8 (NOT (hl XOR val) AND (hl XOR res16)) AND 0x80)) FLAG_PV;
          cpu = z80_set_hl (cpu\<lparr>reg_f := f\<rparr>) res16
      in cpu\<lparr>reg_wz := hl + 1\<rparr>)"

definition z80_sbc_hl :: "z80_state \<Rightarrow> u16 \<Rightarrow> z80_state" where
  "z80_sbc_hl cpu val =
     (let hl = z80_hl cpu;
          carry = reg_f cpu AND FLAG_C;
          result = ucast hl - ucast val - ucast carry :: u32;
          res16 = ucast (result AND 0xFFFF) :: u16;
          f = (hi8 res16 AND (FLAG_S OR FLAG_35)) OR FLAG_N OR sel (res16 = 0) FLAG_Z
              OR sel (result > 0xFFFF) FLAG_C
              OR sel (nz (drop_bit 8 (hl XOR val XOR res16) AND 0x10)) FLAG_H
              OR sel (nz (drop_bit 8 ((hl XOR val) AND (hl XOR res16)) AND 0x80)) FLAG_PV;
          cpu = z80_set_hl (cpu\<lparr>reg_f := f\<rparr>) res16
      in cpu\<lparr>reg_wz := hl + 1\<rparr>)"

text \<open>\<^verbatim>\<open>z80_add_ix\<close> takes a pointer to IX or IY; \<open>idx\<close> names the register pointed to.\<close>

datatype idx = IX | IY

fun get_idx :: "z80_state \<Rightarrow> idx \<Rightarrow> u16" where
  "get_idx cpu IX = reg_ix cpu"
| "get_idx cpu IY = reg_iy cpu"

fun set_idx :: "z80_state \<Rightarrow> idx \<Rightarrow> u16 \<Rightarrow> z80_state" where
  "set_idx cpu IX v = cpu\<lparr>reg_ix := v\<rparr>"
| "set_idx cpu IY v = cpu\<lparr>reg_iy := v\<rparr>"

definition z80_add_ix :: "z80_state \<Rightarrow> idx \<Rightarrow> u16 \<Rightarrow> z80_state" where
  "z80_add_ix cpu idx val =
     (let ix = get_idx cpu idx;
          result = ucast ix + ucast val :: u32;
          res16 = ucast (result AND 0xFFFF) :: u16;
          f = (reg_f cpu AND (FLAG_S OR FLAG_Z OR FLAG_PV)) OR (hi8 res16 AND FLAG_35)
              OR sel (result > 0xFFFF) FLAG_C
              OR sel (nz (drop_bit 8 (ix XOR val XOR res16) AND 0x10)) FLAG_H;
          cpu = set_idx (cpu\<lparr>reg_f := f\<rparr>) idx res16
      in cpu\<lparr>reg_wz := ix + 1\<rparr>)"

subsection \<open>Accumulator rotates, DAA, CPL, SCF, CCF\<close>

definition z80_rlca :: "z80_state \<Rightarrow> z80_state" where
  "z80_rlca cpu =
     (let carry = drop_bit 7 (reg_a cpu) AND 1;
          a = push_bit 1 (reg_a cpu) OR carry
      in cpu\<lparr>reg_a := a,
             reg_f := (reg_f cpu AND (FLAG_S OR FLAG_Z OR FLAG_PV)) OR (a AND FLAG_35) OR carry\<rparr>)"

definition z80_rrca :: "z80_state \<Rightarrow> z80_state" where
  "z80_rrca cpu =
     (let carry = reg_a cpu AND 1;
          a = drop_bit 1 (reg_a cpu) OR push_bit 7 carry
      in cpu\<lparr>reg_a := a,
             reg_f := (reg_f cpu AND (FLAG_S OR FLAG_Z OR FLAG_PV)) OR (a AND FLAG_35) OR carry\<rparr>)"

definition z80_rla :: "z80_state \<Rightarrow> z80_state" where
  "z80_rla cpu =
     (let old_carry = reg_f cpu AND FLAG_C;
          new_carry = drop_bit 7 (reg_a cpu) AND 1;
          a = push_bit 1 (reg_a cpu) OR old_carry
      in cpu\<lparr>reg_a := a,
             reg_f := (reg_f cpu AND (FLAG_S OR FLAG_Z OR FLAG_PV)) OR (a AND FLAG_35)
                      OR new_carry\<rparr>)"

definition z80_rra :: "z80_state \<Rightarrow> z80_state" where
  "z80_rra cpu =
     (let old_carry = reg_f cpu AND FLAG_C;
          new_carry = reg_a cpu AND 1;
          a = drop_bit 1 (reg_a cpu) OR push_bit 7 old_carry
      in cpu\<lparr>reg_a := a,
             reg_f := (reg_f cpu AND (FLAG_S OR FLAG_Z OR FLAG_PV)) OR (a AND FLAG_35)
                      OR new_carry\<rparr>)"

definition z80_daa :: "z80_state \<Rightarrow> z80_state" where
  "z80_daa cpu =
     (let a = reg_a cpu;
          carry = reg_f cpu AND FLAG_C;
          correction = or_if (nz (reg_f cpu AND FLAG_H) \<or> a AND 0x0F > 9) 0x06 0;
          (correction, carry) =
            (if nz carry \<or> a > 0x99 then (correction OR 0x60, FLAG_C) else (correction, carry));
          a' = (if nz (reg_f cpu AND FLAG_N) then a - correction else a + correction);
          f = (reg_f cpu AND FLAG_N) OR carry;
          f = f OR (a' AND FLAG_35);
          f = or_if (a' = 0) FLAG_Z f;
          f = or_if (nz (a' AND 0x80)) FLAG_S f;
          f = f OR parity_of a';
          f = (if nz (f AND FLAG_N)
               then f OR sel (a AND 0x0F < correction AND 0x0F) FLAG_H
               else f OR sel ((a AND 0x0F) + (correction AND 0x0F) > 0x0F) FLAG_H)
      in cpu\<lparr>reg_a := a', reg_f := f\<rparr>)"

definition z80_cpl :: "z80_state \<Rightarrow> z80_state" where
  "z80_cpl cpu =
     (let a = NOT (reg_a cpu)
      in cpu\<lparr>reg_a := a,
             reg_f := (reg_f cpu AND (FLAG_S OR FLAG_Z OR FLAG_PV OR FLAG_C)) OR (a AND FLAG_35)
                      OR FLAG_H OR FLAG_N\<rparr>)"

definition z80_scf :: "z80_state \<Rightarrow> z80_state" where
  "z80_scf cpu =
     (let f35 = (reg_a cpu OR reg_f cpu) AND FLAG_35
      in cpu\<lparr>reg_f := (reg_f cpu AND (FLAG_S OR FLAG_Z OR FLAG_PV)) OR f35 OR FLAG_C\<rparr>)"

definition z80_ccf :: "z80_state \<Rightarrow> z80_state" where
  "z80_ccf cpu =
     (let f35 = (reg_a cpu OR reg_f cpu) AND FLAG_35;
          old_c = reg_f cpu AND FLAG_C
      in cpu\<lparr>reg_f := (reg_f cpu AND (FLAG_S OR FLAG_Z OR FLAG_PV)) OR f35
                      OR sel (nz old_c) FLAG_H OR sel (\<not> nz old_c) FLAG_C\<rparr>)"

subsection \<open>CB-prefix shifts, rotates and bit test\<close>

definition cb_flags :: "z80_state \<Rightarrow> u8 \<Rightarrow> u8 \<Rightarrow> u8 \<times> z80_state" where
  "cb_flags cpu res carry =
     (res, cpu\<lparr>reg_f := (res AND (FLAG_S OR FLAG_35)) OR parity_of res OR sel (res = 0) FLAG_Z
                        OR carry\<rparr>)"

definition z80_rlc :: "z80_state \<Rightarrow> u8 \<Rightarrow> u8 \<times> z80_state" where
  "z80_rlc cpu val =
     (let carry = drop_bit 7 val AND 1 in cb_flags cpu (push_bit 1 val OR carry) carry)"

definition z80_rrc :: "z80_state \<Rightarrow> u8 \<Rightarrow> u8 \<times> z80_state" where
  "z80_rrc cpu val =
     (let carry = val AND 1 in cb_flags cpu (drop_bit 1 val OR push_bit 7 carry) carry)"

definition z80_rl :: "z80_state \<Rightarrow> u8 \<Rightarrow> u8 \<times> z80_state" where
  "z80_rl cpu val =
     (let old_c = reg_f cpu AND FLAG_C; carry = drop_bit 7 val AND 1
      in cb_flags cpu (push_bit 1 val OR old_c) carry)"

definition z80_rr :: "z80_state \<Rightarrow> u8 \<Rightarrow> u8 \<times> z80_state" where
  "z80_rr cpu val =
     (let old_c = reg_f cpu AND FLAG_C; carry = val AND 1
      in cb_flags cpu (drop_bit 1 val OR push_bit 7 old_c) carry)"

definition z80_sla :: "z80_state \<Rightarrow> u8 \<Rightarrow> u8 \<times> z80_state" where
  "z80_sla cpu val = (let carry = drop_bit 7 val AND 1 in cb_flags cpu (push_bit 1 val) carry)"

definition z80_sra :: "z80_state \<Rightarrow> u8 \<Rightarrow> u8 \<times> z80_state" where
  "z80_sra cpu val =
     (let carry = val AND 1 in cb_flags cpu (drop_bit 1 val OR (val AND 0x80)) carry)"

definition z80_sll :: "z80_state \<Rightarrow> u8 \<Rightarrow> u8 \<times> z80_state" where
  "z80_sll cpu val = (let carry = drop_bit 7 val AND 1 in cb_flags cpu (push_bit 1 val OR 1) carry)"

definition z80_srl :: "z80_state \<Rightarrow> u8 \<Rightarrow> u8 \<times> z80_state" where
  "z80_srl cpu val = (let carry = val AND 1 in cb_flags cpu (drop_bit 1 val) carry)"

text \<open>\<^verbatim>\<open>1 << bit\<close> is an \<^verbatim>\<open>int\<close>; masked with a byte only its low eight bits matter.\<close>

definition z80_bit :: "z80_state \<Rightarrow> u8 \<Rightarrow> u8 \<Rightarrow> z80_state" where
  "z80_bit cpu b val =
     (let result = val AND push_bit (unat b) 1
      in cpu\<lparr>reg_f := (reg_f cpu AND FLAG_C) OR FLAG_H
                      OR (if nz result then result AND FLAG_S else FLAG_Z OR FLAG_PV)
                      OR (val AND FLAG_35)\<rparr>)"

subsection \<open>What the flags mean\<close>

text \<open>The contract of an 8-bit addition of \<open>v\<close> and a carry-in \<open>k\<close> to \<open>a\<close> with result \<open>r\<close> and
  flag byte \<open>f\<close> (bit 0 C, 1 N, 2 PV, 3 and 5 undocumented, 4 H, 6 Z, 7 S), and of the subtraction;
  \<open>w\<close> is the byte the undocumented bits are copied from.\<close>

definition alu_add_spec :: "u8 \<Rightarrow> u8 \<Rightarrow> nat \<Rightarrow> u8 \<Rightarrow> u8 \<Rightarrow> bool" where
  "alu_add_spec a v k r f \<longleftrightarrow>
     unat r = (unat a + unat v + k) mod 256
     \<and> (bit f 0 \<longleftrightarrow> 256 \<le> unat a + unat v + k)
     \<and> \<not> bit f 1
     \<and> (bit f 2 \<longleftrightarrow> sint a + sint v + int k \<notin> {- 128..127})
     \<and> (bit f 4 \<longleftrightarrow> 16 \<le> unat a mod 16 + unat v mod 16 + k)
     \<and> (bit f 6 \<longleftrightarrow> r = 0)
     \<and> (bit f 7 \<longleftrightarrow> sint r < 0)
     \<and> (bit f 3 \<longleftrightarrow> bit r 3) \<and> (bit f 5 \<longleftrightarrow> bit r 5)"

definition alu_sub_spec :: "u8 \<Rightarrow> u8 \<Rightarrow> nat \<Rightarrow> u8 \<Rightarrow> u8 \<Rightarrow> u8 \<Rightarrow> bool" where
  "alu_sub_spec a v k r w f \<longleftrightarrow>
     int (unat r) = (int (unat a) - int (unat v) - int k) mod 256
     \<and> (bit f 0 \<longleftrightarrow> unat a < unat v + k)
     \<and> bit f 1
     \<and> (bit f 2 \<longleftrightarrow> sint a - sint v - int k \<notin> {- 128..127})
     \<and> (bit f 4 \<longleftrightarrow> unat a mod 16 < unat v mod 16 + k)
     \<and> (bit f 6 \<longleftrightarrow> r = 0)
     \<and> (bit f 7 \<longleftrightarrow> sint r < 0)
     \<and> (bit f 3 \<longleftrightarrow> bit w 3) \<and> (bit f 5 \<longleftrightarrow> bit w 5)"

lemma add_overflow_bit:
  fixes a v c :: u8
  assumes "unat c \<le> 1"
  shows "bit a 7 = bit v 7 \<and> bit a 7 \<noteq> bit (a + v + c) 7 \<longleftrightarrow>
    sint a + sint v + int (unat c) \<notin> {- 128..127}"
proof -
  have "unat (a + v + c) = (unat a + unat v + unat c) mod 256"
    by (simp add: unat_word_ariths mod_simps)
  then show ?thesis
    using add_overflow_nat [of "unat a" 128 "unat v" "unat c" "unat (a + v + c)"] assms
    unfolding msb_u8 sint_u8 by simp
qed


lemma sub_overflow_bit:
  fixes a v c :: u8
  assumes "unat c \<le> 1"
  shows "bit a 7 \<noteq> bit v 7 \<and> bit a 7 \<noteq> bit (a - v - c) 7 \<longleftrightarrow>
    sint a - sint v - int (unat c) \<notin> {- 128..127}"
proof -
  have "unat a = unat (a - v - c + v + c)" by simp
  also have "\<dots> = (unat (a - v - c) + unat v + unat c) mod 256"
    unfolding unat_word_ariths by (simp add: mod_simps)
  finally have "unat a = (unat (a - v - c) + unat v + unat c) mod 256" .
  then show ?thesis
    using sub_overflow_nat [of "unat a" 128 "unat v" "unat c" "unat (a - v - c)"] assms
    unfolding msb_u8 sint_u8 by simp
qed

lemma sint_neg_u8: "sint (w :: u8) < 0 \<longleftrightarrow> bit w 7"
proof -
  have "int (unat w) < 256" by (simp only: of_nat_less_numeral_iff unat_u8_less)
  then show ?thesis unfolding msb_u8 sint_u8 by auto
qed

lemma borrow_u8:
  assumes "unat c \<le> 1"
  shows "(ucast (a :: u8) - ucast (v :: u8) - ucast c :: u16) > 0xFF \<longleftrightarrow> unat a < unat v + unat (c :: u8)"
proof -
  have "uint (ucast a - ucast v - ucast c :: u16) = (int (unat a) - int (unat v) - int (unat c)) mod 65536"
    by (simp add: uint_word_ariths mod_simps)
  moreover have "(i :: int) mod 65536 > 255 \<longleftrightarrow> i < 0" if "- 256 \<le> i" "i < 256" for i
  proof (cases "i < 0")
    case True
    have "i mod 65536 = (i + 65536) mod 65536" by simp
    also have "\<dots> = i + 65536" using that True by (intro mod_pos_pos_trivial) auto
    finally show ?thesis using that True by simp
  next
    case False
    then show ?thesis using that by simp
  qed
  moreover have "int (unat a) < 256" "int (unat v) < 256" "int (unat c) \<le> 1"
    using assms by (simp_all only: of_nat_less_numeral_iff of_nat_le_1_iff unat_u8_less)
  then have "- 256 \<le> int (unat a) - int (unat v) - int (unat c)"
    "int (unat a) - int (unat v) - int (unat c) < 256" by linarith+
  ultimately have "uint (ucast a - ucast v - ucast c :: u16) > 255 \<longleftrightarrow>
      int (unat a) - int (unat v) - int (unat c) < 0" by simp
  then show ?thesis unfolding word_less_def by (simp add: nat_less_iff flip: of_nat_less_iff [where 'a = int]) linarith
qed

lemma add_flags:
  fixes a v c :: u8
  assumes c: "unat c \<le> 1"
  defines "result \<equiv> ucast a + ucast v + ucast c :: u16"
  defines "r \<equiv> lo8 result"
  shows "alu_add_spec a v (unat c) r
    (or_if (nz ((NOT (a XOR v) AND (a XOR r)) AND 0x80)) FLAG_PV
      (or_if (nz ((a XOR v XOR r) AND 0x10)) FLAG_H
        (or_if (result > 0xFF) FLAG_C
          (or_if (nz (r AND 0x80)) FLAG_S (or_if (r = 0) FLAG_Z (r AND FLAG_35))))))"
proof -
  have r: "r = a + v + c" by (simp add: r_def result_def)
  have gt: "result > 0xFF \<longleftrightarrow> 256 \<le> unat a + unat v + unat c"
    using unat_u8_less [of a] unat_u8_less [of v] c
    by (simp add: result_def word_less_nat_alt unat_word_ariths del: unat_u8_less) linarith
  have u: "unat r = (unat a + unat v + unat c) mod 256"
    by (simp add: r unat_word_ariths mod_simps)
  have h: "bit a 4 = (bit v 4 = bit r 4) \<longleftrightarrow> 16 \<le> unat a mod 16 + unat v mod 16 + unat c"
    using bit_word_add [of 4 c a v] c by (auto simp: r)
  have o: "(bit a 7 = bit v 7 \<and> bit a 7 = (\<not> bit r 7)) \<longleftrightarrow> sint a + sint v + int (unat c) \<notin> {- 128..127}"
    using add_overflow_bit [OF c, of a v] by (auto simp: r)
  show ?thesis
    unfolding alu_add_spec_def o [symmetric] sint_neg_u8
    using u h gt by (simp add: flag_bits bit_simps)
qed

lemma sub_flags:
  fixes a v c w :: u8
  assumes c: "unat c \<le> 1"
  defines "result \<equiv> ucast a - ucast v - ucast c :: u16"
  defines "r \<equiv> lo8 result"
  shows "alu_sub_spec a v (unat c) r w
    (or_if (nz (((a XOR v) AND (a XOR r)) AND 0x80)) FLAG_PV
      (or_if (nz ((a XOR v XOR r) AND 0x10)) FLAG_H
        (or_if (result > 0xFF) FLAG_C
          (or_if (nz (r AND 0x80)) FLAG_S (or_if (r = 0) FLAG_Z ((w AND FLAG_35) OR FLAG_N))))))"
proof -
  have r: "r = a - v - c" by (simp add: r_def result_def)
  have gt: "result > 0xFF \<longleftrightarrow> unat a < unat v + unat c"
    unfolding result_def by (rule borrow_u8 [OF c])
  have u: "int (unat r) = (int (unat a) - int (unat v) - int (unat c)) mod 256"
    by (simp add: r uint_word_ariths mod_simps)
  have h: "bit a 4 = (bit v 4 = bit r 4) \<longleftrightarrow> unat a mod 16 < unat v mod 16 + unat c"
    using bit_word_sub [of 4 c a v] c by (auto simp: r)
  have o: "(bit a 7 = (\<not> bit v 7) \<and> bit a 7 = (\<not> bit r 7)) \<longleftrightarrow> sint a - sint v - int (unat c) \<notin> {- 128..127}"
    using sub_overflow_bit [OF c, of a v] by (auto simp: r)
  show ?thesis
    unfolding alu_sub_spec_def o [symmetric] sint_neg_u8
    using u h gt by (simp add: flag_bits bit_simps)
qed

lemma z80_add_a_flags:
  "alu_add_spec (reg_a cpu) val 0 (reg_a (z80_add_a cpu val)) (reg_f (z80_add_a cpu val))"
  using add_flags [of 0 "reg_a cpu" val] by (simp add: z80_add_a_def Let_def)

lemma z80_adc_a_flags:
  "alu_add_spec (reg_a cpu) val (of_bool (bit (reg_f cpu) 0))
     (reg_a (z80_adc_a cpu val)) (reg_f (z80_adc_a cpu val))"
  using add_flags [of "reg_f cpu AND FLAG_C" "reg_a cpu" val]
  by (simp add: z80_adc_a_def Let_def unat_and_1)

lemma z80_sub_a_flags:
  "alu_sub_spec (reg_a cpu) val 0 (reg_a (z80_sub_a cpu val)) (reg_a (z80_sub_a cpu val))
     (reg_f (z80_sub_a cpu val))"
  using sub_flags [of 0 "reg_a cpu" val "reg_a cpu - val"] by (simp add: z80_sub_a_def Let_def)

lemma z80_cp_a_flags:
  "alu_sub_spec (reg_a cpu) val 0 (reg_a cpu - val) val (reg_f (z80_cp_a cpu val))"
  using sub_flags [of 0 "reg_a cpu" val val] by (simp add: z80_cp_a_def Let_def)

lemma z80_sbc_a_flags:
  "alu_sub_spec (reg_a cpu) val (of_bool (bit (reg_f cpu) 0)) (reg_a (z80_sbc_a cpu val))
     (reg_a (z80_sbc_a cpu val)) (reg_f (z80_sbc_a cpu val))"
  using sub_flags [of "reg_f cpu AND FLAG_C" "reg_a cpu" val "reg_a cpu - val - (reg_f cpu AND FLAG_C)"]
  by (simp add: z80_sbc_a_def Let_def unat_and_1)



lemma z80_parity_table_correct:
  "parity_of v = (if even (length (filter (bit v) [0..<8])) then FLAG_PV else 0)"
proof -
  have "\<forall>v :: u8. parity_of v = (if even (length (filter (bit v) [0..<8])) then FLAG_PV else 0)"
    unfolding all_u8 z80_parity_table_def by code_simp
  then show ?thesis by blast
qed

subsection \<open>Decimal adjustment\<close>

definition is_bcd :: "u8 \<Rightarrow> bool" where
  "is_bcd w \<longleftrightarrow> unat w div 16 \<le> 9 \<and> unat w mod 16 \<le> 9"

definition bcd_val :: "u8 \<Rightarrow> nat" where
  "bcd_val w = 10 * (unat w div 16) + unat w mod 16"

lemma z80_daa_add_unat:
  assumes "\<not> bit (reg_f cpu) 1"
  defines "lo \<equiv> bit (reg_f cpu) 4 \<or> 9 < unat (reg_a cpu) mod 16"
    and "hi \<equiv> bit (reg_f cpu) 0 \<or> 0x99 < unat (reg_a cpu)"
  shows "unat (reg_a (z80_daa cpu)) =
      (unat (reg_a cpu) + (if lo then 6 else 0) + (if hi then 0x60 else 0)) mod 256"
    and "bit (reg_f (z80_daa cpu)) 0 \<longleftrightarrow> hi"
proof -
  have n: "reg_f cpu AND FLAG_N = 0" using assms(1) nz_and_bit(2) [of "reg_f cpu"] by blast
  have lo: "nz (reg_f cpu AND FLAG_H) \<or> reg_a cpu AND 0x0F > 9 \<longleftrightarrow> lo"
    by (simp add: lo_def nz_and_bit word_less_nat_alt unat_and_0F)
  have hi: "nz (reg_f cpu AND FLAG_C) \<or> reg_a cpu > 0x99 \<longleftrightarrow> hi"
    by (simp add: hi_def nz_and_bit word_less_nat_alt)
  have par: "\<not> bit (parity_of v) 0" for v by (simp add: z80_parity_table_correct)
  show "unat (reg_a (z80_daa cpu)) =
      (unat (reg_a cpu) + (if lo then 6 else 0) + (if hi then 0x60 else 0)) mod 256"
    unfolding z80_daa_def Let_def lo hi by (simp add: n or_if_def unat_word_ariths mod_simps) (simp add: add.commute)
  show "bit (reg_f (z80_daa cpu)) 0 \<longleftrightarrow> hi"
    unfolding z80_daa_def Let_def lo hi by (simp add: n flag_bits bit_simps par hi_def nz_and_bit)
qed

lemma bcd_digits:
  fixes h l :: nat
  assumes "l \<le> 9" "h \<le> 9" "unat w = 16 * h + l"
  shows "is_bcd w \<and> bcd_val w = 10 * h + l"
  using assms by (simp add: is_bcd_def bcd_val_def)

lemma bcd_add_adjust:
  fixes h l :: nat
  assumes "h \<le> 18" "l \<le> 18"
  defines "a \<equiv> (16 * h + l) mod 256"
  defines "hi \<equiv> 256 \<le> 16 * h + l \<or> 0x99 < a"
  defines "lo \<equiv> 16 \<le> l \<or> 9 < a mod 16"
  defines "s \<equiv> 10 * h + l"
  shows "(a + (if lo then 6 else 0) + (if hi then 0x60 else 0)) mod 256 =
      16 * (s mod 100 div 10) + s mod 10"
    and "hi \<longleftrightarrow> 100 \<le> s"
proof -
  define d where "d = (if l < 10 then l else l - 10)"
  define t where "t = (if l < 10 then h else h + 1)"
  have d: "d < 10" and t: "t < 20" and s: "s = 10 * t + d"
    using assms(1,2) by (auto simp: d_def t_def s_def)
  have a: "a = (if 16 * h + l < 256 then 16 * h + l else 16 * h + l - 256)"
    using assms(1,2) by (simp add: a_def le_mod_geq not_less)
  have "a mod 16 = l mod 16" by (simp add: a_def mod_mod_cancel)
  then have lo: "lo \<longleftrightarrow> 10 \<le> l"
    using assms(2) by (cases "l < 16") (auto simp: lo_def)
  show hi: "hi \<longleftrightarrow> 100 \<le> s"
    using assms(1,2) unfolding hi_def a s_def by (cases "l < 10"; cases "h \<le> 8"; cases "h \<le> 9") auto
  have sm: "s mod 10 = d" "s mod 100 div 10 = (if t < 10 then t else t - 10)"
  proof -
    show "s mod 10 = d" using d by (simp add: s)
    show "s mod 100 div 10 = (if t < 10 then t else t - 10)"
      using d t by (auto simp: s mod_if)
  qed
  have h: "hi \<longleftrightarrow> 10 \<le> t" using hi d by (auto simp: s)
  show "(a + (if lo then 6 else 0) + (if hi then 0x60 else 0)) mod 256 =
      16 * (s mod 100 div 10) + s mod 10"
    unfolding sm lo h a d_def t_def using assms(1,2)
    by (cases "l < 10"; cases "16 * h + l < 256") (auto simp: mod_if)
qed

lemma z80_daa_after_add_unat:
  assumes "is_bcd (reg_a cpu)" and "is_bcd val"
  defines "cpu' \<equiv> z80_daa (z80_add_a cpu val)"
  defines "s \<equiv> bcd_val (reg_a cpu) + bcd_val val"
  shows "unat (reg_a cpu') = 16 * (s mod 100 div 10) + s mod 10"
    and "bit (reg_f cpu') 0 \<longleftrightarrow> 100 \<le> s"
proof -
  define h l where "h = unat (reg_a cpu) div 16 + unat val div 16"
    and "l = unat (reg_a cpu) mod 16 + unat val mod 16"
  define c1 where "c1 = z80_add_a cpu val"
  have hl: "h \<le> 18" "l \<le> 18" using assms(1,2) by (auto simp: is_bcd_def h_def l_def)
  have sum: "unat (reg_a cpu) + unat val = 16 * h + l" by (simp add: h_def l_def)
  have s: "s = 10 * h + l" by (simp add: s_def bcd_val_def h_def l_def)
  have "alu_add_spec (reg_a cpu) val 0 (reg_a c1) (reg_f c1)"
    unfolding c1_def by (rule z80_add_a_flags)
  then have a: "unat (reg_a c1) = (16 * h + l) mod 256" and n: "\<not> bit (reg_f c1) 1"
    and c: "bit (reg_f c1) 0 \<longleftrightarrow> 256 \<le> 16 * h + l" and hc: "bit (reg_f c1) 4 \<longleftrightarrow> 16 \<le> l"
    unfolding alu_add_spec_def by (simp_all add: sum l_def [symmetric])
  show "unat (reg_a cpu') = 16 * (s mod 100 div 10) + s mod 10"
    unfolding cpu'_def c1_def [symmetric] z80_daa_add_unat(1) [OF n] a c hc s
    by (rule bcd_add_adjust(1) [OF hl])
  show "bit (reg_f cpu') 0 \<longleftrightarrow> 100 \<le> s"
    unfolding cpu'_def c1_def [symmetric] z80_daa_add_unat(2) [OF n] a c s
    by (rule bcd_add_adjust(2) [OF hl])
qed

text \<open>\<^verbatim>\<open>ADD A,v; DAA\<close> is decimal addition: on packed BCD operands the accumulator is packed BCD
  again and, with the carry flag standing for 100, has the value of the decimal sum.\<close>

theorem z80_daa_after_add:
  assumes "is_bcd (reg_a cpu)" and "is_bcd val"
  shows "is_bcd (reg_a (z80_daa (z80_add_a cpu val))) \<and>
    bcd_val (reg_a (z80_daa (z80_add_a cpu val))) +
      (if bit (reg_f (z80_daa (z80_add_a cpu val))) 0 then 100 else 0)
    = bcd_val (reg_a cpu) + bcd_val val"
proof -
  define s where "s = bcd_val (reg_a cpu) + bcd_val val"
  note u = z80_daa_after_add_unat [OF assms, folded s_def]
  have "s < 200" using assms by (auto simp: s_def bcd_val_def is_bcd_def)
  moreover have "is_bcd (reg_a (z80_daa (z80_add_a cpu val))) \<and>
      bcd_val (reg_a (z80_daa (z80_add_a cpu val))) = 10 * (s mod 100 div 10) + s mod 10"
    by (rule bcd_digits [OF _ _ u(1)]) auto
  moreover have "10 * (s mod 100 div 10) + s mod 10 = s mod 100"
    using mult_div_mod_eq [of 10 "s mod 100"] by (simp add: mod_mod_cancel)
  ultimately show ?thesis by (auto simp: u(2) mod_if s_def [symmetric])
qed

text \<open>48 + 75 = 123: the accumulator holds BCD 23 and the carry stands for the hundred.\<close>

theorem z80_daa_after_add_witness:
  "is_bcd 0x48 \<and> is_bcd 0x75 \<and>
   (let cpu = (ecpu_z80_init (\<lambda>_. 0) 0)\<lparr>reg_a := 0x48\<rparr>; cpu' = z80_daa (z80_add_a cpu 0x75)
    in bcd_val (reg_a cpu') + (if bit (reg_f cpu') 0 then 100 else 0) = 123)"
proof -
  let ?cpu = "(ecpu_z80_init (\<lambda>_. 0) 0)\<lparr>reg_a := 0x48\<rparr>"
  have b: "is_bcd (reg_a ?cpu)" "is_bcd 0x75" by (simp_all add: is_bcd_def)
  have "bcd_val (reg_a ?cpu) + bcd_val 0x75 = 123" by (simp add: bcd_val_def)
  with z80_daa_after_add [OF b] b show ?thesis by (simp add: Let_def)
qed

lemma z80_alu_op_simps [simp]:
  "z80_alu_op cpu 0 v = z80_add_a cpu v" "z80_alu_op cpu 1 v = z80_adc_a cpu v"
  "z80_alu_op cpu 2 v = z80_sub_a cpu v" "z80_alu_op cpu 3 v = z80_sbc_a cpu v"
  "z80_alu_op cpu 4 v = z80_and_a cpu v" "z80_alu_op cpu 5 v = z80_xor_a cpu v"
  "z80_alu_op cpu 6 v = z80_or_a cpu v" "z80_alu_op cpu 7 v = z80_cp_a cpu v"
  by (simp_all add: z80_alu_op_def)

text \<open>C3: the arithmetic rows of the accumulator ALU (ADD, ADC, SUB, SBC, CP) compute the sum or the
  difference modulo 256, and set carry, half carry, overflow, zero, sign, the N flag and the
  undocumented bits 3 and 5 as unbounded integer arithmetic says they should be; CP leaves A
  unchanged.\<close>

theorem z80_alu_arith:
  "alu_add_spec (reg_a cpu) v 0 (reg_a (z80_alu_op cpu 0 v)) (reg_f (z80_alu_op cpu 0 v))
   \<and> alu_add_spec (reg_a cpu) v (of_bool (bit (reg_f cpu) 0))
       (reg_a (z80_alu_op cpu 1 v)) (reg_f (z80_alu_op cpu 1 v))
   \<and> alu_sub_spec (reg_a cpu) v 0 (reg_a (z80_alu_op cpu 2 v)) (reg_a (z80_alu_op cpu 2 v))
       (reg_f (z80_alu_op cpu 2 v))
   \<and> alu_sub_spec (reg_a cpu) v (of_bool (bit (reg_f cpu) 0)) (reg_a (z80_alu_op cpu 3 v))
       (reg_a (z80_alu_op cpu 3 v)) (reg_f (z80_alu_op cpu 3 v))
   \<and> reg_a (z80_alu_op cpu 7 v) = reg_a cpu
   \<and> alu_sub_spec (reg_a cpu) v 0 (reg_a cpu - v) v (reg_f (z80_alu_op cpu 7 v))"
  using z80_add_a_flags [of cpu v] z80_adc_a_flags [of cpu v] z80_sub_a_flags [of cpu v]
    z80_sbc_a_flags [of cpu v] z80_cp_a_flags [of cpu v]
  by (simp add: z80_cp_a_def Let_def)

definition alu_logic_spec :: "u8 \<Rightarrow> bool \<Rightarrow> u8 \<Rightarrow> bool" where
  "alu_logic_spec r h f \<longleftrightarrow>
     \<not> bit f 0 \<and> \<not> bit f 1
     \<and> (bit f 2 \<longleftrightarrow> even (length (filter (bit r) [0..<8])))
     \<and> (bit f 4 \<longleftrightarrow> h) \<and> (bit f 6 \<longleftrightarrow> r = 0) \<and> (bit f 7 \<longleftrightarrow> bit r 7)
     \<and> (bit f 3 \<longleftrightarrow> bit r 3) \<and> (bit f 5 \<longleftrightarrow> bit r 5)"

lemma logic_flags:
  assumes "bit h 4 \<longleftrightarrow> b" "\<not> bit h 0" "\<not> bit h 1" "\<not> bit h 2" "\<not> bit h 3" "\<not> bit h 5"
    "\<not> bit h 6" "\<not> bit h 7"
  shows "alu_logic_spec r b
    (or_if (nz (r AND 0x80)) FLAG_S (or_if (r = 0) FLAG_Z ((r AND FLAG_35) OR h)) OR parity_of r)"
  unfolding alu_logic_spec_def z80_parity_table_correct
  using assms by (auto simp: flag_bits bit_simps)

text \<open>The logical rows AND, XOR and OR compute the bitwise result in A and set sign, zero and the
  parity of the result, clear carry and N, and set half carry for AND only.\<close>

theorem z80_alu_logic:
  "reg_a (z80_alu_op cpu 4 v) = reg_a cpu AND v
   \<and> alu_logic_spec (reg_a cpu AND v) True (reg_f (z80_alu_op cpu 4 v))
   \<and> reg_a (z80_alu_op cpu 5 v) = reg_a cpu XOR v
   \<and> alu_logic_spec (reg_a cpu XOR v) False (reg_f (z80_alu_op cpu 5 v))
   \<and> reg_a (z80_alu_op cpu 6 v) = reg_a cpu OR v
   \<and> alu_logic_spec (reg_a cpu OR v) False (reg_f (z80_alu_op cpu 6 v))"
  using logic_flags [of FLAG_H True "reg_a cpu AND v"] logic_flags [of 0 False "reg_a cpu XOR v"]
    logic_flags [of 0 False "reg_a cpu OR v"]
  by (simp add: z80_and_a_def z80_xor_a_def z80_or_a_def Let_def)

subsection \<open>16-bit arithmetic\<close>

definition add16_spec :: "u16 \<Rightarrow> u16 \<Rightarrow> nat \<Rightarrow> u16 \<Rightarrow> u8 \<Rightarrow> bool" where
  "add16_spec x y k r f \<longleftrightarrow>
     unat r = (unat x + unat y + k) mod 65536
     \<and> (bit f 0 \<longleftrightarrow> 65536 \<le> unat x + unat y + k)
     \<and> \<not> bit f 1
     \<and> (bit f 4 \<longleftrightarrow> 4096 \<le> unat x mod 4096 + unat y mod 4096 + k)
     \<and> (bit f 3 \<longleftrightarrow> bit r 11) \<and> (bit f 5 \<longleftrightarrow> bit r 13)"

lemma add16_facts:
  fixes x y :: u16 and c :: u8
  assumes c: "unat c \<le> 1"
  defines "result \<equiv> ucast x + ucast y + ucast c :: u32"
  defines "r \<equiv> ucast (result AND 0xFFFF) :: u16"
  shows "unat r = (unat x + unat y + unat c) mod 65536"
    and "result > 0xFFFF \<longleftrightarrow> 65536 \<le> unat x + unat y + unat c"
    and "bit x 12 = (bit y 12 = bit r 12) \<longleftrightarrow> 4096 \<le> unat x mod 4096 + unat y mod 4096 + unat c"
    and "(bit x 15 = bit y 15 \<and> bit x 15 = (\<not> bit r 15)) \<longleftrightarrow>
      sint x + sint y + int (unat c) \<notin> {- 32768..32767}"
proof -
  have rm: "unat result = unat x + unat y + unat c"
    using unat_u16_less [of x] unat_u16_less [of y] c
    by (simp add: result_def unat_word_ariths del: unat_u16_less)
  show "result > 0xFFFF \<longleftrightarrow> 65536 \<le> unat x + unat y + unat c"
    by (auto simp: word_less_nat_alt rm)
  have "r = ucast result" by (rule bit_word_eqI) (simp add: r_def and_FFFF_take_bit bit_simps)
  then show ru: "unat r = (unat x + unat y + unat c) mod 65536"
    by (simp add: unat_ucast_32_16 rm)
  have r: "r = x + y + ucast c"
    by (rule unsigned_word_eqI [where ?'a = nat]) (simp add: ru unat_word_ariths mod_simps)
  show "bit x 12 = (bit y 12 = bit r 12) \<longleftrightarrow> 4096 \<le> unat x mod 4096 + unat y mod 4096 + unat c"
    using bit_word_add [of 12 "ucast c" x y] c by (auto simp: r)
  show "(bit x 15 = bit y 15 \<and> bit x 15 = (\<not> bit r 15)) \<longleftrightarrow>
      sint x + sint y + int (unat c) \<notin> {- 32768..32767}"
    using add_overflow_nat [of "unat x" 32768 "unat y" "unat c" "unat r"] c ru
    unfolding msb_u16 sint_u16 by simp
qed

text \<open>ADD HL,rr and ADD IX/IY,rr add modulo 65536 with carry out of bit 15 and half carry out
  of bit 11, and keep the sign, zero and parity flags of before.\<close>

theorem z80_add16_flags:
  "add16_spec (z80_hl cpu) v 0 (z80_hl (z80_add_hl cpu v)) (reg_f (z80_add_hl cpu v))
   \<and> add16_spec (get_idx cpu idx) v 0 (get_idx (z80_add_ix cpu idx v) idx) (reg_f (z80_add_ix cpu idx v))
   \<and> map (bit (reg_f (z80_add_hl cpu v))) [2, 6, 7] = map (bit (reg_f cpu)) [2, 6, 7]
   \<and> map (bit (reg_f (z80_add_ix cpu idx v))) [2, 6, 7] = map (bit (reg_f cpu)) [2, 6, 7]"
  using add16_facts(1-3) [of 0 "z80_hl cpu" v] add16_facts(1-3) [of 0 "get_idx cpu idx" v]
  by (cases idx) (simp_all add: add16_spec_def z80_add_hl_def z80_add_ix_def Let_def z80_pair_defs
      flag_bits bit_simps)

text \<open>ADC HL,rr adds the carry flag in, and sets carry, half carry, signed overflow, zero and sign
  of the 16-bit result.\<close>

theorem z80_adc_hl_flags:
  "add16_spec (z80_hl cpu) v (of_bool (bit (reg_f cpu) 0)) (z80_hl (z80_adc_hl cpu v))
     (reg_f (z80_adc_hl cpu v))
   \<and> (bit (reg_f (z80_adc_hl cpu v)) 2 \<longleftrightarrow>
        sint (z80_hl cpu) + sint v + of_bool (bit (reg_f cpu) 0) \<notin> {- 32768..32767})
   \<and> (bit (reg_f (z80_adc_hl cpu v)) 6 \<longleftrightarrow> z80_hl (z80_adc_hl cpu v) = 0)
   \<and> (bit (reg_f (z80_adc_hl cpu v)) 7 \<longleftrightarrow> bit (z80_hl (z80_adc_hl cpu v)) 15)"
proof -
  have c: "unat (reg_f cpu AND FLAG_C) \<le> 1" by (simp add: unat_and_1)
  have k: "int (unat (reg_f cpu AND FLAG_C)) = of_bool (bit (reg_f cpu) 0)" by (simp only: unat_and_1 of_nat_of_bool)
  note facts = add16_facts [OF c, of "z80_hl cpu" v, unfolded k, unfolded unat_and_1]
  show ?thesis
    unfolding facts(4) [symmetric]
    using facts(1-3) by (simp add: add16_spec_def z80_adc_hl_def Let_def z80_pair_defs flag_bits bit_simps)
qed

end
