(* ===== verification/Z80_Core.thy ===== *)
theory Z80_Core
  imports Z80_ALU
begin

text \<open>
  The Z80 instruction decoder and interpreter loop,
  \<^verbatim>\<open>src/kernel/core/cpu/ecpu_z80.c\<close>. The C decoder is one function with nested switches per
  prefix; here every arm of the outer switches is a definition, composed in the same order. A
  definition that can leave the interpreter returns the state and a flag: the flag is true where the C
  code returns. \<open>z80_iter\<close> is one turn of the \<^verbatim>\<open>for (;;)\<close> loop and \<open>z80_loop\<close> the loop, which
  need not end: its value is None then.
\<close>

subsection \<open>Traps\<close>

abbreviation CPU_TRAP_RST :: int where "CPU_TRAP_RST \<equiv> 0"
abbreviation CPU_TRAP_HALT :: int where "CPU_TRAP_HALT \<equiv> 2"
abbreviation CPU_TRAP_IO_IN :: int where "CPU_TRAP_IO_IN \<equiv> 3"
abbreviation CPU_TRAP_IO_OUT :: int where "CPU_TRAP_IO_OUT \<equiv> 4"
abbreviation CPU_TRAP_UNHANDLED :: int where "CPU_TRAP_UNHANDLED \<equiv> 0"
abbreviation CPU_TRAP_HANDLED :: int where "CPU_TRAP_HANDLED \<equiv> 1"
abbreviation CPU_TRAP_EXIT :: int where "CPU_TRAP_EXIT \<equiv> 2"

definition z80_fire_trap :: "trap_env \<Rightarrow> z80_state \<Rightarrow> int \<Rightarrow> u32 \<Rightarrow> z80_state \<times> int" where
  "z80_fire_trap env cpu trap_type param =
     (case trap_handler cpu of
        Some h \<Rightarrow>
          (let (cpu', rc) = env h cpu trap_type param (trap_ctx cpu)
           in (if rc = CPU_TRAP_EXIT then cpu'\<lparr>step_trap_exit := 1\<rparr> else cpu', rc))
      | None \<Rightarrow> (cpu, CPU_TRAP_UNHANDLED))"

subsection \<open>Decode fields and pieces shared by the decoders\<close>

definition op_xx :: "u8 \<Rightarrow> u8" where "op_xx op = drop_bit 6 op"
definition op_yyy :: "u8 \<Rightarrow> u8" where "op_yyy op = drop_bit 3 op AND 7"
definition op_zzz :: "u8 \<Rightarrow> u8" where "op_zzz op = op AND 7"

definition z80_inc_r :: "z80_state \<Rightarrow> z80_state" where
  "z80_inc_r cpu = cpu\<lparr>reg_r := (reg_r cpu AND 0x80) OR ((reg_r cpu + 1) AND 0x7F)\<rparr>"

definition z80_ex_af :: "z80_state \<Rightarrow> z80_state" where
  "z80_ex_af cpu =
     cpu\<lparr>reg_a := reg_a2 cpu, reg_a2 := reg_a cpu, reg_f := reg_f2 cpu, reg_f2 := reg_f cpu\<rparr>"

definition z80_exx :: "z80_state \<Rightarrow> z80_state" where
  "z80_exx cpu =
     cpu\<lparr>reg_b := reg_b2 cpu, reg_b2 := reg_b cpu, reg_c := reg_c2 cpu, reg_c2 := reg_c cpu,
         reg_d := reg_d2 cpu, reg_d2 := reg_d cpu, reg_e := reg_e2 cpu, reg_e2 := reg_e cpu,
         reg_h := reg_h2 cpu, reg_h2 := reg_h cpu, reg_l := reg_l2 cpu, reg_l2 := reg_l cpu\<rparr>"

definition z80_ex_de_hl :: "z80_state \<Rightarrow> z80_state" where
  "z80_ex_de_hl cpu =
     (let de = z80_de cpu; cpu = z80_set_de cpu (z80_hl cpu) in z80_set_hl cpu de)"

definition z80_acc_op :: "z80_state \<Rightarrow> u8 \<Rightarrow> z80_state" where
  "z80_acc_op cpu yyy =
     (if yyy = 0 then z80_rlca cpu
      else if yyy = 1 then z80_rrca cpu
      else if yyy = 2 then z80_rla cpu
      else if yyy = 3 then z80_rra cpu
      else if yyy = 4 then z80_daa cpu
      else if yyy = 5 then z80_cpl cpu
      else if yyy = 6 then z80_scf cpu
      else if yyy = 7 then z80_ccf cpu
      else cpu)"

definition z80_shift_op :: "z80_state \<Rightarrow> u8 \<Rightarrow> u8 \<Rightarrow> u8 \<times> z80_state" where
  "z80_shift_op cpu yyy val =
     (if yyy = 0 then z80_rlc cpu val
      else if yyy = 1 then z80_rrc cpu val
      else if yyy = 2 then z80_rl cpu val
      else if yyy = 3 then z80_rr cpu val
      else if yyy = 4 then z80_sla cpu val
      else if yyy = 5 then z80_sra cpu val
      else if yyy = 6 then z80_sll cpu val
      else z80_srl cpu val)"

text \<open>NOP, EX AF,AF', DJNZ, JR and JR cc (xx = 0, zzz = 0).\<close>

definition z80_rel_jumps :: "z80_state \<Rightarrow> u8 \<Rightarrow> z80_state" where
  "z80_rel_jumps cpu yyy =
     (if yyy = 0 then cpu
      else if yyy = 1 then z80_ex_af cpu
      else
        let (offset, cpu) = z80_fetch8 cpu in
        if yyy = 2 then
          let cpu = cpu\<lparr>reg_b := reg_b cpu - 1\<rparr>
          in if nz (reg_b cpu) then cpu\<lparr>reg_pc := reg_pc cpu + scast offset\<rparr> else cpu
        else if yyy = 3 then cpu\<lparr>reg_pc := reg_pc cpu + scast offset\<rparr>
        else if z80_condition cpu (yyy - 4) then cpu\<lparr>reg_pc := reg_pc cpu + scast offset\<rparr>
        else cpu)"

definition z80_ret :: "z80_state \<Rightarrow> z80_state" where
  "z80_ret cpu = (let (v, cpu) = z80_pop16 cpu in cpu\<lparr>reg_pc := v, reg_wz := v\<rparr>)"

definition z80_call :: "z80_state \<Rightarrow> u16 \<Rightarrow> z80_state" where
  "z80_call cpu nn = (z80_push16 cpu (reg_pc cpu))\<lparr>reg_pc := nn\<rparr>"

definition z80_rst :: "trap_env \<Rightarrow> z80_state \<Rightarrow> u8 \<Rightarrow> z80_state \<times> bool" where
  "z80_rst env cpu yyy =
     (let addr = ucast yyy * 8 :: u16;
          (cpu, rc) = z80_fire_trap env cpu CPU_TRAP_RST (ucast addr)
      in if rc = CPU_TRAP_EXIT then (cpu, True)
         else if rc = CPU_TRAP_HANDLED then (cpu, False)
         else ((z80_call cpu addr)\<lparr>reg_wz := addr\<rparr>, False))"

definition z80_out_n_a :: "trap_env \<Rightarrow> z80_state \<Rightarrow> z80_state \<times> bool" where
  "z80_out_n_a env cpu =
     (let (port, cpu) = z80_fetch8 cpu;
          addr = mk16 (reg_a cpu) port;
          cpu = cpu\<lparr>reg_wz := mk16 (reg_a cpu) (port + 1)\<rparr>;
          (cpu, rc) = z80_fire_trap env cpu CPU_TRAP_IO_OUT (ucast addr)
      in (cpu, rc = CPU_TRAP_EXIT))"

definition z80_in_a_n :: "trap_env \<Rightarrow> z80_state \<Rightarrow> z80_state \<times> bool" where
  "z80_in_a_n env cpu =
     (let (port, cpu) = z80_fetch8 cpu;
          addr = mk16 (reg_a cpu) port;
          (cpu, rc) = z80_fire_trap env cpu CPU_TRAP_IO_IN (ucast addr)
      in if rc = CPU_TRAP_EXIT then (cpu, True)
         else (cpu\<lparr>reg_wz := mk16 (reg_a cpu) (port + 1)\<rparr>, False))"

subsection \<open>ED prefix\<close>

definition z80_ed_io :: "trap_env \<Rightarrow> z80_state \<Rightarrow> u8 \<Rightarrow> u8 \<Rightarrow> z80_state \<times> bool" where
  "z80_ed_io env cpu yyy zzz =
     (let addr = z80_bc cpu in
      if zzz = 0 then
        let (cpu, rc) = z80_fire_trap env cpu CPU_TRAP_IO_IN (ucast addr) in
        if rc = CPU_TRAP_EXIT then (cpu, True)
        else
          let val = z80_read_r8 cpu (if yyy \<noteq> 6 then yyy else 7);
              f = (reg_f cpu AND FLAG_C) OR (val AND (FLAG_S OR FLAG_35)) OR sel (val = 0) FLAG_Z
                  OR parity_of val
          in (cpu\<lparr>reg_f := f, reg_wz := addr + 1\<rparr>, False)
      else
        let (cpu, rc) = z80_fire_trap env cpu CPU_TRAP_IO_OUT (ucast addr) in
        if rc = CPU_TRAP_EXIT then (cpu, True) else (cpu\<lparr>reg_wz := addr + 1\<rparr>, False))"

definition z80_ld_a_ir :: "z80_state \<Rightarrow> u8 \<Rightarrow> z80_state" where
  "z80_ld_a_ir cpu v =
     cpu\<lparr>reg_a := v,
         reg_f := (reg_f cpu AND FLAG_C) OR (v AND (FLAG_S OR FLAG_35)) OR sel (v = 0) FLAG_Z
                  OR sel (nz (iff2 cpu)) FLAG_PV\<rparr>"

definition z80_ed_misc :: "z80_state \<Rightarrow> u8 \<Rightarrow> z80_state" where
  "z80_ed_misc cpu yyy =
     (if yyy = 0 then cpu\<lparr>reg_i := reg_a cpu\<rparr>
      else if yyy = 1 then cpu\<lparr>reg_r := reg_a cpu\<rparr>
      else if yyy = 2 then z80_ld_a_ir cpu (reg_i cpu)
      else if yyy = 3 then z80_ld_a_ir cpu (reg_r cpu)
      else if yyy = 4 then
        let addr = z80_hl cpu;
            m = z80_read8 cpu addr;
            lo_a = reg_a cpu AND 0x0F;
            a = (reg_a cpu AND 0xF0) OR (m AND 0x0F);
            m = push_bit 4 lo_a OR drop_bit 4 m;
            cpu = z80_write8 (cpu\<lparr>reg_a := a\<rparr>) addr m;
            f = (reg_f cpu AND FLAG_C) OR (a AND (FLAG_S OR FLAG_35)) OR sel (a = 0) FLAG_Z
                OR parity_of a
        in cpu\<lparr>reg_f := f, reg_wz := addr + 1\<rparr>
      else if yyy = 5 then
        let addr = z80_hl cpu;
            m = z80_read8 cpu addr;
            lo_a = reg_a cpu AND 0x0F;
            a = (reg_a cpu AND 0xF0) OR drop_bit 4 m;
            m = push_bit 4 m OR lo_a;
            cpu = z80_write8 (cpu\<lparr>reg_a := a\<rparr>) addr m;
            f = (reg_f cpu AND FLAG_C) OR (a AND (FLAG_S OR FLAG_35)) OR sel (a = 0) FLAG_Z
                OR parity_of a
        in cpu\<lparr>reg_f := f, reg_wz := addr + 1\<rparr>
      else cpu)"

definition z80_ed_xx1 :: "trap_env \<Rightarrow> z80_state \<Rightarrow> u8 \<Rightarrow> u8 \<Rightarrow> z80_state \<times> bool" where
  "z80_ed_xx1 env cpu yyy zzz =
     (if zzz = 0 \<or> zzz = 1 then z80_ed_io env cpu yyy zzz
      else if zzz = 2 then
        (if nz (yyy AND 1) then z80_adc_hl cpu (z80_read_rr cpu (drop_bit 1 yyy))
         else z80_sbc_hl cpu (z80_read_rr cpu (drop_bit 1 yyy)), False)
      else if zzz = 3 then
        (let (nn, cpu) = z80_fetch16 cpu;
             cpu = (if nz (yyy AND 1) then z80_write_rr cpu (drop_bit 1 yyy) (z80_read16 cpu nn)
                    else z80_write16 cpu nn (z80_read_rr cpu (drop_bit 1 yyy)))
         in (cpu\<lparr>reg_wz := nn + 1\<rparr>, False))
      else if zzz = 4 then
        (let old_a = reg_a cpu in (z80_sub_a (cpu\<lparr>reg_a := 0\<rparr>) old_a, False))
      else if zzz = 5 then (z80_ret (cpu\<lparr>iff1 := iff2 cpu\<rparr>), False)
      else if zzz = 6 then
        (cpu\<lparr>im := (if yyy = 0 \<or> yyy = 4 then 0
                     else if yyy = 1 \<or> yyy = 5 then 0
                     else if yyy = 2 \<or> yyy = 6 then 1
                     else if yyy = 3 \<or> yyy = 7 then 2
                     else im cpu)\<rparr>, False)
      else if zzz = 7 then (z80_ed_misc cpu yyy, False)
      else (cpu, False))"

text \<open>Block instructions; \<^verbatim>\<open>dir\<close> is -1 for the decrementing and 1 for the incrementing forms.\<close>

definition blk_dir :: "u8 \<Rightarrow> u16" where
  "blk_dir yyy = (if nz (yyy AND 1) then - 1 else 1)"

definition z80_ldi :: "z80_state \<Rightarrow> u8 \<Rightarrow> z80_state" where
  "z80_ldi cpu yyy =
     (let val = z80_read8 cpu (z80_hl cpu);
          cpu = z80_write8 cpu (z80_de cpu) val;
          dir = blk_dir yyy;
          cpu = z80_set_hl cpu (z80_hl cpu + dir);
          cpu = z80_set_de cpu (z80_de cpu + dir);
          cpu = z80_set_bc cpu (z80_bc cpu - 1);
          n = reg_a cpu + val;
          cpu = cpu\<lparr>reg_f := (reg_f cpu AND (FLAG_S OR FLAG_Z OR FLAG_C))
                             OR sel (nz (n AND 0x02)) FLAG_F5 OR (n AND FLAG_F3)
                             OR sel (nz (z80_bc cpu)) FLAG_PV\<rparr>
      in if yyy \<ge> 6 \<and> nz (z80_bc cpu)
         then cpu\<lparr>reg_pc := reg_pc cpu - 2, reg_wz := reg_pc cpu - 2 + 1\<rparr>
         else cpu)"

definition z80_cpi :: "z80_state \<Rightarrow> u8 \<Rightarrow> z80_state" where
  "z80_cpi cpu yyy =
     (let val = z80_read8 cpu (z80_hl cpu);
          res = reg_a cpu - val;
          dir = blk_dir yyy;
          cpu = z80_set_hl cpu (z80_hl cpu + dir);
          cpu = z80_set_bc cpu (z80_bc cpu - 1);
          h = sel (nz ((reg_a cpu XOR val XOR res) AND 0x10)) FLAG_H;
          n = res - (if nz h then 1 else 0);
          cpu = cpu\<lparr>reg_f := (reg_f cpu AND FLAG_C) OR (res AND FLAG_S) OR sel (res = 0) FLAG_Z
                             OR h OR FLAG_N OR sel (nz (n AND 0x02)) FLAG_F5 OR (n AND FLAG_F3)
                             OR sel (nz (z80_bc cpu)) FLAG_PV\<rparr>;
          cpu = cpu\<lparr>reg_wz := reg_wz cpu + dir\<rparr>
      in if yyy \<ge> 6 \<and> nz (z80_bc cpu) \<and> \<not> nz (reg_f cpu AND FLAG_Z)
         then cpu\<lparr>reg_pc := reg_pc cpu - 2, reg_wz := reg_pc cpu - 2 + 1\<rparr>
         else cpu)"

text \<open>INI and its variants (\<^verbatim>\<open>CPU_TRAP_IO_IN\<close>) and OUTI and its variants (\<^verbatim>\<open>CPU_TRAP_IO_OUT\<close>) differ
  in the trap only: the byte OUTI reads from (HL) is discarded.\<close>

definition z80_blk_io :: "trap_env \<Rightarrow> z80_state \<Rightarrow> u8 \<Rightarrow> int \<Rightarrow> z80_state \<times> bool" where
  "z80_blk_io env cpu yyy trap =
     (let addr = z80_bc cpu;
          (cpu, rc) = z80_fire_trap env cpu trap (ucast addr)
      in if rc = CPU_TRAP_EXIT then (cpu, True)
         else
           let cpu = z80_set_hl cpu (z80_hl cpu + blk_dir yyy);
               (b, cpu) = z80_dec8 cpu (reg_b cpu);
               cpu = cpu\<lparr>reg_b := b\<rparr>
           in (if yyy \<ge> 6 \<and> nz (reg_b cpu) then cpu\<lparr>reg_pc := reg_pc cpu - 2\<rparr> else cpu, False))"

definition z80_ed_block :: "trap_env \<Rightarrow> z80_state \<Rightarrow> u8 \<Rightarrow> u8 \<Rightarrow> z80_state \<times> bool" where
  "z80_ed_block env cpu yyy zzz =
     (if zzz = 0 then (z80_ldi cpu yyy, False)
      else if zzz = 1 then (z80_cpi cpu yyy, False)
      else if zzz = 2 then z80_blk_io env cpu yyy CPU_TRAP_IO_IN
      else if zzz = 3 then z80_blk_io env cpu yyy CPU_TRAP_IO_OUT
      else (cpu, False))"

definition z80_decode_ed :: "trap_env \<Rightarrow> z80_state \<Rightarrow> z80_state \<times> bool" where
  "z80_decode_ed env cpu =
     (let (op, cpu) = z80_fetch8 cpu;
          cpu = z80_inc_r cpu;
          xx = op_xx op; yyy = op_yyy op; zzz = op_zzz op
      in if xx = 1 then z80_ed_xx1 env cpu yyy zzz
         else if xx = 2 \<and> yyy \<ge> 4 then z80_ed_block env cpu yyy zzz
         else (cpu, False))"

subsection \<open>DD and FD prefixes: IX and IY\<close>

definition z80_read_r8_ix :: "z80_state \<Rightarrow> u8 \<Rightarrow> idx \<Rightarrow> u8" where
  "z80_read_r8_ix cpu code idx =
     (if code = 4 then hi8 (get_idx cpu idx)
      else if code = 5 then lo8 (get_idx cpu idx)
      else if code = 6 then 0
      else z80_read_r8 cpu code)"

definition z80_write_r8_ix :: "z80_state \<Rightarrow> u8 \<Rightarrow> idx \<Rightarrow> u8 \<Rightarrow> z80_state" where
  "z80_write_r8_ix cpu code idx val =
     (if code = 4 then
        set_idx cpu idx ((get_idx cpu idx AND 0x00FF) OR push_bit 8 (ucast val))
      else if code = 5 then set_idx cpu idx ((get_idx cpu idx AND 0xFF00) OR ucast val)
      else if code = 6 then cpu
      else z80_write_r8 cpu code val)"

definition z80_read_rr_ix :: "z80_state \<Rightarrow> u8 \<Rightarrow> idx \<Rightarrow> u16" where
  "z80_read_rr_ix cpu pp idx = (if pp = 2 then get_idx cpu idx else z80_read_rr cpu pp)"

definition z80_write_rr_ix :: "z80_state \<Rightarrow> u8 \<Rightarrow> idx \<Rightarrow> u16 \<Rightarrow> z80_state" where
  "z80_write_rr_ix cpu pp idx val =
     (if pp = 2 then set_idx cpu idx val else z80_write_rr cpu pp val)"

text \<open>The displacement operand: \<^verbatim>\<open>int8_t d = (int8_t)z80_fetch8(cpu); addr = *idx + d\<close>.\<close>

definition z80_fetch_disp :: "z80_state \<Rightarrow> idx \<Rightarrow> u16 \<times> z80_state" where
  "z80_fetch_disp cpu idx =
     (let (d, cpu) = z80_fetch8 cpu in (get_idx cpu idx + scast d, cpu))"

definition z80_index_xx1 :: "z80_state \<Rightarrow> idx \<Rightarrow> u8 \<Rightarrow> z80_state" where
  "z80_index_xx1 cpu idx op =
     (let yyy = op_yyy op; zzz = op_zzz op in
      if op = 0x76 then cpu\<lparr>halted := 1\<rparr>
      else if yyy = 6 then
        let (addr, cpu) = z80_fetch_disp cpu idx;
            cpu = z80_write8 cpu addr (z80_read_r8 cpu zzz)
        in cpu\<lparr>reg_wz := addr\<rparr>
      else if zzz = 6 then
        let (addr, cpu) = z80_fetch_disp cpu idx;
            cpu = z80_write_r8 cpu yyy (z80_read8 cpu addr)
        in cpu\<lparr>reg_wz := addr\<rparr>
      else z80_write_r8_ix cpu yyy idx (z80_read_r8_ix cpu zzz idx))"

definition z80_index_mem :: "z80_state \<Rightarrow> idx \<Rightarrow> u8 \<Rightarrow> z80_state" where
  "z80_index_mem cpu idx yyy =
     (if yyy = 0 then (z80_write8 cpu (z80_bc cpu) (reg_a cpu))\<lparr>reg_wz := z80_bc cpu + 1\<rparr>
      else if yyy = 1 then cpu\<lparr>reg_a := z80_read8 cpu (z80_bc cpu), reg_wz := z80_bc cpu + 1\<rparr>
      else if yyy = 2 then (z80_write8 cpu (z80_de cpu) (reg_a cpu))\<lparr>reg_wz := z80_de cpu + 1\<rparr>
      else if yyy = 3 then cpu\<lparr>reg_a := z80_read8 cpu (z80_de cpu), reg_wz := z80_de cpu + 1\<rparr>
      else
        let (nn, cpu) = z80_fetch16 cpu in
        if yyy = 4 then (z80_write16 cpu nn (get_idx cpu idx))\<lparr>reg_wz := nn + 1\<rparr>
        else if yyy = 5 then (set_idx cpu idx (z80_read16 cpu nn))\<lparr>reg_wz := nn + 1\<rparr>
        else if yyy = 6 then (z80_write8 cpu nn (reg_a cpu))\<lparr>reg_wz := nn + 1\<rparr>
        else cpu\<lparr>reg_a := z80_read8 cpu nn, reg_wz := nn + 1\<rparr>)"

definition z80_index_xx0 :: "z80_state \<Rightarrow> idx \<Rightarrow> u8 \<Rightarrow> u8 \<Rightarrow> z80_state" where
  "z80_index_xx0 cpu idx yyy zzz =
     (if zzz = 0 then z80_rel_jumps cpu yyy
      else if zzz = 1 then
        if nz (yyy AND 1) then z80_add_ix cpu idx (z80_read_rr_ix cpu (drop_bit 1 yyy) idx)
        else let (nn, cpu) = z80_fetch16 cpu in z80_write_rr_ix cpu (drop_bit 1 yyy) idx nn
      else if zzz = 2 then z80_index_mem cpu idx yyy
      else if zzz = 3 then
        let pp = drop_bit 1 yyy; val = z80_read_rr_ix cpu pp idx
        in if nz (yyy AND 1) then z80_write_rr_ix cpu pp idx (val - 1)
           else z80_write_rr_ix cpu pp idx (val + 1)
      else if zzz = 4 then
        if yyy = 6 then
          let (addr, cpu) = z80_fetch_disp cpu idx;
              (res, cpu) = z80_inc8 cpu (z80_read8 cpu addr)
          in (z80_write8 cpu addr res)\<lparr>reg_wz := addr\<rparr>
        else
          let (res, cpu) = z80_inc8 cpu (z80_read_r8_ix cpu yyy idx)
          in z80_write_r8_ix cpu yyy idx res
      else if zzz = 5 then
        if yyy = 6 then
          let (addr, cpu) = z80_fetch_disp cpu idx;
              (res, cpu) = z80_dec8 cpu (z80_read8 cpu addr)
          in (z80_write8 cpu addr res)\<lparr>reg_wz := addr\<rparr>
        else
          let (res, cpu) = z80_dec8 cpu (z80_read_r8_ix cpu yyy idx)
          in z80_write_r8_ix cpu yyy idx res
      else if zzz = 6 then
        if yyy = 6 then
          let (addr, cpu) = z80_fetch_disp cpu idx;
              (n, cpu) = z80_fetch8 cpu
          in (z80_write8 cpu addr n)\<lparr>reg_wz := addr\<rparr>
        else let (n, cpu) = z80_fetch8 cpu in z80_write_r8_ix cpu yyy idx n
      else if zzz = 7 then z80_acc_op cpu yyy
      else cpu)"

definition z80_index_xx2 :: "z80_state \<Rightarrow> idx \<Rightarrow> u8 \<Rightarrow> u8 \<Rightarrow> z80_state" where
  "z80_index_xx2 cpu idx yyy zzz =
     (if zzz = 6 then
        let (addr, cpu) = z80_fetch_disp cpu idx
        in (z80_alu_op cpu yyy (z80_read8 cpu addr))\<lparr>reg_wz := addr\<rparr>
      else z80_alu_op cpu yyy (z80_read_r8_ix cpu zzz idx))"

text \<open>DD CB d op: the displacement precedes the CB opcode.\<close>

definition z80_index_cb :: "z80_state \<Rightarrow> idx \<Rightarrow> z80_state" where
  "z80_index_cb cpu idx =
     (let (addr, cpu) = z80_fetch_disp cpu idx;
          (cb, cpu) = z80_fetch8 cpu;
          cpu = cpu\<lparr>reg_wz := addr\<rparr>;
          xx = op_xx cb; yyy = op_yyy cb; zzz = op_zzz cb;
          val = z80_read8 cpu addr;
          store = (\<lambda>cpu res. let cpu = z80_write8 cpu addr res
                             in if zzz \<noteq> 6 then z80_write_r8 cpu zzz res else cpu)
      in if xx = 0 then let (res, cpu) = z80_shift_op cpu yyy val in store cpu res
         else if xx = 1 then
           let cpu = z80_bit cpu yyy val
           in cpu\<lparr>reg_f := (reg_f cpu AND NOT FLAG_35) OR (hi8 (reg_wz cpu) AND FLAG_35)\<rparr>
         else if xx = 2 then store cpu (val AND NOT (push_bit (unat yyy) 1))
         else store cpu (val OR push_bit (unat yyy) 1))"

definition z80_index_odd1 :: "z80_state \<Rightarrow> idx \<Rightarrow> u8 \<Rightarrow> z80_state" where
  "z80_index_odd1 cpu idx yyy =
     (if nz (yyy AND 1) then
        if yyy = 1 then z80_ret cpu
        else if yyy = 3 then z80_exx cpu
        else if yyy = 5 then cpu\<lparr>reg_pc := get_idx cpu idx\<rparr>
        else if yyy = 7 then cpu\<lparr>reg_sp := get_idx cpu idx\<rparr>
        else cpu
      else
        let (v, cpu) = z80_pop16 cpu
        in if drop_bit 1 yyy = 2 then set_idx cpu idx v else z80_write_qq cpu (drop_bit 1 yyy) v)"

definition z80_index_misc3 :: "trap_env \<Rightarrow> z80_state \<Rightarrow> idx \<Rightarrow> u8 \<Rightarrow> z80_state \<times> bool" where
  "z80_index_misc3 env cpu idx yyy =
     (if yyy = 0 then
        let (nn, cpu) = z80_fetch16 cpu in (cpu\<lparr>reg_wz := nn, reg_pc := nn\<rparr>, False)
      else if yyy = 1 then (z80_index_cb cpu idx, False)
      else if yyy = 2 then z80_out_n_a env cpu
      else if yyy = 3 then z80_in_a_n env cpu
      else if yyy = 4 then
        let val = z80_read16 cpu (reg_sp cpu);
            cpu = z80_write16 cpu (reg_sp cpu) (get_idx cpu idx);
            cpu = set_idx cpu idx val
        in (cpu\<lparr>reg_wz := val\<rparr>, False)
      else if yyy = 5 then (z80_ex_de_hl cpu, False)
      else if yyy = 6 then (cpu\<lparr>iff1 := 0, iff2 := 0\<rparr>, False)
      else if yyy = 7 then (cpu\<lparr>iff1 := 1, iff2 := 1\<rparr>, False)
      else (cpu, False))"

definition z80_index_odd5 :: "trap_env \<Rightarrow> z80_state \<Rightarrow> idx \<Rightarrow> u8 \<Rightarrow> z80_state \<times> bool" where
  "z80_index_odd5 env cpu idx yyy =
     (if nz (yyy AND 1) then
        if yyy = 1 then
          let (nn, cpu) = z80_fetch16 cpu in (z80_call (cpu\<lparr>reg_wz := nn\<rparr>) nn, False)
        else if yyy = 5 then z80_decode_ed env cpu
        else (cpu, False)
      else
        (z80_push16 cpu
           (if drop_bit 1 yyy = 2 then get_idx cpu idx else z80_read_qq cpu (drop_bit 1 yyy)), False))"

definition z80_index_xx3 :: "trap_env \<Rightarrow> z80_state \<Rightarrow> idx \<Rightarrow> u8 \<Rightarrow> u8 \<Rightarrow> z80_state \<times> bool" where
  "z80_index_xx3 env cpu idx yyy zzz =
     (if zzz = 0 then (if z80_condition cpu yyy then z80_ret cpu else cpu, False)
      else if zzz = 1 then (z80_index_odd1 cpu idx yyy, False)
      else if zzz = 2 then
        let (nn, cpu) = z80_fetch16 cpu; cpu = cpu\<lparr>reg_wz := nn\<rparr>
        in (if z80_condition cpu yyy then cpu\<lparr>reg_pc := nn\<rparr> else cpu, False)
      else if zzz = 3 then z80_index_misc3 env cpu idx yyy
      else if zzz = 4 then
        let (nn, cpu) = z80_fetch16 cpu; cpu = cpu\<lparr>reg_wz := nn\<rparr>
        in (if z80_condition cpu yyy then z80_call cpu nn else cpu, False)
      else if zzz = 5 then z80_index_odd5 env cpu idx yyy
      else if zzz = 6 then
        let (n, cpu) = z80_fetch8 cpu in (z80_alu_op cpu yyy n, False)
      else z80_rst env cpu yyy)"

definition z80_decode_index :: "trap_env \<Rightarrow> z80_state \<Rightarrow> idx \<Rightarrow> z80_state \<times> bool" where
  "z80_decode_index env cpu idx =
     (let (op, cpu) = z80_fetch8 cpu;
          cpu = z80_inc_r cpu;
          xx = op_xx op; yyy = op_yyy op; zzz = op_zzz op
      in if xx = 1 then (z80_index_xx1 cpu idx op, False)
         else if xx = 0 then (z80_index_xx0 cpu idx yyy zzz, False)
         else if xx = 2 then (z80_index_xx2 cpu idx yyy zzz, False)
         else z80_index_xx3 env cpu idx yyy zzz)"

subsection \<open>Unprefixed instructions\<close>

definition z80_main_xx1 :: "z80_state \<Rightarrow> u8 \<Rightarrow> z80_state" where
  "z80_main_xx1 cpu opcode =
     (if opcode = 0x76 then cpu\<lparr>halted := 1\<rparr>
      else z80_write_r8 cpu (op_yyy opcode) (z80_read_r8 cpu (op_zzz opcode)))"

definition z80_main_mem :: "z80_state \<Rightarrow> u8 \<Rightarrow> z80_state" where
  "z80_main_mem cpu yyy =
     (if yyy = 0 then (z80_write8 cpu (z80_bc cpu) (reg_a cpu))\<lparr>reg_wz := z80_bc cpu + 1\<rparr>
      else if yyy = 1 then cpu\<lparr>reg_a := z80_read8 cpu (z80_bc cpu), reg_wz := z80_bc cpu + 1\<rparr>
      else if yyy = 2 then (z80_write8 cpu (z80_de cpu) (reg_a cpu))\<lparr>reg_wz := z80_de cpu + 1\<rparr>
      else if yyy = 3 then cpu\<lparr>reg_a := z80_read8 cpu (z80_de cpu), reg_wz := z80_de cpu + 1\<rparr>
      else
        let (nn, cpu) = z80_fetch16 cpu in
        if yyy = 4 then (z80_write16 cpu nn (z80_hl cpu))\<lparr>reg_wz := nn + 1\<rparr>
        else if yyy = 5 then (z80_set_hl cpu (z80_read16 cpu nn))\<lparr>reg_wz := nn + 1\<rparr>
        else if yyy = 6 then (z80_write8 cpu nn (reg_a cpu))\<lparr>reg_wz := nn + 1\<rparr>
        else cpu\<lparr>reg_a := z80_read8 cpu nn, reg_wz := nn + 1\<rparr>)"

definition z80_main_xx0 :: "z80_state \<Rightarrow> u8 \<Rightarrow> u8 \<Rightarrow> z80_state" where
  "z80_main_xx0 cpu yyy zzz =
     (if zzz = 0 then z80_rel_jumps cpu yyy
      else if zzz = 1 then
        if nz (yyy AND 1) then z80_add_hl cpu (z80_read_rr cpu (drop_bit 1 yyy))
        else let (nn, cpu) = z80_fetch16 cpu in z80_write_rr cpu (drop_bit 1 yyy) nn
      else if zzz = 2 then z80_main_mem cpu yyy
      else if zzz = 3 then
        let pp = drop_bit 1 yyy; val = z80_read_rr cpu pp
        in if nz (yyy AND 1) then z80_write_rr cpu pp (val - 1) else z80_write_rr cpu pp (val + 1)
      else if zzz = 4 then
        let (res, cpu) = z80_inc8 cpu (z80_read_r8 cpu yyy) in z80_write_r8 cpu yyy res
      else if zzz = 5 then
        let (res, cpu) = z80_dec8 cpu (z80_read_r8 cpu yyy) in z80_write_r8 cpu yyy res
      else if zzz = 6 then
        let (n, cpu) = z80_fetch8 cpu in z80_write_r8 cpu yyy n
      else if zzz = 7 then z80_acc_op cpu yyy
      else cpu)"

definition z80_main_cb :: "z80_state \<Rightarrow> z80_state" where
  "z80_main_cb cpu =
     (let (cb, cpu) = z80_fetch8 cpu;
          cpu = z80_inc_r cpu;
          xx = op_xx cb; yyy = op_yyy cb; zzz = op_zzz cb;
          val = z80_read_r8 cpu zzz
      in if xx = 0 then let (val, cpu) = z80_shift_op cpu yyy val in z80_write_r8 cpu zzz val
         else if xx = 1 then
           let cpu = z80_bit cpu yyy val
           in if zzz = 6
              then cpu\<lparr>reg_f := (reg_f cpu AND NOT FLAG_35) OR (hi8 (reg_wz cpu) AND FLAG_35)\<rparr>
              else cpu
         else if xx = 2 then z80_write_r8 cpu zzz (val AND NOT (push_bit (unat yyy) 1))
         else z80_write_r8 cpu zzz (val OR push_bit (unat yyy) 1))"

definition z80_main_odd1 :: "z80_state \<Rightarrow> u8 \<Rightarrow> z80_state" where
  "z80_main_odd1 cpu yyy =
     (if nz (yyy AND 1) then
        if yyy = 1 then z80_ret cpu
        else if yyy = 3 then z80_exx cpu
        else if yyy = 5 then cpu\<lparr>reg_pc := z80_hl cpu\<rparr>
        else if yyy = 7 then cpu\<lparr>reg_sp := z80_hl cpu\<rparr>
        else cpu
      else let (v, cpu) = z80_pop16 cpu in z80_write_qq cpu (drop_bit 1 yyy) v)"

definition z80_main_misc3 :: "trap_env \<Rightarrow> z80_state \<Rightarrow> u8 \<Rightarrow> z80_state \<times> bool" where
  "z80_main_misc3 env cpu yyy =
     (if yyy = 0 then
        let (nn, cpu) = z80_fetch16 cpu in (cpu\<lparr>reg_wz := nn, reg_pc := nn\<rparr>, False)
      else if yyy = 1 then (z80_main_cb cpu, False)
      else if yyy = 2 then z80_out_n_a env cpu
      else if yyy = 3 then z80_in_a_n env cpu
      else if yyy = 4 then
        let val = z80_read16 cpu (reg_sp cpu);
            cpu = z80_write16 cpu (reg_sp cpu) (z80_hl cpu);
            cpu = z80_set_hl cpu val
        in (cpu\<lparr>reg_wz := val\<rparr>, False)
      else if yyy = 5 then (z80_ex_de_hl cpu, False)
      else if yyy = 6 then (cpu\<lparr>iff1 := 0, iff2 := 0\<rparr>, False)
      else if yyy = 7 then (cpu\<lparr>iff1 := 1, iff2 := 1\<rparr>, False)
      else (cpu, False))"

definition z80_main_odd5 :: "trap_env \<Rightarrow> z80_state \<Rightarrow> u8 \<Rightarrow> z80_state \<times> bool" where
  "z80_main_odd5 env cpu yyy =
     (if nz (yyy AND 1) then
        if yyy = 1 then
          let (nn, cpu) = z80_fetch16 cpu in (z80_call (cpu\<lparr>reg_wz := nn\<rparr>) nn, False)
        else if yyy = 5 then z80_decode_ed env cpu
        else if yyy = 3 then z80_decode_index env cpu IX
        else if yyy = 7 then z80_decode_index env cpu IY
        else (cpu, False)
      else (z80_push16 cpu (z80_read_qq cpu (drop_bit 1 yyy)), False))"

definition z80_main_xx3 :: "trap_env \<Rightarrow> z80_state \<Rightarrow> u8 \<Rightarrow> u8 \<Rightarrow> z80_state \<times> bool" where
  "z80_main_xx3 env cpu yyy zzz =
     (if zzz = 0 then (if z80_condition cpu yyy then z80_ret cpu else cpu, False)
      else if zzz = 1 then (z80_main_odd1 cpu yyy, False)
      else if zzz = 2 then
        let (nn, cpu) = z80_fetch16 cpu; cpu = cpu\<lparr>reg_wz := nn\<rparr>
        in (if z80_condition cpu yyy then cpu\<lparr>reg_pc := nn\<rparr> else cpu, False)
      else if zzz = 3 then z80_main_misc3 env cpu yyy
      else if zzz = 4 then
        let (nn, cpu) = z80_fetch16 cpu; cpu = cpu\<lparr>reg_wz := nn\<rparr>
        in (if z80_condition cpu yyy then z80_call cpu nn else cpu, False)
      else if zzz = 5 then z80_main_odd5 env cpu yyy
      else if zzz = 6 then
        let (n, cpu) = z80_fetch8 cpu in (z80_alu_op cpu yyy n, False)
      else z80_rst env cpu yyy)"

subsection \<open>The interpreter loop\<close>

definition z80_execute :: "trap_env \<Rightarrow> z80_state \<Rightarrow> u8 \<Rightarrow> z80_state \<times> bool" where
  "z80_execute env cpu opcode =
     (let xx = op_xx opcode; yyy = op_yyy opcode; zzz = op_zzz opcode
      in if xx = 1 then (z80_main_xx1 cpu opcode, False)
         else if xx = 0 then (z80_main_xx0 cpu yyy zzz, False)
         else if xx = 2 then (z80_alu_op cpu yyy (z80_read_r8 cpu zzz), False)
         else z80_main_xx3 env cpu yyy zzz)"

definition z80_iter :: "trap_env \<Rightarrow> z80_state \<Rightarrow> z80_state \<times> bool" where
  "z80_iter env cpu =
     (if nz (halted cpu) then
        let (cpu, rc) = z80_fire_trap env cpu CPU_TRAP_HALT 0 in
        if rc = CPU_TRAP_EXIT then (cpu, True)
        else if \<not> nz (halted cpu) then (cpu, False)
        else (cpu, True)
      else
        let (opcode, cpu) = z80_fetch8 cpu;
            cpu = z80_inc_r cpu;
            (cpu, ret) = z80_execute env cpu opcode
        in if ret then (cpu, True)
           else if nz (step_budget cpu) then
             let cpu = cpu\<lparr>step_budget := step_budget cpu - 1\<rparr>
             in (cpu, \<not> nz (step_budget cpu))
           else (cpu, False))"

partial_function (option) z80_loop :: "trap_env \<Rightarrow> z80_state \<Rightarrow> z80_state option" where
  "z80_loop env cpu =
     (let r = z80_iter env cpu in if snd r then Some (fst r) else z80_loop env (fst r))"

definition ecpu_z80_run :: "trap_env \<Rightarrow> z80_state \<Rightarrow> z80_state option" where
  "ecpu_z80_run env cpu = z80_loop env (cpu\<lparr>step_trap_exit := 0\<rparr>)"

end
