(* ===== verification/Z80_Exec.thy ===== *)
theory Z80_Exec
  imports Z80_Core
begin

text \<open>
  Properties of the Z80 interpreter of \<^verbatim>\<open>Z80_Core\<close>: no instruction touches the emulator's own
  fields, so a run with a step budget ends; a budget of one executes exactly one instruction; LDIR is
  a forward block copy; exchanges, calls and rotates undo each other. The definitions of this theory
  are specification devices and model no code.
\<close>

subsection \<open>Specification devices\<close>

text \<open>The emulator's own fields, the contract of a trap handler on them, the measure of the
  loop, what LDIR works on, and a forward byte copy.\<close>

definition z80_emu :: "z80_state \<Rightarrow> u8 \<times> nat option \<times> nat \<times> u32" where
  "z80_emu cpu = (step_budget cpu, trap_handler cpu, trap_ctx cpu, mem_size cpu)"

definition trap_keeps_emu :: "trap_env \<Rightarrow> bool" where
  "trap_keeps_emu env \<longleftrightarrow> (\<forall>h cpu t p x. z80_emu (fst (env h cpu t p x)) = z80_emu cpu)"

definition z80_iter_measure :: "z80_state \<Rightarrow> nat" where
  "z80_iter_measure cpu = 2 * unat (step_budget cpu) + (if nz (halted cpu) then 1 else 0)"

record ldir_view =
  lv_mem :: "u16 \<Rightarrow> u8"
  lv_hl :: u16
  lv_de :: u16
  lv_bc :: u16
  lv_pc :: u16

definition view :: "z80_state \<Rightarrow> ldir_view" where
  "view cpu = \<lparr>lv_mem = memory cpu, lv_hl = z80_hl cpu, lv_de = z80_de cpu, lv_bc = z80_bc cpu,
     lv_pc = reg_pc cpu\<rparr>"

fun copy_fwd :: "('a::len word \<Rightarrow> 'b) \<Rightarrow> 'a word \<Rightarrow> 'a word \<Rightarrow> nat \<Rightarrow> 'a word \<Rightarrow> 'b" where
  "copy_fwd m s d 0 = m"
| "copy_fwd m s d (Suc n) = copy_fwd (m(d := m s)) (s + 1) (d + 1) n"

definition ldir_demo :: z80_state where
  "ldir_demo = (ecpu_z80_init ((\<lambda>_. 0)(0 := 0xED, 1 := 0xB0, 0x100 := 7, 0x101 := 9)) 0x10000)
     \<lparr>reg_h := 1, reg_d := 2, reg_c := 2\<rparr>"

lemma z80_emu_updates [simp]:
  "z80_emu (cpu\<lparr>reg_a := v\<rparr>) = z80_emu cpu" "z80_emu (cpu\<lparr>reg_f := v\<rparr>) = z80_emu cpu"
  "z80_emu (cpu\<lparr>reg_b := v\<rparr>) = z80_emu cpu" "z80_emu (cpu\<lparr>reg_c := v\<rparr>) = z80_emu cpu"
  "z80_emu (cpu\<lparr>reg_d := v\<rparr>) = z80_emu cpu" "z80_emu (cpu\<lparr>reg_e := v\<rparr>) = z80_emu cpu"
  "z80_emu (cpu\<lparr>reg_h := v\<rparr>) = z80_emu cpu" "z80_emu (cpu\<lparr>reg_l := v\<rparr>) = z80_emu cpu"
  "z80_emu (cpu\<lparr>reg_a2 := v\<rparr>) = z80_emu cpu" "z80_emu (cpu\<lparr>reg_f2 := v\<rparr>) = z80_emu cpu"
  "z80_emu (cpu\<lparr>reg_b2 := v\<rparr>) = z80_emu cpu" "z80_emu (cpu\<lparr>reg_c2 := v\<rparr>) = z80_emu cpu"
  "z80_emu (cpu\<lparr>reg_d2 := v\<rparr>) = z80_emu cpu" "z80_emu (cpu\<lparr>reg_e2 := v\<rparr>) = z80_emu cpu"
  "z80_emu (cpu\<lparr>reg_h2 := v\<rparr>) = z80_emu cpu" "z80_emu (cpu\<lparr>reg_l2 := v\<rparr>) = z80_emu cpu"
  "z80_emu (cpu\<lparr>reg_ix := w\<rparr>) = z80_emu cpu" "z80_emu (cpu\<lparr>reg_iy := w\<rparr>) = z80_emu cpu"
  "z80_emu (cpu\<lparr>reg_sp := w\<rparr>) = z80_emu cpu" "z80_emu (cpu\<lparr>reg_pc := w\<rparr>) = z80_emu cpu"
  "z80_emu (cpu\<lparr>reg_i := v\<rparr>) = z80_emu cpu" "z80_emu (cpu\<lparr>reg_r := v\<rparr>) = z80_emu cpu"
  "z80_emu (cpu\<lparr>reg_wz := w\<rparr>) = z80_emu cpu" "z80_emu (cpu\<lparr>iff1 := v\<rparr>) = z80_emu cpu"
  "z80_emu (cpu\<lparr>iff2 := v\<rparr>) = z80_emu cpu" "z80_emu (cpu\<lparr>im := v\<rparr>) = z80_emu cpu"
  "z80_emu (cpu\<lparr>halted := v\<rparr>) = z80_emu cpu" "z80_emu (cpu\<lparr>memory := m\<rparr>) = z80_emu cpu"
  "z80_emu (cpu\<lparr>step_trap_exit := v\<rparr>) = z80_emu cpu"
  by (simp_all add: z80_emu_def)

lemma z80_emu_access [simp]:
  "z80_emu (z80_set_af cpu w) = z80_emu cpu" "z80_emu (z80_set_bc cpu w) = z80_emu cpu"
  "z80_emu (z80_set_de cpu w) = z80_emu cpu" "z80_emu (z80_set_hl cpu w) = z80_emu cpu"
  "z80_emu (z80_write8 cpu w v) = z80_emu cpu" "z80_emu (z80_write16 cpu w x) = z80_emu cpu"
  "z80_emu (z80_push16 cpu w) = z80_emu cpu"
  "z80_emu (set_idx cpu idx w) = z80_emu cpu"
  by (simp_all add: z80_pair_defs z80_write8_def z80_write16_def z80_push16_def Let_def)
    (cases idx; simp)

lemma z80_emu_fetch [simp]:
  "z80_emu (snd (z80_fetch8 cpu)) = z80_emu cpu" "z80_emu (snd (z80_fetch16 cpu)) = z80_emu cpu"
  "z80_emu (snd (z80_pop16 cpu)) = z80_emu cpu" "z80_emu (snd (z80_fetch_disp cpu idx)) = z80_emu cpu"
  by (simp_all add: z80_fetch8_def z80_fetch16_def z80_pop16_def z80_fetch_disp_def Let_def)

lemma z80_emu_regs [simp]:
  "z80_emu (z80_write_r8 cpu c v) = z80_emu cpu" "z80_emu (z80_write_rr cpu c w) = z80_emu cpu"
  "z80_emu (z80_write_qq cpu c w) = z80_emu cpu"
  "z80_emu (z80_write_r8_ix cpu c idx v) = z80_emu cpu"
  "z80_emu (z80_write_rr_ix cpu c idx w) = z80_emu cpu"
  by (simp_all add: z80_write_r8_def z80_write_rr_def z80_write_qq_def z80_write_r8_ix_def
      z80_write_rr_ix_def)

lemma z80_emu_alu [simp]:
  "z80_emu (z80_alu_op cpu c v) = z80_emu cpu"
  "z80_emu (snd (z80_inc8 cpu v)) = z80_emu cpu" "z80_emu (snd (z80_dec8 cpu v)) = z80_emu cpu"
  "z80_emu (z80_add_a cpu v) = z80_emu cpu" "z80_emu (z80_adc_a cpu v) = z80_emu cpu"
  "z80_emu (z80_sub_a cpu v) = z80_emu cpu" "z80_emu (z80_sbc_a cpu v) = z80_emu cpu"
  "z80_emu (z80_and_a cpu v) = z80_emu cpu" "z80_emu (z80_xor_a cpu v) = z80_emu cpu"
  "z80_emu (z80_or_a cpu v) = z80_emu cpu" "z80_emu (z80_cp_a cpu v) = z80_emu cpu"
  "z80_emu (z80_add_hl cpu w) = z80_emu cpu" "z80_emu (z80_adc_hl cpu w) = z80_emu cpu"
  "z80_emu (z80_sbc_hl cpu w) = z80_emu cpu" "z80_emu (z80_add_ix cpu idx w) = z80_emu cpu"
  "z80_emu (z80_acc_op cpu c) = z80_emu cpu" "z80_emu (snd (z80_shift_op cpu c v)) = z80_emu cpu"
  "z80_emu (z80_bit cpu c v) = z80_emu cpu"
  by (simp_all add: z80_alu_op_def z80_add_a_def z80_adc_a_def z80_sub_a_def z80_sbc_a_def
      z80_and_a_def z80_xor_a_def z80_or_a_def z80_cp_a_def z80_inc8_def z80_dec8_def z80_add_hl_def
      z80_adc_hl_def z80_sbc_hl_def z80_add_ix_def z80_acc_op_def z80_rlca_def z80_rrca_def z80_rla_def
      z80_rra_def z80_daa_def z80_cpl_def z80_scf_def z80_ccf_def z80_shift_op_def cb_flags_def
      z80_rlc_def z80_rrc_def z80_rl_def z80_rr_def z80_sla_def z80_sra_def z80_sll_def z80_srl_def
      z80_bit_def Let_def split_beta)

lemma z80_emu_shared [simp]:
  "z80_emu (z80_inc_r cpu) = z80_emu cpu" "z80_emu (z80_ex_af cpu) = z80_emu cpu"
  "z80_emu (z80_exx cpu) = z80_emu cpu" "z80_emu (z80_ex_de_hl cpu) = z80_emu cpu"
  "z80_emu (z80_rel_jumps cpu c) = z80_emu cpu" "z80_emu (z80_ret cpu) = z80_emu cpu"
  "z80_emu (z80_call cpu w) = z80_emu cpu"
  by (simp_all add: z80_inc_r_def z80_ex_af_def z80_exx_def z80_ex_de_hl_def z80_rel_jumps_def
      z80_ret_def z80_call_def Let_def split_beta)

lemma z80_emu_ed [simp]:
  "z80_emu (z80_ed_misc cpu c) = z80_emu cpu" "z80_emu (z80_ldi cpu c) = z80_emu cpu"
  "z80_emu (z80_cpi cpu c) = z80_emu cpu"
  by (simp_all add: z80_ed_misc_def z80_ld_a_ir_def z80_ldi_def z80_cpi_def Let_def)

lemma z80_emu_index [simp]:
  "z80_emu (z80_index_xx1 cpu idx c) = z80_emu cpu" "z80_emu (z80_index_mem cpu idx c) = z80_emu cpu"
  "z80_emu (z80_index_xx0 cpu idx c d) = z80_emu cpu" "z80_emu (z80_index_xx2 cpu idx c d) = z80_emu cpu"
  "z80_emu (z80_index_cb cpu idx) = z80_emu cpu" "z80_emu (z80_index_odd1 cpu idx c) = z80_emu cpu"
  by (simp_all add: z80_index_xx1_def z80_index_mem_def z80_index_xx0_def z80_index_xx2_def
      z80_index_cb_def z80_index_odd1_def Let_def split_beta)

lemma z80_emu_main [simp]:
  "z80_emu (z80_main_xx1 cpu c) = z80_emu cpu" "z80_emu (z80_main_mem cpu c) = z80_emu cpu"
  "z80_emu (z80_main_xx0 cpu c d) = z80_emu cpu" "z80_emu (z80_main_cb cpu) = z80_emu cpu"
  "z80_emu (z80_main_odd1 cpu c) = z80_emu cpu"
  by (simp_all add: z80_main_xx1_def z80_main_mem_def z80_main_xx0_def z80_main_cb_def
      z80_main_odd1_def Let_def split_beta)

subsection \<open>Traps keep the emulator fields when the handler does\<close>

lemma z80_emu_fire_trap:
  "trap_keeps_emu env \<Longrightarrow> z80_emu (fst (z80_fire_trap env cpu t p)) = z80_emu cpu"
  by (simp add: z80_fire_trap_def trap_keeps_emu_def split_beta Let_def split: option.split)

lemma z80_emu_traps:
  assumes "trap_keeps_emu env"
  shows "z80_emu (fst (z80_rst env cpu c)) = z80_emu cpu"
    "z80_emu (fst (z80_out_n_a env cpu)) = z80_emu cpu"
    "z80_emu (fst (z80_in_a_n env cpu)) = z80_emu cpu"
    "z80_emu (fst (z80_ed_io env cpu c d)) = z80_emu cpu"
    "z80_emu (fst (z80_blk_io env cpu c t)) = z80_emu cpu"
  using z80_emu_fire_trap [OF assms]
  by (simp_all add: z80_rst_def z80_out_n_a_def z80_in_a_n_def z80_ed_io_def z80_blk_io_def
      Let_def split_beta)

lemma z80_emu_decode_ed:
  "trap_keeps_emu env \<Longrightarrow> z80_emu (fst (z80_decode_ed env cpu)) = z80_emu cpu"
  by (simp add: z80_decode_ed_def z80_ed_xx1_def z80_ed_block_def z80_emu_traps Let_def split_beta)

lemma z80_emu_decode_index:
  "trap_keeps_emu env \<Longrightarrow> z80_emu (fst (z80_decode_index env cpu idx)) = z80_emu cpu"
  by (simp add: z80_decode_index_def z80_index_xx3_def z80_index_misc3_def z80_index_odd5_def
      z80_emu_traps z80_emu_decode_ed Let_def split_beta)

lemma z80_emu_execute:
  "trap_keeps_emu env \<Longrightarrow> z80_emu (fst (z80_execute env cpu op)) = z80_emu cpu"
  by (simp add: z80_execute_def z80_main_xx3_def z80_main_misc3_def z80_main_odd5_def
      z80_emu_traps z80_emu_decode_ed z80_emu_decode_index Let_def split_beta)

lemma step_budget_emu: "step_budget cpu = fst (z80_emu cpu)"
  by (simp add: z80_emu_def)

lemma z80_iter_progress:
  assumes "trap_keeps_emu env" and "nz (step_budget cpu)" and "\<not> snd (z80_iter env cpu)"
  shows "nz (step_budget (fst (z80_iter env cpu))) \<and>
    z80_iter_measure (fst (z80_iter env cpu)) < z80_iter_measure cpu"
proof (cases "nz (halted cpu)")
  case True
  have "step_budget (fst (z80_fire_trap env cpu CPU_TRAP_HALT 0)) = step_budget cpu"
    using z80_emu_fire_trap [OF assms(1)] by (simp add: step_budget_emu)
  with True assms(2,3) show ?thesis
    by (auto simp: z80_iter_def z80_iter_measure_def Let_def split_beta split: if_splits)
next
  case False
  define c1 where "c1 = fst (z80_execute env (z80_inc_r (snd (z80_fetch8 cpu))) (fst (z80_fetch8 cpu)))"
  have b: "step_budget c1 = step_budget cpu"
    unfolding c1_def by (simp add: step_budget_emu z80_emu_execute [OF assms(1)])
  have "z80_iter env cpu = (c1\<lparr>step_budget := step_budget c1 - 1\<rparr>, \<not> nz (step_budget c1 - 1))"
    using False assms(2,3) b unfolding z80_iter_def Let_def split_beta c1_def [symmetric]
    by (simp split: if_splits)
  moreover have "unat (step_budget c1 - 1) < unat (step_budget c1)"
    using assms(2) b by (simp add: unat_minus_one unat_gt_0 word_neq_0_conv)
  ultimately show ?thesis
    using assms(3) b by (simp add: z80_iter_measure_def)
qed

lemma z80_loop_terminates:
  assumes "trap_keeps_emu env" and "nz (step_budget cpu)"
  shows "\<exists>cpu'. z80_loop env cpu = Some cpu'"
  using assms(2)
proof (induction "z80_iter_measure cpu" arbitrary: cpu rule: less_induct)
  case less
  show ?case
  proof (cases "snd (z80_iter env cpu)")
    case True
    then show ?thesis by (subst z80_loop.simps) (simp add: Let_def)
  next
    case False
    then have "\<exists>cpu'. z80_loop env (fst (z80_iter env cpu)) = Some cpu'"
      using z80_iter_progress [OF assms(1) less.prems] less.hyps by blast
    with False show ?thesis by (subst z80_loop.simps) (simp add: Let_def)
  qed
qed

text \<open>C2: a run with a step budget ends: whenever the trap handler leaves the emulator's own fields
  alone, \<^verbatim>\<open>ecpu_z80_run\<close> returns from every state whose budget is not zero, halted or
  not, whatever code it executes.\<close>

theorem z80_run_terminates:
  assumes "trap_keeps_emu env" and "nz (step_budget cpu)"
  shows "\<exists>cpu'. ecpu_z80_run env cpu = Some cpu'"
  unfolding ecpu_z80_run_def using z80_loop_terminates [OF assms(1)] assms(2) by simp

lemma z80_emu_no_handler: "trap_handler cpu = None \<Longrightarrow> z80_fire_trap env cpu t p = (cpu, CPU_TRAP_UNHANDLED)"
  by (simp add: z80_fire_trap_def)

lemma op_fields [simp]:
  "op_xx 0xED = 3" "op_yyy 0xED = 5" "op_zzz 0xED = 5"
  "op_xx 0xB0 = 2" "op_yyy 0xB0 = 6" "op_zzz 0xB0 = 0"
  by (simp_all add: op_xx_def op_yyy_def op_zzz_def drop_bit_eq_div)

lemma z80_iter_ed:
  assumes "halted cpu = 0" and "memory cpu (reg_pc cpu) = 0xED"
  shows "z80_iter env cpu =
    (let (cpu, ret) = z80_decode_ed env (z80_inc_r (cpu\<lparr>reg_pc := reg_pc cpu + 1\<rparr>))
     in if ret then (cpu, True)
        else if nz (step_budget cpu)
        then (cpu\<lparr>step_budget := step_budget cpu - 1\<rparr>, step_budget cpu - 1 = 0) else (cpu, False))"
  using assms
  by (simp add: z80_iter_def z80_fetch8_def z80_execute_def z80_main_xx3_def z80_main_odd5_def
      Let_def split_beta)

lemma z80_pair_upd [simp]:
  "z80_bc (cpu\<lparr>reg_f := v\<rparr>) = z80_bc cpu" "z80_bc (cpu\<lparr>reg_pc := w\<rparr>) = z80_bc cpu"
  "z80_bc (cpu\<lparr>reg_wz := w\<rparr>) = z80_bc cpu" "z80_bc (cpu\<lparr>reg_r := v\<rparr>) = z80_bc cpu"
  "z80_bc (z80_write8 cpu a v) = z80_bc cpu"
  "z80_de (cpu\<lparr>reg_f := v\<rparr>) = z80_de cpu" "z80_de (cpu\<lparr>reg_pc := w\<rparr>) = z80_de cpu"
  "z80_de (cpu\<lparr>reg_wz := w\<rparr>) = z80_de cpu" "z80_de (cpu\<lparr>reg_r := v\<rparr>) = z80_de cpu"
  "z80_de (z80_write8 cpu a v) = z80_de cpu"
  "z80_hl (cpu\<lparr>reg_f := v\<rparr>) = z80_hl cpu" "z80_hl (cpu\<lparr>reg_pc := w\<rparr>) = z80_hl cpu"
  "z80_hl (cpu\<lparr>reg_wz := w\<rparr>) = z80_hl cpu" "z80_hl (cpu\<lparr>reg_r := v\<rparr>) = z80_hl cpu"
  "z80_hl (z80_write8 cpu a v) = z80_hl cpu"
  by (simp_all add: z80_pair_defs z80_write8_def)

lemma z80_ldi_effect:
  "memory (z80_ldi cpu 6) = (memory cpu)(z80_de cpu := memory cpu (z80_hl cpu))"
  "z80_hl (z80_ldi cpu 6) = z80_hl cpu + 1" "z80_de (z80_ldi cpu 6) = z80_de cpu + 1"
  "z80_bc (z80_ldi cpu 6) = z80_bc cpu - 1"
  "reg_pc (z80_ldi cpu 6) = (if z80_bc cpu = 1 then reg_pc cpu else reg_pc cpu - 2)"
  "halted (z80_ldi cpu 6) = halted cpu"
  unfolding z80_ldi_def Let_def
  by (simp_all add: blk_dir_def z80_read8_def) (simp_all add: z80_write8_def z80_pair_defs)

lemma ldir_iter:
  fixes env
  assumes "halted cpu = 0" and "step_budget cpu = 0"
    and "memory cpu (reg_pc cpu) = 0xED" and "memory cpu (reg_pc cpu + 1) = 0xB0"
  defines "cpu' \<equiv> fst (z80_iter env cpu)"
  shows "view cpu' =
      \<lparr>lv_mem = (memory cpu)(z80_de cpu := memory cpu (z80_hl cpu)), lv_hl = z80_hl cpu + 1,
       lv_de = z80_de cpu + 1, lv_bc = z80_bc cpu - 1,
       lv_pc = (if z80_bc cpu = 1 then reg_pc cpu + 2 else reg_pc cpu)\<rparr>"
    and "halted cpu' = 0" and "step_budget cpu' = 0"
proof -
  define c1 where
    "c1 = z80_inc_r ((z80_inc_r (cpu\<lparr>reg_pc := reg_pc cpu + 1\<rparr>))\<lparr>reg_pc := reg_pc cpu + 2\<rparr>)"
  have dec: "z80_decode_ed env (z80_inc_r (cpu\<lparr>reg_pc := reg_pc cpu + 1\<rparr>)) = (z80_ldi c1 6, False)"
    using assms(4) by (simp add: c1_def z80_decode_ed_def z80_fetch8_def z80_inc_r_def z80_ed_block_def
        Let_def add.commute [of 2])
  have c1: "memory c1 = memory cpu" "z80_hl c1 = z80_hl cpu" "z80_de c1 = z80_de cpu"
    "z80_bc c1 = z80_bc cpu" "reg_pc c1 = reg_pc cpu + 2" "halted c1 = 0" "step_budget c1 = 0"
    using assms(1,2) by (simp_all add: c1_def z80_inc_r_def)
  have b: "step_budget (z80_ldi c1 6) = 0" using c1(7) by (simp add: step_budget_emu)
  have it: "cpu' = z80_ldi c1 6"
    unfolding cpu'_def z80_iter_ed [OF assms(1,3)] dec by (simp add: Let_def b)
  show "view cpu' =
      \<lparr>lv_mem = (memory cpu)(z80_de cpu := memory cpu (z80_hl cpu)), lv_hl = z80_hl cpu + 1,
       lv_de = z80_de cpu + 1, lv_bc = z80_bc cpu - 1,
       lv_pc = (if z80_bc cpu = 1 then reg_pc cpu + 2 else reg_pc cpu)\<rparr>"
    unfolding it view_def by (simp add: z80_ldi_effect c1)
  show "halted cpu' = 0" "step_budget cpu' = 0"
    unfolding it by (simp_all add: z80_ldi_effect c1 b)
qed

lemma view_sel:
  "lv_mem (view c) = memory c" "lv_hl (view c) = z80_hl c" "lv_de (view c) = z80_de c"
  "lv_bc (view c) = z80_bc c" "lv_pc (view c) = reg_pc c"
  by (simp_all add: view_def)

lemma ldir_loop:
  assumes "halted cpu = 0" and "step_budget cpu = 0"
    and "memory cpu (reg_pc cpu) = 0xED" and "memory cpu (reg_pc cpu + 1) = 0xB0"
    and "unat (z80_bc cpu) = Suc n"
    and "\<And>i. i \<le> n \<Longrightarrow> z80_de cpu + of_nat i \<noteq> reg_pc cpu \<and> z80_de cpu + of_nat i \<noteq> reg_pc cpu + 1"
  shows "view (((\<lambda>c. fst (z80_iter env c)) ^^ Suc n) cpu) =
    \<lparr>lv_mem = copy_fwd (memory cpu) (z80_hl cpu) (z80_de cpu) (Suc n),
     lv_hl = z80_hl cpu + of_nat (Suc n), lv_de = z80_de cpu + of_nat (Suc n), lv_bc = 0,
     lv_pc = reg_pc cpu + 2\<rparr>"
  using assms
proof (induction n arbitrary: cpu)
  case 0
  then have "z80_bc cpu = 1" by (intro unsigned_word_eqI [where ?'a = nat]) simp
  with ldir_iter(1) [OF 0(1-4), of env] show ?case by (simp add: view_sel fun_upd_def)
next
  case (Suc n)
  let ?c = "fst (z80_iter env cpu)"
  note it = ldir_iter [OF Suc.prems(1-4), of env]
  have bc1: "z80_bc cpu \<noteq> 1" using Suc.prems(5) by auto
  have bc: "unat (z80_bc cpu - 1) = Suc n" using Suc.prems(5) by (subst unat_minus_one) auto
  have mem: "memory ?c = (memory cpu)(z80_de cpu := memory cpu (z80_hl cpu))"
    and pc: "reg_pc ?c = reg_pc cpu" and hl: "z80_hl ?c = z80_hl cpu + 1"
    and de: "z80_de ?c = z80_de cpu + 1" and bc': "z80_bc ?c = z80_bc cpu - 1"
    using arg_cong [OF it(1), of lv_mem] arg_cong [OF it(1), of lv_pc] arg_cong [OF it(1), of lv_hl]
      arg_cong [OF it(1), of lv_de] arg_cong [OF it(1), of lv_bc] bc1
    by (simp_all add: view_sel)
  have keep: "memory ?c (reg_pc ?c) = 0xED" "memory ?c (reg_pc ?c + 1) = 0xB0"
    using Suc.prems(3,4) Suc.prems(6) [of 0] by (auto simp: mem pc)
  have dst: "z80_de ?c + of_nat i \<noteq> reg_pc ?c \<and> z80_de ?c + of_nat i \<noteq> reg_pc ?c + 1" if "i \<le> n" for i
    using Suc.prems(6) [of "Suc i"] that by (simp add: de pc ac_simps)
  have "view (((\<lambda>c. fst (z80_iter env c)) ^^ Suc n) ?c) =
    \<lparr>lv_mem = copy_fwd (memory ?c) (z80_hl ?c) (z80_de ?c) (Suc n),
     lv_hl = z80_hl ?c + of_nat (Suc n), lv_de = z80_de ?c + of_nat (Suc n), lv_bc = 0,
     lv_pc = reg_pc ?c + 2\<rparr>"
    by (rule Suc.IH [OF it(2,3) keep]) (simp_all add: bc' bc dst)
  then show ?case
    by (simp add: funpow_Suc_right mem hl de pc ac_simps del: funpow.simps)
qed

lemma copy_fwd_outside:
  assumes "\<And>i. i < n \<Longrightarrow> x \<noteq> d + of_nat i"
  shows "copy_fwd m s d n x = m x"
  using assms
proof (induction n arbitrary: m s d)
  case (Suc n)
  have "x \<noteq> d" using Suc.prems [of 0] by simp
  moreover have "x \<noteq> d + 1 + of_nat i" if "i < n" for i
    using Suc.prems [of "Suc i"] that by (simp add: ac_simps)
  ultimately show ?case using Suc.IH by simp
qed simp

lemma copy_fwd_disjoint:
  assumes "\<And>i j. i < n \<Longrightarrow> j < n \<Longrightarrow> d + of_nat i \<noteq> s + of_nat j" and "n < 2 ^ LENGTH('a)"
    and "i < n"
  shows "copy_fwd m s d n (d + of_nat i) = m (s + of_nat i :: 'a::len word)"
  using assms
proof (induction n arbitrary: m s d i)
    case (Suc n)
    note IH = Suc.IH and apart = Suc.prems(1) and small = Suc.prems(2) and i_less = Suc.prems(3)
    show ?case
    proof (cases i)
      case 0
      have "d \<noteq> d + 1 + of_nat j" if "j < n" for j
      proof -
        have "unat (of_nat (Suc j) :: 'a word) = Suc j"
          using that small by (simp add: unat_of_nat del: of_nat_Suc)
        then have "of_nat (Suc j) \<noteq> (0 :: 'a word)" by (metis nat.distinct(1) unat_0)
        then show ?thesis by (simp add: ac_simps)
      qed
      then show ?thesis using 0 by (simp add: copy_fwd_outside)
    next
      case i: (Suc i')
      have "copy_fwd (m(d := m s)) (s + 1) (d + 1) n (d + 1 + of_nat i') =
          (m(d := m s)) (s + 1 + of_nat i')"
      proof (rule IH)
        fix k j assume "k < n" "j < n"
        then show "d + 1 + of_nat k \<noteq> s + 1 + of_nat j"
          using apart [of "Suc k" "Suc j"] by (simp add: ac_simps)
      qed (use small i_less i in auto)
      moreover have "s + 1 + of_nat i' \<noteq> d"
        using apart [of 0 "Suc i'"] i_less i by (auto simp: ac_simps)
      ultimately show ?thesis using i by (simp add: ac_simps)
    qed
qed simp

lemma step_budget_execute:
  "trap_keeps_emu env \<Longrightarrow> step_budget (fst (z80_execute env cpu op)) = step_budget cpu"
  by (simp add: step_budget_emu z80_emu_execute)

text \<open>A budget of one is a single step: \<^verbatim>\<open>ecpu_z80_run\<close> fetches the byte at PC, advances PC
  and the refresh register, executes that one instruction and returns with the budget used up.\<close>

theorem z80_run_one_step:
  assumes "trap_keeps_emu env" and "halted cpu = 0" and "step_budget cpu = 1"
  shows "ecpu_z80_run env cpu =
    (let r = z80_execute env (z80_inc_r (cpu\<lparr>step_trap_exit := 0, reg_pc := reg_pc cpu + 1\<rparr>))
               (memory cpu (reg_pc cpu))
     in Some (if snd r then fst r else (fst r)\<lparr>step_budget := 0\<rparr>))"
proof -
  have b: "step_budget (fst (z80_execute env (z80_inc_r (cpu\<lparr>step_trap_exit := 0, reg_pc := reg_pc cpu + 1\<rparr>)) op)) = 1"
    for op
    using step_budget_execute [OF assms(1)] assms(3) by (simp add: z80_inc_r_def)
  show ?thesis
    unfolding ecpu_z80_run_def
    by (subst z80_loop.simps) (simp add: z80_iter_def assms(2) z80_fetch8_def Let_def split_beta b)
qed

lemma trap_keeps_emu_id: "trap_keeps_emu (\<lambda>h cpu t p x. (cpu\<lparr>halted := 0\<rparr>, rc))"
  by (simp add: trap_keeps_emu_def)

theorem z80_run_terminates_witness:
  "\<exists>cpu'. ecpu_z80_run (\<lambda>h cpu t p x. (cpu\<lparr>halted := 0\<rparr>, 1))
     ((ecpu_z80_init (\<lambda>_. 0x76) 0x10000)\<lparr>step_budget := 200, trap_handler := Some 1\<rparr>) = Some cpu'"
  by (rule z80_run_terminates [OF trap_keeps_emu_id]) (simp add: ecpu_z80_init_def)

text \<open>\<^verbatim>\<open>INC A\<close> (0x3C) single-stepped.\<close>

theorem z80_run_one_step_witness:
  "\<exists>cpu'. ecpu_z80_run (\<lambda>h cpu t p x. (cpu\<lparr>halted := 0\<rparr>, 1))
     ((ecpu_z80_init (\<lambda>_. 0x3C) 0x10000)\<lparr>step_budget := 1\<rparr>) = Some cpu' \<and>
     reg_a cpu' = 1 \<and> reg_pc cpu' = 1 \<and> step_budget cpu' = 0"
proof -
  let ?c = "(ecpu_z80_init (\<lambda>_. 0x3C) 0x10000)\<lparr>step_budget := 1\<rparr>"
  have "halted ?c = 0" "step_budget ?c = 1" by (simp_all add: ecpu_z80_init_def)
  note step = z80_run_one_step [OF trap_keeps_emu_id this, of 1]
  have op: "op_xx 0x3C = 0" "op_yyy 0x3C = 7" "op_zzz 0x3C = 4"
    by (simp_all add: op_xx_def op_yyy_def op_zzz_def drop_bit_eq_div)
  show ?thesis
    unfolding step
    by (simp add: ecpu_z80_init_def z80_execute_def op z80_main_xx0_def z80_read_r8_def z80_inc8_def
        z80_write_r8_def z80_inc_r_def Let_def)
qed

text \<open>C1: LDIR is a block copy: from a state at an LDIR instruction with BC = n, n turns of the
  interpreter loop copy n bytes from HL to DE, change no other byte, advance HL and DE by n, leave BC
  at zero and PC behind the instruction, provided the two areas are disjoint and the destination does
  not overwrite the instruction.\<close>

theorem z80_ldir_block_copy:
  fixes env :: trap_env and n :: nat
  assumes "halted cpu = 0" and "step_budget cpu = 0"
    and "memory cpu (reg_pc cpu) = 0xED" and "memory cpu (reg_pc cpu + 1) = 0xB0"
    and n: "unat (z80_bc cpu) = n" "0 < n"
    and code: "\<And>i. i < n \<Longrightarrow> z80_de cpu + of_nat i \<noteq> reg_pc cpu \<and> z80_de cpu + of_nat i \<noteq> reg_pc cpu + 1"
    and apart: "\<And>i j. i < n \<Longrightarrow> j < n \<Longrightarrow> z80_de cpu + of_nat i \<noteq> z80_hl cpu + of_nat j"
  defines "cpu' \<equiv> ((\<lambda>c. fst (z80_iter env c)) ^^ n) cpu"
  shows "(\<forall>i < n. memory cpu' (z80_de cpu + of_nat i) = memory cpu (z80_hl cpu + of_nat i))
    \<and> (\<forall>x. (\<forall>i < n. x \<noteq> z80_de cpu + of_nat i) \<longrightarrow> memory cpu' x = memory cpu x)
    \<and> z80_hl cpu' = z80_hl cpu + of_nat n \<and> z80_de cpu' = z80_de cpu + of_nat n
    \<and> z80_bc cpu' = 0 \<and> reg_pc cpu' = reg_pc cpu + 2"
proof -
  obtain k where k: "n = Suc k" using n(2) by (cases n) auto
  have v: "view cpu' = \<lparr>lv_mem = copy_fwd (memory cpu) (z80_hl cpu) (z80_de cpu) n,
     lv_hl = z80_hl cpu + of_nat n, lv_de = z80_de cpu + of_nat n, lv_bc = 0,
     lv_pc = reg_pc cpu + 2\<rparr>"
    unfolding cpu'_def k
    by (rule ldir_loop [OF assms(1-4)]) (use n code in \<open>auto simp: k\<close>)
  have "n < 2 ^ LENGTH(16)" using n(1) unat_u16_less [of "z80_bc cpu"] by simp
  with v show ?thesis
    using copy_fwd_disjoint [of n "z80_de cpu" "z80_hl cpu" _ "memory cpu"] apart
      copy_fwd_outside [of n _ "z80_de cpu" "memory cpu" "z80_hl cpu"]
    by (simp add: view_def)
qed

text \<open>A two-byte LDIR at address 0 from 0x100 to 0x200.\<close>

lemma ldir_demo_facts:
  "z80_hl ldir_demo = 0x100" "z80_de ldir_demo = 0x200" "z80_bc ldir_demo = 2"
  "reg_pc ldir_demo = 0" "halted ldir_demo = 0" "step_budget ldir_demo = 0"
  "memory ldir_demo 0 = 0xED" "memory ldir_demo 1 = 0xB0" "memory ldir_demo 0x100 = 7"
  "memory ldir_demo 0x101 = 9"
  by (simp_all add: z80_pair_defs mk16_def ldir_demo_def ecpu_z80_init_def)

theorem z80_ldir_block_copy_witness:
  "let cpu' = ((\<lambda>c. fst (z80_iter (\<lambda>h cpu t p x. (cpu, 0)) c)) ^^ 2) ldir_demo
   in memory cpu' 0x200 = 7 \<and> memory cpu' 0x201 = 9 \<and> reg_pc cpu' = 2"
proof -
  let ?e = "\<lambda>h cpu t p x. (cpu, 0)"
  have n: "unat (z80_bc ldir_demo) = 2" by (simp add: ldir_demo_facts)
  have code: "z80_de ldir_demo + of_nat i \<noteq> reg_pc ldir_demo \<and>
      z80_de ldir_demo + of_nat i \<noteq> reg_pc ldir_demo + 1" if "i < 2" for i
    using that by (auto simp: ldir_demo_facts less_2_cases_iff)
  have apart: "z80_de ldir_demo + of_nat i \<noteq> z80_hl ldir_demo + of_nat j" if "i < 2" "j < 2" for i j
    using that by (auto simp: ldir_demo_facts less_2_cases_iff)
  have "0 < (2 :: nat)" "memory ldir_demo (reg_pc ldir_demo) = 0xED"
    "memory ldir_demo (reg_pc ldir_demo + 1) = 0xB0"
    by (simp_all add: ldir_demo_facts)
  note c = z80_ldir_block_copy [OF ldir_demo_facts(5,6) this(2,3) n this(1) code apart, of ?e]
  have "memory (((\<lambda>c. fst (z80_iter ?e c)) ^^ 2) ldir_demo) (0x200 + of_nat i) = memory ldir_demo (0x100 + of_nat i)"
    if "i < 2" for i using conjunct1 [OF c] that by (simp only: ldir_demo_facts)
  from this [of 0] this [of 1] c show ?thesis
    unfolding Let_def by (simp add: ldir_demo_facts)
qed

text \<open>After a DD prefix a second DD or FD byte is fetched and dropped, so the instruction that
  follows runs unprefixed: \<^verbatim>\<open>DD FD 21 34 12\<close> loads HL, not IY.\<close>

lemma z80_dd_fd_prefix_lost:
  fixes env :: trap_env
  defines "cpu \<equiv> ecpu_z80_init ((\<lambda>_. 0)(0 := 0xDD, 1 := 0xFD, 2 := 0x21, 3 := 0x34, 4 := 0x12)) 0x10000"
  defines "cpu' \<equiv> fst (z80_iter env (fst (z80_iter env cpu)))"
  shows "z80_hl cpu' = 0x1234 \<and> reg_iy cpu' = 0 \<and> reg_pc cpu' = 5"
proof -
  have op: "op_xx 0xDD = 3" "op_yyy 0xDD = 3" "op_zzz 0xDD = 5" "op_xx 0xFD = 3" "op_yyy 0xFD = 7"
    "op_zzz 0xFD = 5" "op_xx 0x21 = 0" "op_yyy 0x21 = 4" "op_zzz 0x21 = 1"
    by (simp_all add: op_xx_def op_yyy_def op_zzz_def drop_bit_eq_div)
  show ?thesis
    unfolding cpu'_def cpu_def
    by (simp add: z80_iter_def z80_fetch8_def z80_fetch16_def z80_inc_r_def z80_execute_def op
        z80_main_xx3_def z80_main_odd5_def z80_decode_index_def z80_index_xx3_def z80_index_odd5_def
        z80_main_xx0_def z80_write_rr_def z80_pair_defs ecpu_z80_init_def mk16_def Let_def
        drop_bit_eq_div hi8_def lo8_def)
qed

subsection \<open>Exchanges, calls and rotates undo each other\<close>

lemma bit_mult_2_u8: "bit (b * 2 :: u8) n \<longleftrightarrow> n < 8 \<and> n \<noteq> 0 \<and> bit b (n - 1)"
  using bit_double_iff [of b n] by (auto simp: mult.commute dest: bit_imp_le_length)

lemma bit_128_u8: "bit (128 :: u8) n \<longleftrightarrow> n = 7"
  using bit_exp_iff [where 'a = "8 word", of 7 n] by auto

lemma bit_128_int: "bit (128 :: int) n \<longleftrightarrow> n = 7"
  using bit_exp_iff [where 'a = int, of 7 n] by auto

lemma bit_128_nat: "bit (128 :: nat) n \<longleftrightarrow> n = 7"
  using bit_exp_iff [where 'a = nat, of 7 n] by auto

lemma bit_u8_top: "bit b n \<Longrightarrow> n < 8 \<Longrightarrow> \<not> n < 7 \<Longrightarrow> bit (b :: u8) 7"
  by (cases "n = 7") simp_all

lemma z80_ret_call:
  "z80_ret (z80_call cpu nn) =
     cpu\<lparr>memory := memory (z80_push16 cpu (reg_pc cpu)), reg_wz := reg_pc cpu\<rparr>"
  by (simp add: z80_ret_def z80_call_def z80_pop16_def z80_push16_def z80_read16_def Let_def)

text \<open>EX AF,AF', EXX and EX DE,HL are involutions; POP after PUSH returns the pushed word and
  the stack pointer; RET after CALL returns to the instruction after the call with the stack
  pointer restored; RRC undoes RLC, and RR undoes RL through the carry.\<close>

theorem z80_roundtrips:
  "z80_ex_af (z80_ex_af cpu) = cpu
   \<and> z80_exx (z80_exx cpu) = cpu
   \<and> z80_ex_de_hl (z80_ex_de_hl cpu) = cpu
   \<and> z80_pop16 (z80_push16 cpu v) = (v, cpu\<lparr>memory := memory (z80_push16 cpu v)\<rparr>)
   \<and> z80_ret (z80_call cpu nn) =
       cpu\<lparr>memory := memory (z80_push16 cpu (reg_pc cpu)), reg_wz := reg_pc cpu\<rparr>
   \<and> fst (z80_rrc cpu' (fst (z80_rlc cpu b))) = b
   \<and> fst (z80_rr (snd (z80_rl cpu b)) (fst (z80_rl cpu b))) = b"
proof -
  have c: "bit (parity_of w) 0 = False" for w by (simp add: z80_parity_table_correct)
  have "fst (z80_rrc cpu' (fst (z80_rlc cpu b))) = b"
    by (rule bit_word_eqI) (auto simp: z80_rrc_def z80_rlc_def cb_flags_def Let_def bit_simps bit_mult_2_u8 bit_128_u8 bit_128_int bit_128_nat
        intro: bit_u8_top)
  moreover have "fst (z80_rr (snd (z80_rl cpu b)) (fst (z80_rl cpu b))) = b"
    by (rule bit_word_eqI) (auto simp: z80_rr_def z80_rl_def cb_flags_def Let_def bit_simps flag_bits c
        bit_mult_2_u8 bit_128_u8 bit_128_int bit_128_nat dest: bit_u8_top)
  ultimately show ?thesis
    by (simp add: z80_ex_af_def z80_exx_def z80_ex_de_hl_def z80_pair_defs z80_pop16_push16 z80_ret_call
        Let_def)
qed

end
