(* ===== verification/Kmem.thy ===== *)
theory Kmem
  imports Prelude
begin

text \<open>
  The fixed-size object pool, \<^verbatim>\<open>src/kernel/core/mm/kmem.c\<close>: a free list threaded through the free
  objects. Addresses are 32-bit words with 0 for null. Memory is a map from the address of an object to the
  pointer in its first bytes: objects are at least one pointer wide, so the pointers of different objects do
  not overlap.
\<close>

subsection \<open>Operations\<close>

record kmem_pool =
  km_free_list :: u32
  km_obj_size :: u32
  km_total :: u32
  km_free_count :: u32

type_synonym ptr_mem = "u32 \<Rightarrow> u32"

text \<open>The loop of \<^verbatim>\<open>kmem_pool_init\<close> from index \<open>i\<close>.\<close>

function kmem_thread :: "ptr_mem \<Rightarrow> u32 \<Rightarrow> u32 \<Rightarrow> u32 \<Rightarrow> u32 \<Rightarrow> ptr_mem" where
  "kmem_thread h mem obj_size count i =
     (if i < count then
        let next = (if i + 1 < count then mem + (i + 1) * obj_size else 0)
        in kmem_thread (h(mem + i * obj_size := next)) mem obj_size count (i + 1)
      else h)"
  by auto
termination
  by (relation "measure (\<lambda>(h, mem, sz, count, i). unat count - unat i)")
    (auto simp: word_less_nat_alt unat_inc_less intro!: diff_less_mono2)

declare kmem_thread.simps [simp del]

definition kmem_pool_init :: "ptr_mem \<Rightarrow> u32 \<Rightarrow> u32 \<Rightarrow> u32 \<Rightarrow> kmem_pool \<times> ptr_mem" where
  "kmem_pool_init h mem obj_size count =
     (\<lparr>km_free_list = (if 0 < count then mem else 0), km_obj_size = obj_size, km_total = count,
       km_free_count = count\<rparr>, kmem_thread h mem obj_size count 0)"

definition kmem_alloc :: "kmem_pool \<Rightarrow> ptr_mem \<Rightarrow> u32 \<times> kmem_pool" where
  "kmem_alloc pool h =
     (if km_free_list pool = 0 then (0, pool)
      else let obj = km_free_list pool
        in (obj, pool\<lparr>km_free_list := h obj, km_free_count := km_free_count pool - 1\<rparr>))"

definition kmem_free :: "kmem_pool \<Rightarrow> ptr_mem \<Rightarrow> u32 \<Rightarrow> kmem_pool \<times> ptr_mem" where
  "kmem_free pool h obj =
     (if obj = 0 then (pool, h)
      else (pool\<lparr>km_free_list := obj, km_free_count := km_free_count pool + 1\<rparr>, h(obj := km_free_list pool)))"

definition kmem_free_count :: "kmem_pool \<Rightarrow> u32" where
  "kmem_free_count pool = km_free_count pool"

subsection \<open>What the pool means\<close>

fun free_path :: "ptr_mem \<Rightarrow> u32 \<Rightarrow> u32 list \<Rightarrow> bool" where
  "free_path h p [] \<longleftrightarrow> p = 0"
| "free_path h p (x # xs) \<longleftrightarrow> p = x \<and> x \<noteq> 0 \<and> free_path h (h x) xs"

definition kmem_slots :: "u32 \<Rightarrow> u32 \<Rightarrow> nat \<Rightarrow> u32 list" where
  "kmem_slots mem obj_size n = map (\<lambda>i. mem + of_nat i * obj_size) [0..<n]"

text \<open>The free objects are a list without repetition inside the pool's storage, and its length is
  counted.\<close>

definition kmem_inv :: "u32 set \<Rightarrow> kmem_pool \<Rightarrow> ptr_mem \<Rightarrow> u32 list \<Rightarrow> bool" where
  "kmem_inv A pool h xs \<longleftrightarrow> free_path h (km_free_list pool) xs \<and> set xs \<subseteq> A \<and> finite A
     \<and> unat (km_total pool) = card A \<and> unat (km_free_count pool) = length xs"

text \<open>Allocation and release as a client sees them: the objects it holds and the memory it may write are
  part of the state. A client writes only objects it holds.\<close>

type_synonym kmem_sys = "kmem_pool \<times> ptr_mem \<times> u32 set"

inductive kmem_step :: "kmem_sys \<Rightarrow> kmem_sys \<Rightarrow> bool" where
  ks_alloc: "kmem_alloc pool h = (obj, pool') \<Longrightarrow> obj \<noteq> 0 \<Longrightarrow> kmem_step (pool, h, H) (pool', h, insert obj H)"
| ks_fail: "kmem_alloc pool h = (0, pool') \<Longrightarrow> kmem_step (pool, h, H) (pool', h, H)"
| ks_free: "obj \<in> H \<Longrightarrow> kmem_free pool h obj = (pool', h') \<Longrightarrow> kmem_step (pool, h, H) (pool', h', H - {obj})"
| ks_write: "obj \<in> H \<Longrightarrow> kmem_step (pool, h, H) (pool, h(obj := v), H)"

definition kmem_sys_inv :: "u32 set \<Rightarrow> kmem_sys \<Rightarrow> bool" where
  "kmem_sys_inv A = (\<lambda>(pool, h, H). 0 \<notin> A \<and> (\<exists>xs. kmem_inv A pool h xs \<and> set xs \<inter> H = {} \<and> set xs \<union> H = A))"

text \<open>The storage does not wrap around the address space and does not start at null, so the objects have
  different addresses.\<close>

definition storage_ok :: "u32 \<Rightarrow> u32 \<Rightarrow> u32 \<Rightarrow> bool" where
  "storage_ok mem obj_size count \<longleftrightarrow> mem \<noteq> 0 \<and> obj_size \<noteq> 0 \<and> unat mem + unat count * unat obj_size \<le> 2 ^ 32"

lemma free_path_upd: "x \<notin> set xs \<Longrightarrow> free_path (h(x := v)) p xs = free_path h p xs"
  by (induction xs arbitrary: p) auto

lemma free_path_unique: "free_path h p xs \<Longrightarrow> free_path h p ys \<Longrightarrow> xs = ys"
proof (induction xs arbitrary: p ys)
  case Nil
  then show ?case by (cases ys) auto
next
  case (Cons x xs)
  then show ?case by (cases ys) auto
qed

lemma free_path_suffix: "free_path h p (xs @ x # ys) \<Longrightarrow> free_path h x (x # ys)"
  by (induction xs arbitrary: p) auto

lemma free_path_distinct: "free_path h p xs \<Longrightarrow> distinct xs"
proof (induction xs arbitrary: p)
  case (Cons x xs)
  have "x \<notin> set xs"
  proof
    assume "x \<in> set xs"
    then obtain as bs where xs: "xs = as @ x # bs" by (auto simp: in_set_conv_decomp)
    then have "free_path h x (x # bs)" using Cons.prems free_path_suffix [of h p "x # as" x bs] by simp
    moreover have "free_path h x (x # xs)" using Cons.prems by simp
    ultimately have "x # bs = x # xs" by (rule free_path_unique)
    then show False using xs by simp
  qed
  then show ?case using Cons by auto
qed simp

lemma unat_slot:
  assumes "storage_ok mem sz count" "i < unat count"
  shows "unat (mem + of_nat i * sz) = unat mem + i * unat sz"
proof -
  have "i * unat sz < unat count * unat sz" using assms by (simp add: storage_ok_def unat_gt_0)
  moreover have "unat mem + unat count * unat sz \<le> 2 ^ 32" using assms(1) by (simp add: storage_ok_def)
  ultimately have lt: "unat mem + i * unat sz < 2 ^ 32" by linarith
  have "i < 4294967296" using assms(2) unat_u32_less [of count] by (rule less_trans)
  then have "unat (of_nat i :: u32) = i" by (simp add: unsigned_of_nat take_bit_eq_mod)
  with lt show ?thesis by (simp add: unat_word_ariths mod_simps)
qed

lemma slot_inject:
  assumes "storage_ok mem sz count" "i < unat count" "j < unat count"
  shows "mem + of_nat i * sz = mem + of_nat j * sz \<longleftrightarrow> i = j"
proof
  assume "mem + of_nat i * sz = mem + of_nat j * sz"
  then have "unat mem + i * unat sz = unat mem + j * unat sz" using unat_slot [OF assms(1)] assms(2,3) by metis
  then show "i = j" using assms(1) by (simp add: storage_ok_def unat_eq_zero)
qed simp

lemma slot_nonzero: "storage_ok mem sz count \<Longrightarrow> i < unat count \<Longrightarrow> mem + of_nat i * sz \<noteq> 0"
proof -
  assume a: "storage_ok mem sz count" "i < unat count"
  then have "0 < unat mem" by (simp add: storage_ok_def unat_gt_0)
  then show ?thesis using unat_slot [OF a] by (metis add_gr_0 less_numeral_extra(3) unat_0)
qed

text \<open>The threading loop writes the successor of every slot it passes.\<close>

lemma kmem_thread_spec:
  "storage_ok mem sz count \<Longrightarrow> j < unat count \<Longrightarrow> kmem_thread h mem sz count i (mem + of_nat j * sz) =
    (if j < unat i then h (mem + of_nat j * sz) else if Suc j < unat count then mem + of_nat (Suc j) * sz else 0)"
proof (induction h mem sz count i rule: kmem_thread.induct)
  case (1 h mem sz count i)
  show ?case
  proof (cases "i < count")
    case True
    have i1: "unat (i + 1) = Suc (unat i)" using True by (rule unat_inc_less)
    have lt: "unat i < unat count" using True by (simp add: word_less_nat_alt)
    have nx: "i + 1 < count \<longleftrightarrow> Suc (unat i) < unat count" by (simp add: word_less_nat_alt i1)
    define next' where "next' = (if i + 1 < count then mem + (i + 1) * sz else 0)"
    have step: "kmem_thread h mem sz count i = kmem_thread (h(mem + i * sz := next')) mem sz count (i + 1)"
      using True by (simp add: kmem_thread.simps [of h mem sz count i] next'_def)
    have IH: "kmem_thread (h(mem + i * sz := next')) mem sz count (i + 1) (mem + of_nat j * sz) =
        (if j < unat (i + 1) then (h(mem + i * sz := next')) (mem + of_nat j * sz)
         else if Suc j < unat count then mem + of_nat (Suc j) * sz else 0)"
      using 1(1) [OF True next'_def 1(2,3)] .
    have eq: "mem + of_nat j * sz = mem + i * sz \<longleftrightarrow> j = unat i"
      using slot_inject [OF 1(2,3) lt] by simp
    show ?thesis
    proof (cases "j = unat i")
      case True
      have "i + 1 = of_nat (Suc j)" using True by simp
      then have "next' = (if Suc j < unat count then mem + of_nat (Suc j) * sz else 0)"
        unfolding next'_def nx True [symmetric] by (simp add: add.commute)
      then show ?thesis using True eq unfolding step IH i1 by simp
    next
      case False
      then show ?thesis using eq unfolding step IH i1 by (simp add: less_Suc_eq)
    qed
  next
    case False
    then show ?thesis using 1(3) by (simp add: kmem_thread.simps [of h mem sz count i] word_less_nat_alt)
  qed
qed

lemma threaded_path:
  assumes ok: "storage_ok mem sz count" and h: "\<And>j. j < unat count \<Longrightarrow>
      h (mem + of_nat j * sz) = (if Suc j < unat count then mem + of_nat (Suc j) * sz else 0)"
    and "k \<le> unat count"
  shows "free_path h (if k < unat count then mem + of_nat k * sz else 0) (map (\<lambda>i. mem + of_nat i * sz) [k..<unat count])"
  using assms(3)
proof (induction "unat count - k" arbitrary: k)
  case 0
  then show ?case by simp
next
  case (Suc d)
  then have k: "k < unat count" and d: "d = unat count - Suc k" by auto
  have "[k..<unat count] = k # [Suc k..<unat count]" using k by (simp add: upt_conv_Cons)
  then show ?case
    using Suc.hyps(1) [OF d] k h [OF k] slot_nonzero [OF ok k] by simp
qed

lemma kmem_init_inv:
  assumes ok: "storage_ok mem sz count"
  shows "case kmem_pool_init h mem sz count of (pool, h') \<Rightarrow>
    kmem_inv (set (kmem_slots mem sz (unat count))) pool h' (kmem_slots mem sz (unat count))"
proof -
  define h' where "h' = kmem_thread h mem sz count 0"
  have hj: "h' (mem + of_nat j * sz) = (if Suc j < unat count then mem + of_nat (Suc j) * sz else 0)" if "j < unat count" for j
    using kmem_thread_spec [OF ok that, of h 0] by (simp add: h'_def)
  have e: "(if 0 < unat count then mem + of_nat 0 * sz else 0) = (if 0 < unat count then mem else 0)" by simp
  have p: "free_path h' (if 0 < unat count then mem else 0) (kmem_slots mem sz (unat count))"
    unfolding kmem_slots_def e [symmetric] by (rule threaded_path [OF ok hj]) simp_all
  have "inj_on (\<lambda>i. mem + of_nat i * sz) {0..<unat count}"
    using slot_inject [OF ok] by (intro inj_onI) auto
  then have d: "card (set (kmem_slots mem sz (unat count))) = unat count"
    by (simp add: kmem_slots_def card_image)
  have z: "0 < count \<longleftrightarrow> 0 < unat count" by (simp add: word_less_nat_alt)
  have "length (kmem_slots mem sz (unat count)) = unat count" by (simp add: kmem_slots_def)
  then show ?thesis using p d unfolding kmem_pool_init_def kmem_inv_def h'_def [symmetric] z by simp
qed

text \<open>Steps of a client keep the pool consistent.\<close>

lemma kmem_sys_step: "kmem_step x y \<Longrightarrow> kmem_sys_inv A x \<Longrightarrow> kmem_sys_inv A y"
proof (induction rule: kmem_step.induct)
  case (ks_alloc pool h obj pool' H)
  then obtain xs where xs: "kmem_inv A pool h xs" "set xs \<inter> H = {}" "set xs \<union> H = A" "0 \<notin> A"
    by (auto simp: kmem_sys_inv_def)
  have ne: "km_free_list pool \<noteq> 0" "obj = km_free_list pool" and p': "pool' = pool\<lparr>km_free_list := h obj, km_free_count := km_free_count pool - 1\<rparr>"
    using ks_alloc(1,2) by (auto simp: kmem_alloc_def Let_def split: if_splits)
  obtain ys where ys: "xs = obj # ys" "free_path h (h obj) ys"
    using xs(1) ne by (cases xs) (auto simp: kmem_inv_def)
  have d: "obj \<notin> set ys" using free_path_distinct [of h "km_free_list pool" xs] xs(1) ys by (simp add: kmem_inv_def)
  have "unat (km_free_count pool) = Suc (length ys)" using xs(1) ys by (simp add: kmem_inv_def)
  then have "unat (km_free_count pool - 1) = length ys" by (simp add: unat_sub_if_size)
  then have "kmem_inv A pool' h ys" using xs(1) ys by (simp add: kmem_inv_def p')
  then show ?case using xs ys d by (auto simp: kmem_sys_inv_def intro!: exI [of _ ys])
next
  case (ks_fail pool h pool' H)
  then have "pool' = pool" by (auto simp: kmem_alloc_def Let_def split: if_splits)
  then show ?case using ks_fail(2) by simp
next
  case (ks_free obj H pool h pool' h')
  then obtain xs where xs: "kmem_inv A pool h xs" "set xs \<inter> H = {}" "set xs \<union> H = A" "0 \<notin> A"
    by (auto simp: kmem_sys_inv_def)
  have obj: "obj \<noteq> 0" "obj \<notin> set xs" "obj \<in> A" using ks_free(1) xs by auto
  have e: "pool' = pool\<lparr>km_free_list := obj, km_free_count := km_free_count pool + 1\<rparr>" "h' = h(obj := km_free_list pool)"
    using ks_free(2) obj(1) by (auto simp: kmem_free_def)
  have path: "free_path h' obj (obj # xs)" using xs(1) obj by (simp add: e free_path_upd kmem_inv_def)
  have "distinct xs" using free_path_distinct xs(1) by (auto simp: kmem_inv_def)
  then have "card (set (obj # xs)) = Suc (length xs)" using obj(2) by (simp add: distinct_card)
  moreover have "card (set (obj # xs)) \<le> card A" using xs(1) obj(3) by (intro card_mono) (auto simp: kmem_inv_def)
  ultimately have "Suc (unat (km_free_count pool)) \<le> unat (km_total pool)" using xs(1) by (simp add: kmem_inv_def)
  then have "unat (km_free_count pool + 1) = Suc (length xs)"
    using xs(1) unat_inc_less [of "km_free_count pool" "km_total pool"] by (simp add: word_less_nat_alt kmem_inv_def)
  then have "kmem_inv A pool' h' (obj # xs)" using xs(1) path obj(3) by (simp add: kmem_inv_def e)
  then show ?case using xs obj ks_free(1) by (auto simp: kmem_sys_inv_def intro!: exI [of _ "obj # xs"])
next
  case (ks_write obj H pool h v)
  then obtain xs where xs: "kmem_inv A pool h xs" "set xs \<inter> H = {}" "set xs \<union> H = A" "0 \<notin> A"
    by (auto simp: kmem_sys_inv_def)
  have "obj \<notin> set xs" using ks_write(1) xs by auto
  then have "kmem_inv A pool (h(obj := v)) xs" using xs(1) by (simp add: kmem_inv_def free_path_upd)
  then show ?case using xs by (auto simp: kmem_sys_inv_def)
qed

interpretation kmem_run: step_system kmem_step "kmem_sys_inv A" for A
  by unfold_locales (rule kmem_sys_step)

lemma kmem_sys_init:
  assumes "storage_ok mem sz count" and "kmem_pool_init h mem sz count = (pool, h')"
  shows "kmem_sys_inv (set (kmem_slots mem sz (unat count))) (pool, h', {})"
proof -
  have "0 \<notin> set (kmem_slots mem sz (unat count))" using slot_nonzero [OF assms(1)] by (auto simp: kmem_slots_def)
  then show ?thesis using kmem_init_inv [OF assms(1), of h] assms(2) by (auto simp: kmem_sys_inv_def)
qed

text \<open>C32: the object pool is safe. From \<^verbatim>\<open>kmem_pool_init\<close> on storage that does not wrap, after any
  sequence of allocations, releases of held objects and writes into held objects: the held objects are
  objects of the pool, an allocation fails exactly when all of them are held, a successful one returns an
  object nobody holds, and the free count is the number of objects not held.\<close>

theorem kmem_pool_safe:
  assumes ok: "storage_ok mem sz count" and init: "kmem_pool_init h mem sz count = (pool0, h0)"
    and run: "kmem_step\<^sup>*\<^sup>* (pool0, h0, {}) (pool, h1, H)"
  defines "A \<equiv> set (kmem_slots mem sz (unat count))"
  shows "H \<subseteq> A \<and> (fst (kmem_alloc pool h1) = 0 \<longleftrightarrow> H = A)
    \<and> (fst (kmem_alloc pool h1) \<noteq> 0 \<longrightarrow> fst (kmem_alloc pool h1) \<in> A - H)
    \<and> unat (kmem_free_count pool) = card (A - H)"
proof -
  have "kmem_sys_inv A (pool, h1, H)"
    unfolding A_def by (rule kmem_run.reach_inv [OF run kmem_sys_init [OF ok init]])
  then obtain xs where xs: "free_path h1 (km_free_list pool) xs" "set xs \<inter> H = {}" "set xs \<union> H = A" "0 \<notin> A"
      "unat (km_free_count pool) = length xs"
    by (auto simp: kmem_sys_inv_def kmem_inv_def)
  have AH: "A - H = set xs" using xs(2,3) by auto
  have "card (set xs) = length xs" using free_path_distinct [OF xs(1)] by (rule distinct_card)
  moreover have "fst (kmem_alloc pool h1) = km_free_list pool" by (simp add: kmem_alloc_def Let_def)
  moreover have "km_free_list pool = (case xs of [] \<Rightarrow> 0 | x # _ \<Rightarrow> x)" using xs(1) by (cases xs) auto
  ultimately show ?thesis using xs AH by (cases xs) (auto simp: kmem_free_count_def)
qed

theorem kmem_pool_safe_witness:
  "storage_ok 0x2000 16 2 \<and> (\<exists>pool h. kmem_step\<^sup>*\<^sup>* (fst (kmem_pool_init (\<lambda>_. 0) 0x2000 16 2), snd (kmem_pool_init (\<lambda>_. 0) 0x2000 16 2), {}) (pool, h, {0x2000})
     \<and> fst (kmem_alloc pool h) \<in> {0x2010})"
proof -
  have ok: "storage_ok 0x2000 16 2" by (simp add: storage_ok_def)
  obtain pool0 h0 where i: "kmem_pool_init (\<lambda>_. 0) 0x2000 16 2 = (pool0, h0)" by fastforce
  have a: "kmem_alloc pool0 h0 = (0x2000, snd (kmem_alloc pool0 h0))"
    using i by (auto simp: kmem_pool_init_def kmem_alloc_def Let_def)
  have st: "kmem_step\<^sup>*\<^sup>* (pool0, h0, {}) (snd (kmem_alloc pool0 h0), h0, {0x2000})"
    by (rule r_into_rtranclp, rule ks_alloc [OF a]) simp
  have "set (kmem_slots 0x2000 16 (unat (2 :: u32))) = {0x2000, 0x2010}" by (simp add: kmem_slots_def upt_rec)
  then show ?thesis using kmem_pool_safe [OF ok i st] ok i st
    by (cases "fst (kmem_alloc (snd (kmem_alloc pool0 h0)) h0) = 0") auto
qed

end
