(* ===== verification/Page_Pool.thy ===== *)
theory Page_Pool
  imports Prelude
begin

text \<open>
  The page allocator core, \<^verbatim>\<open>src/kernel/core/mm/page_pool.c\<close>: an array of free blocks sorted by
  base page, with a count and a running total. Page ids are words of any width, since
  \<^verbatim>\<open>page_id_t\<close> has 8, 16 or 32 bits depending on the target; block sizes are \<^verbatim>\<open>uint16_t\<close>. The
  array length is \<^verbatim>\<open>FREE_BLOCKS_MAX\<close>, a target constant, and an array index that is not found
  (\<^verbatim>\<open>BLOCK_NONE\<close>) is None. The loops over the array are recursions on the index. The second half
  states what the pool means, a set of free page numbers, and proves that every operation keeps
  the representation invariant of \<^verbatim>\<open>page_pool.h\<close> and acts on that set as it should.
\<close>

subsection \<open>State\<close>

record 'w free_block =
  blk_base :: 'w
  blk_pages :: u16

record 'w page_pool =
  free_blocks :: "'w free_block list"
  free_block_count :: nat
  free_page_total :: u32

subsection \<open>Array manipulation\<close>

fun shift_up :: "'a list \<Rightarrow> nat \<Rightarrow> nat \<Rightarrow> 'a list" where
  "shift_up xs i idx = (if idx < i then shift_up (xs[i := xs ! (i - 1)]) (i - 1) idx else xs)"

definition block_insert_at ::
  "'p::len word page_pool \<Rightarrow> nat \<Rightarrow> 'p word \<Rightarrow> u16 \<Rightarrow> int \<times> 'p word page_pool" where
  "block_insert_at p idx base n =
     (if length (free_blocks p) \<le> free_block_count p then (- 1, p)
      else (0, p\<lparr>free_blocks := (shift_up (free_blocks p) (free_block_count p) idx)
                    [idx := \<lparr>blk_base = base, blk_pages = n\<rparr>],
                 free_block_count := free_block_count p + 1\<rparr>))"

function shift_down :: "'a list \<Rightarrow> nat \<Rightarrow> nat \<Rightarrow> 'a list" where
  "shift_down xs i cnt = (if i + 1 < cnt then shift_down (xs[i := xs ! (i + 1)]) (i + 1) cnt else xs)"
  by auto
termination by (relation "measure (\<lambda>(xs, i, cnt). cnt - i)") auto

definition block_remove :: "'p::len word page_pool \<Rightarrow> nat \<Rightarrow> 'p word page_pool" where
  "block_remove p idx =
     p\<lparr>free_blocks := shift_down (free_blocks p) idx (free_block_count p),
       free_block_count := free_block_count p - 1\<rparr>"

text \<open>A search loop \<^verbatim>\<open>for (i = 0; i < count; i++) if (...) return i\<close>.\<close>

function find_index :: "('a \<Rightarrow> bool) \<Rightarrow> 'a list \<Rightarrow> nat \<Rightarrow> nat \<Rightarrow> nat option" where
  "find_index P xs i cnt =
     (if i < cnt then if P (xs ! i) then Some i else find_index P xs (i + 1) cnt else None)"
  by auto
termination by (relation "measure (\<lambda>(P, xs, i, cnt). cnt - i)") auto

definition blk_contains :: "'p::len word \<Rightarrow> 'p word free_block \<Rightarrow> bool" where
  "blk_contains pid b \<longleftrightarrow> blk_base b \<le> pid \<and> pid < blk_base b + ucast (blk_pages b)"

definition block_find_containing :: "'p::len word page_pool \<Rightarrow> 'p word \<Rightarrow> nat option" where
  "block_find_containing p pid = find_index (blk_contains pid) (free_blocks p) 0 (free_block_count p)"

definition block_find_first_fit :: "'p::len word page_pool \<Rightarrow> u16 \<Rightarrow> nat option" where
  "block_find_first_fit p n =
     find_index (\<lambda>b. n \<le> blk_pages b) (free_blocks p) 0 (free_block_count p)"

definition block_take_front :: "'p::len word page_pool \<Rightarrow> nat \<Rightarrow> u16 \<Rightarrow> 'p word page_pool" where
  "block_take_front p idx n =
     (let b = free_blocks p ! idx in
      if blk_pages b \<le> n then block_remove p idx
      else p\<lparr>free_blocks := (free_blocks p)
               [idx := \<lparr>blk_base = blk_base b + ucast n, blk_pages = blk_pages b - n\<rparr>]\<rparr>)"

definition block_take_back_one :: "'p::len word page_pool \<Rightarrow> nat \<Rightarrow> 'p word \<times> 'p word page_pool" where
  "block_take_back_one p idx =
     (let base = blk_base (free_blocks p ! idx); pages = blk_pages (free_blocks p ! idx);
          result = base + ucast pages - 1
      in (result,
          if pages = 1 then block_remove p idx
          else p\<lparr>free_blocks := (free_blocks p)[idx := (free_blocks p ! idx)\<lparr>blk_pages := pages - 1\<rparr>]\<rparr>))"

function insert_pos :: "'p::len word free_block list \<Rightarrow> nat \<Rightarrow> nat \<Rightarrow> 'p word \<Rightarrow> nat" where
  "insert_pos xs i cnt base =
     (if i < cnt \<and> blk_base (xs ! i) < base then insert_pos xs (i + 1) cnt base else i)"
  by auto
termination by (relation "measure (\<lambda>(xs, i, cnt, base). cnt - i)") auto

definition block_insert_or_merge ::
  "'p::len word page_pool \<Rightarrow> 'p word \<Rightarrow> u16 \<Rightarrow> int \<times> 'p word page_pool" where
  "block_insert_or_merge p base n =
     (if n = 0 then (0, p)
      else
        let i = insert_pos (free_blocks p) 0 (free_block_count p) base;
            left = free_blocks p ! (i - 1);
            merged_left = (0 < i \<and> blk_base left + ucast (blk_pages left) = base);
            p1 = (if merged_left
                  then p\<lparr>free_blocks := (free_blocks p)[i - 1 := left\<lparr>blk_pages := blk_pages left + n\<rparr>]\<rparr>
                  else p);
            base1 = (if merged_left then blk_base left else base);
            n1 = (if merged_left then blk_pages left + n else n);
            cur = free_blocks p1 ! i
        in if i < free_block_count p1 \<and> base1 + ucast n1 = blk_base cur then
             if merged_left then
               let l = free_blocks p1 ! (i - 1)
               in (0, block_remove (p1\<lparr>free_blocks := (free_blocks p1)
                         [i - 1 := l\<lparr>blk_pages := blk_pages l + blk_pages cur\<rparr>]\<rparr>) i)
             else (0, p1\<lparr>free_blocks := (free_blocks p1)
                         [i := \<lparr>blk_base = base1, blk_pages = blk_pages cur + n1\<rparr>]\<rparr>)
           else if merged_left then (0, p1)
           else block_insert_at p1 i base1 n1)"

subsection \<open>Public operations\<close>

definition pool_reset :: "'p::len word page_pool \<Rightarrow> 'p word page_pool" where
  "pool_reset p = p\<lparr>free_block_count := 0, free_page_total := 0\<rparr>"

definition pool_add :: "'p::len word page_pool \<Rightarrow> 'p word \<Rightarrow> u16 \<Rightarrow> int \<times> 'p word page_pool" where
  "pool_add p base n =
     (if n = 0 then (0, p)
      else if length (free_blocks p) \<le> free_block_count p then (- 1, p)
      else (0, p\<lparr>free_blocks := (free_blocks p)[free_block_count p := \<lparr>blk_base = base, blk_pages = n\<rparr>],
                 free_block_count := free_block_count p + 1,
                 free_page_total := free_page_total p + ucast n\<rparr>))"

definition pool_take_n :: "'p::len word page_pool \<Rightarrow> u16 \<Rightarrow> 'p word \<times> 'p word page_pool" where
  "pool_take_n p n =
     (if n = 0 then (PAGE_ID_INVALID, p)
      else if n = 1 then
        if free_block_count p = 0 then (PAGE_ID_INVALID, p)
        else let (pid, p) = block_take_back_one p (free_block_count p - 1)
             in (pid, p\<lparr>free_page_total := free_page_total p - 1\<rparr>)
      else
        case block_find_first_fit p n of
          None \<Rightarrow> (PAGE_ID_INVALID, p)
        | Some idx \<Rightarrow>
            let base = blk_base (free_blocks p ! idx); p = block_take_front p idx n
            in (base, p\<lparr>free_page_total := free_page_total p - ucast n\<rparr>))"

text \<open>The scan for the largest block keeps the first of several equally large ones.\<close>

function scan_largest ::
  "'p::len word free_block list \<Rightarrow> nat \<Rightarrow> nat \<Rightarrow> nat option \<Rightarrow> u16 \<Rightarrow> nat option \<times> u16" where
  "scan_largest xs i cnt best best_size =
     (if i < cnt then
        if best_size < blk_pages (xs ! i) then scan_largest xs (i + 1) cnt (Some i) (blk_pages (xs ! i))
        else scan_largest xs (i + 1) cnt best best_size
      else (best, best_size))"
  by auto
termination by (relation "measure (\<lambda>(xs, i, cnt, b, s). cnt - i)") auto

definition pool_take_largest ::
  "'p::len word page_pool \<Rightarrow> u16 \<Rightarrow> u16 \<Rightarrow> ('p word \<times> u16) \<times> 'p word page_pool" where
  "pool_take_largest p min_pages max_pages =
     (if min_pages = 0 \<or> max_pages < min_pages then ((PAGE_ID_INVALID, 0), p)
      else
        let (best, best_size) = scan_largest (free_blocks p) 0 (free_block_count p) None 0 in
        case best of
          None \<Rightarrow> ((PAGE_ID_INVALID, 0), p)
        | Some idx \<Rightarrow>
            if best_size < min_pages then ((PAGE_ID_INVALID, 0), p)
            else
              let take' = (if max_pages < best_size then max_pages else best_size);
                  base = blk_base (free_blocks p ! idx);
                  p = block_take_front p idx take'
              in ((base, take'), p\<lparr>free_page_total := free_page_total p - ucast take'\<rparr>))"

definition pool_take_at :: "'p::len word page_pool \<Rightarrow> 'p word \<Rightarrow> int \<times> 'p word page_pool" where
  "pool_take_at p pid =
     (case block_find_containing p pid of
        None \<Rightarrow> (- 1, p)
      | Some idx \<Rightarrow>
          let b = free_blocks p ! idx;
              p = block_remove p idx;
              p = (if blk_base b < pid
                   then snd (block_insert_or_merge p (blk_base b) (ucast (pid - blk_base b))) else p);
              post_base = pid + 1;
              b_end = blk_base b + ucast (blk_pages b);
              p = (if post_base < b_end
                   then snd (block_insert_or_merge p post_base (ucast (b_end - post_base))) else p)
          in (0, p\<lparr>free_page_total := free_page_total p - 1\<rparr>))"

definition pool_release :: "'p::len word page_pool \<Rightarrow> 'p word \<Rightarrow> u16 \<Rightarrow> int \<times> 'p word page_pool" where
  "pool_release p base n =
     (if n = 0 then (0, p)
      else let (rc, p') = block_insert_or_merge p base n in
        if rc < 0 then (- 1, p') else (0, p'\<lparr>free_page_total := free_page_total p' + ucast n\<rparr>))"

definition pool_free_total :: "'p::len word page_pool \<Rightarrow> u32" where
  "pool_free_total p = free_page_total p"

function max_pages_from :: "'p::len word free_block list \<Rightarrow> nat \<Rightarrow> nat \<Rightarrow> u16 \<Rightarrow> u16" where
  "max_pages_from xs i cnt best =
     (if i < cnt then
        max_pages_from xs (i + 1) cnt (if best < blk_pages (xs ! i) then blk_pages (xs ! i) else best)
      else best)"
  by auto
termination by (relation "measure (\<lambda>(xs, i, cnt, b). cnt - i)") auto

definition pool_max_contig :: "'p::len word page_pool \<Rightarrow> u16" where
  "pool_max_contig p = max_pages_from (free_blocks p) 0 (free_block_count p) 0"

definition pool_is_free :: "'p::len word page_pool \<Rightarrow> 'p word \<Rightarrow> bool" where
  "pool_is_free p pid \<longleftrightarrow> block_find_containing p pid \<noteq> None"

text \<open>The host-test introspection: the block at an index, or an invalid one.\<close>

definition pool_block_count :: "'p::len word page_pool \<Rightarrow> nat" where
  "pool_block_count p = free_block_count p"

definition pool_block_get :: "'p::len word page_pool \<Rightarrow> nat \<Rightarrow> 'p word \<times> u16" where
  "pool_block_get p idx =
     (if free_block_count p \<le> idx then (PAGE_ID_INVALID, 0)
      else (blk_base (free_blocks p ! idx), blk_pages (free_blocks p ! idx)))"

subsection \<open>What the pool means\<close>

definition pool_blocks :: "'p::len word page_pool \<Rightarrow> 'p word free_block list" where
  "pool_blocks p = take (free_block_count p) (free_blocks p)"

definition blk_end :: "'p::len word free_block \<Rightarrow> nat" where
  "blk_end b = unat (blk_base b) + unat (blk_pages b)"

definition blk_set :: "'p::len word free_block \<Rightarrow> nat set" where
  "blk_set b = {unat (blk_base b) ..< blk_end b}"

definition block_ok :: "'p::len word free_block \<Rightarrow> bool" where
  "block_ok b \<longleftrightarrow> blk_pages b \<noteq> 0 \<and> blk_end b < 2 ^ LENGTH('p)"

definition blk_before :: "'p::len word free_block \<Rightarrow> 'p word free_block \<Rightarrow> bool" where
  "blk_before a b \<longleftrightarrow> blk_end a < unat (blk_base b)"

definition blocks_ok :: "'p::len word free_block list \<Rightarrow> bool" where
  "blocks_ok bs \<longleftrightarrow> (\<forall>b \<in> set bs. block_ok b) \<and> sorted_wrt blk_before bs"

definition blocks_free :: "'p::len word free_block list \<Rightarrow> nat set" where
  "blocks_free bs = (\<Union>b \<in> set bs. blk_set b)"

definition blocks_total :: "'p::len word free_block list \<Rightarrow> nat" where
  "blocks_total bs = sum_list (map (\<lambda>b. unat (blk_pages b)) bs)"

definition pool_free :: "'p::len word page_pool \<Rightarrow> nat set" where
  "pool_free p = blocks_free (pool_blocks p)"

definition pool_inv :: "'p::len word page_pool \<Rightarrow> bool" where
  "pool_inv p \<longleftrightarrow> free_block_count p \<le> length (free_blocks p) \<and> blocks_ok (pool_blocks p)
     \<and> unat (free_page_total p) = blocks_total (pool_blocks p)
     \<and> blocks_total (pool_blocks p) \<le> length (free_blocks p) \<and> length (free_blocks p) < 2 ^ 16"

text \<open>The list form of \<^verbatim>\<open>block_insert_or_merge\<close>: L and R are the blocks below and above the new run.\<close>

definition merge_blocks ::
  "'p::len word free_block list \<Rightarrow> 'p word free_block list \<Rightarrow> 'p word \<Rightarrow> u16 \<Rightarrow> 'p word free_block list" where
  "merge_blocks L R base n =
     (let ml = L \<noteq> [] \<and> blk_end (last L) = unat base;
          mr = R \<noteq> [] \<and> unat base + unat n = unat (blk_base (hd R))
      in (if ml then butlast L else L) @
         \<lparr>blk_base = (if ml then blk_base (last L) else base),
          blk_pages = (if ml then blk_pages (last L) else 0) + n + (if mr then blk_pages (hd R) else 0)\<rparr>
         # (if mr then tl R else R))"

text \<open>A pool of eight slots with pages 16 to 19 and 32 free, used by the witnesses.\<close>

definition demo_pool :: "16 word page_pool" where
  "demo_pool = snd (pool_add (snd (pool_add (pool_reset
     \<lparr>free_blocks = replicate 8 \<lparr>blk_base = 0, blk_pages = 0\<rparr>, free_block_count = 0, free_page_total = 0\<rparr>)
     16 4)) 32 1)"

declare shift_up.simps [simp del] shift_down.simps [simp del] find_index.simps [simp del]
  insert_pos.simps [simp del] scan_largest.simps [simp del] max_pages_from.simps [simp del]

subsection \<open>The array loops are list insertion, removal and search\<close>

lemma shift_up_length [simp]: "length (shift_up xs i idx) = length xs"
  by (induction xs i idx rule: shift_up.induct) (subst shift_up.simps, simp)

lemma shift_up_nth:
  "i < length xs \<Longrightarrow> idx \<le> i \<Longrightarrow> k < length xs \<Longrightarrow>
   shift_up xs i idx ! k = (if idx < k \<and> k \<le> i then xs ! (k - 1) else xs ! k)"
proof (induction xs i idx rule: shift_up.induct)
  case (1 xs i idx)
  show ?case
  proof (cases "idx < i")
    case True
    then show ?thesis using 1 by (subst shift_up.simps) (auto simp: nth_list_update)
  next
    case False
    then show ?thesis using 1 by (subst shift_up.simps) auto
  qed
qed

lemma shift_down_length [simp]: "length (shift_down xs i cnt) = length xs"
  by (induction xs i cnt rule: shift_down.induct) (subst shift_down.simps, simp)

lemma shift_down_nth:
  "cnt \<le> length xs \<Longrightarrow> k < length xs \<Longrightarrow>
   shift_down xs i cnt ! k = (if i \<le> k \<and> k + 1 < cnt then xs ! (k + 1) else xs ! k)"
proof (induction xs i cnt rule: shift_down.induct)
  case (1 xs i cnt)
  show ?case
  proof (cases "i + 1 < cnt")
    case True
    then show ?thesis using 1 by (subst shift_down.simps) (auto simp: nth_list_update)
  next
    case False
    then show ?thesis using 1 by (subst shift_down.simps) auto
  qed
qed

lemma pool_blocks_length:
  "free_block_count p \<le> length (free_blocks p) \<Longrightarrow> length (pool_blocks p) = free_block_count p"
  by (simp add: pool_blocks_def)

lemma pool_blocks_nth [simp]: "i < free_block_count p \<Longrightarrow> pool_blocks p ! i = free_blocks p ! i"
  by (simp add: pool_blocks_def)

lemma shift_up_insert:
  assumes "c < length xs" and "idx \<le> c"
  shows "take (Suc c) ((shift_up xs c idx)[idx := b]) = take idx (take c xs) @ b # drop idx (take c xs)"
proof (rule nth_equalityI)
  fix k assume "k < length (take (Suc c) ((shift_up xs c idx)[idx := b]))"
  then have k: "k \<le> c" using assms by simp
  consider "k < idx" | "k = idx" | m where "k = Suc (idx + m)"
    by (metis less_imp_Suc_add linorder_less_linear)
  then show "take (Suc c) ((shift_up xs c idx)[idx := b]) ! k =
      (take idx (take c xs) @ b # drop idx (take c xs)) ! k"
    by cases (use assms k in \<open>auto simp: nth_append shift_up_nth\<close>)
qed (use assms in simp)

lemma shift_down_remove:
  assumes "c \<le> length xs" and "idx < c"
  shows "take (c - 1) (shift_down xs idx c) = take idx (take c xs) @ drop (Suc idx) (take c xs)"
proof (rule nth_equalityI)
  fix k assume "k < length (take (c - 1) (shift_down xs idx c))"
  then have k: "Suc k < c" using assms by auto
  consider "k < idx" | m where "k = idx + m" by (metis le_Suc_ex not_less)
  then show "take (c - 1) (shift_down xs idx c) ! k = (take idx (take c xs) @ drop (Suc idx) (take c xs)) ! k"
    by cases (use assms k in \<open>auto simp: nth_append shift_down_nth\<close>)
qed (use assms in simp)

lemma block_insert_at_blocks:
  assumes "free_block_count p < length (free_blocks p)" and "idx \<le> free_block_count p"
  shows "fst (block_insert_at p idx base n) = 0"
    and "pool_blocks (snd (block_insert_at p idx base n)) =
      take idx (pool_blocks p) @ \<lparr>blk_base = base, blk_pages = n\<rparr> # drop idx (pool_blocks p)"
    and "free_block_count (snd (block_insert_at p idx base n)) = Suc (free_block_count p)"
    and "length (free_blocks (snd (block_insert_at p idx base n))) = length (free_blocks p)"
    and "free_page_total (snd (block_insert_at p idx base n)) = free_page_total p"
  using assms shift_up_insert [OF assms]
  by (simp_all add: block_insert_at_def pool_blocks_def)

lemma block_remove_blocks:
  assumes "free_block_count p \<le> length (free_blocks p)" and "idx < free_block_count p"
  shows "pool_blocks (block_remove p idx) = take idx (pool_blocks p) @ drop (Suc idx) (pool_blocks p)"
    and "free_block_count (block_remove p idx) = free_block_count p - 1"
    and "length (free_blocks (block_remove p idx)) = length (free_blocks p)"
    and "free_page_total (block_remove p idx) = free_page_total p"
  using assms shift_down_remove [OF assms]
  by (simp_all add: block_remove_def pool_blocks_def)

lemma block_set_blocks:
  "pool_blocks (p\<lparr>free_blocks := (free_blocks p)[idx := b]\<rparr>) = (pool_blocks p)[idx := b]"
  by (simp add: pool_blocks_def take_update_swap)

lemma le_iff_eq_or_Suc: "i \<le> j \<longleftrightarrow> i = j \<or> Suc i \<le> (j :: nat)"
  by auto

lemma find_index_Some:
  "find_index P xs i cnt = Some k \<Longrightarrow> i \<le> k \<and> k < cnt \<and> P (xs ! k) \<and> (\<forall>j. i \<le> j \<and> j < k \<longrightarrow> \<not> P (xs ! j))"
proof (induction P xs i cnt rule: find_index.induct)
  case (1 P xs i cnt)
  from 1(2) show ?case
    by (subst (asm) find_index.simps)
      (use 1(1) in \<open>auto split: if_splits simp: le_iff_eq_or_Suc [of i]\<close>)
qed

lemma find_index_None:
  "find_index P xs i cnt = None \<longleftrightarrow> (\<forall>j. i \<le> j \<and> j < cnt \<longrightarrow> \<not> P (xs ! j))"
proof (induction P xs i cnt rule: find_index.induct)
  case (1 P xs i cnt)
  show ?case
    by (subst find_index.simps) (use 1 in \<open>auto simp: le_iff_eq_or_Suc [of i]\<close>)
qed

lemma insert_pos_spec:
  fixes xs :: "'p::len word free_block list" and base :: "'p word"
  assumes "i \<le> cnt"
  defines "r \<equiv> insert_pos xs i cnt base"
  shows "i \<le> r \<and> r \<le> cnt \<and> (\<forall>j. i \<le> j \<and> j < r \<longrightarrow> blk_base (xs ! j) < base)
    \<and> (r < cnt \<longrightarrow> base \<le> blk_base (xs ! r))"
  using assms(1) unfolding r_def
proof (induction xs i cnt base rule: insert_pos.induct)
  case (1 xs i cnt base)
  show ?case
  proof (cases "i < cnt \<and> blk_base (xs ! i) < base")
    case True
    then have r: "insert_pos xs i cnt base = insert_pos xs (i + 1) cnt base"
      by (subst insert_pos.simps) simp
    from 1(1) [OF True] True show ?thesis unfolding r by (auto simp: le_iff_eq_or_Suc [of i])
  next
    case False
    then have "insert_pos xs i cnt base = i" by (subst insert_pos.simps) auto
    with False 1(2) show ?thesis by auto
  qed
qed

subsection \<open>Block lists as sets of page numbers\<close>

lemma blk_set_iff [simp]: "x \<in> blk_set b \<longleftrightarrow> unat (blk_base b) \<le> x \<and> x < blk_end b"
  by (simp add: blk_set_def)

lemma blocks_free_simps [simp]:
  "blocks_free [] = {}" "blocks_free (b # bs) = blk_set b \<union> blocks_free bs"
  "blocks_free (xs @ ys) = blocks_free xs \<union> blocks_free ys"
  by (auto simp: blocks_free_def)

lemma blocks_total_simps [simp]:
  "blocks_total [] = 0" "blocks_total (b # bs) = unat (blk_pages b) + blocks_total bs"
  "blocks_total (xs @ ys) = blocks_total xs + blocks_total ys"
  by (simp_all add: blocks_total_def)

lemma unat_pos_iff: "0 < unat (w :: 'a::len word) \<longleftrightarrow> w \<noteq> 0"
  by (simp add: unat_eq_0 [symmetric])

lemma block_okD:
  assumes "block_ok (b :: 'p::len word free_block)"
  shows "unat (blk_base b) < blk_end b" "blk_end b < 2 ^ LENGTH('p)" "0 < unat (blk_pages b)"
    "unat (blk_base b) + unat (blk_pages b) = blk_end b"
  using assms by (auto simp: block_ok_def blk_end_def unat_pos_iff)

lemma blocks_ok_Cons:
  "blocks_ok (b # bs) \<longleftrightarrow> block_ok b \<and> blocks_ok bs \<and> (\<forall>c \<in> set bs. blk_before b c)"
  by (auto simp: blocks_ok_def)

lemma blocks_ok_append:
  "blocks_ok (xs @ ys) \<longleftrightarrow> blocks_ok xs \<and> blocks_ok ys \<and> (\<forall>a \<in> set xs. \<forall>b \<in> set ys. blk_before a b)"
  by (auto simp: blocks_ok_def sorted_wrt_append)

lemma blocks_ok_Nil [simp]: "blocks_ok []"
  by (simp add: blocks_ok_def)

lemma finite_blocks_free [simp]: "finite (blocks_free bs)"
  by (simp add: blocks_free_def blk_set_def)

lemma card_blocks_free: "blocks_ok bs \<Longrightarrow> card (blocks_free bs) = blocks_total bs"
proof (induction bs)
  case (Cons b bs)
  then have ok: "block_ok b" "blocks_ok bs" "\<forall>c \<in> set bs. blk_before b c"
    by (simp_all add: blocks_ok_Cons)
  have "blk_set b \<inter> blocks_free bs = {}"
    using ok(3) by (fastforce simp: blocks_free_def blk_before_def)
  moreover have "card (blk_set b) = unat (blk_pages b)"
    using block_okD(4) [OF ok(1)] by (simp add: blk_set_def)
  moreover have "finite (blk_set b)" by (simp add: blk_set_def)
  ultimately show ?case using Cons.IH [OF ok(2)] by (simp add: card_Un_disjoint)
qed simp

text \<open>The page ids of a well-formed block do not wrap, whatever the width of a page id.\<close>

lemma unat_small_ucast:
  "unat (n :: 'a::len word) < 2 ^ LENGTH('b) \<Longrightarrow> unat (ucast n :: 'b::len word) = unat n"
  by (simp add: unsigned_ucast_eq take_bit_nat_eq_self)

lemma unat_add_ucast:
  "unat (b :: 'p::len word) + unat (n :: u16) < 2 ^ LENGTH('p) \<Longrightarrow>
   unat (b + ucast n) = unat b + unat n"
  by (simp add: unat_word_ariths unat_small_ucast)

lemma blk_contains_iff:
  "block_ok b \<Longrightarrow> blk_contains pid b \<longleftrightarrow> unat pid \<in> blk_set b"
  by (simp add: blk_contains_def word_le_nat_alt word_less_nat_alt blk_end_def block_ok_def
      unat_add_ucast)

lemma blocks_ok_nth: "blocks_ok bs \<Longrightarrow> i < length bs \<Longrightarrow> block_ok (bs ! i)"
  by (simp add: blocks_ok_def)

text \<open>A run of consecutive free pages lies inside one block, because adjacent blocks are merged.\<close>

lemma run_in_block:
  assumes "blocks_ok bs" and "a < c" and "{a ..< c} \<subseteq> blocks_free bs"
  shows "\<exists>b \<in> set bs. {a ..< c} \<subseteq> blk_set b"
  using assms
proof (induction bs)
  case (Cons b bs)
  have ok: "block_ok b" "blocks_ok bs" "\<And>x. x \<in> set bs \<Longrightarrow> blk_before b x"
    using Cons.prems(1) by (auto simp: blocks_ok_Cons)
  have gap: "blk_end b < x" if "x \<in> blocks_free bs" for x
    using that ok(3) by (fastforce simp: blocks_free_def blk_before_def)
  have aa: "a \<in> {a ..< c}" using Cons.prems(2) by simp
  show ?case
  proof (cases "a < blk_end b")
    case True
    with gap aa Cons.prems(3) have ab: "a \<in> blk_set b" by fastforce
    have "c \<le> blk_end b"
    proof (rule ccontr)
      assume "\<not> c \<le> blk_end b"
      then have "blk_end b \<in> {a ..< c}" using True by simp
      then have "blk_end b \<in> blk_set b \<union> blocks_free bs" using Cons.prems(3) by auto
      then show False using gap by auto
    qed
    with ab show ?thesis by auto
  next
    case False
    then have "x \<notin> blk_set b" if "x \<in> {a ..< c}" for x using that by auto
    with Cons.prems(3) have "{a ..< c} \<subseteq> blocks_free bs" by (fastforce simp del: blk_set_iff)
    with Cons.IH [OF ok(2) Cons.prems(2)] show ?thesis by auto
  qed
qed simp

text \<open>Shrinking, replacing and adding one block in a well-formed list.\<close>

lemma blocks_ok_replace:
  assumes "blocks_ok (xs @ ms @ ys)" and "block_ok b"
    and "\<And>a. a \<in> set xs \<Longrightarrow> blk_before a b" and "\<And>c. c \<in> set ys \<Longrightarrow> blk_before b c"
  shows "blocks_ok (xs @ b # ys)"
  using assms by (auto simp: blocks_ok_append blocks_ok_Cons)

lemma left_before:
  assumes "blocks_ok L" and "\<And>a. a \<in> set L \<Longrightarrow> blk_end a \<le> x" and "L \<noteq> [] \<Longrightarrow> blk_end (last L) \<noteq> x"
  shows "\<forall>a \<in> set L. blk_end a < x"
proof (cases L rule: rev_cases)
  case (snoc L' l)
  with assms(1) have "block_ok l" "\<forall>a \<in> set L'. blk_before a l"
    by (auto simp: blocks_ok_append blocks_ok_Cons)
  moreover have "blk_end l < x" using assms(2) [of l] assms(3) snoc by simp
  ultimately show ?thesis using snoc block_okD(1) [of l] by (fastforce simp: blk_before_def)
qed simp

lemma right_before:
  assumes "blocks_ok R" and "\<And>c. c \<in> set R \<Longrightarrow> x \<le> unat (blk_base c)"
    and "R \<noteq> [] \<Longrightarrow> x \<noteq> unat (blk_base (hd R))"
  shows "\<forall>c \<in> set R. x < unat (blk_base c)"
proof (cases R)
  case (Cons c R')
  with assms(1) have "block_ok c" "\<forall>b \<in> set R'. blk_before c b"
    by (auto simp: blocks_ok_Cons)
  moreover have "x < unat (blk_base c)" using assms(2) [of c] assms(3) Cons by simp
  ultimately show ?thesis using Cons block_okD(1) [of c] by (fastforce simp: blk_before_def)
qed simp

lemma unat_add3_u16:
  "unat (a :: u16) + unat b + unat c < 2 ^ 16 \<Longrightarrow> unat (a + b + c) = unat a + unat b + unat c"
  by (simp add: unat_word_ariths)

lemma merge_blocks_ok:
  fixes base :: "'p::len word"
  assumes ok: "blocks_ok (L @ R)" and n: "n \<noteq> 0"
    and fit: "unat base + unat n < 2 ^ LENGTH('p)"
    and L: "\<And>a. a \<in> set L \<Longrightarrow> blk_end a \<le> unat base"
    and R: "\<And>c. c \<in> set R \<Longrightarrow> unat base + unat n \<le> unat (blk_base c)"
    and tot: "blocks_total (L @ R) + unat n < 2 ^ 16"
  shows "blocks_ok (merge_blocks L R base n)"
    and "blocks_free (merge_blocks L R base n) = blocks_free (L @ R) \<union> {unat base ..< unat base + unat n}"
proof -
  define ml where "ml \<longleftrightarrow> L \<noteq> [] \<and> blk_end (last L) = unat base"
  define mr where "mr \<longleftrightarrow> R \<noteq> [] \<and> unat base + unat n = unat (blk_base (hd R))"
  define A where "A = (if ml then butlast L else L)"
  define M1 where "M1 = (if ml then [last L] else [])"
  define M2 where "M2 = (if mr then [hd R] else [])"
  define B where "B = (if mr then tl R else R)"
  define x where "x = \<lparr>blk_base = (if ml then blk_base (last L) else base),
    blk_pages = (if ml then blk_pages (last L) else 0) + n + (if mr then blk_pages (hd R) else 0)\<rparr>"
  have Ls: "L = A @ M1" and Rs: "R = M2 @ B"
    by (simp_all add: A_def M1_def M2_def B_def ml_def mr_def)
  have res: "merge_blocks L R base n = A @ x # B"
    unfolding merge_blocks_def Let_def A_def B_def x_def ml_def mr_def by simp
  have okM: "blocks_ok A" "blocks_ok M1" "blocks_ok M2" "blocks_ok B"
    "\<forall>a \<in> set A. \<forall>b \<in> set M1. blk_before a b" "\<forall>a \<in> set M2. \<forall>b \<in> set B. blk_before a b"
    using ok unfolding Ls Rs by (auto simp: blocks_ok_append)
  have p: "unat (blk_pages x) = blocks_total M1 + unat n + blocks_total M2"
  proof -
    have "blocks_total M1 + unat n + blocks_total M2 < 2 ^ 16" using tot unfolding Ls Rs by simp
    then show ?thesis
      unfolding x_def M1_def M2_def
      by (cases ml; cases mr) (simp_all add: unat_add3_u16 unat_word_ariths)
  qed
  have b: "unat (blk_base x) + blocks_total M1 = unat base"
    using okM(2) by (auto simp: x_def M1_def ml_def blk_end_def)
  have e: "blk_end x = unat base + unat n + blocks_total M2"
    using p b by (simp add: blk_end_def)
  have e_last: "blk_end x = (if mr then blk_end (hd R) else unat base + unat n)"
    using e by (auto simp: M2_def mr_def blk_end_def)
  have okx: "block_ok x"
    using p n e_last fit block_okD(2) [of "hd R"] okM(3)
    by (auto simp: block_ok_def M2_def blocks_ok_Cons unat_eq_0 [symmetric])
  have Ab: "\<forall>a \<in> set A. blk_before a x"
  proof (cases ml)
    case True
    then show ?thesis using okM(5) by (simp add: M1_def blk_before_def x_def)
  next
    case False
    then have "\<forall>a \<in> set L. blk_end a < unat base"
      by (intro left_before) (use okM(1) L in \<open>auto simp: A_def ml_def\<close>)
    then show ?thesis using False by (simp add: A_def x_def blk_before_def)
  qed
  have Bb: "\<forall>c \<in> set B. blk_before x c"
  proof (cases mr)
    case True
    then show ?thesis using okM(6) e_last by (simp add: M2_def blk_before_def)
  next
    case False
    then have "\<forall>c \<in> set R. unat base + unat n < unat (blk_base c)"
      by (intro right_before) (use okM(4) R in \<open>auto simp: B_def mr_def\<close>)
    then show ?thesis using False e_last by (simp add: B_def blk_before_def)
  qed
  show "blocks_ok (merge_blocks L R base n)"
    unfolding res by (rule blocks_ok_replace [of A "M1 @ M2" B]) (use ok okx Ab Bb in \<open>auto simp: Ls Rs\<close>)
  have f1: "blocks_free M1 = {unat (blk_base x) ..< unat base}"
    by (cases ml) (auto simp: M1_def x_def ml_def blk_set_def simp del: blk_set_iff)
  have f2: "blocks_free M2 = {unat base + unat n ..< blk_end x}"
    using e_last by (cases mr) (auto simp: M2_def mr_def blk_set_def simp del: blk_set_iff)
  have "blk_set x = blocks_free M1 \<union> {unat base ..< unat base + unat n} \<union> blocks_free M2"
    unfolding f1 f2 blk_set_def using b e by (auto simp del: blk_set_iff)
  then show "blocks_free (merge_blocks L R base n) = blocks_free (L @ R) \<union> {unat base ..< unat base + unat n}"
    by (simp add: res, simp add: Ls Rs Un_ac)
qed

lemma insert_pos_split:
  fixes base :: "'p::len word"
  assumes "free_block_count p \<le> length (free_blocks p)"
  defines "i \<equiv> insert_pos (free_blocks p) 0 (free_block_count p) base"
  shows "i \<le> length (pool_blocks p)" "\<forall>a \<in> set (take i (pool_blocks p)). blk_base a < base"
    "drop i (pool_blocks p) \<noteq> [] \<Longrightarrow> base \<le> blk_base (hd (drop i (pool_blocks p)))"
proof -
  note sp = insert_pos_spec [of 0 "free_block_count p" "free_blocks p" base, folded i_def]
  note len = pool_blocks_length [OF assms(1)]
  show "i \<le> length (pool_blocks p)" using sp len by simp
  show "\<forall>a \<in> set (take i (pool_blocks p)). blk_base a < base"
    using sp len by (auto simp: in_set_conv_nth)
  assume "drop i (pool_blocks p) \<noteq> []"
  then show "base \<le> blk_base (hd (drop i (pool_blocks p)))"
    using sp len by (simp add: hd_drop_conv_nth)
qed

lemma length_le_total: "blocks_ok bs \<Longrightarrow> length bs \<le> blocks_total bs"
  by (induction bs) (auto simp: blocks_ok_Cons dest: block_okD(3))

text \<open>What the array code does, on the list of blocks: it splits at the insertion point and merges.\<close>

lemma free_block_eta: "b\<lparr>blk_pages := x\<rparr> = \<lparr>blk_base = blk_base b, blk_pages = x\<rparr>"
  by (cases b) simp

lemma total_ge_nth: "i < length bs \<Longrightarrow> unat (blk_pages (bs ! i)) \<le> blocks_total bs"
  unfolding blocks_total_def by (rule member_le_sum_list) auto

lemma insert_or_merge_blocks:
  fixes p :: "'p::len word page_pool" and base :: "'p word" and n :: u16
  assumes cnt: "free_block_count p \<le> length (free_blocks p)" and ok: "blocks_ok (pool_blocks p)"
    and n: "n \<noteq> 0" and fit: "unat base + unat n < 2 ^ LENGTH('p)"
    and room: "blocks_total (pool_blocks p) + unat n \<le> length (free_blocks p)" and small: "length (free_blocks p) < 2 ^ 16"
  defines "i \<equiv> insert_pos (free_blocks p) 0 (free_block_count p) base"
    and "r \<equiv> block_insert_or_merge p base n"
  shows "fst r = 0
    \<and> pool_blocks (snd r) = merge_blocks (take i (pool_blocks p)) (drop i (pool_blocks p)) base n
    \<and> free_block_count (snd r) \<le> length (free_blocks p)
    \<and> length (free_blocks (snd r)) = length (free_blocks p)
    \<and> free_page_total (snd r) = free_page_total p"
proof -
  let ?bs = "pool_blocks p" and ?c = "free_block_count p"
  have len: "length ?bs = ?c" by (rule pool_blocks_length [OF cnt])
  have i: "i \<le> ?c" using insert_pos_split(1) [OF cnt, of base] len by (simp add: i_def)
  have room': "?c < length (free_blocks p)"
    using room n length_le_total [OF ok] len unat_pos_iff [of n] by linarith
  define l where "l = ?bs ! (i - 1)"
  define c where "c = ?bs ! i"
  define ml where "ml \<longleftrightarrow> 0 < i \<and> blk_base l + ucast (blk_pages l) = base"
  define n1 where "n1 = (if ml then blk_pages l + n else n)"
  define b1 where "b1 = (if ml then blk_base l else base)"
  define mr where "mr \<longleftrightarrow> i < ?c \<and> b1 + ucast n1 = blk_base c"
  have l_ok: "block_ok l" if "0 < i" using blocks_ok_nth [OF ok] i that len by (simp add: l_def)
  have l_nth: "0 < i \<Longrightarrow> free_blocks p ! (i - 1) = l" and c_nth: "i < ?c \<Longrightarrow> free_blocks p ! i = c"
    using i by (simp_all add: l_def c_def)
  have lastL: "last (take i ?bs) = l" if "0 < i"
  proof -
    have "take i ?bs \<noteq> []" and "length (take i ?bs) = i" using that i len by auto
    then show ?thesis using that by (simp add: last_conv_nth l_def)
  qed
  have hdR: "hd (drop i ?bs) = c" if "i < ?c" using that len by (simp add: hd_drop_conv_nth c_def)
  have ml_iff: "ml \<longleftrightarrow> take i ?bs \<noteq> [] \<and> blk_end (last (take i ?bs)) = unat base"
    using i len block_okD [OF l_ok]
    by (cases "0 < i") (auto simp: ml_def lastL word_unat_eq_iff unat_add_ucast)
  have sum_l: "unat (blk_pages l + n) = unat (blk_pages l) + unat n" if "0 < i"
  proof -
    have "unat (blk_pages l) + unat n < 2 ^ 16"
      using total_ge_nth [of "i - 1" ?bs] that i len room small unfolding l_def by linarith
    then show ?thesis by (simp add: unat_word_ariths)
  qed
  have n1: "unat b1 + unat n1 = unat base + unat n"
    using block_okD [OF l_ok] sum_l by (auto simp: b1_def n1_def ml_def unat_add_ucast)
  have mr_iff: "mr \<longleftrightarrow> drop i ?bs \<noteq> [] \<and> unat base + unat n = unat (blk_base (hd (drop i ?bs)))"
    using i len n1 fit
    by (cases "i < ?c") (auto simp: mr_def hdR word_unat_eq_iff unat_add_ucast)
  define p1 where "p1 = (if ml then p\<lparr>free_blocks := (free_blocks p)[i - 1 := l\<lparr>blk_pages := blk_pages l + n\<rparr>]\<rparr> else p)"
  have r: "r = (if mr then
        if ml then (0, block_remove (p1\<lparr>free_blocks := (free_blocks p)
            [i - 1 := l\<lparr>blk_pages := blk_pages l + n + blk_pages c\<rparr>]\<rparr>) i)
        else (0, p1\<lparr>free_blocks := (free_blocks p1)[i := \<lparr>blk_base = b1, blk_pages = blk_pages c + n1\<rparr>]\<rparr>)
      else if ml then (0, p1) else block_insert_at p1 i b1 n1)"
  proof (cases ml)
    case True
    then have i0: "0 < i" and eq: "blk_base l + ucast (blk_pages l) = base" by (simp_all add: ml_def)
    show ?thesis
      unfolding r_def block_insert_or_merge_def Let_def i_def [symmetric] l_nth [OF i0]
      using n i i0 eq c_nth cnt True by (simp add: mr_def b1_def n1_def p1_def)
  next
    case False
    then have nm: "\<not> (0 < i \<and> blk_base (free_blocks p ! (i - 1)) + ucast (blk_pages (free_blocks p ! (i - 1))) = base)"
      using l_nth by (auto simp: ml_def)
    show ?thesis
      unfolding r_def block_insert_or_merge_def Let_def i_def [symmetric]
      using n c_nth False by (simp only: nm if_False p1_def mr_def b1_def n1_def) simp
  qed
  have mb: "merge_blocks (take i ?bs) (drop i ?bs) base n =
      (if ml then take (i - 1) ?bs else take i ?bs) @
         \<lparr>blk_base = b1, blk_pages = n1 + (if mr then blk_pages c else 0)\<rparr>
         # (if mr then drop (Suc i) ?bs else drop i ?bs)"
    unfolding merge_blocks_def Let_def ml_iff [symmetric] mr_iff [symmetric]
    using i len hdR by (auto simp: ml_def mr_def lastL b1_def n1_def butlast_take drop_Suc tl_drop)
  show ?thesis
  proof (cases ml)
    case True
    then have i0: "0 < i" by (simp add: ml_def)
    have one: "take i (?bs[i - 1 := x]) = take (i - 1) ?bs @ [x]" for x
      using i i0 len by (simp add: upd_conv_take_nth_drop take_Suc_conv_app_nth Suc_diff_Suc)
    show ?thesis
    proof (cases mr)
      case mr: True
      let ?q = "p\<lparr>free_blocks := (free_blocks p)[i - 1 := l\<lparr>blk_pages := blk_pages l + n + blk_pages c\<rparr>]\<rparr>"
      have "i < free_block_count ?q" using mr by (simp add: mr_def)
      note rem = block_remove_blocks [of ?q, OF _ this]
      have "r = (0, block_remove ?q i)" using True mr by (simp add: r p1_def)
      then show ?thesis using rem cnt True mr i0
        by (simp add: mb block_set_blocks one [simplified] free_block_eta) (simp add: b1_def n1_def)
    next
      case False
      with True show ?thesis using cnt i0 i len
        by (simp add: mb r p1_def block_set_blocks upd_conv_take_nth_drop [of _ ?bs] free_block_eta) (simp add: b1_def n1_def)
    qed
  next
    case False
    note ins = block_insert_at_blocks [of p i b1 n1]
    show ?thesis
    proof (cases mr)
      case mr: True
      with False show ?thesis using cnt i len
        by (simp add: mb r p1_def block_set_blocks upd_conv_take_nth_drop [of _ ?bs] mr_def add.commute)
    next
      case mr: False
      then show ?thesis using False ins room' i by (simp add: mb r p1_def)
    qed
  qed
qed

lemma merge_split_bounds:
  fixes base :: "'p::len word"
  assumes cnt: "free_block_count p \<le> length (free_blocks p)" and ok: "blocks_ok (pool_blocks p)"
    and n: "n \<noteq> 0" and new: "{unat base ..< unat base + unat n} \<inter> pool_free p = {}"
  defines "i \<equiv> insert_pos (free_blocks p) 0 (free_block_count p) base"
  shows "a \<in> set (take i (pool_blocks p)) \<Longrightarrow> blk_end a \<le> unat base"
    and "c \<in> set (drop i (pool_blocks p)) \<Longrightarrow> unat base + unat n \<le> unat (blk_base c)"
proof -
  note sp = insert_pos_split [OF cnt, of base, folded i_def]
  have free: "blk_set b \<inter> {unat base ..< unat base + unat n} = {}" if "b \<in> set (pool_blocks p)" for b
    using new that by (auto simp: pool_free_def blocks_free_def simp del: blk_set_iff)
  have okb: "block_ok b" if "b \<in> set (pool_blocks p)" for b
    using ok that by (simp add: blocks_ok_def)
  have n0: "0 < unat n" using n by (simp add: unat_pos_iff)
  { assume a: "a \<in> set (take i (pool_blocks p))"
    then have "unat (blk_base a) < unat base" using sp(2) by (simp add: word_less_nat_alt)
    moreover have "unat base \<notin> blk_set a" using free [OF in_set_takeD [OF a]] n0 by fastforce
    ultimately show "blk_end a \<le> unat base" by simp }
  { assume c: "c \<in> set (drop i (pool_blocks p))"
    have "unat base \<le> unat (blk_base c)"
    proof -
      obtain d R where R: "drop i (pool_blocks p) = d # R" using c by (cases "drop i (pool_blocks p)") auto
      have "blocks_ok (d # R)" using ok R by (metis append_take_drop_id blocks_ok_append)
      then have "c = d \<or> blk_before d c" using c by (auto simp: blocks_ok_Cons R)
      moreover have "unat base \<le> unat (blk_base d)" using sp(3) R by (simp add: word_le_nat_alt)
      ultimately show ?thesis by (auto simp: blk_before_def blk_end_def)
    qed
    moreover have "unat (blk_base c) \<notin> {unat base ..< unat base + unat n}"
      using free [OF in_set_dropD [OF c]] block_okD(1) [OF okb [OF in_set_dropD [OF c]]] by fastforce
    ultimately show "unat base + unat n \<le> unat (blk_base c)" by simp }
qed

text \<open>Inserting a run of pages that are not free succeeds and adds exactly these pages.\<close>

lemma insert_or_merge_correct:
  fixes p :: "'p::len word page_pool" and base :: "'p word" and n :: u16
  assumes cnt: "free_block_count p \<le> length (free_blocks p)" and ok: "blocks_ok (pool_blocks p)"
    and n: "n \<noteq> 0" and fit: "unat base + unat n < 2 ^ LENGTH('p)"
    and new: "{unat base ..< unat base + unat n} \<inter> pool_free p = {}"
    and room: "blocks_total (pool_blocks p) + unat n \<le> length (free_blocks p)"
    and small: "length (free_blocks p) < 2 ^ 16"
  defines "r \<equiv> block_insert_or_merge p base n"
  shows "fst r = 0" and "blocks_ok (pool_blocks (snd r))"
    and "pool_free (snd r) = pool_free p \<union> {unat base ..< unat base + unat n}"
    and "blocks_total (pool_blocks (snd r)) = blocks_total (pool_blocks p) + unat n"
    and "free_block_count (snd r) \<le> length (free_blocks p)"
    and "length (free_blocks (snd r)) = length (free_blocks p)"
    and "free_page_total (snd r) = free_page_total p"
proof -
  define i where "i = insert_pos (free_blocks p) 0 (free_block_count p) base"
  note ib = insert_or_merge_blocks [OF cnt ok n fit room small, folded i_def r_def]
  have eq: "take i (pool_blocks p) @ drop i (pool_blocks p) = pool_blocks p" by simp
  note mb = merge_blocks_ok [of "take i (pool_blocks p)" "drop i (pool_blocks p)" n base, unfolded eq,
      OF ok n fit merge_split_bounds(1) [OF cnt ok n new, folded i_def]
      merge_split_bounds(2) [OF cnt ok n new, folded i_def]]
  show "fst r = 0" "free_block_count (snd r) \<le> length (free_blocks p)"
    "length (free_blocks (snd r)) = length (free_blocks p)" "free_page_total (snd r) = free_page_total p"
    using ib by auto
  show ok': "blocks_ok (pool_blocks (snd r))"
    using mb(1) ib room small by simp
  show free': "pool_free (snd r) = pool_free p \<union> {unat base ..< unat base + unat n}"
    using mb(2) ib room small by (simp add: pool_free_def)
  have "card (pool_free (snd r)) = card (pool_free p) + unat n"
    unfolding free' using new by (subst card_Un_disjoint) (auto simp: pool_free_def)
  then show "blocks_total (pool_blocks (snd r)) = blocks_total (pool_blocks p) + unat n"
    by (simp add: pool_free_def card_blocks_free ok ok')
qed

lemma blocks_disjoint:
  assumes "blocks_ok (xs @ b # ys)"
  shows "blk_set b \<inter> blocks_free xs = {}" "blk_set b \<inter> blocks_free ys = {}"
  using assms by (fastforce simp: blocks_ok_append blocks_ok_Cons blocks_free_def blk_before_def)+

lemma blocks_shrink:
  assumes ok: "blocks_ok (xs @ b # ys)"
    and ms: "ms = [] \<or> (\<exists>x. ms = [x] \<and> block_ok x \<and> unat (blk_base b) \<le> unat (blk_base x) \<and> blk_end x \<le> blk_end b)"
  shows "blocks_ok (xs @ ms @ ys)"
    and "blocks_free (xs @ ms @ ys) = blocks_free (xs @ b # ys) - (blk_set b - blocks_free ms)"
proof -
  show "blocks_ok (xs @ ms @ ys)"
    using assms by (fastforce simp: blocks_ok_append blocks_ok_Cons blk_before_def)
  have "blocks_free ms \<subseteq> blk_set b" using ms by auto
  with blocks_disjoint [OF ok]
  show "blocks_free (xs @ ms @ ys) = blocks_free (xs @ b # ys) - (blk_set b - blocks_free ms)"
    by (simp del: blk_set_iff) blast
qed

lemma pool_inv_shrink:
  assumes inv: "pool_inv p" and p: "pool_blocks p = xs @ b # ys" and q: "pool_blocks q = xs @ ms @ ys"
    and ms: "ms = [] \<or> (\<exists>x. ms = [x] \<and> block_ok x \<and> unat (blk_base b) \<le> unat (blk_base x) \<and> blk_end x \<le> blk_end b)"
    and cnt: "free_block_count q \<le> length (free_blocks q)" and len: "length (free_blocks q) = length (free_blocks p)"
    and fpt: "free_page_total q = free_page_total p - k" and k: "blocks_total ms + unat k = unat (blk_pages b)"
  shows "pool_inv q" and "pool_free q = pool_free p - (blk_set b - blocks_free ms)"
proof -
  note sh = blocks_shrink [OF inv [unfolded pool_inv_def p, THEN conjunct2, THEN conjunct1] ms]
  show "pool_free q = pool_free p - (blk_set b - blocks_free ms)"
    using sh(2) by (simp add: pool_free_def p q)
  have "unat k \<le> unat (free_page_total p)" using inv k by (simp add: pool_inv_def p)
  then have "unat (free_page_total q) = unat (free_page_total p) - unat k"
    by (simp add: fpt unat_sub_if_size)
  with inv sh(1) cnt len k show "pool_inv q" by (simp add: pool_inv_def p q)
qed

lemma pool_blocks_total [simp]: "pool_blocks (p\<lparr>free_page_total := t\<rparr>) = pool_blocks p"
  by (simp add: pool_blocks_def)

lemma pool_invD:
  assumes "pool_inv p"
  shows "free_block_count p \<le> length (free_blocks p)" "blocks_ok (pool_blocks p)"
    "length (pool_blocks p) = free_block_count p" "unat (free_page_total p) = blocks_total (pool_blocks p)"
    "blocks_total (pool_blocks p) \<le> length (free_blocks p)" "length (free_blocks p) < 2 ^ 16"
  using assms by (auto simp: pool_inv_def pool_blocks_length)

lemma pool_split:
  assumes "pool_inv p" and "idx < free_block_count p"
  shows "pool_blocks p = take idx (pool_blocks p) @ free_blocks p ! idx # drop (Suc idx) (pool_blocks p)"
    and "block_ok (free_blocks p ! idx)" and "blk_set (free_blocks p ! idx) \<subseteq> pool_free p"
    and "free_blocks p ! idx \<in> set (pool_blocks p)"
proof -
  have len: "idx < length (pool_blocks p)" using pool_invD(3) [OF assms(1)] assms(2) by simp
  show "pool_blocks p = take idx (pool_blocks p) @ free_blocks p ! idx # drop (Suc idx) (pool_blocks p)"
    using id_take_nth_drop [OF len] assms(2) by simp
  show in_set: "free_blocks p ! idx \<in> set (pool_blocks p)" using nth_mem [OF len] assms(2) by simp
  show "block_ok (free_blocks p ! idx)"
    using pool_invD(2) [OF assms(1)] in_set by (simp add: blocks_ok_def)
  show "blk_set (free_blocks p ! idx) \<subseteq> pool_free p"
    using in_set by (auto simp: pool_free_def blocks_free_def)
qed

lemma blk_free_ne_invalid:
  fixes p :: "'p::len word page_pool" and pid :: "'p word"
  assumes "pool_inv p" and "unat pid \<in> pool_free p"
  shows "pid \<noteq> PAGE_ID_INVALID"
proof -
  obtain b where "b \<in> set (pool_blocks p)" "unat pid \<in> blk_set b"
    using assms(2) by (auto simp: pool_free_def blocks_free_def)
  moreover from this have "block_ok b" using pool_invD(2) [OF assms(1)] by (simp add: blocks_ok_def)
  ultimately show ?thesis using block_okD(2) [of b] by (auto simp: PAGE_ID_INVALID_def unsigned_minus_1_eq_mask mask_eq_exp_minus_1)
qed

lemma take_front_correct:
  fixes p :: "'p::len word page_pool" and n :: u16
  assumes inv: "pool_inv p" and idx: "idx < free_block_count p"
    and n: "n \<noteq> 0" "n \<le> blk_pages (free_blocks p ! idx)"
  defines "q \<equiv> (block_take_front p idx n)\<lparr>free_page_total := free_page_total (block_take_front p idx n) - ucast n\<rparr>"
    and "a \<equiv> unat (blk_base (free_blocks p ! idx))"
  shows "pool_inv q" and "pool_free q = pool_free p - {a ..< a + unat n}"
    and "{a ..< a + unat n} \<subseteq> pool_free p"
proof -
  let ?b = "free_blocks p ! idx" and ?xs = "take idx (pool_blocks p)" and ?ys = "drop (Suc idx) (pool_blocks p)"
  note sp = pool_split [OF inv idx] and bok = block_okD [OF pool_split(2) [OF inv idx]]
  have nn: "unat n \<le> unat (blk_pages ?b)" using n(2) by (simp add: word_le_nat_alt)
  have k: "unat (ucast n :: u32) = unat n" by simp
  define ms where "ms = (if blk_pages ?b \<le> n then []
    else [\<lparr>blk_base = blk_base ?b + ucast n, blk_pages = blk_pages ?b - n\<rparr>])"
  have base: "unat (blk_base ?b + ucast n) = a + unat n"
    unfolding a_def by (rule unat_add_ucast) (use nn bok(2,4) in linarith)
  have diff: "unat (blk_pages ?b - n) = unat (blk_pages ?b) - unat n"
    using nn by (simp add: unat_sub_if_size)
  have q: "pool_blocks q = ?xs @ ms @ ?ys" "free_block_count q \<le> length (free_blocks q)"
    "length (free_blocks q) = length (free_blocks p)" "free_page_total q = free_page_total p - ucast n"
    using block_remove_blocks [OF pool_invD(1) [OF inv] idx] pool_invD(1) [OF inv] pool_invD(3) [OF inv] idx
    by (auto simp: q_def ms_def block_take_front_def Let_def block_set_blocks
        upd_conv_take_nth_drop [of idx "pool_blocks p"])
  have x_end: "blk_end \<lparr>blk_base = blk_base ?b + ucast n, blk_pages = blk_pages ?b - n\<rparr> = blk_end ?b"
    unfolding blk_end_def free_block.select_convs base diff a_def using nn by linarith
  have ms: "ms = [] \<or> (\<exists>x. ms = [x] \<and> block_ok x \<and> unat (blk_base ?b) \<le> unat (blk_base x) \<and> blk_end x \<le> blk_end ?b)"
  proof (cases "blk_pages ?b \<le> n")
    case False
    then have "0 < unat (blk_pages ?b - n)" using diff by (simp add: word_le_nat_alt)
    then have ne: "blk_pages ?b - n \<noteq> 0" by (simp add: unat_pos_iff)
    have "unat (blk_base ?b) \<le> unat (blk_base ?b + ucast n)" unfolding base a_def by simp
    with False x_end ne bok(2) show ?thesis by (simp add: ms_def block_ok_def)
  qed (simp add: ms_def)
  have tot: "blocks_total ms + unat (ucast n :: u32) = unat (blk_pages ?b)"
    using nn diff k by (auto simp: ms_def word_le_nat_alt)
  note res = pool_inv_shrink [OF inv sp(1) q(1) ms q(2,3,4) tot]
  have "blocks_free ms = {a + unat n ..< blk_end ?b}"
  proof (cases "blk_pages ?b \<le> n")
    case True
    then have "blk_end ?b \<le> a + unat n" by (simp add: blk_end_def a_def word_le_nat_alt)
    with True show ?thesis by (simp add: ms_def)
  next
    case False
    then show ?thesis using x_end base by (simp add: ms_def blk_set_def del: blk_set_iff)
  qed
  moreover have "a + unat n \<le> blk_end ?b" using nn by (simp add: blk_end_def a_def)
  ultimately have "blk_set ?b - blocks_free ms = {a ..< a + unat n}"
    unfolding blk_set_def a_def [symmetric] by auto
  with res show "pool_inv q" "pool_free q = pool_free p - {a ..< a + unat n}" by simp_all
  show "{a ..< a + unat n} \<subseteq> pool_free p"
    using sp(3) nn by (auto simp: a_def blk_end_def subset_iff)
qed

lemma take_back_one_correct:
  fixes p :: "'p::len word page_pool"
  assumes inv: "pool_inv p" and cnt: "free_block_count p \<noteq> 0"
  defines "r \<equiv> block_take_back_one p (free_block_count p - 1)"
  defines "q \<equiv> (snd r)\<lparr>free_page_total := free_page_total (snd r) - 1\<rparr>"
  shows "pool_inv q" and "pool_free q = pool_free p - {unat (fst r)}"
    and "unat (fst r) = Max (pool_free p)" and "unat (fst r) \<in> pool_free p"
proof -
  let ?idx = "free_block_count p - 1"
  define b where "b = free_blocks p ! ?idx"
  let ?xs = "take ?idx (pool_blocks p)"
  have idx: "?idx < free_block_count p" using cnt by simp
  note sp = pool_split [OF inv idx, folded b_def] and bok = block_okD [OF pool_split(2) [OF inv idx, folded b_def]]
  have ys: "drop (Suc ?idx) (pool_blocks p) = []" using pool_invD(3) [OF inv] cnt by simp
  define ms where "ms = (if blk_pages b = 1 then [] else [b\<lparr>blk_pages := blk_pages b - 1\<rparr>])"
  have p1: "unat (blk_pages b - 1) = unat (blk_pages b) - 1"
    using bok(3) by (subst unat_minus_one) (auto simp: unat_pos_iff)
  have res: "unat (fst r) = blk_end b - 1"
  proof -
    have e: "unat (blk_base b + ucast (blk_pages b)) = blk_end b"
      using unat_add_ucast bok(2,4) by metis
    then have "blk_base b + ucast (blk_pages b) \<noteq> 0" using bok(1) by auto
    with e show ?thesis by (simp add: r_def block_take_back_one_def Let_def unat_minus_one b_def [symmetric] del: One_nat_def)
  qed
  have upd: "(pool_blocks p)[?idx := x] = ?xs @ [x]" for x
    using upd_conv_take_nth_drop [of ?idx "pool_blocks p" x] idx ys pool_invD(3) [OF inv] by simp
  have q: "pool_blocks q = ?xs @ ms @ []" "free_block_count q \<le> length (free_blocks q)"
    "length (free_blocks q) = length (free_blocks p)" "free_page_total q = free_page_total p - 1"
    using block_remove_blocks [OF pool_invD(1) [OF inv] idx] pool_invD(1) [OF inv] pool_invD(3) [OF inv] idx ys
    by (auto simp: q_def r_def ms_def block_take_back_one_def Let_def block_set_blocks upd b_def [symmetric]
        simp del: One_nat_def)
  have ms: "ms = [] \<or> (\<exists>x. ms = [x] \<and> block_ok x \<and> unat (blk_base b) \<le> unat (blk_base x) \<and> blk_end x \<le> blk_end b)"
  proof (cases "blk_pages b = 1")
    case False
    then have "unat (blk_pages b) \<noteq> 1" using unat_1 [where 'a = 16] by (metis word_unat_eq_iff)
    then have "0 < unat (blk_pages b - 1)" using bok(3) p1 by linarith
    then have ne: "blk_pages b - 1 \<noteq> 0" by (simp add: unat_pos_iff)
    have "blk_end (b\<lparr>blk_pages := blk_pages b - 1\<rparr>) \<le> blk_end b"
      unfolding blk_end_def by (simp add: p1)
    with False ne bok(2) show ?thesis by (simp add: ms_def block_ok_def)
  qed (simp add: ms_def)
  have tot: "blocks_total ms + unat (1 :: u32) = unat (blk_pages b)"
    using p1 bok(3) by (auto simp: ms_def)
  note sh = pool_inv_shrink [OF inv sp(1) [unfolded ys] q(1) ms q(2,3,4) tot]
  have "blocks_free ms = {unat (blk_base b) ..< blk_end b - 1}"
  proof (cases "blk_pages b = 1")
    case True
    then have "blk_end b - 1 = unat (blk_base b)" by (simp add: blk_end_def)
    with True show ?thesis by (simp add: ms_def)
  next
    case False
    have "blk_end (b\<lparr>blk_pages := blk_pages b - 1\<rparr>) = blk_end b - 1"
      unfolding blk_end_def using p1 bok(3) by simp
    with False show ?thesis by (simp add: ms_def blk_set_def del: blk_set_iff)
  qed
  then have "blk_set b - blocks_free ms = {unat (fst r)}"
    unfolding blk_set_def res using bok(1) by auto
  with sh show "pool_inv q" "pool_free q = pool_free p - {unat (fst r)}" by simp_all
  show "unat (fst r) \<in> pool_free p" using sp(3) res bok by auto
  moreover have "x \<le> unat (fst r)" if "x \<in> pool_free p" for x
  proof -
    have "blocks_ok (?xs @ [b])" using pool_invD(2) [OF inv] sp(1) ys by simp
    moreover have "x \<in> blocks_free ?xs \<or> x \<in> blk_set b"
      using that sp(1) ys unfolding pool_free_def by (metis UnE Un_empty_right blocks_free_simps)
    ultimately show ?thesis
      using bok res by (fastforce simp: blocks_ok_append blk_before_def blocks_free_def)
  qed
  ultimately show "unat (fst r) = Max (pool_free p)"
    by (intro Max_eqI [symmetric]) (auto simp: pool_free_def)
qed

lemma pool_free_empty: "pool_inv p \<Longrightarrow> free_block_count p = 0 \<longleftrightarrow> pool_free p = {}"
  using pool_split(2,3) [of p 0] block_okD(1) [of "free_blocks p ! 0"]
  by (cases "free_block_count p = 0") (auto simp: pool_free_def pool_blocks_def)

lemma finite_pool_free [simp]: "finite (pool_free p)"
  by (simp add: pool_free_def)

lemma pool_run_in_block:
  assumes "pool_inv p" and "0 < n" and "{a ..< a + n} \<subseteq> pool_free p"
  obtains i where "i < free_block_count p" "unat (blk_base (free_blocks p ! i)) \<le> a"
    "a + n \<le> blk_end (free_blocks p ! i)"
proof -
  obtain b where b: "b \<in> set (pool_blocks p)" "{a ..< a + n} \<subseteq> blk_set b"
    using run_in_block [OF pool_invD(2) [OF assms(1)], of a "a + n"] assms(2,3)
    by (auto simp: pool_free_def)
  then obtain i where "i < free_block_count p" "b = free_blocks p ! i"
    by (auto simp: in_set_conv_nth pool_invD(3) [OF assms(1)])
  moreover have "a \<in> blk_set b" "a + n - 1 \<in> blk_set b" using b(2) assms(2) by (auto simp: subset_iff)
  ultimately show thesis using that [of i] assms(2) by auto
qed

text \<open>A page number is in the pool exactly when the search finds a block with it.\<close>

lemma find_containing_Some:
  assumes "pool_inv p" and "block_find_containing p pid = Some idx"
  shows "idx < free_block_count p" "unat pid \<in> blk_set (free_blocks p ! idx)" "unat pid \<in> pool_free p"
proof -
  show idx: "idx < free_block_count p"
    using find_index_Some assms(2) unfolding block_find_containing_def by blast
  show "unat pid \<in> blk_set (free_blocks p ! idx)"
    using find_index_Some assms(2) blk_contains_iff [OF pool_split(2) [OF assms(1) idx]]
    unfolding block_find_containing_def by blast
  then show "unat pid \<in> pool_free p" using pool_split(3) [OF assms(1) idx] by blast
qed

lemma find_containing_None:
  assumes "pool_inv p"
  shows "block_find_containing p pid = None \<longleftrightarrow> unat pid \<notin> pool_free p"
proof
  assume n: "block_find_containing p pid = None"
  show "unat pid \<notin> pool_free p"
  proof
    assume "unat pid \<in> pool_free p"
    then have "{unat pid ..< unat pid + 1} \<subseteq> pool_free p" by auto
    from pool_run_in_block [OF assms _ this] obtain i where i: "i < free_block_count p"
      "unat (blk_base (free_blocks p ! i)) \<le> unat pid" "unat pid + 1 \<le> blk_end (free_blocks p ! i)"
      by auto
    then have "blk_contains pid (free_blocks p ! i)"
      using blk_contains_iff [OF pool_split(2) [OF assms i(1)]] by auto
    then show False using n i(1) unfolding block_find_containing_def find_index_None by auto
  qed
qed (use find_containing_Some(3) [OF assms] in \<open>cases "block_find_containing p pid"; auto\<close>)

lemma first_fit_Some:
  assumes inv: "pool_inv p" and n: "n \<noteq> 0" and ff: "block_find_first_fit p n = Some idx"
  shows "idx < free_block_count p" "n \<le> blk_pages (free_blocks p ! idx)"
    and "{a ..< a + unat n} \<subseteq> pool_free p \<Longrightarrow> unat (blk_base (free_blocks p ! idx)) \<le> a"
proof -
  note fi = find_index_Some [OF ff [unfolded block_find_first_fit_def]]
  show idx: "idx < free_block_count p" and "n \<le> blk_pages (free_blocks p ! idx)" using fi by auto
  assume run: "{a ..< a + unat n} \<subseteq> pool_free p"
  have "0 < unat n" using n by (simp add: unat_pos_iff)
  from pool_run_in_block [OF inv this run] obtain i where i: "i < free_block_count p"
    "unat (blk_base (free_blocks p ! i)) \<le> a" "a + unat n \<le> blk_end (free_blocks p ! i)" .
  have "n \<le> blk_pages (free_blocks p ! i)" using i(2,3) by (simp add: word_le_nat_alt blk_end_def)
  then have "idx \<le> i" using fi by (meson leI le0)
  moreover have "blk_before (free_blocks p ! idx) (free_blocks p ! i)" if "idx < i"
    using pool_invD(2,3) [OF inv] that i(1) sorted_wrt_nth_less [of blk_before "pool_blocks p" idx i]
    by (simp add: blocks_ok_def)
  ultimately show "unat (blk_base (free_blocks p ! idx)) \<le> a"
    using i(2) by (cases "idx = i") (auto simp: blk_before_def blk_end_def)
qed

lemma first_fit_None:
  assumes inv: "pool_inv p" and n: "n \<noteq> 0" and ff: "block_find_first_fit p n = None"
  shows "\<not> {a ..< a + unat n} \<subseteq> pool_free p"
proof
  assume run: "{a ..< a + unat n} \<subseteq> pool_free p"
  have "0 < unat n" using n by (simp add: unat_pos_iff)
  from pool_run_in_block [OF inv this run] obtain i where i: "i < free_block_count p"
    "unat (blk_base (free_blocks p ! i)) \<le> a" "a + unat n \<le> blk_end (free_blocks p ! i)" .
  then have "n \<le> blk_pages (free_blocks p ! i)" by (simp add: word_le_nat_alt blk_end_def)
  with ff i(1) show False unfolding block_find_first_fit_def find_index_None by auto
qed

lemma pool_take_n_aux:
  fixes p :: "'p::len word page_pool" and n :: u16
  assumes inv: "pool_inv p" and n: "n \<noteq> 0"
  defines "pid \<equiv> fst (pool_take_n p n)" and "p' \<equiv> snd (pool_take_n p n)"
  shows "pid = PAGE_ID_INVALID \<Longrightarrow> p' = p \<and> (\<forall>a. \<not> {a ..< a + unat n} \<subseteq> pool_free p)"
    and "pid \<noteq> PAGE_ID_INVALID \<Longrightarrow> pool_inv p' \<and> {unat pid ..< unat pid + unat n} \<subseteq> pool_free p
      \<and> pool_free p' = pool_free p - {unat pid ..< unat pid + unat n}
      \<and> (if n = 1 then unat pid = Max (pool_free p)
         else \<forall>a. {a ..< a + unat n} \<subseteq> pool_free p \<longrightarrow> unat pid \<le> a)"
proof -
  consider (oom1) "n = 1" "free_block_count p = 0" | (one) "n = 1" "free_block_count p \<noteq> 0"
    | (oom) "n \<noteq> 1" "block_find_first_fit p n = None" | (fit) idx where "n \<noteq> 1" "block_find_first_fit p n = Some idx"
    by (cases "block_find_first_fit p n") auto
  then have "(pid = PAGE_ID_INVALID \<and> p' = p \<and> (\<forall>a. \<not> {a ..< a + unat n} \<subseteq> pool_free p)) \<or>
    (pid \<noteq> PAGE_ID_INVALID \<and> pool_inv p' \<and> {unat pid ..< unat pid + unat n} \<subseteq> pool_free p
      \<and> pool_free p' = pool_free p - {unat pid ..< unat pid + unat n}
      \<and> (if n = 1 then unat pid = Max (pool_free p)
         else \<forall>a. {a ..< a + unat n} \<subseteq> pool_free p \<longrightarrow> unat pid \<le> a))"
  proof cases
    case oom1
    then have "pool_free p = {}" using pool_free_empty [OF inv] by simp
    with oom1 show ?thesis by (simp add: pid_def p'_def pool_take_n_def)
  next
    case one
    note tb = take_back_one_correct [OF inv one(2)]
    have "pid \<noteq> PAGE_ID_INVALID"
      using blk_free_ne_invalid [OF inv tb(4)] one by (simp add: pid_def pool_take_n_def split_beta Let_def)
    with one tb show ?thesis by (simp add: pid_def p'_def pool_take_n_def split_beta Let_def)
  next
    case oom
    then show ?thesis using first_fit_None [OF inv n] n by (simp add: pid_def p'_def pool_take_n_def)
  next
    case fit
    note ff = first_fit_Some [OF inv n fit(2)]
    note tf = take_front_correct [OF inv ff(1) n ff(2)]
    have eq: "pid = blk_base (free_blocks p ! idx)" "p' = (block_take_front p idx n)
        \<lparr>free_page_total := free_page_total (block_take_front p idx n) - ucast n\<rparr>"
      using fit n by (simp_all add: pid_def p'_def pool_take_n_def Let_def)
    have "unat pid \<in> pool_free p"
      using tf(3) n unfolding eq by (auto simp: subset_iff unat_pos_iff [symmetric])
    then show ?thesis using blk_free_ne_invalid [OF inv] tf ff(3) fit(1) unfolding eq by auto
  qed
  then show "pid = PAGE_ID_INVALID \<Longrightarrow> p' = p \<and> (\<forall>a. \<not> {a ..< a + unat n} \<subseteq> pool_free p)"
    and "pid \<noteq> PAGE_ID_INVALID \<Longrightarrow> pool_inv p' \<and> {unat pid ..< unat pid + unat n} \<subseteq> pool_free p
      \<and> pool_free p' = pool_free p - {unat pid ..< unat pid + unat n}
      \<and> (if n = 1 then unat pid = Max (pool_free p)
         else \<forall>a. {a ..< a + unat n} \<subseteq> pool_free p \<longrightarrow> unat pid \<le> a)" by auto
qed

lemma scan_largest_spec:
  assumes "i \<le> cnt" and "\<forall>j < i. blk_pages (xs ! j) \<le> s"
    and "case best of None \<Rightarrow> s = 0 | Some k \<Rightarrow> k < i \<and> s = blk_pages (xs ! k)"
  shows "\<forall>j < cnt. blk_pages (xs ! j) \<le> snd (scan_largest xs i cnt best s)"
    and "case fst (scan_largest xs i cnt best s) of None \<Rightarrow> snd (scan_largest xs i cnt best s) = 0
      | Some k \<Rightarrow> k < cnt \<and> snd (scan_largest xs i cnt best s) = blk_pages (xs ! k)"
proof -
  have "(\<forall>j < cnt. blk_pages (xs ! j) \<le> snd (scan_largest xs i cnt best s)) \<and>
    (case fst (scan_largest xs i cnt best s) of None \<Rightarrow> snd (scan_largest xs i cnt best s) = 0
      | Some k \<Rightarrow> k < cnt \<and> snd (scan_largest xs i cnt best s) = blk_pages (xs ! k))"
    using assms
  proof (induction xs i cnt best s rule: scan_largest.induct)
    case (1 xs i cnt best s)
    show ?case
    proof (cases "i < cnt")
      case True
      show ?thesis
      proof (cases "s < blk_pages (xs ! i)")
        case gt: True
        have "\<forall>j < i + 1. blk_pages (xs ! j) \<le> blk_pages (xs ! i)"
          using 1(4) gt by (auto simp: less_Suc_eq)
        with 1(1) [OF True gt] True gt show ?thesis by (subst (1 2 3 4) scan_largest.simps) simp
      next
        case False
        have "\<forall>j < i + 1. blk_pages (xs ! j) \<le> s" using 1(4) False by (auto simp: less_Suc_eq)
        moreover have "case best of None \<Rightarrow> s = 0 | Some k \<Rightarrow> k < i + 1 \<and> s = blk_pages (xs ! k)"
          using 1(5) by (auto split: option.splits)
        ultimately show ?thesis
          using 1(2) [OF True False] True False by (subst (1 2 3 4) scan_largest.simps) simp
      qed
    next
      case False
      with 1(3-5) show ?thesis by (subst (1 2 3 4) scan_largest.simps) (auto split: option.splits)
    qed
  qed
  then show "\<forall>j < cnt. blk_pages (xs ! j) \<le> snd (scan_largest xs i cnt best s)"
    and "case fst (scan_largest xs i cnt best s) of None \<Rightarrow> snd (scan_largest xs i cnt best s) = 0
      | Some k \<Rightarrow> k < cnt \<and> snd (scan_largest xs i cnt best s) = blk_pages (xs ! k)" by auto
qed

lemma max_pages_from_scan: "max_pages_from xs i cnt s = snd (scan_largest xs i cnt best s)"
proof (induction xs i cnt s arbitrary: best rule: max_pages_from.induct)
  case (1 xs i cnt s)
  then show ?case
    by (subst max_pages_from.simps, subst scan_largest.simps) (cases "s < blk_pages (xs ! i)"; simp)
qed

text \<open>The longest free run: its length is what \<^verbatim>\<open>pool_max_contig\<close> reports.\<close>

lemma max_contig_run:
  assumes inv: "pool_inv p"
  shows "{a ..< a + n} \<subseteq> pool_free p \<Longrightarrow> n \<le> unat (pool_max_contig p)"
    and "\<exists>a. {a ..< a + unat (pool_max_contig p)} \<subseteq> pool_free p"
proof -
  let ?m = "pool_max_contig p"
  note sc = scan_largest_spec [of 0 "free_block_count p" "free_blocks p" 0 None, simplified]
  have m: "snd (scan_largest (free_blocks p) 0 (free_block_count p) None 0) = ?m"
    by (simp add: pool_max_contig_def max_pages_from_scan [of _ _ _ _ None])
  { assume run: "{a ..< a + n} \<subseteq> pool_free p"
    show "n \<le> unat ?m"
    proof (cases "n = 0")
      case False
      then have "0 < n" by simp
      from pool_run_in_block [OF inv this run] obtain i where i: "i < free_block_count p"
        "unat (blk_base (free_blocks p ! i)) \<le> a" "a + n \<le> blk_end (free_blocks p ! i)" .
      then have "n \<le> unat (blk_pages (free_blocks p ! i))" by (simp add: blk_end_def)
      also have "\<dots> \<le> unat ?m" using sc(1) i(1) m by (simp add: word_le_nat_alt)
      finally show ?thesis .
    qed simp }
  show "\<exists>a. {a ..< a + unat ?m} \<subseteq> pool_free p"
  proof (cases "fst (scan_largest (free_blocks p) 0 (free_block_count p) None 0)")
    case None
    then have "?m = 0" using sc(2) m by simp
    then show ?thesis by simp
  next
    case (Some k)
    then have k: "k < free_block_count p" "?m = blk_pages (free_blocks p ! k)" using sc(2) m by auto
    have "{unat (blk_base (free_blocks p ! k)) ..< unat (blk_base (free_blocks p ! k)) + unat ?m} \<subseteq> pool_free p"
      using pool_split(3) [OF inv k(1)] unfolding blk_set_def blk_end_def k(2) .
    then show ?thesis by blast
  qed
qed

lemma take_largest_aux:
  fixes p :: "'p::len word page_pool" and mn mx :: u16
  assumes inv: "pool_inv p" and mn: "mn \<noteq> 0" "mn \<le> mx"
  defines "r \<equiv> pool_take_largest p mn mx"
  defines "pid \<equiv> fst (fst r)" and "got \<equiv> snd (fst r)" and "p' \<equiv> snd r"
  shows "unat (pool_max_contig p) < unat mn \<Longrightarrow> pid = PAGE_ID_INVALID \<and> got = 0 \<and> p' = p"
    and "unat mn \<le> unat (pool_max_contig p) \<Longrightarrow> pid \<noteq> PAGE_ID_INVALID \<and> pool_inv p'
      \<and> unat got = min (unat mx) (unat (pool_max_contig p))
      \<and> {unat pid ..< unat pid + unat got} \<subseteq> pool_free p
      \<and> pool_free p' = pool_free p - {unat pid ..< unat pid + unat got}"
proof -
  obtain best s where sc0: "scan_largest (free_blocks p) 0 (free_block_count p) None 0 = (best, s)"
    by fastforce
  note sc = scan_largest_spec [of 0 "free_block_count p" "free_blocks p" 0 None, simplified, unfolded sc0, simplified]
  have m: "pool_max_contig p = s"
    by (simp add: pool_max_contig_def max_pages_from_scan [of _ _ _ _ None] sc0)
  have g: "\<not> (mn = 0 \<or> mx < mn)" using mn by auto
  { assume "unat (pool_max_contig p) < unat mn"
    then have "s < mn" by (simp add: m word_less_nat_alt)
    then show "pid = PAGE_ID_INVALID \<and> got = 0 \<and> p' = p"
      using g by (simp add: pid_def got_def p'_def r_def pool_take_largest_def sc0 split: option.split) }
  { assume le: "unat mn \<le> unat (pool_max_contig p)"
    have "0 < unat mn" using mn(1) by (simp add: unat_pos_iff)
    with le have "0 < unat s" by (simp add: m)
    then obtain k where best: "best = Some k" using sc(2) by (cases best) auto
    have k: "k < free_block_count p" "s = blk_pages (free_blocks p ! k)" using sc(2) best by auto
    define t where "t = (if mx < s then mx else s)"
    have t: "t \<noteq> 0" "t \<le> blk_pages (free_blocks p ! k)"
      using mn \<open>0 < unat s\<close> k(2) by (auto simp: t_def word_gt_0_no unat_pos_iff)
    have tu: "unat t = min (unat mx) (unat s)" by (simp add: t_def word_less_nat_alt)
    have ns: "\<not> s < mn" using le by (simp add: m word_less_nat_alt)
    have r: "pid = blk_base (free_blocks p ! k)" "got = t" "p' = (block_take_front p k t)
        \<lparr>free_page_total := free_page_total (block_take_front p k t) - ucast t\<rparr>"
      using g ns by (simp_all add: pid_def got_def p'_def r_def pool_take_largest_def sc0 best t_def
          Let_def del: de_Morgan_disj)
    note tf = take_front_correct [OF inv k(1) t]
    have "unat pid \<in> pool_free p"
      using tf(3) t(1) unfolding r by (auto simp: subset_iff unat_pos_iff [symmetric])
    then show "pid \<noteq> PAGE_ID_INVALID \<and> pool_inv p' \<and> unat got = min (unat mx) (unat (pool_max_contig p))
      \<and> {unat pid ..< unat pid + unat got} \<subseteq> pool_free p
      \<and> pool_free p' = pool_free p - {unat pid ..< unat pid + unat got}"
      using blk_free_ne_invalid [OF inv] tf tu unfolding r m by auto }
qed

lemma insert_or_merge_zero: "block_insert_or_merge p base 0 = (0, p)"
  by (simp add: block_insert_or_merge_def)

text \<open>The insertion step in the form the callers use it, empty runs included.\<close>

lemma insert_run:
  fixes p :: "'p::len word page_pool" and base :: "'p word" and n :: u16
  assumes cnt: "free_block_count p \<le> length (free_blocks p)" and ok: "blocks_ok (pool_blocks p)"
    and fit: "unat base + unat n < 2 ^ LENGTH('p)"
    and new: "{unat base ..< unat base + unat n} \<inter> pool_free p = {}"
    and room: "blocks_total (pool_blocks p) + unat n \<le> length (free_blocks p)"
    and small: "length (free_blocks p) < 2 ^ 16"
  defines "r \<equiv> block_insert_or_merge p base n"
  shows "fst r = 0" and "blocks_ok (pool_blocks (snd r))"
    and "pool_free (snd r) = pool_free p \<union> {unat base ..< unat base + unat n}"
    and "blocks_total (pool_blocks (snd r)) = blocks_total (pool_blocks p) + unat n"
    and "free_block_count (snd r) \<le> length (free_blocks p)"
    and "length (free_blocks (snd r)) = length (free_blocks p)"
    and "free_page_total (snd r) = free_page_total p"
  using insert_or_merge_correct [OF cnt ok _ fit new room small] cnt ok
  by (cases "n = 0"; simp add: r_def insert_or_merge_zero)+

lemma remove_block:
  fixes p :: "'p::len word page_pool"
  assumes inv: "pool_inv p" and idx: "idx < free_block_count p"
  defines "b \<equiv> free_blocks p ! idx" and "q \<equiv> block_remove p idx"
  shows "free_block_count q \<le> length (free_blocks q)" "blocks_ok (pool_blocks q)"
    "pool_free q = pool_free p - blk_set b"
    "blocks_total (pool_blocks q) + unat (blk_pages b) = blocks_total (pool_blocks p)"
    "length (free_blocks q) = length (free_blocks p)" "free_page_total q = free_page_total p"
proof -
  note rm = block_remove_blocks [OF pool_invD(1) [OF inv] idx, folded q_def]
  note sp = pool_split(1) [OF inv idx, folded b_def]
  have "blocks_ok (take idx (pool_blocks p) @ b # drop (Suc idx) (pool_blocks p))"
    using pool_invD(2) [OF inv] by (simp only: sp [symmetric])
  note sh = blocks_shrink [where ms = "[]", OF this, simplified]
  show "blocks_ok (pool_blocks q)" using sh(1) rm(1) by simp
  show "pool_free q = pool_free p - blk_set b"
    unfolding pool_free_def rm(1) using sh(2) arg_cong [OF sp, of blocks_free] by simp
  show "blocks_total (pool_blocks q) + unat (blk_pages b) = blocks_total (pool_blocks p)"
    unfolding rm(1) using arg_cong [OF sp, of blocks_total] by simp
qed (use block_remove_blocks [OF pool_invD(1) [OF inv] idx] pool_invD(1) [OF inv] in \<open>simp_all add: q_def\<close>)

lemma unat_sub_ucast_u16:
  fixes x y :: "'p::len word"
  assumes "unat y \<le> unat x" and "unat x - unat y < 2 ^ 16"
  shows "unat (ucast (x - y) :: u16) = unat x - unat y"
proof -
  have "unat (x - y) = unat x - unat y" using assms(1) by (simp add: unat_sub_if_size)
  with assms(2) show ?thesis by (subst unat_small_ucast) simp_all
qed

lemma pool_take_at_aux:
  fixes p :: "'p::len word page_pool" and pid :: "'p word"
  assumes inv: "pool_inv p"
  shows "unat pid \<notin> pool_free p \<Longrightarrow> pool_take_at p pid = (- 1, p)"
    and "unat pid \<in> pool_free p \<Longrightarrow> fst (pool_take_at p pid) = 0 \<and> pool_inv (snd (pool_take_at p pid))
      \<and> pool_free (snd (pool_take_at p pid)) = pool_free p - {unat pid}"
proof -
  show "unat pid \<notin> pool_free p \<Longrightarrow> pool_take_at p pid = (- 1, p)"
    using find_containing_None [OF inv, of pid] by (simp add: pool_take_at_def)
  assume "unat pid \<in> pool_free p"
  then obtain idx where f: "block_find_containing p pid = Some idx"
    using find_containing_None [OF inv, of pid] by blast
  note idx = find_containing_Some(1) [OF inv f]
  define b where "b = free_blocks p ! idx"
  have bok: "block_ok b" using pool_split(2) [OF inv idx] by (simp add: b_def)
  have pb: "unat (blk_base b) \<le> unat pid" "unat pid < blk_end b"
    using find_containing_Some(2) [OF inv f] by (simp_all add: b_def)
  define p1 where "p1 = block_remove p idx"
  note r1 = remove_block [OF inv idx, folded b_def p1_def]
  define pre :: u16 where "pre = ucast (pid - blk_base b)"
  define post :: u16 where "post = ucast (blk_base b + ucast (blk_pages b) - (pid + 1))"
  have pg: "unat (blk_pages b) < 2 ^ 16" using unat_u16_less [of "blk_pages b"] by simp
  have pre: "unat pre = unat pid - unat (blk_base b)"
    unfolding pre_def by (rule unat_sub_ucast_u16) (use pb pg block_okD(4) [OF bok] in linarith)+
  have be: "unat (blk_base b + ucast (blk_pages b)) = blk_end b"
    using unat_add_ucast block_okD(2,4) [OF bok] by metis
  have p1': "unat (pid + 1) = unat pid + 1"
    using pb(2) block_okD(2) [OF bok] by (simp add: unat_word_ariths)
  have post: "unat post = blk_end b - (unat pid + 1)"
    unfolding post_def
    by (subst unat_sub_ucast_u16) (use be p1' pb pg block_okD(4) [OF bok] in linarith)+
  define p2 where "p2 = snd (block_insert_or_merge p1 (blk_base b) pre)"
  define p3 where "p3 = snd (block_insert_or_merge p2 (pid + 1) post)"
  note lim = pool_invD(5,6) [OF inv] and sum = block_okD(4) [OF bok]
  have sub2: "{unat (blk_base b) ..< unat (blk_base b) + unat pre} \<inter> pool_free p1 = {}"
    using pre pb by (auto simp: r1(3))
  note r2 = insert_run [OF r1(1,2) _ sub2, folded p2_def]
  have r2': "blocks_ok (pool_blocks p2)" "pool_free p2 = pool_free p1 \<union> {unat (blk_base b) ..< unat pid}"
    "blocks_total (pool_blocks p2) = blocks_total (pool_blocks p1) + unat pre"
    "free_block_count p2 \<le> length (free_blocks p2)"
    "length (free_blocks p2) = length (free_blocks p)" "free_page_total p2 = free_page_total p"
    using r2 pre pb lim sum r1 block_okD(2) [OF bok] by auto
  have sub3: "{unat (pid + 1) ..< unat (pid + 1) + unat post} \<inter> pool_free p2 = {}"
    using post pb p1' by (auto simp: r1(3) r2'(2))
  note r3 = insert_run [OF r2'(4,1) _ sub3, folded p3_def]
  have r3': "blocks_ok (pool_blocks p3)" "pool_free p3 = pool_free p2 \<union> {unat pid + 1 ..< blk_end b}"
    "blocks_total (pool_blocks p3) = blocks_total (pool_blocks p2) + unat post"
    "free_block_count p3 \<le> length (free_blocks p3)"
    "length (free_blocks p3) = length (free_blocks p)" "free_page_total p3 = free_page_total p"
    using r3 pre post pb p1' lim sum r1(4,5) r2' block_okD(2) [OF bok] by auto
  have "pool_take_at p pid = (0, p3\<lparr>free_page_total := free_page_total p3 - 1\<rparr>)"
  proof -
    have "\<not> blk_base b < pid \<Longrightarrow> pre = 0"
      using pre pb(1) by (simp add: word_less_nat_alt unat_eq_0 [symmetric])
    moreover have "\<not> pid + 1 < blk_base b + ucast (blk_pages b) \<Longrightarrow> post = 0"
      using post be p1' by (simp add: word_less_nat_alt unat_eq_0 [symmetric])
    ultimately show ?thesis
      unfolding pool_take_at_def f p3_def p2_def p1_def [symmetric] Let_def option.case b_def [symmetric]
        pre_def [symmetric] post_def [symmetric]
      by (auto simp: insert_or_merge_zero p1_def)
  qed
  moreover have "pool_inv (p3\<lparr>free_page_total := free_page_total p3 - 1\<rparr>)"
  proof -
    have "blocks_total (pool_blocks p3) + 1 = blocks_total (pool_blocks p)"
      using r1(4) r2'(3) r3'(3) pre post pb sum by linarith
    moreover from this have "unat (free_page_total p - 1) = blocks_total (pool_blocks p3)"
      using pool_invD(4) [OF inv] by (subst unat_minus_one) auto
    ultimately show ?thesis using r3' lim by (simp add: pool_inv_def)
  qed
  moreover have "pool_free (p3\<lparr>free_page_total := free_page_total p3 - 1\<rparr>) = pool_free p - {unat pid}"
  proof -
    have "blk_set b \<subseteq> pool_free p" using pool_split(3) [OF inv idx] by (simp add: b_def)
    then have "pool_free p3 = pool_free p - {unat pid}"
      unfolding r3'(2) r2'(2) r1(3) using pb by (auto simp: blk_set_def subset_iff)
    then show ?thesis by (simp add: pool_free_def)
  qed
  ultimately show "fst (pool_take_at p pid) = 0 \<and> pool_inv (snd (pool_take_at p pid))
      \<and> pool_free (snd (pool_take_at p pid)) = pool_free p - {unat pid}" by simp
qed

subsection \<open>The contract of the pool\<close>

locale page_store =
  fixes inv :: "'s \<Rightarrow> bool" and free :: "'s \<Rightarrow> nat set" and cap :: "'s \<Rightarrow> nat"
    and take_n :: "'s \<Rightarrow> u16 \<Rightarrow> 'p::len word \<times> 's"
    and take_at :: "'s \<Rightarrow> 'p word \<Rightarrow> int \<times> 's"
    and release :: "'s \<Rightarrow> 'p word \<Rightarrow> u16 \<Rightarrow> int \<times> 's"
  assumes free_finite: "inv s \<Longrightarrow> finite (free s)"
    and free_bound: "inv s \<Longrightarrow> x \<in> free s \<Longrightarrow> x + 1 < 2 ^ LENGTH('p)"
    and free_cap: "inv s \<Longrightarrow> card (free s) \<le> cap s"
    and take_n_cap: "cap (snd (take_n s n)) = cap s"
    and take_n_oom: "inv s \<Longrightarrow> n \<noteq> 0 \<Longrightarrow> fst (take_n s n) = PAGE_ID_INVALID \<Longrightarrow>
      snd (take_n s n) = s \<and> (\<forall>a. \<not> {a ..< a + unat n} \<subseteq> free s)"
    and take_n_ok: "inv s \<Longrightarrow> n \<noteq> 0 \<Longrightarrow> fst (take_n s n) \<noteq> PAGE_ID_INVALID \<Longrightarrow>
      inv (snd (take_n s n)) \<and>
      {unat (fst (take_n s n)) ..< unat (fst (take_n s n)) + unat n} \<subseteq> free s \<and>
      free (snd (take_n s n)) = free s - {unat (fst (take_n s n)) ..< unat (fst (take_n s n)) + unat n}"
    and take_at_cap: "cap (snd (take_at s pid)) = cap s"
    and take_at_free: "inv s \<Longrightarrow> unat pid \<in> free s \<Longrightarrow>
      fst (take_at s pid) = 0 \<and> inv (snd (take_at s pid)) \<and> free (snd (take_at s pid)) = free s - {unat pid}"
    and take_at_used: "inv s \<Longrightarrow> unat pid \<notin> free s \<Longrightarrow> take_at s pid = (- 1, s)"
    and release_cap: "cap (snd (release s pid n)) = cap s"
    and release_ok: "inv s \<Longrightarrow> unat pid + unat n < 2 ^ LENGTH('p) \<Longrightarrow>
      {unat pid ..< unat pid + unat n} \<inter> free s = {} \<Longrightarrow> card (free s) + unat n \<le> cap s \<Longrightarrow>
      fst (release s pid n) = 0 \<and> inv (snd (release s pid n)) \<and>
      free (snd (release s pid n)) = free s \<union> {unat pid ..< unat pid + unat n}"
begin

lemma run_bound:
  assumes "inv s" and "0 < m" and "{a ..< a + m} \<subseteq> free s"
  shows "a + m < 2 ^ LENGTH('p)"
  using free_bound [OF assms(1), of "a + m - 1"] assms(2,3) by (auto simp: subset_iff)

lemma take_release:
  assumes inv: "inv s" and n: "n \<noteq> 0" and ok: "fst (take_n s n) \<noteq> PAGE_ID_INVALID"
  defines "r \<equiv> release (snd (take_n s n)) (fst (take_n s n)) n"
  shows "fst r = 0 \<and> inv (snd r) \<and> free (snd r) = free s"
proof -
  let ?run = "{unat (fst (take_n s n)) ..< unat (fst (take_n s n)) + unat n}"
  note t = take_n_ok [OF inv n ok]
  have card: "card (free (snd (take_n s n))) + unat n = card (free s)"
    using t card_mono [OF free_finite [OF inv], of ?run] by (simp add: card_Diff_subset)
  have "fst r = 0 \<and> inv (snd r) \<and> free (snd r) = free (snd (take_n s n)) \<union> ?run"
    unfolding r_def
    by (rule release_ok)
      (use t card free_cap [OF inv] take_n_cap [of s n] run_bound [OF inv _ conjunct1 [OF conjunct2 [OF t]]] n
        in \<open>auto simp: unat_pos_iff\<close>)
  with t show ?thesis by auto
qed

lemma take_at_release:
  assumes inv: "inv s" and pid: "unat pid \<in> free s"
  defines "r \<equiv> release (snd (take_at s pid)) pid 1"
  shows "fst r = 0 \<and> inv (snd r) \<and> free (snd r) = free s"
proof -
  note t = take_at_free [OF inv pid]
  have card: "card (free (snd (take_at s pid))) + 1 = card (free s)"
    using t card.remove [OF free_finite [OF inv] pid] by simp
  have "fst r = 0 \<and> inv (snd r) \<and> free (snd r) = free (snd (take_at s pid)) \<union> {unat pid ..< unat pid + unat (1 :: u16)}"
    unfolding r_def
    by (rule release_ok) (use t card free_cap [OF inv] free_bound [OF inv pid] take_at_cap [of s pid] in auto)
  with t pid show ?thesis by auto
qed

lemma take_twice_disjoint:
  assumes inv: "inv s" and m: "m \<noteq> 0" and n: "n \<noteq> 0"
    and a: "fst (take_n s m) \<noteq> PAGE_ID_INVALID"
    and b: "fst (take_n (snd (take_n s m)) n) \<noteq> PAGE_ID_INVALID"
  shows "{unat (fst (take_n s m)) ..< unat (fst (take_n s m)) + unat m} \<inter>
    {unat (fst (take_n (snd (take_n s m)) n)) ..< unat (fst (take_n (snd (take_n s m)) n)) + unat n} = {}"
proof -
  note t1 = take_n_ok [OF inv m a]
  note t2 = take_n_ok [OF conjunct1 [OF t1] n b]
  from t1 t2 show ?thesis by blast
qed

end

lemma pool_length:
  "length (free_blocks (block_remove p i)) = length (free_blocks p)"
  "length (free_blocks (snd (block_insert_at p i b n))) = length (free_blocks p)"
  "length (free_blocks (block_take_front p i n)) = length (free_blocks p)"
  "length (free_blocks (snd (block_take_back_one p i))) = length (free_blocks p)"
  by (simp_all add: block_remove_def block_insert_at_def block_take_front_def block_take_back_one_def Let_def)

lemma merge_length:
  "length (free_blocks (snd (block_insert_or_merge p base n))) = length (free_blocks p)"
  by (auto simp: block_insert_or_merge_def Let_def pool_length)

lemma pool_op_length:
  "length (free_blocks (snd (pool_take_n p n))) = length (free_blocks p)"
  "length (free_blocks (snd (pool_take_at p pid))) = length (free_blocks p)"
  "length (free_blocks (snd (pool_release p pid n))) = length (free_blocks p)"
  by (auto simp: pool_take_n_def pool_take_at_def pool_release_def Let_def split_beta pool_length merge_length
      split: option.splits)

lemma pool_free_bound:
  fixes p :: "'p::len word page_pool"
  assumes "pool_inv p" and "x \<in> pool_free p"
  shows "x + 1 < 2 ^ LENGTH('p)"
proof -
  obtain b where "b \<in> set (pool_blocks p)" "x \<in> blk_set b"
    using assms(2) by (auto simp: pool_free_def blocks_free_def)
  then show ?thesis using pool_invD(2) [OF assms(1)] block_okD(2) [of b] by (auto simp: blocks_ok_def)
qed

lemma card_pool_free: "pool_inv p \<Longrightarrow> card (pool_free p) = blocks_total (pool_blocks p)"
  by (simp add: pool_free_def card_blocks_free pool_invD(2))

lemma pool_release_aux:
  fixes p :: "'p::len word page_pool" and pid :: "'p word" and n :: u16
  assumes inv: "pool_inv p" and fit: "unat pid + unat n < 2 ^ LENGTH('p)"
    and new: "{unat pid ..< unat pid + unat n} \<inter> pool_free p = {}"
    and room: "card (pool_free p) + unat n \<le> length (free_blocks p)"
  defines "r \<equiv> pool_release p pid n"
  shows "fst r = 0 \<and> pool_inv (snd r) \<and> pool_free (snd r) = pool_free p \<union> {unat pid ..< unat pid + unat n}"
proof (cases "n = 0")
  case True
  then show ?thesis using inv by (simp add: r_def pool_release_def)
next
  case False
  define q where "q = snd (block_insert_or_merge p pid n)"
  have room': "blocks_total (pool_blocks p) + unat n \<le> length (free_blocks p)"
    using room card_pool_free [OF inv] by simp
  note ir = insert_run [OF pool_invD(1,2) [OF inv] fit new room' pool_invD(6) [OF inv], folded q_def]
  have r: "r = (0, q\<lparr>free_page_total := free_page_total p + ucast n\<rparr>)"
    using ir(1,7) False by (simp add: r_def pool_release_def q_def split_beta Let_def)
  have "unat (free_page_total p + ucast n) = blocks_total (pool_blocks q)"
    using pool_invD(4,6) [OF inv] room' ir(4) by (simp add: unat_word_ariths)
  then have "pool_inv (snd r)" using ir room' pool_invD(6) [OF inv] by (simp add: r pool_inv_def)
  then show ?thesis using ir(3) by (simp add: r pool_free_def)
qed

interpretation pool: page_store pool_inv pool_free "\<lambda>p. length (free_blocks p)" pool_take_n pool_take_at pool_release
proof unfold_locales
  fix s :: "'p::len word page_pool" and n :: u16
  assume "pool_inv s" "n \<noteq> 0" "fst (pool_take_n s n) \<noteq> PAGE_ID_INVALID"
  then show "pool_inv (snd (pool_take_n s n)) \<and>
      {unat (fst (pool_take_n s n)) ..< unat (fst (pool_take_n s n)) + unat n} \<subseteq> pool_free s \<and>
      pool_free (snd (pool_take_n s n)) =
        pool_free s - {unat (fst (pool_take_n s n)) ..< unat (fst (pool_take_n s n)) + unat n}"
    using pool_take_n_aux(2) [of s n] by simp
qed (simp_all add: pool_op_length pool_free_bound [simplified] card_pool_free pool_invD(5) pool_take_n_aux(1)
    pool_take_at_aux pool_release_aux)

subsection \<open>Properties of the pool operations\<close>

text \<open>C4: \<^verbatim>\<open>pool_take_n\<close> allocates exactly the pages it returns. It fails only when there is no
  run of n free pages, and changes nothing then; otherwise the n pages from the returned id on were
  free, they and nothing else leave the free set, and the choice is the documented one: the highest free
  page for a single page, the lowest run that fits for several.\<close>

theorem pool_take_n_correct:
  fixes p :: "'p::len word page_pool" and n :: u16
  assumes "pool_inv p" and "n \<noteq> 0"
  defines "pid \<equiv> fst (pool_take_n p n)" and "p' \<equiv> snd (pool_take_n p n)"
  shows "if \<exists>a. {a ..< a + unat n} \<subseteq> pool_free p then
      pid \<noteq> PAGE_ID_INVALID \<and> pool_inv p' \<and> {unat pid ..< unat pid + unat n} \<subseteq> pool_free p
      \<and> pool_free p' = pool_free p - {unat pid ..< unat pid + unat n}
      \<and> (if n = 1 then unat pid = Max (pool_free p)
         else \<forall>a. {a ..< a + unat n} \<subseteq> pool_free p \<longrightarrow> unat pid \<le> a)
    else pid = PAGE_ID_INVALID \<and> p' = p"
proof (cases "pid = PAGE_ID_INVALID")
  case True
  with pool_take_n_aux(1) [OF assms(1,2)] show ?thesis unfolding pid_def p'_def by simp
next
  case False
  with pool_take_n_aux(2) [OF assms(1,2)] show ?thesis unfolding pid_def p'_def by auto
qed

lemma replicate_8: "replicate 8 x = x # x # replicate 6 x"
  by (simp add: numeral_eq_Suc)

lemma demo_pool_eq:
  "demo_pool = \<lparr>free_blocks = \<lparr>blk_base = 16, blk_pages = 4\<rparr> # \<lparr>blk_base = 32, blk_pages = 1\<rparr> #
     replicate 6 \<lparr>blk_base = 0, blk_pages = 0\<rparr>, free_block_count = 2, free_page_total = 5\<rparr>"
  by (simp add: demo_pool_def pool_add_def pool_reset_def replicate_8)

lemma demo_pool_blocks:
  "pool_blocks demo_pool = [\<lparr>blk_base = 16, blk_pages = 4\<rparr>, \<lparr>blk_base = 32, blk_pages = 1\<rparr>]"
  by (simp add: demo_pool_eq pool_blocks_def)

lemma demo_pool_inv: "pool_inv demo_pool"
  unfolding pool_inv_def demo_pool_blocks
  by (simp add: blocks_ok_Cons block_ok_def blk_end_def blk_before_def) (simp add: demo_pool_eq)

lemma demo_pool_free: "pool_free demo_pool = {16, 17, 18, 19, 32}"
  unfolding pool_free_def demo_pool_blocks by (auto simp: blk_end_def)

theorem pool_take_n_correct_witness:
  "pool_inv demo_pool \<and> (2 :: u16) \<noteq> 0 \<and> pool_free (snd (pool_take_n demo_pool 2)) = {18, 19, 32}"
proof -
  have t: "fst (pool_take_n demo_pool 2) = 16"
    by (simp add: pool_take_n_def demo_pool_eq block_find_first_fit_def find_index.simps Let_def)
  have run: "{16 ..< 16 + unat (2 :: u16)} \<subseteq> pool_free demo_pool" by (auto simp: demo_pool_free)
  have e: "{16 ..< 16 + unat (2 :: u16)} = {16, 17}" by auto
  have "\<exists>a. {a ..< a + unat (2 :: u16)} \<subseteq> pool_free demo_pool" using run by blast
  then have "pool_free (snd (pool_take_n demo_pool 2)) = pool_free demo_pool - {16 ..< 16 + unat (2 :: u16)}"
    using pool_take_n_correct [OF demo_pool_inv, of 2] t by auto
  then show ?thesis using demo_pool_inv unfolding e by (simp add: demo_pool_free)
qed

text \<open>\<^verbatim>\<open>pool_take_at\<close> takes one given page exactly when it is free: then it returns 0 and
  the page and no other leaves the free set, whether the page is at the front, at the back or in the
  middle of its block; otherwise it returns -1 and the pool is unchanged.\<close>

theorem pool_take_at_correct:
  fixes p :: "'p::len word page_pool" and pid :: "'p word"
  assumes "pool_inv p"
  shows "if unat pid \<in> pool_free p
    then fst (pool_take_at p pid) = 0 \<and> pool_inv (snd (pool_take_at p pid))
      \<and> pool_free (snd (pool_take_at p pid)) = pool_free p - {unat pid}
    else pool_take_at p pid = (- 1, p)"
  using pool_take_at_aux [OF assms] by auto

theorem pool_take_at_correct_witness:
  "pool_inv demo_pool \<and> pool_free (snd (pool_take_at demo_pool 17)) = {16, 18, 19, 32} \<and>
   pool_take_at demo_pool 20 = (- 1, demo_pool)"
  using pool_take_at_correct [OF demo_pool_inv, of 17] pool_take_at_correct [OF demo_pool_inv, of 20]
    demo_pool_inv
  by (simp add: demo_pool_free insert_Diff_if)

text \<open>C5: releasing pages that are not free never fails and never loses a page. As long as the pool
  holds no more pages than its table has slots, \<^verbatim>\<open>pool_release\<close> returns 0, adds exactly the released
  run, merged with its neighbours so that the sorted, gapped block list is kept, and updates the total;
  the table of \<^verbatim>\<open>FREE_BLOCKS_MAX\<close> entries is never too small for the most fragmented pool.\<close>

theorem pool_release_correct:
  fixes p :: "'p::len word page_pool" and base :: "'p word" and n :: u16
  assumes "pool_inv p" and "unat base + unat n < 2 ^ LENGTH('p)"
    and "{unat base ..< unat base + unat n} \<inter> pool_free p = {}"
    and "card (pool_free p) + unat n \<le> length (free_blocks p)"
  shows "fst (pool_release p base n) = 0 \<and> pool_inv (snd (pool_release p base n))
    \<and> pool_free (snd (pool_release p base n)) = pool_free p \<union> {unat base ..< unat base + unat n}
    \<and> unat (pool_free_total (snd (pool_release p base n))) = card (pool_free p) + unat n"
proof -
  note r = pool_release_aux [OF assms]
  then have inv': "pool_inv (snd (pool_release p base n))" by simp
  have "unat (free_page_total (snd (pool_release p base n))) = card (pool_free (snd (pool_release p base n)))"
    unfolding card_pool_free [OF inv'] by (rule pool_invD(4) [OF inv'])
  also have "\<dots> = card (pool_free p) + unat n"
    using r assms(3) by (simp add: card_Un_disjoint Int_commute)
  finally show ?thesis using r by (simp add: pool_free_total_def)
qed

theorem pool_release_correct_witness:
  "pool_inv demo_pool \<and> pool_free (snd (pool_release demo_pool 20 3)) = {16, 17, 18, 19, 20, 21, 22, 32} \<and>
   fst (pool_release demo_pool 20 3) = 0"
proof -
  have "{unat (20 :: 16 word) ..< unat (20 :: 16 word) + unat (3 :: u16)} \<inter> pool_free demo_pool = {}"
    by (auto simp: demo_pool_free)
  moreover have "card (pool_free demo_pool) + unat (3 :: u16) \<le> length (free_blocks demo_pool)"
    by (simp add: demo_pool_free) (simp add: demo_pool_eq)
  ultimately have "fst (pool_release demo_pool 20 3) = 0 \<and>
      pool_free (snd (pool_release demo_pool 20 3)) = pool_free demo_pool \<union> {20 ..< 23}"
    using pool_release_correct [OF demo_pool_inv, of 20 3] by simp
  moreover have "{20 ..< 23 :: nat} = {20, 21, 22}" by auto
  ultimately show ?thesis using demo_pool_inv by (simp add: demo_pool_free insert_commute)
qed

text \<open>\<^verbatim>\<open>pool_take_largest\<close> succeeds exactly when the longest free run has the minimum
  length; it then hands out a run as long as the longest one, cut to the maximum asked for, and removes
  these pages and nothing else. The length it compares with is the one \<^verbatim>\<open>pool_max_contig\<close> reports,
  which is the length of a longest free run.\<close>

theorem pool_take_largest_correct:
  fixes p :: "'p::len word page_pool" and min_pages max_pages :: u16
  assumes "pool_inv p" and "min_pages \<noteq> 0" and "min_pages \<le> max_pages"
  defines "r \<equiv> pool_take_largest p min_pages max_pages"
  defines "pid \<equiv> fst (fst r)" and "got \<equiv> snd (fst r)" and "p' \<equiv> snd r"
  shows "(\<exists>a. {a ..< a + unat (pool_max_contig p)} \<subseteq> pool_free p)
    \<and> (\<forall>a n. {a ..< a + n} \<subseteq> pool_free p \<longrightarrow> n \<le> unat (pool_max_contig p))
    \<and> (if unat (pool_max_contig p) < unat min_pages then pid = PAGE_ID_INVALID \<and> got = 0 \<and> p' = p
       else pid \<noteq> PAGE_ID_INVALID \<and> pool_inv p' \<and> unat got = min (unat max_pages) (unat (pool_max_contig p))
         \<and> {unat pid ..< unat pid + unat got} \<subseteq> pool_free p
         \<and> pool_free p' = pool_free p - {unat pid ..< unat pid + unat got})"
proof (cases "unat (pool_max_contig p) < unat min_pages")
  case True
  then show ?thesis
    using take_largest_aux(1) [OF assms(1-3)] max_contig_run [OF assms(1)]
    unfolding pid_def got_def p'_def r_def by simp
next
  case False
  then have "unat min_pages \<le> unat (pool_max_contig p)" by simp
  note t = take_largest_aux(2) [OF assms(1-3) this]
  show ?thesis
    unfolding if_not_P [OF False] pid_def got_def p'_def r_def
    using max_contig_run [OF assms(1)] t by blast
qed

theorem pool_take_largest_correct_witness:
  "pool_inv demo_pool \<and> unat (snd (fst (pool_take_largest demo_pool 2 3))) = 3"
proof -
  have m: "pool_max_contig demo_pool = 4"
    by (simp add: pool_max_contig_def demo_pool_eq max_pages_from.simps)
  show ?thesis using pool_take_largest_correct [OF demo_pool_inv, of 2 3] demo_pool_inv by (simp add: m)
qed

text \<open>Allocation and release are inverse: releasing the run that \<^verbatim>\<open>pool_take_n\<close> returned
  always succeeds and gives back the free set of before the allocation, and of two successive
  allocations the second never overlaps the first.\<close>

theorem pool_alloc_release_roundtrip:
  fixes p :: "'p::len word page_pool" and m n :: u16
  assumes "pool_inv p" and "n \<noteq> 0" and "fst (pool_take_n p n) \<noteq> PAGE_ID_INVALID"
  defines "r \<equiv> pool_release (snd (pool_take_n p n)) (fst (pool_take_n p n)) n"
    and "b \<equiv> fst (pool_take_n (snd (pool_take_n p n)) m)"
  shows "fst r = 0 \<and> pool_inv (snd r) \<and> pool_free (snd r) = pool_free p
    \<and> (m \<noteq> 0 \<and> b \<noteq> PAGE_ID_INVALID \<longrightarrow>
        {unat (fst (pool_take_n p n)) ..< unat (fst (pool_take_n p n)) + unat n}
          \<inter> {unat b ..< unat b + unat m} = {})"
  using pool.take_release [OF assms(1-3)] pool.take_twice_disjoint [OF assms(1,2) _ assms(3), of m]
  unfolding r_def b_def by blast

theorem pool_alloc_release_roundtrip_witness:
  "pool_inv demo_pool \<and> fst (pool_take_n demo_pool 3) = 16 \<and>
   pool_free (snd (pool_release (snd (pool_take_n demo_pool 3)) 16 3)) = {16, 17, 18, 19, 32}"
proof -
  have t: "fst (pool_take_n demo_pool 3) = 16"
    by (simp add: pool_take_n_def demo_pool_eq block_find_first_fit_def find_index.simps Let_def)
  have ne: "(16 :: 16 word) \<noteq> PAGE_ID_INVALID" by (simp add: PAGE_ID_INVALID_def)
  show ?thesis using pool_alloc_release_roundtrip [OF demo_pool_inv, of 3] t ne demo_pool_inv
    by (simp add: demo_pool_free)
qed

end
