(* ===== verification/Page.thy ===== *)
theory Page
  imports Page_Pool
begin

text \<open>
  The physical page allocator, \<^verbatim>\<open>src/kernel/core/mm/page.c\<close>, on top of the pool: the boot-time
  inventory of \<^verbatim>\<open>mm_init\<close>, single, contiguous, largest and placed allocation, the checked
  \<^verbatim>\<open>page_free\<close> and the address conversions. The file-scope variables are one record. Every
  entry point runs under \<^verbatim>\<open>SPIN_PAGE\<close> from its first pool access to its last, so each is one
  atomic step of the model; the kernel log lines, the optional trace and the boot banner have no state
  and are left out. Addresses are 32-bit, as \<^verbatim>\<open>s_pool_base\<close> is.
\<close>

subsection \<open>State and address conversions\<close>

record 'w page_mm =
  mm_pool :: "'w page_pool"
  page_count :: u32
  oom_count :: u32
  s_pool_base :: u32

abbreviation PAGE_SIZE :: u32 where "PAGE_SIZE \<equiv> 4096"

definition page_id_linear :: "'p::len word \<Rightarrow> u32" where
  "page_id_linear pid = ucast pid * PAGE_SIZE"

definition linear_page_id :: "u32 \<Rightarrow> 'p::len word" where
  "linear_page_id addr = ucast (addr div PAGE_SIZE)"

definition page_pool_base :: "'p::len word page_mm \<Rightarrow> u32" where
  "page_pool_base s = s_pool_base s"

definition pool_base_page_id :: "'p::len word page_mm \<Rightarrow> 'p word" where
  "pool_base_page_id s = linear_page_id (page_pool_base s)"

definition pool_page_id_to_index :: "'p::len word page_mm \<Rightarrow> 'p word \<Rightarrow> u32 option" where
  "pool_page_id_to_index s pid =
     (let base = pool_base_page_id s in
      if pid < base then None
      else let rel = ucast (pid - base) in
        if page_count s \<le> rel then None else Some rel)"

definition page_linear :: "'p::len word \<Rightarrow> u32" where
  "page_linear pid = (if pid = PAGE_ID_INVALID then 0 else page_id_linear pid)"

definition page_from_ptr :: "u32 \<Rightarrow> 'p::len word" where
  "page_from_ptr addr = (if addr = 0 then PAGE_ID_INVALID else linear_page_id addr)"

subsection \<open>Boot-time inventory\<close>

text \<open>The loop of \<^verbatim>\<open>mm_init\<close> over the pool pages: pages below the end of the kernel stack are
  skipped, and a run in progress is added when it is interrupted or the pages end.\<close>

function mm_init_loop ::
  "'p::len word page_pool \<Rightarrow> u32 \<Rightarrow> nat \<Rightarrow> u32 \<Rightarrow> nat \<Rightarrow> 'p word \<Rightarrow> u16 \<Rightarrow> 'p word page_pool" where
  "mm_init_loop p pool_base count stack_page_top i run_base run_len =
     (if i < count then
        let paddr = pool_base + of_nat i * PAGE_SIZE;
            skipped = paddr < stack_page_top
        in if \<not> skipped then
             mm_init_loop p pool_base count stack_page_top (i + 1)
               (if run_len = 0 then linear_page_id paddr else run_base) (run_len + 1)
           else if 0 < run_len then
             mm_init_loop (snd (pool_add p run_base run_len)) pool_base count stack_page_top (i + 1) run_base 0
           else mm_init_loop p pool_base count stack_page_top (i + 1) run_base run_len
      else if 0 < run_len then snd (pool_add p run_base run_len) else p)"
  by auto
termination by (relation "measure (\<lambda>(p, pb, count, st, i, rb, rl). count - i)") auto

declare mm_init_loop.simps [simp del]

text \<open>\<^verbatim>\<open>mem_helper_init_pool\<close> may change the page count and the pool base or fail, which
  panics; the default of \<^verbatim>\<open>mem_helper.c\<close> keeps both.\<close>

definition mem_helper_init_pool :: "u32 \<times> u32 \<Rightarrow> (u32 \<times> u32) option" where
  "mem_helper_init_pool cb = Some cb"

definition mm_init ::
  "(u32 \<times> u32 \<Rightarrow> (u32 \<times> u32) option) \<Rightarrow> u32 \<Rightarrow> u32 \<Rightarrow> u32 \<Rightarrow> 'p::len word page_mm \<Rightarrow> 'p word page_mm option" where
  "mm_init init_pool page_count_max base0 stack_top s =
     (case init_pool (page_count_max, base0) of
        None \<Rightarrow> None
      | Some (count, base) \<Rightarrow>
          let stack_page_top = (stack_top + PAGE_SIZE - 1) AND NOT (PAGE_SIZE - 1);
              p = mm_init_loop (pool_reset (mm_pool s)) base (unat count) stack_page_top 0 0 0
          in Some (s\<lparr>mm_pool := p, page_count := count, s_pool_base := base\<rparr>))"

subsection \<open>Allocation\<close>

definition page_alloc :: "'p::len word page_mm \<Rightarrow> 'p word \<times> 'p word page_mm" where
  "page_alloc s =
     (let (pid, p) = pool_take_n (mm_pool s) 1;
          s = s\<lparr>mm_pool := p\<rparr>
      in (pid, if pid = PAGE_ID_INVALID then s\<lparr>oom_count := oom_count s + 1\<rparr> else s))"

definition page_alloc_n :: "'p::len word page_mm \<Rightarrow> u32 \<Rightarrow> 'p word \<times> 'p word page_mm" where
  "page_alloc_n s n_pages =
     (if n_pages = 0 \<or> 0xFFFF < n_pages then (PAGE_ID_INVALID, s)
      else let (pid, p) = pool_take_n (mm_pool s) (ucast n_pages) in (pid, s\<lparr>mm_pool := p\<rparr>))"

definition page_alloc_largest ::
  "'p::len word page_mm \<Rightarrow> u32 \<Rightarrow> u32 \<Rightarrow> ('p word \<times> u32) \<times> 'p word page_mm" where
  "page_alloc_largest s min_pages max_pages =
     (if min_pages = 0 \<or> max_pages < min_pages \<or> 0xFFFF < min_pages then ((PAGE_ID_INVALID, 0), s)
      else
        let max_pages = (if 0xFFFF < max_pages then 0xFFFF else max_pages);
            ((base, got), p) = pool_take_largest (mm_pool s) (ucast min_pages) (ucast max_pages)
        in ((base, ucast got), s\<lparr>mm_pool := p\<rparr>))"

definition page_alloc_at :: "'p::len word page_mm \<Rightarrow> 'p word \<Rightarrow> int \<times> 'p word page_mm" where
  "page_alloc_at s pid =
     (if pid = PAGE_ID_INVALID then (- 1, s)
      else let (rc, p) = pool_take_at (mm_pool s) pid in (rc, s\<lparr>mm_pool := p\<rparr>))"

definition page_free :: "'p::len word page_mm \<Rightarrow> 'p word \<Rightarrow> 'p word page_mm" where
  "page_free s pid =
     (if pid = PAGE_ID_INVALID \<or> pool_page_id_to_index s pid = None then s
      else if pool_is_free (mm_pool s) pid then s
      else s\<lparr>mm_pool := snd (pool_release (mm_pool s) pid 1)\<rparr>)"

definition page_free_count :: "'p::len word page_mm \<Rightarrow> u32" where
  "page_free_count s = pool_free_total (mm_pool s)"

definition page_max_contiguous :: "'p::len word page_mm \<Rightarrow> u32" where
  "page_max_contiguous s = ucast (pool_max_contig (mm_pool s))"

subsection \<open>What the allocator means\<close>

text \<open>The free frames, the arena of frames that belong to the pool, and the invariant: free frames
  are frames of the arena, the table has a slot for every frame of the arena, and no id of the arena is
  the invalid one.\<close>

definition page_frames :: "'p::len word page_mm \<Rightarrow> nat set" where
  "page_frames s = pool_free (mm_pool s)"

definition page_arena :: "'p::len word page_mm \<Rightarrow> nat set" where
  "page_arena s = {unat (pool_base_page_id s) ..< unat (pool_base_page_id s) + unat (page_count s)}"

definition page_inv :: "'p::len word page_mm \<Rightarrow> bool" where
  "page_inv s \<longleftrightarrow> pool_inv (mm_pool s) \<and> page_frames s \<subseteq> page_arena s
     \<and> unat (page_count s) \<le> length (free_blocks (mm_pool s))
     \<and> unat (pool_base_page_id s) + unat (page_count s) < 2 ^ LENGTH('p) \<and> LENGTH('p) \<le> 32"

text \<open>An arena of pages 16 to 23 of which 19 to 23 are free, used by the witnesses.\<close>

definition demo_mm :: "16 word page_mm" where
  "demo_mm = \<lparr>mm_pool = \<lparr>free_blocks = \<lparr>blk_base = 19, blk_pages = 5\<rparr> # replicate 7 \<lparr>blk_base = 0, blk_pages = 0\<rparr>,
       free_block_count = 1, free_page_total = 5\<rparr>,
     page_count = 8, oom_count = 0, s_pool_base = 0x10000\<rparr>"

subsection \<open>Address conversions\<close>

lemma page_index_iff:
  fixes s :: "'p::len word page_mm" and pid :: "'p word"
  assumes "page_inv s"
  shows "pool_page_id_to_index s pid \<noteq> None \<longleftrightarrow> unat pid \<in> page_arena s"
proof (cases "pid < pool_base_page_id s")
  case False
  then have le: "unat (pool_base_page_id s) \<le> unat pid" by (simp add: word_less_nat_alt)
  then have "unat (pid - pool_base_page_id s) = unat pid - unat (pool_base_page_id s)"
    by (simp add: unat_sub_if_size)
  moreover have "unat (ucast (pid - pool_base_page_id s) :: u32) = unat (pid - pool_base_page_id s)"
  proof (rule unat_small_ucast)
    have "unat (pid - pool_base_page_id s) < 2 ^ LENGTH('p)" by (rule unsigned_less)
    also have "\<dots> \<le> 2 ^ 32" using assms by (intro power_increasing) (simp_all add: page_inv_def)
    finally show "unat (pid - pool_base_page_id s) < 2 ^ LENGTH(32)" by simp
  qed
  ultimately show ?thesis using False le
    by (auto simp: pool_page_id_to_index_def Let_def page_arena_def word_le_nat_alt)
qed (auto simp: pool_page_id_to_index_def Let_def page_arena_def word_less_nat_alt)

lemma pool_is_free_iff: "pool_inv p \<Longrightarrow> pool_is_free p pid \<longleftrightarrow> unat pid \<in> pool_free p"
  using find_containing_None [of p pid] by (auto simp: pool_is_free_def)

lemma page_frames_upd [simp]: "page_frames (s\<lparr>mm_pool := p\<rparr>) = pool_free p"
  by (simp add: page_frames_def)

lemma page_arena_upd [simp]:
  "page_arena (s\<lparr>mm_pool := p\<rparr>) = page_arena s" "page_arena (s\<lparr>oom_count := c\<rparr>) = page_arena s"
  by (simp_all add: page_arena_def pool_base_page_id_def page_pool_base_def)

lemma page_inv_upd:
  "page_inv s \<Longrightarrow> pool_inv p \<Longrightarrow> pool_free p \<subseteq> page_arena s \<Longrightarrow>
   length (free_blocks p) = length (free_blocks (mm_pool s)) \<Longrightarrow> page_inv (s\<lparr>mm_pool := p\<rparr>)"
  by (simp add: page_inv_def pool_base_page_id_def page_pool_base_def)

lemma page_inv_oom [simp]: "page_inv (s\<lparr>oom_count := c\<rparr>) = page_inv s"
  by (simp add: page_inv_def page_frames_def pool_base_page_id_def page_pool_base_def)

lemma page_frames_oom [simp]: "page_frames (s\<lparr>oom_count := c\<rparr>) = page_frames s"
  by (simp add: page_frames_def)

lemma page_invD:
  fixes s :: "'p::len word page_mm"
  assumes "page_inv s"
  shows "pool_inv (mm_pool s)" "page_frames s \<subseteq> page_arena s"
    "unat (page_count s) \<le> length (free_blocks (mm_pool s))"
    "x \<in> page_arena s \<Longrightarrow> x + 1 < 2 ^ LENGTH('p)"
  using assms by (auto simp: page_inv_def page_arena_def)

lemma page_free_frames:
  fixes s :: "'p::len word page_mm" and pid :: "'p word"
  assumes inv: "page_inv s"
  shows "page_inv (page_free s pid)" and "page_arena (page_free s pid) = page_arena s"
    and "page_frames (page_free s pid) = page_frames s \<union> ({unat pid} \<inter> page_arena s)"
proof -
  let ?p = "mm_pool s"
  have "page_inv (page_free s pid) \<and> page_arena (page_free s pid) = page_arena s \<and>
    page_frames (page_free s pid) = page_frames s \<union> ({unat pid} \<inter> page_arena s)"
  proof (cases "unat pid \<in> page_arena s")
    case False
    then have "page_free s pid = s" using page_index_iff [OF inv, of pid] by (simp add: page_free_def)
    with inv False show ?thesis by auto
  next
    case arena: True
    have ne: "pid \<noteq> PAGE_ID_INVALID"
      using page_invD(4) [OF inv arena]
      by (auto simp: PAGE_ID_INVALID_def unsigned_minus_1_eq_mask mask_eq_exp_minus_1)
    show ?thesis
    proof (cases "unat pid \<in> pool_free ?p")
      case True
      then have "page_free s pid = s" by (simp add: page_free_def pool_is_free_iff [OF page_invD(1) [OF inv]])
      with inv True show ?thesis by (auto simp: page_frames_def)
    next
      case False
      let ?q = "snd (pool_release ?p pid 1)"
      have eq: "page_free s pid = s\<lparr>mm_pool := ?q\<rparr>"
        using ne arena page_index_iff [OF inv, of pid] False
        by (auto simp: page_free_def pool_is_free_iff [OF page_invD(1) [OF inv]])
      have "card (insert (unat pid) (pool_free ?p)) \<le> card (page_arena s)"
        by (rule card_mono) (use arena page_invD(2) [OF inv] in \<open>auto simp: page_frames_def page_arena_def\<close>)
      then have "card (pool_free ?p) + 1 \<le> length (free_blocks ?p)"
        using False page_invD(3) [OF inv] by (simp add: page_arena_def)
      then have "pool_inv ?q \<and> pool_free ?q = pool_free ?p \<union> {unat pid}"
        using pool.release_ok [OF page_invD(1) [OF inv], of pid 1] page_invD(4) [OF inv arena] False
        by simp
      then show ?thesis
        unfolding eq using inv arena page_invD(2) [OF inv]
        by (auto simp: pool_op_length page_frames_def intro!: page_inv_upd)
    qed
  qed
  then show "page_inv (page_free s pid)" "page_arena (page_free s pid) = page_arena s"
    "page_frames (page_free s pid) = page_frames s \<union> ({unat pid} \<inter> page_arena s)" by auto
qed

lemma page_alloc_at_frames:
  fixes s :: "'p::len word page_mm" and pid :: "'p word"
  assumes inv: "page_inv s"
  shows "unat pid \<in> page_frames s \<Longrightarrow> fst (page_alloc_at s pid) = 0 \<and> page_inv (snd (page_alloc_at s pid))
      \<and> page_arena (snd (page_alloc_at s pid)) = page_arena s
      \<and> page_frames (snd (page_alloc_at s pid)) = page_frames s - {unat pid}"
    and "unat pid \<notin> page_frames s \<Longrightarrow> page_alloc_at s pid = (- 1, s)"
proof -
  note pinv = page_invD(1) [OF inv]
  { assume f: "unat pid \<in> page_frames s"
    then have fp: "unat pid \<in> pool_free (mm_pool s)" by (simp add: page_frames_def)
    note t = pool.take_at_free [OF pinv fp]
    show "fst (page_alloc_at s pid) = 0 \<and> page_inv (snd (page_alloc_at s pid))
      \<and> page_arena (snd (page_alloc_at s pid)) = page_arena s
      \<and> page_frames (snd (page_alloc_at s pid)) = page_frames s - {unat pid}"
      using blk_free_ne_invalid [OF pinv fp] t inv page_invD(2) [OF inv]
      by (auto simp: page_alloc_at_def split_beta Let_def page_frames_def pool_op_length intro!: page_inv_upd) }
  { assume "unat pid \<notin> page_frames s"
    then show "page_alloc_at s pid = (- 1, s)"
      using pool.take_at_used [OF pinv, of pid] by (simp add: page_alloc_at_def page_frames_def Let_def) }
qed

subsection \<open>The contract of the allocator\<close>

locale frame_source =
  fixes inv :: "'s \<Rightarrow> bool" and frames :: "'s \<Rightarrow> nat set" and arena :: "'s \<Rightarrow> nat set"
    and alloc_at :: "'s \<Rightarrow> 'p::len word \<Rightarrow> int \<times> 's" and free :: "'s \<Rightarrow> 'p word \<Rightarrow> 's"
  assumes frames_arena: "inv s \<Longrightarrow> frames s \<subseteq> arena s"
    and alloc_at_free: "inv s \<Longrightarrow> unat pid \<in> frames s \<Longrightarrow>
      fst (alloc_at s pid) = 0 \<and> inv (snd (alloc_at s pid)) \<and> arena (snd (alloc_at s pid)) = arena s \<and>
      frames (snd (alloc_at s pid)) = frames s - {unat pid}"
    and alloc_at_used: "inv s \<Longrightarrow> unat pid \<notin> frames s \<Longrightarrow> alloc_at s pid = (- 1, s)"
    and free_inv: "inv s \<Longrightarrow> inv (free s pid)"
    and free_arena: "inv s \<Longrightarrow> arena (free s pid) = arena s"
    and free_frames: "inv s \<Longrightarrow> frames (free s pid) = frames s \<union> ({unat pid} \<inter> arena s)"
begin

lemma free_twice: "inv s \<Longrightarrow> frames (free (free s pid) pid) = frames (free s pid)"
  by (auto simp: free_frames free_inv free_arena)

lemma alloc_at_then_free:
  "inv s \<Longrightarrow> unat pid \<in> frames s \<Longrightarrow> frames (free (snd (alloc_at s pid)) pid) = frames s"
  using alloc_at_free [of s pid] frames_arena [of s] by (auto simp: free_frames)

end

interpretation page: frame_source page_inv page_frames page_arena page_alloc_at page_free
  by unfold_locales
    (simp_all add: page_invD(2) page_alloc_at_frames page_free_frames)

subsection \<open>Boot-time inventory\<close>

lemma and_not_page_mask: "unat (w AND NOT (PAGE_SIZE - 1)) = unat w div 4096 * 4096"
proof -
  have "w AND NOT (PAGE_SIZE - 1) = push_bit 12 (drop_bit 12 w)"
  proof (rule bit_word_eqI)
    fix n assume "n < LENGTH(32)"
    have "PAGE_SIZE - 1 = mask 12" by (simp add: mask_eq_exp_minus_1)
    then show "bit (w AND NOT (PAGE_SIZE - 1)) n = bit (push_bit 12 (drop_bit 12 w)) n"
      using \<open>n < LENGTH(32)\<close> by (auto simp only: bit_simps) auto
  qed
  then have "unat (w AND NOT (PAGE_SIZE - 1)) = unat (4096 * (w div 4096))"
    by (simp add: push_bit_eq_mult drop_bit_eq_div mult.commute)
  also have "\<dots> = unat w div 4096 * 4096"
  proof -
    have "unat w div 4096 * 4096 < 2 ^ 32" using unsigned_less [of w, where 'a = nat]
      by (simp add: order.strict_trans1 [OF div_times_less_eq_dividend])
    then show ?thesis by (simp add: unat_word_ariths unat_div mult.commute)
  qed
  finally show ?thesis .
qed

lemma mm_init_run:
  assumes "i \<le> count" and "run_len \<noteq> 0"
    and "\<And>j. i \<le> j \<Longrightarrow> j < count \<Longrightarrow> \<not> pool_base + of_nat j * PAGE_SIZE < stk"
    and "unat run_len + (count - i) < 2 ^ 16"
  shows "mm_init_loop p pool_base count stk i run_base run_len =
    snd (pool_add p run_base (run_len + of_nat (count - i)))"
  using assms
proof (induction "count - i" arbitrary: i run_len)
  case 0
  then have "i = count" by simp
  then show ?case using 0 by (subst mm_init_loop.simps) (simp add: word_neq_0_conv)
next
  case (Suc d)
  then have i: "i < count" by simp
  have "run_len + 1 \<noteq> 0" using Suc.prems(4) i unat_word_ariths(1) [of run_len 1] unat_pos_iff [of "run_len + 1"] by simp
  have u: "unat (run_len + 1) = unat run_len + 1" using Suc.prems(4) i by (simp add: unat_word_ariths)
  have "mm_init_loop p pool_base count stk (i + 1) run_base (run_len + 1) =
      snd (pool_add p run_base (run_len + 1 + of_nat (count - (i + 1))))"
    by (rule Suc.hyps(1)) (use Suc i u \<open>run_len + 1 \<noteq> 0\<close> in auto)
  moreover have "run_len + 1 + of_nat (count - (i + 1)) = run_len + of_nat (count - i)"
  proof -
    have "count - i = Suc (count - (i + 1))" using i by simp
    then show ?thesis by (simp only: of_nat_Suc) simp
  qed
  ultimately show ?case
    using i Suc.prems(2) Suc.prems(3) [of i] by (subst mm_init_loop.simps) (simp add: Let_def)
qed

lemma mm_init_skip:
  assumes "i \<le> k" and "k \<le> count" and "count < 2 ^ 16"
    and "\<And>j. i \<le> j \<Longrightarrow> j < k \<Longrightarrow> pool_base + of_nat j * PAGE_SIZE < stk"
    and "\<And>j. k \<le> j \<Longrightarrow> j < count \<Longrightarrow> \<not> pool_base + of_nat j * PAGE_SIZE < stk"
  shows "mm_init_loop p pool_base count stk i run_base 0 =
    snd (pool_add p (linear_page_id (pool_base + of_nat k * PAGE_SIZE)) (of_nat (count - k)))"
  using assms
proof (induction "k - i" arbitrary: i)
  case 0
  then have ik: "i = k" by simp
  show ?case
  proof (cases "k < count")
    case True
    have "mm_init_loop p pool_base count stk i run_base 0 =
        mm_init_loop p pool_base count stk (k + 1) (linear_page_id (pool_base + of_nat k * PAGE_SIZE)) 1"
      using True 0(6) [of k] ik by (subst mm_init_loop.simps) (simp add: Let_def)
    also have "\<dots> = snd (pool_add p (linear_page_id (pool_base + of_nat k * PAGE_SIZE)) (1 + of_nat (count - (k + 1))))"
      by (rule mm_init_run) (use True 0 in auto)
    also have "1 + of_nat (count - (k + 1)) = (of_nat (count - k) :: u16)"
    proof -
      have "count - k = Suc (count - (k + 1))" using True by simp
      then show ?thesis by (simp only: of_nat_Suc)
    qed
    finally show ?thesis .
  next
    case False
    then show ?thesis using ik 0 by (subst mm_init_loop.simps) (simp add: pool_add_def)
  qed
next
  case (Suc d)
  then have i: "i < k" by simp
  have "mm_init_loop p pool_base count stk (i + 1) run_base 0 =
      snd (pool_add p (linear_page_id (pool_base + of_nat k * PAGE_SIZE)) (of_nat (count - k)))"
    by (rule Suc.hyps(1)) (use Suc i in auto)
  then show ?case using i Suc.prems(2,4) by (subst mm_init_loop.simps) (simp add: Let_def)
qed

lemma pool_add_reset:
  fixes p :: "'p::len word page_pool" and base :: "'p word" and n :: u16
  assumes "length (free_blocks p) < 2 ^ 16" and "unat n \<le> length (free_blocks p)"
    and "unat base + unat n < 2 ^ LENGTH('p)"
  defines "q \<equiv> snd (pool_add (pool_reset p) base n)"
  shows "pool_inv q \<and> pool_free q = {unat base ..< unat base + unat n}
    \<and> length (free_blocks q) = length (free_blocks p)"
proof (cases "n = 0")
  case True
  then have "pool_blocks q = []" "length (free_blocks q) = length (free_blocks p)" "free_page_total q = 0"
    "free_block_count q = 0"
    by (simp_all add: q_def pool_add_def pool_reset_def pool_blocks_def)
  with assms True show ?thesis by (simp add: pool_inv_def pool_free_def)
next
  case False
  then have n0: "0 < unat n" by (simp add: unat_pos_iff)
  with assms(2) obtain x xs where fb: "free_blocks p = x # xs" by (cases "free_blocks p") auto
  have blocks: "pool_blocks q = [\<lparr>blk_base = base, blk_pages = n\<rparr>]" and "length (free_blocks q) = length (free_blocks p)"
    and "free_page_total q = ucast n" and "free_block_count q = 1"
    using False by (simp_all add: q_def pool_add_def pool_reset_def pool_blocks_def fb)
  moreover have "length (free_blocks p) \<ge> 1" by (simp add: fb)
  ultimately show ?thesis
    using assms False
    by (simp add: pool_inv_def pool_free_def blocks_ok_Cons block_ok_def blk_end_def blk_set_def)
qed

lemma linear_page_id_nth:
  fixes base :: u32
  assumes "LENGTH('p) \<le> 32" and "unat base + count * 4096 < 2 ^ 32" and "i \<le> count"
    and "unat base div 4096 + count < 2 ^ LENGTH('p)"
  shows "unat (linear_page_id (base + of_nat i * PAGE_SIZE) :: 'p::len word) = unat base div 4096 + i"
proof -
  have ic: "i * 4096 \<le> count * 4096" using assms(3) by simp
  then have "i * 4096 < 2 ^ 32" using assms(2) by linarith
  then have m: "unat (of_nat i * PAGE_SIZE) = i * 4096" by (simp add: unat_word_ariths unat_of_nat)
  have "unat base + i * 4096 < 2 ^ 32" using assms(2) ic by linarith
  then have a: "unat (base + of_nat i * PAGE_SIZE) = unat base + i * 4096"
    using m by (simp add: unat_word_ariths)
  have d: "unat ((base + of_nat i * PAGE_SIZE) div PAGE_SIZE) = unat base div 4096 + i"
    using a by (simp add: unat_div)
  show ?thesis
    unfolding linear_page_id_def using d assms(3,4) by (subst unat_small_ucast) auto
qed

lemma first_unskipped:
  obtains k where "k \<le> count" "\<And>j. j < k \<Longrightarrow> b + j * 4096 < t" "\<And>j. k \<le> j \<Longrightarrow> j < count \<Longrightarrow> t \<le> b + j * (4096 :: nat)"
proof (cases "\<exists>j < count. t \<le> b + j * 4096")
  case True
  define k where "k = (LEAST j. t \<le> b + j * 4096)"
  from True obtain j where j: "j < count" "t \<le> b + j * 4096" by blast
  have k: "t \<le> b + k * 4096" "k \<le> j"
    unfolding k_def using j(2) by (rule LeastI, rule Least_le)
  show thesis
  proof (rule that [of k])
    fix i assume "i < k"
    then show "b + i * 4096 < t" unfolding k_def using not_less_Least not_le by blast
  next
    fix i assume "k \<le> i"
    then have "k * 4096 \<le> i * 4096" by simp
    then show "t \<le> b + i * 4096" using k(1) by linarith
  qed (use j k in simp)
next
  case False
  then show thesis by (intro that [of count]) auto
qed

lemma page_release_room:
  fixes s :: "'p::len word page_mm" and pid :: "'p word"
  assumes inv: "page_inv s" and pid: "unat pid \<in> page_arena s" "unat pid \<notin> page_frames s"
  shows "fst (pool_release (mm_pool s) pid 1) = 0"
proof -
  have "card (insert (unat pid) (page_frames s)) \<le> card (page_arena s)"
    by (rule card_mono) (use pid page_invD(2) [OF inv] in \<open>auto simp: page_arena_def\<close>)
  then have "card (pool_free (mm_pool s)) + 1 \<le> length (free_blocks (mm_pool s))"
    using pid page_invD(3) [OF inv] by (simp add: page_arena_def page_frames_def)
  then show ?thesis
    using pool.release_ok [OF page_invD(1) [OF inv], of pid 1] page_invD(4) [OF inv pid(1)] pid(2)
    by (simp add: page_frames_def)
qed

lemma page_take_inv:
  assumes "page_inv s" and "n \<noteq> 0" and "fst (pool_take_n (mm_pool s) n) \<noteq> PAGE_ID_INVALID"
  shows "page_inv (s\<lparr>mm_pool := snd (pool_take_n (mm_pool s) n)\<rparr>)"
  using pool.take_n_ok [OF page_invD(1) [OF assms(1)] assms(2,3)] page_invD(2) [OF assms(1)] assms(1)
  by (auto intro!: page_inv_upd simp: pool_op_length page_frames_def)

lemma page_alloc_aux:
  assumes inv: "page_inv s"
  shows "if page_frames s = {} then page_alloc s = (PAGE_ID_INVALID, s\<lparr>oom_count := oom_count s + 1\<rparr>)
      else let (pid, s') = page_alloc s in
        unat pid = Max (page_frames s) \<and> page_frames s' = page_frames s - {unat pid} \<and> page_inv s'"
proof (cases "fst (pool_take_n (mm_pool s) 1) = PAGE_ID_INVALID")
  case True
  have t: "snd (pool_take_n (mm_pool s) 1) = mm_pool s"
    and none: "\<not> {a ..< a + unat (1 :: u16)} \<subseteq> pool_free (mm_pool s)" for a
    using pool_take_n_aux(1) [OF page_invD(1) [OF inv] _ True] by (simp_all del: atLeastLessThan_singleton)
  have "page_frames s = {}" using none by (auto simp: page_frames_def)
  with True t show ?thesis by (simp add: page_alloc_def Let_def split_beta)
next
  case False
  have t: "unat (fst (pool_take_n (mm_pool s) 1)) \<in> page_frames s"
    "unat (fst (pool_take_n (mm_pool s) 1)) = Max (page_frames s)"
    "pool_free (snd (pool_take_n (mm_pool s) 1)) = page_frames s - {unat (fst (pool_take_n (mm_pool s) 1))}"
    using pool_take_n_aux(2) [OF page_invD(1) [OF inv] _ False, simplified] unfolding page_frames_def
    by blast+
  then have "page_frames s \<noteq> {}" by blast
  with t False page_take_inv [OF inv _ False] show ?thesis
    by (simp add: page_alloc_def Let_def split_beta)
qed

lemma page_alloc_n_aux:
  fixes s :: "'p::len word page_mm" and n :: u32
  assumes inv: "page_inv s" and n: "n \<noteq> 0" "unat n < 2 ^ 16"
  shows "if \<exists>a. {a ..< a + unat n} \<subseteq> page_frames s
       then let (pid, s') = page_alloc_n s n in
         pid \<noteq> PAGE_ID_INVALID \<and> {unat pid ..< unat pid + unat n} \<subseteq> page_frames s
         \<and> page_frames s' = page_frames s - {unat pid ..< unat pid + unat n} \<and> page_inv s'
       else page_alloc_n s n = (PAGE_ID_INVALID, s)"
proof -
  let ?n = "ucast n :: u16"
  have un: "unat ?n = unat n" by (rule unat_small_ucast) (use n in simp)
  then have n0: "?n \<noteq> 0" using n(1) by (metis unat_0 unat_eq_zero)
  have g: "\<not> (n = 0 \<or> 0xFFFF < n)" using n by (simp add: word_less_nat_alt)
  have eq: "page_alloc_n s n = (fst (pool_take_n (mm_pool s) ?n), s\<lparr>mm_pool := snd (pool_take_n (mm_pool s) ?n)\<rparr>)"
    using g by (simp add: page_alloc_n_def Let_def split_beta)
  show ?thesis
  proof (cases "fst (pool_take_n (mm_pool s) ?n) = PAGE_ID_INVALID")
    case True
    with pool.take_n_oom [OF page_invD(1) [OF inv] n0 True] show ?thesis by (simp add: eq page_frames_def un)
  next
    case False
    with pool.take_n_ok [OF page_invD(1) [OF inv] n0 False] page_take_inv [OF inv n0 False]
    show ?thesis by (auto simp: eq page_frames_def un Let_def)
  qed
qed

text \<open>The first page above the boot stack, and the pages of an arena from the first one that is not skipped on.\<close>

lemma stack_page_bound:
  assumes "unat stack_top + 4095 < 2 ^ 32"
  shows "unat ((stack_top + PAGE_SIZE - 1) AND NOT (PAGE_SIZE - 1)) \<le> x * 4096 \<longleftrightarrow> unat stack_top \<le> x * 4096"
proof -
  have "unat (stack_top + 4095) = unat stack_top + 4095" using assms by (simp add: unat_word_ariths)
  moreover have "stack_top + PAGE_SIZE - 1 = stack_top + 4095" by simp
  ultimately have "unat ((stack_top + PAGE_SIZE - 1) AND NOT (PAGE_SIZE - 1)) = (unat stack_top + 4095) div 4096 * 4096"
    unfolding and_not_page_mask by (simp only:)
  then have "unat ((stack_top + PAGE_SIZE - 1) AND NOT (PAGE_SIZE - 1)) \<le> x * 4096 \<longleftrightarrow> (unat stack_top + 4095) div 4096 < Suc x" by auto
  also have "\<dots> \<longleftrightarrow> unat stack_top + 4095 < Suc x * 4096" by (rule div_less_iff_less_mult) simp
  finally show ?thesis by auto
qed

lemma pages_above:
  fixes a k c bound :: nat
  assumes "\<And>j. j < k \<Longrightarrow> a * 4096 + j * 4096 < bound" "\<And>j. k \<le> j \<Longrightarrow> j < c \<Longrightarrow> bound \<le> a * 4096 + j * 4096"
  shows "{a + k ..< a + c} = {x \<in> {a ..< a + c}. bound \<le> x * 4096}"
proof -
  have kj: "k \<le> j \<longleftrightarrow> bound \<le> (a + j) * 4096" if "j < c" for j
    using assms(1) [of j] assms(2) [of j] that by (auto simp: algebra_simps not_le [symmetric])
  have "x \<in> {a + k ..< a + c} \<longleftrightarrow> x \<in> {a ..< a + c} \<and> bound \<le> x * 4096" for x
  proof (cases "\<exists>j < c. x = a + j")
    case True
    then show ?thesis using kj by auto
  next
    case False
    then have "x \<notin> {a ..< a + c}" by (force simp: le_iff_add)
    then show ?thesis by auto
  qed
  then show ?thesis by blast
qed

text \<open>C6: after \<^verbatim>\<open>mm_init\<close> the allocator is consistent and its free frames are exactly the pages
  of the pool that start at or above the end of the boot stack: no page under the kernel stack is ever
  handed out and no other page of the pool is lost.\<close>

theorem mm_init_correct:
  fixes s :: "'p::len word page_mm"
  assumes hook: "init_pool (page_count_max, base0) = Some (count, base)"
    and table: "unat count \<le> length (free_blocks (mm_pool s))" "length (free_blocks (mm_pool s)) < 2 ^ 16"
    and aligned: "4096 dvd unat base" and ram: "unat base + unat count * 4096 < 2 ^ 32"
    and ids: "unat base div 4096 + unat count < 2 ^ LENGTH('p)" "LENGTH('p) \<le> 32"
    and stack: "unat stack_top + 4095 < 2 ^ 32"
  shows "\<exists>s'. mm_init init_pool page_count_max base0 stack_top s = Some s' \<and> page_inv s'
    \<and> page_arena s' = {unat base div 4096 ..< unat base div 4096 + unat count}
    \<and> page_frames s' = {x \<in> page_arena s'. unat stack_top \<le> x * 4096}"
proof -
  define stk where "stk = (stack_top + PAGE_SIZE - 1) AND NOT (PAGE_SIZE - 1)"
  have top_le: "unat stk \<le> x * 4096 \<longleftrightarrow> unat stack_top \<le> x * 4096" for x
    unfolding stk_def by (rule stack_page_bound [OF stack])
  have paddr: "unat (base + of_nat i * PAGE_SIZE) = unat base + i * 4096" if "i < unat count" for i
  proof -
    have "unat base + i * 4096 < 2 ^ 32" using ram that by linarith
    then show ?thesis by (simp add: unat_word_ariths unat_of_nat)
  qed
  obtain k where k: "k \<le> unat count" "\<And>j. j < k \<Longrightarrow> unat base + j * 4096 < unat stk"
    "\<And>j. k \<le> j \<Longrightarrow> j < unat count \<Longrightarrow> unat stk \<le> unat base + j * 4096"
    using first_unskipped [of "unat count" "unat base" "unat stk"] by metis
  define q where "q = snd (pool_add (pool_reset (mm_pool s))
    (linear_page_id (base + of_nat k * PAGE_SIZE)) (of_nat (unat count - k)))"
  have loop: "mm_init_loop (pool_reset (mm_pool s)) base (unat count) stk 0 0 0 = q"
    unfolding q_def
    by (rule mm_init_skip) (use k paddr table in \<open>auto simp: word_less_nat_alt not_less\<close>)
  have id0: "unat (linear_page_id base :: 'p word) = unat base div 4096"
    using linear_page_id_nth [OF ids(2) ram _ ids(1), of 0] by simp
  have nk: "unat (of_nat (unat count - k) :: u16) = unat count - k"
    using table by (simp add: unat_of_nat)
  have idk: "unat (linear_page_id (base + of_nat k * PAGE_SIZE) :: 'p word) = unat base div 4096 + k"
    by (rule linear_page_id_nth [OF ids(2) ram k(1) ids(1)])
  have q: "pool_inv q" "pool_free q = {unat base div 4096 + k ..< unat base div 4096 + unat count}"
    "length (free_blocks q) = length (free_blocks (mm_pool s))"
    using pool_add_reset [OF table(2), of "of_nat (unat count - k)" "linear_page_id (base + of_nat k * PAGE_SIZE)"]
      nk idk k(1) table(1) ids(1) unfolding q_def by auto
  let ?s = "s\<lparr>mm_pool := q, page_count := count, s_pool_base := base\<rparr>"
  have arena: "page_arena ?s = {unat base div 4096 ..< unat base div 4096 + unat count}"
    by (simp add: page_arena_def pool_base_page_id_def page_pool_base_def id0)
  have "page_inv ?s"
    unfolding page_inv_def arena using q table ids
    by (auto simp: page_frames_def pool_base_page_id_def page_pool_base_def id0)
  moreover have "page_frames ?s = {x \<in> page_arena ?s. unat stack_top \<le> x * 4096}"
  proof -
    have "unat base = unat base div 4096 * 4096" using aligned by simp
    then show ?thesis
      using pages_above [of k "unat base div 4096" "unat stk" "unat count"] k(2,3) unfolding arena page_frames_def
      by (simp add: q(2) top_le)
  qed
  moreover have "mm_init init_pool page_count_max base0 stack_top s = Some ?s"
    unfolding mm_init_def hook option.case prod.case Let_def stk_def [symmetric] loop ..
  ultimately show ?thesis using arena by blast
qed

text \<open>C7: \<^verbatim>\<open>page_free\<close> is safe on any argument. It keeps the allocator consistent, makes a
  frame of the arena free if it was not, and ignores frees of frames that are free already, of frames
  outside the pool and of the invalid id; the table never overflows, so the leak branch is not reached.\<close>

theorem page_free_correct:
  fixes s :: "'p::len word page_mm" and pid :: "'p word"
  assumes "page_inv s"
  shows "page_inv (page_free s pid) \<and> page_arena (page_free s pid) = page_arena s
    \<and> page_frames (page_free s pid) =
        (if unat pid \<in> page_arena s then insert (unat pid) (page_frames s) else page_frames s)
    \<and> (unat pid \<in> page_arena s - page_frames s \<longrightarrow> fst (pool_release (mm_pool s) pid 1) = 0)"
proof -
  have "fst (pool_release (mm_pool s) pid 1) = 0" if "unat pid \<in> page_arena s - page_frames s"
    using page_release_room [OF assms] that by blast
  then show ?thesis using page_free_frames [OF assms, of pid] by auto
qed

text \<open>Single and contiguous page allocation. \<^verbatim>\<open>page_alloc\<close> fails only when no frame is free
  and then counts an out-of-memory event; \<^verbatim>\<open>page_alloc_n\<close> fails only when no run of the
  requested length is free. On success the frames returned were free, lie in the arena, and they alone
  are no longer free; the allocator stays consistent.\<close>

theorem page_alloc_correct:
  fixes s :: "'p::len word page_mm" and n :: u32
  assumes "page_inv s" and "n \<noteq> 0" and "unat n < 2 ^ 16"
  shows "(if page_frames s = {} then page_alloc s = (PAGE_ID_INVALID, s\<lparr>oom_count := oom_count s + 1\<rparr>)
      else let (pid, s') = page_alloc s in
        unat pid = Max (page_frames s) \<and> page_frames s' = page_frames s - {unat pid} \<and> page_inv s')
    \<and> (if \<exists>a. {a ..< a + unat n} \<subseteq> page_frames s
       then let (pid, s') = page_alloc_n s n in
         pid \<noteq> PAGE_ID_INVALID \<and> {unat pid ..< unat pid + unat n} \<subseteq> page_frames s
         \<and> page_frames s' = page_frames s - {unat pid ..< unat pid + unat n} \<and> page_inv s'
       else page_alloc_n s n = (PAGE_ID_INVALID, s))"
  using page_alloc_aux [OF assms(1)] page_alloc_n_aux [OF assms] by blast

lemma demo_mm_facts:
  "page_arena demo_mm = {16 ..< 24}" "page_frames demo_mm = {19 ..< 24}" "page_inv demo_mm"
proof -
  have b: "pool_blocks (mm_pool demo_mm) = [\<lparr>blk_base = 19, blk_pages = 5\<rparr>]"
    by (simp add: demo_mm_def pool_blocks_def)
  have i: "pool_base_page_id demo_mm = 16"
    by (simp add: pool_base_page_id_def page_pool_base_def linear_page_id_def demo_mm_def)
  show a: "page_arena demo_mm = {16 ..< 24}"
    by (simp add: page_arena_def i) (simp add: demo_mm_def)
  show f: "page_frames demo_mm = {19 ..< 24}"
    by (simp add: page_frames_def pool_free_def b blk_set_def blk_end_def del: blk_set_iff)
  have "pool_inv (mm_pool demo_mm)"
    unfolding pool_inv_def b by (simp add: blocks_ok_Cons block_ok_def blk_end_def) (simp add: demo_mm_def)
  then show "page_inv demo_mm" unfolding page_inv_def a f i by (simp add: demo_mm_def)
qed

theorem mm_init_correct_witness:
  "\<exists>s'. mm_init mem_helper_init_pool 8 0x10000 0x12001 demo_mm = Some s' \<and> page_inv s'
     \<and> page_frames s' = {19 ..< 24}"
proof -
  have h: "mem_helper_init_pool (8, 0x10000) = Some (8, 0x10000)" by (simp add: mem_helper_init_pool_def)
  have "{x \<in> {16 ..< 24 :: nat}. 73729 \<le> x * 4096} = {19 ..< 24}" by auto
  moreover have "length (free_blocks (mm_pool demo_mm)) = 8" by (simp add: demo_mm_def)
  ultimately show ?thesis
    using mm_init_correct [of mem_helper_init_pool 8 "0x10000" 8 "0x10000" demo_mm "0x12001"] h by auto
qed

theorem page_free_correct_witness:
  "page_inv demo_mm \<and> page_frames (page_free demo_mm 17) = insert 17 {19 ..< 24} \<and>
   page_frames (page_free demo_mm 20) = {19 ..< 24} \<and> page_frames (page_free demo_mm 99) = {19 ..< 24}"
  using page_free_correct [OF demo_mm_facts(3), of 17] page_free_correct [OF demo_mm_facts(3), of 20]
    page_free_correct [OF demo_mm_facts(3), of 99] demo_mm_facts
  by (simp add: insert_absorb)

theorem page_alloc_correct_witness:
  "page_inv demo_mm \<and> unat (fst (page_alloc demo_mm)) = 23 \<and>
   fst (page_alloc_n demo_mm 9) = PAGE_ID_INVALID"
proof -
  have "Max {19 ..< 24 :: nat} = 23" by (intro Max_eqI) auto
  moreover have "\<not> (\<exists>a. {a ..< a + 9} \<subseteq> {19 ..< 24 :: nat})"
  proof
    assume "\<exists>a. {a ..< a + 9} \<subseteq> {19 ..< 24 :: nat}"
    then obtain a where "{a ..< a + 9} \<subseteq> {19 ..< 24 :: nat}" ..
    then have "a \<in> {19 ..< 24}" "a + 8 \<in> {19 ..< 24 :: nat}" by (auto simp: subset_iff)
    then show False by auto
  qed
  ultimately show ?thesis
    using page_alloc_correct [OF demo_mm_facts(3), of 9] demo_mm_facts by (simp add: split_beta Let_def)
qed

end
