(* ===== verification/Region.thy ===== *)
theory Region
  imports Page
begin

text \<open>
  Class-dispatched memory regions, \<^verbatim>\<open>src/kernel/core/mm/region.c\<close>, with the default hooks of
  \<^verbatim>\<open>mem_helper.c\<close>, which send every class to the page pool. (The Xtensa target overrides the hooks
  with arenas of its own.) A pointer is its 32-bit address, NULL is 0, and a region passed by
  pointer is an option. The loops over pages take the page operations as arguments, so that they
  are verified once against the contract of the allocator.
\<close>

datatype mem_class =
    PPAP_MEM_NONE | PPAP_MEM_RAM_TEXT | PPAP_MEM_RAM_RODATA | PPAP_MEM_RAM_DATA | PPAP_MEM_EXT_TEXT
  | PPAP_MEM_EXT_RODATA | PPAP_MEM_ROM_TEXT | PPAP_MEM_ROM_RODATA | PPAP_MEM_RAM_STACK
  | PPAP_MEM_DEVICE_DMA

record 'w region =
  rg_base :: u32
  rg_base_page :: 'w

subsection \<open>Default hooks\<close>

definition mem_helper_alloc ::
  "mem_class \<Rightarrow> u32 \<Rightarrow> u32 \<Rightarrow> 'p::len word region \<Rightarrow> int \<times> 'p word region" where
  "mem_helper_alloc cls size' flags out = (- ENOSYS, out)"

definition mem_helper_free :: "mem_class \<Rightarrow> u32 \<Rightarrow> 'p::len word region \<Rightarrow> int" where
  "mem_helper_free cls size' r = - ENOSYS"

definition mem_helper_total_bytes :: "mem_class \<Rightarrow> int" where
  "mem_helper_total_bytes cls = - 1"

definition mem_helper_free_bytes :: "mem_class \<Rightarrow> int" where
  "mem_helper_free_bytes cls = - 1"

definition mem_helper_largest_free :: "mem_class \<Rightarrow> int" where
  "mem_helper_largest_free cls = - 1"

subsection \<open>Allocation and release\<close>

definition region_page_count :: "u32 \<Rightarrow> u32" where
  "region_page_count size' = (size' + PAGE_SIZE - 1) div PAGE_SIZE"

definition region_alloc_page_backed ::
  "'p::len word page_mm \<Rightarrow> u32 \<Rightarrow> 'p word region \<Rightarrow> int \<times> 'p word region \<times> 'p word page_mm" where
  "region_alloc_page_backed s size' out =
     (if size' = 0 then (0, out\<lparr>rg_base := 0, rg_base_page := PAGE_ID_INVALID\<rparr>, s)
      else
        let n_pages = region_page_count size';
            (pid, s) = (if n_pages = 1 then page_alloc s else page_alloc_n s n_pages)
        in if pid = PAGE_ID_INVALID then (- ENOMEM, out, s)
           else (0, out\<lparr>rg_base := page_linear pid, rg_base_page := pid\<rparr>, s))"

definition region_alloc ::
  "'p::len word page_mm \<Rightarrow> mem_class \<Rightarrow> u32 \<Rightarrow> u32 \<Rightarrow> 'p word region option \<Rightarrow> int \<times> 'p word region option \<times> 'p word page_mm" where
  "region_alloc s cls size' flags out =
     (case out of None \<Rightarrow> (- EINVAL, None, s)
      | Some r \<Rightarrow>
          let (rc, r) = mem_helper_alloc cls size' flags r in
          if rc \<noteq> - ENOSYS then (rc, Some r, s)
          else let (rc, r, s) = region_alloc_page_backed s size' r in (rc, Some r, s))"

function free_pages :: "('s \<Rightarrow> 'p::len word \<Rightarrow> 's) \<Rightarrow> 's \<Rightarrow> 'p word \<Rightarrow> nat \<Rightarrow> nat \<Rightarrow> 's" where
  "free_pages free s base_id j n =
     (if j < n then free_pages free (free s (base_id + of_nat j)) base_id (j + 1) n else s)"
  by auto
termination by (relation "measure (\<lambda>(f, s, b, j, n). n - j)") auto

function reserve_pages ::
  "('s \<Rightarrow> 'p::len word \<Rightarrow> int \<times> 's) \<Rightarrow> ('s \<Rightarrow> 'p word \<Rightarrow> 's) \<Rightarrow> 's \<Rightarrow> 'p word \<Rightarrow> nat \<Rightarrow> nat \<Rightarrow> int \<times> 's" where
  "reserve_pages alloc_at free s base_id i n =
     (if i < n then
        let (rc, s) = alloc_at s (base_id + of_nat i) in
        if rc < 0 then (- ENOMEM, free_pages free s base_id 0 i)
        else reserve_pages alloc_at free s base_id (i + 1) n
      else (0, s))"
  by auto
termination by (relation "measure (\<lambda>(a, f, s, b, i, n). n - i)") auto

declare free_pages.simps [simp del] reserve_pages.simps [simp del]

definition region_alloc_at ::
  "'p::len word page_mm \<Rightarrow> mem_class \<Rightarrow> u32 \<Rightarrow> u32 \<Rightarrow> u32 \<Rightarrow> 'p word region option
    \<Rightarrow> int \<times> 'p word region option \<times> 'p word page_mm" where
  "region_alloc_at s cls base size' flags out =
     (case out of None \<Rightarrow> (- EINVAL, None, s)
      | Some r \<Rightarrow>
          if base = 0 \<or> size' = 0 then (- EINVAL, out, s)
          else if cls = PPAP_MEM_RAM_DATA \<or> cls = PPAP_MEM_RAM_STACK \<or> cls = PPAP_MEM_RAM_RODATA
            \<or> cls = PPAP_MEM_DEVICE_DMA then
            let n_pages = region_page_count size';
                base_id = page_from_ptr base;
                (rc, s) = reserve_pages page_alloc_at page_free s base_id 0 (unat n_pages)
            in if rc < 0 then (rc, out, s)
               else (0, Some (r\<lparr>rg_base := base, rg_base_page := base_id\<rparr>), s)
          else (- EINVAL, out, s))"

definition region_free_page_backed :: "'p::len word page_mm \<Rightarrow> u32 \<Rightarrow> 'p word region \<Rightarrow> 'p word page_mm" where
  "region_free_page_backed s size' r =
     (let n_pages = region_page_count size';
          base_id = (if rg_base_page r = PAGE_ID_INVALID then page_from_ptr (rg_base r) else rg_base_page r)
      in free_pages page_free s base_id 0 (unat n_pages))"

definition region_free :: "'p::len word page_mm \<Rightarrow> mem_class \<Rightarrow> u32 \<Rightarrow> 'p word region option \<Rightarrow> 'p word page_mm" where
  "region_free s cls size' r =
     (case r of None \<Rightarrow> s
      | Some r \<Rightarrow>
          if size' = 0 then s
          else if rg_base r = 0 \<and> rg_base_page r = PAGE_ID_INVALID then s
          else if mem_helper_free cls size' r = 0 then s
          else region_free_page_backed s size' r)"

subsection \<open>Capacity queries\<close>

definition region_total_bytes :: "'p::len word page_mm \<Rightarrow> mem_class \<Rightarrow> u32" where
  "region_total_bytes s cls =
     (let v = mem_helper_total_bytes cls in if 0 \<le> v then of_int v else page_count s * PAGE_SIZE)"

definition region_free_bytes :: "'p::len word page_mm \<Rightarrow> mem_class \<Rightarrow> u32" where
  "region_free_bytes s cls =
     (let v = mem_helper_free_bytes cls in if 0 \<le> v then of_int v else page_free_count s * PAGE_SIZE)"

definition region_largest_free_bytes :: "'p::len word page_mm \<Rightarrow> mem_class \<Rightarrow> u32" where
  "region_largest_free_bytes s cls =
     (let v = mem_helper_largest_free cls in if 0 \<le> v then of_int v else page_max_contiguous s * PAGE_SIZE)"

subsection \<open>The page loops, against the allocator contract\<close>

lemma unat_add_of_nat:
  "unat (b :: 'p::len word) + j < 2 ^ LENGTH('p) \<Longrightarrow> unat (b + of_nat j) = unat b + j"
  by (simp add: unat_word_ariths unat_of_nat)

lemma Diff_triv_union: "B \<inter> A = {} \<Longrightarrow> A \<union> B - B = A"
  by blast

context frame_source
begin

lemma free_pages_frames:
  fixes base_id :: "'p word"
  assumes "inv s" and "j \<le> n" and "unat base_id + n \<le> 2 ^ LENGTH('p)"
  shows "inv (free_pages free s base_id j n) \<and> arena (free_pages free s base_id j n) = arena s \<and>
    frames (free_pages free s base_id j n) = frames s \<union> ({unat base_id + j ..< unat base_id + n} \<inter> arena s)"
  using assms
proof (induction "n - j" arbitrary: s j)
  case 0
  then show ?case by (subst (1 2 3) free_pages.simps) simp
next
  case (Suc d)
  then have j: "j < n" by simp
  have u: "unat (base_id + of_nat j) = unat base_id + j"
    by (rule unat_add_of_nat) (use j Suc.prems(3) in linarith)
  let ?s = "free s (base_id + of_nat j)"
  have IH: "inv (free_pages free ?s base_id (j + 1) n) \<and> arena (free_pages free ?s base_id (j + 1) n) = arena ?s \<and>
      frames (free_pages free ?s base_id (j + 1) n) =
        frames ?s \<union> ({unat base_id + (j + 1) ..< unat base_id + n} \<inter> arena ?s)"
    by (rule Suc.hyps(1)) (use Suc j free_inv in auto)
  have "free_pages free s base_id j n = free_pages free ?s base_id (j + 1) n"
    using j by (subst free_pages.simps) simp
  moreover have "{unat base_id + j ..< unat base_id + n} = insert (unat base_id + j) {unat base_id + (j + 1) ..< unat base_id + n}"
    using j by auto
  ultimately show ?case using IH by (auto simp: free_frames free_arena Suc.prems(1) u)
qed

lemma reserve_pages_frames:
  fixes base_id :: "'p word"
  assumes "inv s" and "i \<le> n" and "unat base_id + n \<le> 2 ^ LENGTH('p)"
    and "{unat base_id ..< unat base_id + i} \<inter> frames s = {}" and "{unat base_id ..< unat base_id + i} \<subseteq> arena s"
  defines "r \<equiv> reserve_pages alloc_at free s base_id i n"
    and "all \<equiv> frames s \<union> {unat base_id ..< unat base_id + i}"
  shows "inv (snd r) \<and> arena (snd r) = arena s \<and>
    (if {unat base_id ..< unat base_id + n} \<subseteq> all
     then fst r = 0 \<and> frames (snd r) = all - {unat base_id ..< unat base_id + n}
     else fst r = - ENOMEM \<and> frames (snd r) = all)"
  using assms(1-5) unfolding r_def all_def
proof (induction "n - i" arbitrary: s i)
  case 0
  then have i: "i = n" by simp
  then have "reserve_pages alloc_at free s base_id i n = (0, s)" by (subst reserve_pages.simps) simp
  moreover have "frames s \<union> {unat base_id ..< unat base_id + n} - {unat base_id ..< unat base_id + n} = frames s"
    by (rule Diff_triv_union) (use 0(5) i in simp)
  ultimately show ?case using 0(2) unfolding i by simp
next
  case (Suc d)
  then have i: "i < n" by simp
  let ?x = "unat base_id + i"
  have u: "unat (base_id + of_nat i) = ?x" by (rule unat_add_of_nat) (use i Suc.prems(3) in linarith)
  have run: "{unat base_id ..< unat base_id + (i + 1)} = insert ?x {unat base_id ..< ?x}" by auto
  show ?case
  proof (cases "?x \<in> frames s")
    case True
    let ?s = "snd (alloc_at s (base_id + of_nat i))"
    note al = alloc_at_free [OF Suc.prems(1), of "base_id + of_nat i", unfolded u, OF True]
    have step: "reserve_pages alloc_at free s base_id i n = reserve_pages alloc_at free ?s base_id (i + 1) n"
      using i al by (subst reserve_pages.simps) (simp add: split_beta)
    have all: "frames ?s \<union> {unat base_id ..< unat base_id + (i + 1)} = frames s \<union> {unat base_id ..< ?x}"
      using al True unfolding run by auto
    have dis: "{unat base_id ..< unat base_id + (i + 1)} \<inter> frames ?s = {}"
      using al Suc.prems(4) unfolding run by auto
    have sub: "{unat base_id ..< unat base_id + (i + 1)} \<subseteq> arena ?s"
      using al Suc.prems(5) True frames_arena [OF Suc.prems(1)] unfolding run by auto
    have d: "d = n - (i + 1)" and le: "i + 1 \<le> n" using Suc.hyps(2) i by simp_all
    have iv: "inv ?s" and ar: "arena ?s = arena s" using al by auto
    from Suc.hyps(1) [OF d iv le Suc.prems(3) dis sub] show ?thesis unfolding step all ar .
  next
    case False
    have "alloc_at s (base_id + of_nat i) = (- 1, s)" by (rule alloc_at_used) (use Suc.prems u False in auto)
    then have step: "reserve_pages alloc_at free s base_id i n = (- ENOMEM, free_pages free s base_id 0 i)"
      using i by (subst reserve_pages.simps) simp
    have no: "\<not> {unat base_id ..< unat base_id + n} \<subseteq> frames s \<union> {unat base_id ..< ?x}"
    proof
      assume "{unat base_id ..< unat base_id + n} \<subseteq> frames s \<union> {unat base_id ..< ?x}"
      moreover have "?x \<in> {unat base_id ..< unat base_id + n}" using i by simp
      ultimately have "?x \<in> frames s \<union> {unat base_id ..< ?x}" by (rule subsetD)
      then show False using False by simp
    qed
    show ?thesis
      unfolding step if_not_P [OF no] using free_pages_frames [of s 0 i base_id] Suc.prems i by auto
  qed
qed

end

subsection \<open>Properties of regions\<close>

lemma region_page_count_unat:
  assumes "unat size' + 4095 < 2 ^ 32"
  shows "unat (region_page_count size') = (unat size' + 4095) div 4096"
proof -
  have "size' + PAGE_SIZE - 1 = size' + 4095" by simp
  then show ?thesis unfolding region_page_count_def using assms by (simp add: unat_div unat_word_ariths)
qed

lemma region_alloc_at_aux:
  fixes s :: "'p::len word page_mm" and base size' flags :: u32 and out :: "'p word region"
  assumes inv: "page_inv s" and args: "base \<noteq> 0" "size' \<noteq> 0"
    and cls: "cls \<in> {PPAP_MEM_RAM_DATA, PPAP_MEM_RAM_STACK, PPAP_MEM_RAM_RODATA, PPAP_MEM_DEVICE_DMA}"
    and big: "unat size' + 4095 < 2 ^ 32"
    and fit: "unat (page_from_ptr base :: 'p word) + (unat size' + 4095) div 4096 \<le> 2 ^ LENGTH('p)"
  defines "first \<equiv> unat (page_from_ptr base :: 'p word)"
  defines "run \<equiv> {first ..< first + (unat size' + 4095) div 4096}"
  defines "r \<equiv> region_alloc_at s cls base size' flags (Some out)"
  shows "page_inv (snd (snd r)) \<and> page_arena (snd (snd r)) = page_arena s \<and>
    (if run \<subseteq> page_frames s
     then fst r = 0 \<and> page_frames (snd (snd r)) = page_frames s - run
       \<and> fst (snd r) = Some (out\<lparr>rg_base := base, rg_base_page := page_from_ptr base\<rparr>)
     else fst r = - ENOMEM \<and> page_frames (snd (snd r)) = page_frames s \<and> fst (snd r) = Some out)"
proof -
  let ?n = "(unat size' + 4095) div 4096"
  define q where "q = reserve_pages page_alloc_at page_free s (page_from_ptr base) 0 ?n"
  have r: "r = (if fst q < 0 then (fst q, Some out, snd q)
      else (0, Some (out\<lparr>rg_base := base, rg_base_page := page_from_ptr base\<rparr>), snd q))"
    using args cls by (auto simp: r_def region_alloc_at_def q_def region_page_count_unat [OF big]
        Let_def split_beta)
  show ?thesis
    using page.reserve_pages_frames [OF inv _ fit, of 0] unfolding r q_def [symmetric] run_def first_def
    by (auto split: if_splits)
qed

text \<open>C8: placed allocation is all or nothing. For a page-backed class \<^verbatim>\<open>region_alloc_at\<close>
  takes every page of the range when all of them are free; when one is not, the pages taken so far are
  given back, the free set is the one of before and the result is -ENOMEM. The range is the size rounded
  up to pages from the page of the base address.\<close>

theorem region_alloc_at_atomic:
  fixes s :: "'p::len word page_mm" and base size' flags :: u32 and out :: "'p word region"
  assumes inv: "page_inv s" and args: "base \<noteq> 0" "size' \<noteq> 0"
    and cls: "cls \<in> {PPAP_MEM_RAM_DATA, PPAP_MEM_RAM_STACK, PPAP_MEM_RAM_RODATA, PPAP_MEM_DEVICE_DMA}"
    and big: "unat size' + 4095 < 2 ^ 32"
    and fit: "unat (page_from_ptr base :: 'p word) + (unat size' + 4095) div 4096 \<le> 2 ^ LENGTH('p)"
  defines "first \<equiv> unat (page_from_ptr base :: 'p word)"
  defines "run \<equiv> {first ..< first + (unat size' + 4095) div 4096}"
  defines "r \<equiv> region_alloc_at s cls base size' flags (Some out)"
  shows "page_inv (snd (snd r)) \<and>
    (if run \<subseteq> page_frames s
     then fst r = 0 \<and> page_frames (snd (snd r)) = page_frames s - run
       \<and> fst (snd r) = Some (out\<lparr>rg_base := base, rg_base_page := page_from_ptr base\<rparr>)
     else fst r = - ENOMEM \<and> page_frames (snd (snd r)) = page_frames s \<and> fst (snd r) = Some out)"
  using region_alloc_at_aux [OF inv args cls big fit] unfolding r_def run_def first_def by simp

lemma page_alloc_arena:
  "page_arena (snd (page_alloc s)) = page_arena s" "page_arena (snd (page_alloc_n s n)) = page_arena s"
  by (simp_all add: page_alloc_def page_alloc_n_def Let_def split_beta)

lemma region_alloc_pages:
  fixes s :: "'p::len word page_mm" and size' :: u32
  assumes inv: "page_inv s" and size': "size' \<noteq> 0" "unat size' + 4095 < 2 ^ 28"
    and ok: "region_alloc s cls size' flags (Some out) = (0, r, s')"
  defines "n \<equiv> (unat size' + 4095) div 4096"
  obtains pid where "r = Some (out\<lparr>rg_base := page_linear pid, rg_base_page := pid\<rparr>)" "pid \<noteq> PAGE_ID_INVALID"
    "{unat pid ..< unat pid + n} \<subseteq> page_frames s" "page_frames s' = page_frames s - {unat pid ..< unat pid + n}"
    "page_inv s'" "page_arena s' = page_arena s"
proof -
  let ?n = "region_page_count size'"
  have n: "unat ?n = n" unfolding n_def by (rule region_page_count_unat) (use size' in simp)
  have n16: "n < 2 ^ 16" using size'(2) unfolding n_def by (simp add: div_less_iff_less_mult)
  have "0 < unat size'" using size'(1) by (simp add: unat_pos_iff)
  then have n0: "0 < n" unfolding n_def by (simp add: div_greater_zero_iff)
  then have n0': "?n \<noteq> 0" using n by (metis less_irrefl unat_0)
  define a where "a = (if ?n = 1 then page_alloc s else page_alloc_n s ?n)"
  have ne: "fst a \<noteq> PAGE_ID_INVALID" and r: "r = Some (out\<lparr>rg_base := page_linear (fst a), rg_base_page := fst a\<rparr>)"
    and s': "s' = snd a"
    using ok size'(1)
    by (auto simp: region_alloc_def mem_helper_alloc_def region_alloc_page_backed_def a_def Let_def
        split_beta split: if_splits)
  have "{unat (fst a) ..< unat (fst a) + n} \<subseteq> page_frames s \<and>
      page_frames s' = page_frames s - {unat (fst a) ..< unat (fst a) + n} \<and> page_inv s'"
  proof (cases "?n = 1")
    case True
    then have "n = 1" using n by simp
    moreover have "page_frames s \<noteq> {}"
      using page_alloc_aux [OF inv] ne True by (auto simp: a_def split: if_splits)
    ultimately show ?thesis
      using page_alloc_aux [OF inv] True Max_in [of "page_frames s"]
      by (simp add: a_def s' split_beta page_frames_def)
  next
    case False
    then show ?thesis
      using page_alloc_n_aux [OF inv n0', unfolded n] n16 ne
      by (auto simp: a_def s' split_beta split: if_splits)
  qed
  moreover have "page_arena s' = page_arena s" by (simp add: s' a_def page_alloc_arena)
  ultimately show thesis using that [OF r ne] by blast
qed

text \<open>A region gives back what it took. After a successful \<^verbatim>\<open>region_alloc\<close> of a non-empty
  size, the region's pages were free and are no longer, and \<^verbatim>\<open>region_free\<close> with the same size
  restores exactly the free set of before.\<close>

theorem region_alloc_free_roundtrip:
  fixes s :: "'p::len word page_mm" and size' :: u32
  assumes inv: "page_inv s" and size': "size' \<noteq> 0" "unat size' + 4095 < 2 ^ 28"
    and ok: "region_alloc s cls size' flags (Some out) = (0, r, s')"
  shows "page_inv s' \<and> page_frames s' \<subset> page_frames s
    \<and> card (page_frames s - page_frames s') = (unat size' + 4095) div 4096
    \<and> page_frames (region_free s' cls size' r) = page_frames s"
proof -
  let ?n = "(unat size' + 4095) div 4096"
  obtain pid where r: "r = Some (out\<lparr>rg_base := page_linear pid, rg_base_page := pid\<rparr>)" "pid \<noteq> PAGE_ID_INVALID"
    and sub: "{unat pid ..< unat pid + ?n} \<subseteq> page_frames s"
    and fr: "page_frames s' = page_frames s - {unat pid ..< unat pid + ?n}"
    and inv': "page_inv s'" and ar: "page_arena s' = page_arena s"
    using region_alloc_pages [OF assms] .
  have "0 < unat size'" using size'(1) by (simp add: unat_pos_iff)
  then have n0: "0 < ?n" by (simp add: div_greater_zero_iff)
  then have "unat pid + ?n - 1 \<in> page_arena s" using sub page_invD(2) [OF inv] by (auto simp: subset_iff)
  then have fit: "unat pid + ?n \<le> 2 ^ LENGTH('p)" using page_invD(4) [OF inv] n0 by fastforce
  have "region_free s' cls size' r = free_pages page_free s' pid 0 ?n"
    using r size' region_page_count_unat [of size']
    by (simp add: region_free_def mem_helper_free_def region_free_page_backed_def Let_def)
  then have "page_frames (region_free s' cls size' r) = page_frames s' \<union> ({unat pid ..< unat pid + ?n} \<inter> page_arena s)"
    using page.free_pages_frames [OF inv' _ fit, of 0] ar by simp
  also have "\<dots> = page_frames s" using sub page_invD(2) [OF inv] unfolding fr by auto
  finally have "page_frames (region_free s' cls size' r) = page_frames s" .
  moreover have d: "page_frames s - page_frames s' = {unat pid ..< unat pid + ?n}" using sub unfolding fr by auto
  moreover have "page_frames s' \<noteq> page_frames s" using d n0 by auto
  ultimately show ?thesis using inv' fr by auto
qed

theorem region_alloc_at_atomic_witness:
  "page_frames (snd (snd (region_alloc_at demo_mm PPAP_MEM_RAM_DATA 0x14000 5000 0
      (Some \<lparr>rg_base = 0, rg_base_page = 0\<rparr>)))) = {19, 22, 23}
   \<and> fst (region_alloc_at demo_mm PPAP_MEM_RAM_DATA 0x12000 8192 0
      (Some \<lparr>rg_base = 0, rg_base_page = 0\<rparr>)) = - ENOMEM"
proof -
  have p: "unat (page_from_ptr 0x14000 :: 16 word) = 20" "unat (page_from_ptr 0x12000 :: 16 word) = 18"
    by (simp_all add: page_from_ptr_def linear_page_id_def)
  have sets: "{20 ..< 22} \<subseteq> {19 ..< 24 :: nat}" "{19 ..< 24} - {20 ..< 22} = {19, 22, 23 :: nat}"
    "\<not> {18 ..< 20} \<subseteq> {19 ..< 24 :: nat}" by auto
  show ?thesis
    using region_alloc_at_atomic [OF demo_mm_facts(3), of "0x14000" 5000 PPAP_MEM_RAM_DATA 0 "\<lparr>rg_base = 0, rg_base_page = 0\<rparr>"]
      region_alloc_at_atomic [OF demo_mm_facts(3), of "0x12000" 8192 PPAP_MEM_RAM_DATA 0 "\<lparr>rg_base = 0, rg_base_page = 0\<rparr>"] sets
    by (simp add: p demo_mm_facts)
qed

theorem region_alloc_free_roundtrip_witness:
  "let (rc, r, s) = region_alloc demo_mm PPAP_MEM_RAM_STACK 8192 0 (Some \<lparr>rg_base = 0, rg_base_page = 0\<rparr>)
   in rc = 0 \<and> card (page_frames demo_mm - page_frames s) = 2
     \<and> page_frames (region_free s PPAP_MEM_RAM_STACK 8192 r) = page_frames demo_mm"
proof -
  define a where "a = region_alloc demo_mm PPAP_MEM_RAM_STACK 8192 0 (Some \<lparr>rg_base = 0, rg_base_page = 0\<rparr>)"
  have "fst a = 0"
    by (simp add: a_def region_alloc_def mem_helper_alloc_def region_alloc_page_backed_def region_page_count_def
        page_alloc_n_def pool_take_n_def demo_mm_def block_find_first_fit_def find_index.simps Let_def
        PAGE_ID_INVALID_def)
  then have "region_alloc demo_mm PPAP_MEM_RAM_STACK 8192 0 (Some \<lparr>rg_base = 0, rg_base_page = 0\<rparr>)
      = (0, fst (snd a), snd (snd a))" by (simp add: a_def prod_eq_iff)
  from region_alloc_free_roundtrip [OF demo_mm_facts(3) _ _ this] show ?thesis
    unfolding a_def [symmetric] using \<open>fst a = 0\<close> by (simp add: split_beta)
qed

text \<open>A size so large that rounding up wraps reserves nothing and reports success.\<close>

lemma region_alloc_at_wraps:
  "region_alloc_at s PPAP_MEM_RAM_DATA 0x1000 0xFFFFFFFF 0 (Some out) =
    (0, Some (out\<lparr>rg_base := 0x1000, rg_base_page := page_from_ptr 0x1000\<rparr>), s)"
  by (simp add: region_alloc_at_def region_page_count_def reserve_pages.simps)

end
