(* ===== verification/User_Mem.thy ===== *)
theory User_Mem
  imports Region
begin

text \<open>
  The user memory of a process: the page tracking functions of \<^verbatim>\<open>src/kernel/core/proc/proc.c\<close> and
  the calls of \<^verbatim>\<open>src/kernel/core/syscall/sys_mem.c\<close>, for the targets with page-backed processes
  (all but the 8086 one, whose code is under \<^verbatim>\<open>__ia16__\<close>). The record holds the fields of the PCB
  these functions use; the PCB pointer is not null. Setting pages to zero has no effect on the modelled
  state. Every call works on the tracked pages and on the page allocator.
\<close>

subsection \<open>Page tracking\<close>

record 'w umem =
  user_pages :: "'w list"
  stack_page_id :: 'w
  user_stack_page :: u32
  brk_base :: u32
  brk_current :: u32

text \<open>The number of page slots of a process; 512 on the m68k targets.\<close>

abbreviation USER_PAGES_MAX :: nat where "USER_PAGES_MAX \<equiv> 64"

text \<open>The loop of \<^verbatim>\<open>proc_track_page_range\<close> and of the mmap calls: consecutive pages into consecutive
  slots.\<close>

function track_run :: "'p::len word list \<Rightarrow> nat \<Rightarrow> 'p word \<Rightarrow> nat \<Rightarrow> nat \<Rightarrow> 'p word list" where
  "track_run pages start base i n =
     (if i < n then track_run (pages[start + i := base + of_nat i]) start base (i + 1) n else pages)"
  by auto
termination by (relation "measure (\<lambda>(pages, start, base, i, n). n - i)") auto

definition proc_track_page_range :: "'p::len word umem \<Rightarrow> u32 \<Rightarrow> 'p word \<Rightarrow> u32 \<Rightarrow> int \<times> 'p word umem" where
  "proc_track_page_range p start_slot base_page_id n_pages =
     (if base_page_id = PAGE_ID_INVALID \<or> n_pages = 0 then (0, p)
      else if 64 < start_slot \<or> 64 - start_slot < n_pages then (- ENOMEM, p)
      else (int (unat n_pages),
            p\<lparr>user_pages := track_run (user_pages p) (unat start_slot) base_page_id 0 (unat n_pages)\<rparr>))"

definition proc_track_page :: "'p::len word umem \<Rightarrow> u32 \<Rightarrow> 'p word \<Rightarrow> int \<times> 'p word umem" where
  "proc_track_page p slot page_id =
     (if page_id = PAGE_ID_INVALID then (0, p)
      else if 64 \<le> slot then (- ENOMEM, p)
      else (0, p\<lparr>user_pages := (user_pages p)[unat slot := page_id]\<rparr>))"

definition proc_first_page_backed_slot :: "'p::len word umem \<Rightarrow> nat" where
  "proc_first_page_backed_slot p =
     (case find (\<lambda>i. user_pages p ! i \<noteq> PAGE_ID_INVALID) [0..<USER_PAGES_MAX] of
        Some i \<Rightarrow> i | None \<Rightarrow> USER_PAGES_MAX)"

definition proc_last_page_backed_slot :: "'p::len word umem \<Rightarrow> nat" where
  "proc_last_page_backed_slot p =
     (case find (\<lambda>i. user_pages p ! i \<noteq> PAGE_ID_INVALID) (rev [0..<USER_PAGES_MAX]) of
        Some i \<Rightarrow> i | None \<Rightarrow> USER_PAGES_MAX)"

definition proc_page_backed_base :: "'p::len word umem \<Rightarrow> 'p word" where
  "proc_page_backed_base p =
     (let slot = proc_first_page_backed_slot p
      in if USER_PAGES_MAX \<le> slot then PAGE_ID_INVALID else user_pages p ! slot)"

definition proc_last_page_backed_base :: "'p::len word umem \<Rightarrow> 'p word" where
  "proc_last_page_backed_base p =
     (let slot = proc_last_page_backed_slot p
      in if USER_PAGES_MAX \<le> slot then PAGE_ID_INVALID else user_pages p ! slot)"

function count_run :: "'p::len word list \<Rightarrow> nat \<Rightarrow> nat \<Rightarrow> nat" where
  "count_run pages slot count =
     (if slot < USER_PAGES_MAX \<and> pages ! slot \<noteq> PAGE_ID_INVALID then count_run pages (slot + 1) (count + 1)
      else count)"
  by auto
termination by (relation "measure (\<lambda>(pages, slot, count). USER_PAGES_MAX - slot)") auto

definition proc_page_backed_count :: "'p::len word umem \<Rightarrow> nat" where
  "proc_page_backed_count p =
     (let slot = proc_first_page_backed_slot p
      in if USER_PAGES_MAX \<le> slot then 0 else count_run (user_pages p) slot 0)"

definition proc_tracked_page_count :: "'p::len word umem \<Rightarrow> nat" where
  "proc_tracked_page_count p = length (filter (\<lambda>i. user_pages p ! i \<noteq> PAGE_ID_INVALID) [0..<USER_PAGES_MAX])"

definition proc_page_backed_contains :: "'p::len word umem \<Rightarrow> u32 \<Rightarrow> bool" where
  "proc_page_backed_contains p addr =
     list_ex (\<lambda>i. user_pages p ! i \<noteq> PAGE_ID_INVALID \<and> page_linear (user_pages p ! i) \<le> addr
       \<and> addr < page_linear (user_pages p ! i) + PAGE_SIZE) [0..<USER_PAGES_MAX]"

definition proc_user_stack_page_id :: "'p::len word umem \<Rightarrow> 'p word" where
  "proc_user_stack_page_id p =
     (if user_stack_page p \<noteq> 0 then page_from_ptr (user_stack_page p) else stack_page_id p)"

definition proc_clear_page_tracking :: "'p::len word umem \<Rightarrow> 'p word umem" where
  "proc_clear_page_tracking p = p\<lparr>user_pages := map (\<lambda>_. PAGE_ID_INVALID) (user_pages p)\<rparr>"

definition proc_copy_page_tracking :: "'p::len word umem \<Rightarrow> 'p word umem \<Rightarrow> 'p word umem" where
  "proc_copy_page_tracking dst src = dst\<lparr>user_pages := user_pages src\<rparr>"

definition proc_copy_page_tracking_to_array :: "'p::len word umem \<Rightarrow> 'p word list" where
  "proc_copy_page_tracking_to_array src = user_pages src"

definition proc_restore_page_tracking_from_array :: "'p::len word umem \<Rightarrow> 'p word list \<Rightarrow> 'p word umem" where
  "proc_restore_page_tracking_from_array dst src = dst\<lparr>user_pages := src\<rparr>"

subsection \<open>Releasing tracked pages\<close>

text \<open>The loops that free pages and clear their slots: \<open>keep\<close> tells which slots are left alone.\<close>

function release_slots ::
  "(nat \<Rightarrow> 'p::len word \<Rightarrow> bool) \<Rightarrow> 'p word list \<Rightarrow> 'p word page_mm \<Rightarrow> nat \<Rightarrow> nat \<Rightarrow> 'p word list \<times> 'p word page_mm" where
  "release_slots keep pages s i e =
     (if i < e then
        if pages ! i = PAGE_ID_INVALID \<or> keep i (pages ! i) then release_slots keep pages s (i + 1) e
        else release_slots keep (pages[i := PAGE_ID_INVALID]) (page_free s (pages ! i)) (i + 1) e
      else (pages, s))"
  by auto
termination by (relation "measure (\<lambda>(keep, pages, s, i, e). e - i)") auto

definition proc_release_tracked_pages ::
  "'p::len word umem \<Rightarrow> 'p word page_mm \<Rightarrow> u32 \<Rightarrow> u32 \<Rightarrow> 'p word umem \<times> 'p word page_mm" where
  "proc_release_tracked_pages p s start_slot end_slot =
     (if 64 \<le> start_slot then (p, s)
      else
        let end_slot = (if 64 < end_slot then 64 else end_slot);
            (pages, s) = release_slots (\<lambda>_ _. False) (user_pages p) s (unat start_slot) (unat end_slot)
        in (p\<lparr>user_pages := pages\<rparr>, s))"

definition proc_release_private_tracked_pages ::
  "'p::len word umem \<Rightarrow> 'p word umem \<Rightarrow> 'p word page_mm \<Rightarrow> 'p word umem \<times> 'p word page_mm" where
  "proc_release_private_tracked_pages p shared_owner s =
     (let (pages, s) = release_slots (\<lambda>i pg. pg = user_pages shared_owner ! i) (user_pages p) s 0 USER_PAGES_MAX
      in (p\<lparr>user_pages := pages\<rparr>, s))"

text \<open>The array variants leave the array as it is.\<close>

definition proc_release_tracked_pages_from_array ::
  "'p::len word list \<Rightarrow> 'p word page_mm \<Rightarrow> 'p word page_mm" where
  "proc_release_tracked_pages_from_array pages s = snd (release_slots (\<lambda>_ _. False) pages s 0 USER_PAGES_MAX)"

definition proc_release_private_tracked_pages_from_array ::
  "'p::len word list \<Rightarrow> 'p word list \<Rightarrow> 'p word page_mm \<Rightarrow> 'p word page_mm" where
  "proc_release_private_tracked_pages_from_array pages shared s =
     snd (release_slots (\<lambda>i pg. pg = shared ! i) pages s 0 USER_PAGES_MAX)"

subsection \<open>The break\<close>

abbreviation region_zero :: "'p::len word region" where
  "region_zero \<equiv> \<lparr>rg_base = 0, rg_base_page = 0\<rparr>"

text \<open>The expansion loop: None when all pages could be had, otherwise the index where it failed.\<close>

function brk_grow ::
  "'p::len word umem \<Rightarrow> 'p word page_mm \<Rightarrow> u32 \<Rightarrow> u32 \<Rightarrow> u32 \<Rightarrow> u32 option \<times> 'p word umem \<times> 'p word page_mm" where
  "brk_grow p s page0_base i new_pages =
     (if i < new_pages then
        let target = page0_base + i * PAGE_SIZE;
            (rc, r, s) = region_alloc_at s PPAP_MEM_RAM_DATA target PAGE_SIZE 0 (Some region_zero)
        in if rc < 0 then (Some i, p, s)
           else brk_grow (snd (proc_track_page p i (case r of Some r \<Rightarrow> rg_base_page r | None \<Rightarrow> 0))) s
                  page0_base (i + 1) new_pages
      else (None, p, s))"
  by auto
termination
  by (relation "measure (\<lambda>(p, s, b, i, n). unat n - unat i)")
    (auto simp: unat_inc_less word_less_nat_alt intro!: diff_less_mono2)

definition sys_brk :: "u32 \<Rightarrow> 'p::len word umem \<Rightarrow> 'p word page_mm \<Rightarrow> u32 \<times> 'p word umem \<times> 'p word page_mm" where
  "sys_brk addr p s =
     (if addr = 0 then (brk_current p, p, s)
      else if addr < brk_base p then (brk_current p, p, s)
      else
        let page0_id = proc_page_backed_base p in
        if page0_id = PAGE_ID_INVALID then (brk_current p, p, s)
        else
          let page0_base = page_linear page0_id;
              old_pages = (brk_current p - page0_base + PAGE_SIZE - 1) div PAGE_SIZE;
              new_pages = (addr - page0_base + PAGE_SIZE - 1) div PAGE_SIZE
          in if 64 < new_pages then (brk_current p, p, s)
             else
               (case brk_grow p s page0_base old_pages new_pages of
                  (Some i, p, s) \<Rightarrow>
                    let (p, s) = proc_release_tracked_pages p s old_pages i in (brk_current p, p, s)
                | (None, p, s) \<Rightarrow>
                    let (p, s) = proc_release_tracked_pages p s new_pages old_pages
                    in (addr, p\<lparr>brk_current := addr\<rparr>, s)))"

subsection \<open>Anonymous mappings\<close>

abbreviation MAP_ANONYMOUS :: u32 where "MAP_ANONYMOUS \<equiv> 0x20"
abbreviation MAP_FIXED :: u32 where "MAP_FIXED \<equiv> 0x10"

text \<open>The search of \<^verbatim>\<open>mmap_find_slots\<close>, downwards from slot \<open>i\<close> with \<open>run\<close> free slots seen.\<close>

fun find_slots :: "'p::len word list \<Rightarrow> nat \<Rightarrow> nat \<Rightarrow> nat \<Rightarrow> nat option" where
  "find_slots pages num_pages 0 run = None"
| "find_slots pages num_pages (Suc i) run =
     (if pages ! i = PAGE_ID_INVALID
      then if num_pages \<le> run + 1 then Some i else find_slots pages num_pages i (run + 1)
      else find_slots pages num_pages i 0)"

definition mmap_find_slots :: "'p::len word umem \<Rightarrow> u32 \<Rightarrow> nat option" where
  "mmap_find_slots p num_pages = find_slots (user_pages p) (unat num_pages) USER_PAGES_MAX 0"

definition sys_mmap2 ::
  "u32 \<Rightarrow> u32 \<Rightarrow> u32 \<Rightarrow> u32 \<Rightarrow> 'p::len word umem \<Rightarrow> 'p word page_mm \<Rightarrow> (int + u32) \<times> 'p word umem \<times> 'p word page_mm" where
  "sys_mmap2 addr len flags fd p s =
     (if \<not> nz (flags AND MAP_ANONYMOUS) then (Inl (- ENOSYS), p, s)
      else if sint fd \<noteq> - 1 then (Inl (- EINVAL), p, s)
      else if len = 0 then (Inl (- EINVAL), p, s)
      else
        let num_pages = (len + PAGE_SIZE - 1) div PAGE_SIZE in
        case mmap_find_slots p num_pages of
          None \<Rightarrow> (Inl (- ENOMEM), p, s)
        | Some slot \<Rightarrow>
            let size' = num_pages * PAGE_SIZE;
                fixed = nz (flags AND MAP_FIXED) \<and> addr \<noteq> 0;
                (rc, r, s) = (if fixed then region_alloc_at s PPAP_MEM_RAM_DATA addr size' 0 (Some region_zero)
                              else region_alloc s PPAP_MEM_RAM_DATA size' 0 (Some region_zero))
            in if rc < 0 then (Inl (- ENOMEM), p, s)
               else
                 let r = (case r of Some r \<Rightarrow> r | None \<Rightarrow> region_zero)
                 in (Inr (if fixed then addr else rg_base r),
                     p\<lparr>user_pages := track_run (user_pages p) slot (rg_base_page r) 0 (unat num_pages)\<rparr>, s))"

text \<open>The inner loop of \<^verbatim>\<open>sys_munmap\<close> from slot \<open>i\<close>, for at most \<open>n\<close> pages.\<close>

fun unmap_run :: "nat \<Rightarrow> nat \<Rightarrow> 'p::len word list \<Rightarrow> 'p word page_mm \<Rightarrow> 'p word list \<times> 'p word page_mm" where
  "unmap_run 0 i pages s = (pages, s)"
| "unmap_run (Suc n) i pages s =
     (if i < USER_PAGES_MAX \<and> pages ! i \<noteq> PAGE_ID_INVALID
      then unmap_run n (i + 1) (pages[i := PAGE_ID_INVALID]) (page_free s (pages ! i))
      else (pages, s))"

definition sys_munmap :: "u32 \<Rightarrow> u32 \<Rightarrow> 'p::len word umem \<Rightarrow> 'p word page_mm \<Rightarrow> int \<times> 'p word umem \<times> 'p word page_mm" where
  "sys_munmap addr len p s =
     (if addr = 0 \<or> len = 0 then (- EINVAL, p, s)
      else
        let num_pages = (len + PAGE_SIZE - 1) div PAGE_SIZE in
        case find (\<lambda>i. user_pages p ! i \<noteq> PAGE_ID_INVALID \<and> page_linear (user_pages p ! i) = addr) [0..<USER_PAGES_MAX] of
          Some i \<Rightarrow> let (pages, s) = unmap_run (unat num_pages) i (user_pages p) s in (0, p\<lparr>user_pages := pages\<rparr>, s)
        | None \<Rightarrow> (0, p, region_free s PPAP_MEM_RAM_DATA (num_pages * PAGE_SIZE)
                           (Some \<lparr>rg_base = addr, rg_base_page = page_from_ptr addr\<rparr>)))"

declare track_run.simps [simp del] count_run.simps [simp del] release_slots.simps [simp del] brk_grow.simps [simp del]

text \<open>The frames a process tracks in a range of slots; a process is consistent with the allocator when
  its tracked pages are pages of the arena that are not free, and no page is tracked twice. The arena lies
  in the 32-bit address space, above page 0.\<close>

definition slots_frames :: "'p::len word list \<Rightarrow> nat set \<Rightarrow> nat set" where
  "slots_frames pages I = {unat (pages ! i) |i. i \<in> I \<and> pages ! i \<noteq> PAGE_ID_INVALID}"

definition user_ok :: "'p::len word umem \<Rightarrow> 'p word page_mm \<Rightarrow> bool" where
  "user_ok p s \<longleftrightarrow> length (user_pages p) = USER_PAGES_MAX \<and> page_inv s \<and> page_arena s \<subseteq> {0<..<2 ^ 20}
     \<and> slots_frames (user_pages p) {..<USER_PAGES_MAX} \<subseteq> page_arena s - page_frames s
     \<and> (\<forall>i < USER_PAGES_MAX. \<forall>j < USER_PAGES_MAX. user_pages p ! i \<noteq> PAGE_ID_INVALID \<longrightarrow>
          user_pages p ! i = user_pages p ! j \<longrightarrow> i = j)"

abbreviation tracked :: "'p::len word umem \<Rightarrow> nat set" where
  "tracked p \<equiv> slots_frames (user_pages p) {..<USER_PAGES_MAX}"

text \<open>The number of pages the image and heap take up to an address, as integer arithmetic.\<close>

definition pages_up_to :: "'p::len word \<Rightarrow> u32 \<Rightarrow> nat" where
  "pages_up_to page0 a = (unat a - unat page0 * 4096 + 4095) div 4096"

text \<open>A process with its image in pages 16 to 18, on the arena of pages 16 to 23 of which 19 to 23 are free,
  and one that has no page.\<close>

definition demo_umem :: "16 word umem" where
  "demo_umem = \<lparr>user_pages = [16, 17, 18] @ replicate 61 PAGE_ID_INVALID, stack_page_id = PAGE_ID_INVALID,
     user_stack_page = 0, brk_base = 0x13000, brk_current = 0x13000\<rparr>"

definition demo_other :: "16 word umem" where
  "demo_other = demo_umem\<lparr>user_pages := replicate 64 PAGE_ID_INVALID\<rparr>"

lemma slots_frames_Un: "slots_frames pages (I \<union> J) = slots_frames pages I \<union> slots_frames pages J"
  by (auto simp: slots_frames_def)

lemma slots_frames_insert:
  "slots_frames pages (insert i I) = (if pages ! i = PAGE_ID_INVALID then {} else {unat (pages ! i)}) \<union> slots_frames pages I"
  by (auto simp: slots_frames_def)

lemma slots_frames_empty [simp]: "slots_frames pages {} = {}"
  by (simp add: slots_frames_def)

lemma slots_frames_cong: "(\<And>i. i \<in> I \<Longrightarrow> pages ! i = pages' ! i) \<Longrightarrow> slots_frames pages I = slots_frames pages' I"
  unfolding slots_frames_def by (auto intro!: Collect_cong) metis+

text \<open>Freeing a range of slots adds exactly its frames to the free set.\<close>

lemma release_slots_frames:
  fixes pages :: "'p::len word list" and s :: "'p word page_mm" and keep :: "nat \<Rightarrow> 'p word \<Rightarrow> bool" and i e :: nat
  assumes "page_inv s" and "e \<le> length pages"
  defines "r \<equiv> release_slots keep pages s i e"
    and "I \<equiv> {j. i \<le> j \<and> j < e \<and> \<not> keep j (pages ! j)}"
  shows "page_inv (snd r) \<and> page_arena (snd r) = page_arena s
    \<and> page_frames (snd r) = page_frames s \<union> (slots_frames pages I \<inter> page_arena s)
    \<and> length (fst r) = length pages
    \<and> (\<forall>j. fst r ! j = (if j \<in> I then PAGE_ID_INVALID else pages ! j))"
  using assms(1,2) unfolding r_def I_def
proof (induction "e - i" arbitrary: i pages s)
  case 0
  then have "\<not> i < e" by simp
  then have I: "{j. i \<le> j \<and> j < e \<and> \<not> keep j (pages ! j)} = {}" by auto
  show ?case unfolding I release_slots.simps [of keep pages s i] using \<open>\<not> i < e\<close> 0 by simp
next
  case (Suc d)
  then have i: "i < e" and d: "d = e - (i + 1)" by simp_all
  let ?I = "\<lambda>pages i. {j. i \<le> j \<and> j < e \<and> \<not> keep j (pages ! j)}"
  show ?case
  proof (cases "pages ! i = PAGE_ID_INVALID \<or> keep i (pages ! i)")
    case True
    have eq: "release_slots keep pages s i e = release_slots keep pages s (i + 1) e"
      using True i by (simp add: release_slots.simps [of keep pages s i])
    note IH = Suc.hyps(1) [OF d Suc.prems]
    have I: "?I pages i = (if keep i (pages ! i) then {} else {i}) \<union> ?I pages (i + 1)"
      using i by (auto simp: Suc_le_eq le_less)
    have fr: "slots_frames pages (?I pages i) = slots_frames pages (?I pages (i + 1))"
      unfolding I slots_frames_Un using True by (auto simp: slots_frames_def)
    have sl: "(if j \<in> ?I pages i then PAGE_ID_INVALID else pages ! j) = (if j \<in> ?I pages (i + 1) then PAGE_ID_INVALID else pages ! j)" for j
      unfolding I using True by auto
    show ?thesis using IH unfolding eq fr sl .
  next
    case False
    let ?pages = "pages[i := PAGE_ID_INVALID]" and ?s = "page_free s (pages ! i)"
    have il: "i < length pages" using i Suc.prems(2) by simp
    have eq: "release_slots keep pages s i e = release_slots keep ?pages ?s (i + 1) e"
      using False i by (simp add: release_slots.simps [of keep pages s i])
    note fr = page_free_frames [OF Suc.prems(1), of "pages ! i"]
    have "page_inv ?s" "e \<le> length ?pages" using fr Suc.prems(2) by auto
    note IH = Suc.hyps(1) [OF d this]
    have I: "?I pages i = insert i (?I pages (i + 1))" using i False by auto
    have I': "?I ?pages (i + 1) = ?I pages (i + 1)" by auto
    have "slots_frames ?pages (?I pages (i + 1)) = slots_frames pages (?I pages (i + 1))"
      by (rule slots_frames_cong) auto
    moreover have "slots_frames pages (?I pages i) = insert (unat (pages ! i)) (slots_frames pages (?I pages (i + 1)))"
      unfolding I slots_frames_insert using False by simp
    moreover have "(if j \<in> ?I pages (i + 1) then PAGE_ID_INVALID else ?pages ! j) = (if j \<in> ?I pages i then PAGE_ID_INVALID else pages ! j)" for j
      unfolding I using il by (auto simp: nth_list_update)
    ultimately show ?thesis using IH fr unfolding eq I' by auto
  qed
qed

lemma user_okD:
  assumes "user_ok p s"
  shows "length (user_pages p) = USER_PAGES_MAX" "page_inv s" "tracked p \<subseteq> page_arena s - page_frames s"
    "i < USER_PAGES_MAX \<Longrightarrow> j < USER_PAGES_MAX \<Longrightarrow> user_pages p ! i \<noteq> PAGE_ID_INVALID \<Longrightarrow>
       user_pages p ! i = user_pages p ! j \<Longrightarrow> i = j"
    "page_arena s \<subseteq> {0<..<2 ^ 20}"
    "i < USER_PAGES_MAX \<Longrightarrow> user_pages p ! i \<noteq> PAGE_ID_INVALID \<Longrightarrow> unat (user_pages p ! i) \<in> page_arena s - page_frames s"
  using assms unfolding user_ok_def slots_frames_def by blast+

text \<open>Addresses of pages in the 32-bit space.\<close>

lemma page_linear_unat:
  fixes pid :: "'p::len word"
  assumes "page_inv (s :: 'p word page_mm)" "unat pid \<in> page_arena s" "page_arena s \<subseteq> {0<..<2 ^ 20}"
  shows "pid \<noteq> PAGE_ID_INVALID" "unat (page_linear pid) = unat pid * 4096" "page_linear pid \<noteq> 0"
    "page_from_ptr (page_linear pid) = pid"
proof -
  have lt: "unat pid < 2 ^ 20" "0 < unat pid" and 32: "LENGTH('p) \<le> 32" using assms by (auto simp: page_inv_def)
  show ne: "pid \<noteq> PAGE_ID_INVALID"
    using assms(2) page_invD(4) [OF assms(1), of "unat pid"]
    by (auto simp: PAGE_ID_INVALID_def unsigned_minus_1_eq_mask mask_eq_exp_minus_1)
  have u: "unat (ucast pid :: u32) = unat pid" using lt by (intro unat_small_ucast) simp
  show l: "unat (page_linear pid) = unat pid * 4096"
    using lt ne by (simp add: page_linear_def page_id_linear_def unat_word_ariths u)
  show nz: "page_linear pid \<noteq> 0" using l lt by auto
  have "unat (page_linear pid div PAGE_SIZE) = unat pid" using l by (simp add: unat_div)
  then have "unat (ucast (page_linear pid div PAGE_SIZE) :: 'p word) = unat pid"
    by (simp add: unat_small_ucast)
  then show "page_from_ptr (page_linear pid) = pid"
    using nz by (simp add: page_from_ptr_def linear_page_id_def word_unat_eq_iff)
qed

text \<open>Releasing slots in a range of a consistent process: the frames of the range become free, nothing
  else changes, and the process stays consistent.\<close>

lemma release_range:
  assumes ok: "user_ok p s" and r: "proc_release_tracked_pages p s a b = (p', s')"
  defines "I \<equiv> {j. unat a \<le> j \<and> j < unat b \<and> j < USER_PAGES_MAX}"
  shows "page_frames s' = page_frames s \<union> slots_frames (user_pages p) I" "page_arena s' = page_arena s"
    "user_pages p' ! j = (if j \<in> I then PAGE_ID_INVALID else user_pages p ! j)"
    "p' = p\<lparr>user_pages := user_pages p'\<rparr>" "user_ok p' s'"
proof -
  note D = user_okD [OF ok]
  have fr: "page_frames s' = page_frames s \<union> (slots_frames (user_pages p) I \<inter> page_arena s) \<and> page_arena s' = page_arena s
      \<and> (\<forall>j. user_pages p' ! j = (if j \<in> I then PAGE_ID_INVALID else user_pages p ! j))
      \<and> p' = p\<lparr>user_pages := user_pages p'\<rparr> \<and> page_inv s' \<and> length (user_pages p') = USER_PAGES_MAX"
  proof (cases "64 \<le> a")
    case True
    then have "64 \<le> unat a" by (simp add: word_le_nat_alt)
    then have "I = {}" by (auto simp: I_def)
    with True r D(1,2) show ?thesis by (simp add: proc_release_tracked_pages_def)
  next
    case False
    define e where "e = unat (if 64 < b then 64 else b)"
    have e: "e = min (unat b) 64" by (simp add: e_def word_less_nat_alt)
    have I: "I = {j. unat a \<le> j \<and> j < e \<and> \<not> False}" by (auto simp: I_def e)
    have "e \<le> length (user_pages p)" using D(1) by (simp add: e)
    from release_slots_frames [OF D(2) this, of "\<lambda>_ _. False" "unat a"] r False D(1) show ?thesis
      by (auto simp: proc_release_tracked_pages_def Let_def split_beta e_def [symmetric] I)
  qed
  have sub: "slots_frames (user_pages p) I \<subseteq> tracked p" by (auto simp: slots_frames_def I_def)
  then have sa: "slots_frames (user_pages p) I \<inter> page_arena s = slots_frames (user_pages p) I" using D(3) by blast
  show "page_frames s' = page_frames s \<union> slots_frames (user_pages p) I" "page_arena s' = page_arena s"
    and pj: "\<And>j. user_pages p' ! j = (if j \<in> I then PAGE_ID_INVALID else user_pages p ! j)"
    and "p' = p\<lparr>user_pages := user_pages p'\<rparr>" using fr unfolding sa by auto
  have "tracked p' \<subseteq> page_arena s' - page_frames s'"
  proof
    fix x assume "x \<in> tracked p'"
    then obtain j where j: "j < USER_PAGES_MAX" "user_pages p' ! j \<noteq> PAGE_ID_INVALID" "x = unat (user_pages p' ! j)"
      by (auto simp: slots_frames_def)
    then have jI: "j \<notin> I" "user_pages p' ! j = user_pages p ! j" using pj [of j] by (auto split: if_splits)
    have xs: "x \<in> page_arena s - page_frames s" using D(6) [OF j(1)] j jI by simp
    have "x \<notin> slots_frames (user_pages p) I"
    proof
      assume "x \<in> slots_frames (user_pages p) I"
      then obtain k where k: "k \<in> I" "user_pages p ! k \<noteq> PAGE_ID_INVALID" "x = unat (user_pages p ! k)"
        by (auto simp: slots_frames_def)
      then have "user_pages p ! k = user_pages p ! j" using j(3) jI by (simp add: word_unat_eq_iff)
      then show False using D(4) [of k j] k j jI by (auto simp: I_def)
    qed
    then show "x \<in> page_arena s' - page_frames s'" using xs fr by blast
  qed
  moreover have "i = j" if "i < USER_PAGES_MAX" "j < USER_PAGES_MAX" "user_pages p' ! i \<noteq> PAGE_ID_INVALID"
      "user_pages p' ! i = user_pages p' ! j" for i j
    using that pj [of i] pj [of j] D(4) [of i j] by (auto split: if_splits)
  ultimately show "user_ok p' s'" using fr D(5) by (auto simp: user_ok_def)
qed

text \<open>Process exit gives back all user memory. Releasing the full range of slots of a consistent
  process makes exactly its tracked frames free, clears every slot, and leaves the allocator consistent;
  releasing again changes nothing.\<close>

theorem release_all_tracked:
  assumes "user_ok p s" and "proc_release_tracked_pages p s 0 64 = (p', s')"
  shows "page_inv s' \<and> page_frames s' = page_frames s \<union> tracked p \<and> tracked p' = {}
    \<and> proc_tracked_page_count p' = 0 \<and> page_frames (snd (proc_release_tracked_pages p' s' 0 64)) = page_frames s'"
proof -
  note R = release_range [OF assms]
  have I: "{j. unat (0 :: u32) \<le> j \<and> j < unat (64 :: u32) \<and> j < USER_PAGES_MAX} = {..<USER_PAGES_MAX}" by auto
  have inval: "user_pages p' ! j = PAGE_ID_INVALID" if "j < USER_PAGES_MAX" for j using R(3) [of j] that by simp
  then have t: "tracked p' = {}" by (auto simp: slots_frames_def)
  moreover have "proc_tracked_page_count p' = 0"
    unfolding proc_tracked_page_count_def using inval by (simp add: filter_empty_conv)
  moreover obtain p'' s'' where r2: "proc_release_tracked_pages p' s' 0 64 = (p'', s'')" by fastforce
  moreover have "page_frames s'' = page_frames s'" using release_range(1) [OF R(5) r2] t unfolding I by simp
  ultimately show ?thesis using R(1) user_okD(2) [OF R(5)] unfolding I by simp
qed

text \<open>\<^verbatim>\<open>sys_munmap\<close> frees memory the process does not own. For an address that is not the start
  of a tracked page it calls \<^verbatim>\<open>region_free\<close> on it: any allocated page of the arena, whoever tracks
  it, becomes free, and the call reports success.\<close>

theorem munmap_frees_foreign_page:
  fixes p :: "'p::len word umem" and s :: "'p word page_mm" and pid :: "'p word"
  assumes ok: "user_ok p s" and pid: "unat pid \<in> page_arena s - page_frames s" "unat pid \<notin> tracked p"
  shows "\<exists>s'. sys_munmap (page_linear pid) 4096 p s = (0, p, s') \<and> page_inv s'
    \<and> page_frames s' = insert (unat pid) (page_frames s)"
proof -
  note D = user_okD [OF ok]
  note L = page_linear_unat [OF D(2) _ D(5)]
  have pl: "pid \<noteq> PAGE_ID_INVALID" "page_linear pid \<noteq> 0" "page_from_ptr (page_linear pid) = pid" using L [of pid] pid by auto
  have "\<not> (user_pages p ! i \<noteq> PAGE_ID_INVALID \<and> page_linear (user_pages p ! i) = page_linear pid)" if "i < USER_PAGES_MAX" for i
  proof
    assume a: "user_pages p ! i \<noteq> PAGE_ID_INVALID \<and> page_linear (user_pages p ! i) = page_linear pid"
    then have "unat (user_pages p ! i) \<in> page_arena s" using D(6) [OF that] by blast
    then have "user_pages p ! i = pid" using L(4) [of "user_pages p ! i"] pl(3) a by metis
    then show False using a pid(2) that by (auto simp: slots_frames_def)
  qed
  then have f: "find (\<lambda>i. user_pages p ! i \<noteq> PAGE_ID_INVALID \<and> page_linear (user_pages p ! i) = page_linear pid) [0..<USER_PAGES_MAX] = None"
    unfolding find_None_iff by auto
  have n: "region_page_count 4096 = 1" by (simp add: region_page_count_def)
  have "free_pages page_free s pid 0 1 = page_free s pid"
    by (simp add: free_pages.simps [of page_free s pid 0 "Suc 0"] free_pages.simps [of page_free "page_free s pid" pid "Suc 0" "Suc 0"])
  then have "sys_munmap (page_linear pid) 4096 p s = (0, p, page_free s pid)"
    using pl f by (simp add: sys_munmap_def region_free_def mem_helper_free_def region_free_page_backed_def n)
  then show ?thesis using page_free_frames [OF D(2), of pid] pid(1) by auto
qed

subsection \<open>Mapping and unmapping\<close>

lemma find_slots_sound:
  assumes "find_slots pages n i run = Some k" "0 < n" "\<And>j. i \<le> j \<Longrightarrow> j < i + run \<Longrightarrow> pages ! j = PAGE_ID_INVALID"
    "run < n"
  shows "k < i \<and> k + n \<le> i + run \<and> (\<forall>j. k \<le> j \<and> j < k + n \<longrightarrow> pages ! j = PAGE_ID_INVALID)"
  using assms
proof (induction pages n i run rule: find_slots.induct)
  case (2 pages n i run)
  show ?case
  proof (cases "pages ! i = PAGE_ID_INVALID")
    case True
    have run: "pages ! j = PAGE_ID_INVALID" if "i \<le> j" "j < i + (run + 1)" for j
      using that True "2.prems"(3) [of j] by (cases "j = i") auto
    show ?thesis
    proof (cases "n \<le> run + 1")
      case n: True
      then have "n = run + 1" "k = i" using "2.prems" True by auto
      then show ?thesis using run by auto
    next
      case False
      then show ?thesis using "2.IH"(1) [OF True False _ "2.prems"(2) run] "2.prems"(1) True by auto
    qed
  next
    case False
    then show ?thesis using "2.IH"(2) [OF False _ "2.prems"(2)] "2.prems" by auto
  qed
qed simp

lemma mmap_find_slots_sound:
  assumes "mmap_find_slots p n = Some k" "n \<noteq> 0"
  shows "k + unat n \<le> USER_PAGES_MAX" "\<forall>j. k \<le> j \<and> j < k + unat n \<longrightarrow> user_pages p ! j = PAGE_ID_INVALID"
  using find_slots_sound [of "user_pages p" "unat n" USER_PAGES_MAX 0 k] assms
  by (auto simp: mmap_find_slots_def unat_gt_0)

lemma find_slots_complete:
  assumes "find_slots pages n i run = None" "run < n" "a + n \<le> i + run" "\<And>j. i \<le> j \<Longrightarrow> j < i + run \<Longrightarrow> pages ! j = PAGE_ID_INVALID"
  shows "\<exists>j. a \<le> j \<and> j < a + n \<and> pages ! j \<noteq> PAGE_ID_INVALID"
  using assms
proof (induction pages n i run rule: find_slots.induct)
  case (2 pages n i run)
  show ?case
  proof (cases "pages ! i = PAGE_ID_INVALID")
    case True
    then have n: "\<not> n \<le> run + 1" using "2.prems"(1) by auto
    have "pages ! j = PAGE_ID_INVALID" if "i \<le> j" "j < i + (run + 1)" for j
      using that True "2.prems"(4) [of j] by (cases "j = i") auto
    then show ?thesis using "2.IH"(1) [OF True n] "2.prems"(1,2,3) True n by auto
  next
    case False
    then show ?thesis
    proof (cases "a + n \<le> i")
      case True
      then show ?thesis using "2.IH"(2) [OF False] "2.prems"(1,2) False by auto
    next
      case out: False
      then have "i < a + n" by simp
      then show ?thesis
      proof (cases "a \<le> i")
        case True with out False show ?thesis by auto
      next
        case F: False
        then show ?thesis using "2.prems"(2,3) by simp
      qed
    qed
  qed
qed simp

lemma track_run_nth:
  assumes "start + n \<le> length pages" "i \<le> n"
  shows "length (track_run pages start base i n) = length pages"
    "track_run pages start base i n ! j = (if start + i \<le> j \<and> j < start + n then base + of_nat (j - start) else pages ! j)"
proof -
  have "length (track_run pages start base i n) = length pages \<and>
    (\<forall>j. track_run pages start base i n ! j = (if start + i \<le> j \<and> j < start + n then base + of_nat (j - start) else pages ! j))"
    using assms
  proof (induction "n - i" arbitrary: i pages)
    case 0
    then show ?case by (auto simp: track_run.simps [of pages start base i i])
  next
    case (Suc d)
    then have i: "i < n" by simp
    have "d = n - (i + 1)" "start + n \<le> length (pages[start + i := base + of_nat i])" "i + 1 \<le> n" using Suc by auto
    note IH = Suc.hyps(1) [OF this]
    have eq: "track_run pages start base i n = track_run (pages[start + i := base + of_nat i]) start base (i + 1) n"
      using i by (simp add: track_run.simps [of pages start base i n])
    have "start + i < length pages" using i Suc.prems by simp
    then have "(if start + (i + 1) \<le> j \<and> j < start + n then base + of_nat (j - start) else pages[start + i := base + of_nat i] ! j) =
      (if start + i \<le> j \<and> j < start + n then base + of_nat (j - start) else pages ! j)" for j
      using i by (cases "j = start + i") auto
    then show ?case using IH unfolding eq by simp
  qed
  then show "length (track_run pages start base i n) = length pages"
    "track_run pages start base i n ! j = (if start + i \<le> j \<and> j < start + n then base + of_nat (j - start) else pages ! j)"
    by blast+
qed

text \<open>Unmapping a run of tracked slots frees its frames and clears the slots.\<close>

lemma unmap_run_frames:
  assumes "page_inv s" "i + n \<le> length pages" "i + n \<le> USER_PAGES_MAX" "\<And>j. i \<le> j \<Longrightarrow> j < i + n \<Longrightarrow> pages ! j \<noteq> PAGE_ID_INVALID"
  defines "r \<equiv> unmap_run n i pages s"
  shows "page_inv (snd r) \<and> page_arena (snd r) = page_arena s
    \<and> page_frames (snd r) = page_frames s \<union> (slots_frames pages {i..<i + n} \<inter> page_arena s)
    \<and> length (fst r) = length pages
    \<and> (\<forall>j. fst r ! j = (if i \<le> j \<and> j < i + n then PAGE_ID_INVALID else pages ! j))"
  using assms(1-4) unfolding r_def
proof (induction n i pages s rule: unmap_run.induct)
  case (1 i pages s)
  then show ?case by auto
next
  case (2 n i pages s)
  let ?pages = "pages[i := PAGE_ID_INVALID]" and ?s = "page_free s (pages ! i)"
  have i: "i < USER_PAGES_MAX \<and> pages ! i \<noteq> PAGE_ID_INVALID" "i < length pages" using "2.prems" by auto
  note fr = page_free_frames [OF "2.prems"(1), of "pages ! i"]
  have pre: "i + 1 + n \<le> length ?pages" "i + 1 + n \<le> USER_PAGES_MAX"
    "\<And>j. i + 1 \<le> j \<Longrightarrow> j < i + 1 + n \<Longrightarrow> ?pages ! j \<noteq> PAGE_ID_INVALID"
    using "2.prems" by (auto simp: nth_list_update)
  note IH = "2.IH" [OF i(1) fr(1) pre]
  have I: "{i..<i + Suc n} = insert i {i + 1..<i + 1 + n}" by auto
  have "slots_frames ?pages {i + 1..<i + 1 + n} = slots_frames pages {i + 1..<i + 1 + n}"
    by (rule slots_frames_cong) auto
  then have sf: "slots_frames pages {i..<i + Suc n} = insert (unat (pages ! i)) (slots_frames ?pages {i + 1..<i + 1 + n})"
    unfolding I slots_frames_insert using i by simp
  have "(if i + 1 \<le> j \<and> j < i + 1 + n then PAGE_ID_INVALID else ?pages ! j) = (if i \<le> j \<and> j < i + Suc n then PAGE_ID_INVALID else pages ! j)" for j
    using i(2) by (cases "j = i") auto
  then show ?case using IH fr i unfolding sf by auto
qed

text \<open>Tracking a run of fresh consecutive pages in free slots.\<close>

lemma track_run_user_ok:
  fixes p :: "'p::len word umem" and s s' :: "'p word page_mm" and pid :: "'p word"
  assumes ok: "user_ok p s" and k: "k + n \<le> USER_PAGES_MAX" "\<forall>j. k \<le> j \<and> j < k + n \<longrightarrow> user_pages p ! j = PAGE_ID_INVALID"
    and s': "page_inv s'" "page_arena s' = page_arena s" "page_frames s' = page_frames s - {unat pid ..< unat pid + n}"
      "{unat pid ..< unat pid + n} \<subseteq> page_frames s"
  defines "p' \<equiv> p\<lparr>user_pages := track_run (user_pages p) k pid 0 n\<rparr>"
  shows "user_ok p' s'" "slots_frames (user_pages p') {k..<k + n} = {unat pid ..< unat pid + n}"
    "\<And>j. k \<le> j \<Longrightarrow> j < k + n \<Longrightarrow> user_pages p' ! j \<noteq> PAGE_ID_INVALID \<and> unat (user_pages p' ! j) = unat pid + (j - k)"
    "\<And>j. \<not> (k \<le> j \<and> j < k + n) \<Longrightarrow> user_pages p' ! j = user_pages p ! j"
    "length (user_pages p') = USER_PAGES_MAX"
proof -
  note D = user_okD [OF ok]
  have T: "length (user_pages p') = USER_PAGES_MAX"
    "user_pages p' ! j = (if k \<le> j \<and> j < k + n then pid + of_nat (j - k) else user_pages p ! j)" for j
    using track_run_nth [of k n "user_pages p" 0 pid] k(1) D(1) by (simp_all add: p'_def)
  have ar: "{unat pid ..< unat pid + n} \<subseteq> page_arena s" using s'(4) page_invD(2) [OF D(2)] by blast
  show new: "user_pages p' ! j \<noteq> PAGE_ID_INVALID \<and> unat (user_pages p' ! j) = unat pid + (j - k)" if j: "k \<le> j" "j < k + n" for j
  proof -
    have "unat pid + (j - k) \<in> {unat pid ..< unat pid + n}" using j by auto
    then have m: "unat pid + (j - k) \<in> page_arena s" using ar by blast
    then have "unat pid + (j - k) < 2 ^ LENGTH('p)" using page_invD(4) [OF D(2)] by fastforce
    from unat_add_of_nat [OF this] have u: "unat (user_pages p' ! j) = unat pid + (j - k)"
      using j unfolding T by (simp only: if_True simp_thms)
    then show ?thesis using page_linear_unat(1) [OF D(2) _ D(5)] m by metis
  qed
  show old: "user_pages p' ! j = user_pages p ! j" if "\<not> (k \<le> j \<and> j < k + n)" for j using that unfolding T by argo
  show len: "length (user_pages p') = USER_PAGES_MAX" by (rule T(1))
  show sf: "slots_frames (user_pages p') {k..<k + n} = {unat pid ..< unat pid + n}"
  proof (intro set_eqI iffI)
    fix x assume "x \<in> slots_frames (user_pages p') {k..<k + n}"
    then show "x \<in> {unat pid ..< unat pid + n}" using new by (auto simp: slots_frames_def)
  next
    fix x assume x: "x \<in> {unat pid ..< unat pid + n}"
    then have "k \<le> k + (x - unat pid)" "k + (x - unat pid) < k + n" by auto
    with new [OF this] x show "x \<in> slots_frames (user_pages p') {k..<k + n}"
      unfolding slots_frames_def by (intro CollectI exI [of _ "k + (x - unat pid)"]) auto
  qed
  have oldf: "unat (user_pages p' ! j) \<in> page_arena s - page_frames s" if "j < USER_PAGES_MAX" "user_pages p' ! j \<noteq> PAGE_ID_INVALID"
      "\<not> (k \<le> j \<and> j < k + n)" for j
    using D(6) [OF that(1)] old [OF that(3)] that(2) by simp
  have newf: "unat (user_pages p' ! j) \<in> page_frames s - page_frames s'" if "k \<le> j \<and> j < k + n" for j
  proof -
    have "unat (user_pages p' ! j) \<in> {unat pid ..< unat pid + n}" using new [of j] that by auto
    then show ?thesis using s'(3,4) by blast
  qed
  have "tracked p' \<subseteq> page_arena s' - page_frames s'"
  proof
    fix x assume "x \<in> tracked p'"
    then obtain j where j: "j < USER_PAGES_MAX" "user_pages p' ! j \<noteq> PAGE_ID_INVALID" "x = unat (user_pages p' ! j)"
      by (auto simp: slots_frames_def)
    show "x \<in> page_arena s' - page_frames s'"
    proof (cases "k \<le> j \<and> j < k + n")
      case True
      then show ?thesis using newf [of j] j page_invD(2) [OF D(2)] s'(2) by auto
    next
      case False
      then show ?thesis using oldf [OF j(1,2)] j s'(2,3) by auto
    qed
  qed
  moreover have "i = j" if ij: "i < USER_PAGES_MAX" "j < USER_PAGES_MAX" "user_pages p' ! i \<noteq> PAGE_ID_INVALID"
      "user_pages p' ! i = user_pages p' ! j" for i j
  proof (cases "k \<le> i \<and> i < k + n")
    case i: True
    show ?thesis
    proof (cases "k \<le> j \<and> j < k + n")
      case True
      have "unat (user_pages p' ! i) = unat (user_pages p' ! j)" using ij(4) by simp
      then show ?thesis using new [of i] new [of j] True i by linarith
    next
      case False
      have "user_pages p' ! j \<noteq> PAGE_ID_INVALID" using ij by simp
      from oldf [OF ij(2) this False] newf [OF i] ij(4) show ?thesis by auto
    qed
  next
    case i: False
    show ?thesis
    proof (cases "k \<le> j \<and> j < k + n")
      case True
      from oldf [OF ij(1,3) i] newf [OF True] ij(4) show ?thesis by auto
    next
      case False
      then show ?thesis using D(4) [OF ij(1,2)] ij(3,4) old [OF i] old [OF False] by simp
    qed
  qed
  ultimately show "user_ok p' s'" using len s'(1,2) D(5) by (auto simp: user_ok_def)
qed

lemma region_alloc_fails:
  fixes s :: "'p::len word page_mm" and size' :: u32
  assumes inv: "page_inv s" and size': "size' \<noteq> 0" "unat size' + 4095 < 2 ^ 28"
    and fail: "region_alloc s cls size' flags (Some out) = (rc, r, s')" "rc < 0"
  shows "page_frames s' = page_frames s \<and> page_inv s' \<and> page_arena s' = page_arena s"
proof -
  let ?n = "region_page_count size'"
  have n: "unat ?n = (unat size' + 4095) div 4096" by (rule region_page_count_unat) (use size' in simp)
  have n16: "unat ?n < 2 ^ 16" using size'(2) unfolding n by (simp add: div_less_iff_less_mult)
  have "0 < unat size'" using size'(1) by (simp add: unat_pos_iff)
  then have "0 < unat ?n" unfolding n by (simp add: div_greater_zero_iff)
  then have n0: "?n \<noteq> 0" by auto
  define a where "a = (if ?n = 1 then page_alloc s else page_alloc_n s ?n)"
  have a: "fst a = PAGE_ID_INVALID" "s' = snd a"
    using fail size'(1)
    by (auto simp: region_alloc_def mem_helper_alloc_def region_alloc_page_backed_def a_def Let_def
        split_beta split: if_splits)
  show ?thesis
  proof (cases "?n = 1")
    case True
    show ?thesis
    proof (cases "page_frames s = {}")
      case e: True
      then show ?thesis using page_alloc_aux [OF inv] a True inv by (simp add: a_def)
    next
      case False
      have "finite (page_frames s)"
        using page_invD(2) [OF inv] by (rule finite_subset) (simp add: page_arena_def)
      then have "Max (page_frames s) \<in> page_arena s" using page_invD(2) [OF inv] Max_in False by blast
      then have "Max (page_frames s) + 1 < 2 ^ LENGTH('p)" by (rule page_invD(4) [OF inv])
      moreover have "unat (fst a) = Max (page_frames s)"
        using page_alloc_aux [OF inv] True False by (simp add: a_def split_beta)
      ultimately have False
        unfolding a(1) PAGE_ID_INVALID_def by (simp add: unsigned_minus_1_eq_mask mask_eq_exp_minus_1)
      then show ?thesis ..
    qed
  next
    case False
    then show ?thesis using page_alloc_n_aux [OF inv n0] n16 a inv by (auto simp: a_def split_beta split: if_splits)
  qed
qed

lemma unat_num_pages:
  fixes len :: u32
  assumes "unat len < 2 ^ 27"
  defines "n \<equiv> (len + PAGE_SIZE - 1) div PAGE_SIZE"
  shows "unat n = (unat len + 4095) div 4096" "unat (n * PAGE_SIZE) + 4095 < 2 ^ 28" "region_page_count (n * PAGE_SIZE) = n"
    "len \<noteq> 0 \<Longrightarrow> n \<noteq> 0" "len \<noteq> 0 \<Longrightarrow> n * PAGE_SIZE \<noteq> 0"
    "(unat (n * PAGE_SIZE) + 4095) div 4096 = unat n"
proof -
  have "len + PAGE_SIZE - 1 = len + 4095" by simp
  then have a: "unat (len + PAGE_SIZE - 1) = unat len + 4095" using assms(1) by (simp add: unat_word_ariths)
  show n: "unat n = (unat len + 4095) div 4096" unfolding n_def unat_div a by simp
  have "(unat len + 4095) div 4096 * 4096 \<le> unat len + 4095" by (rule div_times_less_eq_dividend)
  then have q: "unat n * 4096 < 2 ^ 27 + 4096" using assms(1) unfolding n by simp
  have m: "unat (n * PAGE_SIZE) = unat n * 4096" using q by (simp add: unat_word_ariths)
  show b: "unat (n * PAGE_SIZE) + 4095 < 2 ^ 28" using q m by simp
  show d: "(unat (n * PAGE_SIZE) + 4095) div 4096 = unat n" unfolding m by simp
  then show "region_page_count (n * PAGE_SIZE) = n"
    using region_page_count_unat [of "n * PAGE_SIZE"] b by (simp add: word_unat_eq_iff)
  assume "len \<noteq> 0"
  then have "0 < unat len" by (simp add: unat_pos_iff)
  then have n0: "0 < unat n" unfolding n by (simp add: div_greater_zero_iff)
  then show "n \<noteq> 0" by auto
  have "0 < unat (n * PAGE_SIZE)" using n0 unfolding m by simp
  then show "n * PAGE_SIZE \<noteq> 0" by auto
qed

text \<open>The address a mapping returns finds its first slot again.\<close>

lemma find_tracked:
  fixes p :: "'p::len word umem" and s :: "'p word page_mm"
  assumes ok: "user_ok p s" and k: "k < USER_PAGES_MAX" "user_pages p ! k \<noteq> PAGE_ID_INVALID"
  shows "find (\<lambda>i. user_pages p ! i \<noteq> PAGE_ID_INVALID \<and> page_linear (user_pages p ! i) = page_linear (user_pages p ! k))
    [0..<USER_PAGES_MAX] = Some k"
proof -
  note D = user_okD [OF ok]
  have u: "i = k" if i: "i < USER_PAGES_MAX" "user_pages p ! i \<noteq> PAGE_ID_INVALID"
      "page_linear (user_pages p ! i) = page_linear (user_pages p ! k)" for i
  proof -
    have "unat (user_pages p ! i) \<in> page_arena s" "unat (user_pages p ! k) \<in> page_arena s"
      using D(6) i(1,2) k by blast+
    then have "user_pages p ! i = user_pages p ! k"
      using page_linear_unat(4) [OF D(2) _ D(5)] i(3) by metis
    then show ?thesis using D(4) [OF i(1) k(1) i(2)] by blast
  qed
  have "\<not> (user_pages p ! j \<noteq> PAGE_ID_INVALID \<and> page_linear (user_pages p ! j) = page_linear (user_pages p ! k))" if "j < k" for j
    using u [of j] that k(1) by auto
  then show ?thesis unfolding find_Some_iff using k by (intro exI [of _ k]) auto
qed

lemma region_alloc_rc: "fst (region_alloc s cls size' flags (Some out)) \<in> {0, - ENOMEM}"
  by (auto simp: region_alloc_def mem_helper_alloc_def region_alloc_page_backed_def Let_def split_beta)

lemma user_ok_cong:
  "user_ok p s \<Longrightarrow> page_inv s' \<Longrightarrow> page_frames s' = page_frames s \<Longrightarrow> page_arena s' = page_arena s \<Longrightarrow> user_ok p s'"
  by (simp add: user_ok_def)

text \<open>What a successful mapping without \<^verbatim>\<open>MAP_FIXED\<close> does.\<close>

lemma mmap_ok:
  fixes p :: "'p::len word umem" and s :: "'p word page_mm" and len :: u32
  assumes ok: "user_ok p s" and len: "unat len < 2 ^ 27" and nf: "\<not> (nz (flags AND MAP_FIXED) \<and> addr \<noteq> 0)"
    and m: "sys_mmap2 addr len flags fd p s = (Inr a, p', s')"
  defines "n \<equiv> (unat len + 4095) div 4096"
  obtains k pid where "0 < n" "k + n \<le> USER_PAGES_MAX" "\<forall>j. k \<le> j \<and> j < k + n \<longrightarrow> user_pages p ! j = PAGE_ID_INVALID"
    "p' = p\<lparr>user_pages := track_run (user_pages p) k pid 0 n\<rparr>" "a = page_linear pid"
    "page_inv s'" "page_arena s' = page_arena s" "page_frames s' = page_frames s - {unat pid ..< unat pid + n}"
    "{unat pid ..< unat pid + n} \<subseteq> page_frames s"
proof -
  define w where "w = (len + PAGE_SIZE - 1) div PAGE_SIZE"
  note N = unat_num_pages [OF len, folded w_def]
  have "len \<noteq> 0" using m by (auto simp: sys_mmap2_def split: if_splits)
  note N0 = N(4,5) [OF this]
  define ra where "ra = region_alloc s PPAP_MEM_RAM_DATA (w * PAGE_SIZE) 0 (Some region_zero)"
  obtain k where k: "mmap_find_slots p w = Some k" and rc: "\<not> fst ra < 0"
    and p': "p' = p\<lparr>user_pages := track_run (user_pages p) k (rg_base_page (case fst (snd ra) of Some r \<Rightarrow> r | None \<Rightarrow> region_zero)) 0 (unat w)\<rparr>"
    and a: "a = rg_base (case fst (snd ra) of Some r \<Rightarrow> r | None \<Rightarrow> region_zero)" and s': "s' = snd (snd ra)"
    using m nf \<open>len \<noteq> 0\<close>
    unfolding sys_mmap2_def Let_def w_def [symmetric] ra_def [symmetric]
    by (auto simp: ra_def [symmetric] split_beta split: if_splits option.splits)
  have "fst ra = 0" using rc region_alloc_rc [of s PPAP_MEM_RAM_DATA "w * PAGE_SIZE" 0 region_zero] unfolding ra_def by auto
  then have "region_alloc s PPAP_MEM_RAM_DATA (w * PAGE_SIZE) 0 (Some region_zero) = (0, fst (snd ra), s')"
    unfolding s' ra_def by (metis prod.collapse)
  from region_alloc_pages [OF user_okD(2) [OF ok] N0(2) N(2) this]
  obtain pid where r: "fst (snd ra) = Some (region_zero\<lparr>rg_base := page_linear pid, rg_base_page := pid\<rparr>)"
    and F: "{unat pid ..< unat pid + (unat (w * PAGE_SIZE) + 4095) div 4096} \<subseteq> page_frames s"
      "page_frames s' = page_frames s - {unat pid ..< unat pid + (unat (w * PAGE_SIZE) + 4095) div 4096}"
      "page_inv s'" "page_arena s' = page_arena s" .
  have "0 < unat w" using N0(1) by (simp add: unat_gt_0)
  moreover note K = mmap_find_slots_sound [OF k N0(1)]
  moreover have "p' = p\<lparr>user_pages := track_run (user_pages p) k pid 0 n\<rparr>" "a = page_linear pid"
    using p' a r by (simp_all add: N(1) n_def)
  ultimately show thesis using that [of k pid] F unfolding N(6) unfolding N(1) n_def [symmetric] by simp
qed

lemma mmap_fails:
  fixes p :: "'p::len word umem" and s :: "'p word page_mm" and len :: u32
  assumes ok: "user_ok p s" and len: "unat len < 2 ^ 27" and nf: "\<not> (nz (flags AND MAP_FIXED) \<and> addr \<noteq> 0)"
    and m: "sys_mmap2 addr len flags fd p s = (Inl e, p', s')"
  shows "e \<in> {- ENOSYS, - EINVAL, - ENOMEM} \<and> p' = p \<and> page_frames s' = page_frames s \<and> user_ok p s'"
proof (cases "p' = p \<and> s' = s \<and> e \<in> {- ENOSYS, - EINVAL, - ENOMEM}")
  case True
  then show ?thesis using ok by simp
next
  case False
  define w where "w = (len + PAGE_SIZE - 1) div PAGE_SIZE"
  note N = unat_num_pages [OF len, folded w_def]
  have l0: "len \<noteq> 0" using m False by (auto simp: sys_mmap2_def split: if_splits)
  define ra where "ra = region_alloc s PPAP_MEM_RAM_DATA (w * PAGE_SIZE) 0 (Some region_zero)"
  have rc: "fst ra < 0" and eq: "e = - ENOMEM" "p' = p" "s' = snd (snd ra)"
    using m nf False l0
    unfolding sys_mmap2_def Let_def w_def [symmetric] ra_def [symmetric]
    by (auto simp: ra_def [symmetric] split_beta split: if_splits option.splits)
  have "region_alloc s PPAP_MEM_RAM_DATA (w * PAGE_SIZE) 0 (Some region_zero) = (fst ra, fst (snd ra), s')"
    unfolding eq(3) ra_def by simp
  from region_alloc_fails [OF user_okD(2) [OF ok] N(5) [OF l0] N(2) this rc]
  show ?thesis using eq(1,2) user_ok_cong [OF ok] by simp
qed

text \<open>C34: anonymous mappings. A call of \<^verbatim>\<open>sys_mmap2\<close> with a length below 2^27, and without
  \<^verbatim>\<open>MAP_FIXED\<close> at a non-null address, either fails with
  an errno and changes neither the process nor the set of free pages, or takes exactly the rounded-up
  number of free pages, tracks them, and keeps the process consistent; \<^verbatim>\<open>sys_munmap\<close> of the returned
  address with the same length then restores the slots of the process and the free pages.\<close>

theorem mmap_munmap_roundtrip:
  fixes p :: "'p::len word umem" and s :: "'p word page_mm" and len :: u32
  assumes ok: "user_ok p s" and len: "unat len < 2 ^ 27" and nf: "\<not> (nz (flags AND MAP_FIXED) \<and> addr \<noteq> 0)"
  shows "case sys_mmap2 addr len flags fd p s of (r, p', s') \<Rightarrow>
    user_ok p' s' \<and>
    (case r of Inl e \<Rightarrow> e \<in> {- ENOSYS, - EINVAL, - ENOMEM} \<and> p' = p \<and> page_frames s' = page_frames s
     | Inr a \<Rightarrow> page_frames s' \<subseteq> page_frames s \<and> card (page_frames s - page_frames s') = (unat len + 4095) div 4096
         \<and> tracked p' = tracked p \<union> (page_frames s - page_frames s')
         \<and> (case sys_munmap a len p' s' of (rc, p'', s'') \<Rightarrow> rc = 0 \<and> user_pages p'' = user_pages p \<and> page_frames s'' = page_frames s))"
proof -
  obtain r p' s' where m: "sys_mmap2 addr len flags fd p s = (r, p', s')" by (metis prod_cases3)
  show ?thesis
  proof (cases r)
    case (Inl e)
    then show ?thesis using mmap_fails [OF ok len nf m [unfolded Inl]] m by simp
  next
    case (Inr a)
    let ?n = "(unat len + 4095) div 4096"
    obtain k pid where n0: "0 < ?n" and k: "k + ?n \<le> USER_PAGES_MAX" "\<forall>j. k \<le> j \<and> j < k + ?n \<longrightarrow> user_pages p ! j = PAGE_ID_INVALID"
      and p': "p' = p\<lparr>user_pages := track_run (user_pages p) k pid 0 ?n\<rparr>" and a: "a = page_linear pid"
      and s': "page_inv s'" "page_arena s' = page_arena s" "page_frames s' = page_frames s - {unat pid ..< unat pid + ?n}"
        "{unat pid ..< unat pid + ?n} \<subseteq> page_frames s"
      using mmap_ok [OF ok len nf m [unfolded Inr]] .
    note T = track_run_user_ok [OF ok k s', folded p']
    have d: "page_frames s - page_frames s' = {unat pid ..< unat pid + ?n}" using s'(3,4) by blast
    have cover: "{..<USER_PAGES_MAX} = {k..<k + ?n} \<union> ({..<USER_PAGES_MAX} - {k..<k + ?n})" using k(1) by auto
    have oldt: "slots_frames (user_pages p') ({..<USER_PAGES_MAX} - {k..<k + ?n}) = slots_frames (user_pages p) ({..<USER_PAGES_MAX} - {k..<k + ?n})"
      by (rule slots_frames_cong) (use T(4) in auto)
    have none: "slots_frames (user_pages p) {k..<k + ?n} = {}" using k(2) by (auto simp: slots_frames_def)
    have tr: "tracked p' = tracked p \<union> {unat pid ..< unat pid + ?n}"
      by (subst (1 2) cover) (simp only: slots_frames_Un T(2) oldt none Un_empty_left Un_commute)
    have k64: "k < USER_PAGES_MAX" and pk: "user_pages p' ! k \<noteq> PAGE_ID_INVALID" "user_pages p' ! k = pid"
      using k(1) n0 T(3) [of k] by (auto simp: word_unat_eq_iff)
    note f = find_tracked [OF T(1) k64 pk(1), unfolded pk(2)]
    define u where "u = unmap_run ?n k (user_pages p') s'"
    have l0: "len \<noteq> 0" using n0 by auto
    have "unat pid \<in> page_arena s'" using user_okD(6) [OF T(1) k64 pk(1)] pk(2) by simp
    then have "page_linear pid \<noteq> 0" by (rule page_linear_unat(3) [OF s'(1) _ user_okD(5) [OF T(1)]])
    then have mu: "sys_munmap a len p' s' = (0, p'\<lparr>user_pages := fst u\<rparr>, snd u)"
      using f l0 unat_num_pages(1) [OF len] by (simp add: sys_munmap_def a u_def split_beta)
    have U: "page_frames (snd u) = page_frames s' \<union> ({unat pid ..< unat pid + ?n} \<inter> page_arena s)" "length (fst u) = USER_PAGES_MAX"
        "\<And>j. fst u ! j = (if k \<le> j \<and> j < k + ?n then PAGE_ID_INVALID else user_pages p' ! j)"
      using unmap_run_frames [OF s'(1), of k ?n "user_pages p'"] T(3) k(1) unfolding T(2,5) u_def [symmetric] s'(2)
      by (auto simp: T(5))
    have "fst u ! j = user_pages p ! j" for j
      using U(3) [of j] k(2) T(4) [of j] by (cases "k \<le> j \<and> j < k + ?n") auto
    then have "fst u = user_pages p" using U(2) user_okD(1) [OF ok] by (intro nth_equalityI) simp_all
    moreover have "page_frames (snd u) = page_frames s" using U(1) s'(3,4) page_invD(2) [OF user_okD(2) [OF ok]] by blast
    ultimately show ?thesis using m Inr T(1) tr d mu s'(3) by simp
  qed
qed

subsection \<open>The break\<close>

text \<open>The page that follows the first page of the image by \<open>i\<close> pages, at its address.\<close>

lemma brk_target:
  fixes page0 :: "'p::len word" and s :: "'p word page_mm"
  assumes inv: "page_inv s" and p0: "unat page0 \<in> page_arena s" "page_arena s \<subseteq> {0<..<2 ^ 20}"
    and fit: "unat page0 + 64 \<le> 2 ^ 20" "unat page0 + 64 \<le> 2 ^ LENGTH('p)" and i: "i < (64 :: u32)"
  shows "unat (page_linear page0 + i * PAGE_SIZE) = (unat page0 + unat i) * 4096"
    "unat (page_from_ptr (page_linear page0 + i * PAGE_SIZE) :: 'p word) = unat page0 + unat i"
    "page_linear page0 + i * PAGE_SIZE \<noteq> 0"
proof -
  note L = page_linear_unat [OF inv p0]
  have i': "unat i < 64" using i by (simp add: word_less_nat_alt)
  have "unat (i * PAGE_SIZE) = unat i * 4096" using i' by (simp add: unat_word_ariths)
  then show t: "unat (page_linear page0 + i * PAGE_SIZE) = (unat page0 + unat i) * 4096"
    using L(2) i' fit(1) by (simp add: unat_word_ariths)
  have "0 < unat page0" using p0 by auto
  then have "0 < unat (page_linear page0 + i * PAGE_SIZE)" unfolding t by simp
  then show nz: "page_linear page0 + i * PAGE_SIZE \<noteq> 0" by auto
  have "unat ((page_linear page0 + i * PAGE_SIZE) div PAGE_SIZE) = unat page0 + unat i"
    unfolding unat_div t by simp
  then show "unat (page_from_ptr (page_linear page0 + i * PAGE_SIZE) :: 'p word) = unat page0 + unat i"
    using nz i' fit(2) by (simp add: page_from_ptr_def linear_page_id_def unat_small_ucast)
qed

text \<open>One turn of the growth loop.\<close>

lemma brk_grow_step:
  fixes page0 :: "'p::len word" and s :: "'p word page_mm"
  assumes ok: "user_ok p s" and p0: "unat page0 \<in> page_arena s"
    and fit: "unat page0 + 64 \<le> 2 ^ 20" "unat page0 + 64 \<le> 2 ^ LENGTH('p)" and i: "i < (64 :: u32)"
    and slot: "user_pages p ! unat i = PAGE_ID_INVALID"
  defines "b \<equiv> unat page0 + unat i"
  defines "ra \<equiv> region_alloc_at s PPAP_MEM_RAM_DATA (page_linear page0 + i * PAGE_SIZE) PAGE_SIZE 0 (Some region_zero)"
  defines "p' \<equiv> snd (proc_track_page p i (case fst (snd ra) of Some r \<Rightarrow> rg_base_page r | None \<Rightarrow> 0))"
  shows "b \<notin> page_frames s \<Longrightarrow> fst ra < 0 \<and> page_frames (snd (snd ra)) = page_frames s \<and> user_ok p (snd (snd ra)) \<and> page_arena (snd (snd ra)) = page_arena s"
    and "b \<in> page_frames s \<Longrightarrow> fst ra = 0 \<and> page_frames (snd (snd ra)) = page_frames s - {b} \<and> user_ok p' (snd (snd ra))
      \<and> page_arena (snd (snd ra)) = page_arena s
      \<and> p' = p\<lparr>user_pages := (user_pages p)[unat i := of_nat b]\<rparr>"
proof -
  note D = user_okD [OF ok] 
  note T = brk_target [OF D(2) p0 D(5) fit i]
  let ?pid = "page_from_ptr (page_linear page0 + i * PAGE_SIZE) :: 'p word"
  have one: "(unat (PAGE_SIZE :: u32) + 4095) div 4096 = 1" by simp
  have i': "unat i < 64" using i by (simp add: word_less_nat_alt)
  have big: "unat (PAGE_SIZE :: u32) + 4095 < 2 ^ 32" by simp
  have f1: "unat ?pid + (unat (PAGE_SIZE :: u32) + 4095) div 4096 \<le> 2 ^ LENGTH('p)" using T(2) i' fit(2) by simp
  have R: "page_inv (snd (snd ra)) \<and> page_arena (snd (snd ra)) = page_arena s \<and>
    (if {b} \<subseteq> page_frames s
     then fst ra = 0 \<and> page_frames (snd (snd ra)) = page_frames s - {b}
       \<and> fst (snd ra) = Some (region_zero\<lparr>rg_base := page_linear page0 + i * PAGE_SIZE, rg_base_page := ?pid\<rparr>)
     else fst ra = - ENOMEM \<and> page_frames (snd (snd ra)) = page_frames s \<and> fst (snd ra) = Some region_zero)"
    using region_alloc_at_aux [OF D(2) T(3) _ _ big f1, of PPAP_MEM_RAM_DATA 0 region_zero]
    unfolding one T(2) b_def [symmetric] ra_def [symmetric] by simp
  show "fst ra < 0 \<and> page_frames (snd (snd ra)) = page_frames s \<and> user_ok p (snd (snd ra)) \<and> page_arena (snd (snd ra)) = page_arena s" if "b \<notin> page_frames s"
    using R that user_ok_cong [OF ok] by auto
  assume b: "b \<in> page_frames s"
  have pid: "?pid = of_nat b" "unat ?pid = b" using T(2) by (auto simp: b_def [symmetric] word_unat_eq_iff unat_of_nat
      dest: sym)
  have ne: "?pid \<noteq> PAGE_ID_INVALID"
    using page_linear_unat(1) [OF D(2) _ D(5), of ?pid] pid(2) b page_invD(2) [OF D(2)] by auto
  have p': "p' = p\<lparr>user_pages := (user_pages p)[unat i := ?pid]\<rparr>"
    using R b i ne unfolding p'_def by (simp add: proc_track_page_def)
  have t: "track_run (user_pages p) (unat i) ?pid 0 1 = (user_pages p)[unat i := ?pid]"
    by (simp add: track_run.simps [of _ _ _ 0 "Suc 0"] track_run.simps [of _ _ _ "Suc 0" "Suc 0"])
  have "user_ok (p\<lparr>user_pages := track_run (user_pages p) (unat i) ?pid 0 1\<rparr>) (snd (snd ra))"
  proof (rule track_run_user_ok(1) [OF ok])
    show "\<forall>j. unat i \<le> j \<and> j < unat i + 1 \<longrightarrow> user_pages p ! j = PAGE_ID_INVALID" using slot by (auto simp: le_less_Suc_eq)
    show "page_frames (snd (snd ra)) = page_frames s - {unat ?pid..<unat ?pid + 1}" "{unat ?pid..<unat ?pid + 1} \<subseteq> page_frames s"
      using R b unfolding pid(2) by auto
  qed (use R i' in auto)
  then have "user_ok p' (snd (snd ra))" unfolding t p' .
  then show "fst ra = 0 \<and> page_frames (snd (snd ra)) = page_frames s - {b} \<and> user_ok p' (snd (snd ra))
      \<and> page_arena (snd (snd ra)) = page_arena s
      \<and> p' = p\<lparr>user_pages := (user_pages p)[unat i := of_nat b]\<rparr>"
    using R b p' unfolding pid(1) by simp
qed

text \<open>The whole growth loop: it stops at the first page that is not free, or at the end.\<close>

lemma brk_grow_run:
  fixes page0 :: "'p::len word" and s :: "'p word page_mm"
  assumes ok: "user_ok p s" and p0: "unat page0 \<in> page_arena s"
    and fit: "unat page0 + 64 \<le> 2 ^ 20" "unat page0 + 64 \<le> 2 ^ LENGTH('p)" and n: "n \<le> (64 :: u32)" "i \<le> n"
    and slots: "\<forall>j. unat i \<le> j \<and> j < unat n \<longrightarrow> user_pages p ! j = PAGE_ID_INVALID"
    and r: "brk_grow p s (page_linear page0) i n = (stop, p', s')"
  defines "e \<equiv> (case stop of None \<Rightarrow> n | Some j \<Rightarrow> j)"
  shows "i \<le> e \<and> e \<le> n \<and> (stop \<noteq> None \<longrightarrow> e < n \<and> unat page0 + unat e \<notin> page_frames s)
    \<and> {unat page0 + unat i ..< unat page0 + unat e} \<subseteq> page_frames s
    \<and> page_frames s' = page_frames s - {unat page0 + unat i ..< unat page0 + unat e}
    \<and> user_ok p' s' \<and> page_arena s' = page_arena s \<and> p' = p\<lparr>user_pages := user_pages p'\<rparr>
    \<and> (\<forall>j. user_pages p' ! j = (if unat i \<le> j \<and> j < unat e then of_nat (unat page0 + j) else user_pages p ! j))"
  using assms(1-8) unfolding e_def
proof (induction "unat n - unat i" arbitrary: i p s)
  case 0
  then have "i = n" by (simp add: word_le_nat_alt word_unat_eq_iff)
  then show ?case using 0 by (auto simp: brk_grow.simps [of p s _ n n])
next
  case (Suc d)
  then have lt: "i < n" by (simp add: word_less_nat_alt)
  then have i64: "i < 64" using Suc.prems(5) by simp
  have ltn: "unat i < unat n" using lt by (simp add: word_less_nat_alt)
  have i1: "unat (i + 1) = unat i + 1" using unat_inc_less [OF lt] by simp
  have slot: "user_pages p ! unat i = PAGE_ID_INVALID" using Suc.prems(7) ltn by blast
  define ra where "ra = region_alloc_at s PPAP_MEM_RAM_DATA (page_linear page0 + i * PAGE_SIZE) PAGE_SIZE 0 (Some region_zero)"
  define p1 where "p1 = snd (proc_track_page p i (case fst (snd ra) of Some r \<Rightarrow> rg_base_page r | None \<Rightarrow> 0))"
  note S = brk_grow_step [OF Suc.prems(1-4) i64 slot, folded ra_def, folded p1_def]
  have unf: "brk_grow p s (page_linear page0) i n = (if fst ra < 0 then (Some i, p, snd (snd ra))
      else brk_grow p1 (snd (snd ra)) (page_linear page0) (i + 1) n)"
    using lt by (simp add: brk_grow.simps [of p s _ i n] ra_def p1_def split_beta Let_def)
  show ?case
  proof (cases "unat page0 + unat i \<in> page_frames s")
    case False
    note S1 = S(1) [OF False]
    then have "stop = Some i" "p' = p" "s' = snd (snd ra)" using Suc.prems(8) unf by auto
    then show ?thesis using S1 lt False by auto
  next
    case True
    note S2 = S(2) [OF True]
    have len: "unat i < length (user_pages p)" using user_okD(1) [OF Suc.prems(1)] i64 by (simp add: word_less_nat_alt)
    have pre: "d = unat n - unat (i + 1)" "user_ok p1 (snd (snd ra))" "unat page0 \<in> page_arena (snd (snd ra))" "i + 1 \<le> n"
      "\<forall>j. unat (i + 1) \<le> j \<and> j < unat n \<longrightarrow> user_pages p1 ! j = PAGE_ID_INVALID"
      "brk_grow p1 (snd (snd ra)) (page_linear page0) (i + 1) n = (stop, p', s')"
      using Suc.hyps(2) Suc.prems(2,7,8) S2 i1 unf ltn by (auto simp: word_le_nat_alt)
    note IH = Suc.hyps(1) [OF pre(1-3) Suc.prems(3-5) pre(4-6)]
    define e where "e = (case stop of None \<Rightarrow> n | Some j \<Rightarrow> j)"
    have ie: "unat i < unat e" using IH i1 by (auto simp: e_def word_le_nat_alt)
    have set': "{unat page0 + unat i ..< unat page0 + unat e} = insert (unat page0 + unat i) {unat page0 + unat (i + 1) ..< unat page0 + unat e}"
      using ie i1 by auto
    have sl: "(if unat (i + 1) \<le> j \<and> j < unat e then of_nat (unat page0 + j) else user_pages p1 ! j) =
        (if unat i \<le> j \<and> j < unat e then of_nat (unat page0 + j) else user_pages p ! j)" for j
      using S2 ie i1 len by (cases "j = unat i") (auto simp: nth_list_update)
    show ?thesis unfolding e_def [symmetric] set'
      using IH [folded e_def] S2 True ie unfolding sl by (auto simp: word_le_nat_alt)
  qed
qed

lemma pages_up_to_unat:
  assumes l: "unat (page_linear page0) = unat page0 * 4096" "0 < unat page0" and a: "page_linear page0 \<le> a"
  shows "unat ((a - page_linear page0 + PAGE_SIZE - 1) div PAGE_SIZE) = pages_up_to page0 a"
proof -
  have le: "unat page0 * 4096 \<le> unat a" using a l(1) by (simp add: word_le_nat_alt)
  then have d: "unat (a - page_linear page0) = unat a - unat page0 * 4096" using l(1) by (simp add: unat_sub_if_size)
  have "a - page_linear page0 + PAGE_SIZE - 1 = (a - page_linear page0) + 4095" by simp
  moreover have "unat a \<le> 4294967295" using word_n1_ge [of a] by (simp add: word_le_nat_alt unsigned_minus_1_eq_mask mask_eq_exp_minus_1)
  then have "unat a - unat page0 * 4096 + 4095 < 4294967296" using l(2) le by linarith
  ultimately have "unat (a - page_linear page0 + PAGE_SIZE - 1) = unat a - unat page0 * 4096 + 4095"
    using d by (simp only: unat_word_ariths) simp
  then show ?thesis unfolding unat_div pages_up_to_def by simp
qed

lemma page_backed_base_tracked:
  assumes "proc_page_backed_base p \<noteq> PAGE_ID_INVALID"
  obtains k where "k < USER_PAGES_MAX" "user_pages p ! k = proc_page_backed_base p"
proof -
  have k: "proc_first_page_backed_slot p < USER_PAGES_MAX" "user_pages p ! proc_first_page_backed_slot p = proc_page_backed_base p"
    using assms by (auto simp: proc_page_backed_base_def Let_def not_le split: if_splits)
  show thesis by (rule that [OF k])
qed

text \<open>Growth, from a loop that stopped: the rollback restores everything.\<close>

lemma brk_rollback:
  fixes page0 :: "'p::len word" and s :: "'p word page_mm"
  assumes ok: "user_ok p s" and p0: "unat page0 \<in> page_arena s"
    and fit: "unat page0 + 64 \<le> 2 ^ 20" "unat page0 + 64 \<le> 2 ^ LENGTH('p)" and n: "n \<le> (64 :: u32)" "i \<le> n"
    and slots: "\<forall>j. unat i \<le> j \<and> j < unat n \<longrightarrow> user_pages p ! j = PAGE_ID_INVALID"
    and r: "brk_grow p s (page_linear page0) i n = (Some e, p1, s1)"
    and q: "proc_release_tracked_pages p1 s1 i e = (p', s')"
  shows "p' = p \<and> page_frames s' = page_frames s \<and> user_ok p' s' \<and> \<not> {unat page0 + unat i ..< unat page0 + unat n} \<subseteq> page_frames s"
proof -
  note G = brk_grow_run [OF ok p0 fit n slots r, simplified]
  have ok1: "user_ok p1 s1" and ie: "unat i \<le> unat e" "unat e < unat n" using G by (auto simp: word_le_nat_alt word_less_nat_alt)
  note R = release_range [OF ok1 q]
  have e64: "unat n \<le> 64" using n(1) by (simp add: word_le_nat_alt)
  let ?I = "{j. unat i \<le> j \<and> j < unat e \<and> j < USER_PAGES_MAX}"
  have I: "?I = {unat i ..< unat e}" using ie e64 by auto
  have pj: "user_pages p1 ! j = of_nat (unat page0 + j)" "unat (of_nat (unat page0 + j) :: 'p word) = unat page0 + j"
      "(of_nat (unat page0 + j) :: 'p word) \<noteq> PAGE_ID_INVALID" if "unat i \<le> j" "j < unat e" for j
  proof -
    show "user_pages p1 ! j = of_nat (unat page0 + j)" using G that by presburger
    have "unat page0 + j \<in> {unat page0 + unat i ..< unat page0 + unat e}" using that by simp
    then have ar: "unat page0 + j \<in> page_arena s" using G page_invD(2) [OF user_okD(2) [OF ok]] by blast
    show u: "unat (of_nat (unat page0 + j) :: 'p word) = unat page0 + j"
      using that ie e64 fit(2) by (simp only: unat_of_nat) simp
    show "(of_nat (unat page0 + j) :: 'p word) \<noteq> PAGE_ID_INVALID"
      by (rule page_linear_unat(1) [OF user_okD(2) [OF ok] _ user_okD(5) [OF ok]]) (simp only: u ar)
  qed
  have sf: "slots_frames (user_pages p1) ?I = {unat page0 + unat i ..< unat page0 + unat e}"
  proof (intro set_eqI iffI)
    fix x assume "x \<in> slots_frames (user_pages p1) ?I"
    then show "x \<in> {unat page0 + unat i ..< unat page0 + unat e}" using pj unfolding I by (auto simp: slots_frames_def)
  next
    fix x assume x: "x \<in> {unat page0 + unat i ..< unat page0 + unat e}"
    then have b: "unat i \<le> x - unat page0" "x - unat page0 < unat e" by auto
    note q = pj [OF b]
    have "unat (user_pages p1 ! (x - unat page0)) = x" unfolding q(1) q(2) using x by simp
    moreover have "user_pages p1 ! (x - unat page0) \<noteq> PAGE_ID_INVALID" unfolding q(1) by (rule q(3))
    ultimately show "x \<in> slots_frames (user_pages p1) ?I"
      unfolding slots_frames_def I using b by (intro CollectI exI [of _ "x - unat page0"]) simp
  qed
  have "user_pages p' ! j = user_pages p ! j" for j
    using R(3) [of j] G slots ie unfolding I by (cases "unat i \<le> j \<and> j < unat e") auto
  then have "user_pages p' = user_pages p" using user_okD(1) [OF R(5)] user_okD(1) [OF ok] by (intro nth_equalityI) simp_all
  moreover have "p1 = p\<lparr>user_pages := user_pages p1\<rparr>" using G by blast
  ultimately have "p' = p" using R(4) by (metis umem.surjective umem.update_convs(1))
  moreover have "page_frames s' = page_frames s" using R(1) G unfolding sf by blast
  moreover have "unat page0 + unat e \<in> {unat page0 + unat i ..< unat page0 + unat n}" using ie by simp
  ultimately show ?thesis using G R(5) by blast
qed

text \<open>What \<^verbatim>\<open>sys_brk\<close> does once the new break is known to be in range: grow and roll back on failure, or shrink.\<close>

lemma brk_move:
  fixes p :: "'p::len word umem" and s :: "'p word page_mm" and addr ow nw :: u32 and page0 :: "'p word"
  defines "r \<equiv> (case brk_grow p s (page_linear page0) ow nw of
       (Some i, p, s) \<Rightarrow> let (p, s) = proc_release_tracked_pages p s ow i in (brk_current p, p, s)
     | (None, p, s) \<Rightarrow> let (p, s) = proc_release_tracked_pages p s nw ow in (addr, p\<lparr>brk_current := addr\<rparr>, s))"
  assumes ok: "user_ok p s" and ar: "unat page0 \<in> page_arena s"
    and fit: "unat page0 + 64 \<le> 2 ^ 20" "unat page0 + 64 \<le> 2 ^ LENGTH('p)" and nle: "nw \<le> 64"
    and sl: "\<forall>j. unat ow \<le> j \<and> j < unat nw \<longrightarrow> user_pages p ! j = PAGE_ID_INVALID"
  shows "case r of (rc, p', s') \<Rightarrow> user_ok p' s' \<and>
    (if {unat page0 + unat ow ..< unat page0 + unat nw} \<subseteq> page_frames s
     then rc = addr \<and> brk_current p' = addr
       \<and> page_frames s' = page_frames s - {unat page0 + unat ow ..< unat page0 + unat nw}
           \<union> slots_frames (user_pages p) ({unat nw..<unat ow} \<inter> {..<USER_PAGES_MAX})
     else rc = brk_current p \<and> p' = p \<and> page_frames s' = page_frames s)"
proof -
  have ok_upd: "user_ok (q\<lparr>brk_current := addr\<rparr>) t = user_ok q t" for q t by (simp add: user_ok_def)
  obtain stop p1 s1 where g: "brk_grow p s (page_linear page0) ow nw = (stop, p1, s1)" by (metis prod_cases3)
  show ?thesis
  proof (cases "ow \<le> nw")
    case True
    note G = brk_grow_run [OF ok ar fit nle True sl g]
    show ?thesis
    proof (cases stop)
      case None
      obtain p' s' where q: "proc_release_tracked_pages p1 s1 nw ow = (p', s')" by fastforce
      have ok1: "user_ok p1 s1" using G by blast
      note R = release_range [OF ok1 q]
      have I: "{j. unat nw \<le> j \<and> j < unat ow \<and> j < USER_PAGES_MAX} = {}" using True by (auto simp: word_le_nat_alt)
      have "page_frames s' = page_frames s1" using R(1) unfolding I by simp
      moreover have "{unat nw..<unat ow} = {}" using True by (auto simp: word_le_nat_alt)
      ultimately show ?thesis using R(5) G [unfolded None option.case] None q g unfolding r_def by (simp add: ok_upd)
    next
      case (Some e)
      obtain p' s' where q: "proc_release_tracked_pages p1 s1 ow e = (p', s')" by fastforce
      note B = brk_rollback [OF ok ar fit nle True sl g [unfolded Some] q]
      show ?thesis using B Some q g unfolding r_def by auto
    qed
  next
    case False
    have "brk_grow p s (page_linear page0) ow nw = (None, p, s)"
      using False less_imp_le [of ow nw] by (auto simp: brk_grow.simps [of p s _ ow nw])
    moreover obtain p' s' where q: "proc_release_tracked_pages p s nw ow = (p', s')" by fastforce
    note R = release_range [OF ok q]
    have "{j. unat nw \<le> j \<and> j < unat ow \<and> j < USER_PAGES_MAX} = {unat nw..<unat ow} \<inter> {..<USER_PAGES_MAX}" by auto
    moreover have "{unat page0 + unat ow ..< unat page0 + unat nw} = {}" using False by (simp add: word_le_nat_alt)
    ultimately show ?thesis using R(1,5) q unfolding r_def by (simp add: ok_upd)
  qed
qed

text \<open>C10: moving the break. Let the image of the process start at page \<open>page0\<close>, and let no mapping use
  the slots between the old and the new break. \<^verbatim>\<open>sys_brk\<close> succeeds exactly when the new break is not
  below the initial one, needs at most 64 pages, and the pages that follow the heap are free; it then takes
  exactly these pages, or gives back the pages tracked between the new and the old break. Otherwise it
  returns the old break, and pages it had taken are given back: process and free pages are as before.\<close>

theorem sys_brk_correct:
  fixes p :: "'p::len word umem" and s :: "'p word page_mm" and addr :: u32
  defines "page0 \<equiv> proc_page_backed_base p"
  defines "old \<equiv> pages_up_to page0 (brk_current p)" and "new \<equiv> pages_up_to page0 addr"
  assumes ok: "user_ok p s" and p0: "page0 \<noteq> PAGE_ID_INVALID"
    and fit: "unat page0 + 64 \<le> 2 ^ 20" "unat page0 + 64 \<le> 2 ^ LENGTH('p)"
    and brk: "page_linear page0 \<le> brk_base p" "brk_base p \<le> brk_current p"
    and slots: "\<forall>j. old \<le> j \<and> j < new \<and> j < USER_PAGES_MAX \<longrightarrow> user_pages p ! j = PAGE_ID_INVALID"
  shows "case sys_brk addr p s of (r, p', s') \<Rightarrow> user_ok p' s' \<and>
    (if addr \<noteq> 0 \<and> brk_base p \<le> addr \<and> new \<le> 64 \<and> {unat page0 + old ..< unat page0 + new} \<subseteq> page_frames s
     then r = addr \<and> brk_current p' = addr
       \<and> page_frames s' = page_frames s - {unat page0 + old ..< unat page0 + new} \<union> slots_frames (user_pages p) ({new..<old} \<inter> {..<USER_PAGES_MAX})
     else r = brk_current p \<and> p' = p \<and> page_frames s' = page_frames s)"
proof -
  note D = user_okD [OF ok]
  obtain k where k: "k < USER_PAGES_MAX" "user_pages p ! k = page0"
    using page_backed_base_tracked p0 unfolding page0_def by blast
  then have ar: "unat page0 \<in> page_arena s" using D(6) [of k] p0 by blast
  note L = page_linear_unat [OF D(2) ar D(5)]
  have pos: "0 < unat page0" using ar D(5) by auto
  have bc: "page_linear page0 \<le> brk_current p" using brk by simp
  show ?thesis
  proof (cases "addr = 0 \<or> addr < brk_base p")
    case True
    then show ?thesis using ok by (auto simp: sys_brk_def)
  next
    case addr: False
    then have "page_linear page0 \<le> addr" using brk(1) by (meson not_less order_trans)
    have addr': "addr \<noteq> 0" "brk_base p \<le> addr" using addr by (simp_all add: not_less)
    define ow where "ow = (brk_current p - page_linear page0 + PAGE_SIZE - 1) div PAGE_SIZE"
    define nw where "nw = (addr - page_linear page0 + PAGE_SIZE - 1) div PAGE_SIZE"
    have ow: "unat ow = old" unfolding ow_def old_def by (rule pages_up_to_unat [OF L(2) pos bc])
    have nw: "unat nw = new" unfolding nw_def new_def by (rule pages_up_to_unat [OF L(2) pos \<open>page_linear page0 \<le> addr\<close>])
    have n64: "64 < nw \<longleftrightarrow> \<not> new \<le> 64" using nw by (simp add: word_less_nat_alt not_le)
    define r where "r = (case brk_grow p s (page_linear page0) ow nw of
         (Some i, p, s) \<Rightarrow> let (p, s) = proc_release_tracked_pages p s ow i in (brk_current p, p, s)
       | (None, p, s) \<Rightarrow> let (p, s) = proc_release_tracked_pages p s nw ow in (addr, p\<lparr>brk_current := addr\<rparr>, s))"
    have unf: "sys_brk addr p s = (if 64 < nw then (brk_current p, p, s) else r)"
      using addr p0 unfolding sys_brk_def page0_def [symmetric] Let_def ow_def [symmetric] nw_def [symmetric] r_def by simp
    show ?thesis
    proof (cases "64 < nw")
      case True
      then show ?thesis using ok n64 unfolding unf by simp
    next
      case le: False
      then have nle: "nw \<le> 64" and new64: "new \<le> 64" using n64 by (simp_all add: not_less)
      have "\<forall>j. unat ow \<le> j \<and> j < unat nw \<longrightarrow> user_pages p ! j = PAGE_ID_INVALID"
        using slots new64 unfolding ow nw by auto
      from brk_move [OF ok ar fit nle this, of addr] show ?thesis
        using addr' le new64 unfolding unf r_def [symmetric] ow nw by simp
    qed
  qed
qed

subsection \<open>Example processes\<close>

lemma demo_slots:
  "user_pages demo_umem ! 0 = 16" "user_pages demo_umem ! Suc 0 = 17" "user_pages demo_umem ! 2 = 18"
  "3 \<le> i \<Longrightarrow> i < USER_PAGES_MAX \<Longrightarrow> user_pages demo_umem ! i = PAGE_ID_INVALID"
  "length (user_pages demo_umem) = USER_PAGES_MAX"
  by (simp_all add: demo_umem_def nth_append)

lemma slot_cases: "i < USER_PAGES_MAX \<Longrightarrow> i = 0 \<or> i = 1 \<or> i = 2 \<or> 3 \<le> (i :: nat)"
  by auto

lemma demo_tracked: "tracked demo_umem = {16, 17, 18}"
proof -
  have s: "{..<USER_PAGES_MAX} = insert 0 (insert 1 (insert 2 {3..<USER_PAGES_MAX}))" by auto
  have "slots_frames (user_pages demo_umem) {3..<USER_PAGES_MAX} = {}" by (auto simp: slots_frames_def demo_slots)
  then show ?thesis unfolding s slots_frames_insert One_nat_def demo_slots by (auto simp: PAGE_ID_INVALID_def)
qed

lemma demo_user_ok: "user_ok demo_umem demo_mm"
  unfolding user_ok_def demo_tracked demo_mm_facts
proof (intro conjI allI impI)
  fix i j assume i: "i < USER_PAGES_MAX" and j: "j < USER_PAGES_MAX" and v: "user_pages demo_umem ! i \<noteq> PAGE_ID_INVALID"
    and eq: "user_pages demo_umem ! i = user_pages demo_umem ! j"
  show "i = j" using slot_cases [OF i] slot_cases [OF j] v eq i j by (elim disjE) (simp_all add: demo_slots)
qed (auto simp: demo_slots demo_mm_facts)

lemma demo_other_ok: "user_ok demo_other demo_mm" "tracked demo_other = {}"
proof -
  show t: "tracked demo_other = {}" by (auto simp: slots_frames_def demo_other_def)
  show "user_ok demo_other demo_mm" unfolding user_ok_def t demo_mm_facts
    using demo_mm_facts(3) by (auto simp: demo_other_def)
qed

theorem release_all_tracked_witness:
  "page_frames (snd (proc_release_tracked_pages demo_umem demo_mm 0 64)) = {16..<24}"
proof -
  obtain p' s' where r: "proc_release_tracked_pages demo_umem demo_mm 0 64 = (p', s')" by fastforce
  have "page_frames s' = {19..<24} \<union> {16, 17, 18}"
    using release_all_tracked [OF demo_user_ok r] unfolding demo_tracked demo_mm_facts by simp
  also have "\<dots> = {16..<24}" by auto
  finally show ?thesis using r by simp
qed

theorem munmap_frees_foreign_page_witness:
  "\<exists>s'. sys_munmap 0x11000 4096 demo_other demo_mm = (0, demo_other, s') \<and> page_frames s' = insert 17 {19..<24}"
  using munmap_frees_foreign_page [OF demo_other_ok(1), of 17] demo_other_ok(2) demo_mm_facts(1,2)
  by (auto simp: page_linear_def page_id_linear_def PAGE_ID_INVALID_def)

theorem mmap_munmap_roundtrip_witness:
  "case sys_mmap2 0 5000 MAP_ANONYMOUS 0xFFFFFFFF demo_umem demo_mm of (r, p', s') \<Rightarrow>
     user_ok p' s' \<and> (case r of Inl e \<Rightarrow> page_frames s' = {19..<24} | Inr a \<Rightarrow> card ({19..<24} - page_frames s') = 2)"
  using mmap_munmap_roundtrip [OF demo_user_ok, of 5000 MAP_ANONYMOUS 0 "0xFFFFFFFF"] demo_mm_facts(2)
  by (auto simp: split_beta split: sum.splits)

theorem sys_brk_correct_witness:
  "fst (sys_brk 0x14800 demo_umem demo_mm) = 0x14800 \<and> fst (sys_brk 0x19000 demo_umem demo_mm) = 0x13000
   \<and> page_frames (snd (snd (sys_brk 0x14800 demo_umem demo_mm))) = {21..<24}"
proof -
  have b: "proc_page_backed_base demo_umem = 16"
    by (simp add: proc_page_backed_base_def proc_first_page_backed_slot_def upt_conv_Cons demo_slots Let_def) (simp add: PAGE_ID_INVALID_def)
  have f: "brk_base demo_umem = 0x13000" "brk_current demo_umem = 0x13000" by (simp_all add: demo_umem_def)
  have n: "pages_up_to (16 :: 16 word) 0x13000 = 3" "pages_up_to (16 :: 16 word) 0x14800 = 5" "pages_up_to (16 :: 16 word) 0x19000 = 9"
    by (simp_all add: pages_up_to_def)
  have l: "page_linear (16 :: 16 word) \<le> 0x13000" by (simp add: page_linear_def page_id_linear_def PAGE_ID_INVALID_def)
  have inv: "(16 :: 16 word) \<noteq> PAGE_ID_INVALID" by (simp add: PAGE_ID_INVALID_def)
  have s: "{19..<21} \<subseteq> {19..<24 :: nat}" "\<not> {19..<25} \<subseteq> {19..<24 :: nat}" "{19..<24} - {19..<21 :: nat} = {21..<24}" by auto
  have "\<forall>j. 3 \<le> j \<and> j < m \<and> j < USER_PAGES_MAX \<longrightarrow> user_pages demo_umem ! j = PAGE_ID_INVALID" for m
    by (simp add: demo_slots)
  then show ?thesis
    using sys_brk_correct [where p = demo_umem and s = demo_mm and addr = "0x14800", unfolded b f n, OF demo_user_ok]
      sys_brk_correct [where p = demo_umem and s = demo_mm and addr = "0x19000", unfolded b f n, OF demo_user_ok]
      l inv s demo_mm_facts(2)
    by (auto simp: split_beta)
qed

text \<open>\<^verbatim>\<open>sys_brk\<close> writes the slots it grows into without looking: a page mapped there is no longer tracked
  and stays allocated.\<close>

lemma brk_overwrites_mapping:
  "case sys_mmap2 0x17000 4096 (MAP_ANONYMOUS OR MAP_FIXED) 0xFFFFFFFF
      (demo_umem\<lparr>user_pages := [16, 17, 18, PAGE_ID_INVALID] @ replicate 60 0\<rparr>) demo_mm of (m, p, s) \<Rightarrow>
    m = Inr 0x17000 \<and> user_pages p ! 3 = 23 \<and>
    (case sys_brk 0x14000 p s of (r, p', s') \<Rightarrow>
      r = 0x14000 \<and> 23 \<notin> set (user_pages p') \<and> \<not> pool_is_free (mm_pool s') 23)"
  by code_simp

end
