(* ===== verification/User_Mem16.thy ===== *)
theory User_Mem16
  imports User_Mem
begin

text \<open>
  User memory on the 8086 target: the parts of \<^verbatim>\<open>src/kernel/core/syscall/sys_mem.c\<close> under
  \<^verbatim>\<open>__ia16__\<close>. A process owns one segment of 16 pages for its life; \<^verbatim>\<open>user_pages\<close> only records
  which of them are in use, and the calls allocate nothing. Addresses and sizes are 16-bit, page ids 8-bit;
  the last page of the segment is the stack. Setting pages to zero has no effect on the modelled state.
\<close>

subsection \<open>Operations\<close>

record umem16 = "8 word umem" +
  data_base_page :: "8 word"
  brk_base16 :: u16
  brk_current16 :: u16

abbreviation I16_USER_STACK_PAGE :: u16 where "I16_USER_STACK_PAGE \<equiv> 15"

definition i16_user_segment_base :: "umem16 \<Rightarrow> 8 word" where
  "i16_user_segment_base p =
     (if data_base_page p \<noteq> PAGE_ID_INVALID then data_base_page p else proc_page_backed_base (umem.truncate p))"

definition i16_user_page_count :: "u16 \<Rightarrow> u16" where
  "i16_user_page_count end_off = (if end_off = 0 then 0 else (end_off + 4096 - 1) div 4096)"

text \<open>The loops over the slots from \<open>page\<close> to \<open>end_page\<close>.\<close>

definition slots_between :: "u16 \<Rightarrow> u16 \<Rightarrow> nat list" where
  "slots_between page end_page = [unat page ..< unat end_page]"

definition set_slots :: "umem16 \<Rightarrow> (nat \<Rightarrow> 8 word) \<Rightarrow> u16 \<Rightarrow> u16 \<Rightarrow> umem16" where
  "set_slots p f page end_page =
     p\<lparr>user_pages := fold (\<lambda>i pages. pages[i := f i]) (slots_between page end_page) (user_pages p)\<rparr>"

definition i16_mmap_range_is_free :: "umem16 \<Rightarrow> u16 \<Rightarrow> u16 \<Rightarrow> u16 \<Rightarrow> bool" where
  "i16_mmap_range_is_free p start_page num_pages brk_pages =
     (let end_page = start_page + num_pages in
      \<not> I16_USER_STACK_PAGE < end_page \<and> \<not> start_page < brk_pages
      \<and> list_all (\<lambda>i. user_pages p ! i = PAGE_ID_INVALID) (slots_between start_page end_page))"

definition sys_brk16 :: "u32 \<Rightarrow> umem16 \<Rightarrow> u16 \<times> umem16" where
  "sys_brk16 addr p =
     (if addr = 0 then (brk_current16 p, p)
      else
        let new_brk = ucast addr :: u16 in
        if new_brk < brk_base16 p then (brk_current16 p, p)
        else
          let base_id = i16_user_segment_base p; old_top = brk_current16 p in
          if base_id = PAGE_ID_INVALID then (brk_current16 p, p)
          else if I16_USER_STACK_PAGE * 4096 < new_brk then (brk_current16 p, p)
          else
            let old_pages = i16_user_page_count old_top; new_pages = i16_user_page_count new_brk in
            if old_pages < new_pages
              \<and> list_ex (\<lambda>i. user_pages p ! i \<noteq> PAGE_ID_INVALID) (slots_between old_pages new_pages)
            then (brk_current16 p, p)
            else
              let p = (if old_pages < new_pages then set_slots p (\<lambda>i. base_id + of_nat i) old_pages new_pages
                       else if new_pages < old_pages then set_slots p (\<lambda>_. PAGE_ID_INVALID) new_pages old_pages
                       else p)
              in (new_brk, p\<lparr>brk_current16 := new_brk\<rparr>))"

text \<open>The downward search of \<^verbatim>\<open>sys_mmap2\<close> from \<open>start_page\<close>.\<close>

function i16_find_range :: "umem16 \<Rightarrow> u16 \<Rightarrow> u16 \<Rightarrow> u16 \<Rightarrow> u16 option" where
  "i16_find_range p num_pages brk_pages start_page =
     (if \<not> brk_pages \<le> start_page then None
      else if i16_mmap_range_is_free p start_page num_pages brk_pages then Some start_page
      else if start_page = 0 then None
      else i16_find_range p num_pages brk_pages (start_page - 1))"
  by auto
termination
  by (relation "measure (\<lambda>(p, n, b, sp). unat sp)") (auto simp: unat_minus_one unat_gt_0)

declare i16_find_range.simps [simp del]

definition sys_mmap16 :: "u16 \<Rightarrow> u16 \<Rightarrow> u32 \<Rightarrow> u32 \<Rightarrow> umem16 \<Rightarrow> (int + u16) \<times> umem16" where
  "sys_mmap16 addr len flags fd p =
     (if \<not> nz (flags AND MAP_ANONYMOUS) then (Inl (- ENOSYS), p)
      else if sint (ucast fd :: u16) \<noteq> - 1 then (Inl (- EINVAL), p)
      else if len = 0 then (Inl (- EINVAL), p)
      else
        let num_pages = (len + 4096 - 1) div 4096; base_id = i16_user_segment_base p in
        if base_id = PAGE_ID_INVALID then (Inl (- ENOMEM), p)
        else if num_pages = 0 \<or> I16_USER_STACK_PAGE < num_pages then (Inl (- ENOMEM), p)
        else
          let brk_pages = i16_user_page_count (brk_current16 p) in
          if nz (flags AND MAP_FIXED) \<and> addr \<noteq> 0 then
            if addr AND 0xFFF \<noteq> 0 then (Inl (- EINVAL), p)
            else
              let start_page = addr div 4096; end_page = start_page + num_pages in
              if I16_USER_STACK_PAGE < end_page then (Inl (- ENOMEM), p)
              else if \<not> i16_mmap_range_is_free p start_page num_pages brk_pages then (Inl (- ENOMEM), p)
              else (Inr (start_page * 4096), set_slots p (\<lambda>i. base_id + of_nat i) start_page end_page)
          else
            (case i16_find_range p num_pages brk_pages (I16_USER_STACK_PAGE - num_pages) of
               None \<Rightarrow> (Inl (- ENOMEM), p)
             | Some start_page \<Rightarrow>
                 (Inr (start_page * 4096), set_slots p (\<lambda>i. base_id + of_nat i) start_page (start_page + num_pages))))"

definition sys_munmap16 :: "u16 \<Rightarrow> u16 \<Rightarrow> umem16 \<Rightarrow> int \<times> umem16" where
  "sys_munmap16 addr len p =
     (if addr = 0 \<or> len = 0 then (- EINVAL, p)
      else
        let num_pages = (len + 4096 - 1) div 4096; brk_pages = i16_user_page_count (brk_current16 p) in
        if addr AND 0xFFF \<noteq> 0 then (- EINVAL, p)
        else
          let start_page = addr div 4096; end_page = start_page + num_pages in
          if I16_USER_STACK_PAGE < end_page then (- EINVAL, p)
          else if start_page < brk_pages then (- EINVAL, p)
          else if list_ex (\<lambda>i. user_pages p ! i = PAGE_ID_INVALID) (slots_between start_page end_page) then (- EINVAL, p)
          else (0, set_slots p (\<lambda>_. PAGE_ID_INVALID) start_page end_page))"

text \<open>Every used slot of the segment holds the page at its place, the heap is in use up to the break, and the
  break stays below the stack page.\<close>

definition seg_ok :: "umem16 \<Rightarrow> bool" where
  "seg_ok p \<longleftrightarrow> length (user_pages p) = USER_PAGES_MAX \<and> data_base_page p \<noteq> PAGE_ID_INVALID
     \<and> unat (data_base_page p) + 16 \<le> 255 \<and> brk_base16 p \<le> brk_current16 p \<and> unat (brk_current16 p) \<le> 61440
     \<and> (\<forall>i < 15. user_pages p ! i = PAGE_ID_INVALID \<or> user_pages p ! i = data_base_page p + of_nat i)
     \<and> (\<forall>i. i * 4096 < unat (brk_current16 p) \<longrightarrow> user_pages p ! i = data_base_page p + of_nat i)"

inductive umem16_step :: "umem16 \<Rightarrow> umem16 \<Rightarrow> bool" where
  us_brk: "sys_brk16 addr p = (r, p') \<Longrightarrow> umem16_step p p'"
| us_mmap: "sys_mmap16 a len flags fd p = (m, p') \<Longrightarrow> umem16_step p p'"
| us_munmap: "sys_munmap16 a len p = (rc, p') \<Longrightarrow> umem16_step p p'"

text \<open>What no call changes: the stack page and above, the segment, the initial break.\<close>

definition seg_frame :: "umem16 \<Rightarrow> umem16 \<Rightarrow> bool" where
  "seg_frame p p' \<longleftrightarrow> data_base_page p' = data_base_page p \<and> brk_base16 p' = brk_base16 p
     \<and> (\<forall>i. 15 \<le> i \<longrightarrow> user_pages p' ! i = user_pages p ! i)"

text \<open>A process with three pages of image and heap and its stack page in use.\<close>

definition demo_umem16 :: umem16 where
  "demo_umem16 = \<lparr>user_pages = map (\<lambda>i. if i < 3 then 32 + of_nat i else if i = 15 then 47 else PAGE_ID_INVALID) [0..<64],
     stack_page_id = PAGE_ID_INVALID, user_stack_page = 0, brk_base = 0, brk_current = 0,
     data_base_page = 32, brk_base16 = 0x2800, brk_current16 = 0x2C00\<rparr>"

subsection \<open>The segment of a process\<close>

lemma fold_update_nth:
  "fold (\<lambda>i pages. pages[i := f i]) [a..<e] xs ! i = (if a \<le> i \<and> i < e \<and> i < length xs then f i else xs ! i)"
  "length (fold (\<lambda>i pages. pages[i := f i]) [a..<e] xs) = length xs"
proof -
  have "length (fold (\<lambda>i pages. pages[i := f i]) [a..<e] xs) = length xs \<and>
    (\<forall>i. fold (\<lambda>i pages. pages[i := f i]) [a..<e] xs ! i = (if a \<le> i \<and> i < e \<and> i < length xs then f i else xs ! i))"
  proof (induction e)
    case (Suc e)
    show ?case
    proof (cases "a \<le> e")
      case True
      then show ?thesis
        using Suc by (cases "e < length xs") (auto simp: nth_list_update less_Suc_eq list_update_beyond)
    next
      case False
      then show ?thesis by auto
    qed
  qed auto
  then show "fold (\<lambda>i pages. pages[i := f i]) [a..<e] xs ! i = (if a \<le> i \<and> i < e \<and> i < length xs then f i else xs ! i)"
    "length (fold (\<lambda>i pages. pages[i := f i]) [a..<e] xs) = length xs" by blast+
qed

lemma set_slots_nth:
  "user_pages (set_slots p f a e) ! i = (if unat a \<le> i \<and> i < unat e \<and> i < length (user_pages p) then f i else user_pages p ! i)"
  "length (user_pages (set_slots p f a e)) = length (user_pages p)"
  "data_base_page (set_slots p f a e) = data_base_page p" "brk_base16 (set_slots p f a e) = brk_base16 p"
  "brk_current16 (set_slots p f a e) = brk_current16 p"
  by (simp_all add: set_slots_def slots_between_def fold_update_nth)

lemma page_count16:
  assumes "unat e \<le> 61440"
  shows "unat (i16_user_page_count e) = (unat e + 4095) div 4096"
    "i < unat (i16_user_page_count e) \<longleftrightarrow> i * 4096 < unat e" "unat (i16_user_page_count e) \<le> 15"
proof -
  have "e + 4096 - 1 = e + 4095" by simp
  then have "unat (e + 4096 - 1) = unat e + 4095" using assms by (simp add: unat_word_ariths)
  then show u: "unat (i16_user_page_count e) = (unat e + 4095) div 4096"
    by (auto simp: i16_user_page_count_def unat_div)
  show "unat (i16_user_page_count e) \<le> 15" using assms unfolding u by (simp add: div_le_mono [where n = 65535, simplified])
  show "i < unat (i16_user_page_count e) \<longleftrightarrow> i * 4096 < unat e" unfolding u by (simp add: less_eq_div_iff_mult_less_eq Suc_le_eq [symmetric]) 
qed

lemma seg_okD:
  assumes "seg_ok p"
  shows "length (user_pages p) = USER_PAGES_MAX" "data_base_page p \<noteq> PAGE_ID_INVALID" "unat (data_base_page p) + 16 \<le> 255"
    "brk_base16 p \<le> brk_current16 p" "unat (brk_current16 p) \<le> 61440"
    "i < 15 \<Longrightarrow> user_pages p ! i = PAGE_ID_INVALID \<or> user_pages p ! i = data_base_page p + of_nat i"
    "i * 4096 < unat (brk_current16 p) \<Longrightarrow> user_pages p ! i = data_base_page p + of_nat i"
    "i16_user_segment_base p = data_base_page p"
  using assms by (auto simp: seg_ok_def i16_user_segment_base_def)

lemma seg_page_valid:
  assumes "seg_ok p" "i < 15"
  shows "data_base_page p + of_nat i \<noteq> PAGE_ID_INVALID"
proof -
  have "unat (data_base_page p + of_nat i) = unat (data_base_page p) + i"
    using seg_okD(3) [OF assms(1)] assms(2) by (intro unat_add_of_nat) simp
  then show ?thesis using seg_okD(3) [OF assms(1)] assms(2)
    by (auto simp: PAGE_ID_INVALID_def unsigned_minus_1_eq_mask mask_eq_exp_minus_1)
qed

text \<open>Taking or clearing slots between the heap and the stack page keeps the segment consistent.\<close>

lemma set_slots_seg_ok:
  assumes ok: "seg_ok p" and f: "f = (\<lambda>i. data_base_page p + of_nat i) \<or> f = (\<lambda>_. PAGE_ID_INVALID)"
    and b: "unat e \<le> 15" "unat (brk_current16 p) \<le> unat a * 4096"
  shows "seg_ok (set_slots p f a e)" "\<And>i. 15 \<le> i \<Longrightarrow> user_pages (set_slots p f a e) ! i = user_pages p ! i"
proof -
  note D = seg_okD [OF ok]
  show "user_pages (set_slots p f a e) ! i = user_pages p ! i" if "15 \<le> i" for i
    using b(1) that by (simp add: set_slots_nth)
  have "user_pages (set_slots p f a e) ! i = data_base_page p + of_nat i" if "i * 4096 < unat (brk_current16 p)" for i
  proof -
    have "\<not> unat a \<le> i" using b(2) that by simp
    then show ?thesis using D(7) [OF that] by (simp add: set_slots_nth)
  qed
  moreover have "user_pages (set_slots p f a e) ! i = PAGE_ID_INVALID \<or> user_pages (set_slots p f a e) ! i = data_base_page p + of_nat i"
    if "i < 15" for i
    using D(6) [OF that] f by (auto simp: set_slots_nth)
  ultimately show "seg_ok (set_slots p f a e)" unfolding seg_ok_def set_slots_nth(2-5) using D(1-5) by blast
qed

lemma count_covers: "unat e \<le> 61440 \<Longrightarrow> unat e \<le> unat (i16_user_page_count e) * 4096"
  using page_count16(2) [of e "unat (i16_user_page_count e)"] by simp

lemma brk16_keeps:
  assumes ok: "seg_ok p" and r: "sys_brk16 addr p = (r, p')"
  shows "seg_ok p' \<and> seg_frame p p' \<and> r = brk_current16 p'"
proof (cases "p' = p \<and> r = brk_current16 p")
  case True
  then show ?thesis using ok by (simp add: seg_frame_def)
next
  case False
  note D = seg_okD [OF ok]
  define nb where "nb = (ucast addr :: u16)"
  define ow where "ow = i16_user_page_count (brk_current16 p)"
  define nw where "nw = i16_user_page_count nb"
  define p1 where "p1 = (if ow < nw then set_slots p (\<lambda>i. data_base_page p + of_nat i) ow nw
      else if nw < ow then set_slots p (\<lambda>_. PAGE_ID_INVALID) nw ow else p)"
  have nb: "brk_base16 p \<le> nb" "nb \<le> 61440" and p': "p' = p1\<lparr>brk_current16 := nb\<rparr>" and r': "r = nb"
    using r False D(2)
    unfolding sys_brk16_def Let_def nb_def [symmetric] D(8) ow_def [symmetric] nw_def [symmetric] p1_def [symmetric]
    by (auto split: if_splits simp: not_less)
  have nb': "unat nb \<le> 61440" using nb(2) by (simp add: word_le_nat_alt)
  note cn = page_count16 [OF nb', folded nw_def] and co = page_count16 [OF D(5), folded ow_def]
  have p1: "data_base_page p1 = data_base_page p" "brk_base16 p1 = brk_base16 p" "length (user_pages p1) = USER_PAGES_MAX"
    by (simp_all add: p1_def set_slots_nth D(1))
  have slot: "user_pages p1 ! i = (if unat ow \<le> i \<and> i < unat nw then data_base_page p + of_nat i
      else if unat nw \<le> i \<and> i < unat ow then PAGE_ID_INVALID else user_pages p ! i)" for i
    using cn(3) co(3) by (auto simp: p1_def set_slots_nth D(1) word_less_nat_alt)
  have "user_pages p1 ! i = data_base_page p + of_nat i" if "i * 4096 < unat nb" for i
    using that D(7) [of i] unfolding cn(2) [symmetric] co(2) [symmetric] slot by auto
  moreover have "user_pages p1 ! i = PAGE_ID_INVALID \<or> user_pages p1 ! i = data_base_page p + of_nat i" if "i < 15" for i
    using D(6) [OF that] unfolding slot by auto
  ultimately have "seg_ok p'" unfolding seg_ok_def p' using D nb nb' p1 by simp
  moreover have "seg_frame p p'" unfolding seg_frame_def p' using p1 cn(3) co(3) by (auto simp: slot)
  ultimately show ?thesis by (simp add: p' r')
qed

lemma range_free16:
  assumes "i16_mmap_range_is_free p a n b" "unat a \<le> 15" "unat n \<le> 15"
  shows "unat (a + n) = unat a + unat n" "unat a + unat n \<le> 15" "b \<le> a"
    "\<And>i. unat a \<le> i \<Longrightarrow> i < unat a + unat n \<Longrightarrow> user_pages p ! i = PAGE_ID_INVALID"
proof -
  show u: "unat (a + n) = unat a + unat n" using assms(2,3) by (simp add: unat_word_ariths)
  show "unat a + unat n \<le> 15" "b \<le> a"
    "\<And>i. unat a \<le> i \<Longrightarrow> i < unat a + unat n \<Longrightarrow> user_pages p ! i = PAGE_ID_INVALID"
    using assms(1) u by (auto simp: i16_mmap_range_is_free_def Let_def slots_between_def list_all_iff not_less word_le_nat_alt)
qed

lemma find_range16:
  assumes "i16_find_range p n b a = Some k"
  shows "k \<le> a \<and> i16_mmap_range_is_free p k n b"
  using assms
proof (induction p n b a rule: i16_find_range.induct)
  case (1 p n b a)
  show ?case
  proof (cases "i16_mmap_range_is_free p a n b \<or> a = 0 \<or> \<not> b \<le> a")
    case True
    then show ?thesis using "1.prems" by (subst (asm) i16_find_range.simps) (auto split: if_splits)
  next
    case False
    then have "i16_find_range p n b (a - 1) = Some k" using "1.prems" by (subst (asm) i16_find_range.simps) auto
    then have "k \<le> a - 1 \<and> i16_mmap_range_is_free p k n b" using "1.IH" False by auto
    moreover have "a - 1 \<le> a" using False by (simp add: word_le_nat_alt unat_minus_one)
    ultimately show ?thesis by auto
  qed
qed

text \<open>Every successful mapping takes a run of free slots between the heap and the stack page.\<close>

lemma mmap16_ok:
  assumes ok: "seg_ok p" and r: "sys_mmap16 addr len flags fd p = (Inr a, p')"
  defines "n \<equiv> (len + 4096 - 1) div 4096"
  obtains k where "a = k * 4096" "p' = set_slots p (\<lambda>i. data_base_page p + of_nat i) k (k + n)" "n \<noteq> 0" "unat n \<le> 15" "unat k \<le> 15"
    "i16_mmap_range_is_free p k n (i16_user_page_count (brk_current16 p))"
proof -
  note D = seg_okD [OF ok]
  have n: "n \<noteq> 0" "unat n \<le> 15"
    using r unfolding sys_mmap16_def n_def Let_def by (auto simp: not_less word_le_nat_alt split: if_splits)
  show thesis
  proof (cases "nz (flags AND MAP_FIXED) \<and> addr \<noteq> 0")
    case True
    have "unat addr < 2 ^ LENGTH(16)" by (rule unsigned_less)
    then have "unat addr div 4096 < 16" by (simp add: div_less_iff_less_mult)
    then have "unat (addr div 4096) \<le> 15" by (simp add: unat_div)
    then show thesis using that [of "addr div 4096"] r n True
      unfolding sys_mmap16_def Let_def n_def [symmetric] D(8) by (auto split: if_splits)
  next
    case False
    obtain k where k: "i16_find_range p n (i16_user_page_count (brk_current16 p)) (15 - n) = Some k" "a = k * 4096"
        "p' = set_slots p (\<lambda>i. data_base_page p + of_nat i) k (k + n)"
      using r False unfolding sys_mmap16_def Let_def n_def [symmetric] D(8) by (auto split: if_splits option.splits)
    have "unat (15 - n) \<le> 15" using n(2) by (simp add: unat_sub_if_size)
    then show thesis using that [of k] k n find_range16 [OF k(1)] by (auto simp: word_le_nat_alt)
  qed
qed

lemma brk_below_count: "seg_ok p \<Longrightarrow> i16_user_page_count (brk_current16 p) \<le> k \<Longrightarrow> unat (brk_current16 p) \<le> unat k * 4096"
  using count_covers [OF seg_okD(5)] by (meson le_trans mult_le_mono1 word_le_nat_alt)

lemma mmap16_keeps:
  assumes ok: "seg_ok p" and r: "sys_mmap16 addr len flags fd p = (m, p')"
  shows "seg_ok p' \<and> seg_frame p p'"
proof (cases m)
  case (Inl e)
  then have "p' = p" using r unfolding sys_mmap16_def Let_def by (auto split: if_splits option.splits)
  then show ?thesis using ok by (simp add: seg_frame_def)
next
  case (Inr a)
  let ?n = "(len + 4096 - 1) div 4096"
  obtain k where k: "p' = set_slots p (\<lambda>i. data_base_page p + of_nat i) k (k + ?n)" "unat ?n \<le> 15" "unat k \<le> 15"
    and f: "i16_mmap_range_is_free p k ?n (i16_user_page_count (brk_current16 p))"
    using mmap16_ok [OF ok r [unfolded Inr]] by metis
  note F = range_free16 [OF f k(3,2)]
  have "unat (k + ?n) \<le> 15" unfolding F(1) by (rule F(2))
  from set_slots_seg_ok [OF ok disjI1 [OF refl] this brk_below_count [OF ok F(3)]] show ?thesis
    unfolding k(1) seg_frame_def by (simp add: set_slots_nth)
qed

lemma munmap16_keeps:
  assumes ok: "seg_ok p" and r: "sys_munmap16 addr len p = (rc, p')"
  shows "seg_ok p' \<and> seg_frame p p'"
proof (cases "p' = p")
  case True
  then show ?thesis using ok by (simp add: seg_frame_def)
next
  case False
  define k where "k = addr div 4096"
  define e where "e = k + (len + 4096 - 1) div 4096"
  have p': "p' = set_slots p (\<lambda>_. PAGE_ID_INVALID) k e" and le: "e \<le> 15" "i16_user_page_count (brk_current16 p) \<le> k"
    using r False unfolding sys_munmap16_def Let_def k_def [symmetric] e_def [symmetric] by (auto split: if_splits simp: not_less)
  have "unat e \<le> 15" using le(1) by (simp add: word_le_nat_alt)
  from set_slots_seg_ok [OF ok disjI2 [OF refl] this brk_below_count [OF ok le(2)]] show ?thesis
    unfolding p' seg_frame_def by (simp add: set_slots_nth)
qed

lemma len_pages16:
  fixes len :: u16
  assumes "(len + 4096 - 1) div 4096 \<noteq> 0"
  shows "unat len \<le> unat ((len + 4096 - 1) div 4096) * 4096"
proof -
  have e: "len + 4096 - 1 = len + 4095" by simp
  show ?thesis
  proof (cases "unat len + 4095 < 65536")
    case True
    then have "unat (len + 4095) = unat len + 4095" by (simp add: unat_word_ariths)
    then show ?thesis unfolding e unat_div by simp
  next
    case False
    have b: "unat len \<le> 65535"
      using word_n1_ge [of len] by (simp add: word_le_nat_alt unsigned_minus_1_eq_mask mask_eq_exp_minus_1)
    then have "(unat len - 61441) mod 65536 = unat len - 61441" by (intro mod_less) linarith
    then have "unat (len + 4095) = unat len - 61441" using False by (simp add: unat_word_ariths le_mod_geq)
    then have "unat ((len + 4096 - 1) div 4096) = 0" using b unfolding e unat_div by simp
    then show ?thesis using assms by (simp add: unat_eq_0)
  qed
qed

interpretation umem16_run: step_system umem16_step seg_ok
proof
  fix p p' assume ok: "seg_ok p" and st: "umem16_step p p'"
  from st show "seg_ok p'" using ok by cases (auto dest: brk16_keeps mmap16_keeps munmap16_keeps)
qed

lemma aligned16: "4096 dvd unat a \<Longrightarrow> (a :: u16) AND 0xFFF = 0"
proof -
  assume d: "4096 dvd unat a"
  have "a AND 0xFFF = take_bit 12 a" by (simp add: take_bit_eq_mask mask_eq_exp_minus_1 and.commute)
  moreover have "unat (take_bit 12 a) = 0" using d by (simp add: take_bit_eq_mod unat_mod dvd_eq_mod_eq_0)
  ultimately show ?thesis by (simp add: unat_eq_0)
qed

text \<open>C35: the segment of a process on the 8086. Along every sequence of \<^verbatim>\<open>brk\<close>, \<^verbatim>\<open>mmap\<close> and
  \<^verbatim>\<open>munmap\<close> calls, with any arguments and results, the used slots hold the pages of the segment at
  their place, the heap is in use up to the break, and the break stays below the stack page. In every such
  state a successful mapping lies page-aligned between the break and the stack page, on pages that were
  unused, and unmapping it with the same length restores the slots.\<close>

theorem umem16_segment:
  assumes "seg_ok p0" and "umem16_step\<^sup>*\<^sup>* p0 p"
  shows "seg_ok p \<and> (case sys_mmap16 addr len flags fd p of
      (Inl e, p') \<Rightarrow> p' = p
    | (Inr a, p') \<Rightarrow> 4096 dvd unat a \<and> brk_current16 p \<le> a \<and> unat a + unat len \<le> 61440
        \<and> (a \<noteq> 0 \<longrightarrow> (case sys_munmap16 a len p' of (rc, p'') \<Rightarrow> rc = 0 \<and> user_pages p'' = user_pages p)))"
proof -
  have ok: "seg_ok p" using umem16_run.reach_inv assms by blast
  obtain m p' where r: "sys_mmap16 addr len flags fd p = (m, p')" by fastforce
  show ?thesis
  proof (cases m)
    case (Inl e)
    then have "p' = p" using r unfolding sys_mmap16_def Let_def by (auto split: if_splits option.splits)
    then show ?thesis using ok r Inl by simp
  next
    case (Inr a)
    define n where "n = (len + 4096 - 1) div 4096"
    obtain k where a: "a = k * 4096" and p': "p' = set_slots p (\<lambda>i. data_base_page p + of_nat i) k (k + n)"
      and k: "n \<noteq> 0" "unat n \<le> 15" "unat k \<le> 15"
      and f: "i16_mmap_range_is_free p k n (i16_user_page_count (brk_current16 p))"
      using mmap16_ok [OF ok r [unfolded Inr], folded n_def] .
    note F = range_free16 [OF f k(3,2)]
    have l0: "len \<noteq> 0" using r Inr by (auto simp: sys_mmap16_def split: if_splits)
    have ua: "unat a = unat k * 4096" using k(3) by (simp add: a unat_word_ariths)
    have "brk_current16 p \<le> a" using brk_below_count [OF ok F(3)] ua by (simp add: word_le_nat_alt)
    moreover have "unat a + unat len \<le> 61440"
      using len_pages16 [of len, folded n_def] k(1) F(2) ua by simp
    moreover have "rc = 0 \<and> user_pages p'' = user_pages p" if a0: "a \<noteq> 0" and u: "sys_munmap16 a len p' = (rc, p'')" for rc p''
    proof -
      have al: "a AND 0xFFF = 0" by (rule aligned16) (simp add: ua)
      have ak: "a div 4096 = k" using ua by (simp add: word_unat_eq_iff unat_div)
      have e15: "\<not> 15 < k + n" using F(1,2) by (simp add: word_less_nat_alt)
      have b: "\<not> k < i16_user_page_count (brk_current16 p')" using F(3) unfolding p' by (simp add: set_slots_nth not_less)
      have len: "length (user_pages p) = USER_PAGES_MAX" by (rule seg_okD(1) [OF ok])
      have used: "\<not> list_ex (\<lambda>i. user_pages p' ! i = PAGE_ID_INVALID) (slots_between k (k + n))"
        using seg_page_valid [OF ok] F(1,2) len by (auto simp: list_ex_iff slots_between_def p' set_slots_nth)
      have "p'' = set_slots p' (\<lambda>_. PAGE_ID_INVALID) k (k + n) \<and> rc = 0"
        using u a0 l0 al e15 b used unfolding sys_munmap16_def Let_def n_def [symmetric] ak by simp
      moreover have "user_pages (set_slots p' (\<lambda>_. PAGE_ID_INVALID) k (k + n)) = user_pages p"
        using F(1,2,4) len by (intro nth_equalityI) (auto simp: set_slots_nth p')
      ultimately show ?thesis by simp
    qed
    ultimately show ?thesis using ok r Inr ua by auto
  qed
qed

lemma demo_umem16_ok: "seg_ok demo_umem16"
proof -
  have s: "user_pages demo_umem16 ! i = (if i < 3 then 32 + of_nat i else PAGE_ID_INVALID)" if "i < 15" for i
    using that by (auto simp: demo_umem16_def)
  have f: "length (user_pages demo_umem16) = 64" "data_base_page demo_umem16 = 32" "brk_base16 demo_umem16 = 0x2800"
      "brk_current16 demo_umem16 = 0x2C00" by (simp_all add: demo_umem16_def)
  have "user_pages demo_umem16 ! i = 32 + of_nat i" if "i * 4096 < 0x2C00" for i using that s [of i] by simp
  then show ?thesis unfolding seg_ok_def f using s by (auto simp: PAGE_ID_INVALID_def)
qed

theorem umem16_segment_witness:
  "case sys_mmap16 0 5000 MAP_ANONYMOUS 0xFFFF demo_umem16 of (Inl e, p') \<Rightarrow> p' = demo_umem16
    | (Inr a, p') \<Rightarrow> 4096 dvd unat a \<and> 0x2C00 \<le> a \<and> unat a + 5000 \<le> 61440"
  using umem16_segment [OF demo_umem16_ok rtranclp.rtrancl_refl, where addr = 0 and len = 5000 and flags = MAP_ANONYMOUS and fd = "0xFFFF"]
  by (auto simp: split_beta demo_umem16_def split: sum.splits)

text \<open>A length above 61440 bytes wraps to no pages: unmapping reports success and does nothing.\<close>

lemma munmap16_long_length: "snd (sys_munmap16 0xD000 0xF001 p) = p"
  by (simp add: sys_munmap16_def Let_def set_slots_def slots_between_def)

end
