(* ===== verification/Path.thy ===== *)
theory Path
  imports Prelude
begin

text \<open>
  Path normalisation of \<^verbatim>\<open>src/kernel/vfs/namei.c\<close>: \<^verbatim>\<open>path_normalize\<close> and \<^verbatim>\<open>absolutize\<close>.
  A C string is the list of its characters before the terminating NUL. \<open>path_normalize\<close> reads one string
  and writes another; \<open>path_normalize_inplace\<close> is the same loop on one buffer that is read and overwritten,
  which is how \<^verbatim>\<open>absolutize\<close> calls it for relative paths.
\<close>

subsection \<open>Operations\<close>

abbreviation slash :: char where "slash \<equiv> CHR ''/''"
abbreviation NUL :: char where "NUL \<equiv> CHR 0x00"

abbreviation VFS_NAME_MAX :: nat where "VFS_NAME_MAX \<equiv> 63"
abbreviation VFS_PATH_MAX :: nat where "VFS_PATH_MAX \<equiv> 128"

text \<open>Removal of the last component from the output buffer.\<close>

definition pop_component :: "string \<Rightarrow> string" where
  "pop_component buf = butlast (rev (dropWhile (\<lambda>c. c \<noteq> slash) (rev buf)))"

lemma component_shorter:
  assumes "dropWhile (\<lambda>c. c = slash) path \<noteq> []"
  shows "length (dropWhile (\<lambda>c. c \<noteq> slash) (dropWhile (\<lambda>c. c = slash) path)) < length path"
proof -
  obtain c q where q: "dropWhile (\<lambda>c. c = slash) path = c # q" using assms by (cases "dropWhile (\<lambda>c. c = slash) path") auto
  have "c \<noteq> slash" using hd_dropWhile [OF assms] q by simp
  then have "length (dropWhile (\<lambda>c. c \<noteq> slash) (c # q)) \<le> length q" by (simp add: length_dropWhile_le)
  also have "\<dots> < length path" using length_dropWhile_le [of "\<lambda>c. c = slash" path] q by simp
  finally show ?thesis by (simp add: q)
qed

function norm_loop :: "int \<Rightarrow> string \<Rightarrow> string \<Rightarrow> int + string" where
  "norm_loop bufsiz path buf =
     (let p = dropWhile (\<lambda>c. c = slash) path in
      if p = [] then Inr buf
      else
        let comp = takeWhile (\<lambda>c. c \<noteq> slash) p; rest = dropWhile (\<lambda>c. c \<noteq> slash) p in
        if comp = ''.'' then norm_loop bufsiz rest buf
        else if comp = ''..'' then norm_loop bufsiz rest (pop_component buf)
        else if VFS_NAME_MAX < length comp then Inl (- ENAMETOOLONG)
        else if bufsiz \<le> int (length buf) + 1 + int (length comp) then Inl (- ENAMETOOLONG)
        else norm_loop bufsiz rest (buf @ slash # comp))"
  by auto

termination
  by (relation "measure (\<lambda>(n, path, buf). length path)") (auto intro!: component_shorter)

declare norm_loop.simps [simp del]

definition path_normalize :: "string \<Rightarrow> int \<Rightarrow> int + string" where
  "path_normalize path bufsiz =
     (if path = [] \<or> hd path \<noteq> slash \<or> bufsiz < 2 then Inl (- EINVAL)
      else case norm_loop bufsiz path [] of
             Inl e \<Rightarrow> Inl e
           | Inr buf \<Rightarrow> Inr (if buf = [] then [slash] else buf))"

subsection \<open>In place\<close>

text \<open>The loops that move the read position \<open>p\<close> in the buffer \<open>m\<close>, stopping at the NUL.\<close>

fun scan_while :: "(char \<Rightarrow> bool) \<Rightarrow> string \<Rightarrow> nat" where
  "scan_while f [] = 0"
| "scan_while f (c # cs) = (if c \<noteq> NUL \<and> f c then Suc (scan_while f cs) else 0)"

text \<open>The write position before the last component.\<close>

fun pop_len :: "string \<Rightarrow> nat \<Rightarrow> nat" where
  "pop_len m 0 = 0"
| "pop_len m (Suc len) = (if m ! len \<noteq> slash then pop_len m len else len)"

text \<open>\<^verbatim>\<open>memmove\<close> inside the buffer.\<close>

definition move_within :: "string \<Rightarrow> nat \<Rightarrow> nat \<Rightarrow> nat \<Rightarrow> string" where
  "move_within m dst src n =
     map (\<lambda>i. if dst \<le> i \<and> i < dst + n then m ! (src + (i - dst)) else m ! i) [0..<length m]"

lemma scan_while_nth:
  assumes "i < scan_while f cs"
  shows "i < length cs \<and> cs ! i \<noteq> NUL \<and> f (cs ! i)"
  using assms by (induction cs arbitrary: i) (auto split: if_splits simp: nth_Cons split: nat.splits)

lemma scan_while_stop: "scan_while f cs < length cs \<Longrightarrow> cs ! scan_while f cs = NUL \<or> \<not> f (cs ! scan_while f cs)"
  by (induction cs) auto

lemma length_move_within [simp]: "length (move_within m dst src n) = length m"
  by (simp add: move_within_def)

lemma scan_while_pos:
  assumes "start = p + scan_while (\<lambda>c. c = slash) (drop p m)" "start < length m" "m ! start \<noteq> NUL"
  shows "m ! start \<noteq> slash" "0 < scan_while (\<lambda>c. c \<noteq> slash) (drop start m)" "p \<le> start"
proof -
  have "scan_while (\<lambda>c. c = slash) (drop p m) < length (drop p m)" using assms by simp
  from scan_while_stop [OF this] assms show ns: "m ! start \<noteq> slash" by simp
  obtain cs where "drop start m = m ! start # cs" using assms(2) by (metis Cons_nth_drop_Suc)
  then show "0 < scan_while (\<lambda>c. c \<noteq> slash) (drop start m)" using ns assms(3) by simp
  show "p \<le> start" using assms(1) by simp
qed

function inplace_loop :: "int \<Rightarrow> string \<Rightarrow> nat \<Rightarrow> nat \<Rightarrow> int + string \<times> nat" where
  "inplace_loop bufsiz m p len =
     (let start = p + scan_while (\<lambda>c. c = slash) (drop p m) in
      if length m \<le> start \<or> m ! start = NUL then Inr (m[len := NUL], len)
      else
        let clen = scan_while (\<lambda>c. c \<noteq> slash) (drop start m); p' = start + clen in
        if clen = 1 \<and> m ! start = CHR ''.'' then inplace_loop bufsiz m p' len
        else if clen = 2 \<and> m ! start = CHR ''.'' \<and> m ! (start + 1) = CHR ''.''
        then let len = pop_len m len in inplace_loop bufsiz (m[len := NUL]) p' len
        else if VFS_NAME_MAX < clen then Inl (- ENAMETOOLONG)
        else if bufsiz \<le> int len + 1 + int clen then Inl (- ENAMETOOLONG)
        else inplace_loop bufsiz (move_within (m[len := slash]) (len + 1) start clen) p' (len + 1 + clen))"
  by auto

termination
proof (relation "measure (\<lambda>(n, m, p, len). length m - p)", goal_cases)
  case (2 n m p len start clen p')
  then show ?case using scan_while_pos [OF 2(1)] by auto
next
  case (3 n m p len start clen p' len')
  then show ?case using scan_while_pos [OF 3(1)] by auto
next
  case (4 n m p len start clen p')
  then show ?case using scan_while_pos [OF 4(1)] by auto
qed simp

declare inplace_loop.simps [simp del]

definition path_normalize_inplace :: "string \<Rightarrow> int \<Rightarrow> int + string \<times> nat" where
  "path_normalize_inplace m bufsiz =
     (if m = [] \<or> hd m \<noteq> slash \<or> bufsiz < 2 then Inl (- EINVAL)
      else case inplace_loop bufsiz m 0 0 of
             Inl e \<Rightarrow> Inl e
           | Inr (m, len) \<Rightarrow> Inr (if len = 0 then (m[0 := slash, 1 := NUL], 1) else (m, len)))"

text \<open>The string in a buffer.\<close>

definition c_string :: "string \<Rightarrow> string" where
  "c_string m = takeWhile (\<lambda>c. c \<noteq> NUL) m"

text \<open>\<^verbatim>\<open>absolutize\<close>: the path is put behind the working directory in the output buffer of size \<open>cap\<close>,
  whose previous content is \<open>out\<close>, and normalised there; an absolute path is normalised into the buffer.\<close>

definition absolutize :: "string \<Rightarrow> string \<Rightarrow> string \<Rightarrow> nat \<Rightarrow> int + string" where
  "absolutize cwd path out cap =
     (if path = [] \<or> hd path \<noteq> slash then
        let cwd = (if cwd \<noteq> [] then cwd else [slash]);
            full = (if length cwd = 1 then slash # path else cwd @ slash # path)
        in if cap \<le> length full then Inl (- ENAMETOOLONG)
           else case path_normalize_inplace (full @ NUL # drop (length full + 1) out) (int cap) of
                  Inl e \<Rightarrow> Inl e
                | Inr (m, len) \<Rightarrow> Inr (take len m)
      else path_normalize path (int cap))"

subsection \<open>What a path means\<close>

text \<open>The components of a path, and the list of names it denotes: a dot stays, two dots go up, but not above
  the root.\<close>

function components :: "string \<Rightarrow> string list" where
  "components path =
     (let p = dropWhile (\<lambda>c. c = slash) path in
      if p = [] then [] else takeWhile (\<lambda>c. c \<noteq> slash) p # components (dropWhile (\<lambda>c. c \<noteq> slash) p))"
  by auto
termination
  by (relation "measure length") (auto intro!: component_shorter)

definition go :: "string list \<Rightarrow> string \<Rightarrow> string list" where
  "go names c = (if c = ''.'' then names else if c = ''..'' then butlast names else names @ [c])"

definition resolve :: "string list \<Rightarrow> string list \<Rightarrow> string list" where
  "resolve names cs = foldl go names cs"

definition render :: "string list \<Rightarrow> string" where
  "render names = concat (map (\<lambda>c. slash # c) names)"

definition is_name :: "string \<Rightarrow> bool" where
  "is_name c \<longleftrightarrow> c \<noteq> [] \<and> slash \<notin> set c \<and> c \<noteq> ''.'' \<and> c \<noteq> ''..''"

declare components.simps [simp del]

lemma render_simps [simp]: "render [] = []" "render (c # cs) = slash # c @ render cs" "render (as @ bs) = render as @ render bs"
  by (simp_all add: render_def)

lemma dropWhile_comp: "slash \<notin> set c \<Longrightarrow> dropWhile (\<lambda>x. x \<noteq> slash) (c @ slash # xs) = slash # xs"
  by (induction c) auto

lemma takeWhile_comp: "slash \<notin> set c \<Longrightarrow> takeWhile (\<lambda>x. x \<noteq> slash) (c @ slash # xs) = c"
  by (induction c) auto

lemma pop_render:
  assumes "slash \<notin> set c"
  shows "pop_component (render (names @ [c])) = render names"
proof -
  have "dropWhile (\<lambda>x. x \<noteq> slash) (rev (render (names @ [c]))) = slash # rev (render names)"
    using dropWhile_comp [of "rev c" "rev (render names)"] assms by simp
  then show ?thesis by (simp add: pop_component_def)
qed

lemma pop_render_any: "\<forall>c\<in>set names. slash \<notin> set c \<Longrightarrow> pop_component (render names) = render (butlast names)"
  by (cases names rule: rev_exhaust) (auto simp: pop_render simp del: render_simps(3), simp add: pop_component_def)

lemma component_hd:
  fixes path cm rest :: string
  assumes "dropWhile (\<lambda>c. c = slash) path \<noteq> []"
  defines "cm \<equiv> takeWhile (\<lambda>c. c \<noteq> slash) (dropWhile (\<lambda>c. c = slash) path)"
    and "rest \<equiv> dropWhile (\<lambda>c. c \<noteq> slash) (dropWhile (\<lambda>c. c = slash) path)"
  shows "cm \<noteq> []" "slash \<notin> set cm" "length cm + length rest \<le> length path"
    "hd path = slash \<Longrightarrow> length cm + length rest + 1 \<le> length path" "rest = [] \<or> hd rest = slash"
proof -
  show "cm \<noteq> []" using hd_dropWhile [OF assms(1)] assms(1) unfolding cm_def by (cases "dropWhile (\<lambda>c. c = slash) path") auto
  show "slash \<notin> set cm" unfolding cm_def using set_takeWhileD by fastforce
  have e: "length cm + length rest = length (dropWhile (\<lambda>c. c = slash) path)"
    unfolding cm_def rest_def by (metis length_append takeWhile_dropWhile_id)
  then show "length cm + length rest \<le> length path"
    using length_dropWhile_le [of "\<lambda>c. c = slash" path] by simp
  show "length cm + length rest + 1 \<le> length path" if h: "hd path = slash"
  proof -
    obtain q where "path = slash # q" using h assms(1) by (cases path) auto
    then have "length (dropWhile (\<lambda>c. c = slash) path) \<le> length q" by (simp add: length_dropWhile_le)
    then show ?thesis using e \<open>path = slash # q\<close> by simp
  qed
  show "rest = [] \<or> hd rest = slash" unfolding rest_def using hd_dropWhile by blast
qed

text \<open>The loop computes the denotation; every name it keeps is short, the output always fits, and it fails
  only when a component is too long or the path does not fit.\<close>

definition norm_post :: "int \<Rightarrow> string \<Rightarrow> string list \<Rightarrow> int + string \<Rightarrow> bool" where
  "norm_post n path names r = (case r of
      Inr q \<Rightarrow> q = render (resolve names (components path))
        \<and> (\<forall>c\<in>set (resolve names (components path)). is_name c \<and> length c \<le> VFS_NAME_MAX)
        \<and> (int (length (render names)) < n \<longrightarrow> int (length q) < n)
    | Inl e \<Rightarrow> e = - ENAMETOOLONG \<and>
        (n \<le> int (length (render names) + length path) \<or> (\<exists>c\<in>set (components path). VFS_NAME_MAX < length c)))"

lemma norm_post_step:
  assumes "norm_post n rest (go names c) r" "components path = c # components rest"
    "length (render (go names c)) + length rest \<le> length (render names) + length path"
    "int (length (render names)) < n \<longrightarrow> int (length (render (go names c))) < n"
  shows "norm_post n path names r"
  using assms by (cases r) (auto simp: norm_post_def resolve_def)

lemma length_render_butlast: "length (render (butlast names)) \<le> length (render names)"
  by (cases names rule: rev_exhaust) auto

lemma norm_loop_spec:
  assumes "\<forall>c\<in>set names. is_name c \<and> length c \<le> VFS_NAME_MAX" "path = [] \<or> hd path = slash"
  shows "norm_post n path names (norm_loop n path (render names))"
  using assms
proof (induction "length path" arbitrary: path names rule: less_induct)
  case less
  let ?p = "dropWhile (\<lambda>c. c = slash) path"
  show ?case
  proof (cases "?p = []")
    case True
    then have "norm_loop n path (render names) = Inr (render names)" "components path = []"
      by (simp_all add: norm_loop.simps [of n path] components.simps [of path] del: dropWhile_eq_Nil_conv)
    then show ?thesis using less.prems by (simp add: norm_post_def resolve_def)
  next
    case False
    define cm where "cm = takeWhile (\<lambda>c. c \<noteq> slash) ?p"
    define rest where "rest = dropWhile (\<lambda>c. c \<noteq> slash) ?p"
    note H = component_hd [OF False, folded cm_def rest_def]
    have hd: "hd path = slash" using less.prems(2) False by auto
    have cs: "components path = cm # components rest"
      using False by (simp add: components.simps [of path] cm_def rest_def Let_def del: dropWhile_eq_Nil_conv)
    have unf: "norm_loop n path (render names) =
      (if cm = ''.'' then norm_loop n rest (render names)
       else if cm = ''..'' then norm_loop n rest (pop_component (render names))
       else if VFS_NAME_MAX < length cm then Inl (- ENAMETOOLONG)
       else if n \<le> int (length (render names)) + 1 + int (length cm) then Inl (- ENAMETOOLONG)
       else norm_loop n rest (render (names @ [cm])))"
      using False by (subst norm_loop.simps) (simp add: cm_def rest_def Let_def del: dropWhile_eq_Nil_conv)
    have lt: "length rest < length path" using H(1,3) by (cases cm) auto
    note IH = less.hyps [OF lt _ H(5)]
    have ns: "\<forall>c\<in>set names. slash \<notin> set c" using less.prems(1) by (auto simp: is_name_def)
    have step: "norm_post n path names (norm_loop n rest (render (go names cm)))"
      if "\<forall>c\<in>set (go names cm). is_name c \<and> length c \<le> VFS_NAME_MAX"
        "int (length (render names)) < n \<longrightarrow> int (length (render (go names cm))) < n"
    proof (rule norm_post_step [OF IH [OF that(1)] cs _ that(2)])
      show "length (render (go names cm)) + length rest \<le> length (render names) + length path"
        using H(4) [OF hd] length_render_butlast [of names] by (auto simp: go_def)
    qed
    consider (dot) "cm = ''.''" | (up) "cm = ''..''" | (fail) "cm \<noteq> ''.''" "cm \<noteq> ''..''" "VFS_NAME_MAX < length cm \<or> n \<le> int (length (render names)) + 1 + int (length cm)"
      | (app) "cm \<noteq> ''.''" "cm \<noteq> ''..''" "\<not> VFS_NAME_MAX < length cm" "\<not> n \<le> int (length (render names)) + 1 + int (length cm)" by blast
    then show ?thesis
    proof cases
      case dot
      then show ?thesis using step less.prems(1) unfolding unf by (simp add: go_def)
    next
      case up
      have "int (length (render names)) < n \<longrightarrow> int (length (render (go names cm))) < n"
        using up length_render_butlast [of names] by (simp add: go_def)
      then show ?thesis using step up less.prems(1) unfolding unf by (auto simp: go_def pop_render_any [OF ns] dest: in_set_butlastD)
    next
      case fail
      then show ?thesis using H(4) [OF hd] unfolding unf norm_post_def by (auto simp: cs)
    next
      case app
      then have "is_name cm" using H(1,2) by (simp add: is_name_def)
      then show ?thesis using step app less.prems(1) unfolding unf by (auto simp: go_def)
    qed
  qed
qed

text \<open>Names rendered and split again are the same.\<close>

lemma components_render:
  assumes "\<forall>c\<in>set names. is_name c"
  shows "components (render names) = names"
  using assms
proof (induction names)
  case Nil
  then show ?case by (simp add: components.simps)
next
  case (Cons c names)
  have c: "c \<noteq> []" "slash \<notin> set c" using Cons.prems by (auto simp: is_name_def)
  then have dw: "dropWhile (\<lambda>x. x = slash) (render (c # names)) = c @ render names" by (cases c) auto
  have tail: "takeWhile (\<lambda>x. x \<noteq> slash) (c @ render names) = c" "dropWhile (\<lambda>x. x \<noteq> slash) (c @ render names) = render names"
    using c(2) by (cases names; auto simp: takeWhile_comp dropWhile_comp)+
  show ?case using c Cons by (simp add: components.simps [of "render (c # names)"] dw tail Let_def del: render_simps)
qed

lemma resolve_names: "\<forall>c\<in>set cs. is_name c \<Longrightarrow> resolve names cs = names @ cs"
  unfolding resolve_def by (induction cs arbitrary: names) (auto simp: go_def is_name_def)

definition path_of :: "string list \<Rightarrow> string" where
  "path_of names = (if names = [] then [slash] else render names)"

lemma components_path_of: "\<forall>c\<in>set names. is_name c \<Longrightarrow> components (path_of names) = names"
  by (auto simp: path_of_def components_render components.simps [of "[slash]"])

text \<open>C21: path normalisation. For an absolute path, \<^verbatim>\<open>path_normalize\<close> returns the path of the names it
  denotes, which fits the buffer, contains no empty, dot or dot-dot component and no component longer than
  \<^verbatim>\<open>VFS_NAME_MAX\<close>, and is its own normal form; it fails only when the path does not fit the buffer or has a
  longer component.\<close>

theorem path_normalize_correct:
  assumes "path \<noteq> []" "hd path = slash" "2 \<le> n"
  shows "case path_normalize path n of
      Inr q \<Rightarrow> q = path_of (resolve [] (components path)) \<and> int (length q) < n \<and> components q = resolve [] (components path)
        \<and> (\<forall>c\<in>set (components q). is_name c \<and> length c \<le> VFS_NAME_MAX) \<and> path_normalize q n = Inr q
    | Inl e \<Rightarrow> e = - ENAMETOOLONG \<and> (n \<le> int (length path) \<or> (\<exists>c\<in>set (components path). VFS_NAME_MAX < length c))"
proof -
  have P: "norm_post n path [] (norm_loop n path [])" using norm_loop_spec [of "[]" path n] assms(1,2) by simp
  let ?ns = "resolve [] (components path)"
  have unf: "path_normalize path n = (case norm_loop n path [] of Inl e \<Rightarrow> Inl e | Inr buf \<Rightarrow> Inr (if buf = [] then [slash] else buf))"
    using assms by (simp add: path_normalize_def)
  show ?thesis
  proof (cases "norm_loop n path []")
    case (Inl e)
    then show ?thesis using P unfolding unf by (simp add: norm_post_def)
  next
    case (Inr q)
    have q: "q = render ?ns" "\<forall>c\<in>set ?ns. is_name c \<and> length c \<le> VFS_NAME_MAX" "int (length q) < n"
      using P Inr assms(3) by (auto simp: norm_post_def)
    have pn: "path_normalize path n = Inr (path_of ?ns)" unfolding unf using Inr q(1)
      by (cases ?ns) (auto simp: path_of_def)
    have len: "int (length (path_of ?ns)) < n" using q(1,3) assms(3) by (auto simp: path_of_def)
    have cq: "components (path_of ?ns) = ?ns" using q(2) by (intro components_path_of) blast
    have start: "path_of ?ns \<noteq> []" "hd (path_of ?ns) = slash" by (cases ?ns; simp add: path_of_def)+
    have P2: "norm_post n (path_of ?ns) [] (norm_loop n (path_of ?ns) [])"
      using norm_loop_spec [of "[]" "path_of ?ns" n] start by simp
    have r2: "resolve [] ?ns = ?ns" using resolve_names [of ?ns "[]"] q(2) by simp
    have "norm_loop n (path_of ?ns) [] = Inr (render ?ns)"
    proof (cases "norm_loop n (path_of ?ns) []")
      case (Inl e)
      then show ?thesis using P2 len q(2) by (auto simp: norm_post_def cq not_less)
    next
      case (Inr x)
      then show ?thesis using P2 by (simp add: norm_post_def cq r2)
    qed
    then have "path_normalize (path_of ?ns) n = Inr (path_of ?ns)"
      using start assms(3) by (cases ?ns) (auto simp: path_normalize_def path_of_def)
    then show ?thesis using pn len cq q(2) by simp
  qed
qed

subsection \<open>In-place normalisation\<close>

lemma scan_while_length: "scan_while f cs = length (takeWhile f (c_string cs))"
  by (induction cs) (auto simp: c_string_def)

lemma takeWhile_drop: "k \<le> length (takeWhile P xs) \<Longrightarrow> takeWhile P (drop k xs) = drop k (takeWhile P xs)"
proof (induction xs arbitrary: k)
  case (Cons x xs)
  then show ?case by (cases k) (auto split: if_splits)
qed simp

lemma pop_component_snoc: "pop_component (xs @ [c]) = (if c \<noteq> slash then pop_component xs else xs)"
  by (simp add: pop_component_def)

lemma pop_len_take:
  assumes "len \<le> length m"
  shows "take (pop_len m len) m = pop_component (take len m)" "pop_len m len \<le> len"
proof -
  have "take (pop_len m len) m = pop_component (take len m) \<and> pop_len m len \<le> len" using assms
  proof (induction len)
    case (Suc len)
    then show ?case by (auto simp: take_Suc_conv_app_nth pop_component_snoc le_SucI)
  qed (simp add: pop_component_def)
  then show "take (pop_len m len) m = pop_component (take len m)" "pop_len m len \<le> len" by auto
qed

text \<open>The buffer during the loop: the output is in front of the read position, the rest of the path behind
  it, up to a NUL.\<close>

definition buf_ok :: "string \<Rightarrow> nat \<Rightarrow> nat \<Rightarrow> string \<Rightarrow> string \<Rightarrow> bool" where
  "buf_ok m p len out path \<longleftrightarrow> len \<le> p \<and> len = length out \<and> take len m = out
     \<and> c_string (drop p m) = path \<and> p + length path < length m"

lemma buf_okD:
  assumes "buf_ok m p len out path"
  shows "len \<le> p" "len = length out" "take len m = out" "c_string (drop p m) = path" "p + length path < length m" "len < length m"
  using assms by (auto simp: buf_ok_def)

lemma c_string_skip:
  assumes "c_string (drop p m) = path" "k \<le> length path"
  shows "c_string (drop (p + k) m) = drop k path"
  using takeWhile_drop [of k "\<lambda>c. c \<noteq> NUL" "drop p m"] assms by (simp add: c_string_def add.commute)

lemma c_string_nth:
  assumes "c_string (drop p m) = path" "p + length path < length m"
  shows "i < length path \<Longrightarrow> m ! (p + i) = path ! i" "m ! (p + length path) = NUL"
proof -
  have t: "take (length path) (drop p m) = path" using assms(1) unfolding c_string_def
    by (metis takeWhile_eq_take)
  show "m ! (p + i) = path ! i" if "i < length path"
  proof -
    have "path ! i = take (length path) (drop p m) ! i" by (simp only: t)
    then show ?thesis using that assms(2) by simp
  qed
  have "length (takeWhile (\<lambda>c. c \<noteq> NUL) (drop p m)) < length (drop p m)" using assms by (simp add: c_string_def)
  from nth_length_takeWhile [OF this] assms show "m ! (p + length path) = NUL" by (simp add: c_string_def)
qed

text \<open>Writing in front of the read position does not change what is still to be read.\<close>

lemma c_string_cong:
  assumes "\<And>i. p \<le> i \<Longrightarrow> i < length m \<Longrightarrow> m' ! i = m ! i" "length m' = length m"
  shows "drop p m' = drop p m"
  using assms by (intro nth_equalityI) auto

lemma buf_ok_pop:
  assumes ok: "buf_ok m p len out path" and k: "0 < k" "k \<le> length path"
  defines "l \<equiv> pop_len m len"
  shows "buf_ok (m[l := NUL]) (p + k) l (pop_component out) (drop k path)"
proof -
  note D = buf_okD [OF ok]
  have l: "take l m = pop_component out" "l \<le> len" using pop_len_take [of len m] D(3,6) by (auto simp: l_def)
  have "drop (p + k) (m[l := NUL]) = drop (p + k) m" using l(2) D(1) k by (intro c_string_cong) (auto simp: nth_list_update)
  moreover have "take l (m[l := NUL]) = pop_component out" using l(1) by simp
  moreover have "length (pop_component out) = l" using l(1,2) D(6) by (metis length_take min.absorb2 less_imp_le order_trans)
  ultimately show ?thesis
    using c_string_skip [OF D(4) k(2)] l(2) D(1,5) k unfolding buf_ok_def by simp
qed

lemma buf_ok_skip:
  assumes ok: "buf_ok m p len out path" and k: "k \<le> length path"
  shows "buf_ok m (p + k) len out (drop k path)"
  using buf_okD [OF ok] c_string_skip [OF buf_okD(4) [OF ok] k] k by (simp add: buf_ok_def)

lemma buf_ok_append:
  assumes ok: "buf_ok m p len out path" and s: "0 < s" "s + n \<le> length path"
  defines "m' \<equiv> move_within (m[len := slash]) (len + 1) (p + s) n"
  shows "buf_ok m' (p + (s + n)) (len + 1 + n) (out @ slash # take n (drop s path)) (drop (s + n) path)"
proof -
  note D = buf_okD [OF ok]
  have len': "length m' = length m" by (simp add: m'_def)
  have nth: "m' ! i = (if len + 1 \<le> i \<and> i < len + 1 + n then path ! (s + (i - (len + 1))) else if i = len then slash else m ! i)"
    if "i < length m" for i
  proof (cases "len + 1 \<le> i \<and> i < len + 1 + n")
    case True
    have "s + (i - (len + 1)) < length path" using True s by linarith
    from c_string_nth(1) [OF D(4,5) this] show ?thesis using True that D(1) s by (auto simp: m'_def move_within_def nth_list_update add.assoc)
  next
    case False
    then show ?thesis using that D(6) by (auto simp: m'_def move_within_def nth_list_update)
  qed
  have "drop (p + (s + n)) m' = drop (p + (s + n)) m"
  proof (rule c_string_cong)
    show "m' ! i = m ! i" if "p + (s + n) \<le> i" "i < length m" for i using that nth [of i] D(1) s by auto
  qed (simp add: len')
  moreover have "take (len + 1 + n) m' = out @ slash # take n (drop s path)"
  proof (rule nth_equalityI)
    show "length (take (len + 1 + n) m') = length (out @ slash # take n (drop s path))" using D(1,2,5) s len' by simp
    fix i assume "i < length (take (len + 1 + n) m')"
    then have i: "i < len + 1 + n" "i < length m" using len' by auto
    have o: "m ! i = out ! i" if "i < len" using D(3) that by (metis nth_take)
    show "take (len + 1 + n) m' ! i = (out @ slash # take n (drop s path)) ! i"
      using i nth [of i] o D(2) s by (auto simp: nth_append nth_Cons' )
  qed
  ultimately show ?thesis using c_string_skip [OF D(4) s(2)] D(1,2,5) s len' unfolding buf_ok_def by simp
qed

text \<open>The in-place loop does what the loop on separate buffers does.\<close>

lemma inplace_loop_same:
  assumes "buf_ok m p len out path" "path = [] \<or> hd path = slash"
  shows "case norm_loop n path out of Inl e \<Rightarrow> inplace_loop n m p len = Inl e
    | Inr q \<Rightarrow> \<exists>m'. inplace_loop n m p len = Inr (m', length q) \<and> length m' = length m \<and> length q < length m
        \<and> take (length q) m' = q \<and> m' ! length q = NUL"
  using assms
proof (induction "length path" arbitrary: path m p len out rule: less_induct)
  case less
  note D = buf_okD [OF less.prems(1)]
  define k where "k = length (takeWhile (\<lambda>c. c = slash) path)"
  let ?p = "dropWhile (\<lambda>c. c = slash) path"
  have k: "scan_while (\<lambda>c. c = slash) (drop p m) = k" "k \<le> length path" "?p = drop k path"
    using D(4) by (simp_all add: k_def scan_while_length length_takeWhile_le dropWhile_eq_drop)
  show ?case
  proof (cases "?p = []")
    case True
    then have "k = length path" using k by simp
    then have "m ! (p + k) = NUL" using c_string_nth(2) [OF D(4,5)] by simp
    then have "inplace_loop n m p len = Inr (m[len := NUL], len)"
      by (simp add: inplace_loop.simps [of n m p len] k(1))
    moreover have "norm_loop n path out = Inr out" using True by (simp add: norm_loop.simps [of n path] del: dropWhile_eq_Nil_conv)
    ultimately show ?thesis using D by simp
  next
    case False
    define cm where "cm = takeWhile (\<lambda>c. c \<noteq> slash) ?p"
    define rest where "rest = dropWhile (\<lambda>c. c \<noteq> slash) ?p"
    note H = component_hd [OF False, folded cm_def rest_def]
    have hd: "hd path = slash" using less.prems(2) False by auto
    have k0: "0 < k" using hd False unfolding k_def by (cases path) auto
    define start where "start = p + k"
    have cs: "c_string (drop start m) = drop k path" unfolding start_def by (rule c_string_skip [OF D(4) k(2)])
    have cl: "scan_while (\<lambda>c. c \<noteq> slash) (drop start m) = length cm" by (simp add: scan_while_length cs cm_def k(3))
    have kl: "k + length cm \<le> length path" "cm = take (length cm) (drop k path)" "rest = drop (k + length cm) path"
    proof -
      have e: "cm = take (length cm) (drop k path)" "rest = drop (length cm) (drop k path)"
        unfolding cm_def rest_def k(3) by (rule takeWhile_eq_take, rule dropWhile_eq_drop)
      then show "cm = take (length cm) (drop k path)" "rest = drop (k + length cm) path" by (simp_all add: add.commute)
      have "length cm \<le> length (drop k path)" unfolding cm_def k(3) by (rule length_takeWhile_le)
      then show "k + length cm \<le> length path" using k(2) by simp
    qed
    have c0: "0 < length cm" using H(1) by simp
    have nth: "m ! (start + i) = cm ! i" if "i < length cm" for i
    proof -
      have "m ! (p + (k + i)) = path ! (k + i)" using c_string_nth(1) [OF D(4,5), of "k + i"] that kl(1) by simp
      moreover have "cm ! i = path ! (k + i)" using kl(1) that by (subst kl(2)) simp
      ultimately show ?thesis by (simp add: start_def add.assoc)
    qed
    have notend: "\<not> (length m \<le> start \<or> m ! start = NUL)"
    proof -
      have "cm ! 0 \<noteq> NUL"
      proof -
        have "cm ! 0 \<in> set (c_string (drop p m))" using c0 kl D(4) by (metis in_set_takeD in_set_dropD nth_mem)
        then show ?thesis using set_takeWhileD unfolding c_string_def by fastforce
      qed
      then show ?thesis using nth [of 0] c0 kl(1) D(5) by (simp add: start_def)
    qed
    have dot: "length cm = 1 \<and> m ! start = CHR ''.'' \<longleftrightarrow> cm = ''.''" using nth [of 0] by (cases cm) auto
    have dd: "length cm = 2 \<and> m ! start = CHR ''.'' \<and> m ! (start + 1) = CHR ''.'' \<longleftrightarrow> cm = ''..''"
      using nth [of 0] nth [of 1] by (cases cm; cases "tl cm") auto
    have unf: "inplace_loop n m p len =
      (if cm = ''.'' then inplace_loop n m (p + (k + length cm)) len
       else if cm = ''..'' then inplace_loop n (m[pop_len m len := NUL]) (p + (k + length cm)) (pop_len m len)
       else if VFS_NAME_MAX < length cm then Inl (- ENAMETOOLONG)
       else if n \<le> int len + 1 + int (length cm) then Inl (- ENAMETOOLONG)
       else inplace_loop n (move_within (m[len := slash]) (len + 1) (p + k) (length cm)) (p + (k + length cm)) (len + 1 + length cm))"
    proof -
      have st: "start + length cm = p + (k + length cm)" by (simp add: start_def)
      show ?thesis using notend
        by (subst inplace_loop.simps) (simp only: k(1) start_def [symmetric] cl Let_def dot dd if_False st)
    qed
    have unf': "norm_loop n path out =
      (if cm = ''.'' then norm_loop n rest out
       else if cm = ''..'' then norm_loop n rest (pop_component out)
       else if VFS_NAME_MAX < length cm then Inl (- ENAMETOOLONG)
       else if n \<le> int len + 1 + int (length cm) then Inl (- ENAMETOOLONG)
       else norm_loop n rest (out @ slash # cm))"
      using False by (subst norm_loop.simps) (simp add: cm_def rest_def Let_def D(2) del: dropWhile_eq_Nil_conv)
    have lt: "length rest < length path" using H(3) c0 by linarith
    have pk: "0 < k + length cm" using k0 by simp
    note IH = less.hyps [OF lt _ H(5)]
    show ?thesis
    proof (cases "cm = ''.''")
      case True
      from IH [OF buf_ok_skip [OF less.prems(1) kl(1), folded kl(3)]] show ?thesis unfolding unf unf' if_P [OF True] .
    next
      case nd: False
      show ?thesis
      proof (cases "cm = ''..''")
        case True
        from IH [OF buf_ok_pop [OF less.prems(1) pk kl(1), folded kl(3)]]
        show ?thesis unfolding unf unf' if_not_P [OF nd] if_P [OF True] length_list_update .
      next
        case ndd: False
        from IH [OF buf_ok_append [OF less.prems(1) k0 kl(1), folded kl(2) kl(3)]]
        have "case norm_loop n rest (out @ slash # cm) of
            Inl e \<Rightarrow> inplace_loop n (move_within (m[len := slash]) (len + 1) (p + k) (length cm)) (p + (k + length cm)) (len + 1 + length cm) = Inl e
          | Inr q \<Rightarrow> \<exists>m'. inplace_loop n (move_within (m[len := slash]) (len + 1) (p + k) (length cm)) (p + (k + length cm)) (len + 1 + length cm) = Inr (m', length q)
              \<and> length m' = length m \<and> length q < length m \<and> take (length q) m' = q \<and> m' ! length q = NUL"
          unfolding length_list_update length_move_within .
        then show ?thesis unfolding unf unf' if_not_P [OF nd] if_not_P [OF ndd] by (auto split: if_splits)
      qed
    qed
  qed
qed

lemma inplace_same:
  assumes "NUL \<notin> set path" and "path \<noteq> []"
  shows "case path_normalize path n of
      Inl e \<Rightarrow> path_normalize_inplace (path @ NUL # junk) n = Inl e
    | Inr q \<Rightarrow> \<exists>m. path_normalize_inplace (path @ NUL # junk) n = Inr (m, length q) \<and> take (length q) m = q
        \<and> m ! length q = NUL"
proof (cases "hd path \<noteq> slash \<or> n < 2")
  case True
  then show ?thesis using assms by (auto simp: path_normalize_def path_normalize_inplace_def)
next
  case False
  let ?m = "path @ NUL # junk"
  have "c_string ?m = path" using assms(1) unfolding c_string_def by (induction path) auto
  then have "buf_ok ?m 0 0 [] path" by (simp add: buf_ok_def)
  note L = inplace_loop_same [OF this, of n]
  show ?thesis
  proof (cases "norm_loop n path []")
    case (Inl e)
    then show ?thesis using L False assms by (simp add: path_normalize_def path_normalize_inplace_def)
  next
    case (Inr q)
    then obtain m' where m': "inplace_loop n ?m 0 0 = Inr (m', length q)" "length m' = length ?m" "take (length q) m' = q" "m' ! length q = NUL"
      using L False by auto
    have "path_normalize_inplace ?m n = Inr (if length q = 0 then (m'[0 := slash, 1 := NUL], 1) else (m', length q))"
      using m'(1) False assms by (simp add: path_normalize_inplace_def)
    moreover have "path_normalize path n = Inr (if q = [] then [slash] else q)"
      using Inr False assms by (simp add: path_normalize_def)
    moreover have "take 1 (m'[0 := slash, 1 := NUL]) = [slash]" "m'[0 := slash, 1 := NUL] ! 1 = NUL"
      using m'(2) assms(2) by (cases m'; simp; cases "tl m'"; auto)+
    ultimately show ?thesis using m' by (cases "q = []") auto
  qed
qed

text \<open>C22: normalisation in place. The path and the output buffer of \<^verbatim>\<open>path_normalize\<close> may be the same
  memory: the loop writes only what it has already read, and the string left in the buffer is the result on
  separate buffers.\<close>

theorem path_normalize_inplace_correct:
  assumes "NUL \<notin> set path" and "path \<noteq> []"
  shows "case path_normalize path n of
      Inl e \<Rightarrow> path_normalize_inplace (path @ NUL # junk) n = Inl e
    | Inr q \<Rightarrow> \<exists>m. path_normalize_inplace (path @ NUL # junk) n = Inr (m, length q) \<and> take (length q) m = q
        \<and> m ! length q = NUL"
  by (rule inplace_same [OF assms])

subsection \<open>Relative paths\<close>

definition full_path :: "string \<Rightarrow> string \<Rightarrow> string" where
  "full_path cwd path =
     (if path \<noteq> [] \<and> hd path = slash then path
      else if length cwd \<le> 1 then slash # path else cwd @ slash # path)"

text \<open>A relative path is the path behind the working directory, normalised.\<close>

lemma absolutize_eq:
  assumes nul: "NUL \<notin> set cwd" "NUL \<notin> set path" and cap: "cap = VFS_PATH_MAX"
  shows "absolutize cwd path out cap =
    (if cap \<le> length (full_path cwd path) \<and> (path = [] \<or> hd path \<noteq> slash) then Inl (- ENAMETOOLONG)
     else path_normalize (full_path cwd path) (int cap))"
proof (cases "path \<noteq> [] \<and> hd path = slash")
  case True
  then show ?thesis by (simp add: absolutize_def full_path_def)
next
  case False
  define full where "full = full_path cwd path"
  have f: "(if length (if cwd \<noteq> [] then cwd else [slash]) = 1 then slash # path else (if cwd \<noteq> [] then cwd else [slash]) @ slash # path) = full"
    using False unfolding full_def full_path_def by (cases cwd) auto
  have unf: "absolutize cwd path out cap = (if cap \<le> length full then Inl (- ENAMETOOLONG)
      else case path_normalize_inplace (full @ NUL # drop (length full + 1) out) (int cap) of
             Inl e \<Rightarrow> Inl e | Inr (m, len) \<Rightarrow> Inr (take len m))"
  proof -
    have rel: "(path = [] \<or> hd path \<noteq> slash) = True" using False by blast
    show ?thesis unfolding absolutize_def Let_def f rel if_True ..
  qed
  have "NUL \<notin> set full" "full \<noteq> []" using nul False by (auto simp: full_def full_path_def)
  from inplace_same [OF this, where n = "int cap" and junk = "drop (length full + 1) out"] False show ?thesis
    unfolding unf full_def [symmetric] by (auto split: sum.splits)
qed

theorem path_normalize_correct_witness:
  "path_normalize ''/usr//./lib/../bin/'' 128 = Inr ''/usr/bin'' \<and> path_normalize ''/usr/bin'' 128 = Inr ''/usr/bin''"
proof -
  have p: "path_normalize ''/usr//./lib/../bin/'' 128 = Inr ''/usr/bin''" by code_simp
  have "path_normalize ''/usr/bin'' 128 = Inr ''/usr/bin''"
  proof -
    have pre: "''/usr//./lib/../bin/'' \<noteq> []" "hd ''/usr//./lib/../bin/'' = slash" "(2 :: int) \<le> 128" by simp_all
    from path_normalize_correct [OF pre] show ?thesis unfolding p sum.case by blast
  qed
  then show ?thesis using p by simp
qed

theorem path_normalize_inplace_correct_witness:
  "\<exists>m. path_normalize_inplace (''/usr/../bin'' @ NUL # ''junk'') 128 = Inr (m, 4) \<and> take 4 m = ''/bin''"
proof -
  have p: "path_normalize ''/usr/../bin'' 128 = Inr ''/bin''" by code_simp
  show ?thesis using path_normalize_inplace_correct [where path = "''/usr/../bin''" and n = 128 and junk = "''junk''"] unfolding p
    by (auto simp: numeral_eq_Suc)
qed

end
