(* ===== verification/Vfs.thy ===== *)
theory Vfs
  imports Path
begin

text \<open>
  The vnode pool, the scratch buffers and the mount table of \<^verbatim>\<open>src/kernel/vfs/vfs.c\<close>. Vnodes and mounts
  are named by their index in \<^verbatim>\<open>vnode_storage\<close> and \<^verbatim>\<open>vfs_mount_table\<close>. The free list of the vnode
  pool is a list of indices, what the pool of \<^verbatim>\<open>kmem.c\<close> means by its links (theory \<open>Kmem\<close>); of the
  scratch pool only the number of free buffers matters here. A file system driver is a number, the functions
  behind it are given to the functions that call them.
\<close>

subsection \<open>Vnodes\<close>

datatype vnode_type = VNODE_FILE | VNODE_DIR | VNODE_SYMLINK | VNODE_DEV

record vnode =
  vn_type :: vnode_type
  vn_size :: u32
  vn_mode :: u32
  vn_ino :: u32
  vn_refcnt :: u32
  vn_fs_priv :: u32
  vn_mount :: "nat option"
  vn_xip_addr :: u32

datatype mnt_state = MNT_STATE_FREE | MNT_STATE_ACTIVE | MNT_STATE_MOUNTING

record mount_entry =
  mnt_path :: string
  mnt_path_len :: u8
  mnt_flags :: u8
  mnt_active :: mnt_state
  mnt_ops :: nat
  mnt_root :: "nat option"
  mnt_sb_priv :: u32

record vfs =
  vnodes :: "vnode list"
  vn_free :: "nat list"
  mounts :: "mount_entry list"
  mount_count :: u32
  scratch_free :: nat

abbreviation VFS_MOUNT_MAX :: nat where "VFS_MOUNT_MAX \<equiv> 8"
abbreviation VFS_VNODE_MAX :: nat where "VFS_VNODE_MAX \<equiv> 64"
abbreviation VFS_SCRATCH_POOL_SIZE :: nat where "VFS_SCRATCH_POOL_SIZE \<equiv> 8"
abbreviation MNT_RDONLY :: u8 where "MNT_RDONLY \<equiv> 1"

abbreviation vnode_of :: "'a vfs_scheme \<Rightarrow> nat \<Rightarrow> vnode" where "vnode_of s v \<equiv> vnodes s ! v"
abbreviation mount_of :: "'a vfs_scheme \<Rightarrow> nat \<Rightarrow> mount_entry" where "mount_of s i \<equiv> mounts s ! i"

definition vn_upd :: "'a vfs_scheme \<Rightarrow> nat \<Rightarrow> (vnode \<Rightarrow> vnode) \<Rightarrow> 'a vfs_scheme" where
  "vn_upd s v f = s\<lparr>vnodes := (vnodes s)[v := f (vnode_of s v)]\<rparr>"

definition mnt_upd :: "'a vfs_scheme \<Rightarrow> nat \<Rightarrow> (mount_entry \<Rightarrow> mount_entry) \<Rightarrow> 'a vfs_scheme" where
  "mnt_upd s i f = s\<lparr>mounts := (mounts s)[i := f (mount_of s i)]\<rparr>"

definition vfs_init :: "'a vfs_scheme \<Rightarrow> 'a vfs_scheme" where
  "vfs_init s = s\<lparr>mounts := map (\<lambda>m. m\<lparr>mnt_active := MNT_STATE_FREE\<rparr>) (mounts s), mount_count := 0,
     vn_free := [0..<VFS_VNODE_MAX], scratch_free := VFS_SCRATCH_POOL_SIZE\<rparr>"

definition vfs_vnode_alloc :: "'a vfs_scheme \<Rightarrow> nat option \<times> 'a vfs_scheme" where
  "vfs_vnode_alloc s =
     (case vn_free s of [] \<Rightarrow> (None, s)
      | v # vs \<Rightarrow> (Some v, vn_upd (s\<lparr>vn_free := vs\<rparr>) v (\<lambda>_.
          \<lparr>vn_type = VNODE_FILE, vn_size = 0, vn_mode = 0, vn_ino = 0, vn_refcnt = 1, vn_fs_priv = 0,
           vn_mount = None, vn_xip_addr = 0\<rparr>)))"

definition vfs_vnode_acquire :: "'a vfs_scheme \<Rightarrow> nat option \<Rightarrow> 'a vfs_scheme" where
  "vfs_vnode_acquire s vn =
     (case vn of None \<Rightarrow> s | Some v \<Rightarrow> vn_upd s v (\<lambda>n. n\<lparr>vn_refcnt := vn_refcnt n + 1\<rparr>))"

definition vfs_vnode_release :: "'a vfs_scheme \<Rightarrow> nat option \<Rightarrow> 'a vfs_scheme" where
  "vfs_vnode_release s vn =
     (case vn of None \<Rightarrow> s
      | Some v \<Rightarrow>
          let s = (if 0 < vn_refcnt (vnode_of s v) then vn_upd s v (\<lambda>n. n\<lparr>vn_refcnt := vn_refcnt n - 1\<rparr>) else s)
          in if vn_refcnt (vnode_of s v) = 0 then s\<lparr>vn_free := v # vn_free s\<rparr> else s)"

definition vnode_free_count :: "'a vfs_scheme \<Rightarrow> nat" where
  "vnode_free_count s = length (vn_free s)"

definition vfs_scratch_alloc :: "'a vfs_scheme \<Rightarrow> bool \<times> 'a vfs_scheme" where
  "vfs_scratch_alloc s = (if scratch_free s = 0 then (False, s) else (True, s\<lparr>scratch_free := scratch_free s - 1\<rparr>))"

text \<open>The argument tells whether the buffer pointer is not null.\<close>

definition vfs_scratch_free :: "'a vfs_scheme \<Rightarrow> bool \<Rightarrow> 'a vfs_scheme" where
  "vfs_scratch_free s buf = (if buf then s\<lparr>scratch_free := scratch_free s + 1\<rparr> else s)"

subsection \<open>Mounting\<close>

definition find_index_of :: "('b \<Rightarrow> bool) \<Rightarrow> 'b list \<Rightarrow> nat option" where
  "find_index_of f xs = find (\<lambda>i. f (xs ! i)) [0..<length xs]"

text \<open>Trailing slashes are not part of a mount path, except for the root.\<close>

function strip_slashes :: "string \<Rightarrow> nat \<Rightarrow> nat" where
  "strip_slashes path plen = (if 1 < plen \<and> path ! (plen - 1) = slash then strip_slashes path (plen - 1) else plen)"
  by auto
termination by (relation "measure snd") auto

text \<open>The first critical section of \<^verbatim>\<open>vfs_mount\<close>: a slot is reserved, or an error.\<close>

definition vfs_mount_begin :: "string \<Rightarrow> nat \<Rightarrow> u8 \<Rightarrow> 'a vfs_scheme \<Rightarrow> (int + nat) \<times> 'a vfs_scheme" where
  "vfs_mount_begin path ops flags s =
     (if VFS_PATH_MAX \<le> length path then (Inl (- ENAMETOOLONG), s)
      else
        let plen = strip_slashes path (length path) in
        if list_ex (\<lambda>m. mnt_active m \<noteq> MNT_STATE_FREE \<and> mnt_path_len m = of_nat plen
              \<and> take plen (mnt_path m) = take plen path \<and> length (mnt_path m) = plen) (mounts s)
        then (Inl (- EBUSY), s)
        else
          (case find_index_of (\<lambda>m. mnt_active m = MNT_STATE_FREE) (mounts s) of
             None \<Rightarrow> (Inl (- ENOMEM), s)
           | Some i \<Rightarrow>
               (Inr i, mnt_upd s i (\<lambda>m. m\<lparr>mnt_path := take plen path, mnt_path_len := of_nat plen,
                  mnt_flags := flags, mnt_ops := ops, mnt_root := None, mnt_sb_priv := 0,
                  mnt_active := MNT_STATE_MOUNTING\<rparr>))))"

text \<open>The second one, after the driver returned \<open>err\<close>.\<close>

definition vfs_mount_end :: "nat \<Rightarrow> int \<Rightarrow> 'a vfs_scheme \<Rightarrow> int \<times> 'a vfs_scheme" where
  "vfs_mount_end i err s =
     (if err \<noteq> 0 then (err, mnt_upd s i (\<lambda>m. m\<lparr>mnt_active := MNT_STATE_FREE\<rparr>))
      else (0, (mnt_upd s i (\<lambda>m. m\<lparr>mnt_active := MNT_STATE_ACTIVE\<rparr>))\<lparr>mount_count := mount_count s + 1\<rparr>))"

text \<open>\<open>drv_mount ops\<close> is the mount function of the driver, None when it has none; \<open>path\<close> or \<open>ops\<close> None
  is a null pointer.\<close>

definition vfs_mount ::
  "(nat \<Rightarrow> (nat \<Rightarrow> u32 \<Rightarrow> 'a vfs_scheme \<Rightarrow> int \<times> 'a vfs_scheme) option) \<Rightarrow> string option \<Rightarrow> nat option \<Rightarrow> u8 \<Rightarrow> u32
    \<Rightarrow> 'a vfs_scheme \<Rightarrow> int \<times> 'a vfs_scheme" where
  "vfs_mount drv_mount path ops flags dev_data s =
     (case (path, ops) of
        (Some path, Some ops) \<Rightarrow>
          (case vfs_mount_begin path ops flags s of
             (Inl e, s) \<Rightarrow> (e, s)
           | (Inr i, s) \<Rightarrow>
               let (err, s) = (case drv_mount ops of None \<Rightarrow> (0, s) | Some f \<Rightarrow> f i dev_data s)
               in vfs_mount_end i err s)
      | _ \<Rightarrow> (- EINVAL, s))"

definition vfs_umount :: "string option \<Rightarrow> 'a vfs_scheme \<Rightarrow> int \<times> 'a vfs_scheme" where
  "vfs_umount path s =
     (case path of None \<Rightarrow> (- EINVAL, s)
      | Some path \<Rightarrow>
          if path = [slash] then (- EINVAL, s)
          else
            (case find_index_of (\<lambda>m. mnt_active m = MNT_STATE_ACTIVE \<and> mnt_path m = path) (mounts s) of
               None \<Rightarrow> (- ENOENT, s)
             | Some i \<Rightarrow>
                 let root = mnt_root (mount_of s i) in
                 if (case root of None \<Rightarrow> False | Some r \<Rightarrow> 1 < vn_refcnt (vnode_of s r)) then (- EBUSY, s)
                 else if list_ex (\<lambda>v. 0 < vn_refcnt (vnode_of s v) \<and> vn_mount (vnode_of s v) = Some i \<and> Some v \<noteq> root)
                     [0..<length (vnodes s)] then (- EBUSY, s)
                 else
                   let s = vfs_vnode_release s root;
                       s = mnt_upd s i (\<lambda>m. m\<lparr>mnt_root := None, mnt_active := MNT_STATE_FREE\<rparr>)
                   in (0, s\<lparr>mount_count := mount_count s - 1\<rparr>)))"

text \<open>The search of \<^verbatim>\<open>vfs_mount_find\<close>, from slot \<open>i\<close> with the best match so far.\<close>

definition mount_better :: "string \<Rightarrow> mount_entry \<Rightarrow> nat option \<Rightarrow> u8 \<Rightarrow> bool" where
  "mount_better path m best best_len =
     (let mlen = mnt_path_len m in
      if mlen = 1 \<and> mnt_path m \<noteq> [] \<and> hd (mnt_path m) = slash then best = None \<or> best_len < mlen
      else take (unat mlen) path = take (unat mlen) (mnt_path m)
        \<and> (length path \<le> unat mlen \<or> path ! unat mlen = slash) \<and> best_len < mlen)"

fun mount_scan :: "string \<Rightarrow> mount_entry list \<Rightarrow> nat \<Rightarrow> nat option \<Rightarrow> u8 \<Rightarrow> nat option \<times> u8" where
  "mount_scan path [] i best best_len = (best, best_len)"
| "mount_scan path (m # ms) i best best_len =
     (if mnt_active m = MNT_STATE_ACTIVE \<and> mount_better path m best best_len
      then mount_scan path ms (i + 1) (Some i) (mnt_path_len m)
      else mount_scan path ms (i + 1) best best_len)"

definition vfs_mount_find :: "string \<Rightarrow> 'a vfs_scheme \<Rightarrow> (nat \<times> string) option \<times> 'a vfs_scheme" where
  "vfs_mount_find path s =
     (case mount_scan path (mounts s) 0 None 0 of
        (Some i, best_len) \<Rightarrow>
          (case mnt_root (mount_of s i) of
             Some r \<Rightarrow> (Some (i, dropWhile (\<lambda>c. c = slash) (drop (unat best_len) path)),
                       vn_upd s r (\<lambda>n. n\<lparr>vn_refcnt := vn_refcnt n + 1\<rparr>))
           | None \<Rightarrow> (None, s))
      | (None, _) \<Rightarrow> (None, s))"

declare strip_slashes.simps [simp del]

subsection \<open>Finding a mount\<close>

lemma components_render_app:
  assumes "\<forall>c\<in>set names. is_name c" "rest = [] \<or> hd rest = slash"
  shows "components (render names @ rest) = names @ components rest"
  using assms
proof (induction names)
  case Nil
  then show ?case by simp
next
  case (Cons c names)
  have c: "c \<noteq> []" "slash \<notin> set c" using Cons.prems by (auto simp: is_name_def)
  let ?x = "render names @ rest"
  have x: "?x = [] \<or> hd ?x = slash" using Cons.prems(2) by (cases names) auto
  have dw: "dropWhile (\<lambda>x. x = slash) (slash # c @ ?x) = c @ ?x" using c by (cases c) auto
  have tl: "takeWhile (\<lambda>x. x \<noteq> slash) (c @ ?x) = c" "dropWhile (\<lambda>x. x \<noteq> slash) (c @ ?x) = ?x"
    using c(2) x by (cases ?x; auto simp: takeWhile_comp dropWhile_comp)+
  have ne: "c @ ?x \<noteq> []" using c(1) by simp
  have "components (slash # c @ ?x) = c # components ?x"
    by (subst components.simps) (simp only: Let_def dw tl ne if_False)
  then show ?case using Cons by simp
qed

lemma components_dropWhile: "components (dropWhile (\<lambda>c. c = slash) p) = components p"
proof -
  have "dropWhile (\<lambda>c. c = slash) (dropWhile (\<lambda>c. c = slash) p) = dropWhile (\<lambda>c. c = slash) p" by (induction p) auto
  then show ?thesis by (simp only: components.simps [of p] components.simps [of "dropWhile (\<lambda>c. c = slash) p"])
qed

text \<open>A mount covers a path when its names are a prefix of the path's names.\<close>

definition mount_names :: "mount_entry \<Rightarrow> string list" where
  "mount_names m = components (mnt_path m)"

definition covers :: "mount_entry \<Rightarrow> string list \<Rightarrow> bool" where
  "covers m ns \<longleftrightarrow> take (length (mount_names m)) ns = mount_names m"

definition mount_norm :: "mount_entry \<Rightarrow> bool" where
  "mount_norm m \<longleftrightarrow> mnt_path m = path_of (mount_names m) \<and> (\<forall>c\<in>set (mount_names m). is_name c)
     \<and> unat (mnt_path_len m) = length (mnt_path m)"

lemma path_of_pos: "0 < length (path_of ns)"
  by (cases ns) (auto simp: path_of_def)

lemma prefix_render:
  assumes "\<forall>c\<in>set ms. is_name c" "\<forall>c\<in>set ns. is_name c" "ms \<noteq> []"
  shows "take (length (render ms)) (path_of ns) = render ms
      \<and> (length (path_of ns) \<le> length (render ms) \<or> path_of ns ! length (render ms) = slash)
    \<longleftrightarrow> take (length ms) ns = ms"
proof
  assume a: "take (length (render ms)) (path_of ns) = render ms
      \<and> (length (path_of ns) \<le> length (render ms) \<or> path_of ns ! length (render ms) = slash)"
  define rest where "rest = drop (length (render ms)) (path_of ns)"
  have e: "path_of ns = render ms @ rest" using a unfolding rest_def by (metis append_take_drop_id)
  have r: "rest = [] \<or> hd rest = slash" using a unfolding rest_def
    by (cases "length (path_of ns) \<le> length (render ms)") (auto simp: hd_drop_conv_nth not_le)
  have "ns = components (path_of ns)" using components_path_of [OF assms(2)] by simp
  also have "\<dots> = ms @ components rest" unfolding e by (rule components_render_app [OF assms(1) r])
  finally show "take (length ms) ns = ms" by (metis append_eq_conv_conj)
next
  assume "take (length ms) ns = ms"
  then obtain ts where ns: "ns = ms @ ts" by (metis append_take_drop_id)
  have "path_of ns = render ms @ render ts" using assms(3) by (simp add: ns path_of_def)
  moreover have "render ts = [] \<or> hd (render ts) = slash" by (cases ts) auto
  ultimately show "take (length (render ms)) (path_of ns) = render ms
      \<and> (length (path_of ns) \<le> length (render ms) \<or> path_of ns ! length (render ms) = slash)"
    by (cases "render ts") (auto simp: nth_append)
qed

definition mount_match :: "string \<Rightarrow> mount_entry \<Rightarrow> bool" where
  "mount_match path m \<longleftrightarrow> (mnt_path_len m = 1 \<and> mnt_path m \<noteq> [] \<and> hd (mnt_path m) = slash)
     \<or> take (unat (mnt_path_len m)) path = take (unat (mnt_path_len m)) (mnt_path m)
        \<and> (length path \<le> unat (mnt_path_len m) \<or> path ! unat (mnt_path_len m) = slash)"

lemma match_covers:
  assumes "mount_norm m" "\<forall>c\<in>set ns. is_name c"
  shows "mount_match (path_of ns) m \<longleftrightarrow> covers m ns"
proof (cases "mount_names m = []")
  case True
  then have "mnt_path m = [slash]" "unat (mnt_path_len m) = 1" using assms(1) by (auto simp: mount_norm_def path_of_def)
  then have "mnt_path_len m = 1" by (simp add: word_unat_eq_iff)
  then show ?thesis using True \<open>mnt_path m = [slash]\<close> by (simp add: mount_match_def covers_def)
next
  case False
  have p: "mnt_path m = render (mount_names m)" "unat (mnt_path_len m) = length (render (mount_names m))"
    using False assms(1) by (auto simp: mount_norm_def path_of_def)
  have n: "\<forall>c\<in>set (mount_names m). is_name c" using assms(1) by (simp add: mount_norm_def)
  have "mnt_path_len m \<noteq> 1"
  proof
    assume "mnt_path_len m = 1"
    then have "length (render (mount_names m)) = 1" using p(2) by simp
    then show False using False n by (cases "mount_names m") (auto simp: is_name_def)
  qed
  then show ?thesis
    using prefix_render [OF n assms(2) False] p(2) unfolding mount_match_def covers_def p(2) p(1) by simp
qed

text \<open>The scan finds an active mount with the longest matching path.\<close>

lemma mount_scan_spec:
  assumes "mount_scan path ms i best bl = (b, l)" "best = None \<Longrightarrow> bl = 0" "\<forall>m\<in>set ms. mnt_active m = MNT_STATE_ACTIVE \<longrightarrow> 0 < mnt_path_len m"
  defines "good \<equiv> \<lambda>j. j < length ms \<and> mnt_active (ms ! j) = MNT_STATE_ACTIVE \<and> mount_match path (ms ! j)"
  shows "bl \<le> l \<and> (\<forall>j. good j \<longrightarrow> mnt_path_len (ms ! j) \<le> l) \<and> (b = None \<longrightarrow> best = None \<and> (\<forall>j. \<not> good j))
    \<and> (b = best \<and> l = bl \<or> (\<exists>j. b = Some (i + j) \<and> good j \<and> l = mnt_path_len (ms ! j)))"
  using assms(1-3) unfolding good_def
proof (induction path ms i best bl rule: mount_scan.induct)
  case (1 path i best bl)
  then show ?case by auto
next
  case (2 path m ms i best bl)
  let ?good = "\<lambda>ms j. j < length ms \<and> mnt_active (ms ! j) = MNT_STATE_ACTIVE \<and> mount_match path (ms ! j)"
  have pos: "\<forall>m\<in>set ms. mnt_active m = MNT_STATE_ACTIVE \<longrightarrow> 0 < mnt_path_len m" using "2.prems"(3) by simp
  define l0 where "l0 = mnt_path_len m"
  show ?case
  proof (cases "mnt_active m = MNT_STATE_ACTIVE \<and> mount_better path m best bl")
    case True
    note t = True
    have IH: "l0 \<le> l \<and> (\<forall>j. ?good ms j \<longrightarrow> mnt_path_len (ms ! j) \<le> l) \<and> (b = None \<longrightarrow> False)
      \<and> (b = Some i \<and> l = l0 \<or> (\<exists>j. b = Some (i + 1 + j) \<and> ?good ms j \<and> l = mnt_path_len (ms ! j)))"
      using "2.IH"(1) [OF t _ _ pos] "2.prems"(1) t by (simp add: l0_def)
    have mm: "mount_match path m" "bl < l0 \<or> best = None \<and> bl = 0"
      using t "2.prems"(2) unfolding mount_better_def mount_match_def l0_def by (auto simp: Let_def split: if_splits)
    have le: "bl \<le> l" using IH mm(2) by (metis less_imp_le order_trans word_zero_le)
    have "mnt_path_len ((m # ms) ! j) \<le> l" if "?good (m # ms) j" for j using that IH by (cases j) (auto simp: l0_def)
    moreover have "\<exists>j. b = Some (i + j) \<and> ?good (m # ms) j \<and> l = mnt_path_len ((m # ms) ! j)"
    proof (cases "b = Some i \<and> l = l0")
      case True
      then show ?thesis using t mm(1) by (intro exI [of _ 0]) (simp add: l0_def)
    next
      case False
      then obtain j where "b = Some (i + 1 + j)" "?good ms j" "l = mnt_path_len (ms ! j)" using IH by blast
      then show ?thesis by (intro exI [of _ "Suc j"]) simp
    qed
    ultimately show ?thesis using le IH by blast
  next
    case False
    have IH: "bl \<le> l \<and> (\<forall>j. ?good ms j \<longrightarrow> mnt_path_len (ms ! j) \<le> l) \<and> (b = None \<longrightarrow> best = None \<and> (\<forall>j. \<not> ?good ms j))
      \<and> (b = best \<and> l = bl \<or> (\<exists>j. b = Some (i + 1 + j) \<and> ?good ms j \<and> l = mnt_path_len (ms ! j)))"
      using "2.IH"(2) [OF False _ "2.prems"(2) pos] "2.prems"(1) False by auto
    have m0: "best \<noteq> None \<and> l0 \<le> bl" if "?good (m # ms) 0"
    proof -
      have a: "mnt_active m = MNT_STATE_ACTIVE" "mount_match path m" "0 < l0" using that "2.prems"(3) by (auto simp: l0_def)
      have z: "bl \<noteq> 0 \<Longrightarrow> 1 \<le> bl" by (simp add: word_le_nat_alt Suc_le_eq unat_gt_0)
      from a show ?thesis using False "2.prems"(2) z unfolding mount_better_def mount_match_def l0_def
        by (cases best) (auto simp: Let_def not_less split: if_splits)
    qed
    have "mnt_path_len ((m # ms) ! j) \<le> l" if "?good (m # ms) j" for j using that IH m0 by (cases j) (auto simp: l0_def)
    moreover have "\<not> ?good (m # ms) j" if "b = None" for j using that IH m0 by (cases j) auto
    moreover have "b = best \<and> l = bl \<or> (\<exists>j. b = Some (i + j) \<and> ?good (m # ms) j \<and> l = mnt_path_len ((m # ms) ! j))"
    proof (cases "b = best \<and> l = bl")
      case F: False
      then obtain j where "b = Some (i + 1 + j)" "?good ms j" "l = mnt_path_len (ms ! j)" using IH by blast
      then show ?thesis by (intro disjI2 exI [of _ "Suc j"]) simp
    qed simp
    ultimately show ?thesis using IH by blast
  qed
qed

lemma components_below_mount:
  assumes mn: "mount_norm m" and ci: "take (length (mount_names m)) ns = mount_names m" and ns: "\<forall>c\<in>set ns. is_name c"
  shows "components (drop (unat (mnt_path_len m)) (path_of ns)) = drop (length (mount_names m)) ns"
proof (cases "mount_names m = []")
  case True
  then have "unat (mnt_path_len m) = 1" using mn by (auto simp: mount_norm_def path_of_def)
  moreover obtain q where q: "path_of ns = slash # q" by (cases ns) (auto simp: path_of_def)
  moreover have "components q = components (slash # q)" by (simp only: components.simps [of "slash # q"] components.simps [of q]) simp
  ultimately show ?thesis using True components_path_of [OF ns] by simp
next
  case False
  obtain ts where ts: "ns = mount_names m @ ts" using ci by (metis append_take_drop_id)
  then have "path_of ns = render (mount_names m) @ render ts" using False by (simp add: path_of_def)
  moreover have "unat (mnt_path_len m) = length (render (mount_names m))" using mn False by (auto simp: mount_norm_def path_of_def)
  moreover have "components (render ts) = ts" using ns ts by (intro components_render) auto
  ultimately show ?thesis using ts by simp
qed

text \<open>C9: mount resolution. When the active mount points are normalised paths, \<^verbatim>\<open>vfs_mount_find\<close> on a
  normalised path returns an active mount whose names are the longest prefix of the path's names among
  all active mounts, with the remaining names, and takes one reference on its root vnode; it returns nothing
  and changes nothing exactly when no active mount covers the path or the best one has no root yet.\<close>

theorem vfs_mount_find_longest:
  assumes norm: "\<forall>m\<in>set (mounts s). mnt_active m = MNT_STATE_ACTIVE \<longrightarrow> mount_norm m" and ns: "\<forall>c\<in>set ns. is_name c"
  defines "cov \<equiv> \<lambda>j. j < length (mounts s) \<and> mnt_active (mount_of s j) = MNT_STATE_ACTIVE \<and> covers (mount_of s j) ns"
  defines "best \<equiv> \<lambda>i. cov i \<and> (\<forall>j. cov j \<longrightarrow> length (mnt_path (mount_of s j)) \<le> length (mnt_path (mount_of s i)))"
  shows "case vfs_mount_find (path_of ns) s of
      (Some (i, rem), s') \<Rightarrow> best i \<and> components rem = drop (length (mount_names (mount_of s i))) ns
        \<and> (\<exists>r. mnt_root (mount_of s i) = Some r \<and> s' = vfs_vnode_acquire s (Some r))
    | (None, s') \<Rightarrow> s' = s \<and> ((\<forall>j. \<not> cov j) \<or> (\<exists>i. best i \<and> mnt_root (mount_of s i) = None))"
proof -
  obtain b l where bl: "mount_scan (path_of ns) (mounts s) 0 None 0 = (b, l)" by fastforce
  have n: "mount_norm (mount_of s j)" if "j < length (mounts s)" "mnt_active (mount_of s j) = MNT_STATE_ACTIVE" for j
    using norm that by auto
  have pos: "\<forall>m\<in>set (mounts s). mnt_active m = MNT_STATE_ACTIVE \<longrightarrow> 0 < mnt_path_len m"
  proof (intro ballI impI)
    fix m assume "m \<in> set (mounts s)" "mnt_active m = MNT_STATE_ACTIVE"
    then have "mount_norm m" using norm by blast
    then have "0 < unat (mnt_path_len m)" using path_of_pos [of "mount_names m"] by (auto simp: mount_norm_def)
    then show "0 < mnt_path_len m" by (simp add: word_less_nat_alt)
  qed
  have cg: "cov j \<longleftrightarrow> j < length (mounts s) \<and> mnt_active (mount_of s j) = MNT_STATE_ACTIVE \<and> mount_match (path_of ns) (mount_of s j)" for j
    using match_covers [OF n ns, of j] unfolding cov_def by blast
  have S: "(\<forall>j. cov j \<longrightarrow> mnt_path_len (mount_of s j) \<le> l) \<and> (b = None \<longrightarrow> (\<forall>j. \<not> cov j))
      \<and> (b = None \<or> (\<exists>j. b = Some j \<and> cov j \<and> l = mnt_path_len (mount_of s j)))"
    using mount_scan_spec [OF bl _ pos] unfolding cg by auto
  show ?thesis
  proof (cases b)
    case None
    then show ?thesis using S bl by (simp add: vfs_mount_find_def)
  next
    case (Some i)
    then have i: "cov i" "l = mnt_path_len (mount_of s i)" using S by auto
    have len: "length (mnt_path (mount_of s j)) = unat (mnt_path_len (mount_of s j))" if "cov j" for j
      using n [of j] that by (auto simp: cov_def mount_norm_def)
    have best: "best i" unfolding best_def
    proof (intro conjI allI impI i(1))
      fix j assume j: "cov j"
      then have "mnt_path_len (mount_of s j) \<le> mnt_path_len (mount_of s i)" using S i(2) by auto
      then show "length (mnt_path (mount_of s j)) \<le> length (mnt_path (mount_of s i))"
        using len [OF j] len [OF i(1)] by (simp add: word_le_nat_alt)
    qed
    have "components (drop (unat l) (path_of ns)) = drop (length (mount_names (mount_of s i))) ns"
      unfolding i(2) by (rule components_below_mount [OF n _ ns]) (use i(1) in \<open>auto simp: cov_def covers_def\<close>)
    then show ?thesis using bl Some best
      by (cases "mnt_root (mount_of s i)")
        (auto simp: vfs_mount_find_def i(2) components_dropWhile vfs_vnode_acquire_def)
  qed
qed

subsection \<open>The mount table under interleaving\<close>

text \<open>Mounting releases the lock while the driver runs: other calls may come between the two sections of
  \<^verbatim>\<open>vfs_mount\<close>. A driver fills in the root of the entry it is given; vnode operations leave the table
  alone.\<close>

inductive mt_step :: "'a vfs_scheme \<Rightarrow> 'a vfs_scheme \<Rightarrow> bool" where
  mt_begin: "vfs_mount_begin path ops flags s = (r, s') \<Longrightarrow> mt_step s s'"
| mt_driver: "i < length (mounts s) \<Longrightarrow> mnt_active (mount_of s i) = MNT_STATE_MOUNTING \<Longrightarrow>
    mounts s' = mounts (mnt_upd s i (\<lambda>m. m\<lparr>mnt_root := r, mnt_sb_priv := x\<rparr>)) \<Longrightarrow> mount_count s' = mount_count s \<Longrightarrow>
    mt_step s s'"
| mt_end: "i < length (mounts s) \<Longrightarrow> mnt_active (mount_of s i) = MNT_STATE_MOUNTING \<Longrightarrow>
    vfs_mount_end i err s = (rc, s') \<Longrightarrow> mt_step s s'"
| mt_umount: "vfs_umount path s = (rc, s') \<Longrightarrow> mt_step s s'"
| mt_vnode: "mounts s' = mounts s \<Longrightarrow> mount_count s' = mount_count s \<Longrightarrow> mt_step s s'"

definition active_set :: "mount_entry list \<Rightarrow> nat set" where
  "active_set ms = {i. i < length ms \<and> mnt_active (ms ! i) = MNT_STATE_ACTIVE}"

definition mnt_inv :: "'a vfs_scheme \<Rightarrow> bool" where
  "mnt_inv s \<longleftrightarrow> length (mounts s) = VFS_MOUNT_MAX
     \<and> (\<forall>m\<in>set (mounts s). mnt_active m \<noteq> MNT_STATE_FREE \<longrightarrow>
          unat (mnt_path_len m) = length (mnt_path m) \<and> length (mnt_path m) < VFS_PATH_MAX)
     \<and> (\<forall>i < length (mounts s). \<forall>j < length (mounts s). mnt_active (mount_of s i) \<noteq> MNT_STATE_FREE \<longrightarrow>
          mnt_active (mount_of s j) \<noteq> MNT_STATE_FREE \<longrightarrow> mnt_path (mount_of s i) = mnt_path (mount_of s j) \<longrightarrow> i = j)
     \<and> unat (mount_count s) = card (active_set (mounts s))"

lemma nth_upd: "xs[i := x] ! j = (if i = j \<and> j < length xs then x else xs ! j)"
  by (cases "i < length xs") (auto simp: nth_list_update list_update_beyond)

lemma find_index_of_Some: "find_index_of f xs = Some i \<Longrightarrow> i < length xs \<and> f (xs ! i)"
  by (auto simp: find_index_of_def find_Some_iff)

lemma strip_slashes_le: "strip_slashes path n \<le> n"
proof (induction path n rule: strip_slashes.induct)
  case (1 path n)
  then show ?case by (subst strip_slashes.simps) auto
qed

text \<open>Replacing one entry by one that keeps its path, or by one with a fresh path.\<close>

lemma mnt_inv_update:
  assumes inv: "mnt_inv s" and i: "i < length (mounts s)"
    and ms: "mounts s' = (mounts s)[i := m]"
    and m: "mnt_active m \<noteq> MNT_STATE_FREE \<Longrightarrow> unat (mnt_path_len m) = length (mnt_path m) \<and> length (mnt_path m) < VFS_PATH_MAX"
    and fresh: "\<And>j. j < length (mounts s) \<Longrightarrow> j \<noteq> i \<Longrightarrow> mnt_active m \<noteq> MNT_STATE_FREE \<Longrightarrow>
      mnt_active (mount_of s j) \<noteq> MNT_STATE_FREE \<Longrightarrow> mnt_path (mount_of s j) \<noteq> mnt_path m"
    and cnt: "unat (mount_count s') = card (active_set (mounts s'))"
  shows "mnt_inv s'"
proof -
  have l: "length (mounts s') = VFS_MOUNT_MAX" using inv ms by (simp add: mnt_inv_def)
  have "\<forall>m\<in>set (mounts s'). mnt_active m \<noteq> MNT_STATE_FREE \<longrightarrow>
      unat (mnt_path_len m) = length (mnt_path m) \<and> length (mnt_path m) < VFS_PATH_MAX"
    using inv m set_update_subset_insert [of "mounts s" i m] unfolding ms mnt_inv_def by blast
  moreover have "a = b" if a: "a < length (mounts s')" "b < length (mounts s')" "mnt_active (mount_of s' a) \<noteq> MNT_STATE_FREE"
    "mnt_active (mount_of s' b) \<noteq> MNT_STATE_FREE" "mnt_path (mount_of s' a) = mnt_path (mount_of s' b)" for a b
  proof -
    have old: "a = b" if "a \<noteq> i" "b \<noteq> i" using inv that a unfolding mnt_inv_def ms by auto
    show ?thesis using old fresh [of a] fresh [of b] a i unfolding ms by (cases "a = i"; cases "b = i") (auto simp: nth_list_update)
  qed
  ultimately show ?thesis using l cnt unfolding mnt_inv_def by blast
qed

lemma active_update:
  assumes "i < length ms"
  shows "active_set (ms[i := m]) = (if mnt_active m = MNT_STATE_ACTIVE then insert i (active_set ms) else active_set ms - {i})"
  using assms by (auto simp: active_set_def nth_list_update)

lemma active_update_same:
  "mnt_active (ms ! i) \<noteq> MNT_STATE_ACTIVE \<Longrightarrow> mnt_active m \<noteq> MNT_STATE_ACTIVE \<Longrightarrow> active_set (ms[i := m]) = active_set ms"
  unfolding active_set_def by (cases "i < length ms") (auto simp: nth_list_update split: if_splits)

lemma finite_active: "finite (active_set ms)"
  by (rule finite_subset [of _ "{..<length ms}"]) (auto simp: active_set_def)

lemma card_active_le: "card (active_set ms) \<le> length ms"
  using card_mono [of "{..<length ms}" "active_set ms"] by (auto simp: active_set_def)

lemma mnt_invD:
  assumes "mnt_inv s"
  shows "length (mounts s) = VFS_MOUNT_MAX" "unat (mount_count s) = card (active_set (mounts s))"
    "i < length (mounts s) \<Longrightarrow> mnt_active (mount_of s i) \<noteq> MNT_STATE_FREE \<Longrightarrow>
      unat (mnt_path_len (mount_of s i)) = length (mnt_path (mount_of s i)) \<and> length (mnt_path (mount_of s i)) < VFS_PATH_MAX"
    "i < length (mounts s) \<Longrightarrow> j < length (mounts s) \<Longrightarrow> mnt_active (mount_of s i) \<noteq> MNT_STATE_FREE \<Longrightarrow>
      mnt_active (mount_of s j) \<noteq> MNT_STATE_FREE \<Longrightarrow> mnt_path (mount_of s i) = mnt_path (mount_of s j) \<Longrightarrow> i = j"
  using assms unfolding mnt_inv_def by auto

lemma mount_begin_inv:
  assumes inv: "mnt_inv s" and r: "vfs_mount_begin path ops flags s = (r, s')"
  shows "mnt_inv s'"
proof (cases r)
  case (Inl e)
  then have "s' = s" using r unfolding vfs_mount_begin_def by (auto simp: Let_def split: if_splits option.splits)
  then show ?thesis using inv by simp
next
  case (Inr i)
  define plen where "plen = strip_slashes path (length path)"
  let ?m = "(mount_of s i)\<lparr>mnt_path := take plen path, mnt_path_len := of_nat plen, mnt_flags := flags,
    mnt_ops := ops, mnt_root := None, mnt_sb_priv := 0, mnt_active := MNT_STATE_MOUNTING\<rparr>"
  have len: "length path < VFS_PATH_MAX" and i: "find_index_of (\<lambda>m. mnt_active m = MNT_STATE_FREE) (mounts s) = Some i"
    and new: "\<not> list_ex (\<lambda>m. mnt_active m \<noteq> MNT_STATE_FREE \<and> mnt_path_len m = of_nat plen
        \<and> take plen (mnt_path m) = take plen path \<and> length (mnt_path m) = plen) (mounts s)"
    and s': "s' = mnt_upd s i (\<lambda>m. m\<lparr>mnt_path := take plen path, mnt_path_len := of_nat plen, mnt_flags := flags,
      mnt_ops := ops, mnt_root := None, mnt_sb_priv := 0, mnt_active := MNT_STATE_MOUNTING\<rparr>)"
    using r Inr unfolding vfs_mount_begin_def plen_def [symmetric]
    by (auto simp: Let_def plen_def [symmetric] split: if_splits option.splits)
  have pl: "plen \<le> length path" unfolding plen_def by (rule strip_slashes_le)
  then have tp: "length (take plen path) = plen" by simp
  have up: "unat (of_nat plen :: u8) = plen" using pl len by (simp add: unat_of_nat)
  note I = find_index_of_Some [OF i]
  show ?thesis
  proof (rule mnt_inv_update [OF inv conjunct1 [OF I], of s' ?m])
    show "mounts s' = (mounts s)[i := ?m]" by (simp add: s' mnt_upd_def)
    show "unat (mnt_path_len ?m) = length (mnt_path ?m) \<and> length (mnt_path ?m) < VFS_PATH_MAX"
      using up tp pl len by simp
    fix j assume j: "j < length (mounts s)" "mnt_active (mount_of s j) \<noteq> MNT_STATE_FREE"
    show "mnt_path (mount_of s j) \<noteq> mnt_path ?m"
    proof
      assume e: "mnt_path (mount_of s j) = mnt_path ?m"
      then have tk: "take plen (mnt_path (mount_of s j)) = take plen path" by simp
      have "length (mnt_path (mount_of s j)) = plen" using e tp by simp
      moreover have "mnt_path_len (mount_of s j) = of_nat plen"
        using mnt_invD(3) [OF inv j] calculation up by (simp add: word_unat_eq_iff)
      ultimately show False
        using new nth_mem [OF j(1)] j(2) tk unfolding list_ex_iff by blast
    qed
  next
    have "active_set (mounts s') = active_set (mounts s)"
      using I unfolding s' mnt_upd_def by (simp add: active_update_same)
    then show "unat (mount_count s') = card (active_set (mounts s'))" using mnt_invD(2) [OF inv] by (simp add: s' mnt_upd_def)
  qed
qed

lemma mount_end_inv:
  assumes inv: "mnt_inv s" and i: "i < length (mounts s)" "mnt_active (mount_of s i) = MNT_STATE_MOUNTING"
    and r: "vfs_mount_end i err s = (rc, s')"
  shows "mnt_inv s'"
proof -
  define st where "st = (if err \<noteq> 0 then MNT_STATE_FREE else MNT_STATE_ACTIVE)"
  let ?m = "(mount_of s i)\<lparr>mnt_active := st\<rparr>"
  have ms: "mounts s' = (mounts s)[i := ?m]" using r by (auto simp: vfs_mount_end_def mnt_upd_def st_def split: if_splits)
  have ni: "i \<notin> active_set (mounts s)" using i by (simp add: active_set_def)
  show ?thesis
  proof (rule mnt_inv_update [OF inv i(1) ms])
    show "unat (mnt_path_len ?m) = length (mnt_path ?m) \<and> length (mnt_path ?m) < VFS_PATH_MAX"
      using mnt_invD(3) [OF inv i(1)] i(2) by simp
    fix j assume "j < length (mounts s)" "j \<noteq> i" "mnt_active (mount_of s j) \<noteq> MNT_STATE_FREE"
    then show "mnt_path (mount_of s j) \<noteq> mnt_path ?m" using mnt_invD(4) [OF inv _ i(1), of j] i(2) by auto
  next
    show "unat (mount_count s') = card (active_set (mounts s'))"
    proof (cases "err = 0")
      case True
      have "unat (mount_count s + 1) = unat (mount_count s) + 1"
        using mnt_invD(1,2) [OF inv] card_active_le [of "mounts s"] by (simp add: unat_word_ariths)
      then show ?thesis using True r ni mnt_invD(2) [OF inv] finite_active [of "mounts s"] i(1)
        by (auto simp: vfs_mount_end_def mnt_upd_def active_update)
    next
      case False
      then show ?thesis using r ni mnt_invD(2) [OF inv] i(1) by (auto simp: vfs_mount_end_def mnt_upd_def active_update)
    qed
  qed
qed

text \<open>What a successful unmount did.\<close>

lemma umount_ok:
  assumes r: "vfs_umount (Some path) s = (0, s')"
  obtains i where "i < length (mounts s)" "mnt_active (mount_of s i) = MNT_STATE_ACTIVE" "mnt_path (mount_of s i) = path"
    "path \<noteq> [slash]" "mounts s' = (mounts s)[i := (mount_of s i)\<lparr>mnt_root := None, mnt_active := MNT_STATE_FREE\<rparr>]"
    "mount_count s' = mount_count s - 1"
    "vnodes s' = vnodes (vfs_vnode_release s (mnt_root (mount_of s i)))"
    "\<And>v. v < length (vnodes s) \<Longrightarrow> 0 < vn_refcnt (vnode_of s v) \<Longrightarrow> vn_mount (vnode_of s v) = Some i \<Longrightarrow>
       mnt_root (mount_of s i) = Some v \<and> vn_refcnt (vnode_of s v) = 1"
proof -
  have rel: "mounts (vfs_vnode_release s q) = mounts s" "mount_count (vfs_vnode_release s q) = mount_count s" for q
    by (auto simp: vfs_vnode_release_def vn_upd_def Let_def split: option.splits)
  obtain i where f: "find_index_of (\<lambda>m. mnt_active m = MNT_STATE_ACTIVE \<and> mnt_path m = path) (mounts s) = Some i"
    and ns: "path \<noteq> [slash]"
    using r by (auto simp: vfs_umount_def split: if_splits option.splits)
  let ?root = "mnt_root (mount_of s i)"
  have b: "\<not> (case ?root of None \<Rightarrow> False | Some r \<Rightarrow> 1 < vn_refcnt (vnode_of s r))"
    "\<not> list_ex (\<lambda>v. 0 < vn_refcnt (vnode_of s v) \<and> vn_mount (vnode_of s v) = Some i \<and> Some v \<noteq> ?root) [0..<length (vnodes s)]"
    and s': "s' = (let s = vfs_vnode_release s ?root; s = mnt_upd s i (\<lambda>m. m\<lparr>mnt_root := None, mnt_active := MNT_STATE_FREE\<rparr>)
        in s\<lparr>mount_count := mount_count s - 1\<rparr>)"
    using r f ns unfolding vfs_umount_def by (auto simp: Let_def split: if_splits option.splits)
  show thesis
  proof (rule that)
    show "i < length (mounts s)" "mnt_active (mount_of s i) = MNT_STATE_ACTIVE" "mnt_path (mount_of s i) = path"
      using find_index_of_Some [OF f] by auto
    show "mounts s' = (mounts s)[i := (mount_of s i)\<lparr>mnt_root := None, mnt_active := MNT_STATE_FREE\<rparr>]"
      "mount_count s' = mount_count s - 1" "vnodes s' = vnodes (vfs_vnode_release s (mnt_root (mount_of s i)))"
      by (simp_all add: s' Let_def mnt_upd_def rel)
    fix v assume v: "v < length (vnodes s)" "0 < vn_refcnt (vnode_of s v)" "vn_mount (vnode_of s v) = Some i"
    then have rv: "?root = Some v" using b(2) by (auto simp: list_ex_iff)
    moreover have "\<not> 1 < vn_refcnt (vnode_of s v)" using b(1) rv by simp
    then have "vn_refcnt (vnode_of s v) = 1" using v(2) by (simp add: word_less_nat_alt word_unat_eq_iff)
    ultimately show "?root = Some v \<and> vn_refcnt (vnode_of s v) = 1" by simp
  qed (rule ns)
qed

lemma umount_inv:
  assumes inv: "mnt_inv s" and r: "vfs_umount path s = (rc, s')"
  shows "mnt_inv s'"
proof (cases "rc = 0")
  case False
  then have "s' = s" using r by (auto simp: vfs_umount_def Let_def split: if_splits option.splits)
  then show ?thesis using inv by simp
next
  case True
  then obtain q where q: "path = Some q" using r by (auto simp: vfs_umount_def split: option.splits)
  obtain i where i: "i < length (mounts s)" "mnt_active (mount_of s i) = MNT_STATE_ACTIVE"
    and ms: "mounts s' = (mounts s)[i := (mount_of s i)\<lparr>mnt_root := None, mnt_active := MNT_STATE_FREE\<rparr>]"
    and c: "mount_count s' = mount_count s - 1"
    using umount_ok [OF r [unfolded q True]] by metis
  have ia: "i \<in> active_set (mounts s)" using i by (simp add: active_set_def)
  then have "0 < card (active_set (mounts s))" using finite_active [of "mounts s"] by (auto simp: card_gt_0_iff)
  then have "mount_count s \<noteq> 0" using mnt_invD(2) [OF inv] by auto
  then have "unat (mount_count s') = card (active_set (mounts s)) - 1"
    using mnt_invD(2) [OF inv] by (simp add: c unat_minus_one)
  then have "unat (mount_count s') = card (active_set (mounts s'))"
    using ia finite_active [of "mounts s"] i(1) by (simp add: ms active_update)
  then show ?thesis by (intro mnt_inv_update [OF inv i(1) ms]) simp_all
qed

lemma mt_step_inv:
  assumes "mnt_inv s" "mt_step s s'"
  shows "mnt_inv s'"
  using assms(2,1)
proof cases
  case (mt_driver i x r)
  have e: "mounts s' = (mounts s)[i := (mount_of s i)\<lparr>mnt_root := r, mnt_sb_priv := x\<rparr>]" using mt_driver by (simp add: mnt_upd_def)
  have a: "active_set (mounts s') = active_set (mounts s)" unfolding e by (rule active_update_same) (simp_all add: mt_driver(2))
  show ?thesis
  proof (rule mnt_inv_update [OF assms(1) mt_driver(1) e])
    show "unat (mount_count s') = card (active_set (mounts s'))" using mnt_invD(2) [OF assms(1)] mt_driver a by simp
  qed (use mnt_invD(3,4) [OF assms(1)] mt_driver in auto)
next
  case mt_vnode
  then show ?thesis using assms(1) by (simp add: mnt_inv_def)
qed (use assms(1) mount_begin_inv mount_end_inv umount_inv in blast)+

interpretation mt_run: step_system mt_step mnt_inv
  by unfold_locales (rule mt_step_inv)

text \<open>C11: the mount table. From \<^verbatim>\<open>vfs_init\<close>, under every interleaving of the two halves of mounts, of
  drivers, unmounts and vnode operations, no two used entries have the same path, cached path lengths are
  right, and the number of active mounts is counted. A successful unmount frees an active entry with that path
  that is not the root, and no vnode of it is in use afterwards.\<close>

theorem mount_table_consistent:
  assumes "length (mounts s0) = VFS_MOUNT_MAX" and "mt_step\<^sup>*\<^sup>* (vfs_init s0) s"
  shows "mnt_inv s \<and> (vfs_umount (Some path) s = (0, s') \<longrightarrow>
    (\<exists>i. mnt_active (mount_of s i) = MNT_STATE_ACTIVE \<and> mnt_path (mount_of s i) = path \<and> path \<noteq> [slash]
      \<and> mnt_active (mount_of s' i) = MNT_STATE_FREE
      \<and> (\<forall>v < length (vnodes s'). 0 < vn_refcnt (vnode_of s' v) \<longrightarrow> vn_mount (vnode_of s' v) \<noteq> Some i)))"
proof -
  have "length (mounts (vfs_init s0)) = VFS_MOUNT_MAX" "unat (mount_count (vfs_init s0)) = 0" using assms(1) by (simp_all add: vfs_init_def)
  moreover have "mnt_active m = MNT_STATE_FREE" if "m \<in> set (mounts (vfs_init s0))" for m using that by (auto simp: vfs_init_def)
  moreover from this have "active_set (mounts (vfs_init s0)) = {}" unfolding active_set_def by (auto dest!: nth_mem)
  ultimately have "mnt_inv (vfs_init s0)" unfolding mnt_inv_def by (metis card.empty nth_mem)
  then have inv: "mnt_inv s" using mt_run.reach_inv assms(2) by blast
  moreover have "\<exists>i. mnt_active (mount_of s i) = MNT_STATE_ACTIVE \<and> mnt_path (mount_of s i) = path \<and> path \<noteq> [slash]
      \<and> mnt_active (mount_of s' i) = MNT_STATE_FREE
      \<and> (\<forall>v < length (vnodes s'). 0 < vn_refcnt (vnode_of s' v) \<longrightarrow> vn_mount (vnode_of s' v) \<noteq> Some i)"
    if r: "vfs_umount (Some path) s = (0, s')"
  proof -
    obtain i where i: "i < length (mounts s)" "mnt_active (mount_of s i) = MNT_STATE_ACTIVE" "mnt_path (mount_of s i) = path" "path \<noteq> [slash]"
      and ms: "mounts s' = (mounts s)[i := (mount_of s i)\<lparr>mnt_root := None, mnt_active := MNT_STATE_FREE\<rparr>]"
      and vs: "vnodes s' = vnodes (vfs_vnode_release s (mnt_root (mount_of s i)))"
      and live: "\<And>v. v < length (vnodes s) \<Longrightarrow> 0 < vn_refcnt (vnode_of s v) \<Longrightarrow> vn_mount (vnode_of s v) = Some i \<Longrightarrow>
       mnt_root (mount_of s i) = Some v \<and> vn_refcnt (vnode_of s v) = 1"
      using umount_ok [OF r] by metis
    have "vn_mount (vnode_of s' v) \<noteq> Some i" if v: "v < length (vnodes s')" "0 < vn_refcnt (vnode_of s' v)" for v
    proof
      assume m: "vn_mount (vnode_of s' v) = Some i"
      have rel: "length (vnodes s') = length (vnodes s)" "vn_mount (vnode_of s' v) = vn_mount (vnode_of s v)"
        "vn_refcnt (vnode_of s' v) = (if mnt_root (mount_of s i) = Some v then vn_refcnt (vnode_of s v) - (if 0 < vn_refcnt (vnode_of s v) then 1 else 0) else vn_refcnt (vnode_of s v))"
        using v(1) by (auto simp: vs vfs_vnode_release_def vn_upd_def Let_def nth_upd split: option.splits if_splits)
      show False using live [of v] v m rel by (auto split: if_splits)
    qed
    then show ?thesis using i ms by auto
  qed
  ultimately show ?thesis by blast
qed

subsection \<open>An example table\<close>

text \<open>The root and \<^verbatim>\<open>/dev\<close> are mounted, with vnodes 0 and 1 as their roots.\<close>

definition demo_vnode :: "nat \<Rightarrow> vnode" where
  "demo_vnode v = \<lparr>vn_type = VNODE_DIR, vn_size = 0, vn_mode = 0, vn_ino = 0, vn_refcnt = (if v < 2 then 1 else 0),
     vn_fs_priv = 0, vn_mount = (if v < 2 then Some v else None), vn_xip_addr = 0\<rparr>"

definition demo_mount :: "string \<Rightarrow> nat \<Rightarrow> mount_entry" where
  "demo_mount path i = \<lparr>mnt_path = path, mnt_path_len = of_nat (length path), mnt_flags = 0,
     mnt_active = (if path = [] then MNT_STATE_FREE else MNT_STATE_ACTIVE), mnt_ops = 0, mnt_root = Some i, mnt_sb_priv = 0\<rparr>"

definition demo_vfs :: vfs where
  "demo_vfs = \<lparr>vnodes = map demo_vnode [0..<64], vn_free = [2..<64],
     mounts = [demo_mount ''/'' 0, demo_mount ''/dev'' 1] @ replicate 6 (demo_mount [] 0), mount_count = 2, scratch_free = 8\<rparr>"

lemma demo_mount_names: "mount_names (demo_mount ''/'' 0) = []" "mount_names (demo_mount ''/dev'' 1) = [''dev'']"
  unfolding mount_names_def demo_mount_def by code_simp+

lemma demo_norm: "\<forall>m\<in>set (mounts demo_vfs). mnt_active m = MNT_STATE_ACTIVE \<longrightarrow> mount_norm m"
proof -
  have "mount_norm (demo_mount ''/'' 0)" "mount_norm (demo_mount ''/dev'' 1)"
    unfolding mount_norm_def demo_mount_names by (simp_all add: demo_mount_def path_of_def is_name_def)
  then show ?thesis by (auto simp: demo_vfs_def demo_mount_def)
qed

theorem vfs_mount_find_longest_witness:
  "case vfs_mount_find ''/dev/tty'' demo_vfs of (Some (i, rem), s') \<Rightarrow> i = 1 \<and> components rem = [''tty''] \<and> vn_refcnt (vnode_of s' 1) = 2
    | _ \<Rightarrow> False"
proof -
  have ns: "\<forall>c\<in>set [''dev'', ''tty'']. is_name c" by (simp add: is_name_def)
  have p: "path_of [''dev'', ''tty''] = ''/dev/tty''" by (simp add: path_of_def)
  have e: "vfs_mount_find ''/dev/tty'' demo_vfs = (Some (1, ''tty''), vfs_vnode_acquire demo_vfs (Some 1))" by code_simp
  have m: "mount_names (mount_of demo_vfs 1) = [''dev'']" using demo_mount_names(2) by (simp add: demo_vfs_def)
  have "components ''tty'' = [''tty'']"
    using vfs_mount_find_longest [OF demo_norm ns] unfolding p e prod.case option.case m by simp
  moreover have "vn_refcnt (vnode_of (vfs_vnode_acquire demo_vfs (Some 1)) 1) = 2"
    by (simp add: vfs_vnode_acquire_def vn_upd_def demo_vfs_def demo_vnode_def)
  ultimately show ?thesis unfolding e by simp
qed

theorem mount_table_consistent_witness:
  "mnt_inv (snd (vfs_mount_begin ''/tmp/'' 3 0 (vfs_init demo_vfs)))
    \<and> mnt_path (mount_of (snd (vfs_mount_begin ''/tmp/'' 3 0 (vfs_init demo_vfs))) 0) = ''/tmp''"
proof -
  have "length (mounts demo_vfs) = VFS_MOUNT_MAX" by (simp add: demo_vfs_def)
  moreover obtain r s' where r: "vfs_mount_begin ''/tmp/'' 3 0 (vfs_init demo_vfs) = (r, s')" by fastforce
  moreover have "mt_step (vfs_init demo_vfs) s'" by (rule mt_begin [OF r])
  ultimately have "mnt_inv s'" using mount_table_consistent [of demo_vfs s'] by blast
  moreover have "mnt_path (mount_of (snd (vfs_mount_begin ''/tmp/'' 3 0 (vfs_init demo_vfs))) 0) = ''/tmp''" by code_simp
  ultimately show ?thesis using r by simp
qed

end
