(* ===== verification/Namei.thy ===== *)
theory Namei
  imports Vfs
begin

text \<open>
  Path resolution of \<^verbatim>\<open>src/kernel/vfs/namei.c\<close> and the path calls of \<^verbatim>\<open>src/kernel/vfs/vfs.c\<close>. The
  functions of a file system driver are a record, a missing one is None; \<open>drv\<close> gives the record for the
  \<^verbatim>\<open>ops\<close> of a mount. A driver function takes vnode numbers and the state of the file layer, of which it
  may extend the record. The working directory of the current process is an argument.
\<close>

subsection \<open>Driver functions\<close>

record 's fs_ops =
  op_lookup :: "(nat \<Rightarrow> string \<Rightarrow> 's \<Rightarrow> int \<times> nat option \<times> 's) option"
  op_readlink :: "(nat \<Rightarrow> nat \<Rightarrow> 's \<Rightarrow> int + string) option"
  op_mkdir :: "(nat \<Rightarrow> string \<Rightarrow> u32 \<Rightarrow> 's \<Rightarrow> int \<times> 's) option"
  op_unlink :: "(nat \<Rightarrow> string \<Rightarrow> 's \<Rightarrow> int \<times> 's) option"
  op_rename :: "(nat \<Rightarrow> string \<Rightarrow> nat \<Rightarrow> string \<Rightarrow> 's \<Rightarrow> int \<times> 's) option"
  op_utimes :: "(nat \<Rightarrow> u32 \<Rightarrow> u32 \<Rightarrow> 's \<Rightarrow> int \<times> 's) option"
  op_chmod :: "(nat \<Rightarrow> u32 \<Rightarrow> 's \<Rightarrow> int \<times> 's) option"
  op_link :: "(nat \<Rightarrow> string \<Rightarrow> nat \<Rightarrow> 's \<Rightarrow> int \<times> 's) option"

abbreviation VFS_SYMLOOP_MAX :: nat where "VFS_SYMLOOP_MAX \<equiv> 4"

text \<open>The driver of a vnode: None when the vnode has no mount.\<close>

definition ops_of :: "(nat \<Rightarrow> 'a vfs_scheme fs_ops) \<Rightarrow> 'a vfs_scheme \<Rightarrow> nat \<Rightarrow> 'a vfs_scheme fs_ops option" where
  "ops_of drv s v = map_option (\<lambda>i. drv (mnt_ops (mount_of s i))) (vn_mount (vnode_of s v))"

subsection \<open>The walk\<close>

definition mount_at_acquire :: "string \<Rightarrow> 'a vfs_scheme \<Rightarrow> nat option \<times> 'a vfs_scheme" where
  "mount_at_acquire resolved s =
     (case vfs_mount_find resolved s of
        (Some (i, rem), s) \<Rightarrow> if rem = [] then (Some i, s) else (None, vfs_vnode_release s (mnt_root (mount_of s i)))
      | (None, s) \<Rightarrow> (None, s))"

text \<open>A walk ends with a return code and a vnode, or restarts on another path after a symbolic link.\<close>

datatype walk = Return int "nat option" | Restart string

text \<open>The path to continue with after reading a link: \<open>target\<close> in the directory of \<open>resolved\<close>, then
  the rest \<open>p\<close> of the path. The lengths are those of the bytes read, but the string ends at the first NUL byte.\<close>

definition link_path :: "string \<Rightarrow> string \<Rightarrow> string \<Rightarrow> int + string" where
  "link_path target resolved p =
     (let absolute = (target \<noteq> [] \<and> hd target = slash);
          parent = rev (dropWhile (\<lambda>c. c \<noteq> slash) (rev resolved));
          parent = (if parent = [] then [slash] else parent)
      in if \<not> absolute \<and> VFS_PATH_MAX \<le> length parent + length target then Inl (- ENAMETOOLONG)
         else
           let t = (if absolute then target else parent @ target) in
           if p \<noteq> [] \<and> VFS_PATH_MAX \<le> length t + 1 + length p then Inl (- ENAMETOOLONG)
           else path_normalize (takeWhile (\<lambda>c. c \<noteq> CHR 0x00) (if p \<noteq> [] then t @ slash # p else t)) (int VFS_PATH_MAX))"

text \<open>What happens when a component is a symbolic link, \<open>child\<close>, with its two scratch buffers.\<close>

definition follow_link ::
  "(nat \<Rightarrow> 'a vfs_scheme fs_ops) \<Rightarrow> nat \<Rightarrow> string \<Rightarrow> string \<Rightarrow> 'a vfs_scheme \<Rightarrow> walk \<times> 'a vfs_scheme" where
  "follow_link drv child resolved p s =
     (let (target_buf, s) = vfs_scratch_alloc s; (norm_buf, s) = vfs_scratch_alloc s;
          free2 = (\<lambda>s. vfs_scratch_free (vfs_scratch_free s norm_buf) target_buf)
      in if \<not> target_buf \<or> \<not> norm_buf then (Return (- ENOMEM) None, vfs_vnode_release (free2 s) (Some child))
         else
           (case ops_of drv s child of
              None \<Rightarrow> (Return (- EINVAL) None, free2 (vfs_vnode_release s (Some child)))
            | Some ops \<Rightarrow>
                (case op_readlink ops of
                   None \<Rightarrow> (Return (- EINVAL) None, free2 (vfs_vnode_release s (Some child)))
                 | Some readlink \<Rightarrow>
                     let r = readlink child (VFS_PATH_MAX - 1) s; s = free2 (vfs_vnode_release s (Some child)) in
                     (case r of
                        Inl e \<Rightarrow> (Return e None, s)
                      | Inr target \<Rightarrow>
                          (case link_path target resolved p of
                             Inl e \<Rightarrow> (Return e None, s)
                           | Inr norm \<Rightarrow> (Restart norm, s))))))"

function walk_loop ::
  "(nat \<Rightarrow> 'a vfs_scheme fs_ops) \<Rightarrow> bool \<Rightarrow> nat \<Rightarrow> string \<Rightarrow> string \<Rightarrow> 'a vfs_scheme \<Rightarrow> walk \<times> 'a vfs_scheme" where
  "walk_loop drv nofollow cur path resolved s =
     (let p = dropWhile (\<lambda>c. c = slash) path in
      if p = [] then (Return 0 (Some cur), s)
      else if vn_type (vnode_of s cur) \<noteq> VNODE_DIR then (Return (- ENOTDIR) None, vfs_vnode_release s (Some cur))
      else
        let name = takeWhile (\<lambda>c. c \<noteq> slash) p; rest = dropWhile (\<lambda>c. c \<noteq> slash) p in
        if VFS_NAME_MAX < length name then (Return (- ENAMETOOLONG) None, vfs_vnode_release s (Some cur))
        else if VFS_PATH_MAX \<le> length resolved + 1 + length name
        then (Return (- ENAMETOOLONG) None, vfs_vnode_release s (Some cur))
        else
          let resolved = resolved @ slash # name; (child_mnt, s) = mount_at_acquire resolved s in
          if child_mnt \<noteq> None \<and> child_mnt \<noteq> vn_mount (vnode_of s cur) then
            let s = vfs_vnode_release s (Some cur)
            in (case mnt_root (mount_of s (the child_mnt)) of
                  Some root \<Rightarrow> walk_loop drv nofollow root rest resolved s
                | None \<Rightarrow> (Return (- ENOENT) None, s))
          else
            let s = (case child_mnt of None \<Rightarrow> s | Some i \<Rightarrow> vfs_vnode_release s (mnt_root (mount_of s i))) in
            (case (case ops_of drv s cur of None \<Rightarrow> None | Some ops \<Rightarrow> op_lookup ops) of
               None \<Rightarrow> (Return (- ENOENT) None, vfs_vnode_release s (Some cur))
             | Some lookup \<Rightarrow>
                 let (err, child, s) = lookup cur name s; s = vfs_vnode_release s (Some cur) in
                 if err \<noteq> 0 then (Return err None, s)
                 else
                   (case child of
                      None \<Rightarrow> (Return 0 None, s)
                    | Some child \<Rightarrow>
                        if vn_type (vnode_of s child) = VNODE_SYMLINK then
                          if nofollow \<and> dropWhile (\<lambda>c. c = slash) rest = [] then (Return 0 (Some child), s)
                          else follow_link drv child resolved rest s
                        else walk_loop drv nofollow child rest resolved s)))"
  by auto
termination
  by (relation "measure (\<lambda>(drv, nf, cur, path, resolved, s). length path)") (auto intro!: component_shorter)

declare walk_loop.simps [simp del]

function walk_from ::
  "(nat \<Rightarrow> 'a vfs_scheme fs_ops) \<Rightarrow> bool \<Rightarrow> string \<Rightarrow> nat \<Rightarrow> 'a vfs_scheme \<Rightarrow> int \<times> nat option \<times> 'a vfs_scheme" where
  "walk_from drv nofollow normalized symloop s =
     (if VFS_SYMLOOP_MAX \<le> symloop then (- ELOOP, None, s)
      else
        let (root_mnt, s) = mount_at_acquire [slash] s in
        (case root_mnt of None \<Rightarrow> (- ENOENT, None, s)
         | Some i \<Rightarrow>
             (case mnt_root (mount_of s i) of
                None \<Rightarrow> (- ENOENT, None, s)
              | Some root \<Rightarrow>
                  if normalized = [slash] then (0, Some root, s)
                  else
                    (case walk_loop drv nofollow root (tl normalized) [] s of
                       (Return rc v, s) \<Rightarrow> (rc, v, s)
                     | (Restart norm, s) \<Rightarrow> walk_from drv nofollow norm (symloop + 1) s))))"
  by pat_completeness auto
termination
  by (relation "measure (\<lambda>(drv, nf, n, symloop, s). VFS_SYMLOOP_MAX - symloop)") auto

declare walk_from.simps [simp del]

definition lookup_walk_flags ::
  "(nat \<Rightarrow> 'a vfs_scheme fs_ops) \<Rightarrow> bool \<Rightarrow> string \<Rightarrow> 'a vfs_scheme \<Rightarrow> int \<times> nat option \<times> 'a vfs_scheme" where
  "lookup_walk_flags drv nofollow normalized s =
     (let (resolved, s) = vfs_scratch_alloc s; (restart_path, s) = vfs_scratch_alloc s; (name, s) = vfs_scratch_alloc s;
          free3 = (\<lambda>s. vfs_scratch_free (vfs_scratch_free (vfs_scratch_free s name) restart_path) resolved)
      in if \<not> resolved \<or> \<not> restart_path \<or> \<not> name then (- ENOMEM, None, free3 s)
         else
           let (rc, v, s) = walk_from drv nofollow normalized 0 s in (rc, v, free3 s))"

subsection \<open>Entry points\<close>

definition vfs_lookup_flags ::
  "(nat \<Rightarrow> 'a vfs_scheme fs_ops) \<Rightarrow> string \<Rightarrow> string \<Rightarrow> string option \<Rightarrow> bool \<Rightarrow> 'a vfs_scheme \<Rightarrow> int \<times> nat option \<times> 'a vfs_scheme" where
  "vfs_lookup_flags drv cwd junk path nofollow s =
     (case path of None \<Rightarrow> (- EINVAL, None, s)
      | Some path \<Rightarrow>
          let (normalized, s) = vfs_scratch_alloc s in
          if \<not> normalized then (- ENOMEM, None, s)
          else
            (case absolutize cwd path junk VFS_PATH_MAX of
               Inl e \<Rightarrow> (e, None, vfs_scratch_free s True)
             | Inr norm \<Rightarrow>
                 let (rc, v, s) = lookup_walk_flags drv nofollow norm s in (rc, v, vfs_scratch_free s True)))"

definition vfs_lookup ::
  "(nat \<Rightarrow> 'a vfs_scheme fs_ops) \<Rightarrow> string \<Rightarrow> string \<Rightarrow> string option \<Rightarrow> 'a vfs_scheme \<Rightarrow> int \<times> nat option \<times> 'a vfs_scheme" where
  "vfs_lookup drv cwd junk path s = vfs_lookup_flags drv cwd junk path False s"

text \<open>The last component and the path in front of it.\<close>

definition split_last :: "string \<Rightarrow> string \<times> string" where
  "split_last path =
     (let dir = rev (dropWhile (\<lambda>c. c \<noteq> slash) (rev path)); name = rev (takeWhile (\<lambda>c. c \<noteq> slash) (rev path))
      in (if length dir \<le> 1 then [slash] else butlast dir, name))"

definition vfs_lookup_parent ::
  "(nat \<Rightarrow> 'a vfs_scheme fs_ops) \<Rightarrow> string \<Rightarrow> string \<Rightarrow> string option \<Rightarrow> nat \<Rightarrow> 'a vfs_scheme
    \<Rightarrow> (int \<times> nat option \<times> string) \<times> 'a vfs_scheme" where
  "vfs_lookup_parent drv cwd junk path namebuf_size s =
     (case path of None \<Rightarrow> ((- EINVAL, None, []), s)
      | Some path \<Rightarrow>
          if namebuf_size < 2 then ((- EINVAL, None, []), s)
          else
            let (normalized, s) = vfs_scratch_alloc s in
            if \<not> normalized then ((- ENOMEM, None, []), s)
            else
              (case absolutize cwd path junk VFS_PATH_MAX of
                 Inl e \<Rightarrow> ((e, None, []), vfs_scratch_free s True)
               | Inr norm \<Rightarrow>
                   if norm = [slash] then ((- EINVAL, None, []), vfs_scratch_free s True)
                   else
                     let (dir, name) = split_last norm in
                     if name = [] \<or> namebuf_size \<le> length name then ((- ENAMETOOLONG, None, []), vfs_scratch_free s True)
                     else let (rc, v, s) = lookup_walk_flags drv False dir s in ((rc, v, name), vfs_scratch_free s True)))"

subsection \<open>Path calls\<close>

text \<open>A call on the parent directory of a path: \<^verbatim>\<open>vfs_path_mkdir\<close> and \<^verbatim>\<open>vfs_path_unlink\<close> differ only in the
  driver function they select.\<close>

definition path_dir_call ::
  "('a vfs_scheme fs_ops \<Rightarrow> (nat \<Rightarrow> string \<Rightarrow> 'a vfs_scheme \<Rightarrow> int \<times> 'a vfs_scheme) option)
    \<Rightarrow> (nat \<Rightarrow> 'a vfs_scheme fs_ops) \<Rightarrow> string \<Rightarrow> string \<Rightarrow> string option \<Rightarrow> 'a vfs_scheme \<Rightarrow> int \<times> 'a vfs_scheme" where
  "path_dir_call pick drv cwd junk path s =
     (let (namebuf, s) = vfs_scratch_alloc s in
      if \<not> namebuf then (- ENOMEM, s)
      else
        let ((err, parent, name), s) = vfs_lookup_parent drv cwd junk path (VFS_NAME_MAX + 1) s in
        if err \<noteq> 0 then (err, vfs_scratch_free s True)
        else
          (case parent of None \<Rightarrow> (- ENOSYS, vfs_scratch_free s True)
           | Some par \<Rightarrow>
               let done = (\<lambda>s. vfs_scratch_free (vfs_vnode_release s (Some par)) True) in
               if vn_type (vnode_of s par) \<noteq> VNODE_DIR then (- ENOTDIR, done s)
               else
                 (case (case ops_of drv s par of None \<Rightarrow> None | Some ops \<Rightarrow> pick ops) of
                    None \<Rightarrow> (- ENOSYS, done s)
                  | Some f \<Rightarrow>
                      if nz (mnt_flags (mount_of s (the (vn_mount (vnode_of s par)))) AND MNT_RDONLY) then (- EROFS, done s)
                      else let (err, s) = f par name s in (err, done s))))"

definition vfs_path_mkdir ::
  "(nat \<Rightarrow> 'a vfs_scheme fs_ops) \<Rightarrow> string \<Rightarrow> string \<Rightarrow> string option \<Rightarrow> u32 \<Rightarrow> 'a vfs_scheme \<Rightarrow> int \<times> 'a vfs_scheme" where
  "vfs_path_mkdir drv cwd junk path mode s =
     path_dir_call (\<lambda>ops. map_option (\<lambda>f par name. f par name mode) (op_mkdir ops)) drv cwd junk path s"

definition vfs_path_unlink ::
  "(nat \<Rightarrow> 'a vfs_scheme fs_ops) \<Rightarrow> string \<Rightarrow> string \<Rightarrow> string option \<Rightarrow> 'a vfs_scheme \<Rightarrow> int \<times> 'a vfs_scheme" where
  "vfs_path_unlink drv cwd junk path s = path_dir_call op_unlink drv cwd junk path s"

definition vfs_path_rename ::
  "(nat \<Rightarrow> 'a vfs_scheme fs_ops) \<Rightarrow> string \<Rightarrow> string \<Rightarrow> string option \<Rightarrow> string option \<Rightarrow> 'a vfs_scheme \<Rightarrow> int \<times> 'a vfs_scheme" where
  "vfs_path_rename drv cwd junk oldpath newpath s =
     (let (b1, s) = vfs_scratch_alloc s; (b2, s) = vfs_scratch_alloc s;
          free2 = (\<lambda>s. vfs_scratch_free (vfs_scratch_free s b2) b1)
      in if \<not> b1 \<or> \<not> b2 then (- ENOMEM, free2 s)
         else
           let ((err, old_parent, old_name), s) = vfs_lookup_parent drv cwd junk oldpath (VFS_NAME_MAX + 1) s in
           if err \<noteq> 0 then (err, free2 (vfs_vnode_release s old_parent))
           else
             let ((err, new_parent, new_name), s) = vfs_lookup_parent drv cwd junk newpath (VFS_NAME_MAX + 1) s;
                 out = (\<lambda>s. free2 (vfs_vnode_release (vfs_vnode_release s old_parent) new_parent))
             in if err \<noteq> 0 then (err, out s)
                else
                  (case (old_parent, new_parent) of
                     (Some op, Some np) \<Rightarrow>
                       if vn_type (vnode_of s op) \<noteq> VNODE_DIR \<or> vn_type (vnode_of s np) \<noteq> VNODE_DIR then (- ENOTDIR, out s)
                       else if vn_mount (vnode_of s op) = None \<or> vn_mount (vnode_of s op) \<noteq> vn_mount (vnode_of s np) then (- ENOSYS, out s)
                       else
                         (case (case ops_of drv s op of None \<Rightarrow> None | Some ops \<Rightarrow> op_rename ops) of
                            None \<Rightarrow> (- ENOSYS, out s)
                          | Some f \<Rightarrow>
                              if nz (mnt_flags (mount_of s (the (vn_mount (vnode_of s op)))) AND MNT_RDONLY) then (- EROFS, out s)
                              else let (err, s) = f op old_name np new_name s in (err, out s))
                   | _ \<Rightarrow> (- ENOSYS, out s)))"

text \<open>A call on the vnode of a path: \<^verbatim>\<open>vfs_path_utimes\<close> and \<^verbatim>\<open>vfs_path_chmod\<close>.\<close>

definition path_vnode_call ::
  "('a vfs_scheme fs_ops \<Rightarrow> (nat \<Rightarrow> 'a vfs_scheme \<Rightarrow> int \<times> 'a vfs_scheme) option)
    \<Rightarrow> (nat \<Rightarrow> 'a vfs_scheme fs_ops) \<Rightarrow> string \<Rightarrow> string \<Rightarrow> string option \<Rightarrow> 'a vfs_scheme \<Rightarrow> int \<times> 'a vfs_scheme" where
  "path_vnode_call pick drv cwd junk path s =
     (let (err, vn, s) = vfs_lookup drv cwd junk path s in
      if err \<noteq> 0 then (err, s)
      else
        (case vn of None \<Rightarrow> (- ENOSYS, s)
         | Some v \<Rightarrow>
             (case ops_of drv s v of
                None \<Rightarrow> (- ENOSYS, vfs_vnode_release s vn)
              | Some ops \<Rightarrow>
                  if nz (mnt_flags (mount_of s (the (vn_mount (vnode_of s v)))) AND MNT_RDONLY) then (- EROFS, vfs_vnode_release s vn)
                  else
                    (case pick ops of
                       None \<Rightarrow> (- EPERM, vfs_vnode_release s vn)
                     | Some f \<Rightarrow> let (err, s) = f v s in (err, vfs_vnode_release s vn)))))"

definition vfs_path_utimes ::
  "(nat \<Rightarrow> 'a vfs_scheme fs_ops) \<Rightarrow> string \<Rightarrow> string \<Rightarrow> string option \<Rightarrow> u32 \<Rightarrow> u32 \<Rightarrow> 'a vfs_scheme \<Rightarrow> int \<times> 'a vfs_scheme" where
  "vfs_path_utimes drv cwd junk path atime mtime s =
     path_vnode_call (\<lambda>ops. map_option (\<lambda>f v. f v atime mtime) (op_utimes ops)) drv cwd junk path s"

definition vfs_path_chmod ::
  "(nat \<Rightarrow> 'a vfs_scheme fs_ops) \<Rightarrow> string \<Rightarrow> string \<Rightarrow> string option \<Rightarrow> u32 \<Rightarrow> 'a vfs_scheme \<Rightarrow> int \<times> 'a vfs_scheme" where
  "vfs_path_chmod drv cwd junk path mode s =
     path_vnode_call (\<lambda>ops. map_option (\<lambda>f v. f v mode) (op_chmod ops)) drv cwd junk path s"

definition vfs_path_link ::
  "(nat \<Rightarrow> 'a vfs_scheme fs_ops) \<Rightarrow> string \<Rightarrow> string \<Rightarrow> string option \<Rightarrow> string option \<Rightarrow> 'a vfs_scheme \<Rightarrow> int \<times> 'a vfs_scheme" where
  "vfs_path_link drv cwd junk oldpath newpath s =
     (let (err, tgt, s) = vfs_lookup drv cwd junk oldpath s in
      if err \<noteq> 0 then (err, s)
      else
        let (new_name, s) = vfs_scratch_alloc s in
        if \<not> new_name then (- ENOMEM, vfs_vnode_release s tgt)
        else
          let ((err, new_parent, name), s) = vfs_lookup_parent drv cwd junk newpath (VFS_NAME_MAX + 1) s in
          if err \<noteq> 0 then (err, vfs_vnode_release (vfs_scratch_free s True) tgt)
          else
            let out = (\<lambda>s. vfs_scratch_free (vfs_vnode_release (vfs_vnode_release s new_parent) tgt) True) in
            (case (tgt, new_parent) of
               (Some t, Some np) \<Rightarrow>
                 if vn_type (vnode_of s np) \<noteq> VNODE_DIR then (- ENOTDIR, out s)
                 else if vn_mount (vnode_of s t) \<noteq> vn_mount (vnode_of s np) then (- EXDEV, out s)
                 else if nz (mnt_flags (mount_of s (the (vn_mount (vnode_of s np)))) AND MNT_RDONLY) then (- EROFS, out s)
                 else
                   (case (case ops_of drv s np of None \<Rightarrow> None | Some ops \<Rightarrow> op_link ops) of
                      None \<Rightarrow> (- EPERM, out s)
                    | Some f \<Rightarrow> let (err, s) = f np name t s in (err, out s))
             | _ \<Rightarrow> (- EPERM, out s)))"

subsection \<open>References and buffers\<close>

text \<open>The number of references to a vnode; the pool is consistent when the free list holds exactly the
  vnodes without references.\<close>

definition refs :: "'a vfs_scheme \<Rightarrow> nat \<Rightarrow> nat" where
  "refs s v = unat (vn_refcnt (vnode_of s v))"

definition vn_ok :: "'a vfs_scheme \<Rightarrow> bool" where
  "vn_ok s \<longleftrightarrow> distinct (vn_free s) \<and> set (vn_free s) = {v. v < length (vnodes s) \<and> refs s v = 0}"

text \<open>Compared with \<open>s0\<close>, the state has \<open>d v\<close> more references to each vnode \<open>v\<close> and \<open>n\<close> fewer scratch
  buffers; mounts are unchanged, and so are the kind, place and number of the vnodes in use in \<open>s0\<close>.\<close>

definition holds :: "'a vfs_scheme \<Rightarrow> 'a vfs_scheme \<Rightarrow> (nat \<Rightarrow> nat) \<Rightarrow> nat \<Rightarrow> bool" where
  "holds s0 s d n \<longleftrightarrow> vn_ok s \<and> length (vnodes s) = length (vnodes s0) \<and> mounts s = mounts s0
     \<and> mount_count s = mount_count s0 \<and> scratch_free s + n = scratch_free s0
     \<and> (\<forall>v < length (vnodes s0). refs s v = refs s0 v + d v)
     \<and> (\<forall>v < length (vnodes s0). 0 < refs s0 v \<longrightarrow> vn_type (vnode_of s v) = vn_type (vnode_of s0 v)
          \<and> vn_mount (vnode_of s v) = vn_mount (vnode_of s0 v) \<and> vn_ino (vnode_of s v) = vn_ino (vnode_of s0 v))"

abbreviation none :: "nat \<Rightarrow> nat" where "none \<equiv> \<lambda>_. 0"
abbreviation one :: "nat \<Rightarrow> nat \<Rightarrow> nat" where "one v \<equiv> (\<lambda>_. 0)(v := 1)"

lemma holdsD:
  assumes "holds s0 s d n"
  shows "vn_ok s" "length (vnodes s) = length (vnodes s0)" "mounts s = mounts s0" "mount_count s = mount_count s0"
    "scratch_free s + n = scratch_free s0" "v < length (vnodes s0) \<Longrightarrow> refs s v = refs s0 v + d v"
  using assms by (auto simp: holds_def)

lemma holds_refl: "vn_ok s \<Longrightarrow> holds s s none 0"
  by (simp add: holds_def)

lemma refs_upd: "refs (vn_upd s v f) w = (if v = w \<and> w < length (vnodes s) then unat (vn_refcnt (f (vnode_of s v))) else refs s w)"
  by (auto simp: refs_def vn_upd_def nth_upd)

lemma vn_upd_frame [simp]:
  "length (vnodes (vn_upd s v f)) = length (vnodes s)" "mounts (vn_upd s v f) = mounts s" "mount_count (vn_upd s v f) = mount_count s"
  "scratch_free (vn_upd s v f) = scratch_free s" "vn_free (vn_upd s v f) = vn_free s"
  by (simp_all add: vn_upd_def)

lemma vnode_of_upd: "vnode_of (vn_upd s v f) w = (if v = w \<and> w < length (vnodes s) then f (vnode_of s v) else vnode_of s w)"
  by (auto simp: vn_upd_def nth_upd)

lemma holds_acquire:
  assumes h: "holds s0 s d n" and v: "v < length (vnodes s0)" "0 < refs s v" "refs s v + 1 < 2 ^ 32"
  shows "holds s0 (vfs_vnode_acquire s (Some v)) (d(v := d v + 1)) n"
proof -
  let ?s = "vn_upd s v (\<lambda>n. n\<lparr>vn_refcnt := vn_refcnt n + 1\<rparr>)"
  have u: "unat (vn_refcnt (vnode_of s v) + 1) = refs s v + 1" using v(3) by (simp add: refs_def unat_word_ariths)
  have r: "refs ?s w = (if w = v then refs s v + 1 else refs s w)" for w using v(1) holdsD(2) [OF h] by (auto simp: refs_upd u)
  have e: "refs ?s w = 0 \<longleftrightarrow> refs s w = 0" for w using r [of w] v(2) by simp
  have "vn_ok ?s" using holdsD(1) [OF h] unfolding vn_ok_def e vn_upd_frame .
  then show ?thesis using h v(1) r unfolding holds_def vfs_vnode_acquire_def option.case
    by (auto simp: vnode_of_upd)
qed

lemma holds_release:
  assumes h: "holds s0 s d n" and v: "v < length (vnodes s0)" "0 < d v"
  shows "holds s0 (vfs_vnode_release s (Some v)) (d(v := d v - 1)) n"
proof -
  define t where "t = vn_upd s v (\<lambda>n. n\<lparr>vn_refcnt := vn_refcnt n - 1\<rparr>)"
  have rv: "0 < refs s v" using holdsD(6) [OF h v(1)] v(2) by simp
  then have nz: "0 < vn_refcnt (vnode_of s v)" "vn_refcnt (vnode_of s v) \<noteq> 0" by (auto simp: refs_def word_less_nat_alt)
  have u: "unat (vn_refcnt (vnode_of s v) - 1) = refs s v - 1" using nz by (simp add: refs_def unat_minus_one)
  have r: "refs t w = (if w = v then refs s v - 1 else refs s w)" for w
    using v(1) holdsD(2) [OF h] by (auto simp: t_def refs_upd u)
  have tf: "vn_free t = vn_free s" "length (vnodes t) = length (vnodes s)" by (simp_all add: t_def)
  define t' where "t' = vfs_vnode_release s (Some v)"
  have t': "t' = (if refs t v = 0 then t\<lparr>vn_free := v # vn_free t\<rparr> else t)"
    unfolding t'_def vfs_vnode_release_def option.case Let_def t_def [symmetric] using nz(1) by (simp add: refs_def unat_eq_0)
  have rt: "refs t' w = refs t w" "vnode_of t' w = vnode_of t w" for w unfolding t' by (simp_all add: refs_def)
  have fr: "length (vnodes t') = length (vnodes s)" "mounts t' = mounts s" "mount_count t' = mount_count s" "scratch_free t' = scratch_free s"
    unfolding t' by (simp_all add: t_def)
  have vs: "v < length (vnodes s)" "v \<notin> set (vn_free s)" using holdsD(1,2) [OF h] v(1) rv by (auto simp: vn_ok_def)
  have "vn_ok t'"
  proof -
    have "set (vn_free s) = {w. w < length (vnodes s) \<and> refs s w = 0}" "distinct (vn_free s)"
      using holdsD(1) [OF h] by (auto simp: vn_ok_def)
    note F = this
    have "distinct (vn_free t') \<and> set (vn_free t') = {w. w < length (vnodes s) \<and> refs t w = 0}"
    proof (cases "refs t v = 0")
      case True
      have "{w. w < length (vnodes s) \<and> refs t w = 0} = insert v {w. w < length (vnodes s) \<and> refs s w = 0}"
        using True vs(1) rv by (auto simp: r split: if_splits)
      moreover have "vn_free t' = v # vn_free s" using True by (simp add: t' tf)
      ultimately show ?thesis using F vs(2) by simp
    next
      case False
      have "{w. w < length (vnodes s) \<and> refs t w = 0} = {w. w < length (vnodes s) \<and> refs s w = 0}"
        using False rv by (auto simp: r split: if_splits)
      moreover have "vn_free t' = vn_free s" using False by (simp add: t' tf)
      ultimately show ?thesis using F by simp
    qed
    then show ?thesis unfolding vn_ok_def rt fr by blast
  qed
  moreover have "vn_type (vnode_of t w) = vn_type (vnode_of s w)" "vn_mount (vnode_of t w) = vn_mount (vnode_of s w)"
    "vn_ino (vnode_of t w) = vn_ino (vnode_of s w)" for w by (auto simp: t_def vnode_of_upd)
  ultimately show ?thesis using h v unfolding t'_def [symmetric] holds_def rt fr r by auto
qed

lemma holds_scratch_alloc:
  assumes "holds s0 s d n" "vfs_scratch_alloc s = (ok, s')"
  shows "holds s0 s' d (if ok then n + 1 else n)" "vnodes s' = vnodes s"
  using assms by (auto simp: vfs_scratch_alloc_def holds_def vn_ok_def refs_def split: if_splits)

lemma holds_scratch_free:
  assumes "holds s0 s d n" "ok \<longrightarrow> 0 < n"
  shows "holds s0 (vfs_scratch_free s ok) d (if ok then n - 1 else n)"
  using assms by (auto simp: vfs_scratch_free_def holds_def vn_ok_def refs_def)

text \<open>The roots of active mounts are in use, and reference counts are at least \<open>k\<close> below their limit.\<close>

definition roots_ok :: "nat \<Rightarrow> 'a vfs_scheme \<Rightarrow> bool" where
  "roots_ok k s \<longleftrightarrow> vn_ok s \<and> (\<forall>v < length (vnodes s). refs s v + k < 2 ^ 32)
     \<and> (\<forall>m\<in>set (mounts s). mnt_active m = MNT_STATE_ACTIVE \<longrightarrow>
          (\<forall>r. mnt_root m = Some r \<longrightarrow> r < length (vnodes s) \<and> 0 < refs s r))"

lemma norm_loop_error: "norm_loop n path buf = Inl e \<Longrightarrow> e = - ENAMETOOLONG"
proof (induction "length path" arbitrary: path buf rule: less_induct)
  case less
  let ?p = "dropWhile (\<lambda>c. c = slash) path"
  show ?case
  proof (cases "?p = []")
    case True
    then show ?thesis using less.prems by (simp add: norm_loop.simps [of n path] del: dropWhile_eq_Nil_conv)
  next
    case False
    define cm where "cm = takeWhile (\<lambda>c. c \<noteq> slash) ?p"
    define rest where "rest = dropWhile (\<lambda>c. c \<noteq> slash) ?p"
    have unf: "norm_loop n path buf =
      (if cm = ''.'' then norm_loop n rest buf
       else if cm = ''..'' then norm_loop n rest (pop_component buf)
       else if VFS_NAME_MAX < length cm then Inl (- ENAMETOOLONG)
       else if n \<le> int (length buf) + 1 + int (length cm) then Inl (- ENAMETOOLONG)
       else norm_loop n rest (buf @ slash # cm))"
      using False by (subst norm_loop.simps) (simp add: cm_def rest_def Let_def del: dropWhile_eq_Nil_conv)
    have "length rest < length path" unfolding rest_def by (rule component_shorter [OF False])
    from less.hyps [OF this] less.prems show ?thesis unfolding unf by (auto split: if_splits)
  qed
qed

lemma path_normalize_error: "path_normalize path n = Inl e \<Longrightarrow> e < 0"
  by (auto simp: path_normalize_def split: if_splits sum.splits dest: norm_loop_error)

lemma inplace_loop_error: "inplace_loop n m p len = Inl e \<Longrightarrow> e = - ENAMETOOLONG"
proof (induction "length m - p" arbitrary: m p len rule: less_induct)
  case less
  define start where "start = p + scan_while (\<lambda>c. c = slash) (drop p m)"
  define clen where "clen = scan_while (\<lambda>c. c \<noteq> slash) (drop start m)"
  define l' where "l' = pop_len m len"
  have unf: "inplace_loop n m p len =
    (if length m \<le> start \<or> m ! start = NUL then Inr (m[len := NUL], len)
     else if clen = 1 \<and> m ! start = CHR ''.'' then inplace_loop n m (start + clen) len
     else if clen = 2 \<and> m ! start = CHR ''.'' \<and> m ! (start + 1) = CHR ''.''
     then inplace_loop n (m[l' := NUL]) (start + clen) l'
     else if VFS_NAME_MAX < clen then Inl (- ENAMETOOLONG)
     else if n \<le> int len + 1 + int clen then Inl (- ENAMETOOLONG)
     else inplace_loop n (move_within (m[len := slash]) (len + 1) start clen) (start + clen) (len + 1 + clen))"
    by (subst inplace_loop.simps) (simp only: Let_def start_def [symmetric] clen_def [symmetric] l'_def [symmetric])
  show ?case
  proof (cases "length m \<le> start \<or> m ! start = NUL")
    case True
    then show ?thesis using less.prems unfolding unf by simp
  next
    case False
    then have "length m - (start + clen) < length m - p"
      using scan_while_pos [OF start_def] by (auto simp: clen_def)
    then have IH: "inplace_loop n m' (start + clen) k = Inl e \<Longrightarrow> e = - ENAMETOOLONG" if "length m' = length m" for m' k
      using less.hyps [of m' "start + clen" k] that by simp
    have ch: "e = x" if "(if A then a else if B then b else if C then Inl x else if D then Inl x else c) = Inl e"
      "a = Inl e \<Longrightarrow> e = x" "b = Inl e \<Longrightarrow> e = x" "c = Inl e \<Longrightarrow> e = x" for A B C D and a b c :: "int + string \<times> nat" and e x
      using that by (auto split: if_splits)
    show ?thesis
      by (rule ch [OF less.prems [unfolded unf if_not_P [OF False]]]) (erule IH [rotated], simp)+
  qed
qed

lemma path_normalize_inplace_error: "path_normalize_inplace m n = Inl e \<Longrightarrow> e < 0"
  by (auto simp: path_normalize_inplace_def split: if_splits sum.splits prod.splits dest: inplace_loop_error)

lemma absolutize_error: "absolutize cwd path junk cap = Inl e \<Longrightarrow> e < 0"
  by (auto simp: absolutize_def Let_def path_normalize_error path_normalize_inplace_error split: if_splits sum.splits prod.splits)

lemma mount_scan_active:
  assumes "mount_scan path ms i best bl = (Some k, l)" "best \<noteq> Some k"
  shows "\<exists>j < length ms. k = i + j \<and> mnt_active (ms ! j) = MNT_STATE_ACTIVE"
  using assms
proof (induction path ms i best bl rule: mount_scan.induct)
  case (2 path m ms i best bl)
  show ?case
  proof (cases "mnt_active m = MNT_STATE_ACTIVE \<and> mount_better path m best bl")
    case True
    show ?thesis
    proof (cases "k = i")
      case T: True
      then show ?thesis using True by (intro exI [of _ 0]) simp
    next
      case F: False
      then obtain j where "j < length ms" "k = i + 1 + j" "mnt_active (ms ! j) = MNT_STATE_ACTIVE"
        using "2.IH"(1) [OF True] "2.prems"(1) True by auto
      then show ?thesis by (intro exI [of _ "Suc j"]) simp
    qed
  next
    case False
    then obtain j where "j < length ms" "k = i + 1 + j" "mnt_active (ms ! j) = MNT_STATE_ACTIVE"
      using "2.IH"(2) [OF False] "2.prems" by auto
    then show ?thesis by (intro exI [of _ "Suc j"]) simp
  qed
qed simp

text \<open>Looking for a mount takes one reference on the root of the mount it returns, and none otherwise.\<close>

lemma mount_at_holds:
  assumes h: "holds s0 s d n" and ok: "roots_ok 3 s0" and d: "\<forall>v. d v \<le> 1" and r: "mount_at_acquire path s = (res, s')"
  shows "case res of None \<Rightarrow> holds s0 s' d n
    | Some i \<Rightarrow> \<exists>root. mnt_root (mount_of s' i) = Some root \<and> root < length (vnodes s0) \<and> holds s0 s' (d(root := d root + 1)) n"
proof -
  obtain b l where bl: "mount_scan path (mounts s) 0 None 0 = (b, l)" by fastforce
  show ?thesis
  proof (cases "b = None \<or> (\<exists>i. b = Some i \<and> mnt_root (mount_of s i) = None)")
    case True
    then have "vfs_mount_find path s = (None, s)" using bl by (auto simp: vfs_mount_find_def)
    then show ?thesis using r h by (auto simp: mount_at_acquire_def)
  next
    case False
    then obtain i root where b: "b = Some i" and root: "mnt_root (mount_of s i) = Some root" by (cases b) auto
    obtain "i < length (mounts s)" and act: "mnt_active (mount_of s i) = MNT_STATE_ACTIVE"
      using mount_scan_active [OF bl [unfolded b]] by auto
    then have live: "root < length (vnodes s0)" "0 < refs s0 root" using ok root holdsD(3) [OF h] by (auto simp: roots_ok_def)
    have rr: "refs s root = refs s0 root + d root" by (rule holdsD(6) [OF h live(1)])
    have "refs s0 root + 3 < 2 ^ 32" using ok live(1) by (simp add: roots_ok_def)
    moreover have "d root \<le> 1" using d by blast
    ultimately have bound: "0 < refs s root" "refs s root + 1 < 2 ^ 32" using rr live(2) by linarith+
    define s1 where "s1 = vfs_vnode_acquire s (Some root)"
    have h1: "holds s0 s1 (d(root := d root + 1)) n" unfolding s1_def by (rule holds_acquire [OF h live(1) bound])
    have m1: "mounts s1 = mounts s" using holdsD(3) [OF h1] holdsD(3) [OF h] by simp
    have f: "vfs_mount_find path s = (Some (i, dropWhile (\<lambda>c. c = slash) (drop (unat l) path)), s1)"
      using bl b root by (simp add: vfs_mount_find_def s1_def vfs_vnode_acquire_def)
    show ?thesis
    proof (cases "dropWhile (\<lambda>c. c = slash) (drop (unat l) path) = []")
      case True
      then have "res = Some i" "s' = s1" using r f by (auto simp: mount_at_acquire_def simp del: dropWhile_eq_Nil_conv)
      then show ?thesis using h1 live(1) root m1 by auto
    next
      case False
      then have e: "res = None" "s' = vfs_vnode_release s1 (Some root)"
        using r f root m1 by (auto simp: mount_at_acquire_def simp del: dropWhile_eq_Nil_conv)
      have "(d(root := d root + 1))(root := (d(root := d root + 1)) root - 1) = d" by auto
      then show ?thesis using holds_release [OF h1 live(1)] e by simp
    qed
  qed
qed

text \<open>What path resolution relies on from a driver: a lookup either returns a fresh vnode with one
  reference or leaves all references as they are; the other calls do not touch references. Mounts and
  buffers stay.\<close>

definition lookup_law :: "(nat \<Rightarrow> string \<Rightarrow> 'a vfs_scheme \<Rightarrow> int \<times> nat option \<times> 'a vfs_scheme) \<Rightarrow> bool" where
  "lookup_law f \<longleftrightarrow> (\<forall>v name s err child s'. vn_ok s \<longrightarrow> f v name s = (err, child, s') \<longrightarrow>
     (if err = 0 then \<exists>c. child = Some c \<and> c < length (vnodes s) \<and> refs s c = 0 \<and> holds s s' (one c) 0
      else holds s s' none 0))"

definition quiet :: "('a vfs_scheme \<Rightarrow> int \<times> 'a vfs_scheme) \<Rightarrow> bool" where
  "quiet f \<longleftrightarrow> (\<forall>s err s'. vn_ok s \<longrightarrow> f s = (err, s') \<longrightarrow> holds s s' none 0)"

lemma holds_trans:
  assumes "holds s0 s d n" "holds s s' d' n'"
  shows "holds s0 s' (\<lambda>v. d v + d' v) (n + n')"
  using assms unfolding holds_def by auto

lemma holds_quiet: "holds s0 s d n \<Longrightarrow> holds s s' none 0 \<Longrightarrow> holds s0 s' d n"
  using holds_trans [of s0 s d n s' none 0] by simp

text \<open>A walk that starts with one reference to a directory ends with one reference to its result or with
  none, and gives back its buffers.\<close>

definition walk_post :: "'a vfs_scheme \<Rightarrow> nat \<Rightarrow> walk \<times> 'a vfs_scheme \<Rightarrow> bool" where
  "walk_post s0 n r \<longleftrightarrow> (case r of
      (Return rc v, s') \<Rightarrow> if rc = 0 then \<exists>c. v = Some c \<and> c < length (vnodes s0) \<and> holds s0 s' (one c) n else v = None \<and> holds s0 s' none n
    | (Restart q, s') \<Rightarrow> holds s0 s' none n)"

text \<open>The entry points: the buffers come back, and only the result carries a new reference.\<close>

definition lookup_post :: "'a vfs_scheme \<Rightarrow> int \<times> nat option \<times> 'a vfs_scheme \<Rightarrow> bool" where
  "lookup_post s r \<longleftrightarrow> (case r of (rc, v, s') \<Rightarrow>
     if rc = 0 then \<exists>c. v = Some c \<and> c < length (vnodes s) \<and> holds s s' (one c) 0 else v = None \<and> holds s s' none 0)"

locale vfs_drivers =
  fixes drv :: "nat \<Rightarrow> 'a vfs_scheme fs_ops"
  assumes lookup: "op_lookup (drv k) = Some f \<Longrightarrow> lookup_law f"
    and readlink: "op_readlink (drv k) = Some g \<Longrightarrow> g v m s = Inl e \<Longrightarrow> e < 0"
    and mkdir: "op_mkdir (drv k) = Some f1 \<Longrightarrow> quiet (f1 v name mode)"
    and unlink: "op_unlink (drv k) = Some f2 \<Longrightarrow> quiet (f2 v name)"
    and rename: "op_rename (drv k) = Some f3 \<Longrightarrow> quiet (f3 v name v' name')"
    and utimes: "op_utimes (drv k) = Some f4 \<Longrightarrow> quiet (f4 v at mt)"
    and chmod: "op_chmod (drv k) = Some f5 \<Longrightarrow> quiet (f5 v mode)"
    and link: "op_link (drv k) = Some f6 \<Longrightarrow> quiet (f6 v name v')"
begin

lemma ops_lookup:
  assumes h: "holds s0 s (one cur) n" and l: "op_lookup (drv k) = Some f" "f cur name s = (err, child, s')" and cur: "cur < length (vnodes s0)"
  shows "if err = 0 then \<exists>c. child = Some c \<and> c < length (vnodes s0) \<and> c \<noteq> cur \<and> holds s0 s' ((one cur)(c := 1)) n
     else holds s0 s' (one cur) n"
proof (cases "err = 0")
  case True
  then obtain c where c: "child = Some c" "c < length (vnodes s)" "refs s c = 0" "holds s s' (one c) 0"
    using lookup [OF l(1)] l(2) holdsD(1) [OF h] unfolding lookup_law_def by metis
  have cc: "c \<noteq> cur" using holdsD(6) [OF h cur] c(3) by auto
  have "(\<lambda>v. (one cur) v + (one c) v) = (one cur)(c := 1)" using cc by auto
  then have "holds s0 s' ((one cur)(c := 1)) n" using holds_trans [OF h c(4)] by simp
  then show ?thesis using True c(1,2) cc holdsD(2) [OF h] by auto
next
  case False
  then have "holds s s' none 0" using lookup [OF l(1)] l(2) holdsD(1) [OF h] unfolding lookup_law_def by metis
  from holds_quiet [OF h this] have "holds s0 s' (one cur) n" .
  then show ?thesis using False by simp
qed

text \<open>The outcome of a walk: a vnode with one reference, or none.\<close>

lemma one_released: "holds s0 s (one v) n \<Longrightarrow> v < length (vnodes s0) \<Longrightarrow> holds s0 (vfs_vnode_release s (Some v)) none n"
proof -
  assume "holds s0 s (one v) n" "v < length (vnodes s0)"
  moreover have "(one v)(v := (one v) v - 1) = none" by auto
  ultimately show ?thesis using holds_release [of s0 s "one v" n v] by simp
qed

lemma follow_link_holds:
  assumes h: "holds s0 s (one child) n" and c: "child < length (vnodes s0)" and r: "follow_link drv child resolved p s = (w, s')"
  shows "holds s0 s' none n \<and> (\<forall>rc v. w = Return rc v \<longrightarrow> rc \<noteq> 0 \<and> v = None)"
proof -
  obtain b1 s1 where a1: "vfs_scratch_alloc s = (b1, s1)" by fastforce
  obtain b2 s2 where a2: "vfs_scratch_alloc s1 = (b2, s2)" by fastforce
  define free2 where "free2 = (\<lambda>s :: 'a vfs_scheme. vfs_scratch_free (vfs_scratch_free s b2) b1)"
  note h1 = holds_scratch_alloc(1) [OF h a1] and h2 = holds_scratch_alloc(1) [OF holds_scratch_alloc(1) [OF h a1] a2]
  have rel: "holds s0 (vfs_vnode_release t (Some child)) none k" if "holds s0 t (one child) k" for t k
    by (rule one_released [OF that c])
  have fr: "holds s0 (free2 t) d n" if "holds s0 t d (if b2 then (if b1 then n + 1 else n) + 1 else if b1 then n + 1 else n)" for t d
  proof -
    have "holds s0 (vfs_scratch_free t b2) d (if b1 then n + 1 else n)"
      using holds_scratch_free [OF that, of b2] by (cases b2) auto
    from holds_scratch_free [OF this, of b1] show ?thesis unfolding free2_def by (cases b1) auto
  qed
  have pn: "path_normalize q m = Inl e \<Longrightarrow> e < 0" for q m e
    by (rule path_normalize_error)
  have lp: "link_path t resolved p = Inl e \<Longrightarrow> e < 0" for t e
    by (auto simp: link_path_def Let_def pn split: if_splits)
  have h2r: "holds s0 (free2 (vfs_vnode_release s2 (Some child))) none n" by (rule fr [OF rel [OF h2]])
  show ?thesis
  proof (cases "\<not> b1 \<or> \<not> b2")
    case True
    then have "w = Return (- ENOMEM) None" "s' = vfs_vnode_release (free2 s2) (Some child)"
      using r by (auto simp: follow_link_def a1 a2 free2_def Let_def)
    then show ?thesis using rel [OF fr [OF h2]] by simp
  next
    case False
    have "s' = free2 (vfs_vnode_release s2 (Some child)) \<and> (\<forall>rc v. w = Return rc v \<longrightarrow> rc < 0 \<and> v = None)"
      using r False lp readlink unfolding follow_link_def a1 a2 prod.case Let_def ops_of_def
      by (auto simp: free2_def split: option.splits sum.splits)
    then show ?thesis using h2r by auto
  qed
qed

lemma walk_post_none: "holds s0 s' none n \<Longrightarrow> rc \<noteq> 0 \<Longrightarrow> walk_post s0 n (Return rc None, s')"
  by (simp add: walk_post_def)

lemma walk_post_one: "holds s0 s' (one c) n \<Longrightarrow> c < length (vnodes s0) \<Longrightarrow> walk_post s0 n (Return 0 (Some c), s')"
  by (simp add: walk_post_def)

lemma walk_loop_holds:
  assumes "holds s0 s (one cur) n" "cur < length (vnodes s0)" "roots_ok 3 s0"
  shows "walk_post s0 n (walk_loop drv nofollow cur path resolved s)"
  using assms
proof (induction "length path" arbitrary: path cur resolved s rule: less_induct)
  case less
  note h = less.prems(1) and cur = less.prems(2)
  note rel = one_released [OF _ cur]
  let ?p = "dropWhile (\<lambda>c. c = slash) path"
  define name where "name = takeWhile (\<lambda>c. c \<noteq> slash) ?p"
  define rest where "rest = dropWhile (\<lambda>c. c \<noteq> slash) ?p"
  define res where "res = resolved @ slash # name"
  obtain cm s1 where ma: "mount_at_acquire res s = (cm, s1)" by fastforce
  have one1: "\<forall>v. (one cur) v \<le> 1" by simp
  note M = mount_at_holds [OF h less.prems(3) one1 ma]
  define s2 where "s2 = (case cm of None \<Rightarrow> s1 | Some i \<Rightarrow> vfs_vnode_release s1 (mnt_root (mount_of s1 i)))"
  have h2: "holds s0 s2 (one cur) n"
  proof (cases cm)
    case None
    then show ?thesis using M by (simp add: s2_def)
  next
    case (Some i)
    then obtain root where root: "mnt_root (mount_of s1 i) = Some root" "root < length (vnodes s0)"
      "holds s0 s1 ((one cur)(root := (one cur) root + 1)) n" using M by auto
    have "((one cur)(root := (one cur) root + 1))(root := ((one cur)(root := (one cur) root + 1)) root - 1) = one cur" by auto
    then show ?thesis using holds_release [OF root(3,2)] Some root(1) by (simp add: s2_def)
  qed
  define look where "look = (case ops_of drv s2 cur of None \<Rightarrow> None | Some ops \<Rightarrow> op_lookup ops)"
  show ?case
  proof (cases "?p = [] \<or> vn_type (vnode_of s cur) \<noteq> VNODE_DIR \<or> VFS_NAME_MAX < length name \<or> VFS_PATH_MAX \<le> length resolved + 1 + length name")
    case True
    then show ?thesis using walk_post_one [OF h cur] walk_post_none [OF rel [OF h]]
      by (subst walk_loop.simps) (auto simp: Let_def name_def [symmetric] simp del: dropWhile_eq_Nil_conv)
  next
    case go: False
    have lt: "length rest < length path" using component_shorter go unfolding rest_def by blast
    note IH = less.hyps [OF lt _ _ less.prems(3)]
    have unf: "walk_loop drv nofollow cur path resolved s =
      (if cm \<noteq> None \<and> cm \<noteq> vn_mount (vnode_of s1 cur) then
         (case mnt_root (mount_of (vfs_vnode_release s1 (Some cur)) (the cm)) of
            Some root \<Rightarrow> walk_loop drv nofollow root rest res (vfs_vnode_release s1 (Some cur))
          | None \<Rightarrow> (Return (- ENOENT) None, vfs_vnode_release s1 (Some cur)))
       else (case look of None \<Rightarrow> (Return (- ENOENT) None, vfs_vnode_release s2 (Some cur))
             | Some lookup \<Rightarrow>
                 let (err, child, s) = lookup cur name s2; s = vfs_vnode_release s (Some cur) in
                 if err \<noteq> 0 then (Return err None, s)
                 else
                   (case child of
                      None \<Rightarrow> (Return 0 None, s)
                    | Some child \<Rightarrow>
                        if vn_type (vnode_of s child) = VNODE_SYMLINK then
                          if nofollow \<and> dropWhile (\<lambda>c. c = slash) rest = [] then (Return 0 (Some child), s)
                          else follow_link drv child res rest s
                        else walk_loop drv nofollow child rest res s)))"
      using go by (subst walk_loop.simps)
        (simp only: Let_def name_def [symmetric] rest_def [symmetric] res_def [symmetric] ma prod.case s2_def [symmetric] look_def [symmetric] if_False de_Morgan_disj simp_thms)
    show ?thesis
    proof (cases "cm \<noteq> None \<and> cm \<noteq> vn_mount (vnode_of s1 cur)")
      case True
      then obtain i root where i: "cm = Some i" and root: "mnt_root (mount_of s1 i) = Some root" "root < length (vnodes s0)"
        and h1: "holds s0 s1 ((one cur)(root := (one cur) root + 1)) n" using M by auto
      have "((one cur)(root := (one cur) root + 1))(cur := ((one cur)(root := (one cur) root + 1)) cur - 1) = one root" by auto
      with holds_release [OF h1 cur] have h3: "holds s0 (vfs_vnode_release s1 (Some cur)) (one root) n" by simp
      have "mnt_root (mount_of (vfs_vnode_release s1 (Some cur)) i) = Some root"
        using root(1) holdsD(3) [OF h3] holdsD(3) [OF h1] by simp
      moreover have "Some i \<noteq> vn_mount (vnode_of s1 cur)" using True i by simp
      ultimately show ?thesis unfolding unf i using IH [OF h3 root(2)] by simp
    next
      case False
      show ?thesis
      proof (cases look)
        case None
        then show ?thesis unfolding unf if_not_P [OF False] using walk_post_none [OF rel [OF h2]] by simp
      next
        case (Some f)
        then obtain k where k: "op_lookup (drv k) = Some f" by (auto simp: look_def ops_of_def split: option.splits)
        obtain err child s3 where l: "f cur name s2 = (err, child, s3)" by (metis prod_cases3)
        note L = ops_lookup [OF h2 k l cur]
        show ?thesis
        proof (cases "err = 0")
          case False
          then show ?thesis unfolding unf if_not_P [OF \<open>\<not> (cm \<noteq> None \<and> cm \<noteq> vn_mount (vnode_of s1 cur))\<close>]
            using Some l L walk_post_none [OF rel] by simp
        next
          case True
          then obtain c where c: "child = Some c" "c < length (vnodes s0)" "c \<noteq> cur" and h3: "holds s0 s3 ((one cur)(c := 1)) n" using L by auto
          have "((one cur)(c := 1))(cur := ((one cur)(c := 1)) cur - 1) = one c" using c(3) by auto
          with holds_release [OF h3 cur] c(3) have h4: "holds s0 (vfs_vnode_release s3 (Some cur)) (one c) n" by simp
          obtain w s5 where fl: "follow_link drv c res rest (vfs_vnode_release s3 (Some cur)) = (w, s5)" by fastforce
          have "walk_post s0 n (w, s5)"
            using follow_link_holds [OF h4 c(2) fl] unfolding walk_post_def by (cases w) auto
          then show ?thesis unfolding unf if_not_P [OF \<open>\<not> (cm \<noteq> None \<and> cm \<noteq> vn_mount (vnode_of s1 cur))\<close>]
            using Some l True c(1) IH [OF h4 c(2)] walk_post_one [OF h4 c(2)] fl by (simp add: Let_def)
        qed
      qed
    qed
  qed
qed

lemma walk_from_holds:
  assumes "holds s0 s none n" "roots_ok 3 s0"
  shows "case walk_from drv nofollow path k s of (rc, v, s') \<Rightarrow>
    if rc = 0 then \<exists>c. v = Some c \<and> c < length (vnodes s0) \<and> holds s0 s' (one c) n else v = None \<and> holds s0 s' none n"
  using assms
proof (induction "VFS_SYMLOOP_MAX - k" arbitrary: k path s)
  case 0
  then show ?case by (simp add: walk_from.simps [of drv nofollow path k])
next
  case (Suc x)
  then have k: "\<not> VFS_SYMLOOP_MAX \<le> k" and x: "x = VFS_SYMLOOP_MAX - (k + 1)" by auto
  obtain rm s1 where ma: "mount_at_acquire [slash] s = (rm, s1)" by fastforce
  have d0: "\<forall>v. none v \<le> 1" by simp
  note M = mount_at_holds [OF Suc.prems(1,2) d0 ma]
  show ?case
  proof (cases rm)
    case None
    then show ?thesis using M k ma by (simp add: walk_from.simps [of drv nofollow path k s])
  next
    case (Some i)
    then obtain root where root: "mnt_root (mount_of s1 i) = Some root" "root < length (vnodes s0)" "holds s0 s1 (one root) n"
      using M by auto
    show ?thesis
    proof (cases "path = [slash]")
      case True
      then show ?thesis using Some root k ma by (simp add: walk_from.simps [of drv nofollow "[slash]" k s])
    next
      case False
      obtain w s2 where w: "walk_loop drv nofollow root (tl path) [] s1 = (w, s2)" by fastforce
      have W: "walk_post s0 n (w, s2)" using walk_loop_holds [OF root(3,2) Suc.prems(2), of nofollow "tl path" "[]"] w by simp
      have unf: "walk_from drv nofollow path k s = (case (w, s2) of (Return rc v, s) \<Rightarrow> (rc, v, s) | (Restart norm, s) \<Rightarrow> walk_from drv nofollow norm (k + 1) s)"
        using Some root(1) k ma False w by (simp add: walk_from.simps [of drv nofollow path k s])
      show ?thesis
      proof (cases w)
        case (Return rc v)
        then show ?thesis using W unfolding unf walk_post_def by simp
      next
        case (Restart q)
        then have "holds s0 s2 none n" using W by (simp add: walk_post_def)
        from Suc.hyps(1) [OF x this Suc.prems(2), of q] show ?thesis unfolding unf using Restart by simp
      qed
    qed
  qed
qed

lemma lookup_walk_holds:
  assumes h: "holds s0 s none n" and ok: "roots_ok 3 s0" and r: "lookup_walk_flags drv nofollow path s = (rc, v, s')"
  shows "if rc = 0 then \<exists>c. v = Some c \<and> c < length (vnodes s0) \<and> holds s0 s' (one c) n else v = None \<and> holds s0 s' none n"
proof -
  obtain b1 s1 where a1: "vfs_scratch_alloc s = (b1, s1)" by fastforce
  obtain b2 s2 where a2: "vfs_scratch_alloc s1 = (b2, s2)" by fastforce
  obtain b3 s3 where a3: "vfs_scratch_alloc s2 = (b3, s3)" by fastforce
  define free3 where "free3 = (\<lambda>s :: 'a vfs_scheme. vfs_scratch_free (vfs_scratch_free (vfs_scratch_free s b3) b2) b1)"
  let ?n1 = "if b1 then n + 1 else n" let ?n2 = "if b2 then ?n1 + 1 else ?n1" let ?n3 = "if b3 then ?n2 + 1 else ?n2"
  note h3 = holds_scratch_alloc(1) [OF holds_scratch_alloc(1) [OF holds_scratch_alloc(1) [OF h a1] a2] a3]
  have fr: "holds s0 (free3 t) d n" if "holds s0 t d ?n3" for t d
  proof -
    have "holds s0 (vfs_scratch_free t b3) d ?n2" using holds_scratch_free [OF that, of b3] by (cases b3) auto
    from holds_scratch_free [OF this, of b2] have "holds s0 (vfs_scratch_free (vfs_scratch_free t b3) b2) d ?n1" by (cases b2) auto
    from holds_scratch_free [OF this, of b1] show ?thesis unfolding free3_def by (cases b1) auto
  qed
  show ?thesis
  proof (cases "\<not> b1 \<or> \<not> b2 \<or> \<not> b3")
    case True
    then have "rc = - ENOMEM" "v = None" "s' = free3 s3"
      using r unfolding lookup_walk_flags_def a1 a2 a3 prod.case Let_def free3_def by auto
    then show ?thesis using fr [OF h3] by simp
  next
    case False
    obtain t where w: "walk_from drv nofollow path 0 s3 = (rc, v, t)" and s': "s' = free3 t"
      using r False unfolding lookup_walk_flags_def a1 a2 a3 prod.case Let_def free3_def by (auto split: prod.splits)
    show ?thesis using walk_from_holds [OF h3 ok, of nofollow path 0] fr unfolding w s' by (auto split: if_splits)
  qed
qed

lemma lookup_flags_post:
  assumes ok: "roots_ok 3 s"
  shows "lookup_post s (vfs_lookup_flags drv cwd junk path nofollow s)"
proof (cases path)
  case None
  then show ?thesis using ok by (simp add: vfs_lookup_flags_def lookup_post_def holds_refl roots_ok_def)
next
  case (Some q)
  have h: "holds s s none 0" using ok by (simp add: holds_refl roots_ok_def)
  obtain b s1 where a: "vfs_scratch_alloc s = (b, s1)" by fastforce
  note h1 = holds_scratch_alloc(1) [OF h a]
  show ?thesis
  proof (cases "\<not> b \<or> (\<exists>e. absolutize cwd q junk VFS_PATH_MAX = Inl e)")
    case True
    then show ?thesis
    proof (cases b)
      case False
      then show ?thesis using h1 a by (simp add: vfs_lookup_flags_def Some lookup_post_def)
    next
      case b: True
      then obtain e where e: "absolutize cwd q junk VFS_PATH_MAX = Inl e" using True by blast
      have "e \<noteq> 0" using absolutize_error [OF e] by simp
      moreover have "holds s (vfs_scratch_free s1 True) none 0" using holds_scratch_free [OF h1, of True] b by simp
      ultimately show ?thesis using a b e by (simp add: vfs_lookup_flags_def Some lookup_post_def)
    qed
  next
    case False
    then obtain norm where b: "b" and norm: "absolutize cwd q junk VFS_PATH_MAX = Inr norm" by (metis old.sum.exhaust)
    obtain rc v s2 where w: "lookup_walk_flags drv nofollow norm s1 = (rc, v, s2)" by (metis prod_cases3)
    have h1': "holds s s1 none 1" using h1 b by simp
    have fr: "holds s (vfs_scratch_free s2 True) d 0" if "holds s s2 d 1" for d using holds_scratch_free [OF that, of True] by simp
    show ?thesis using lookup_walk_holds [OF h1' ok w] fr a b norm w
      by (auto simp: vfs_lookup_flags_def Some lookup_post_def split: if_splits)
  qed
qed

end

lemma roots_ok_holds:
  assumes ok: "roots_ok (k + 1) s0" and h: "holds s0 s d n" and d: "\<forall>v. d v \<le> 1"
  shows "roots_ok k s"
proof -
  have "refs s v + k < 2 ^ 32" if "v < length (vnodes s)" for v
  proof -
    have v: "v < length (vnodes s0)" using that holdsD(2) [OF h] by simp
    have "refs s0 v + (k + 1) < 2 ^ 32" using ok v by (auto simp: roots_ok_def)
    moreover have "d v \<le> 1" using d by blast
    ultimately show ?thesis using holdsD(6) [OF h v] by linarith
  qed
  moreover have "r < length (vnodes s) \<and> 0 < refs s r" if "m \<in> set (mounts s)" "mnt_active m = MNT_STATE_ACTIVE" "mnt_root m = Some r" for m r
    using ok that holdsD(2,3) [OF h] holdsD(6) [OF h, of r] by (auto simp: roots_ok_def)
  ultimately show ?thesis using holdsD(1) [OF h] unfolding roots_ok_def by blast
qed

lemma roots_ok_mono: "roots_ok k s \<Longrightarrow> j \<le> k \<Longrightarrow> roots_ok j s"
  unfolding roots_ok_def by (meson add_left_mono le_less_trans)

lemma roots_ok_refl: "roots_ok k s \<Longrightarrow> holds s s none 0"
  by (simp add: roots_ok_def holds_refl)

context vfs_drivers
begin

lemma lookup_parent_post:
  assumes ok: "roots_ok 3 s" and r: "vfs_lookup_parent drv cwd junk path m s = ((rc, v, name), s')"
  shows "lookup_post s (rc, v, s')"
proof (cases path)
  case None
  then show ?thesis using r roots_ok_refl [OF ok] by (auto simp: vfs_lookup_parent_def lookup_post_def)
next
  case (Some q)
  note h = roots_ok_refl [OF ok]
  obtain b s1 where a: "vfs_scratch_alloc s = (b, s1)" by fastforce
  note h1 = holds_scratch_alloc(1) [OF h a]
  show ?thesis
  proof (cases "m < 2 \<or> \<not> b")
    case True
    then show ?thesis using r h h1 a by (auto simp: vfs_lookup_parent_def Some lookup_post_def split: if_splits)
  next
    case False
    then have h1': "holds s s1 none 1" using h1 by simp
    have fr: "holds s (vfs_scratch_free t True) d 0" if "holds s t d 1" for t d using holds_scratch_free [OF that, of True] by simp
    show ?thesis
    proof (cases "absolutize cwd q junk VFS_PATH_MAX")
      case (Inl e)
      then show ?thesis using r a False absolutize_error [OF Inl] fr [OF h1'] by (auto simp: vfs_lookup_parent_def Some lookup_post_def)
    next
      case (Inr norm)
      obtain dir nm where sp: "split_last norm = (dir, nm)" by fastforce
      obtain rc1 v1 s2 where w: "lookup_walk_flags drv False dir s1 = (rc1, v1, s2)" by (metis prod_cases3)
      show ?thesis using r a False Inr sp w fr [OF h1'] lookup_walk_holds [OF h1' ok w] fr
        by (auto simp: vfs_lookup_parent_def Some lookup_post_def split: if_splits)
    qed
  qed
qed

lemma path_dir_call_quiet:
  assumes ok: "roots_ok 5 s" and pick: "\<And>k f v name. pick (drv k) = Some f \<Longrightarrow> quiet (f v name)"
    and r: "path_dir_call pick drv cwd junk path s = (rc, s')"
  shows "holds s s' none 0"
proof -
  note h = roots_ok_refl [OF ok]
  obtain b s1 where a: "vfs_scratch_alloc s = (b, s1)" by fastforce
  note h1 = holds_scratch_alloc(1) [OF h a]
  show ?thesis
  proof (cases b)
    case False
    then show ?thesis using r h1 a by (simp add: path_dir_call_def)
  next
    case True
    then have h1': "holds s s1 none 1" using h1 by simp
    have fr: "holds s (vfs_scratch_free t True) d 0" if "holds s t d 1" for t d using holds_scratch_free [OF that, of True] by simp
    have ok1: "roots_ok 3 s1" using roots_ok_holds [of 4 s s1 none 1] ok h1' by (simp add: roots_ok_mono)
    obtain err par name s2 where l: "vfs_lookup_parent drv cwd junk path (VFS_NAME_MAX + 1) s1 = ((err, par, name), s2)"
      by (metis prod_cases3 surj_pair)
    have P: "lookup_post s1 (err, par, s2)" by (rule lookup_parent_post [OF ok1 l])
    have step: "holds s t d 1" if "holds s1 t d 0" for t d using holds_trans [OF h1' that] by simp
    show ?thesis
    proof (cases "err = 0")
      case False
      then show ?thesis using r a True l P fr step by (auto simp: path_dir_call_def lookup_post_def)
    next
      case e: True
      then obtain c where c: "par = Some c" "c < length (vnodes s1)" and hc: "holds s1 s2 (one c) 0" using P by (auto simp: lookup_post_def)
      have c': "c < length (vnodes s)" using c(2) holdsD(2) [OF h1'] by simp
      have fin: "holds s (vfs_scratch_free (vfs_vnode_release t (Some c)) True) none 0" if "holds s t (one c) 1" for t
        by (rule fr [OF one_released [OF that c']])
      note h2 = step [OF hc]
      define op where "op = (case ops_of drv s2 c of None \<Rightarrow> None | Some ops \<Rightarrow> pick ops)"
      have q: "holds s t (one c) 1" if o: "op = Some f" and fc: "f c name s2 = (err', t)" for f err' t
      proof -
        obtain k where "pick (drv k) = Some f" using o by (auto simp: op_def ops_of_def split: option.splits)
        then have "holds s2 t none 0" using pick fc holdsD(1) [OF h2] unfolding quiet_def by metis
        from holds_quiet [OF h2 this] show ?thesis .
      qed
      have "\<exists>t. s' = vfs_scratch_free (vfs_vnode_release t (Some c)) True \<and> (t = s2 \<or> (\<exists>f err'. op = Some f \<and> f c name s2 = (err', t)))"
        using r a True l e c(1) unfolding path_dir_call_def
        by (auto simp: Let_def op_def [symmetric] split: if_splits option.splits prod.splits)
      then show ?thesis using fin h2 q by blast
    qed
  qed
qed

lemma path_vnode_call_quiet:
  assumes ok: "roots_ok 5 s" and pick: "\<And>k f v. pick (drv k) = Some f \<Longrightarrow> quiet (f v)"
    and r: "path_vnode_call pick drv cwd junk path s = (rc, s')"
  shows "holds s s' none 0"
proof -
  obtain err vn s1 where l: "vfs_lookup drv cwd junk path s = (err, vn, s1)" by (metis prod_cases3)
  have "roots_ok 3 s" using ok roots_ok_mono by fastforce
  then have P: "lookup_post s (err, vn, s1)" using lookup_flags_post [of s cwd junk path False] l by (simp add: vfs_lookup_def)
  show ?thesis
  proof (cases "err = 0")
    case False
    then show ?thesis using r l P by (simp add: path_vnode_call_def lookup_post_def)
  next
    case True
    then obtain c where c: "vn = Some c" "c < length (vnodes s)" and h1: "holds s s1 (one c) 0" using P by (auto simp: lookup_post_def)
    have q: "holds s t (one c) 0" if o: "ops_of drv s1 c = Some ops" "pick ops = Some f" and fc: "f c s1 = (err', t)" for ops f err' t
    proof -
      obtain k where "pick (drv k) = Some f" using o by (auto simp: ops_of_def)
      then have "holds s1 t none 0" using pick fc holdsD(1) [OF h1] unfolding quiet_def by metis
      from holds_quiet [OF h1 this] show ?thesis .
    qed
    have "\<exists>t. s' = vfs_vnode_release t (Some c) \<and> (t = s1 \<or> (\<exists>ops f err'. ops_of drv s1 c = Some ops \<and> pick ops = Some f \<and> f c s1 = (err', t)))"
      using r l True c(1) unfolding path_vnode_call_def by (auto simp: Let_def split: if_splits option.splits prod.splits)
    then show ?thesis using one_released [OF _ c(2)] h1 q by blast
  qed
qed

lemma rename_quiet:
  assumes ok: "roots_ok 5 s" and r: "vfs_path_rename drv cwd junk oldpath newpath s = (rc, s')"
  shows "holds s s' none 0"
proof -
  note h = roots_ok_refl [OF ok]
  obtain b1 s1 where a1: "vfs_scratch_alloc s = (b1, s1)" by fastforce
  obtain b2 s2 where a2: "vfs_scratch_alloc s1 = (b2, s2)" by fastforce
  define free2 where "free2 = (\<lambda>s :: 'a vfs_scheme. vfs_scratch_free (vfs_scratch_free s b2) b1)"
  note h2 = holds_scratch_alloc(1) [OF holds_scratch_alloc(1) [OF h a1] a2]
  let ?n = "if b2 then (if b1 then 0 + 1 else 0) + 1 else if b1 then 0 + 1 else 0 :: nat"
  have fr: "holds s (free2 t) d 0" if "holds s t d ?n" for t d
  proof -
    have "holds s (vfs_scratch_free t b2) d (if b1 then 0 + 1 else 0)" using holds_scratch_free [OF that, of b2] by (cases b2) auto
    from holds_scratch_free [OF this, of b1] show ?thesis unfolding free2_def by (cases b1) auto
  qed
  show ?thesis
  proof (cases "\<not> b1 \<or> \<not> b2")
    case True
    then have "s' = free2 s2" using r unfolding vfs_path_rename_def a1 a2 prod.case Let_def free2_def by auto
    then show ?thesis using fr [OF h2] by simp
  next
    case False
    have ok2: "roots_ok 4 s2" using roots_ok_holds [OF _ h2, of 4] ok by simp
    obtain e1 op on s3 where l1: "vfs_lookup_parent drv cwd junk oldpath (VFS_NAME_MAX + 1) s2 = ((e1, op, on), s3)"
      by (metis prod_cases3 surj_pair)
    have P1: "lookup_post s2 (e1, op, s3)" by (rule lookup_parent_post [OF roots_ok_mono [OF ok2] l1]) simp
    show ?thesis
    proof (cases "e1 = 0")
      case False
      then have "op = None" "holds s2 s3 none 0" using P1 by (auto simp: lookup_post_def)
      moreover have "s' = free2 (vfs_vnode_release s3 op)" using r \<open>\<not> (\<not> b1 \<or> \<not> b2)\<close> False
        unfolding vfs_path_rename_def a1 a2 prod.case Let_def free2_def l1 by auto
      ultimately show ?thesis using fr [OF holds_quiet [OF h2, of s3]] by (simp add: vfs_vnode_release_def)
    next
      case True
      then obtain o1 where o1: "op = Some o1" "o1 < length (vnodes s2)" and h3: "holds s2 s3 (one o1) 0" using P1 by (auto simp: lookup_post_def)
      have ok3: "roots_ok 3 s3" using roots_ok_holds [OF _ h3, of 3] ok2 by simp
      obtain e2 np nn s4 where l2: "vfs_lookup_parent drv cwd junk newpath (VFS_NAME_MAX + 1) s3 = ((e2, np, nn), s4)"
        by (metis prod_cases3 surj_pair)
      have P2: "lookup_post s3 (e2, np, s4)" by (rule lookup_parent_post [OF ok3 l2])
      have H3: "holds s s3 (one o1) ?n" using holds_trans [OF h2 h3] by (simp add: fun_upd_def)
      have lo: "o1 < length (vnodes s)" using o1(2) holdsD(2) [OF h2] by simp
      define out where "out = (\<lambda>s. free2 (vfs_vnode_release (vfs_vnode_release s op) np))"
      show ?thesis
      proof (cases "e2 = 0")
        case F: False
        then have np: "np = None" "holds s3 s4 none 0" using P2 by (auto simp: lookup_post_def)
        have "s' = out s4" using r \<open>\<not> (\<not> b1 \<or> \<not> b2)\<close> True F
          unfolding vfs_path_rename_def a1 a2 prod.case Let_def free2_def l1 l2 out_def by auto
        moreover have "holds s s4 (one o1) ?n" by (rule holds_quiet [OF H3 np(2)])
        ultimately show ?thesis using fr one_released [OF _ lo] o1(1) np(1) by (simp add: out_def vfs_vnode_release_def [of _ None])
      next
        case T: True
        then obtain n1 where n1: "np = Some n1" "n1 < length (vnodes s3)" and h4: "holds s3 s4 (one n1) 0" using P2 by (auto simp: lookup_post_def)
        have ln: "n1 < length (vnodes s)" using n1(2) holdsD(2) [OF H3] by simp
        have H4: "holds s s4 (\<lambda>v. (one o1) v + (one n1) v) ?n" using holds_trans [OF H3 h4] by simp
        have fin: "holds s (out t) none 0" if "holds s t (\<lambda>v. (one o1) v + (one n1) v) ?n" for t
        proof -
          have "(\<lambda>v. (one o1) v + (one n1) v)(o1 := (one o1) o1 + (one n1) o1 - 1) = one n1" by auto
          with holds_release [OF that lo] have "holds s (vfs_vnode_release t (Some o1)) (one n1) ?n" by simp
          from fr [OF one_released [OF this ln]] show ?thesis by (simp add: out_def o1(1) n1(1))
        qed
        define rn where "rn = (case ops_of drv s4 o1 of None \<Rightarrow> None | Some ops \<Rightarrow> op_rename ops)"
        have q: "holds s t (\<lambda>v. (one o1) v + (one n1) v) ?n" if o: "rn = Some f" and fc: "f o1 on n1 nn s4 = (err', t)" for f err' t
        proof -
          obtain k where "op_rename (drv k) = Some f" using o by (auto simp: rn_def ops_of_def split: option.splits)
          then have "holds s4 t none 0" using rename fc holdsD(1) [OF H4] unfolding quiet_def by metis
          from holds_quiet [OF H4 this] show ?thesis .
        qed
        have "\<exists>t. s' = out t \<and> (t = s4 \<or> (\<exists>f err'. rn = Some f \<and> f o1 on n1 nn s4 = (err', t)))"
          using r \<open>\<not> (\<not> b1 \<or> \<not> b2)\<close> True T o1(1) n1(1)
          unfolding vfs_path_rename_def a1 a2 prod.case Let_def l1 l2 free2_def [symmetric] out_def [symmetric]
          by (auto simp: rn_def [symmetric] free2_def out_def split: if_splits option.splits prod.splits)
        then show ?thesis using fin H4 q by blast
      qed
    qed
  qed
qed

end

context vfs_drivers
begin

lemma link_quiet:
  assumes ok: "roots_ok 5 s" and r: "vfs_path_link drv cwd junk oldpath newpath s = (rc, s')"
  shows "holds s s' none 0"
proof -
  obtain e1 tgt s1 where l1: "vfs_lookup drv cwd junk oldpath s = (e1, tgt, s1)" by (metis prod_cases3)
  have "roots_ok 3 s" using ok roots_ok_mono by fastforce
  then have P1: "lookup_post s (e1, tgt, s1)" using lookup_flags_post [of s cwd junk oldpath False] l1 by (simp add: vfs_lookup_def)
  show ?thesis
  proof (cases "e1 = 0")
    case False
    then show ?thesis using r l1 P1 by (simp add: vfs_path_link_def lookup_post_def)
  next
    case e1: True
    then obtain t where t: "tgt = Some t" "t < length (vnodes s)" and h1: "holds s s1 (one t) 0" using P1 by (auto simp: lookup_post_def)
    obtain b s2 where a: "vfs_scratch_alloc s1 = (b, s2)" by fastforce
    note h2 = holds_scratch_alloc(1) [OF h1 a]
    show ?thesis
    proof (cases b)
      case False
      then show ?thesis using r l1 e1 a h2 t one_released by (auto simp: vfs_path_link_def)
    next
      case b: True
      then have h2': "holds s s2 (one t) 1" using h2 by simp
      have ok2: "roots_ok 3 s2" using roots_ok_holds [OF _ h2', of 4] ok roots_ok_mono [of 4 s2 3] by simp
      obtain e2 np nn s3 where l2: "vfs_lookup_parent drv cwd junk newpath (VFS_NAME_MAX + 1) s2 = ((e2, np, nn), s3)"
        by (metis prod_cases3 surj_pair)
      have P2: "lookup_post s2 (e2, np, s3)" by (rule lookup_parent_post [OF ok2 l2])
      have fr: "holds s (vfs_scratch_free q True) d 0" if "holds s q d 1" for q d using holds_scratch_free [OF that, of True] by simp
      show ?thesis
      proof (cases "e2 = 0")
        case False
        then have "s' = vfs_vnode_release (vfs_scratch_free s3 True) tgt" "holds s2 s3 none 0"
          using r l1 e1 a b l2 P2 by (auto simp: vfs_path_link_def lookup_post_def)
        then show ?thesis using one_released [OF fr [OF holds_quiet [OF h2']] t(2)] t(1) by simp
      next
        case e2: True
        then obtain n1 where n1: "np = Some n1" "n1 < length (vnodes s2)" and h3: "holds s2 s3 (one n1) 0" using P2 by (auto simp: lookup_post_def)
        have ln: "n1 < length (vnodes s)" using n1(2) holdsD(2) [OF h2'] by simp
        have H3: "holds s s3 (\<lambda>v. (one t) v + (one n1) v) 1" using holds_trans [OF h2' h3] by simp
        define out where "out = (\<lambda>s :: 'a vfs_scheme. vfs_scratch_free (vfs_vnode_release (vfs_vnode_release s np) tgt) True)"
        have fin: "holds s (out q) none 0" if "holds s q (\<lambda>v. (one t) v + (one n1) v) 1" for q
        proof -
          have "(\<lambda>v. (one t) v + (one n1) v)(n1 := (one t) n1 + (one n1) n1 - 1) = one t" by auto
          with holds_release [OF that ln] have "holds s (vfs_vnode_release q (Some n1)) (one t) 1" by simp
          from fr [OF one_released [OF this t(2)]] show ?thesis by (simp add: out_def t(1) n1(1))
        qed
        define lk where "lk = (case ops_of drv s3 n1 of None \<Rightarrow> None | Some ops \<Rightarrow> op_link ops)"
        have q: "holds s q (\<lambda>v. (one t) v + (one n1) v) 1" if o: "lk = Some f" and fc: "f n1 nn t s3 = (err', q)" for f err' q
        proof -
          obtain k where "op_link (drv k) = Some f" using o by (auto simp: lk_def ops_of_def split: option.splits)
          then have "holds s3 q none 0" using link fc holdsD(1) [OF H3] unfolding quiet_def by metis
          from holds_quiet [OF H3 this] show ?thesis .
        qed
        have "\<exists>q. s' = out q \<and> (q = s3 \<or> (\<exists>f err'. lk = Some f \<and> f n1 nn t s3 = (err', q)))"
          using r l1 e1 a b l2 e2 t(1) n1(1) unfolding vfs_path_link_def
          by (auto simp: Let_def lk_def [symmetric] out_def split: if_splits option.splits prod.splits)
        then show ?thesis using fin H3 q by blast
      qed
    qed
  qed
qed

text \<open>Every path call leaves references and buffers as it found them.\<close>

lemma path_calls_quiet:
  assumes ok: "roots_ok 5 s"
  shows "holds s (snd (vfs_path_mkdir drv cwd junk path mode s)) none 0"
    "holds s (snd (vfs_path_unlink drv cwd junk path s)) none 0"
    "holds s (snd (vfs_path_rename drv cwd junk path path' s)) none 0"
    "holds s (snd (vfs_path_utimes drv cwd junk path at mt s)) none 0"
    "holds s (snd (vfs_path_chmod drv cwd junk path mode s)) none 0"
    "holds s (snd (vfs_path_link drv cwd junk path path' s)) none 0"
proof -
  show "holds s (snd (vfs_path_mkdir drv cwd junk path mode s)) none 0" unfolding vfs_path_mkdir_def
    by (rule path_dir_call_quiet [OF ok _ prod.collapse [symmetric]]) (auto dest: mkdir)
  show "holds s (snd (vfs_path_unlink drv cwd junk path s)) none 0" unfolding vfs_path_unlink_def
    by (rule path_dir_call_quiet [OF ok _ prod.collapse [symmetric]]) (auto dest: unlink)
  show "holds s (snd (vfs_path_utimes drv cwd junk path at mt s)) none 0" unfolding vfs_path_utimes_def
    by (rule path_vnode_call_quiet [OF ok _ prod.collapse [symmetric]]) (auto dest: utimes)
  show "holds s (snd (vfs_path_chmod drv cwd junk path mode s)) none 0" unfolding vfs_path_chmod_def
    by (rule path_vnode_call_quiet [OF ok _ prod.collapse [symmetric]]) (auto dest: chmod)
  show "holds s (snd (vfs_path_rename drv cwd junk path path' s)) none 0"
    by (rule rename_quiet [OF ok prod.collapse [symmetric]])
  show "holds s (snd (vfs_path_link drv cwd junk path path' s)) none 0"
    by (rule link_quiet [OF ok prod.collapse [symmetric]])
qed

end

end
