(* ===== verification/Tmpfs.thy ===== *)
theory Tmpfs
  imports Namei Region
begin

text \<open>
  The file system in memory, \<^verbatim>\<open>src/kernel/vfs/tmpfs.c\<close>, with the page access functions of
  \<^verbatim>\<open>src/kernel/core/mm/page_io.c\<close> it copies data with. The state extends that of the file layer by the
  inode table, the count of data pages, the page allocator and the memory, a function from 32-bit
  addresses to bytes (the targets with flat addresses, where \<^verbatim>\<open>size_t\<close> has 32 bits). Every operation holds
  \<^verbatim>\<open>tmpfs_mutex\<close> and is one step. A C string is the list of its characters; a name is cut to 31 of them.
  The time of day is the argument \<open>now\<close>.
\<close>

subsection \<open>Page access\<close>

type_synonym memory = "u32 \<Rightarrow> u8"

text \<open>Reading into \<open>buf\<close>: of an invalid page nothing is read and the buffer keeps what it had.\<close>

definition page_read :: "memory \<Rightarrow> 'p::len word \<Rightarrow> u16 \<Rightarrow> u8 list \<Rightarrow> u16 \<Rightarrow> u8 list" where
  "page_read mem pid off buf len =
     (if pid = PAGE_ID_INVALID \<or> len = 0 then buf
      else map (\<lambda>i. mem (page_linear pid + ucast off + of_nat i)) [0..<unat len] @ drop (unat len) buf)"

definition page_write :: "memory \<Rightarrow> 'p::len word \<Rightarrow> u16 \<Rightarrow> u8 list \<Rightarrow> u16 \<Rightarrow> memory" where
  "page_write mem pid off buf len =
     (if pid = PAGE_ID_INVALID \<or> len = 0 then mem
      else (\<lambda>a. let k = unat (a - (page_linear pid + ucast off)) in if k < unat len then buf ! k else mem a))"

definition page_zero :: "memory \<Rightarrow> 'p::len word \<Rightarrow> u16 \<Rightarrow> u16 \<Rightarrow> memory" where
  "page_zero mem pid off len =
     (if pid = PAGE_ID_INVALID \<or> len = 0 then mem
      else (\<lambda>a. let k = unat (a - (page_linear pid + ucast off)) in if k < unat len then 0 else mem a))"

subsection \<open>Inodes\<close>

record 'w tmpfs_inode =
  ti_name :: string
  ti_type :: vnode_type
  ti_active :: bool
  ti_mode :: u32
  ti_size :: u32
  ti_parent_ino :: u32
  ti_data_page :: 'w
  ti_mtime :: u32
  ti_ctime :: u32
  ti_atime :: u32

record 'w kfs = vfs +
  inodes :: "'w tmpfs_inode list"
  data_pages_used :: u32
  page_state :: "'w page_mm"
  ram :: memory

abbreviation TMPFS_INODE_MAX :: nat where "TMPFS_INODE_MAX \<equiv> 16"
abbreviation TMPFS_NAME_MAX :: nat where "TMPFS_NAME_MAX \<equiv> 31"
abbreviation TMPFS_MAX_PAGES :: u32 where "TMPFS_MAX_PAGES \<equiv> 2"
abbreviation TMPFS_FILE_MAX :: u32 where "TMPFS_FILE_MAX \<equiv> 4096"
abbreviation S_IFMT :: u32 where "S_IFMT \<equiv> 0xF000"
abbreviation S_IFDIR :: u32 where "S_IFDIR \<equiv> 0x4000"
abbreviation S_IFREG :: u32 where "S_IFREG \<equiv> 0x8000"
abbreviation S_IFLNK :: u32 where "S_IFLNK \<equiv> 0xA000"

abbreviation inode_of :: "('w, 'a) kfs_scheme \<Rightarrow> nat \<Rightarrow> 'w tmpfs_inode" where "inode_of s i \<equiv> inodes s ! i"

definition ti_upd :: "('w, 'a) kfs_scheme \<Rightarrow> nat \<Rightarrow> ('w tmpfs_inode \<Rightarrow> 'w tmpfs_inode) \<Rightarrow> ('w, 'a) kfs_scheme" where
  "ti_upd s i f = s\<lparr>inodes := (inodes s)[i := f (inode_of s i)]\<rparr>"

definition ti_modified :: "u32 \<Rightarrow> 'w tmpfs_inode \<Rightarrow> 'w tmpfs_inode" where
  "ti_modified now ti = ti\<lparr>ti_mtime := now, ti_ctime := now\<rparr>"

fun str_eq :: "string \<Rightarrow> string \<Rightarrow> bool" where
  "str_eq (a # as) (b # bs) = (a = b \<and> str_eq as bs)"
| "str_eq as bs = (as = [] \<and> bs = [])"

definition str_copy :: "string \<Rightarrow> nat \<Rightarrow> string" where
  "str_copy src cap = take (cap - 1) src"

text \<open>The scan for a directory entry, and for an entry of a directory about to be removed.\<close>

definition tmpfs_entry :: "('w, 'a) kfs_scheme \<Rightarrow> u32 \<Rightarrow> string \<Rightarrow> nat \<Rightarrow> bool" where
  "tmpfs_entry s dir_ino name i \<longleftrightarrow>
     ti_active (inode_of s i) \<and> ti_parent_ino (inode_of s i) = dir_ino \<and> str_eq (ti_name (inode_of s i)) name"

definition tmpfs_find :: "('w, 'a) kfs_scheme \<Rightarrow> u32 \<Rightarrow> string \<Rightarrow> nat option" where
  "tmpfs_find s dir_ino name = find (tmpfs_entry s dir_ino name) [0..<TMPFS_INODE_MAX]"

definition tmpfs_nonempty :: "('w, 'a) kfs_scheme \<Rightarrow> nat \<Rightarrow> bool" where
  "tmpfs_nonempty s i = list_ex (\<lambda>j. j \<noteq> i \<and> ti_active (inode_of s j) \<and> ti_parent_ino (inode_of s j) = of_nat i) [0..<TMPFS_INODE_MAX]"

definition inode_alloc :: "('w, 'a) kfs_scheme \<Rightarrow> nat option" where
  "inode_alloc s = find (\<lambda>i. \<not> ti_active (inode_of s i)) [1..<TMPFS_INODE_MAX]"

definition release_data_page :: "('p::len word, 'a) kfs_scheme \<Rightarrow> nat \<Rightarrow> ('p word, 'a) kfs_scheme" where
  "release_data_page s i =
     s\<lparr>page_state := region_free (page_state s) PPAP_MEM_RAM_DATA PAGE_SIZE
         (Some \<lparr>rg_base = 0, rg_base_page = ti_data_page (inode_of s i)\<rparr>),
       data_pages_used := data_pages_used s - 1\<rparr>"

definition inode_free :: "('p::len word, 'a) kfs_scheme \<Rightarrow> nat \<Rightarrow> ('p word, 'a) kfs_scheme" where
  "inode_free s ino =
     (let s = (if ti_data_page (inode_of s ino) \<noteq> PAGE_ID_INVALID then release_data_page s ino else s)
      in ti_upd s ino (\<lambda>ti. ti\<lparr>ti_active := False, ti_data_page := PAGE_ID_INVALID, ti_size := 0\<rparr>))"

subsection \<open>Mounting and lookup\<close>

definition tmpfs_mount :: "u32 \<Rightarrow> nat \<Rightarrow> u32 \<Rightarrow> ('p::len word, 'a) kfs_scheme \<Rightarrow> int \<times> ('p word, 'a) kfs_scheme" where
  "tmpfs_mount now mnt dev_data s =
     (case vfs_vnode_alloc s of
        (None, s) \<Rightarrow> (- ENOMEM, s)
      | (Some root, s) \<Rightarrow>
          let s = s\<lparr>inodes := map (\<lambda>ti. ti\<lparr>ti_active := False, ti_data_page := PAGE_ID_INVALID\<rparr>) (inodes s),
                data_pages_used := 0\<rparr>;
              s = ti_upd s 0 (\<lambda>ti. ti\<lparr>ti_active := True, ti_type := VNODE_DIR, ti_mode := S_IFDIR OR 0x1ED, ti_size := 0,
                ti_parent_ino := 0, ti_data_page := PAGE_ID_INVALID, ti_mtime := now, ti_ctime := now, ti_atime := now, ti_name := []\<rparr>);
              s = vn_upd s root (\<lambda>vn. vn\<lparr>vn_type := VNODE_DIR, vn_mode := S_IFDIR OR 0x1ED, vn_ino := 0, vn_size := 0,
                vn_mount := Some mnt, vn_fs_priv := 0\<rparr>)
          in (0, mnt_upd s mnt (\<lambda>m. m\<lparr>mnt_root := Some root\<rparr>)))"

definition tmpfs_lookup :: "nat \<Rightarrow> string \<Rightarrow> ('w, 'a) kfs_scheme \<Rightarrow> int \<times> nat option \<times> ('w, 'a) kfs_scheme" where
  "tmpfs_lookup dir name s =
     (let dir_ino = vn_ino (vnode_of s dir); dir_mnt = vn_mount (vnode_of s dir) in
      case vfs_vnode_alloc s of
        (None, s) \<Rightarrow> (- ENOMEM, None, s)
      | (Some v, s) \<Rightarrow>
          (case tmpfs_find s dir_ino name of
             Some i \<Rightarrow>
               (0, Some v, vn_upd s v (\<lambda>vn. vn\<lparr>vn_ino := of_nat i, vn_type := ti_type (inode_of s i), vn_mode := ti_mode (inode_of s i),
                  vn_size := ti_size (inode_of s i), vn_mount := dir_mnt, vn_fs_priv := 0\<rparr>))
           | None \<Rightarrow> (- ENOENT, None, vfs_vnode_release s (Some v))))"

subsection \<open>Data\<close>

lemma chunk_step:
  fixes m n copied :: u16
  assumes "copied < n"
  defines "chunk \<equiv> if m < n - copied then m else n - copied"
  shows "unat chunk = min (unat m) (unat n - unat copied)" "unat (copied + chunk) = unat copied + unat chunk"
proof -
  have c: "unat copied < unat n" using assms(1) by (simp add: word_less_nat_alt)
  have d: "unat (n - copied) = unat n - unat copied" using c by (simp add: unat_sub word_le_nat_alt)
  show e: "unat chunk = min (unat m) (unat n - unat copied)" unfolding chunk_def by (simp add: word_less_nat_alt d)
  have "unat copied + unat chunk < 65536" using e c unat_u16_less [of n] by linarith
  then show "unat (copied + chunk) = unat copied + unat chunk" by (simp add: unat_word_ariths)
qed

lemma chunk_progress:
  fixes m n copied :: u16
  assumes "copied < n" "0 < m"
  shows "unat n - unat (copied + (if m < n - copied then m else n - copied)) < unat n - unat copied"
proof -
  have "0 < unat m" "unat copied < unat n" using assms by (auto simp: word_less_nat_alt)
  then show ?thesis using chunk_step [OF assms(1), of m] by simp
qed

text \<open>The copies go through a kernel buffer of 64 bytes, the zero fill through one of 32.\<close>

function copy_loop ::
  "'p::len word \<Rightarrow> u16 \<Rightarrow> 'p word \<Rightarrow> u16 \<Rightarrow> u16 \<Rightarrow> u16 \<Rightarrow> u8 list \<Rightarrow> memory \<Rightarrow> memory" where
  "copy_loop src src_off dst dst_off n copied buf mem =
     (if copied < n then
        let chunk = n - copied;
            chunk = (if 64 < chunk then 64 else chunk);
            buf = page_read mem src (src_off + copied) buf chunk;
            mem = page_write mem dst (dst_off + copied) buf chunk
        in copy_loop src src_off dst dst_off n (copied + chunk) buf mem
      else mem)"
  by auto
termination
proof (relation "measure (\<lambda>(src, src_off, dst, dst_off, n, copied, buf, mem). unat n - unat copied)", simp)
qed (simp only: in_measure prod.case, rule chunk_progress; simp)

function zero_loop :: "'p::len word \<Rightarrow> u16 \<Rightarrow> u16 \<Rightarrow> u16 \<Rightarrow> memory \<Rightarrow> memory" where
  "zero_loop dst dst_off n zero_off mem =
     (if zero_off < n then
        let zero_len = n - zero_off;
            zero_len = (if 32 < zero_len then 32 else zero_len);
            mem = page_write mem dst (dst_off + zero_off) (replicate 32 0) zero_len
        in zero_loop dst dst_off n (zero_off + zero_len) mem
      else mem)"
  by auto
termination
proof (relation "measure (\<lambda>(dst, dst_off, n, zero_off, mem). unat n - unat zero_off)", simp)
qed (simp only: in_measure prod.case, rule chunk_progress; simp)

declare copy_loop.simps [simp del] zero_loop.simps [simp del]

text \<open>\<open>buf\<close> is what the kernel buffer holds before it is first filled.\<close>

definition tmpfs_read ::
  "u8 list \<Rightarrow> nat \<Rightarrow> 'p::len word \<Rightarrow> u16 \<Rightarrow> u32 \<Rightarrow> u32 \<Rightarrow> ('p word, 'a) kfs_scheme \<Rightarrow> int \<times> ('p word, 'a) kfs_scheme" where
  "tmpfs_read buf v page page_off n off s =
     (if vn_type (vnode_of s v) = VNODE_DIR then (- EISDIR, s)
      else
        let ti = inode_of s (unat (vn_ino (vnode_of s v))) in
        if ti_size ti \<le> off then (0, s)
        else
          let n = (if ti_size ti < off + n then ti_size ti - off else n) in
          (sint n, s\<lparr>ram :=
             (if ti_data_page ti \<noteq> PAGE_ID_INVALID then copy_loop (ti_data_page ti) (ucast off) page page_off (ucast n) 0 buf (ram s)
              else zero_loop page page_off (ucast n) 0 (ram s))\<rparr>))"

text \<open>The page of a file that has none: \<^verbatim>\<open>tmpfs_write\<close> takes one on the first write.\<close>

definition first_page :: "nat \<Rightarrow> ('p::len word, 'a) kfs_scheme \<Rightarrow> int \<times> ('p word, 'a) kfs_scheme" where
  "first_page ino s =
     (if ti_data_page (inode_of s ino) = PAGE_ID_INVALID then
        if TMPFS_MAX_PAGES \<le> data_pages_used s then (- ENOSPC, s)
        else
          let (rc, r, pm) = region_alloc (page_state s) PPAP_MEM_RAM_DATA PAGE_SIZE 0 (Some \<lparr>rg_base = 0, rg_base_page = 0\<rparr>);
              s = s\<lparr>page_state := pm\<rparr>
          in if rc < 0 then (- ENOMEM, s)
             else
               let pid = rg_base_page (the r);
                   s = ti_upd s ino (\<lambda>ti. ti\<lparr>ti_data_page := pid\<rparr>)
               in (0, s\<lparr>ram := page_zero (ram s) pid 0 (ucast PAGE_SIZE), data_pages_used := data_pages_used s + 1\<rparr>)
      else (0, s))"

definition tmpfs_write ::
  "u32 \<Rightarrow> u8 list \<Rightarrow> nat \<Rightarrow> 'p::len word \<Rightarrow> u16 \<Rightarrow> u32 \<Rightarrow> u32 \<Rightarrow> ('p word, 'a) kfs_scheme \<Rightarrow> int \<times> ('p word, 'a) kfs_scheme" where
  "tmpfs_write now buf v page page_off n off s =
     (if vn_type (vnode_of s v) = VNODE_DIR then (- EISDIR, s)
      else
        let ino = unat (vn_ino (vnode_of s v));
            s = ti_upd s ino (ti_modified now)
        in if TMPFS_FILE_MAX < off + n \<and> TMPFS_FILE_MAX \<le> off then (- ENOSPC, s)
           else
             let n = (if TMPFS_FILE_MAX < off + n then TMPFS_FILE_MAX - off else n);
                 (rc, s) = first_page ino s
             in if rc < 0 then (rc, s)
                else
                  let s = s\<lparr>ram := copy_loop page page_off (ti_data_page (inode_of s ino)) (ucast off) (ucast n) 0 buf (ram s)\<rparr>;
                      s = (if ti_size (inode_of s ino) < off + n
                           then vn_upd (ti_upd s ino (\<lambda>ti. ti\<lparr>ti_size := off + n\<rparr>)) v (\<lambda>vn. vn\<lparr>vn_size := off + n\<rparr>)
                           else s)
                  in (sint n, s))"

definition tmpfs_truncate :: "u32 \<Rightarrow> nat \<Rightarrow> u32 \<Rightarrow> ('p::len word, 'a) kfs_scheme \<Rightarrow> int \<times> ('p word, 'a) kfs_scheme" where
  "tmpfs_truncate now v len s =
     (let ino = unat (vn_ino (vnode_of s v)) in
      if ti_type (inode_of s ino) = VNODE_DIR then (- EISDIR, s)
      else
        let s = (if len = 0 \<and> ti_data_page (inode_of s ino) \<noteq> PAGE_ID_INVALID
                 then ti_upd (release_data_page s ino) ino (\<lambda>ti. ti\<lparr>ti_data_page := PAGE_ID_INVALID\<rparr>) else s);
            s = ti_upd s ino (\<lambda>ti. ti\<lparr>ti_size := len\<rparr>);
            s = vn_upd s v (\<lambda>vn. vn\<lparr>vn_size := len\<rparr>)
        in (0, ti_upd s ino (ti_modified now)))"

subsection \<open>Directories\<close>

record dirent =
  d_ino :: u32
  d_type :: nat
  d_name :: string

abbreviation DT_DIR :: nat where "DT_DIR \<equiv> 4"
abbreviation DT_REG :: nat where "DT_REG \<equiv> 8"
abbreviation DT_LNK :: nat where "DT_LNK \<equiv> 10"

text \<open>The loop of \<^verbatim>\<open>tmpfs_readdir\<close> from slot \<open>i\<close>; \<open>out\<close> are the entries written so far.\<close>

function readdir_loop ::
  "('w, 'a) kfs_scheme \<Rightarrow> u32 \<Rightarrow> nat \<Rightarrow> u32 \<Rightarrow> nat \<Rightarrow> u32 \<Rightarrow> dirent list \<Rightarrow> dirent list \<times> u32" where
  "readdir_loop s dir_ino max_entries skip i seen out =
     (if i < TMPFS_INODE_MAX \<and> length out < max_entries then
        let ti = inode_of s i in
        if \<not> ti_active ti \<or> ti_parent_ino ti \<noteq> dir_ino \<or> of_nat i = dir_ino
        then readdir_loop s dir_ino max_entries skip (i + 1) seen out
        else if seen < skip then readdir_loop s dir_ino max_entries skip (i + 1) (seen + 1) out
        else readdir_loop s dir_ino max_entries skip (i + 1) (seen + 1)
               (out @ [\<lparr>d_ino = of_nat i, d_type = (if ti_type ti = VNODE_DIR then DT_DIR else DT_REG),
                        d_name = str_copy (ti_name ti) (VFS_NAME_MAX + 1)\<rparr>])
      else (out, seen))"
  by auto
termination by (relation "measure (\<lambda>(s, d, m, k, i, n, out). TMPFS_INODE_MAX - i)") auto

declare readdir_loop.simps [simp del]

text \<open>The entries and the new cookie; the number of entries is the return value.\<close>

definition tmpfs_readdir :: "nat \<Rightarrow> nat \<Rightarrow> u32 \<Rightarrow> ('w, 'a) kfs_scheme \<Rightarrow> dirent list \<times> u32" where
  "tmpfs_readdir dir max_entries cookie s = readdir_loop s (vn_ino (vnode_of s dir)) max_entries cookie 0 0 []"

text \<open>What \<^verbatim>\<open>tmpfs_create\<close> and \<^verbatim>\<open>tmpfs_mkdir\<close> do to the inode table.\<close>

definition inode_make ::
  "u32 \<Rightarrow> vnode_type \<Rightarrow> u32 \<Rightarrow> u32 \<Rightarrow> string \<Rightarrow> ('p::len word, 'a) kfs_scheme \<Rightarrow> int \<times> nat \<times> ('p word, 'a) kfs_scheme" where
  "inode_make now kind mode dir_ino name s =
     (if tmpfs_find s dir_ino name \<noteq> None then (- EEXIST, 0, s)
      else
        (case inode_alloc s of
           None \<Rightarrow> (- ENOSPC, 0, s)
         | Some idx \<Rightarrow>
             let s = ti_upd s idx (\<lambda>_. \<lparr>ti_name = str_copy name (TMPFS_NAME_MAX + 1), ti_type = kind, ti_active = True,
                   ti_mode = mode, ti_size = 0, ti_parent_ino = dir_ino, ti_data_page = PAGE_ID_INVALID,
                   ti_mtime = now, ti_ctime = now, ti_atime = now\<rparr>)
             in (0, idx, ti_upd s (unat dir_ino) (ti_modified now))))"

definition tmpfs_create ::
  "u32 \<Rightarrow> nat \<Rightarrow> string \<Rightarrow> u32 \<Rightarrow> ('p::len word, 'a) kfs_scheme \<Rightarrow> int \<times> nat option \<times> ('p word, 'a) kfs_scheme" where
  "tmpfs_create now dir name mode s =
     (let dir_ino = vn_ino (vnode_of s dir); dir_mnt = vn_mount (vnode_of s dir); mode = S_IFREG OR (mode AND 0x1FF) in
      case vfs_vnode_alloc s of
        (None, s) \<Rightarrow> (- ENOMEM, None, s)
      | (Some v, s) \<Rightarrow>
          (case inode_make now VNODE_FILE mode dir_ino name s of
             (rc, idx, s) \<Rightarrow>
               if rc < 0 then (rc, None, vfs_vnode_release s (Some v))
               else (0, Some v, vn_upd s v (\<lambda>vn. vn\<lparr>vn_ino := of_nat idx, vn_type := VNODE_FILE, vn_mode := mode,
                       vn_size := 0, vn_mount := dir_mnt, vn_fs_priv := 0\<rparr>))))"

definition tmpfs_mkdir :: "u32 \<Rightarrow> nat \<Rightarrow> string \<Rightarrow> u32 \<Rightarrow> ('p::len word, 'a) kfs_scheme \<Rightarrow> int \<times> ('p word, 'a) kfs_scheme" where
  "tmpfs_mkdir now dir name mode s =
     (case inode_make now VNODE_DIR (S_IFDIR OR (mode AND 0x1FF)) (vn_ino (vnode_of s dir)) name s of (rc, _, s) \<Rightarrow> (rc, s))"

definition tmpfs_unlink :: "u32 \<Rightarrow> nat \<Rightarrow> string \<Rightarrow> ('p::len word, 'a) kfs_scheme \<Rightarrow> int \<times> ('p word, 'a) kfs_scheme" where
  "tmpfs_unlink now dir name s =
     (let dir_ino = vn_ino (vnode_of s dir) in
      case tmpfs_find s dir_ino name of
        None \<Rightarrow> (- ENOENT, s)
      | Some i \<Rightarrow>
          if ti_type (inode_of s i) = VNODE_DIR \<and> tmpfs_nonempty s i then (- ENOTEMPTY, s)
          else (0, ti_upd (inode_free s i) (unat dir_ino) (ti_modified now)))"

definition tmpfs_rename ::
  "u32 \<Rightarrow> nat \<Rightarrow> string \<Rightarrow> nat \<Rightarrow> string \<Rightarrow> ('p::len word, 'a) kfs_scheme \<Rightarrow> int \<times> ('p word, 'a) kfs_scheme" where
  "tmpfs_rename now old_dir old_name new_dir new_name s =
     (let old_ino = vn_ino (vnode_of s old_dir); new_ino = vn_ino (vnode_of s new_dir) in
      case tmpfs_find s old_ino old_name of
        None \<Rightarrow> (- ENOENT, s)
      | Some src \<Rightarrow>
          let dst = tmpfs_find s new_ino new_name in
          if (case dst of None \<Rightarrow> False | Some i \<Rightarrow> ti_type (inode_of s i) = VNODE_DIR \<and> tmpfs_nonempty s i)
          then (- ENOTEMPTY, s)
          else
            let s = (case dst of None \<Rightarrow> s | Some i \<Rightarrow> inode_free s i);
                s = ti_upd s src (\<lambda>ti. ti\<lparr>ti_parent_ino := new_ino, ti_ctime := now,
                      ti_name := str_copy new_name (TMPFS_NAME_MAX + 1)\<rparr>);
                s = ti_upd s (unat old_ino) (ti_modified now)
            in (0, if new_ino \<noteq> old_ino then ti_upd s (unat new_ino) (ti_modified now) else s))"

subsection \<open>Attributes\<close>

record stat_buf =
  st_ino :: u32
  st_mode :: u32
  st_nlink :: u32
  st_size :: u32
  st_mtime :: u32
  st_ctime :: u32
  st_atime :: u32

definition tmpfs_stat :: "nat \<Rightarrow> ('w, 'a) kfs_scheme \<Rightarrow> stat_buf" where
  "tmpfs_stat v s =
     (let ti = inode_of s (unat (vn_ino (vnode_of s v)))
      in \<lparr>st_ino = vn_ino (vnode_of s v), st_mode = ti_mode ti, st_nlink = 1, st_size = ti_size ti, st_mtime = ti_mtime ti,
          st_ctime = ti_ctime ti, st_atime = ti_atime ti\<rparr>)"

record kernel_statfs =
  f_type :: u32
  f_bsize :: u32
  f_frsize :: u32
  f_blocks :: u32
  f_bfree :: u32
  f_bavail :: u32
  f_files :: u32
  f_ffree :: u32
  f_namelen :: u32
  f_flags :: u32

definition tmpfs_statfs :: "('w, 'a) kfs_scheme \<Rightarrow> kernel_statfs" where
  "tmpfs_statfs s =
     (let active = of_nat (length (filter (\<lambda>i. ti_active (inode_of s i)) [0..<TMPFS_INODE_MAX]))
      in \<lparr>f_type = 0x01021994, f_bsize = PAGE_SIZE, f_frsize = PAGE_SIZE, f_blocks = TMPFS_MAX_PAGES,
          f_bfree = TMPFS_MAX_PAGES - data_pages_used s, f_bavail = TMPFS_MAX_PAGES - data_pages_used s,
          f_files = of_nat TMPFS_INODE_MAX, f_ffree = of_nat TMPFS_INODE_MAX - active, f_namelen = of_nat TMPFS_NAME_MAX, f_flags = 0\<rparr>)"

definition tmpfs_utimes :: "u32 \<Rightarrow> nat \<Rightarrow> u32 \<Rightarrow> u32 \<Rightarrow> ('w, 'a) kfs_scheme \<Rightarrow> int \<times> ('w, 'a) kfs_scheme" where
  "tmpfs_utimes now v atime mtime s =
     (0, ti_upd s (unat (vn_ino (vnode_of s v))) (\<lambda>ti. ti\<lparr>ti_atime := atime, ti_mtime := mtime, ti_ctime := now\<rparr>))"

definition tmpfs_chmod :: "u32 \<Rightarrow> nat \<Rightarrow> u32 \<Rightarrow> ('w, 'a) kfs_scheme \<Rightarrow> int \<times> ('w, 'a) kfs_scheme" where
  "tmpfs_chmod now v mode s =
     (let ino = unat (vn_ino (vnode_of s v));
          m = (ti_mode (inode_of s ino) AND S_IFMT) OR (mode AND 0xFFF);
          s = ti_upd s ino (\<lambda>ti. ti\<lparr>ti_mode := m, ti_ctime := now\<rparr>)
      in (0, vn_upd s v (\<lambda>vn. vn\<lparr>vn_mode := m\<rparr>)))"

definition tmpfs_ops :: "u32 \<Rightarrow> ('p::len word, 'a) kfs_scheme fs_ops" where
  "tmpfs_ops now = \<lparr>op_lookup = Some tmpfs_lookup, op_readlink = None, op_mkdir = Some (tmpfs_mkdir now), op_unlink = Some (tmpfs_unlink now),
     op_rename = Some (tmpfs_rename now), op_utimes = Some (tmpfs_utimes now), op_chmod = Some (tmpfs_chmod now), op_link = None\<rparr>"

end
