(* ===== verification/Romfs.thy ===== *)
theory Romfs
  imports Tmpfs
begin

text \<open>
  The read-only file system, \<^verbatim>\<open>src/kernel/vfs/romfs.c\<close>, on an image in memory as
  \<^verbatim>\<open>romfs_format.h\<close> lays it out. The words of the image have the byte order of the target, \<open>be\<close> tells
  whether it is big-endian. Directories are chains of siblings; the code follows at most 1024 links.
\<close>

subsection \<open>The image\<close>

abbreviation ROMFS_MAGIC :: u32 where "ROMFS_MAGIC \<equiv> 0x50504653"
abbreviation ROMFS_TYPE_DIR :: u32 where "ROMFS_TYPE_DIR \<equiv> 1"
abbreviation ROMFS_TYPE_SYMLINK :: u32 where "ROMFS_TYPE_SYMLINK \<equiv> 2"
abbreviation ROMFS_NAME_OFF :: u32 where "ROMFS_NAME_OFF \<equiv> 20"

record romfs_super =
  sb_magic :: u32
  sb_size :: u32
  sb_file_count :: u32
  sb_root_off :: u32

record romfs_entry =
  re_next_off :: u32
  re_type :: u32
  re_size :: u32
  re_child_off :: u32
  re_name_len :: u32

definition load32 :: "bool \<Rightarrow> memory \<Rightarrow> u32 \<Rightarrow> u32" where
  "load32 be mem a =
     (let b = (\<lambda>i. ucast (mem (a + i)) :: u32) in
      if be then push_bit 24 (b 0) OR push_bit 16 (b 1) OR push_bit 8 (b 2) OR b 3
      else b 0 OR push_bit 8 (b 1) OR push_bit 16 (b 2) OR push_bit 24 (b 3))"

definition get_super :: "bool \<Rightarrow> memory \<Rightarrow> u32 \<Rightarrow> romfs_super" where
  "get_super be mem base =
     \<lparr>sb_magic = load32 be mem base, sb_size = load32 be mem (base + 4), sb_file_count = load32 be mem (base + 8),
      sb_root_off = load32 be mem (base + 12)\<rparr>"

definition get_entry :: "bool \<Rightarrow> memory \<Rightarrow> u32 \<Rightarrow> u32 \<Rightarrow> romfs_entry" where
  "get_entry be mem base off =
     (let e = base + off in
      \<lparr>re_next_off = load32 be mem e, re_type = load32 be mem (e + 4), re_size = load32 be mem (e + 8),
       re_child_off = load32 be mem (e + 12), re_name_len = load32 be mem (e + 16)\<rparr>)"

text \<open>Addresses of the name and the data of the entry at \<open>off\<close>.\<close>

definition get_name :: "u32 \<Rightarrow> u32 \<Rightarrow> u32" where
  "get_name base off = base + off + ROMFS_NAME_OFF"

definition get_data :: "u32 \<Rightarrow> u32 \<Rightarrow> romfs_entry \<Rightarrow> u32" where
  "get_data base off e = base + off + (ROMFS_NAME_OFF + ((re_name_len e + 1 + 3) AND NOT 3))"

definition byte_char :: "u8 \<Rightarrow> char" where
  "byte_char b = char_of (unat b)"

definition load_bytes :: "memory \<Rightarrow> u32 \<Rightarrow> nat \<Rightarrow> u8 list" where
  "load_bytes mem a n = map (\<lambda>i. mem (a + of_nat i)) [0..<n]"

text \<open>The comparison of the name in the image with a C string.\<close>

fun name_matches :: "memory \<Rightarrow> u32 \<Rightarrow> string \<Rightarrow> bool" where
  "name_matches mem a [] = (mem a = 0)"
| "name_matches mem a (c # cs) = (mem a \<noteq> 0 \<and> byte_char (mem a) = c \<and> name_matches mem (a + 1) cs)"

subsection \<open>Operations\<close>

definition vnode_from_entry ::
  "nat option \<Rightarrow> u32 \<Rightarrow> romfs_entry \<Rightarrow> u32 \<Rightarrow> 'a vfs_scheme \<Rightarrow> nat option \<times> 'a vfs_scheme" where
  "vnode_from_entry mnt base e off s =
     (case vfs_vnode_alloc s of
        (None, s) \<Rightarrow> (None, s)
      | (Some v, s) \<Rightarrow>
          (Some v, vn_upd s v (\<lambda>vn. let vn = vn\<lparr>vn_ino := off, vn_size := re_size e, vn_mount := mnt\<rparr> in
             if re_type e = ROMFS_TYPE_DIR then vn\<lparr>vn_type := VNODE_DIR, vn_mode := S_IFDIR OR 0x1ED\<rparr>
             else if re_type e = ROMFS_TYPE_SYMLINK then vn\<lparr>vn_type := VNODE_SYMLINK, vn_mode := S_IFLNK OR 0x1FF\<rparr>
             else vn\<lparr>vn_type := VNODE_FILE, vn_mode := S_IFREG OR 0x1A4, vn_xip_addr := get_data base off e\<rparr>)))"

definition romfs_mount :: "bool \<Rightarrow> nat \<Rightarrow> u32 \<Rightarrow> ('w, 'a) kfs_scheme \<Rightarrow> int \<times> ('w, 'a) kfs_scheme" where
  "romfs_mount be mnt dev_data s =
     (if dev_data = 0 then (- EINVAL, s)
      else
        let sb = get_super be (ram s) dev_data in
        if sb_magic sb \<noteq> ROMFS_MAGIC then (- EINVAL, s)
        else
          let s = mnt_upd s mnt (\<lambda>m. m\<lparr>mnt_sb_priv := dev_data\<rparr>);
              root_e = get_entry be (ram s) dev_data (sb_root_off sb)
          in (case vnode_from_entry (Some mnt) dev_data root_e (sb_root_off sb) s of
                (None, s) \<Rightarrow> (- ENOMEM, s)
              | (Some root, s) \<Rightarrow> (0, mnt_upd s mnt (\<lambda>m. m\<lparr>mnt_root := Some root\<rparr>))))"

text \<open>The address of the image a vnode is on.\<close>

definition image_base :: "'a vfs_scheme \<Rightarrow> nat \<Rightarrow> u32" where
  "image_base s v = mnt_sb_priv (mount_of s (the (vn_mount (vnode_of s v))))"

function romfs_find :: "bool \<Rightarrow> memory \<Rightarrow> u32 \<Rightarrow> string \<Rightarrow> u32 \<Rightarrow> nat \<Rightarrow> u32 option" where
  "romfs_find be mem base name child_off iter =
     (if child_off \<noteq> 0 \<and> iter < 1024 then
        if name_matches mem (get_name base child_off) name then Some child_off
        else romfs_find be mem base name (re_next_off (get_entry be mem base child_off)) (iter + 1)
      else None)"
  by auto
termination by (relation "measure (\<lambda>(be, mem, base, name, c, iter). 1024 - iter)") auto

declare romfs_find.simps [simp del]

definition romfs_lookup :: "bool \<Rightarrow> nat \<Rightarrow> string \<Rightarrow> ('w, 'a) kfs_scheme \<Rightarrow> int \<times> nat option \<times> ('w, 'a) kfs_scheme" where
  "romfs_lookup be dir name s =
     (let base = image_base s dir;
          dir_e = get_entry be (ram s) base (vn_ino (vnode_of s dir))
      in case romfs_find be (ram s) base name (re_child_off dir_e) 0 of
           None \<Rightarrow> (- ENOENT, None, s)
         | Some off \<Rightarrow>
             (case vnode_from_entry (vn_mount (vnode_of s dir)) base (get_entry be (ram s) base off) off s of
                (None, s) \<Rightarrow> (- ENOMEM, None, s)
              | (Some v, s) \<Rightarrow> (0, Some v, s)))"

definition romfs_read ::
  "bool \<Rightarrow> nat \<Rightarrow> 'p::len word \<Rightarrow> u16 \<Rightarrow> u32 \<Rightarrow> u32 \<Rightarrow> ('p word, 'a) kfs_scheme \<Rightarrow> int \<times> ('p word, 'a) kfs_scheme" where
  "romfs_read be v page page_off n off s =
     (let vn = vnode_of s v in
      if vn_type vn = VNODE_DIR then (- EISDIR, s)
      else if vn_size vn \<le> off then (0, s)
      else
        let n = (if vn_size vn < off + n then vn_size vn - off else n);
            base = image_base s v;
            data = get_data base (vn_ino vn) (get_entry be (ram s) base (vn_ino vn));
            len = ucast n :: u16
        in (sint n, s\<lparr>ram := page_write (ram s) page page_off (load_bytes (ram s) (data + off) (unat len)) len\<rparr>))"

function romfs_readdir_loop :: "bool \<Rightarrow> memory \<Rightarrow> u32 \<Rightarrow> nat \<Rightarrow> u32 \<Rightarrow> nat \<Rightarrow> dirent list \<Rightarrow> dirent list \<times> u32" where
  "romfs_readdir_loop be mem base max_entries child_off iter out =
     (if child_off \<noteq> 0 \<and> length out < max_entries \<and> iter < 1024 then
        let child = get_entry be mem base child_off;
            nlen = min (unat (re_name_len child)) VFS_NAME_MAX;
            d = \<lparr>d_ino = child_off,
                 d_type = (if re_type child = ROMFS_TYPE_DIR then DT_DIR else if re_type child = ROMFS_TYPE_SYMLINK then DT_LNK else DT_REG),
                 d_name = map byte_char (takeWhile (\<lambda>b. b \<noteq> 0) (load_bytes mem (get_name base child_off) nlen))\<rparr>
        in romfs_readdir_loop be mem base max_entries (re_next_off child) (iter + 1) (out @ [d])
      else (out, child_off))"
  by auto
termination by (relation "measure (\<lambda>(be, mem, base, m, c, iter, out). 1024 - iter)") auto

declare romfs_readdir_loop.simps [simp del]

definition romfs_readdir :: "bool \<Rightarrow> nat \<Rightarrow> nat \<Rightarrow> u32 \<Rightarrow> ('w, 'a) kfs_scheme \<Rightarrow> dirent list \<times> u32" where
  "romfs_readdir be dir max_entries cookie s =
     (let base = image_base s dir;
          dir_e = get_entry be (ram s) base (vn_ino (vnode_of s dir))
      in romfs_readdir_loop be (ram s) base max_entries (if cookie = 0 then re_child_off dir_e else cookie) 0 [])"

definition romfs_stat :: "nat \<Rightarrow> 'a vfs_scheme \<Rightarrow> stat_buf" where
  "romfs_stat v s =
     \<lparr>st_ino = vn_ino (vnode_of s v), st_mode = vn_mode (vnode_of s v), st_nlink = 1, st_size = vn_size (vnode_of s v),
      st_mtime = 0, st_ctime = 0, st_atime = 0\<rparr>"

definition romfs_readlink :: "bool \<Rightarrow> nat \<Rightarrow> nat \<Rightarrow> ('w, 'a) kfs_scheme \<Rightarrow> int + string" where
  "romfs_readlink be v bufsiz s =
     (let vn = vnode_of s v in
      if vn_type vn \<noteq> VNODE_SYMLINK then Inl (- EINVAL)
      else
        let base = image_base s v;
            data = get_data base (vn_ino vn) (get_entry be (ram s) base (vn_ino vn))
        in Inr (map byte_char (load_bytes (ram s) data (min (unat (vn_size vn)) bufsiz))))"

definition romfs_statfs :: "bool \<Rightarrow> nat \<Rightarrow> ('w, 'a) kfs_scheme \<Rightarrow> kernel_statfs" where
  "romfs_statfs be mnt s =
     (let sb = get_super be (ram s) (mnt_sb_priv (mount_of s mnt))
      in \<lparr>f_type = 0x7275, f_bsize = PAGE_SIZE, f_frsize = PAGE_SIZE, f_blocks = (sb_size sb + PAGE_SIZE - 1) div PAGE_SIZE,
          f_bfree = 0, f_bavail = 0, f_files = sb_file_count sb, f_ffree = 0, f_namelen = of_nat VFS_NAME_MAX, f_flags = 1\<rparr>)"

definition romfs_ops :: "bool \<Rightarrow> ('w, 'a) kfs_scheme fs_ops" where
  "romfs_ops be = \<lparr>op_lookup = Some (romfs_lookup be), op_readlink = Some (romfs_readlink be), op_mkdir = None, op_unlink = None,
     op_rename = None, op_utimes = None, op_chmod = None, op_link = None\<rparr>"

text \<open>The two drivers by their number: romfs is 0, the others are tmpfs.\<close>

definition mem_drivers :: "bool \<Rightarrow> u32 \<Rightarrow> nat \<Rightarrow> ('p::len word, 'a) kfs_scheme fs_ops" where
  "mem_drivers be now k = (if k = 0 then romfs_ops be else tmpfs_ops now)"

subsection \<open>References held by the drivers\<close>

text \<open>The part of the state that path resolution counts references in.\<close>

definition same_vfs :: "'a vfs_scheme \<Rightarrow> 'a vfs_scheme \<Rightarrow> bool" where
  "same_vfs s t \<longleftrightarrow> vnodes t = vnodes s \<and> vn_free t = vn_free s \<and> mounts t = mounts s \<and> mount_count t = mount_count s
     \<and> scratch_free t = scratch_free s"

lemma same_vfs_holds: "same_vfs s t \<Longrightarrow> holds s0 s d n \<Longrightarrow> holds s0 t d n"
  by (simp add: same_vfs_def holds_def vn_ok_def refs_def)

lemma same_vfs_refl [simp]: "same_vfs s s"
  by (simp add: same_vfs_def)

lemma same_vfs_trans: "same_vfs s t \<Longrightarrow> same_vfs t u \<Longrightarrow> same_vfs s u"
  by (simp add: same_vfs_def)

lemma kfs_updates_same [simp]:
  fixes s t :: "('p::len word, 'a) kfs_scheme"
  shows "same_vfs s (ti_upd t i f) = same_vfs s t" "same_vfs s (t\<lparr>ram := m\<rparr>) = same_vfs s t" "same_vfs s (t\<lparr>page_state := p\<rparr>) = same_vfs s t"
    "same_vfs s (t\<lparr>data_pages_used := k\<rparr>) = same_vfs s t" "same_vfs s (release_data_page t i) = same_vfs s t"
    "same_vfs s (inode_free t i) = same_vfs s t"
  by (simp_all add: same_vfs_def ti_upd_def release_data_page_def inode_free_def Let_def)

lemma vnode_alloc_holds:
  assumes ok: "vn_ok s" and a: "vfs_vnode_alloc s = (r, s')"
  shows "case r of None \<Rightarrow> s' = s | Some v \<Rightarrow> v < length (vnodes s) \<and> refs s v = 0 \<and> holds s s' (one v) 0"
proof (cases "vn_free s")
  case Nil
  then show ?thesis using a by (auto simp: vfs_vnode_alloc_def)
next
  case (Cons v vs)
  define t where "t = vn_upd (s\<lparr>vn_free := vs\<rparr>) v (\<lambda>_. \<lparr>vn_type = VNODE_FILE, vn_size = 0, vn_mode = 0, vn_ino = 0, vn_refcnt = 1, vn_fs_priv = 0,
           vn_mount = None, vn_xip_addr = 0\<rparr>)"
  have r: "r = Some v" "s' = t" using a Cons by (auto simp: vfs_vnode_alloc_def t_def)
  have F: "distinct (v # vs)" "set (v # vs) = {w. w < length (vnodes s) \<and> refs s w = 0}" using ok Cons by (auto simp: vn_ok_def)
  have v: "v < length (vnodes s)" "refs s v = 0" using F(2) by auto
  have rt: "refs t w = (if w = v then 1 else refs s w)" for w
    using v(1) by (auto simp: t_def refs_upd) (simp add: refs_def)
  have fr: "length (vnodes t) = length (vnodes s)" "vn_free t = vs" "mounts t = mounts s" "mount_count t = mount_count s" "scratch_free t = scratch_free s"
    by (simp_all add: t_def)
  have "set vs = set (v # vs) - {v}" using F(1) by auto
  also have "\<dots> = {w. w < length (vnodes s) \<and> refs t w = 0}" unfolding F(2) using rt by auto
  finally have "vn_ok t" using F(1) by (simp add: vn_ok_def fr)
  moreover have "vnode_of t w = vnode_of s w" if "0 < refs s w" for w using that v(2) by (auto simp: t_def vnode_of_upd)
  ultimately have "holds s t (one v) 0" unfolding holds_def fr using rt v by auto
  then show ?thesis using v r by simp
qed

text \<open>Filling in a vnode that nobody held.\<close>

lemma vn_fill_holds:
  assumes h: "holds s0 s d n" and v: "refs s0 v = 0" and f: "\<And>x. vn_refcnt (f x) = vn_refcnt x"
  shows "holds s0 (vn_upd s v f) d n"
proof -
  have r: "refs (vn_upd s v f) w = refs s w" for w by (simp add: refs_upd f) (simp add: refs_def)
  have "vnode_of (vn_upd s v f) w = vnode_of s w" if "0 < refs s0 w" for w using that v by (auto simp: vnode_of_upd)
  then show ?thesis using h v unfolding holds_def vn_ok_def r vn_upd_frame by auto
qed

text \<open>Changing attributes of any vnode other than those path resolution relies on.\<close>

lemma vn_attr_holds:
  assumes h: "holds s0 s d n" and f: "\<And>x. vn_refcnt (f x) = vn_refcnt x" "\<And>x. vn_type (f x) = vn_type x" "\<And>x. vn_mount (f x) = vn_mount x"
    "\<And>x. vn_ino (f x) = vn_ino x"
  shows "holds s0 (vn_upd s v f) d n"
proof -
  have r: "refs (vn_upd s v f) w = refs s w" for w by (simp add: refs_upd f) (simp add: refs_def)
  have "vn_type (vnode_of (vn_upd s v f) w) = vn_type (vnode_of s w)" "vn_mount (vnode_of (vn_upd s v f) w) = vn_mount (vnode_of s w)"
    "vn_ino (vnode_of (vn_upd s v f) w) = vn_ino (vnode_of s w)" for w by (auto simp: vnode_of_upd f)
  then show ?thesis using h unfolding holds_def vn_ok_def r vn_upd_frame by simp
qed

lemma tmpfs_lookup_law: "lookup_law (tmpfs_lookup :: nat \<Rightarrow> string \<Rightarrow> ('p::len word, 'a) kfs_scheme \<Rightarrow> _)"
  unfolding lookup_law_def
proof (intro allI impI)
  fix v name err child and s s' :: "('p word, 'a) kfs_scheme"
  assume ok: "vn_ok s" and r: "tmpfs_lookup v name s = (err, child, s')"
  obtain a t where a: "vfs_vnode_alloc s = (a, t)" by fastforce
  note A = vnode_alloc_holds [OF ok a]
  show "if err = 0 then \<exists>c. child = Some c \<and> c < length (vnodes s) \<and> refs s c = 0 \<and> holds s s' (one c) 0 else holds s s' none 0"
  proof (cases a)
    case None
    then show ?thesis using A r ok a by (auto simp: tmpfs_lookup_def Let_def holds_refl)
  next
    case (Some c)
    then have c: "c < length (vnodes s)" "refs s c = 0" "holds s t (one c) 0" using A by auto
    have "(one c)(c := (one c) c - 1) = none" by auto
    then have rel: "holds s (vfs_vnode_release t (Some c)) none 0" using holds_release [OF c(3,1)] by simp
    show ?thesis
    proof (cases "tmpfs_find t (vn_ino (vnode_of s v)) name")
      case None
      then show ?thesis using r a Some rel by (simp add: tmpfs_lookup_def Let_def)
    next
      case (Some i)
      then have "err = 0" "child = Some c" and s': "\<exists>f. (\<forall>x. vn_refcnt (f x) = vn_refcnt x) \<and> s' = vn_upd t c f"
        using r a \<open>a = Some c\<close> by (auto simp: tmpfs_lookup_def Let_def) (intro exI conjI, rule_tac [2] refl, simp)
      moreover have "holds s s' (one c) 0" using s' vn_fill_holds [OF c(3,2)] by blast
      ultimately show ?thesis using c by simp
    qed
  qed
qed

lemma romfs_lookup_law: "lookup_law (romfs_lookup be :: nat \<Rightarrow> string \<Rightarrow> ('p::len word, 'a) kfs_scheme \<Rightarrow> _)"
  unfolding lookup_law_def
proof (intro allI impI)
  fix v name err child and s s' :: "('p word, 'a) kfs_scheme"
  assume ok: "vn_ok s" and r: "romfs_lookup be v name s = (err, child, s')"
  obtain a t where a: "vfs_vnode_alloc s = (a, t)" by fastforce
  note A = vnode_alloc_holds [OF ok a]
  show "if err = 0 then \<exists>c. child = Some c \<and> c < length (vnodes s) \<and> refs s c = 0 \<and> holds s s' (one c) 0 else holds s s' none 0"
  proof (cases "romfs_find be (ram s) (image_base s v) name (re_child_off (get_entry be (ram s) (image_base s v) (vn_ino (vnode_of s v)))) 0 = None \<or> a = None")
    case True
    then have "err \<noteq> 0 \<and> s' = s" using r A a by (auto simp: romfs_lookup_def Let_def vnode_from_entry_def split: option.splits)
    then show ?thesis using holds_refl [OF ok] by simp
  next
    case False
    then obtain c where "a = Some c" by blast
    then have c: "c < length (vnodes s)" "refs s c = 0" "holds s t (one c) 0" using A by auto
    have "err = 0" "child = Some c" and s': "\<exists>f. (\<forall>x. vn_refcnt (f x) = vn_refcnt x) \<and> s' = vn_upd t c f"
      using r False a \<open>a = Some c\<close> by (auto simp: romfs_lookup_def Let_def vnode_from_entry_def) (intro exI conjI, rule_tac [2] refl, simp)
    moreover have "holds s s' (one c) 0" using s' vn_fill_holds [OF c(3,2)] by blast
    ultimately show ?thesis using c by simp
  qed
qed

lemma quiet_same: "(\<And>s. same_vfs s (snd (f s))) \<Longrightarrow> quiet f"
  unfolding quiet_def by (metis holds_refl same_vfs_holds snd_conv)

lemma inode_make_same: "same_vfs s (snd (snd (inode_make now kind mode dir_ino name (s :: ('p::len word, 'a) kfs_scheme))))"
  by (simp add: inode_make_def Let_def split: option.split)

lemma tmpfs_chmod_quiet: "quiet (tmpfs_chmod now v mode :: ('p::len word, 'a) kfs_scheme \<Rightarrow> _)"
  unfolding quiet_def
proof (intro allI impI)
  fix s s' :: "('p word, 'a) kfs_scheme" and err
  assume ok: "vn_ok s" and r: "tmpfs_chmod now v mode s = (err, s')"
  obtain g m where "s' = vn_upd (ti_upd s (unat (vn_ino (vnode_of s v))) g) v (\<lambda>vn. vn\<lparr>vn_mode := m\<rparr>)"
    using r unfolding tmpfs_chmod_def Let_def prod.inject by blast
  moreover have "holds s (ti_upd s (unat (vn_ino (vnode_of s v))) g) none 0" by (rule same_vfs_holds [OF _ holds_refl [OF ok]]) simp
  ultimately show "holds s s' none 0" using vn_attr_holds by fastforce
qed

interpretation memfs: vfs_drivers "mem_drivers be now :: nat \<Rightarrow> ('p::len word, 'a) kfs_scheme fs_ops" for be now
proof
  fix k :: nat and v v' :: nat and m :: nat and name name' :: string and mode at mt :: u32 and e :: int and s :: "('p word, 'a) kfs_scheme"
  note D = mem_drivers_def romfs_ops_def tmpfs_ops_def
  show "lookup_law f" if "op_lookup (mem_drivers be now k) = Some f" for f :: "nat \<Rightarrow> string \<Rightarrow> ('p word, 'a) kfs_scheme \<Rightarrow> _"
    using that tmpfs_lookup_law romfs_lookup_law by (auto simp: D split: if_splits)
  show "e < 0" if "op_readlink (mem_drivers be now k) = Some g" "g v m s = Inl e" for g
    using that by (auto simp: D romfs_readlink_def Let_def split: if_splits)
  show "quiet (f v name mode)" if "op_mkdir (mem_drivers be now k) = Some f" for f :: "nat \<Rightarrow> string \<Rightarrow> u32 \<Rightarrow> ('p word, 'a) kfs_scheme \<Rightarrow> _"
    using that by (auto simp: D tmpfs_mkdir_def inode_make_same split_beta intro!: quiet_same split: if_splits)
  show "quiet (f v name)" if "op_unlink (mem_drivers be now k) = Some f" for f :: "nat \<Rightarrow> string \<Rightarrow> ('p word, 'a) kfs_scheme \<Rightarrow> _"
    using that by (auto simp: D tmpfs_unlink_def Let_def intro!: quiet_same split: if_splits option.split)
  show "quiet (f v name v' name')" if "op_rename (mem_drivers be now k) = Some f" for f :: "nat \<Rightarrow> string \<Rightarrow> nat \<Rightarrow> string \<Rightarrow> ('p word, 'a) kfs_scheme \<Rightarrow> _"
    using that by (auto simp: D tmpfs_rename_def Let_def intro!: quiet_same split: if_splits option.split)
  show "quiet (f v at mt)" if "op_utimes (mem_drivers be now k) = Some f" for f :: "nat \<Rightarrow> u32 \<Rightarrow> u32 \<Rightarrow> ('p word, 'a) kfs_scheme \<Rightarrow> _"
    using that by (auto simp: D tmpfs_utimes_def intro!: quiet_same split: if_splits)
  show "quiet (f v mode)" if "op_chmod (mem_drivers be now k) = Some f" for f :: "nat \<Rightarrow> u32 \<Rightarrow> ('p word, 'a) kfs_scheme \<Rightarrow> _"
    using that tmpfs_chmod_quiet by (auto simp: D split: if_splits)
  show "quiet (f v name v')" if "op_link (mem_drivers be now k) = Some f" for f :: "nat \<Rightarrow> string \<Rightarrow> nat \<Rightarrow> ('p word, 'a) kfs_scheme \<Rightarrow> _"
    using that by (auto simp: D split: if_splits)
qed

text \<open>C12: path lookup keeps references balanced. On romfs and tmpfs mounts, a lookup that succeeds adds exactly one
  reference, to the vnode it returns, and a lookup that fails returns no vnode and leaves all reference counts;
  either way all scratch buffers are returned, the mount table is the same and the free list of the vnode pool
  holds exactly the vnodes without references.\<close>

theorem vfs_lookup_balanced:
  fixes s s' :: "('p::len word, 'a) kfs_scheme"
  assumes "roots_ok 3 s" "vfs_lookup_flags (mem_drivers be now) cwd junk path nofollow s = (rc, v, s')"
  shows "(if rc = 0 then \<exists>c < length (vnodes s). v = Some c \<and> (\<forall>w < length (vnodes s). refs s' w = refs s w + (if w = c then 1 else 0))
      else v = None \<and> (\<forall>w < length (vnodes s). refs s' w = refs s w))
    \<and> scratch_free s' = scratch_free s \<and> mounts s' = mounts s \<and> vn_ok s'"
proof -
  have "lookup_post s (rc, v, s')" using memfs.lookup_flags_post [OF assms(1)] assms(2) by metis
  then show ?thesis by (auto simp: lookup_post_def holds_def split: if_splits)
qed

text \<open>C13: path calls leak nothing. Making and removing entries, renaming, changing times and modes by path, on romfs and
  tmpfs mounts, leave every reference count and the number of scratch buffers as they were, whether they
  succeed or fail.\<close>

theorem vfs_path_calls_balanced:
  fixes s :: "('p::len word, 'a) kfs_scheme"
  assumes "roots_ok 5 s"
    "s' \<in> {snd (vfs_path_mkdir (mem_drivers be now) cwd junk path mode s), snd (vfs_path_unlink (mem_drivers be now) cwd junk path s),
      snd (vfs_path_rename (mem_drivers be now) cwd junk path path' s), snd (vfs_path_utimes (mem_drivers be now) cwd junk path at mt s),
      snd (vfs_path_chmod (mem_drivers be now) cwd junk path mode s), snd (vfs_path_link (mem_drivers be now) cwd junk path path' s)}"
  shows "(\<forall>w < length (vnodes s). refs s' w = refs s w) \<and> scratch_free s' = scratch_free s \<and> mounts s' = mounts s \<and> vn_ok s'"
proof -
  have "holds s s' none 0" using assms(2) by (elim insertE emptyE) (simp_all only: memfs.path_calls_quiet [OF assms(1)])
  then show ?thesis by (simp add: holds_def)
qed

text \<open>A tmpfs mounted at the root, with four vnodes.\<close>

definition demo_mounted :: "16 word kfs" where
  "demo_mounted = \<lparr>vnodes = \<lparr>vn_type = VNODE_DIR, vn_size = 0, vn_mode = 0, vn_ino = 0, vn_refcnt = 1, vn_fs_priv = 0, vn_mount = Some 0, vn_xip_addr = 0\<rparr>
       # replicate 3 \<lparr>vn_type = VNODE_FILE, vn_size = 0, vn_mode = 0, vn_ino = 0, vn_refcnt = 0, vn_fs_priv = 0, vn_mount = None, vn_xip_addr = 0\<rparr>,
     vn_free = [1, 2, 3],
     mounts = [\<lparr>mnt_path = ''/'', mnt_path_len = 1, mnt_flags = 0, mnt_active = MNT_STATE_ACTIVE, mnt_ops = 1, mnt_root = Some 0, mnt_sb_priv = 0\<rparr>],
     mount_count = 1, scratch_free = 8, inodes = [], data_pages_used = 0, page_state = demo_mm, ram = (\<lambda>_. 0)\<rparr>"

lemma demo_mounted_ok: "roots_ok 5 demo_mounted"
proof -
  have l: "length (vnodes demo_mounted) = 4" by (simp add: demo_mounted_def)
  have r: "refs demo_mounted v = (if v = 0 then 1 else 0)" if "v < 4" for v
  proof (cases v)
    case (Suc w)
    then show ?thesis using that by (simp add: demo_mounted_def refs_def)
  qed (simp add: demo_mounted_def refs_def)
  have "{v. v < 4 \<and> refs demo_mounted v = 0} = {1, 2, 3 :: nat}" using r by (auto split: if_splits)
  then have "vn_ok demo_mounted" by (simp add: vn_ok_def l) (simp add: demo_mounted_def)
  moreover have "refs demo_mounted v + 5 < 2 ^ 32" if "v < 4" for v using r [OF that] by simp
  moreover have "mnt_root m = Some 0" if "m \<in> set (mounts demo_mounted)" for m using that by (simp add: demo_mounted_def)
  ultimately show ?thesis unfolding roots_ok_def l using r [of 0] by force
qed

theorem vfs_lookup_balanced_witness:
  "roots_ok 3 demo_mounted
   \<and> scratch_free (snd (snd (vfs_lookup_flags (mem_drivers False 0) ''/'' [] (Some ''/x/y'') False demo_mounted))) = 8"
proof -
  have ok: "roots_ok 3 demo_mounted" by (rule roots_ok_mono [OF demo_mounted_ok]) simp
  obtain rc v s' where r: "vfs_lookup_flags (mem_drivers False 0) ''/'' [] (Some ''/x/y'') False demo_mounted = (rc, v, s')" by (metis prod_cases3)
  have "scratch_free demo_mounted = 8" by (simp add: demo_mounted_def)
  then show ?thesis using vfs_lookup_balanced [OF ok r] ok r by simp
qed

theorem vfs_path_calls_balanced_witness:
  "roots_ok 5 demo_mounted \<and> scratch_free (snd (vfs_path_mkdir (mem_drivers False 0) ''/'' [] (Some ''/x'') 0x1ED demo_mounted)) = 8"
proof -
  have "scratch_free demo_mounted = 8" by (simp add: demo_mounted_def)
  then show ?thesis
    using vfs_path_calls_balanced [OF demo_mounted_ok, of "snd (vfs_path_mkdir (mem_drivers False 0) ''/'' [] (Some ''/x'') 0x1ED demo_mounted)" False 0 "''/''" "[]" "Some ''/x''" "0x1ED"]
      demo_mounted_ok by simp
qed

end
