(* ===== verification/Tmpfs_Inv.thy ===== *)
theory Tmpfs_Inv
  imports Tmpfs "HOL-Library.Multiset"
begin

text \<open>
  The invariant of tmpfs: every data page belongs to one file and is not free in the page allocator, the
  count of data pages is right, the entries of a directory have different names, the root stays. It holds in
  every state reachable by the operations, interleaved with other users of the page allocator.
\<close>

subsection \<open>Data pages\<close>

text \<open>The pages that the inodes hold.\<close>

definition owned :: "'p::len word tmpfs_inode list \<Rightarrow> 'p word multiset" where
  "owned tis = filter_mset (\<lambda>p. p \<noteq> PAGE_ID_INVALID) (mset (map ti_data_page tis))"

definition pages_ok :: "'p::len word multiset \<Rightarrow> u32 \<Rightarrow> 'p word page_mm \<Rightarrow> bool" where
  "pages_ok ps used pm \<longleftrightarrow> page_inv pm \<and> (\<forall>p. count ps p \<le> 1) \<and> (\<forall>p\<in>#ps. unat p \<in> page_arena pm - page_frames pm)
     \<and> unat used = size ps \<and> unat used \<le> unat TMPFS_MAX_PAGES"

lemma owned_update:
  assumes "i < length tis"
  shows "owned (tis[i := ti]) = (if ti_data_page ti = PAGE_ID_INVALID then {#} else {#ti_data_page ti#})
     + (if ti_data_page (tis ! i) = PAGE_ID_INVALID then owned tis else owned tis - {#ti_data_page (tis ! i)#})"
proof -
  let ?d = "map ti_data_page tis"
  have i: "i < length ?d" using assms by simp
  have "?d ! i \<in># mset ?d" using i by (metis nth_mem set_mset_mset)
  then show ?thesis using assms unfolding owned_def map_update mset_update [OF i] by auto
qed

lemma owned_same: "ti_data_page ti = ti_data_page (tis ! i) \<Longrightarrow> owned (tis[i := ti]) = owned tis"
proof -
  assume "ti_data_page ti = ti_data_page (tis ! i)"
  then have "map ti_data_page (tis[i := ti]) = map ti_data_page tis" by (cases "i < length tis") (simp_all add: map_update list_update_same_conv list_update_beyond)
  then show ?thesis unfolding owned_def by simp
qed

lemma owned_mem: "i < length tis \<Longrightarrow> ti_data_page (tis ! i) \<noteq> PAGE_ID_INVALID \<Longrightarrow> ti_data_page (tis ! i) \<in># owned tis"
  by (auto simp: owned_def)

lemma region_free_page:
  fixes pm :: "'p::len word page_mm"
  assumes "pid \<noteq> PAGE_ID_INVALID"
  shows "region_free pm PPAP_MEM_RAM_DATA PAGE_SIZE (Some \<lparr>rg_base = 0, rg_base_page = pid\<rparr>) = page_free pm pid"
proof -
  have "unat (region_page_count PAGE_SIZE) = 1" by (simp add: region_page_count_unat)
  then show ?thesis using assms
    by (simp add: region_free_def mem_helper_free_def region_free_page_backed_def free_pages.simps)
qed

lemma pages_ok_free:
  fixes pm :: "'p::len word page_mm"
  assumes ok: "pages_ok ps used pm" and p: "p \<in># ps"
  shows "pages_ok (ps - {#p#}) (used - 1) (page_free pm p)"
proof -
  have inv: "page_inv pm" and c: "\<forall>p. count ps p \<le> 1" and u: "unat used = size ps" and le: "unat used \<le> 2"
    and own: "\<forall>q\<in>#ps. unat q \<in> page_arena pm - page_frames pm" using ok by (auto simp: pages_ok_def)
  have "0 < size ps" using p by (auto simp: nonempty_has_size [symmetric])
  then have "used \<noteq> 0" using u by auto
  then have u': "unat (used - 1) = size (ps - {#p#})" using u p by (simp add: unat_minus_one size_Diff_singleton)
  have "0 < count ps p" "count ps p \<le> 1" using c p by auto
  then have "p \<notin># ps - {#p#}" by (simp add: not_in_iff)
  then have np: "q \<noteq> p" if "q \<in># ps - {#p#}" for q using that by auto
  have A: "unat q \<in> page_arena pm - (page_frames pm \<union> ({unat p} \<inter> page_arena pm))" if "q \<in># ps - {#p#}" for q
    using own np [OF that] in_diffD [OF that] by (auto dest: unsigned_word_eqI)
  have B: "count (ps - {#p#}) q \<le> 1" for q using c using le_trans [OF diff_le_self] by (simp add: le_trans [OF diff_le_self])
  have "size (ps - {#p#}) \<le> unat TMPFS_MAX_PAGES" using u le size_Diff_singleton [OF p] by simp
  then show ?thesis unfolding pages_ok_def page_free_frames(2,3) [OF inv] u'
    by (intro conjI allI ballI page_free_frames(1) [OF inv] A B refl)
qed

lemma pages_ok_alloc:
  fixes pm :: "'p::len word page_mm"
  assumes ok: "pages_ok ps used pm" and room: "used < TMPFS_MAX_PAGES"
    and a: "region_alloc pm PPAP_MEM_RAM_DATA PAGE_SIZE 0 (Some out) = (rc, r, pm')"
  shows "if rc < 0 then pages_ok ps used pm'
    else rg_base_page (the r) \<noteq> PAGE_ID_INVALID \<and> unat (rg_base_page (the r)) \<in> page_frames pm
      \<and> pages_ok (add_mset (rg_base_page (the r)) ps) (used + 1) pm'"
proof (cases "rc < 0")
  case True
  have "rc = - ENOMEM \<and> pm' = snd (page_alloc pm) \<and> fst (page_alloc pm) = PAGE_ID_INVALID"
  proof -
    have "region_page_count PAGE_SIZE = 1" by (simp add: region_page_count_def)
    then show ?thesis using a True
      by (auto simp: region_alloc_def mem_helper_alloc_def region_alloc_page_backed_def Let_def split_beta split: if_splits)
  qed
  then have "pm' = pm\<lparr>oom_count := oom_count pm + 1\<rparr>"
    using pool_take_n_aux(1) [OF page_invD(1), of pm 1] ok by (auto simp: page_alloc_def pages_ok_def Let_def split_beta)
  moreover have "page_arena (pm\<lparr>oom_count := k\<rparr>) = page_arena pm" for k by (simp add: page_arena_def pool_base_page_id_def page_pool_base_def)
  ultimately show ?thesis using ok True by (simp add: pages_ok_def)
next
  case False
  have inv: "page_inv pm" using ok by (simp add: pages_ok_def)
  have "rc = 0" using a False
    by (auto simp: region_alloc_def mem_helper_alloc_def region_alloc_page_backed_def Let_def split_beta split: if_splits)
  from region_alloc_pages [OF inv _ _ a [unfolded this]]
  obtain pid where pid: "r = Some (out\<lparr>rg_base := page_linear pid, rg_base_page := pid\<rparr>)" "pid \<noteq> PAGE_ID_INVALID"
    and f: "unat pid \<in> page_frames pm" "page_frames pm' = page_frames pm - {unat pid}" "page_inv pm'" "page_arena pm' = page_arena pm"
    by auto
  have new: "pid \<notin># ps" using ok f(1) by (auto simp: pages_ok_def)
  have "unat (used + 1) = unat used + 1" "unat used + 1 \<le> 2" using room by (auto simp: word_less_nat_alt unat_word_ariths)
  moreover have "count (add_mset pid ps) q \<le> 1" for q using ok new by (auto simp: pages_ok_def not_in_iff)
  moreover have "unat pid \<in> page_arena pm" using page_invD(2) [OF inv] f(1) by blast
  ultimately have "pages_ok (add_mset pid ps) (used + 1) pm'" using ok f(2-4) unfolding pages_ok_def by auto
  then show ?thesis using False pid f(1) by simp
qed

subsection \<open>Names\<close>

lemma str_eq_iff [simp]: "str_eq a b \<longleftrightarrow> a = b"
  by (induction a b rule: str_eq.induct) auto

definition root_ok :: "'w tmpfs_inode \<Rightarrow> bool" where
  "root_ok ti \<longleftrightarrow> ti_active ti \<and> ti_type ti = VNODE_DIR \<and> ti_parent_ino ti = 0 \<and> ti_name ti = []"

definition names_ok :: "'w tmpfs_inode list \<Rightarrow> bool" where
  "names_ok tis \<longleftrightarrow> (\<forall>i < length tis. i \<noteq> 0 \<longrightarrow> ti_active (tis ! i) \<longrightarrow> ti_name (tis ! i) \<noteq> [] \<and> length (ti_name (tis ! i)) \<le> TMPFS_NAME_MAX)
     \<and> (\<forall>i < length tis. \<forall>j < length tis. ti_active (tis ! i) \<longrightarrow> ti_active (tis ! j) \<longrightarrow>
          ti_parent_ino (tis ! i) = ti_parent_ino (tis ! j) \<longrightarrow> ti_name (tis ! i) = ti_name (tis ! j) \<longrightarrow> i = j)"

definition page_kinds :: "'p::len word tmpfs_inode list \<Rightarrow> bool" where
  "page_kinds tis \<longleftrightarrow> (\<forall>ti \<in> set tis. ti_data_page ti \<noteq> PAGE_ID_INVALID \<longrightarrow> ti_active ti \<and> ti_type ti \<noteq> VNODE_DIR)"

definition tm_inv :: "('p::len word, 'a) kfs_scheme \<Rightarrow> bool" where
  "tm_inv s \<longleftrightarrow> length (inodes s) = TMPFS_INODE_MAX \<and> root_ok (inode_of s 0) \<and> names_ok (inodes s) \<and> page_kinds (inodes s)
     \<and> pages_ok (owned (inodes s)) (data_pages_used s) (page_state s)"

lemma tm_invD:
  assumes "tm_inv s"
  shows "length (inodes s) = TMPFS_INODE_MAX" "root_ok (inode_of s 0)" "names_ok (inodes s)" "page_kinds (inodes s)"
    "pages_ok (owned (inodes s)) (data_pages_used s) (page_state s)"
  using assms by (simp_all add: tm_inv_def)

lemma tm_inv_cong:
  "inodes t = inodes s \<Longrightarrow> data_pages_used t = data_pages_used s \<Longrightarrow> page_state t = page_state s \<Longrightarrow> tm_inv t = tm_inv s"
  by (simp add: tm_inv_def)

text \<open>An entry other than the root may be replaced when its name is new in its directory.\<close>

lemma names_ok_update:
  assumes ok: "names_ok tis" and i: "i < length tis" "i \<noteq> 0"
    and name: "ti_active ti \<Longrightarrow> ti_name ti \<noteq> [] \<and> length (ti_name ti) \<le> TMPFS_NAME_MAX"
    and new: "\<And>j. ti_active ti \<Longrightarrow> j < length tis \<Longrightarrow> j \<noteq> i \<Longrightarrow> ti_active (tis ! j) \<Longrightarrow> ti_parent_ino (tis ! j) = ti_parent_ino ti
       \<Longrightarrow> ti_name (tis ! j) \<noteq> ti_name ti"
  shows "names_ok (tis[i := ti])"
  unfolding names_ok_def
proof (intro conjI allI impI)
  fix j assume "j < length (tis[i := ti])" "j \<noteq> 0" "ti_active (tis[i := ti] ! j)"
  then show "ti_name (tis[i := ti] ! j) \<noteq> []" "length (ti_name (tis[i := ti] ! j)) \<le> TMPFS_NAME_MAX"
    using ok name unfolding names_ok_def by (cases "j = i", simp_all)+
next
  fix j k
  assume a: "j < length (tis[i := ti])" "k < length (tis[i := ti])" "ti_active (tis[i := ti] ! j)" "ti_active (tis[i := ti] ! k)"
    "ti_parent_ino (tis[i := ti] ! j) = ti_parent_ino (tis[i := ti] ! k)" "ti_name (tis[i := ti] ! j) = ti_name (tis[i := ti] ! k)"
  consider "j = i" "k = i" | "j = i" "k \<noteq> i" | "j \<noteq> i" "k = i" | "j \<noteq> i" "k \<noteq> i" by blast
  then show "j = k"
  proof cases
    case 2
    then show ?thesis using a new [of k] by simp
  next
    case 3
    then show ?thesis using a new [of j] by simp
  next
    case 4
    then show ?thesis using a ok unfolding names_ok_def by simp
  qed simp
qed

lemma names_ok_same:
  assumes "names_ok tis" "ti_active ti = ti_active (tis ! i)" "ti_name ti = ti_name (tis ! i)" "ti_parent_ino ti = ti_parent_ino (tis ! i)"
  shows "names_ok (tis[i := ti])"
proof -
  have "ti_active (tis[i := ti] ! j) = ti_active (tis ! j)" "ti_name (tis[i := ti] ! j) = ti_name (tis ! j)"
    "ti_parent_ino (tis[i := ti] ! j) = ti_parent_ino (tis ! j)" if "j < length tis" for j
    using assms(2-4) that by (cases "j = i"; simp)+
  then show ?thesis using assms(1) unfolding names_ok_def by simp
qed

lemma page_kinds_update:
  assumes "page_kinds tis" "ti_data_page ti \<noteq> PAGE_ID_INVALID \<Longrightarrow> ti_active ti \<and> ti_type ti \<noteq> VNODE_DIR"
  shows "page_kinds (tis[i := ti])"
  using assms set_update_subset_insert [of tis i ti] unfolding page_kinds_def by blast

lemma root_ok_update: "root_ok (tis ! 0) \<Longrightarrow> (i = 0 \<Longrightarrow> root_ok ti) \<Longrightarrow> root_ok (tis[i := ti] ! 0)"
  by (cases i; cases tis) auto

lemma ti_upd_simps [simp]:
  "data_pages_used (ti_upd s i f) = data_pages_used s" "page_state (ti_upd s i f) = page_state s"
  "inodes (ti_upd s i f) = (inodes s)[i := f (inode_of s i)]" "ram (ti_upd s i f) = ram s"
  "vnodes (ti_upd s i f) = vnodes s"
  by (simp_all add: ti_upd_def)

lemma vn_upd_kfs [simp]:
  "inodes (vn_upd s v g) = inodes s" "data_pages_used (vn_upd s v g) = data_pages_used s" "page_state (vn_upd s v g) = page_state s"
  "ram (vn_upd s v g) = ram s"
  by (simp_all add: vn_upd_def)

text \<open>Attributes of an inode may change freely.\<close>

lemma tm_inv_attr:
  assumes inv: "tm_inv s" and f: "\<And>ti. ti_active (f ti) = ti_active ti" "\<And>ti. ti_name (f ti) = ti_name ti"
    "\<And>ti. ti_parent_ino (f ti) = ti_parent_ino ti" "\<And>ti. ti_type (f ti) = ti_type ti" "\<And>ti. ti_data_page (f ti) = ti_data_page ti"
  shows "tm_inv (ti_upd s i f)"
proof -
  note I = tm_invD [OF inv]
  have "page_kinds ((inodes s)[i := f (inode_of s i)])"
  proof (cases "i < length (inodes s)")
    case True
    then have "inode_of s i \<in> set (inodes s)" by simp
    then show ?thesis using I(4) by (intro page_kinds_update) (auto simp: f page_kinds_def)
  qed (use I(4) in \<open>simp add: list_update_beyond\<close>)
  moreover have "root_ok ((inodes s)[i := f (inode_of s i)] ! 0)"
    by (rule root_ok_update [OF I(2)]) (use I(2) in \<open>simp add: f root_ok_def\<close>)
  ultimately show ?thesis using I names_ok_same [OF I(3), of "f (inode_of s i)" i] unfolding tm_inv_def
    by (simp add: f owned_same)
qed

lemma tm_inv_modified: "tm_inv s \<Longrightarrow> tm_inv (ti_upd s i (ti_modified now))"
  by (rule tm_inv_attr) (simp_all add: ti_modified_def)

subsection \<open>What the operations do to the invariant\<close>

text \<open>Giving up the data page of an inode.\<close>

lemma pages_drop:
  assumes inv: "tm_inv s" and i: "i < length (inodes s)" and p: "ti_data_page (inode_of s i) \<noteq> PAGE_ID_INVALID"
    and ti: "ti_data_page ti = PAGE_ID_INVALID"
  shows "pages_ok (owned ((inodes s)[i := ti])) (data_pages_used (release_data_page s i)) (page_state (release_data_page s i))"
proof -
  have "owned ((inodes s)[i := ti]) = owned (inodes s) - {#ti_data_page (inode_of s i)#}" using owned_update [OF i, of ti] p ti by simp
  moreover have "page_state (release_data_page s i) = page_free (page_state s) (ti_data_page (inode_of s i))"
    "data_pages_used (release_data_page s i) = data_pages_used s - 1"
    using p by (simp_all add: release_data_page_def region_free_page)
  ultimately show ?thesis using pages_ok_free [OF tm_invD(5) [OF inv] owned_mem [OF i p]] by simp
qed

lemma release_inodes [simp]: "inodes (release_data_page s i) = inodes s" "vnodes (release_data_page s i) = vnodes s"
  "ram (release_data_page s i) = ram s"
  by (simp_all add: release_data_page_def)

lemma inode_free_fields [simp]:
  "inodes (inode_free s i) = (inodes s)[i := (inode_of s i)\<lparr>ti_active := False, ti_data_page := PAGE_ID_INVALID, ti_size := 0\<rparr>]"
  "vnodes (inode_free s i) = vnodes s" "ram (inode_free s i) = ram s"
  by (simp_all add: inode_free_def Let_def)

lemma inode_free_inv:
  fixes s :: "('p::len word, 'a) kfs_scheme"
  assumes inv: "tm_inv s" and i: "i < TMPFS_INODE_MAX" "i \<noteq> 0"
  shows "tm_inv (inode_free s i)"
proof -
  note I = tm_invD [OF inv]
  define ti where "ti = (inode_of s i)\<lparr>ti_active := False, ti_data_page := PAGE_ID_INVALID, ti_size := 0\<rparr>"
  have il: "i < length (inodes s)" using i I(1) by simp
  have "pages_ok (owned ((inodes s)[i := ti])) (data_pages_used (inode_free s i)) (page_state (inode_free s i))"
  proof (cases "ti_data_page (inode_of s i) = PAGE_ID_INVALID")
    case True
    then show ?thesis using I(5) owned_same [of ti "inodes s" i] by (simp add: inode_free_def ti_def)
  next
    case False
    then show ?thesis using pages_drop [OF inv il, of ti] by (simp add: inode_free_def ti_def)
  qed
  moreover have "names_ok ((inodes s)[i := ti])" by (rule names_ok_update [OF I(3) il i(2)]) (simp_all add: ti_def)
  moreover have "page_kinds ((inodes s)[i := ti])" by (rule page_kinds_update [OF I(4)]) (simp add: ti_def)
  moreover have "root_ok ((inodes s)[i := ti] ! 0)" by (rule root_ok_update [OF I(2)]) (use i in simp)
  ultimately show ?thesis using I(1) unfolding tm_inv_def by (simp add: ti_def)
qed

lemma tmpfs_find_some:
  assumes inv: "tm_inv s" and f: "tmpfs_find s dir name = Some i" and name: "name \<noteq> []"
  shows "i < TMPFS_INODE_MAX" "i \<noteq> 0" "ti_active (inode_of s i)" "ti_parent_ino (inode_of s i) = dir" "ti_name (inode_of s i) = name"
proof -
  have "i < TMPFS_INODE_MAX \<and> tmpfs_entry s dir name i" using f unfolding tmpfs_find_def by (auto simp: find_Some_iff)
  then show "i < TMPFS_INODE_MAX" "ti_active (inode_of s i)" "ti_parent_ino (inode_of s i) = dir" and n: "ti_name (inode_of s i) = name"
    by (simp_all add: tmpfs_entry_def)
  show "i \<noteq> 0" using n name tm_invD(2) [OF inv] unfolding root_ok_def by metis
qed

lemma tmpfs_find_none:
  "tmpfs_find s dir name = None \<Longrightarrow> i < TMPFS_INODE_MAX \<Longrightarrow> ti_active (inode_of s i) \<Longrightarrow> ti_parent_ino (inode_of s i) = dir \<Longrightarrow> ti_name (inode_of s i) \<noteq> name"
  unfolding tmpfs_find_def by (auto simp: find_None_iff tmpfs_entry_def)

text \<open>In a consistent table the scan finds the one entry with the name.\<close>

lemma tmpfs_find_iff:
  assumes "tm_inv s" "name \<noteq> []"
  shows "tmpfs_find s dir name = Some i \<longleftrightarrow> i < TMPFS_INODE_MAX \<and> ti_active (inode_of s i) \<and> ti_parent_ino (inode_of s i) = dir \<and> ti_name (inode_of s i) = name"
proof
  assume r: "i < TMPFS_INODE_MAX \<and> ti_active (inode_of s i) \<and> ti_parent_ino (inode_of s i) = dir \<and> ti_name (inode_of s i) = name"
  then obtain j where j: "tmpfs_find s dir name = Some j" using tmpfs_find_none by (cases "tmpfs_find s dir name") blast+
  note J = tmpfs_find_some [OF assms(1) j assms(2)]
  have "j = i" using tm_invD(1,3) [OF assms(1)] r J unfolding names_ok_def by metis
  then show "tmpfs_find s dir name = Some i" using j by simp
qed (use tmpfs_find_some [OF assms(1) _ assms(2)] in blast)

lemma inode_alloc_some:
  assumes "inode_alloc s = Some i"
  shows "i < TMPFS_INODE_MAX" "i \<noteq> 0" "\<not> ti_active (inode_of s i)"
  using assms unfolding inode_alloc_def by (auto simp: find_Some_iff)

lemma inode_make_inv:
  fixes s :: "('p::len word, 'a) kfs_scheme"
  assumes inv: "tm_inv s" and name: "name \<noteq> []" "length name \<le> TMPFS_NAME_MAX" and r: "inode_make now kind mode dir name s = (rc, idx, s')"
  shows "tm_inv s'"
proof (cases "tmpfs_find s dir name = None \<and> inode_alloc s \<noteq> None")
  case False
  then show ?thesis using r inv by (auto simp: inode_make_def split: if_splits option.splits)
next
  case True
  then obtain i where f: "tmpfs_find s dir name = None" and i: "inode_alloc s = Some i" by blast
  note I = tm_invD [OF inv] and A = inode_alloc_some [OF i]
  define ti :: "'p word tmpfs_inode" where "ti = \<lparr>ti_name = str_copy name (TMPFS_NAME_MAX + 1), ti_type = kind, ti_active = True,
                   ti_mode = mode, ti_size = 0, ti_parent_ino = dir, ti_data_page = PAGE_ID_INVALID,
                   ti_mtime = now, ti_ctime = now, ti_atime = now\<rparr>"
  have n: "ti_name ti = name" using name by (simp add: ti_def str_copy_def)
  have il: "i < length (inodes s)" using A I(1) by simp
  have "inode_of s i \<in> set (inodes s)" using il by simp
  then have d: "ti_data_page (inode_of s i) = PAGE_ID_INVALID" using I(4) A(3) unfolding page_kinds_def by blast
  have "names_ok ((inodes s)[i := ti])"
    by (rule names_ok_update [OF I(3) il A(2)]) (use name n tmpfs_find_none [OF f] I(1) in \<open>auto simp: ti_def\<close>)
  moreover have "owned ((inodes s)[i := ti]) = owned (inodes s)" by (rule owned_same) (simp add: d ti_def)
  moreover have "page_kinds ((inodes s)[i := ti])" by (rule page_kinds_update [OF I(4)]) (simp add: ti_def)
  moreover have "root_ok ((inodes s)[i := ti] ! 0)" by (rule root_ok_update [OF I(2)]) (use A in simp)
  ultimately have "tm_inv (ti_upd s i (\<lambda>_. ti))" using I unfolding tm_inv_def by simp
  from tm_inv_modified [OF this] show ?thesis using r f i by (auto simp: inode_make_def ti_def Let_def)
qed

lemma vnode_alloc_kfs:
  "inodes (snd (vfs_vnode_alloc s)) = inodes s" "data_pages_used (snd (vfs_vnode_alloc s)) = data_pages_used s"
  "page_state (snd (vfs_vnode_alloc s)) = page_state s" "ram (snd (vfs_vnode_alloc s)) = ram s"
  by (simp_all add: vfs_vnode_alloc_def split: list.split)

lemma vnode_release_kfs [simp]:
  "inodes (vfs_vnode_release s v) = inodes s" "data_pages_used (vfs_vnode_release s v) = data_pages_used s"
  "page_state (vfs_vnode_release s v) = page_state s" "ram (vfs_vnode_release s v) = ram s"
  by (simp_all add: vfs_vnode_release_def Let_def split: option.split)

lemma tm_inv_vnodes [simp]: "tm_inv (vn_upd s v f) = tm_inv s" "tm_inv (vfs_vnode_release s w) = tm_inv s" "tm_inv (snd (vfs_vnode_alloc s)) = tm_inv s"
  "tm_inv (s\<lparr>ram := m\<rparr>) = tm_inv s"
  by (rule tm_inv_cong, simp_all add: vnode_alloc_kfs)+

lemma tmpfs_create_inv:
  fixes s :: "('p::len word, 'a) kfs_scheme"
  assumes "tm_inv s" "name \<noteq> []" "length name \<le> TMPFS_NAME_MAX" "tmpfs_create now dir name mode s = (rc, v, s')"
  shows "tm_inv s'"
proof -
  obtain a t where a: "vfs_vnode_alloc s = (a, t)" by fastforce
  then have t: "tm_inv t" using assms(1) tm_inv_vnodes(3) [of s] by simp
  show ?thesis
  proof (cases a)
    case None
    then show ?thesis using assms(4) a t by (simp add: tmpfs_create_def Let_def)
  next
    case (Some w)
    obtain rc' idx u where m: "inode_make now VNODE_FILE (S_IFREG OR (mode AND 0x1FF)) (vn_ino (vnode_of s dir)) name t = (rc', idx, u)"
      by (metis prod_cases3)
    have "tm_inv u" by (rule inode_make_inv [OF t assms(2,3) m])
    then show ?thesis using assms(4) a Some m by (auto simp: tmpfs_create_def Let_def split: if_splits)
  qed
qed

lemma tmpfs_mkdir_inv:
  fixes s :: "('p::len word, 'a) kfs_scheme"
  assumes "tm_inv s" "name \<noteq> []" "length name \<le> TMPFS_NAME_MAX" "tmpfs_mkdir now dir name mode s = (rc, s')"
  shows "tm_inv s'"
  using inode_make_inv [OF assms(1-3)] assms(4) by (auto simp: tmpfs_mkdir_def split: prod.splits)

lemma tmpfs_unlink_inv:
  fixes s :: "('p::len word, 'a) kfs_scheme"
  assumes inv: "tm_inv s" and name: "name \<noteq> []" and r: "tmpfs_unlink now dir name s = (rc, s')"
  shows "tm_inv s'"
proof (cases "tmpfs_find s (vn_ino (vnode_of s dir)) name")
  case None
  then show ?thesis using r inv by (simp add: tmpfs_unlink_def Let_def)
next
  case (Some i)
  have "tm_inv (ti_upd (inode_free s i) j (ti_modified now))" for j
    by (intro tm_inv_modified inode_free_inv [OF inv] tmpfs_find_some(1,2) [OF inv Some name])
  then show ?thesis using r inv Some by (auto simp: tmpfs_unlink_def Let_def split: if_splits)
qed

text \<open>Moving an entry to a place where no other active entry has its name.\<close>

lemma move_inv:
  fixes s :: "('p::len word, 'a) kfs_scheme"
  assumes inv: "tm_inv s" and i: "i < TMPFS_INODE_MAX" "i \<noteq> 0" and name: "name \<noteq> []" "length name \<le> TMPFS_NAME_MAX"
    and free: "\<And>j. j < TMPFS_INODE_MAX \<Longrightarrow> j \<noteq> i \<Longrightarrow> ti_active (inode_of s j) \<Longrightarrow> ti_parent_ino (inode_of s j) = dir \<Longrightarrow> ti_name (inode_of s j) \<noteq> name"
  shows "tm_inv (ti_upd s i (\<lambda>ti. ti\<lparr>ti_parent_ino := dir, ti_ctime := now, ti_name := str_copy name (TMPFS_NAME_MAX + 1)\<rparr>))"
proof -
  note I = tm_invD [OF inv]
  define ti where "ti = (inode_of s i)\<lparr>ti_parent_ino := dir, ti_ctime := now, ti_name := str_copy name (TMPFS_NAME_MAX + 1)\<rparr>"
  have n: "ti_name ti = name" using name by (simp add: ti_def str_copy_def)
  have il: "i < length (inodes s)" using i I(1) by simp
  have "names_ok ((inodes s)[i := ti])"
    by (rule names_ok_update [OF I(3) il i(2)]) (use name n free I(1) in \<open>auto simp: ti_def\<close>)
  moreover have "page_kinds ((inodes s)[i := ti])"
    by (rule page_kinds_update [OF I(4)]) (use I(4) nth_mem [OF il] in \<open>auto simp: ti_def page_kinds_def\<close>)
  moreover have "owned ((inodes s)[i := ti]) = owned (inodes s)" by (rule owned_same) (simp add: ti_def)
  moreover have "root_ok ((inodes s)[i := ti] ! 0)" by (rule root_ok_update [OF I(2)]) (use i in simp)
  ultimately show ?thesis using I unfolding tm_inv_def by (simp add: ti_def)
qed

lemma tmpfs_rename_inv:
  fixes s :: "('p::len word, 'a) kfs_scheme"
  assumes inv: "tm_inv s" and old: "old_name \<noteq> []" and new: "new_name \<noteq> []" "length new_name \<le> TMPFS_NAME_MAX"
    and r: "tmpfs_rename now old_dir old_name new_dir new_name s = (rc, s')"
  shows "tm_inv s'"
proof (cases "tmpfs_find s (vn_ino (vnode_of s old_dir)) old_name")
  case None
  then show ?thesis using r inv by (simp add: tmpfs_rename_def Let_def)
next
  case (Some src)
  let ?new = "vn_ino (vnode_of s new_dir)"
  note S = tmpfs_find_some [OF inv Some old]
  define dst where "dst = tmpfs_find s ?new new_name"
  define t where "t = (case dst of None \<Rightarrow> s | Some i \<Rightarrow> inode_free s i)"
  have D: "i < TMPFS_INODE_MAX \<and> i \<noteq> 0" if "dst = Some i" for i
    using tmpfs_find_some [OF inv that [unfolded dst_def] new(1)] by blast
  have t: "tm_inv t" unfolding t_def using inv inode_free_inv [OF inv] D by (cases dst) auto
  have free: "ti_name (inode_of t j) \<noteq> new_name"
    if j: "j < TMPFS_INODE_MAX" "j \<noteq> src" "ti_active (inode_of t j)" "ti_parent_ino (inode_of t j) = ?new" for j
  proof
    assume n: "ti_name (inode_of t j) = new_name"
    have jl: "j < length (inodes s)" using j(1) tm_invD(1) [OF inv] by simp
    have keep: "ti_active (inode_of s j) \<and> ti_parent_ino (inode_of s j) = ?new \<and> ti_name (inode_of s j) = new_name"
      using j(3,4) n jl unfolding t_def by (cases dst) (auto simp: nth_upd split: if_splits)
    then have "dst = Some j" unfolding dst_def using tmpfs_find_iff [OF inv new(1)] j(1) by blast
    then show False using j(3) jl unfolding t_def by simp
  qed
  have m: "tm_inv (ti_upd t src (\<lambda>ti. ti\<lparr>ti_parent_ino := ?new, ti_ctime := now, ti_name := str_copy new_name (TMPFS_NAME_MAX + 1)\<rparr>))"
    by (rule move_inv [OF t S(1,2) new free])
  define u where "u = ti_upd (ti_upd t src (\<lambda>ti. ti\<lparr>ti_parent_ino := ?new, ti_ctime := now, ti_name := str_copy new_name (TMPFS_NAME_MAX + 1)\<rparr>))
    (unat (vn_ino (vnode_of s old_dir))) (ti_modified now)"
  have u: "tm_inv u" "tm_inv (ti_upd u k (ti_modified now))" for k unfolding u_def using m by (simp_all add: tm_inv_modified)
  have "s' = s \<or> s' = u \<or> s' = ti_upd u (unat ?new) (ti_modified now)"
    using r Some unfolding tmpfs_rename_def Let_def dst_def [symmetric] t_def [symmetric] option.case 
    by (auto simp: u_def split: if_splits)
  then show ?thesis using inv u by blast
qed

lemma first_page_inv:
  fixes s :: "('p::len word, 'a) kfs_scheme"
  assumes inv: "tm_inv s" and i: "i < TMPFS_INODE_MAX" "ti_active (inode_of s i)" "ti_type (inode_of s i) \<noteq> VNODE_DIR"
    and r: "first_page i s = (rc, s')"
  shows "tm_inv s'" "\<not> rc < 0 \<Longrightarrow> rc = 0 \<and> ti_data_page (inode_of s' i) \<noteq> PAGE_ID_INVALID"
    "vnodes s' = vnodes s" "\<exists>p. inodes s' = (inodes s)[i := (inode_of s i)\<lparr>ti_data_page := p\<rparr>]"
proof -
  note I = tm_invD [OF inv]
  have il: "i < length (inodes s)" using i I(1) by simp
  have i0: "i \<noteq> 0" using i(3) I(2) unfolding root_ok_def by metis
  have same: "\<exists>p. inodes s = (inodes s)[i := (inode_of s i)\<lparr>ti_data_page := p\<rparr>]"
    by (rule exI [of _ "ti_data_page (inode_of s i)"]) simp
  have "tm_inv s' \<and> (\<not> rc < 0 \<longrightarrow> rc = 0 \<and> ti_data_page (inode_of s' i) \<noteq> PAGE_ID_INVALID) \<and> vnodes s' = vnodes s
    \<and> (\<exists>p. inodes s' = (inodes s)[i := (inode_of s i)\<lparr>ti_data_page := p\<rparr>])"
  proof (cases "ti_data_page (inode_of s i) \<noteq> PAGE_ID_INVALID \<or> TMPFS_MAX_PAGES \<le> data_pages_used s")
    case True
    then show ?thesis using r inv same by (auto simp: first_page_def split: if_splits)
  next
    case False
    then have no: "ti_data_page (inode_of s i) = PAGE_ID_INVALID" and nr: "\<not> TMPFS_MAX_PAGES \<le> data_pages_used s"
      and room: "data_pages_used s < TMPFS_MAX_PAGES" by auto
    obtain rc' rg pm where a: "region_alloc (page_state s) PPAP_MEM_RAM_DATA PAGE_SIZE 0 (Some \<lparr>rg_base = 0, rg_base_page = 0\<rparr>) = (rc', rg, pm)"
      by (metis prod_cases3)
    note A = pages_ok_alloc [OF I(5) room a]
    show ?thesis
    proof (cases "rc' < 0")
      case True
      then have "rc = - ENOMEM" "s' = s\<lparr>page_state := pm\<rparr>" using r no nr a by (auto simp: first_page_def)
      then show ?thesis using A True I same by (auto simp: tm_inv_def)
    next
      case ok: False
      define pid where "pid = rg_base_page (the rg)"
      define ti where "ti = (inode_of s i)\<lparr>ti_data_page := pid\<rparr>"
      have ne: "pid \<noteq> PAGE_ID_INVALID" and P: "pages_ok (add_mset pid (owned (inodes s))) (data_pages_used s + 1) pm"
        using A ok by (auto simp: pid_def)
      have s': "rc = 0" "inodes s' = (inodes s)[i := ti]" "data_pages_used s' = data_pages_used s + 1" "page_state s' = pm" "vnodes s' = vnodes s"
        using r no nr a ok by (auto simp: first_page_def Let_def pid_def ti_def)
      have "owned ((inodes s)[i := ti]) = add_mset pid (owned (inodes s))" using owned_update [OF il, of ti] no ne by (simp add: ti_def)
      moreover have "names_ok ((inodes s)[i := ti])" by (rule names_ok_same [OF I(3)]) (simp_all add: ti_def)
      moreover have "page_kinds ((inodes s)[i := ti])" by (rule page_kinds_update [OF I(4)]) (use i in \<open>simp add: ti_def\<close>)
      moreover have "root_ok ((inodes s)[i := ti] ! 0)" by (rule root_ok_update [OF I(2)]) (use i0 in simp)
      ultimately show ?thesis using I P s' il ne unfolding tm_inv_def by (auto simp: ti_def)
    qed
  qed
  then show "tm_inv s'" "\<not> rc < 0 \<Longrightarrow> rc = 0 \<and> ti_data_page (inode_of s' i) \<noteq> PAGE_ID_INVALID"
    "vnodes s' = vnodes s" "\<exists>p. inodes s' = (inodes s)[i := (inode_of s i)\<lparr>ti_data_page := p\<rparr>]" by auto
qed

text \<open>An open vnode of a file that has not been removed.\<close>

definition open_vnode :: "('p::len word, 'a) kfs_scheme \<Rightarrow> nat \<Rightarrow> bool" where
  "open_vnode s v \<longleftrightarrow> unat (vn_ino (vnode_of s v)) < TMPFS_INODE_MAX \<and> ti_active (inode_of s (unat (vn_ino (vnode_of s v))))
     \<and> ti_type (inode_of s (unat (vn_ino (vnode_of s v)))) = vn_type (vnode_of s v)"

lemma tmpfs_write_inv:
  fixes s :: "('p::len word, 'a) kfs_scheme"
  assumes inv: "tm_inv s" and v: "open_vnode s v" and r: "tmpfs_write now buf v page page_off n off s = (rc, s')"
  shows "tm_inv s'"
proof (cases "vn_type (vnode_of s v) = VNODE_DIR")
  case True
  then show ?thesis using r inv by (simp add: tmpfs_write_def)
next
  case False
  define i where "i = unat (vn_ino (vnode_of s v))"
  have i: "i < TMPFS_INODE_MAX" "ti_active (inode_of s i)" "ti_type (inode_of s i) \<noteq> VNODE_DIR" using v False by (auto simp: open_vnode_def i_def)
  define t where "t = ti_upd s i (ti_modified now)"
  have t: "tm_inv t" unfolding t_def by (rule tm_inv_modified [OF inv])
  have il: "i < length (inodes s)" using i(1) tm_invD(1) [OF inv] by simp
  have it: "ti_active (inode_of t i)" "ti_type (inode_of t i) \<noteq> VNODE_DIR" using i il by (simp_all add: t_def ti_modified_def)
  obtain rc' u where f: "first_page i t = (rc', u)" by fastforce
  have u: "tm_inv u" by (rule first_page_inv(1) [OF t i(1) it f])
  have sz: "tm_inv (ti_upd w i (\<lambda>ti. ti\<lparr>ti_size := k\<rparr>))" if "tm_inv w" for w :: "('p word, 'a) kfs_scheme" and k
    by (rule tm_inv_attr [OF that]) simp_all
  have "tm_inv (ti_upd (u\<lparr>ram := m\<rparr>) i (\<lambda>ti. ti\<lparr>ti_size := k\<rparr>))" for m k by (rule sz) (simp add: u)
  then show ?thesis using r False t u f unfolding tmpfs_write_def i_def [symmetric] t_def [symmetric] Let_def by (auto split: if_splits)
qed

lemma tmpfs_truncate_inv:
  fixes s :: "('p::len word, 'a) kfs_scheme"
  assumes inv: "tm_inv s" and v: "open_vnode s v" and r: "tmpfs_truncate now v len s = (rc, s')"
  shows "tm_inv s'"
proof -
  note I = tm_invD [OF inv]
  define i where "i = unat (vn_ino (vnode_of s v))"
  have i: "i < length (inodes s)" "ti_active (inode_of s i)" using v I(1) by (auto simp: open_vnode_def i_def)
  define t where "t = (if len = 0 \<and> ti_data_page (inode_of s i) \<noteq> PAGE_ID_INVALID
                 then ti_upd (release_data_page s i) i (\<lambda>ti. ti\<lparr>ti_data_page := PAGE_ID_INVALID\<rparr>) else s)"
  have t: "tm_inv t" if d: "ti_type (inode_of s i) \<noteq> VNODE_DIR"
  proof (cases "len = 0 \<and> ti_data_page (inode_of s i) \<noteq> PAGE_ID_INVALID")
    case False
    then show ?thesis using inv unfolding t_def by auto
  next
    case True
    define ti where "ti = (inode_of s i)\<lparr>ti_data_page := PAGE_ID_INVALID\<rparr>"
    have i0: "i \<noteq> 0" using d I(2) unfolding root_ok_def by metis
    have "names_ok ((inodes s)[i := ti])" by (rule names_ok_same [OF I(3)]) (simp_all add: ti_def)
    moreover have "page_kinds ((inodes s)[i := ti])" by (rule page_kinds_update [OF I(4)]) (simp add: ti_def)
    moreover have "root_ok ((inodes s)[i := ti] ! 0)" by (rule root_ok_update [OF I(2)]) (use i0 in simp)
    ultimately show ?thesis using True I(1) pages_drop [OF inv i(1), of ti] unfolding tm_inv_def t_def by (simp add: ti_def)
  qed
  have sz: "tm_inv (ti_upd w i (\<lambda>ti. ti\<lparr>ti_size := k\<rparr>))" if "tm_inv w" for w :: "('p word, 'a) kfs_scheme" and k
    by (rule tm_inv_attr [OF that]) simp_all
  have "tm_inv (ti_upd (vn_upd (ti_upd t i (\<lambda>ti. ti\<lparr>ti_size := len\<rparr>)) v (\<lambda>vn. vn\<lparr>vn_size := len\<rparr>)) i (ti_modified now))" if "tm_inv t"
    by (rule tm_inv_modified) (simp add: sz that)
  then show ?thesis using r inv t unfolding tmpfs_truncate_def i_def [symmetric] Let_def t_def [symmetric]
    by (auto split: if_splits)
qed

subsection \<open>Reachable states\<close>

lemma tmpfs_mount_inv:
  fixes s :: "('p::len word, 'a) kfs_scheme"
  assumes len: "length (inodes s) = TMPFS_INODE_MAX" and pm: "page_inv (page_state s)" and r: "tmpfs_mount now mnt dev s = (0, s')"
  shows "tm_inv s'"
proof -
  define clear where "clear = map (\<lambda>ti. ti\<lparr>ti_active := False, ti_data_page := PAGE_ID_INVALID :: 'p word\<rparr>) (inodes s)"
  obtain ti where s': "inodes s' = clear[0 := ti]" "page_state s' = page_state s" "data_pages_used s' = 0"
    and ti: "root_ok ti" "ti_data_page ti = PAGE_ID_INVALID"
  proof -
    obtain root where "inodes s' = clear[0 := (clear ! 0)\<lparr>ti_active := True, ti_type := VNODE_DIR, ti_mode := S_IFDIR OR 0x1ED, ti_size := 0,
                ti_parent_ino := 0, ti_data_page := PAGE_ID_INVALID, ti_mtime := now, ti_ctime := now, ti_atime := now, ti_name := []\<rparr>]"
      "page_state s' = page_state s" "data_pages_used s' = 0"
      using r vnode_alloc_kfs [of s] unfolding tmpfs_mount_def Let_def
      by (cases "vfs_vnode_alloc s") (auto simp: mnt_upd_def clear_def split: option.splits)
    then show ?thesis by (rule that) (simp_all add: root_ok_def)
  qed
  have cl: "length clear = TMPFS_INODE_MAX" using len by (simp add: clear_def)
  have no: "\<not> ti_active (clear[0 := ti] ! i)" if "i < TMPFS_INODE_MAX" "i \<noteq> 0" for i using that len by (simp add: clear_def)
  have "ti_data_page x = PAGE_ID_INVALID" if "x \<in> set (clear[0 := ti])" for x
    using that set_update_subset_insert [of clear 0 ti] ti(2) by (auto simp: clear_def)
  then have "owned (clear[0 := ti]) = {#}" "page_kinds (clear[0 := ti])"
    by (auto simp: owned_def page_kinds_def filter_mset_eq_conv image_iff in_set_conv_nth simp del: mset_map map_update)
  moreover have "names_ok (clear[0 := ti])" unfolding names_ok_def using no cl by (metis length_list_update)
  moreover have "root_ok (clear[0 := ti] ! 0)" using ti(1) cl by simp
  ultimately show ?thesis using cl pm by (simp add: tm_inv_def s' pages_ok_def)
qed

text \<open>Operations on open files and directories with names that fit, and steps of the rest of the system:
  they leave the inode table alone and do not free data pages of tmpfs.\<close>

definition good_name :: "string \<Rightarrow> bool" where
  "good_name name \<longleftrightarrow> name \<noteq> [] \<and> length name \<le> TMPFS_NAME_MAX"

inductive tm_step :: "('p::len word, 'a) kfs_scheme \<Rightarrow> ('p word, 'a) kfs_scheme \<Rightarrow> bool" where
  create: "good_name name \<Longrightarrow> tmpfs_create now dir name mode s = (rc, v, s') \<Longrightarrow> tm_step s s'"
| mkdir: "good_name name \<Longrightarrow> tmpfs_mkdir now dir name mode s = (rc, s') \<Longrightarrow> tm_step s s'"
| unlink: "good_name name \<Longrightarrow> tmpfs_unlink now dir name s = (rc, s') \<Longrightarrow> tm_step s s'"
| rename: "good_name old_name \<Longrightarrow> good_name new_name \<Longrightarrow> tmpfs_rename now old_dir old_name new_dir new_name s = (rc, s') \<Longrightarrow> tm_step s s'"
| put: "open_vnode s v \<Longrightarrow> tmpfs_write now buf v page page_off n off s = (rc, s') \<Longrightarrow> tm_step s s'"
| truncate: "open_vnode s v \<Longrightarrow> tmpfs_truncate now v len s = (rc, s') \<Longrightarrow> tm_step s s'"
| utimes: "tmpfs_utimes now v atime mtime s = (rc, s') \<Longrightarrow> tm_step s s'"
| chmod: "tmpfs_chmod now v mode s = (rc, s') \<Longrightarrow> tm_step s s'"
| other: "inodes s' = inodes s \<Longrightarrow> data_pages_used s' = data_pages_used s \<Longrightarrow> page_inv (page_state s')
    \<Longrightarrow> page_arena (page_state s') = page_arena (page_state s)
    \<Longrightarrow> \<forall>p\<in>#owned (inodes s). unat p \<notin> page_frames (page_state s') \<Longrightarrow> tm_step s s'"

interpretation tm_run: step_system tm_step "tm_inv :: ('p::len word, 'a) kfs_scheme \<Rightarrow> bool"
proof
  fix s s' :: "('p word, 'a) kfs_scheme"
  assume "tm_step s s'" and inv: "tm_inv s"
  then show "tm_inv s'"
  proof (cases rule: tm_step.cases)
    case utimes
    then show ?thesis using tm_inv_attr [OF inv] by (auto simp: tmpfs_utimes_def)
  next
    case (chmod now v mode rc)
    define g where "g = (\<lambda>ti :: 'p word tmpfs_inode. ti\<lparr>ti_mode := (ti_mode (inode_of s (unat (vn_ino (vnode_of s v)))) AND S_IFMT) OR (mode AND 0xFFF), ti_ctime := now\<rparr>)"
    have "tm_inv (ti_upd s i g)" for i by (rule tm_inv_attr [OF inv]) (simp_all add: g_def)
    then show ?thesis using chmod by (auto simp: tmpfs_chmod_def Let_def g_def)
  next
    case other
    then show ?thesis using inv by (auto simp: tm_inv_def pages_ok_def)
  qed (use inv tmpfs_create_inv tmpfs_mkdir_inv tmpfs_unlink_inv tmpfs_rename_inv tmpfs_write_inv tmpfs_truncate_inv in \<open>auto simp: good_name_def\<close>)
qed

lemma owned_index:
  assumes "\<forall>p. count (owned tis) p \<le> 1"
  shows "size (owned tis) = card {i. i < length tis \<and> ti_data_page (tis ! i) \<noteq> PAGE_ID_INVALID}"
    and "\<And>i j. i < length tis \<Longrightarrow> j < length tis \<Longrightarrow> i \<noteq> j \<Longrightarrow> ti_data_page (tis ! i) \<noteq> PAGE_ID_INVALID \<Longrightarrow> ti_data_page (tis ! i) \<noteq> ti_data_page (tis ! j)"
proof -
  show "size (owned tis) = card {i. i < length tis \<and> ti_data_page (tis ! i) \<noteq> PAGE_ID_INVALID}"
    by (simp only: owned_def mset_filter [symmetric] size_mset length_filter_conv_card length_map) (rule arg_cong [where f = card], auto)
  fix i j assume i: "i < length tis" "j < length tis" "i \<noteq> j" "ti_data_page (tis ! i) \<noteq> PAGE_ID_INVALID"
  show "ti_data_page (tis ! i) \<noteq> ti_data_page (tis ! j)"
  proof
    assume eq: "ti_data_page (tis ! i) = ti_data_page (tis ! j)"
    let ?p = "ti_data_page (tis ! i)"
    have "{i, j} \<subseteq> {k. k < length tis \<and> ?p = ti_data_page (tis ! k)}" using i(1,2) eq by auto
    from card_mono [OF _ this] have "2 \<le> card {k. k < length tis \<and> ?p = ti_data_page (tis ! k)}" using i(3) by simp
    also have "\<dots> = count (mset (map ti_data_page tis)) ?p" by (simp only: count_mset length_map count_list_eq_length_filter length_filter_conv_card) (rule arg_cong [where f = card], auto)
    also have "\<dots> = count (owned tis) ?p" using i(4) by (simp add: owned_def del: mset_map)
    finally show False using assms by (metis One_nat_def Suc_1 not_less_eq_eq)
  qed
qed

text \<open>C14: tmpfs stays consistent. From a successful mount on, under every sequence of operations with names
  of 1 to 31 characters on vnodes of files that were not removed, interleaved with other users of memory:
  a data page belongs to one file, is in the arena of the page allocator and not free there; the number of data
  pages is counted and at most two; a name occurs once in a directory; the root directory stays.\<close>

theorem tmpfs_consistent:
  fixes s0 s1 s :: "('p::len word, 'a) kfs_scheme"
  assumes "length (inodes s0) = TMPFS_INODE_MAX" "page_inv (page_state s0)" "tmpfs_mount now mnt dev s0 = (0, s1)" "tm_step\<^sup>*\<^sup>* s1 s"
  shows "(\<forall>i < TMPFS_INODE_MAX. ti_data_page (inode_of s i) \<noteq> PAGE_ID_INVALID \<longrightarrow> ti_active (inode_of s i) \<and> ti_type (inode_of s i) \<noteq> VNODE_DIR
      \<and> unat (ti_data_page (inode_of s i)) \<in> page_arena (page_state s) - page_frames (page_state s))
    \<and> (\<forall>i < TMPFS_INODE_MAX. \<forall>j < TMPFS_INODE_MAX. i \<noteq> j \<longrightarrow> ti_data_page (inode_of s i) \<noteq> PAGE_ID_INVALID
      \<longrightarrow> ti_data_page (inode_of s i) \<noteq> ti_data_page (inode_of s j))
    \<and> (unat (data_pages_used s) = card {i. i < TMPFS_INODE_MAX \<and> ti_data_page (inode_of s i) \<noteq> PAGE_ID_INVALID})
    \<and> (data_pages_used s \<le> TMPFS_MAX_PAGES)
    \<and> (\<forall>i < TMPFS_INODE_MAX. \<forall>j < TMPFS_INODE_MAX. ti_active (inode_of s i) \<longrightarrow> ti_active (inode_of s j)
      \<longrightarrow> ti_parent_ino (inode_of s i) = ti_parent_ino (inode_of s j) \<longrightarrow> ti_name (inode_of s i) = ti_name (inode_of s j) \<longrightarrow> i = j)
    \<and> (ti_active (inode_of s 0) \<and> ti_type (inode_of s 0) = VNODE_DIR)"
proof -
  have "tm_inv s" using tm_run.reach_inv [OF assms(4)] tmpfs_mount_inv [OF assms(1-3)] by blast
  note I = tm_invD [OF this]
  have P: "\<forall>p. count (owned (inodes s)) p \<le> 1" using I(5) by (simp add: pages_ok_def)
  show ?thesis
  proof (intro conjI)
  show "\<forall>i < TMPFS_INODE_MAX. ti_data_page (inode_of s i) \<noteq> PAGE_ID_INVALID \<longrightarrow> ti_active (inode_of s i) \<and> ti_type (inode_of s i) \<noteq> VNODE_DIR
      \<and> unat (ti_data_page (inode_of s i)) \<in> page_arena (page_state s) - page_frames (page_state s)"
    using I(1,4,5) owned_mem [of _ "inodes s"] unfolding page_kinds_def pages_ok_def by (metis nth_mem)
  show "\<forall>i < TMPFS_INODE_MAX. \<forall>j < TMPFS_INODE_MAX. i \<noteq> j \<longrightarrow> ti_data_page (inode_of s i) \<noteq> PAGE_ID_INVALID
      \<longrightarrow> ti_data_page (inode_of s i) \<noteq> ti_data_page (inode_of s j)"
    using owned_index(2) [OF P] I(1) by simp
  show "unat (data_pages_used s) = card {i. i < TMPFS_INODE_MAX \<and> ti_data_page (inode_of s i) \<noteq> PAGE_ID_INVALID}"
    using owned_index(1) [OF P] I(1,5) by (simp add: pages_ok_def)
  show "data_pages_used s \<le> TMPFS_MAX_PAGES" using I(5) by (simp add: pages_ok_def word_le_nat_alt)
  show "\<forall>i < TMPFS_INODE_MAX. \<forall>j < TMPFS_INODE_MAX. ti_active (inode_of s i) \<longrightarrow> ti_active (inode_of s j)
      \<longrightarrow> ti_parent_ino (inode_of s i) = ti_parent_ino (inode_of s j) \<longrightarrow> ti_name (inode_of s i) = ti_name (inode_of s j) \<longrightarrow> i = j"
    using I(1,3) by (simp add: names_ok_def)
  show "ti_active (inode_of s 0)" "ti_type (inode_of s 0) = VNODE_DIR" using I(2) by (simp_all add: root_ok_def)
  qed
qed

end
