(* ===== verification/Tmpfs_File.thy ===== *)
theory Tmpfs_File
  imports Tmpfs_Inv
begin

text \<open>
  What tmpfs stores. The bytes of a file are a function of the memory and of its inode: reading returns them,
  writing changes exactly the range it is given. Directories are a map from a directory and a name to an
  inode: creating, removing and renaming entries are updates of this map, listing enumerates it. Two facts show
  where the code falls short: renaming an entry to itself removes it, and a file made longer than a page by
  truncation can be read beyond its page.
\<close>

subsection \<open>Copying data\<close>

lemma unat_diff_window:
  fixes k :: u32 and c chunk :: u16
  assumes "unat c + unat chunk < 65536"
  shows "unat (k - ucast c) < unat chunk \<longleftrightarrow> unat c \<le> unat k \<and> unat k < unat c + unat chunk"
    and "unat c \<le> unat k \<Longrightarrow> unat (k - ucast c) = unat k - unat c"
proof -
  have C: "unat (ucast c :: u32) = unat c" by simp
  show ge: "unat (k - ucast c) = unat k - unat c" if "unat c \<le> unat k"
    using that C by (simp add: unat_sub word_le_nat_alt)
  show "unat (k - ucast c) < unat chunk \<longleftrightarrow> unat c \<le> unat k \<and> unat k < unat c + unat chunk"
  proof (cases "unat c \<le> unat k")
    case True
    then show ?thesis using ge by auto
  next
    case False
    have "unat (k - ucast c) = 2 ^ 32 + unat k - unat c"
      using False C by (simp add: unat_sub_if' )
    then show ?thesis using False assms by auto
  qed
qed

lemma ucast_add_16_32:
  fixes x y :: u16
  assumes "unat x + unat y < 65536"
  shows "(ucast (x + y) :: u32) = ucast x + ucast y"
  using assms by (simp add: word_unat_eq_iff unat_word_ariths)

lemma copy_loop_spec:
  fixes src dst :: "'p::len word" and n c so doff :: u16
  defines "A \<equiv> page_linear src + ucast so" and "B \<equiv> page_linear dst + ucast doff"
  assumes pid: "src \<noteq> PAGE_ID_INVALID" "dst \<noteq> PAGE_ID_INVALID" and fit: "unat so + unat n < 65536" "unat doff + unat n < 65536"
    and apart: "\<And>i j. i < unat n \<Longrightarrow> j < unat n \<Longrightarrow> A + of_nat i \<noteq> B + of_nat j"
  shows "copy_loop src so dst doff n c buf m a =
    (let k = unat (a - B) in if unat c \<le> k \<and> k < unat n then m (A + of_nat k) else m a)"
proof (induction "unat n - unat c" arbitrary: c buf m rule: less_induct)
  case less
  show ?case
  proof (cases "c < n")
    case False
    then show ?thesis by (subst copy_loop.simps) (auto simp: Let_def word_less_nat_alt)
  next
    case c: True
    define chunk where "chunk = (if 64 < n - c then 64 else n - c)"
    have cu: "unat chunk = min 64 (unat n - unat c)" "unat (c + chunk) = unat c + unat chunk"
      using chunk_step [OF c, of 64] by (simp_all add: chunk_def)
    have cn: "unat c < unat n" using c by (simp add: word_less_nat_alt)
    have pos: "0 < unat chunk" "chunk \<noteq> 0" using cu(1) cn by (auto simp: unat_gt_0)
    have le: "unat c + unat chunk \<le> unat n" using cu(1) cn by linarith
    have small: "unat c + unat chunk < 65536" using le unat_u16_less [of n] by linarith
    define buf' where "buf' = page_read m src (so + c) buf chunk"
    define m' where "m' = page_write m dst (doff + c) buf' chunk"
    have so: "(ucast (so + c) :: u32) = ucast so + ucast c" "(ucast (doff + c) :: u32) = ucast doff + ucast c"
      using fit cn by (simp_all add: ucast_add_16_32)
    have b: "buf' ! k = m (A + of_nat (unat c + k))" if "k < unat chunk" for k
    proof -
      have "of_nat (unat c) = (ucast c :: u32)" by (simp add: word_unat_eq_iff unat_of_nat)
      then show ?thesis using that pos pid unfolding buf'_def page_read_def so A_def by (simp add: nth_append add.assoc)
    qed
    have m': "m' x = (if unat c \<le> unat (x - B) \<and> unat (x - B) < unat c + unat chunk then m (A + of_nat (unat (x - B))) else m x)" for x
    proof -
      have e: "x - (page_linear dst + (ucast doff + ucast c)) = (x - B) - ucast c" by (simp add: B_def)
      show ?thesis
      proof (cases "unat c \<le> unat (x - B) \<and> unat (x - B) < unat c + unat chunk")
        case True
        then have k: "unat ((x - B) - ucast c) = unat (x - B) - unat c" "unat ((x - B) - ucast c) < unat chunk"
          using unat_diff_window [OF small, of "x - B"] by auto
        then have "m' x = buf' ! (unat (x - B) - unat c)" unfolding m'_def page_write_def so using pid pos by (simp add: Let_def e)
        then show ?thesis using b [of "unat (x - B) - unat c"] k True by simp
      next
        case False
        then have "\<not> unat ((x - B) - ucast c) < unat chunk" using unat_diff_window(1) [OF small, of "x - B"] by blast
        then show ?thesis unfolding m'_def page_write_def so using False by (auto simp: Let_def e)
      qed
    qed
    have src: "m' (A + of_nat k) = m (A + of_nat k)" if k: "k < unat n" for k
    proof -
      have "\<not> unat (A + of_nat k - B) < unat n"
      proof
        assume l: "unat (A + of_nat k - B) < unat n"
        have "A + of_nat k = B + of_nat (unat (A + of_nat k - B))" by simp
        then show False using apart [OF k l] by blast
      qed
      then show ?thesis using m' le by simp
    qed
    have "unat n - unat (c + chunk) < unat n - unat c" using cu(2) pos cn by linarith
    from less.hyps [OF this, of buf' m']
    have IH: "copy_loop src so dst doff n (c + chunk) buf' m' a =
      (let k = unat (a - B) in if unat c + unat chunk \<le> k \<and> k < unat n then m' (A + of_nat k) else m' a)" by (simp add: cu(2))
    have "copy_loop src so dst doff n c buf m a = copy_loop src so dst doff n (c + chunk) buf' m' a"
      using c by (subst copy_loop.simps) (simp add: Let_def chunk_def [symmetric] buf'_def [symmetric] m'_def [symmetric])
    also have "\<dots> = (let k = unat (a - B) in if unat c \<le> k \<and> k < unat n then m (A + of_nat k) else m a)"
    proof (cases "unat c + unat chunk \<le> unat (a - B) \<and> unat (a - B) < unat n")
      case True
      then show ?thesis unfolding IH Let_def using src [of "unat (a - B)"] by simp
    next
      case False
      then show ?thesis unfolding IH Let_def using m' [of a] le by auto
    qed
    finally show ?thesis .
  qed
qed

text \<open>Pages below the 4 GB limit do not overlap.\<close>

definition page_fits :: "'p::len word \<Rightarrow> bool" where
  "page_fits p \<longleftrightarrow> p \<noteq> PAGE_ID_INVALID \<and> unat p < 2 ^ 20"

lemma page_linear_at:
  fixes p :: "'p::len word"
  assumes "page_fits p" "k < 4096"
  shows "unat (page_linear p + of_nat k) = unat p * 4096 + k"
proof -
  have b: "unat p < 1048576" using assms(1) by (simp add: page_fits_def)
  then have u: "unat (ucast p :: u32) = unat p" by (simp add: unsigned_ucast_eq take_bit_nat_eq_self)
  have "unat p * 4096 + k < 2 ^ 32" using b assms(2) by simp
  moreover have "unat (page_linear p) = unat p * 4096"
    using assms(1) b u by (simp add: page_linear_def page_id_linear_def page_fits_def unat_word_ariths)
  ultimately show ?thesis by (simp add: unat_word_ariths unat_of_nat)
qed

lemma pages_apart:
  fixes p q :: "'p::len word"
  assumes "page_fits p" "page_fits q" "p \<noteq> q" "i < 4096" "j < 4096"
  shows "page_linear p + of_nat i \<noteq> page_linear q + of_nat j"
proof
  assume "page_linear p + of_nat i = page_linear q + of_nat j"
  then have "unat p * 4096 + i = unat q * 4096 + j" using page_linear_at assms by metis
  then have "(unat p * 4096 + i) div 4096 = (unat q * 4096 + j) div 4096" by simp
  then have "unat p = unat q" using assms(4,5) by simp
  then show False using assms(3) by (simp add: word_unat_eq_iff)
qed

lemma page_offset:
  fixes p :: "'p::len word"
  assumes "page_fits p" "k < 4096" "unat (x :: u16) \<le> 4096"
  shows "unat (page_linear p + of_nat k - (page_linear p + ucast x)) = (if unat x \<le> k then k - unat x else k + 2 ^ 32 - unat x)"
proof -
  have e: "page_linear p + of_nat k - (page_linear p + ucast x) = (of_nat k - ucast x :: u32)" by simp
  have k: "unat (of_nat k :: u32) = k" using assms(2) by (simp add: unat_of_nat)
  show ?thesis unfolding e by (simp add: unat_sub_if' k)
qed

subsection \<open>Reading and writing\<close>

text \<open>Byte \<open>k\<close> of the page of a file: a file without a page is zero.\<close>

definition file_byte :: "('p::len word, 'a) kfs_scheme \<Rightarrow> nat \<Rightarrow> nat \<Rightarrow> u8" where
  "file_byte s i k = (if ti_data_page (inode_of s i) = PAGE_ID_INVALID then 0 else ram s (page_linear (ti_data_page (inode_of s i)) + of_nat k))"

text \<open>A page that is neither free nor used by tmpfs: the page of a caller.\<close>

definition caller_page :: "('p::len word, 'a) kfs_scheme \<Rightarrow> 'p word \<Rightarrow> bool" where
  "caller_page s p \<longleftrightarrow> page_fits p \<and> unat p \<notin> page_frames (page_state s) \<and> (\<forall>i < TMPFS_INODE_MAX. ti_data_page (inode_of s i) \<noteq> p)"

definition arena_fits :: "('p::len word, 'a) kfs_scheme \<Rightarrow> bool" where
  "arena_fits s \<longleftrightarrow> (\<forall>x \<in> page_arena (page_state s). x < 2 ^ 20)"

lemma data_page_fits:
  assumes "tm_inv s" "arena_fits s" "i < TMPFS_INODE_MAX" "ti_data_page (inode_of s i) \<noteq> PAGE_ID_INVALID"
  shows "page_fits (ti_data_page (inode_of s i))"
proof -
  have "ti_data_page (inode_of s i) \<in># owned (inodes s)" using owned_mem assms(3,4) tm_invD(1) [OF assms(1)] by metis
  then show ?thesis using assms(2,4) tm_invD(5) [OF assms(1)] by (auto simp: pages_ok_def page_fits_def arena_fits_def)
qed

lemma data_pages_differ:
  assumes "tm_inv s" "i < TMPFS_INODE_MAX" "j < TMPFS_INODE_MAX" "i \<noteq> j" "ti_data_page (inode_of s i) \<noteq> PAGE_ID_INVALID"
  shows "ti_data_page (inode_of s i) \<noteq> ti_data_page (inode_of s j)"
proof -
  have "\<forall>p. count (owned (inodes s)) p \<le> 1" using tm_invD(5) [OF assms(1)] by (simp add: pages_ok_def)
  from owned_index(2) [OF this, of i j] show ?thesis using assms tm_invD(1) [OF assms(1)] by simp
qed

lemma page_zero_byte:
  fixes p :: "'p::len word"
  assumes "page_fits p" "k < 4096"
  shows "page_zero m p 0 (ucast PAGE_SIZE) (page_linear p + of_nat k) = 0"
  using assms page_offset [of p k 0] by (simp add: page_zero_def page_fits_def Let_def)

lemma page_zero_other:
  fixes p q :: "'p::len word"
  assumes "page_fits p" "page_fits q" "p \<noteq> q" "k < 4096"
  shows "page_zero m p 0 (ucast PAGE_SIZE) (page_linear q + of_nat k) = m (page_linear q + of_nat k)"
proof -
  have "\<not> unat (page_linear q + of_nat k - page_linear p) < 4096"
  proof
    assume l: "unat (page_linear q + of_nat k - page_linear p) < 4096"
    have "page_linear q + of_nat k = page_linear p + of_nat (unat (page_linear q + of_nat k - page_linear p))" by simp
    then show False using pages_apart [OF assms(2,1) assms(3) [symmetric] assms(4) l] by blast
  qed
  then show ?thesis by (simp add: page_zero_def Let_def)
qed

text \<open>The first page of a file is zero; taking it changes no byte of any file.\<close>

lemma first_page_spec:
  fixes s :: "('p::len word, 'a) kfs_scheme"
  assumes inv: "tm_inv s" and fits: "arena_fits s" and i: "i < TMPFS_INODE_MAX" "ti_active (inode_of s i)" "ti_type (inode_of s i) \<noteq> VNODE_DIR"
    and r: "first_page i s = (rc, s')"
  shows "rc = (if ti_data_page (inode_of s i) \<noteq> PAGE_ID_INVALID then 0 else if TMPFS_MAX_PAGES \<le> data_pages_used s then - ENOSPC
      else if page_frames (page_state s) = {} then - ENOMEM else 0)"
    and "\<And>j k. j < TMPFS_INODE_MAX \<Longrightarrow> k < 4096 \<Longrightarrow> file_byte s' j k = file_byte s j k"
    and "\<And>p k. caller_page s p \<Longrightarrow> k < 4096 \<Longrightarrow> ram s' (page_linear p + of_nat k) = ram s (page_linear p + of_nat k)"
    and "\<And>p. caller_page s p \<Longrightarrow> ti_data_page (inode_of s' i) \<noteq> p" and "arena_fits s'"
proof -
  note I = tm_invD [OF inv]
  have il: "i < length (inodes s)" using i I(1) by simp
  have "rc = (if ti_data_page (inode_of s i) \<noteq> PAGE_ID_INVALID then 0 else if TMPFS_MAX_PAGES \<le> data_pages_used s then - ENOSPC
      else if page_frames (page_state s) = {} then - ENOMEM else 0)
    \<and> (\<forall>j k. j < TMPFS_INODE_MAX \<longrightarrow> k < 4096 \<longrightarrow> file_byte s' j k = file_byte s j k)
    \<and> (\<forall>p k. caller_page s p \<longrightarrow> k < 4096 \<longrightarrow> ram s' (page_linear p + of_nat k) = ram s (page_linear p + of_nat k))
    \<and> (\<forall>p. caller_page s p \<longrightarrow> ti_data_page (inode_of s' i) \<noteq> p) \<and> arena_fits s'"
  proof (cases "ti_data_page (inode_of s i) \<noteq> PAGE_ID_INVALID \<or> TMPFS_MAX_PAGES \<le> data_pages_used s")
    case True
    then have "s' = s" using r by (auto simp: first_page_def split: if_splits)
    then show ?thesis using True r fits i(1) by (auto simp: first_page_def caller_page_def split: if_splits)
  next
    case False
    then have no: "ti_data_page (inode_of s i) = PAGE_ID_INVALID" and nr: "\<not> TMPFS_MAX_PAGES \<le> data_pages_used s"
      and room: "data_pages_used s < TMPFS_MAX_PAGES" by auto
    obtain rc' rg pm where a: "region_alloc (page_state s) PPAP_MEM_RAM_DATA PAGE_SIZE 0 (Some \<lparr>rg_base = 0, rg_base_page = 0\<rparr>) = (rc', rg, pm)"
      by (metis prod_cases3)
    note A = pages_ok_alloc [OF I(5) room a]
    have inv': "page_inv (page_state s)" using I(5) by (simp add: pages_ok_def)
    have pm: "page_arena pm = page_arena (page_state s)" "rc' < 0 \<longleftrightarrow> page_frames (page_state s) = {}"
    proof -
      have one: "region_page_count PAGE_SIZE = 1" by (simp add: region_page_count_def)
      have pa: "pm = snd (page_alloc (page_state s))" "rc' = (if fst (page_alloc (page_state s)) = PAGE_ID_INVALID then - ENOMEM else 0)"
        using a one by (auto simp: region_alloc_def mem_helper_alloc_def region_alloc_page_backed_def Let_def split_beta split: if_splits)
      show "page_arena pm = page_arena (page_state s)" by (simp add: pa(1) page_alloc_arena)
      have "fst (page_alloc (page_state s)) \<noteq> PAGE_ID_INVALID" if "page_frames (page_state s) \<noteq> {}"
        using page_alloc_aux [OF inv'] that Max_in [of "page_frames (page_state s)"] blk_free_ne_invalid [OF page_invD(1) [OF inv']]
        by (auto simp: split_beta page_frames_def)
      then show "rc' < 0 \<longleftrightarrow> page_frames (page_state s) = {}" using page_alloc_aux [OF inv'] by (auto simp: pa(2))
    qed
    show ?thesis
    proof (cases "rc' < 0")
      case True
      then have s': "rc = - ENOMEM" "s' = s\<lparr>page_state := pm\<rparr>" using r no nr a by (auto simp: first_page_def)
      then show ?thesis using True pm no nr fits i(1) by (auto simp: file_byte_def caller_page_def arena_fits_def page_fits_def)
    next
      case ok: False
      define pid where "pid = rg_base_page (the rg)"
      have fr: "unat pid \<in> page_frames (page_state s)" and ne: "pid \<noteq> PAGE_ID_INVALID" using A ok by (auto simp: pid_def)
      have pf: "page_fits pid" using fr ne fits page_invD(2) [OF inv'] by (auto simp: page_fits_def arena_fits_def)
      have s': "rc = 0" "inodes s' = (inodes s)[i := (inode_of s i)\<lparr>ti_data_page := pid\<rparr>]" "page_state s' = pm"
        "ram s' = page_zero (ram s) pid 0 (ucast PAGE_SIZE)"
        using r no nr a ok by (auto simp: first_page_def Let_def pid_def)
      have oth: "ti_data_page (inode_of s j) \<noteq> pid" if "j < TMPFS_INODE_MAX" for j
      proof
        assume e: "ti_data_page (inode_of s j) = pid"
        then have "pid \<in># owned (inodes s)" using owned_mem [of j "inodes s"] that I(1) ne by auto
        then show False using I(5) fr by (auto simp: pages_ok_def)
      qed
      have fb: "file_byte s' j k = file_byte s j k" if j: "j < TMPFS_INODE_MAX" and k: "k < 4096" for j k
      proof (cases "j = i")
        case True
        then show ?thesis using il no ne page_zero_byte [OF pf k] by (simp add: file_byte_def s')
      next
        case False
        show ?thesis
        proof (cases "ti_data_page (inode_of s j) = PAGE_ID_INVALID")
          case False
          then show ?thesis using \<open>j \<noteq> i\<close> page_zero_other [OF pf data_page_fits [OF inv fits j False] oth [OF j, symmetric] k]
            by (simp add: file_byte_def s')
        qed (use \<open>j \<noteq> i\<close> in \<open>simp add: file_byte_def s'\<close>)
      qed
      have "ram s' (page_linear p + of_nat k) = ram s (page_linear p + of_nat k)" if "caller_page s p" "k < 4096" for p k
      proof -
        have "p \<noteq> pid" "page_fits p" using that(1) fr by (auto simp: caller_page_def)
        then show ?thesis using page_zero_other [OF pf _ _ that(2), of p] by (simp add: s')
      qed
      moreover have "ti_data_page (inode_of s' i) \<noteq> p" if "caller_page s p" for p
        using that fr il by (auto simp: caller_page_def s')
      ultimately show ?thesis using fb ok pm no nr s' fits by (simp add: arena_fits_def)
    qed
  qed
  then show "rc = (if ti_data_page (inode_of s i) \<noteq> PAGE_ID_INVALID then 0 else if TMPFS_MAX_PAGES \<le> data_pages_used s then - ENOSPC
      else if page_frames (page_state s) = {} then - ENOMEM else 0)"
    "\<And>j k. j < TMPFS_INODE_MAX \<Longrightarrow> k < 4096 \<Longrightarrow> file_byte s' j k = file_byte s j k"
    "\<And>p k. caller_page s p \<Longrightarrow> k < 4096 \<Longrightarrow> ram s' (page_linear p + of_nat k) = ram s (page_linear p + of_nat k)"
    "\<And>p. caller_page s p \<Longrightarrow> ti_data_page (inode_of s' i) \<noteq> p" "arena_fits s'" by blast+
qed

lemma zero_loop_spec:
  fixes dst :: "'p::len word" and n c doff :: u16
  defines "B \<equiv> page_linear dst + ucast doff"
  assumes pid: "dst \<noteq> PAGE_ID_INVALID" and fit: "unat doff + unat n < 65536"
  shows "zero_loop dst doff n c m a = (let k = unat (a - B) in if unat c \<le> k \<and> k < unat n then 0 else m a)"
proof (induction "unat n - unat c" arbitrary: c m rule: less_induct)
  case less
  show ?case
  proof (cases "c < n")
    case False
    then show ?thesis by (subst zero_loop.simps) (auto simp: Let_def word_less_nat_alt)
  next
    case c: True
    define chunk where "chunk = (if 32 < n - c then 32 else n - c)"
    have cu: "unat chunk = min 32 (unat n - unat c)" "unat (c + chunk) = unat c + unat chunk"
      using chunk_step [OF c, of 32] by (simp_all add: chunk_def)
    have cn: "unat c < unat n" using c by (simp add: word_less_nat_alt)
    have pos: "0 < unat chunk" "chunk \<noteq> 0" using cu(1) cn by (auto simp: unat_gt_0)
    have le: "unat c + unat chunk \<le> unat n" "unat chunk \<le> 32" using cu(1) cn by linarith+
    have small: "unat c + unat chunk < 65536" using le unat_u16_less [of n] by linarith
    define m' where "m' = page_write m dst (doff + c) (replicate 32 0) chunk"
    have so: "(ucast (doff + c) :: u32) = ucast doff + ucast c" using fit cn by (simp add: ucast_add_16_32)
    have m': "m' x = (if unat c \<le> unat (x - B) \<and> unat (x - B) < unat c + unat chunk then 0 else m x)" for x
    proof -
      have e: "x - (page_linear dst + (ucast doff + ucast c)) = (x - B) - ucast c" by (simp add: B_def)
      show ?thesis unfolding m'_def page_write_def so using pid pos le(2) unat_diff_window [OF small, of "x - B"]
        by (auto simp: Let_def e)
    qed
    have "unat n - unat (c + chunk) < unat n - unat c" using cu(2) pos cn by linarith
    from less.hyps [OF this, of m']
    have IH: "zero_loop dst doff n (c + chunk) m' a =
      (let k = unat (a - B) in if unat c + unat chunk \<le> k \<and> k < unat n then 0 else m' a)" by (simp add: cu(2))
    have "zero_loop dst doff n c m a = zero_loop dst doff n (c + chunk) m' a"
      using c by (subst zero_loop.simps) (simp add: Let_def chunk_def [symmetric] m'_def [symmetric])
    then show ?thesis unfolding IH Let_def using m' [of a] le by auto
  qed
qed

lemma sint_u32: "sint (w :: u32) = (if unat w < 2147483648 then int (unat w) else int (unat w) - 4294967296)"
  using sint_unat [of w] by simp

lemma page_linear_add: "page_linear p + ucast (x :: u16) + of_nat k = page_linear p + of_nat (unat x + k)"
proof -
  have "of_nat (unat x) = (ucast x :: u32)" by (simp add: word_unat_eq_iff unat_of_nat)
  then show ?thesis by (simp add: add.assoc)
qed

text \<open>Where an address of a page lies in a window of the same or of another page.\<close>

lemma window_same:
  fixes p :: "'p::len word"
  assumes "page_fits p" "k < 4096" "unat (x :: u16) + n \<le> 4096"
  shows "unat (page_linear p + of_nat k - (page_linear p + ucast x)) < n \<longleftrightarrow> unat x \<le> k \<and> k < unat x + n"
    and "unat x \<le> k \<Longrightarrow> unat (page_linear p + of_nat k - (page_linear p + ucast x)) = k - unat x"
  using page_offset [OF assms(1,2), of x] assms(2,3) by auto

lemma window_other:
  fixes p q :: "'p::len word"
  assumes "page_fits p" "page_fits q" "p \<noteq> q" "k < 4096" "unat (x :: u16) + n \<le> 4096"
  shows "\<not> unat (page_linear q + of_nat k - (page_linear p + ucast x)) < n"
proof
  let ?d = "page_linear q + of_nat k - (page_linear p + ucast x)"
  assume l: "unat ?d < n"
  have "page_linear q + of_nat k = page_linear p + ucast x + of_nat (unat ?d)" by simp
  then have "page_linear q + of_nat k = page_linear p + of_nat (unat x + unat ?d)" unfolding page_linear_add .
  then show False using pages_apart [OF assms(2,1) assms(3) [symmetric] assms(4), of "unat x + unat ?d"] l assms(5) by simp
qed

lemma copy_page:
  fixes p q r :: "'p::len word" and n so doff :: u16
  assumes p: "page_fits p" and q: "page_fits q" and pq: "p \<noteq> q" and fit: "unat so + unat n \<le> 4096" "unat doff + unat n \<le> 4096" and k: "k < 4096"
  shows "copy_loop p so q doff n 0 buf m (page_linear q + of_nat k) =
      (if unat doff \<le> k \<and> k < unat doff + unat n then m (page_linear p + of_nat (unat so + (k - unat doff))) else m (page_linear q + of_nat k))"
    and "page_fits r \<Longrightarrow> r \<noteq> q \<Longrightarrow> copy_loop p so q doff n 0 buf m (page_linear r + of_nat k) = m (page_linear r + of_nat k)"
proof -
  have apart: "page_linear p + ucast so + of_nat i \<noteq> page_linear q + ucast doff + of_nat j" if "i < unat n" "j < unat n" for i j
    unfolding page_linear_add by (rule pages_apart [OF p q pq]) (use that fit in linarith)+
  have ne: "p \<noteq> PAGE_ID_INVALID" "q \<noteq> PAGE_ID_INVALID" using p q by (auto simp: page_fits_def)
  have f': "unat so + unat n < 65536" "unat doff + unat n < 65536" using fit by auto
  have S: "copy_loop p so q doff n 0 buf m a = (let k = unat (a - (page_linear q + ucast doff))
      in if unat (0 :: u16) \<le> k \<and> k < unat n then m (page_linear p + ucast so + of_nat k) else m a)" for a
    by (rule copy_loop_spec [OF ne f']) (rule apart)
  show "copy_loop p so q doff n 0 buf m (page_linear q + of_nat k) =
      (if unat doff \<le> k \<and> k < unat doff + unat n then m (page_linear p + of_nat (unat so + (k - unat doff))) else m (page_linear q + of_nat k))"
    unfolding S Let_def page_linear_add using window_same [OF q k fit(2)] by auto
  show "copy_loop p so q doff n 0 buf m (page_linear r + of_nat k) = m (page_linear r + of_nat k)" if "page_fits r" "r \<noteq> q"
    unfolding S Let_def using window_other [OF q that(1) that(2) [symmetric] k fit(2)] by simp
qed

lemma zero_page:
  fixes q r :: "'p::len word" and n doff :: u16
  assumes q: "page_fits q" and fit: "unat doff + unat n \<le> 4096" and k: "k < 4096"
  shows "zero_loop q doff n 0 m (page_linear q + of_nat k) = (if unat doff \<le> k \<and> k < unat doff + unat n then 0 else m (page_linear q + of_nat k))"
    and "page_fits r \<Longrightarrow> r \<noteq> q \<Longrightarrow> zero_loop q doff n 0 m (page_linear r + of_nat k) = m (page_linear r + of_nat k)"
proof -
  have ne: "q \<noteq> PAGE_ID_INVALID" using q by (auto simp: page_fits_def)
  have f': "unat doff + unat n < 65536" using fit by auto
  note S = zero_loop_spec [OF ne f', of 0 m]
  show "zero_loop q doff n 0 m (page_linear q + of_nat k) = (if unat doff \<le> k \<and> k < unat doff + unat n then 0 else m (page_linear q + of_nat k))"
    unfolding S Let_def using window_same(1) [OF q k fit] by auto
  show "zero_loop q doff n 0 m (page_linear r + of_nat k) = m (page_linear r + of_nat k)" if "page_fits r" "r \<noteq> q"
    unfolding S Let_def using window_other [OF q that(1) that(2) [symmetric] k fit] by simp
qed

text \<open>The copy at the end of a write.\<close>

lemma write_copy:
  fixes u s' :: "('p::len word, 'a) kfs_scheme" and page :: "'p word" and page_off doff n :: u16
  assumes u: "tm_inv u" "arena_fits u" and i: "i < TMPFS_INODE_MAX" and d: "ti_data_page (inode_of u i) \<noteq> PAGE_ID_INVALID"
    and page: "page_fits page" "page \<noteq> ti_data_page (inode_of u i)" and fit: "unat page_off + unat n \<le> 4096" "unat doff + unat n \<le> 4096"
    and pg: "\<And>j. ti_data_page (inode_of s' j) = ti_data_page (inode_of u j)"
    and rm: "ram s' = copy_loop page page_off (ti_data_page (inode_of u i)) doff n 0 buf (ram u)" and k: "k < 4096"
  shows "file_byte s' i k = (if unat doff \<le> k \<and> k < unat doff + unat n then ram u (page_linear page + of_nat (unat page_off + (k - unat doff))) else file_byte u i k)"
    and "\<And>j. j < TMPFS_INODE_MAX \<Longrightarrow> j \<noteq> i \<Longrightarrow> file_byte s' j k = file_byte u j k"
proof -
  note df = data_page_fits [OF u i d]
  show "file_byte s' i k = (if unat doff \<le> k \<and> k < unat doff + unat n then ram u (page_linear page + of_nat (unat page_off + (k - unat doff))) else file_byte u i k)"
    using copy_page(1) [OF page(1) df page(2) fit k, of buf "ram u"] d unfolding file_byte_def pg rm by auto
  show "file_byte s' j k = file_byte u j k" if j: "j < TMPFS_INODE_MAX" "j \<noteq> i" for j
  proof (cases "ti_data_page (inode_of u j) = PAGE_ID_INVALID")
    case False
    from copy_page(2) [OF page(1) df page(2) fit k data_page_fits [OF u j(1) False] data_pages_differ [OF u(1) j(1) i j(2) False], of buf "ram u"]
    show ?thesis by (simp add: file_byte_def pg rm)
  qed (simp add: file_byte_def pg)
qed

text \<open>The end of a write whose range is inside the page: the copy, and the new size.\<close>

lemma write_finish:
  fixes u s' :: "('p::len word, 'a) kfs_scheme" and page :: "'p word" and page_off :: u16 and off n :: u32
  assumes u: "tm_inv u" "arena_fits u" and i: "i < TMPFS_INODE_MAX" and d: "ti_data_page (inode_of u i) \<noteq> PAGE_ID_INVALID"
    and page: "page_fits page" "page \<noteq> ti_data_page (inode_of u i)" and fit: "unat page_off + unat n \<le> 4096" "unat off + unat n \<le> 4096"
    and s': "s' = (let s = u\<lparr>ram := copy_loop page page_off (ti_data_page (inode_of u i)) (ucast off) (ucast n) 0 buf (ram u)\<rparr>
        in if ti_size (inode_of s i) < off + n
           then vn_upd (ti_upd s i (\<lambda>ti. ti\<lparr>ti_size := off + n\<rparr>)) v (\<lambda>vn. vn\<lparr>vn_size := off + n\<rparr>) else s)"
  shows "unat (ti_size (inode_of s' i)) = max (unat (ti_size (inode_of u i))) (unat off + unat n)"
    and "j \<noteq> i \<Longrightarrow> ti_size (inode_of s' j) = ti_size (inode_of u j)"
    and "ti_mtime (inode_of s' j) = ti_mtime (inode_of u j)" "ti_ctime (inode_of s' j) = ti_ctime (inode_of u j)"
    and "k < 4096 \<Longrightarrow> file_byte s' i k = (if unat off \<le> k \<and> k < unat off + unat n
      then ram u (page_linear page + of_nat (unat page_off + (k - unat off))) else file_byte u i k)"
    and "k < 4096 \<Longrightarrow> j < TMPFS_INODE_MAX \<Longrightarrow> j \<noteq> i \<Longrightarrow> file_byte s' j k = file_byte u j k"
proof -
  have ui: "i < length (inodes u)" using i tm_invD(1) [OF u(1)] by simp
  have pg: "ti_data_page (inode_of s' j) = ti_data_page (inode_of u j)" for j using ui by (auto simp: s' Let_def nth_list_update)
  have sz: "ti_size (inode_of s' j) = (if j = i \<and> ti_size (inode_of u i) < off + n then off + n else ti_size (inode_of u j))" for j
    using ui by (auto simp: s' Let_def nth_list_update)
  have on: "unat (off + n) = unat off + unat n" using fit by (simp add: unat_word_ariths)
  show "unat (ti_size (inode_of s' i)) = max (unat (ti_size (inode_of u i))) (unat off + unat n)" using on by (auto simp: sz word_less_nat_alt)
  show "ti_size (inode_of s' j) = ti_size (inode_of u j)" if "j \<noteq> i" using that by (simp add: sz)
  show "ti_mtime (inode_of s' j) = ti_mtime (inode_of u j)" "ti_ctime (inode_of s' j) = ti_ctime (inode_of u j)"
    using ui by (auto simp: s' Let_def nth_list_update)
  have rm: "ram s' = copy_loop page page_off (ti_data_page (inode_of u i)) (ucast off) (ucast n) 0 buf (ram u)" by (simp add: s' Let_def)
  have c16: "unat (ucast off :: u16) = unat off" "unat (ucast n :: u16) = unat n" using fit by (simp_all add: unat_ucast_32_16)
  have fit': "unat page_off + unat (ucast n :: u16) \<le> 4096" "unat (ucast off :: u16) + unat (ucast n :: u16) \<le> 4096" using fit c16 by simp_all
  note C = write_copy [OF u i d page fit' pg rm]
  show "file_byte s' i k = (if unat off \<le> k \<and> k < unat off + unat n
      then ram u (page_linear page + of_nat (unat page_off + (k - unat off))) else file_byte u i k)" if "k < 4096"
    using C(1) [OF that] unfolding c16 .
  show "file_byte s' j k = file_byte u j k" if "k < 4096" "j < TMPFS_INODE_MAX" "j \<noteq> i" by (rule C(2) [OF that])
qed

text \<open>C15: \<^verbatim>\<open>tmpfs_write\<close> to a file that is not removed, from a page of the caller that holds the bytes written and
  with an offset and a length whose sum is below 2^32, writes exactly the requested bytes, cut at the one-page
  limit of a file. It returns the number of bytes written and grows the size; bytes of the file outside the
  range and bytes of all other files keep their values. A write that ends beyond the limit and starts at or
  beyond it, or that finds no page for a file that has none, fails with ENOSPC or ENOMEM and changes no byte
  and no size. The modification and change times are set in every case, the errors included.\<close>

theorem tmpfs_write_correct:
  fixes s s' :: "('p::len word, 'a) kfs_scheme" and page :: "'p word" and page_off :: u16 and n off :: u32 and v :: nat
  defines "i \<equiv> unat (vn_ino (vnode_of s v))" and "m \<equiv> min (unat n) (4096 - unat off)"
  assumes inv: "tm_inv s" "arena_fits s" and v: "open_vnode s v" "vn_type (vnode_of s v) \<noteq> VNODE_DIR"
    and page: "caller_page s page" "unat page_off + m \<le> 4096" and wrap: "unat off + unat n < 2 ^ 32"
    and r: "tmpfs_write now buf v page page_off n off s = (rc, s')"
  shows "(if 4096 < unat off + unat n \<and> 4096 \<le> unat off then rc = - ENOSPC
      else if ti_data_page (inode_of s i) \<noteq> PAGE_ID_INVALID then rc = int m
      else if TMPFS_MAX_PAGES \<le> data_pages_used s then rc = - ENOSPC
      else if page_frames (page_state s) = {} then rc = - ENOMEM else rc = int m)
    \<and> unat (ti_size (inode_of s' i)) = (if rc < 0 then unat (ti_size (inode_of s i)) else max (unat (ti_size (inode_of s i))) (unat off + m))
    \<and> ti_mtime (inode_of s' i) = now \<and> ti_ctime (inode_of s' i) = now
    \<and> (\<forall>k < 4096. file_byte s' i k =
         (if 0 \<le> rc \<and> unat off \<le> k \<and> k < unat off + m then ram s (page_linear page + of_nat (unat page_off + (k - unat off))) else file_byte s i k))
    \<and> (\<forall>j < TMPFS_INODE_MAX. j \<noteq> i \<longrightarrow> ti_size (inode_of s' j) = ti_size (inode_of s j) \<and> (\<forall>k < 4096. file_byte s' j k = file_byte s j k))"
proof -
  have i: "i < TMPFS_INODE_MAX" "ti_active (inode_of s i)" "ti_type (inode_of s i) \<noteq> VNODE_DIR" using v by (auto simp: open_vnode_def i_def)
  have il: "i < length (inodes s)" using i(1) tm_invD(1) [OF inv(1)] by simp
  define t where "t = ti_upd s i (ti_modified now)"
  have t: "tm_inv t" "arena_fits t" unfolding t_def using tm_inv_modified [OF inv(1)] inv(2) by (simp_all add: arena_fits_def)
  have it: "ti_active (inode_of t i)" "ti_type (inode_of t i) \<noteq> VNODE_DIR" using i il by (simp_all add: t_def ti_modified_def)
  have same: "ti_data_page (inode_of t j) = ti_data_page (inode_of s j)" "ti_size (inode_of t j) = ti_size (inode_of s j)" for j
    using il by (simp_all add: t_def ti_modified_def nth_list_update)
  have tm: "ti_mtime (inode_of t i) = now" "ti_ctime (inode_of t i) = now" using il by (simp_all add: t_def ti_modified_def)
  have tb: "file_byte t j k = file_byte s j k" for j k using same by (simp add: file_byte_def) (simp add: t_def)
  have tp: "caller_page t page" using page(1) same by (simp add: caller_page_def) (simp add: t_def)
  have ou: "unat (off + n) = unat off + unat n" using wrap by (simp add: unat_word_ariths)
  show ?thesis
  proof (cases "4096 < unat off + unat n \<and> 4096 \<le> unat off")
    case True
    then have "rc = - ENOSPC" "s' = t" using r v(2) ou
      by (auto simp: tmpfs_write_def Let_def i_def [symmetric] t_def [symmetric] word_less_nat_alt word_le_nat_alt)
    then show ?thesis using True tb same tm by simp
  next
    case False
    define n' where "n' = (if TMPFS_FILE_MAX < off + n then TMPFS_FILE_MAX - off else n)"
    have n': "unat n' = m" using False ou by (auto simp: n'_def m_def word_less_nat_alt unat_sub word_le_nat_alt)
    obtain rc' u where f: "first_page i t = (rc', u)" by fastforce
    note U = first_page_inv [OF t(1) i(1) it f] and W = first_page_spec [OF t(1,2) i(1) it f]
    note rc' = W(1) [unfolded same]
    have tu: "data_pages_used t = data_pages_used s" "page_state t = page_state s" by (simp_all add: t_def)
    have big: "\<not> (TMPFS_FILE_MAX < off + n \<and> TMPFS_FILE_MAX \<le> off)" using False ou by (simp add: word_less_nat_alt word_le_nat_alt)
    have us: "ti_size (inode_of u j) = ti_size (inode_of s j)" "j \<noteq> i \<Longrightarrow> ti_data_page (inode_of u j) = ti_data_page (inode_of s j)" for j
    proof -
      obtain p where "inodes u = (inodes t)[i := (inode_of t i)\<lparr>ti_data_page := p\<rparr>]" using U(4) by blast
      then show "ti_size (inode_of u j) = ti_size (inode_of s j)" "j \<noteq> i \<Longrightarrow> ti_data_page (inode_of u j) = ti_data_page (inode_of s j)"
        using same [of j] same [of i] il by (auto simp: nth_list_update t_def)
    qed
    have um: "ti_mtime (inode_of u i) = now" "ti_ctime (inode_of u i) = now"
    proof -
      obtain p where "inodes u = (inodes t)[i := (inode_of t i)\<lparr>ti_data_page := p\<rparr>]" using U(4) by blast
      moreover have "i < length (inodes t)" using il by (simp add: t_def)
      ultimately show "ti_mtime (inode_of u i) = now" "ti_ctime (inode_of u i) = now" using tm by simp_all
    qed
    show ?thesis
    proof (cases "rc' < 0")
      case True
      then have e: "rc = rc'" "s' = u" using r v(2) f big unfolding tmpfs_write_def i_def [symmetric] t_def [symmetric] Let_def by auto
      have "\<forall>j < TMPFS_INODE_MAX. \<forall>k < 4096. file_byte s' j k = file_byte s j k" using W(2) tb e by simp
      then show ?thesis using e True False rc' us um i(1) tu by (auto split: if_splits)
    next
      case ok: False
      have d: "ti_data_page (inode_of u i) \<noteq> PAGE_ID_INVALID" using U(2) ok by simp
      have pf: "page_fits page" "page \<noteq> ti_data_page (inode_of u i)" using page(1) W(4) [OF tp] by (auto simp: caller_page_def)
      have o4: "unat off + unat n' \<le> 4096" "unat page_off + unat n' \<le> 4096" using False page(2) unfolding n' by (auto simp: m_def)
      have wr: "s' = (let s = u\<lparr>ram := copy_loop page page_off (ti_data_page (inode_of u i)) (ucast off) (ucast n') 0 buf (ram u)\<rparr>
          in if ti_size (inode_of s i) < off + n'
             then vn_upd (ti_upd s i (\<lambda>ti. ti\<lparr>ti_size := off + n'\<rparr>)) v (\<lambda>vn. vn\<lparr>vn_size := off + n'\<rparr>) else s)" "rc = sint n'"
        using r v(2) f big ok unfolding tmpfs_write_def i_def [symmetric] t_def [symmetric] Let_def n'_def [symmetric] by auto
      note F = write_finish [OF U(1) W(5) i(1) d pf o4(2,1) wr(1), unfolded n']
      have rc: "rc = int m" using n' o4 wr(2) by (simp add: sint_u32)
      have "file_byte s' i k = (if unat off \<le> k \<and> k < unat off + m then ram s (page_linear page + of_nat (unat page_off + (k - unat off))) else file_byte s i k)"
        if k: "k < 4096" for k
      proof (cases "unat off \<le> k \<and> k < unat off + m")
        case True
        then have "unat page_off + (k - unat off) < 4096" using page(2) by linarith
        from W(3) [OF tp this] show ?thesis using True F(5) [OF k] by (auto simp: t_def)
      next
        case F': False
        then show ?thesis using F(5) [OF k] W(2) [OF i(1) k] tb by auto
      qed
      moreover have "file_byte s' j k = file_byte s j k" if "j < TMPFS_INODE_MAX" "j \<noteq> i" "k < 4096" for j k
        using F(6) [OF that(3,1,2)] W(2) [OF that(1,3)] tb by simp
      ultimately show ?thesis using rc F(1-4) us(1) um False rc' ok tu by (auto split: if_splits)
    qed
  qed
qed

text \<open>C16: \<^verbatim>\<open>tmpfs_read\<close> of a file that is not removed and whose size is at most one page, into a page of the
  caller that has room for the result and with an offset and a length whose sum is below 2^32, returns the
  number of bytes up to the end of the file, at most the requested ones, puts exactly these bytes into the
  caller's page and leaves the rest of that page, the inodes and the data of all files as they were. A file
  can only be larger than a page by a truncation to a larger size.\<close>

theorem tmpfs_read_correct:
  fixes s s' :: "('p::len word, 'a) kfs_scheme" and page :: "'p word" and page_off :: u16 and n off :: u32 and v :: nat
  defines "i \<equiv> unat (vn_ino (vnode_of s v))"
  defines "m \<equiv> min (unat n) (unat (ti_size (inode_of s i)) - unat off)"
  assumes inv: "tm_inv s" "arena_fits s" and v: "open_vnode s v" "vn_type (vnode_of s v) \<noteq> VNODE_DIR"
    and size: "ti_size (inode_of s i) \<le> TMPFS_FILE_MAX"
    and page: "caller_page s page" "unat page_off + m \<le> 4096" and wrap: "unat off + unat n < 2 ^ 32"
    and r: "tmpfs_read buf v page page_off n off s = (rc, s')"
  shows "rc = int m \<and> inodes s' = inodes s
    \<and> (\<forall>k < 4096. ram s' (page_linear page + of_nat k) =
         (if unat page_off \<le> k \<and> k < unat page_off + m then file_byte s i (unat off + (k - unat page_off)) else ram s (page_linear page + of_nat k)))
    \<and> (\<forall>j < TMPFS_INODE_MAX. \<forall>k < 4096. file_byte s' j k = file_byte s j k)"
proof (cases "ti_size (inode_of s i) \<le> off")
  case True
  then have "rc = 0" "s' = s" "m = 0" using r v(2) by (auto simp: tmpfs_read_def i_def m_def word_le_nat_alt)
  then show ?thesis by auto
next
  case False
  let ?d = "ti_data_page (inode_of s i)" and ?o = "ucast off :: u16"
  have i: "i < TMPFS_INODE_MAX" using v by (auto simp: open_vnode_def i_def)
  define n' where "n' = (if ti_size (inode_of s i) < off + n then ti_size (inode_of s i) - off else n)"
  let ?n = "ucast n' :: u16"
  have ou: "unat (off + n) = unat off + unat n" using wrap by (simp add: unat_word_ariths)
  have so: "unat off < unat (ti_size (inode_of s i))" "unat (ti_size (inode_of s i)) \<le> 4096" using False size by (auto simp: word_le_nat_alt)
  have n': "unat n' = m" using so ou by (auto simp: n'_def m_def word_less_nat_alt unat_sub word_le_nat_alt)
  have m: "unat off + m \<le> 4096" using so by (auto simp: m_def)
  have c16: "unat ?o = unat off" "unat ?n = m" using m n' by (simp_all add: unat_ucast_32_16)
  have rc: "rc = int m" and s': "s' = s\<lparr>ram := if ?d \<noteq> PAGE_ID_INVALID then copy_loop ?d ?o page page_off ?n 0 buf (ram s) else zero_loop page page_off ?n 0 (ram s)\<rparr>"
    using r v(2) False n' m by (auto simp: tmpfs_read_def Let_def i_def [symmetric] n'_def [symmetric] sint_u32)
  have fit: "unat ?o + unat ?n \<le> 4096" "unat page_off + unat ?n \<le> 4096" using m page(2) c16 by simp_all
  have pf: "page_fits page" and pd: "\<And>j. j < TMPFS_INODE_MAX \<Longrightarrow> ti_data_page (inode_of s j) \<noteq> page" using page(1) by (auto simp: caller_page_def)
  have p: "ram s' (page_linear page + of_nat k) =
      (if unat page_off \<le> k \<and> k < unat page_off + m then file_byte s i (unat off + (k - unat page_off)) else ram s (page_linear page + of_nat k))"
    if k: "k < 4096" for k
  proof (cases "?d = PAGE_ID_INVALID")
    case True
    then show ?thesis using zero_page(1) [OF pf fit(2) k, of "ram s"] by (simp add: s' file_byte_def c16)
  next
    case False
    then show ?thesis using copy_page(1) [OF data_page_fits [OF inv i False] pf pd [OF i] fit k, of buf "ram s"]
      by (simp add: s' file_byte_def c16)
  qed
  have q: "ram s' (page_linear p + of_nat k) = ram s (page_linear p + of_nat k)" if "page_fits p" "p \<noteq> page" "k < 4096" for p k
  proof (cases "?d = PAGE_ID_INVALID")
    case True
    then show ?thesis using zero_page(2) [OF pf fit(2) that(3,1,2), of "ram s"] by (simp add: s')
  next
    case False
    then show ?thesis using copy_page(2) [OF data_page_fits [OF inv i False] pf pd [OF i] fit that(3,1,2), of buf "ram s"] by (simp add: s')
  qed
  have f: "file_byte s' j k = file_byte s j k" if j: "j < TMPFS_INODE_MAX" and k: "k < 4096" for j k
    using q [OF data_page_fits [OF inv j] pd [OF j] k] by (simp add: file_byte_def) (simp add: s')
  have ii: "inodes s' = inodes s" by (simp add: s')
  show ?thesis using rc ii p f by blast
qed

subsection \<open>Directories as maps\<close>

text \<open>The inode of a name in a directory.\<close>

definition dir_map :: "('p::len word, 'a) kfs_scheme \<Rightarrow> u32 \<times> string \<Rightarrow> nat option" where
  "dir_map s = (\<lambda>(d, n). if n = [] then None else tmpfs_find s d n)"

lemma dir_map_iff:
  assumes "tm_inv s"
  shows "dir_map s (d, n) = Some i \<longleftrightarrow>
    n \<noteq> [] \<and> i < TMPFS_INODE_MAX \<and> ti_active (inode_of s i) \<and> ti_parent_ino (inode_of s i) = d \<and> ti_name (inode_of s i) = n"
  using tmpfs_find_iff [OF assms, of n d i] by (cases "n = []") (simp_all add: dir_map_def)

lemma map_eqI: "(\<And>x y. f x = Some y \<longleftrightarrow> g x = Some y) \<Longrightarrow> f = g"
  by (rule ext) (metis not_Some_eq)

text \<open>Only the three fields of an inode that make an entry matter.\<close>

lemma modified_entry [simp]:
  "ti_active ((tis[i := ti_modified now (tis ! i)]) ! j) = ti_active (tis ! j)"
  "ti_parent_ino ((tis[i := ti_modified now (tis ! i)]) ! j) = ti_parent_ino (tis ! j)"
  "ti_name ((tis[i := ti_modified now (tis ! i)]) ! j) = ti_name (tis ! j)"
  "ti_type ((tis[i := ti_modified now (tis ! i)]) ! j) = ti_type (tis ! j)"
  by (cases "i = j"; cases "i < length tis"; simp add: ti_modified_def list_update_beyond)+

text \<open>Making an entry is a map update.\<close>

lemma inode_make_spec:
  fixes s :: "('p::len word, 'a) kfs_scheme"
  assumes inv: "tm_inv s" and name: "good_name name" and r: "inode_make now kind mode dir name s = (rc, idx, s')"
  shows "if dir_map s (dir, name) \<noteq> None then rc = - EEXIST \<and> s' = s
    else if \<forall>i. 0 < i \<and> i < TMPFS_INODE_MAX \<longrightarrow> ti_active (inode_of s i) then rc = - ENOSPC \<and> s' = s
    else rc = 0 \<and> idx < TMPFS_INODE_MAX \<and> \<not> ti_active (inode_of s idx) \<and> dir_map s' = (dir_map s)((dir, name) \<mapsto> idx)
      \<and> ti_type (inode_of s' idx) = kind"
proof -
  have n: "name \<noteq> []" "length name \<le> TMPFS_NAME_MAX" using name by (auto simp: good_name_def)
  have inv': "tm_inv s'" by (rule inode_make_inv [OF inv n r])
  have dm: "dir_map s (dir, name) = tmpfs_find s dir name" using n by (simp add: dir_map_def)
  have none: "inode_alloc s = None \<longleftrightarrow> (\<forall>i. 0 < i \<and> i < TMPFS_INODE_MAX \<longrightarrow> ti_active (inode_of s i))"
    unfolding inode_alloc_def by (auto simp: find_None_iff)
  show ?thesis
  proof (cases "tmpfs_find s dir name \<noteq> None \<or> inode_alloc s = None")
    case True
    then show ?thesis using r by (auto simp: inode_make_def dm none [symmetric] split: if_splits option.splits)
  next
    case False
    then obtain i where f: "tmpfs_find s dir name = None" and a: "inode_alloc s = Some i" by auto
    note A = inode_alloc_some [OF a]
    have il: "i < length (inodes s)" using A(1) tm_invD(1) [OF inv] by simp
    define ti :: "'p word tmpfs_inode" where "ti = \<lparr>ti_name = str_copy name (TMPFS_NAME_MAX + 1), ti_type = kind, ti_active = True,
                   ti_mode = mode, ti_size = 0, ti_parent_ino = dir, ti_data_page = PAGE_ID_INVALID,
                   ti_mtime = now, ti_ctime = now, ti_atime = now\<rparr>"
    have s': "rc = 0" "idx = i" "s' = ti_upd (ti_upd s i (\<lambda>_. ti)) (unat dir) (ti_modified now)"
      using r f a by (auto simp: inode_make_def ti_def Let_def)
    have tn: "ti_name ti = name" using n by (simp add: ti_def str_copy_def)
    have "dir_map s' x = Some j \<longleftrightarrow> ((dir_map s)((dir, name) \<mapsto> i)) x = Some j" for x j
    proof (cases x)
      case (Pair d m)
      show ?thesis
      proof (cases "j = i")
        case True
        then show ?thesis using il A n tn unfolding Pair dir_map_iff [OF inv'] fun_upd_apply by (auto simp: dir_map_iff [OF inv] s' ti_def)
      next
        case False
        then have "dir_map s' (d, m) = Some j \<longleftrightarrow> dir_map s (d, m) = Some j"
          unfolding dir_map_iff [OF inv'] dir_map_iff [OF inv] by (simp add: s')
        then show ?thesis using False f dm Pair by auto
      qed
    qed
    then have "dir_map s' = (dir_map s)((dir, name) \<mapsto> i)" by (rule map_eqI)
    moreover have "ti_type (inode_of s' i) = kind" using il by (simp add: s' ti_def)
    ultimately show ?thesis using s' A f a dm none by auto
  qed
qed

text \<open>C17: creating an entry is a map update. With a name of 1 to 31 characters and a free vnode, \<^verbatim>\<open>tmpfs_create\<close> fails with EEXIST exactly when the
  directory has the name and with ENOSPC exactly when all inodes are used; then no entry changes. Otherwise it
  returns a vnode for an inode that was not in use, of a regular file of size zero, and the directory maps the
  name to that inode while all other entries stay.\<close>

theorem tmpfs_create_correct:
  fixes s s' :: "('p::len word, 'a) kfs_scheme" and dir :: nat
  defines "d \<equiv> vn_ino (vnode_of s dir)"
  assumes inv: "tm_inv s" and name: "good_name name" and free: "vn_free s = v # vs" "v < length (vnodes s)"
    and r: "tmpfs_create now dir name mode s = (rc, res, s')"
  shows "if dir_map s (d, name) \<noteq> None then rc = - EEXIST \<and> res = None \<and> dir_map s' = dir_map s
    else if \<forall>i. 0 < i \<and> i < TMPFS_INODE_MAX \<longrightarrow> ti_active (inode_of s i) then rc = - ENOSPC \<and> res = None \<and> dir_map s' = dir_map s
    else rc = 0 \<and> res = Some v \<and> (\<exists>i < TMPFS_INODE_MAX. \<not> ti_active (inode_of s i) \<and> dir_map s' = (dir_map s)((d, name) \<mapsto> i)
      \<and> vn_ino (vnode_of s' v) = of_nat i \<and> vn_type (vnode_of s' v) = VNODE_FILE \<and> vn_size (vnode_of s' v) = 0 \<and> ti_type (inode_of s' i) = VNODE_FILE)"
proof -
  obtain t where a: "vfs_vnode_alloc s = (Some v, t)" and t: "t = snd (vfs_vnode_alloc s)"
    using free(1) by (auto simp: vfs_vnode_alloc_def)
  have tk: "inodes t = inodes s" "data_pages_used t = data_pages_used s" "page_state t = page_state s" "length (vnodes t) = length (vnodes s)"
    unfolding t by (simp_all add: vnode_alloc_kfs) (simp add: vfs_vnode_alloc_def free(1))
  have ti: "tm_inv t" using inv tm_inv_cong [OF tk(1-3)] by simp
  have dmt: "dir_map w = dir_map w'" if "inodes w = inodes w'" for w w' :: "('p word, 'a) kfs_scheme"
  proof -
    have "tmpfs_entry w = tmpfs_entry w'" by (intro ext) (simp add: tmpfs_entry_def that)
    then have e: "tmpfs_find w = tmpfs_find w'" by (intro ext) (simp add: tmpfs_find_def)
    show ?thesis unfolding dir_map_def e ..
  qed
  obtain rc' idx u where m: "inode_make now VNODE_FILE (S_IFREG OR (mode AND 0x1FF)) d name t = (rc', idx, u)" by (metis prod_cases3)
  note M = inode_make_spec [OF ti name m, unfolded dmt [OF tk(1)] tk(1)]
  have len: "length (vnodes u) = length (vnodes s)"
    using m tk(4) by (auto simp: inode_make_def Let_def split: if_splits option.splits)
  show ?thesis
  proof (cases "rc' < 0")
    case True
    then have e: "rc = rc'" "res = None" "s' = vfs_vnode_release u (Some v)" using r a m by (auto simp: tmpfs_create_def Let_def d_def)
    have "dir_map s' = dir_map u" unfolding e by (rule dmt) simp
    then show ?thesis using M True e dmt [OF tk(1)] by (auto split: if_splits)
  next
    case False
    define f where "f = (\<lambda>vn :: vnode. vn\<lparr>vn_ino := of_nat idx, vn_type := VNODE_FILE, vn_mode := S_IFREG OR (mode AND 0x1FF),
                       vn_size := 0, vn_mount := vn_mount (vnode_of s dir), vn_fs_priv := 0\<rparr>)"
    from False have e: "rc = 0" "res = Some v" "s' = vn_upd u v f"
      using r a m by (auto simp: tmpfs_create_def Let_def d_def f_def)
    have vn: "vnode_of s' v = f (vnode_of u v)" using free(2) len by (simp add: e vnode_of_upd)
    have "dir_map s' = dir_map u" unfolding e by (rule dmt) simp
    moreover have "inodes s' = inodes u" by (simp add: e)
    ultimately show ?thesis using M False e(1,2) vn by (auto simp: f_def split: if_splits)
  qed
qed

text \<open>C18: removing an entry. \<^verbatim>\<open>tmpfs_unlink\<close> fails with ENOENT exactly when the directory does not have the name and with
  ENOTEMPTY exactly when the name is a directory with entries; then nothing changes. Otherwise exactly that entry
  disappears and its inode is free.\<close>

theorem tmpfs_unlink_correct:
  fixes s s' :: "('p::len word, 'a) kfs_scheme" and dir :: nat
  defines "d \<equiv> vn_ino (vnode_of s dir)"
  assumes inv: "tm_inv s" and name: "name \<noteq> []" and r: "tmpfs_unlink now dir name s = (rc, s')"
  shows "case dir_map s (d, name) of None \<Rightarrow> rc = - ENOENT \<and> s' = s
    | Some i \<Rightarrow>
        if ti_type (inode_of s i) = VNODE_DIR \<and> (\<exists>j < TMPFS_INODE_MAX. j \<noteq> i \<and> ti_active (inode_of s j) \<and> ti_parent_ino (inode_of s j) = of_nat i)
        then rc = - ENOTEMPTY \<and> s' = s
        else rc = 0 \<and> dir_map s' = (dir_map s)((d, name) := None) \<and> \<not> ti_active (inode_of s' i)"
proof -
  have inv': "tm_inv s'" by (rule tmpfs_unlink_inv [OF inv name r])
  have dm: "dir_map s (d, name) = tmpfs_find s d name" using name by (simp add: dir_map_def)
  show ?thesis
  proof (cases "tmpfs_find s d name")
    case None
    then have "rc = - ENOENT \<and> s' = s" using r by (simp add: tmpfs_unlink_def Let_def d_def)
    then show ?thesis using None unfolding dm by simp
  next
    case (Some i)
    note F = tmpfs_find_some [OF inv Some name]
    have il: "i < length (inodes s)" using F(1) tm_invD(1) [OF inv] by simp
    have ne: "tmpfs_nonempty s i \<longleftrightarrow> (\<exists>j < TMPFS_INODE_MAX. j \<noteq> i \<and> ti_active (inode_of s j) \<and> ti_parent_ino (inode_of s j) = of_nat i)"
      by (auto simp: tmpfs_nonempty_def list_ex_iff)
    show ?thesis
    proof (cases "ti_type (inode_of s i) = VNODE_DIR \<and> tmpfs_nonempty s i")
      case True
      then have "rc = - ENOTEMPTY \<and> s' = s" using r Some by (simp add: tmpfs_unlink_def Let_def d_def)
      then show ?thesis using Some True ne unfolding dm by simp
    next
      case False
      then have s': "rc = 0" "s' = ti_upd (inode_free s i) (unat d) (ti_modified now)"
        using r Some unfolding d_def by (auto simp: tmpfs_unlink_def Let_def)
      have un: "\<not> ti_active (inode_of s' i)" using il by (simp add: s')
      have "dir_map s' x = Some j \<longleftrightarrow> ((dir_map s)((d, name) := None)) x = Some j" for x j
      proof (cases x)
        case (Pair e m)
        show ?thesis
        proof (cases "j = i")
          case True
          then show ?thesis unfolding Pair fun_upd_apply dir_map_iff [OF inv'] using un F dir_map_iff [OF inv, of e m i] by auto
        next
          case False
          then have "dir_map s' (e, m) = Some j \<longleftrightarrow> dir_map s (e, m) = Some j"
            unfolding dir_map_iff [OF inv'] dir_map_iff [OF inv] by (simp add: s')
          moreover have "dir_map s (d, name) \<noteq> Some j" using False Some dm by simp
          ultimately show ?thesis unfolding Pair by auto
        qed
      qed
      then have "dir_map s' = (dir_map s)((d, name) := None)" by (rule map_eqI)
      then show ?thesis using False Some s' un ne by (simp add: dm)
    qed
  qed
qed

lemma dir_map_inj: "tm_inv s \<Longrightarrow> dir_map s x = Some i \<Longrightarrow> dir_map s y = Some i \<Longrightarrow> x = y"
  by (cases x; cases y) (simp add: dir_map_iff)

lemma rename_spec:
  fixes s s' :: "('p::len word, 'a) kfs_scheme" and old_dir new_dir :: nat and old_name new_name :: string
  defines "old \<equiv> (vn_ino (vnode_of s old_dir), old_name)" and "new \<equiv> (vn_ino (vnode_of s new_dir), new_name)"
  assumes inv: "tm_inv s" and name: "good_name old_name" "good_name new_name"
    and r: "tmpfs_rename now old_dir old_name new_dir new_name s = (rc, s')"
  shows "case dir_map s old of None \<Rightarrow> rc = - ENOENT \<and> s' = s
    | Some src \<Rightarrow>
        if \<exists>i. dir_map s new = Some i \<and> ti_type (inode_of s i) = VNODE_DIR \<and> tmpfs_nonempty s i then rc = - ENOTEMPTY \<and> s' = s
        else rc = 0 \<and> dir_map s' = (if old = new then (dir_map s)(old := None) else (dir_map s)(old := None, new \<mapsto> src))"
proof -
  have n: "old_name \<noteq> []" "new_name \<noteq> []" "length new_name \<le> TMPFS_NAME_MAX" using name by (auto simp: good_name_def)
  have inv': "tm_inv s'" by (rule tmpfs_rename_inv [OF inv n r])
  let ?oi = "vn_ino (vnode_of s old_dir)" and ?ni = "vn_ino (vnode_of s new_dir)"
  define dst where "dst = dir_map s new"
  have fo: "tmpfs_find s ?oi old_name = dir_map s old" and fn: "tmpfs_find s ?ni new_name = dst"
    using n by (simp_all add: dir_map_def old_def new_def dst_def)
  note R = r [unfolded tmpfs_rename_def Let_def fo fn]
  show ?thesis
  proof (cases "dir_map s old")
    case None
    then show ?thesis using R by simp
  next
    case (Some src)
    then have S: "src < TMPFS_INODE_MAX" "ti_active (inode_of s src)" "ti_parent_ino (inode_of s src) = ?oi" "ti_name (inode_of s src) = old_name"
      using dir_map_iff [OF inv] by (auto simp: old_def)
    define full where "full \<longleftrightarrow> (case dst of None \<Rightarrow> False | Some i \<Rightarrow> ti_type (inode_of s i) = VNODE_DIR \<and> tmpfs_nonempty s i)"
    have fe: "(\<exists>i. dir_map s new = Some i \<and> ti_type (inode_of s i) = VNODE_DIR \<and> tmpfs_nonempty s i) \<longleftrightarrow> full"
      by (auto simp: full_def dst_def split: option.splits)
    show ?thesis
    proof (cases full)
      case True
      then show ?thesis using R Some fe by (simp add: full_def)
    next
      case False
      define t where "t = (case dst of None \<Rightarrow> s | Some i \<Rightarrow> inode_free s i)"
      define g where "g = (\<lambda>ti :: 'p word tmpfs_inode. ti\<lparr>ti_parent_ino := ?ni, ti_ctime := now, ti_name := str_copy new_name (TMPFS_NAME_MAX + 1)\<rparr>)"
      define u where "u = ti_upd (ti_upd t src g) (unat ?oi) (ti_modified now)"
      have s': "rc = 0" "s' = (if ?ni \<noteq> ?oi then ti_upd u (unat ?ni) (ti_modified now) else u)"
        using R Some False by (auto simp: full_def [symmetric] t_def [symmetric] u_def g_def)
      have il: "length (inodes t) = TMPFS_INODE_MAX" using tm_invD(1) [OF inv] by (simp add: t_def split: option.split)
      have srcT: "src < length (inodes t)" using il S(1) by simp
      have tf: "ti_active (inode_of t j) = (ti_active (inode_of s j) \<and> dst \<noteq> Some j)" "ti_parent_ino (inode_of t j) = ti_parent_ino (inode_of s j)"
        "ti_name (inode_of t j) = ti_name (inode_of s j)" if "j < TMPFS_INODE_MAX" for j
        using tm_invD(1) [OF inv] that by (auto simp: t_def nth_upd split: option.splits)
      have gn: "ti_name (g ti) = new_name" "ti_parent_ino (g ti) = ?ni" "ti_active (g ti) = ti_active ti" for ti
        using n by (simp_all add: g_def str_copy_def)
      have sf: "ti_active (inode_of s' j) = (ti_active (inode_of s j) \<and> dst \<noteq> Some j)"
        "ti_parent_ino (inode_of s' j) = (if j = src then ?ni else ti_parent_ino (inode_of s j))"
        "ti_name (inode_of s' j) = (if j = src then new_name else ti_name (inode_of s j))" if j: "j < TMPFS_INODE_MAX" for j
      proof -
        have md: "ti_active (inode_of (ti_upd w i (ti_modified now)) j) = ti_active (inode_of w j)"
          "ti_parent_ino (inode_of (ti_upd w i (ti_modified now)) j) = ti_parent_ino (inode_of w j)"
          "ti_name (inode_of (ti_upd w i (ti_modified now)) j) = ti_name (inode_of w j)" for w :: "('p word, 'a) kfs_scheme" and i
          by simp_all
        have gj: "inode_of (ti_upd t src g) j = (if j = src then g (inode_of t src) else inode_of t j)" using srcT by simp
        have "ti_active (inode_of s' j) = ti_active (inode_of (ti_upd t src g) j)" "ti_parent_ino (inode_of s' j) = ti_parent_ino (inode_of (ti_upd t src g) j)"
          "ti_name (inode_of s' j) = ti_name (inode_of (ti_upd t src g) j)"
          unfolding s'(2) u_def by (cases "?ni = ?oi"; simp only: md if_True if_False simp_thms)+
        then show "ti_active (inode_of s' j) = (ti_active (inode_of s j) \<and> dst \<noteq> Some j)"
          "ti_parent_ino (inode_of s' j) = (if j = src then ?ni else ti_parent_ino (inode_of s j))"
          "ti_name (inode_of s' j) = (if j = src then new_name else ti_name (inode_of s j))"
          using tf [OF j] unfolding gj by (auto simp: gn)
      qed
      have M: "dir_map s' (e, m) = Some j \<longleftrightarrow> (if j = src then dst \<noteq> Some src \<and> (e, m) = new else dir_map s (e, m) = Some j \<and> dst \<noteq> Some j)" for e m j
        unfolding dir_map_iff [OF inv'] dir_map_iff [OF inv] using S n sf by (auto simp: new_def)
      have "dir_map s' x = Some j \<longleftrightarrow> (if old = new then (dir_map s)(old := None) else (dir_map s)(old := None, new \<mapsto> src)) x = Some j" for x j
      proof -
        have Mx: "dir_map s' x = Some j \<longleftrightarrow> (if j = src then dst \<noteq> Some src \<and> x = new else dir_map s x = Some j \<and> dst \<noteq> Some j)"
          using M [of "fst x" "snd x" j] by simp
        have a: "dir_map s x = Some src \<longleftrightarrow> x = old" using dir_map_inj [OF inv] Some by blast
        have b: "dst = Some src \<longleftrightarrow> old = new" using dir_map_inj [OF inv] Some unfolding dst_def by blast
        have c: "dst = Some j \<Longrightarrow> dir_map s x = Some j \<longleftrightarrow> x = new" using dir_map_inj [OF inv] unfolding dst_def by blast
        have d: "x = new \<Longrightarrow> dir_map s x = dst" by (simp add: dst_def)
        show ?thesis
        proof (cases "j = src")
          case True
          then show ?thesis unfolding Mx using a b by simp
        next
          case False
          then have "x = old \<Longrightarrow> dir_map s x \<noteq> Some j" using Some by simp
          then show ?thesis unfolding Mx if_not_P [OF False] using False c d by (cases "x = new"; cases "x = old"; cases "dst = Some j") simp_all
        qed
      qed
      then have "dir_map s' = (if old = new then (dir_map s)(old := None) else (dir_map s)(old := None, new \<mapsto> src))" by (rule map_eqI)
      then show ?thesis using Some fe False s'(1) by simp
    qed
  qed
qed

text \<open>C19: renaming moves exactly one entry. For names of 1 to 31 characters, \<^verbatim>\<open>tmpfs_rename\<close> to another name or directory fails with ENOENT exactly when
  the source does not exist and with ENOTEMPTY exactly when the target is a directory with entries; then nothing
  changes. Otherwise the new name maps to the inode of the old one, the old name is gone, a replaced entry is gone,
  and all other entries stay. There is no other error: a file can replace an empty directory, a directory can
  replace a file, and a directory can be moved below itself.\<close>

theorem tmpfs_rename_correct:
  fixes s s' :: "('p::len word, 'a) kfs_scheme" and old_dir new_dir :: nat and old_name new_name :: string
  defines "old \<equiv> (vn_ino (vnode_of s old_dir), old_name)" and "new \<equiv> (vn_ino (vnode_of s new_dir), new_name)"
  assumes "tm_inv s" "good_name old_name" "good_name new_name" "old \<noteq> new"
    and "tmpfs_rename now old_dir old_name new_dir new_name s = (rc, s')"
  shows "case dir_map s old of None \<Rightarrow> rc = - ENOENT \<and> s' = s
    | Some src \<Rightarrow>
        if \<exists>i. dir_map s new = Some i \<and> ti_type (inode_of s i) = VNODE_DIR \<and> tmpfs_nonempty s i then rc = - ENOTEMPTY \<and> s' = s
        else rc = 0 \<and> dir_map s' = (dir_map s)(old := None, new \<mapsto> src)"
  using rename_spec [OF assms(3-5,7)] assms(6) by (auto simp: old_def new_def split: option.splits)

text \<open>C20: renaming a file to its own name removes it. The call succeeds, the name no longer exists and no other
  name maps to the inode.\<close>

theorem tmpfs_rename_self_removes:
  fixes s s' :: "('p::len word, 'a) kfs_scheme" and dir :: nat
  assumes inv: "tm_inv s" and name: "good_name name" and ent: "dir_map s (vn_ino (vnode_of s dir), name) = Some i" "ti_type (inode_of s i) = VNODE_FILE"
    and r: "tmpfs_rename now dir name dir name s = (rc, s')"
  shows "rc = 0 \<and> dir_map s' = (dir_map s)((vn_ino (vnode_of s dir), name) := None) \<and> (\<forall>x. dir_map s' x \<noteq> Some i)"
proof -
  have e: "rc = 0" "dir_map s' = (dir_map s)((vn_ino (vnode_of s dir), name) := None)" using rename_spec [OF inv name name r] ent by auto
  then show ?thesis using dir_map_inj [OF inv ent(1)] by auto
qed

subsection \<open>Listing a directory\<close>

definition listed :: "('w, 'a) kfs_scheme \<Rightarrow> u32 \<Rightarrow> nat \<Rightarrow> bool" where
  "listed s d i \<longleftrightarrow> ti_active (inode_of s i) \<and> ti_parent_ino (inode_of s i) = d \<and> of_nat i \<noteq> d"

definition dirent_of :: "('w, 'a) kfs_scheme \<Rightarrow> nat \<Rightarrow> dirent" where
  "dirent_of s i = \<lparr>d_ino = of_nat i, d_type = (if ti_type (inode_of s i) = VNODE_DIR then DT_DIR else DT_REG),
     d_name = str_copy (ti_name (inode_of s i)) (VFS_NAME_MAX + 1)\<rparr>"

lemma readdir_loop_spec:
  fixes skip seen d :: u32 and s :: "('w, 'a) kfs_scheme" and i :: nat
  assumes "i \<le> TMPFS_INODE_MAX" "unat seen \<le> i" "out = [] \<or> unat skip \<le> unat seen"
  defines "rest \<equiv> filter (listed s d) [i..<TMPFS_INODE_MAX]"
  shows "readdir_loop s d cap skip i seen out =
    (out @ map (dirent_of s) (take (cap - length out) (drop (unat skip - unat seen) rest)),
     if cap \<le> length out then seen else seen + of_nat (min (length rest) (unat skip - unat seen + (cap - length out))))"
  using assms(1-3) unfolding rest_def
proof (induction "TMPFS_INODE_MAX - i" arbitrary: i seen out)
  case 0
  then have "i = TMPFS_INODE_MAX" by simp
  then show ?case by (subst readdir_loop.simps) simp
next
  case (Suc x)
  then have i: "i < TMPFS_INODE_MAX" and x: "x = TMPFS_INODE_MAX - (i + 1)" by auto
  have up: "[i..<TMPFS_INODE_MAX] = i # [i + 1..<TMPFS_INODE_MAX]" using i by (simp add: upt_conv_Cons)
  have seen1: "unat (seen + 1) = unat seen + 1" using Suc.prems(2) i by (simp add: unat_word_ariths)
  show ?case
  proof (cases "cap \<le> length out")
    case True
    then show ?thesis by (subst readdir_loop.simps) simp
  next
    case room: False
    show ?thesis
    proof (cases "listed s d i")
      case False
      have "readdir_loop s d cap skip i seen out = readdir_loop s d cap skip (i + 1) seen out"
        using i room False by (subst readdir_loop.simps) (auto simp: listed_def Let_def)
      also note Suc.hyps(1) [OF x, of seen out]
      finally show ?thesis using Suc.prems i False room unfolding up by simp
    next
      case l: True
      let ?r = "filter (listed s d) [i + 1..<TMPFS_INODE_MAX]"
      show ?thesis
      proof (cases "seen < skip")
        case True
        then have sk: "unat skip - unat seen = Suc (unat skip - unat (seen + 1))" using seen1 by (simp add: word_less_nat_alt)
        have o: "out = []" using Suc.prems(3) True by (simp add: word_less_nat_alt)
        have "readdir_loop s d cap skip i seen out = readdir_loop s d cap skip (i + 1) (seen + 1) out"
          using i room l True by (subst readdir_loop.simps) (auto simp: listed_def Let_def)
        also note Suc.hyps(1) [OF x, of "seen + 1" out]
        finally show ?thesis using Suc.prems i o room l seen1 unfolding up sk by simp
      next
        case False
        then have sk: "unat skip - unat seen = 0" "unat skip \<le> unat (seen + 1)" "unat skip - unat (seen + 1) = 0" using seen1 by (auto simp: word_less_nat_alt)
        have c: "cap - length out = Suc (cap - length (out @ [dirent_of s i]))" using room by simp
        have "readdir_loop s d cap skip i seen out = readdir_loop s d cap skip (i + 1) (seen + 1) (out @ [dirent_of s i])"
          using i room l False by (subst readdir_loop.simps) (auto simp: listed_def Let_def dirent_of_def)
        also have "\<dots> = ((out @ [dirent_of s i]) @ map (dirent_of s) (take (cap - length (out @ [dirent_of s i])) ?r),
          if cap \<le> length (out @ [dirent_of s i]) then seen + 1 else seen + 1 + of_nat (min (length ?r) (cap - length (out @ [dirent_of s i]))))"
          using Suc.hyps(1) [OF x, of "seen + 1" "out @ [dirent_of s i]"] Suc.prems(2) i seen1 sk by simp
        finally show ?thesis using room l sk unfolding up c by (auto simp: min_def)
      qed
    qed
  qed
qed

text \<open>Listing a directory resumes where it stopped. With the cookie of the previous call, \<^verbatim>\<open>tmpfs_readdir\<close> returns
  the next entries of the directory, in the order of their inodes, as many as fit, each once, and the cookie that
  continues after them.\<close>

theorem tmpfs_readdir_resumes:
  fixes s :: "('w, 'a) kfs_scheme" and cookie :: u32 and dir :: nat
  defines "names \<equiv> map (dirent_of s) (filter (listed s (vn_ino (vnode_of s dir))) [0..<TMPFS_INODE_MAX])"
  assumes "0 < cap" "unat cookie \<le> length names"
  shows "tmpfs_readdir dir cap cookie s = (take cap (drop (unat cookie) names), of_nat (min (length names) (unat cookie + cap)))"
  using readdir_loop_spec [of 0 0 "[]" cookie s "vn_ino (vnode_of s dir)" cap] assms(2)
  by (simp add: tmpfs_readdir_def names_def take_map drop_map)

subsection \<open>Truncation\<close>

lemma copy_one: "copy_loop src so dst doff 1 0 buf m = page_write m dst doff (page_read m src so buf 1) 1"
proof -
  have "copy_loop src so dst doff 1 1 buf' m' = m'" for buf' m' by (subst copy_loop.simps) simp
  then show ?thesis by (subst copy_loop.simps) (simp add: Let_def)
qed

text \<open>Truncation has no limit. After a file with a data page is extended to 8192 bytes with \<^verbatim>\<open>tmpfs_truncate\<close>, reading at
  offset 4096 returns a byte of the memory behind the page, which is not the file's.\<close>

theorem tmpfs_truncate_reads_beyond_page:
  fixes s t s' :: "('p::len word, 'a) kfs_scheme" and page :: "'p word" and v :: nat
  defines "d \<equiv> ti_data_page (inode_of s (unat (vn_ino (vnode_of s v))))"
  assumes v: "open_vnode s v" "vn_type (vnode_of s v) = VNODE_FILE" "length (inodes s) = TMPFS_INODE_MAX" "v < length (vnodes s)"
    and pages: "d \<noteq> PAGE_ID_INVALID" "page \<noteq> PAGE_ID_INVALID"
    and t: "tmpfs_truncate now v 8192 s = (0, t)" and r: "tmpfs_read buf v page page_off 1 4096 t = (rc, s')"
  shows "rc = 1 \<and> ram s' (page_linear page + ucast page_off) = ram s (page_linear d + PAGE_SIZE)"
proof -
  define i where "i = unat (vn_ino (vnode_of s v))"
  have i: "i < length (inodes s)" "ti_type (inode_of s i) = VNODE_FILE" using v by (auto simp: open_vnode_def i_def)
  have te: "t = ti_upd (vn_upd (ti_upd s i (\<lambda>ti. ti\<lparr>ti_size := 8192\<rparr>)) v (\<lambda>vn. vn\<lparr>vn_size := 8192\<rparr>)) i (ti_modified now)"
    using t i(2) unfolding tmpfs_truncate_def Let_def i_def [symmetric] by simp
  have ti: "inode_of t i = ti_modified now ((inode_of s i)\<lparr>ti_size := 8192\<rparr>)" "ram t = ram s" using i(1) by (simp_all add: te)
  have vn: "vn_ino (vnode_of t v) = vn_ino (vnode_of s v)" "vn_type (vnode_of t v) = VNODE_FILE" using v by (simp_all add: te vnode_of_upd)
  have "rc = 1" "ram s' = copy_loop d 4096 page page_off 1 0 buf (ram s)"
    using r vn pages(1) unfolding tmpfs_read_def vn i_def [symmetric] ti d_def by (auto simp: ti_modified_def sint_u32)
  then show ?thesis using pages by (simp add: copy_one page_write_def page_read_def Let_def)
qed

subsection \<open>A file system with one file\<close>

text \<open>The root directory and a file \<^verbatim>\<open>a\<close> of three bytes in page 17; vnode 0 is the root, vnode 1 the file.\<close>

definition demo_free :: "16 word tmpfs_inode" where
  "demo_free = \<lparr>ti_name = [], ti_type = VNODE_FILE, ti_active = False, ti_mode = 0, ti_size = 0, ti_parent_ino = 0, ti_data_page = PAGE_ID_INVALID,
     ti_mtime = 0, ti_ctime = 0, ti_atime = 0\<rparr>"

definition demo_vnode :: vnode where
  "demo_vnode = \<lparr>vn_type = VNODE_FILE, vn_size = 0, vn_mode = 0, vn_ino = 0, vn_refcnt = 0, vn_fs_priv = 0, vn_mount = None, vn_xip_addr = 0\<rparr>"

definition demo_fs :: "16 word kfs" where
  "demo_fs = \<lparr>vnodes = [demo_vnode\<lparr>vn_type := VNODE_DIR, vn_refcnt := 1, vn_mount := Some 0\<rparr>,
       demo_vnode\<lparr>vn_ino := 1, vn_size := 3, vn_refcnt := 1, vn_mount := Some 0\<rparr>, demo_vnode, demo_vnode],
     vn_free = [2, 3],
     mounts = [\<lparr>mnt_path = ''/'', mnt_path_len = 1, mnt_flags = 0, mnt_active = MNT_STATE_ACTIVE, mnt_ops = 1, mnt_root = Some 0, mnt_sb_priv = 0\<rparr>],
     mount_count = 1, scratch_free = 8,
     inodes = [demo_free\<lparr>ti_type := VNODE_DIR, ti_active := True\<rparr>,
       demo_free\<lparr>ti_name := ''a'', ti_active := True, ti_size := 3, ti_data_page := 17\<rparr>] @ replicate 14 demo_free,
     data_pages_used = 1, page_state = demo_mm, ram = (\<lambda>_. 7)\<rparr>"

lemma demo_inodes:
  "length (inodes demo_fs) = TMPFS_INODE_MAX" "inode_of demo_fs 0 = demo_free\<lparr>ti_type := VNODE_DIR, ti_active := True\<rparr>"
  "inode_of demo_fs (Suc 0) = demo_free\<lparr>ti_name := ''a'', ti_active := True, ti_size := 3, ti_data_page := 17\<rparr>"
  "\<And>i. 2 \<le> i \<Longrightarrow> i < TMPFS_INODE_MAX \<Longrightarrow> inode_of demo_fs i = demo_free"
  "page_state demo_fs = demo_mm" "data_pages_used demo_fs = 1" "length (vnodes demo_fs) = 4" "vn_free demo_fs = [2, 3]"
  "vnode_of demo_fs 0 = demo_vnode\<lparr>vn_type := VNODE_DIR, vn_refcnt := 1, vn_mount := Some 0\<rparr>"
  "vnode_of demo_fs (Suc 0) = demo_vnode\<lparr>vn_ino := 1, vn_size := 3, vn_refcnt := 1, vn_mount := Some 0\<rparr>"
proof -
  fix i :: nat
  assume "2 \<le> i" "i < TMPFS_INODE_MAX"
  then have k: "i - 2 < 14" "i = Suc (Suc (i - 2))" by simp_all
  have "inodes demo_fs ! Suc (Suc k) = replicate 14 demo_free ! k" for k by (simp add: demo_fs_def)
  then have "inode_of demo_fs i = replicate 14 demo_free ! (i - 2)" using k(2) by metis
  also have "\<dots> = demo_free" by (rule nth_replicate [OF k(1)])
  finally show "inode_of demo_fs i = demo_free" .
qed (simp_all add: demo_fs_def)

lemma demo_active: "i < TMPFS_INODE_MAX \<Longrightarrow> ti_active (inode_of demo_fs i) \<longleftrightarrow> i = 0 \<or> i = 1"
  using demo_inodes(2,3) demo_inodes(4) [of i] by (cases "i = 0"; cases "i = 1") (simp_all add: demo_free_def)

lemma demo_inv: "tm_inv demo_fs"
proof -
  have "owned (inodes demo_fs) = {#17#}" by (simp add: owned_def demo_fs_def demo_free_def PAGE_ID_INVALID_def)
  moreover have "(17 :: 16 word) \<noteq> PAGE_ID_INVALID" by (simp add: PAGE_ID_INVALID_def)
  moreover have "names_ok (inodes demo_fs)" unfolding names_ok_def demo_inodes(1) using demo_active demo_inodes(2,3) by (auto simp: demo_free_def)
  moreover have "page_kinds (inodes demo_fs)" by (simp add: page_kinds_def demo_fs_def demo_free_def)
  ultimately show ?thesis using demo_mm_facts by (simp add: tm_inv_def demo_inodes pages_ok_def root_ok_def) (simp add: demo_free_def)
qed

lemma demo_open: "open_vnode demo_fs 1" "arena_fits demo_fs" "caller_page demo_fs 18"
proof -
  show "open_vnode demo_fs 1" by (simp add: open_vnode_def demo_inodes demo_vnode_def demo_free_def)
  show "arena_fits demo_fs" using demo_mm_facts by (simp add: arena_fits_def demo_inodes)
  have "ti_data_page (inode_of demo_fs i) \<noteq> 18" if "i < TMPFS_INODE_MAX" for i
    using that demo_inodes(2,3) demo_inodes(4) [of i] by (cases "i = 0"; cases "i = 1") (simp_all add: demo_free_def PAGE_ID_INVALID_def)
  then show "caller_page demo_fs 18" using demo_mm_facts by (simp add: caller_page_def page_fits_def demo_inodes PAGE_ID_INVALID_def)
qed

lemma demo_dir: "dir_map demo_fs (0, ''a'') = Some 1" "dir_map demo_fs (0, ''b'') = None"
proof -
  show "dir_map demo_fs (0, ''a'') = Some 1" unfolding dir_map_iff [OF demo_inv] by (simp add: demo_inodes demo_free_def)
  have "dir_map demo_fs (0, ''b'') \<noteq> Some i" for i
    unfolding dir_map_iff [OF demo_inv] using demo_active [of i] demo_inodes(2,3) by (auto simp: demo_free_def)
  then show "dir_map demo_fs (0, ''b'') = None" by auto
qed

theorem tmpfs_write_correct_witness:
  "fst (tmpfs_write 5 [] 1 (18 :: 16 word) 0 2 2 demo_fs) = 2
   \<and> file_byte (snd (tmpfs_write 5 [] 1 (18 :: 16 word) 0 2 2 demo_fs)) 1 3 = ram demo_fs (page_linear (18 :: 16 word) + 1)
   \<and> unat (ti_size (inode_of (snd (tmpfs_write 5 [] 1 (18 :: 16 word) 0 2 2 demo_fs)) 1)) = 4"
proof -
  have "ti_data_page (inode_of demo_fs 1) \<noteq> PAGE_ID_INVALID" by (simp add: demo_inodes PAGE_ID_INVALID_def)
  then show ?thesis
    using tmpfs_write_correct [OF demo_inv demo_open(2,1) _ demo_open(3) _ _ prod.collapse [symmetric], of 0 2 2 5 "[]"]
    by (simp add: demo_inodes demo_vnode_def)
qed

theorem tmpfs_read_correct_witness:
  "fst (tmpfs_read [] 1 (18 :: 16 word) 0 9 1 demo_fs) = 2
   \<and> ram (snd (tmpfs_read [] 1 (18 :: 16 word) 0 9 1 demo_fs)) (page_linear (18 :: 16 word) + 1) = file_byte demo_fs 1 2"
proof -
  have sz: "ti_size (inode_of demo_fs 1) \<le> TMPFS_FILE_MAX" "ti_size (inode_of demo_fs 1) = 3" by (simp_all add: demo_inodes)
  have v: "vn_ino (vnode_of demo_fs 1) = 1" "vn_type (vnode_of demo_fs 1) = VNODE_FILE" by (simp_all add: demo_inodes demo_vnode_def)
  let ?r = "tmpfs_read [] 1 (18 :: 16 word) 0 9 1 demo_fs"
  have "fst ?r = 2 \<and> (\<forall>k < 4096. ram (snd ?r) (page_linear (18 :: 16 word) + of_nat k) =
      (if k < 2 then file_byte demo_fs 1 (1 + k) else ram demo_fs (page_linear (18 :: 16 word) + of_nat k)))"
    using tmpfs_read_correct [OF demo_inv demo_open(2,1) _ _ demo_open(3) _ _ prod.collapse [symmetric], of 0 9 1 "[]", unfolded v] sz
    by simp
  then show ?thesis by (elim conjE allE [of _ 1]) (simp add: numeral_2_eq_2)
qed

theorem tmpfs_create_correct_witness:
  "fst (tmpfs_create 5 0 ''b'' 0 demo_fs) = 0 \<and> fst (tmpfs_create 5 0 ''a'' 0 demo_fs) = - EEXIST"
proof -
  have "\<not> (\<forall>i. 0 < i \<and> i < TMPFS_INODE_MAX \<longrightarrow> ti_active (inode_of demo_fs i))" using demo_active [of 2] by (intro notI) (drule spec [of _ 2], simp)
  moreover have "tmpfs_create 5 0 name 0 demo_fs = (fst (tmpfs_create 5 0 name 0 demo_fs), fst (snd (tmpfs_create 5 0 name 0 demo_fs)), snd (snd (tmpfs_create 5 0 name 0 demo_fs)))" for name
    by simp
  note this [of "''b''"] this [of "''a''"]
  moreover have "vn_ino (vnode_of demo_fs 0) = 0" by (simp add: demo_inodes demo_vnode_def)
  ultimately show ?thesis
    using tmpfs_create_correct [OF demo_inv _ demo_inodes(8) _ \<open>tmpfs_create 5 0 ''b'' 0 demo_fs = _\<close>]
      tmpfs_create_correct [OF demo_inv _ demo_inodes(8) _ \<open>tmpfs_create 5 0 ''a'' 0 demo_fs = _\<close>] demo_dir
    by (simp add: good_name_def demo_inodes(7) del: split_paired_All)
qed

theorem tmpfs_unlink_correct_witness:
  "fst (tmpfs_unlink 5 0 ''a'' demo_fs) = 0 \<and> dir_map (snd (tmpfs_unlink 5 0 ''a'' demo_fs)) (0, ''a'') = None
   \<and> fst (tmpfs_unlink 5 0 ''b'' demo_fs) = - ENOENT"
proof -
  have "vn_ino (vnode_of demo_fs 0) = 0" "ti_type (inode_of demo_fs 1) = VNODE_FILE" by (simp_all add: demo_inodes demo_vnode_def demo_free_def)
  then show ?thesis
    using tmpfs_unlink_correct [OF demo_inv _ prod.collapse [symmetric], of "''a''" 5 0] tmpfs_unlink_correct [OF demo_inv _ prod.collapse [symmetric], of "''b''" 5 0] demo_dir
    by simp
qed

theorem tmpfs_rename_correct_witness:
  "fst (tmpfs_rename 5 0 ''a'' 0 ''b'' demo_fs) = 0 \<and> dir_map (snd (tmpfs_rename 5 0 ''a'' 0 ''b'' demo_fs)) (0, ''b'') = Some 1"
proof -
  have "vn_ino (vnode_of demo_fs 0) = 0" by (simp add: demo_inodes demo_vnode_def)
  then show ?thesis
    using tmpfs_rename_correct [OF demo_inv _ _ _ prod.collapse [symmetric], of "''a''" "''b''" 0 0 5] demo_dir by (simp add: good_name_def)
qed

theorem tmpfs_rename_self_removes_witness:
  "fst (tmpfs_rename 5 0 ''a'' 0 ''a'' demo_fs) = 0 \<and> dir_map (snd (tmpfs_rename 5 0 ''a'' 0 ''a'' demo_fs)) (0, ''a'') = None"
proof -
  have "vn_ino (vnode_of demo_fs 0) = 0" "ti_type (inode_of demo_fs 1) = VNODE_FILE" by (simp_all add: demo_inodes demo_vnode_def demo_free_def)
  then show ?thesis
    using tmpfs_rename_self_removes [OF demo_inv _ _ _ prod.collapse [symmetric], of "''a''" 0 1 5] demo_dir by (simp add: good_name_def)
qed

theorem tmpfs_readdir_resumes_witness:
  "tmpfs_readdir 0 8 0 demo_fs = ([\<lparr>d_ino = 1, d_type = DT_REG, d_name = ''a''\<rparr>], 1) \<and> tmpfs_readdir 0 8 1 demo_fs = ([], 1)"
proof -
  have "filter (listed demo_fs (vn_ino (vnode_of demo_fs 0))) [0..<TMPFS_INODE_MAX] = [1]"
    by (simp add: listed_def demo_fs_def demo_vnode_def demo_free_def upt_rec [of _ TMPFS_INODE_MAX] numeral_nat)
  moreover have "dirent_of demo_fs 1 = \<lparr>d_ino = 1, d_type = DT_REG, d_name = ''a''\<rparr>"
    by (simp add: dirent_of_def demo_inodes demo_free_def str_copy_def)
  ultimately show ?thesis using tmpfs_readdir_resumes [of 8 0 demo_fs 0] tmpfs_readdir_resumes [of 8 1 demo_fs 0] by simp
qed

theorem tmpfs_truncate_reads_beyond_page_witness:
  "fst (tmpfs_read [] 1 (18 :: 16 word) 0 1 4096 (snd (tmpfs_truncate 5 1 8192 demo_fs))) = 1"
proof -
  have f: "vn_type (vnode_of demo_fs 1) = VNODE_FILE" "ti_type (inode_of demo_fs 1) = VNODE_FILE" "vn_ino (vnode_of demo_fs 1) = 1"
    "ti_data_page (inode_of demo_fs 1) \<noteq> PAGE_ID_INVALID" "(18 :: 16 word) \<noteq> PAGE_ID_INVALID"
    by (simp_all add: demo_inodes demo_vnode_def demo_free_def PAGE_ID_INVALID_def)
  then have t: "tmpfs_truncate 5 1 8192 demo_fs = (0, snd (tmpfs_truncate 5 1 8192 demo_fs))" by (simp add: tmpfs_truncate_def Let_def)
  show ?thesis
    using tmpfs_truncate_reads_beyond_page [OF demo_open(1) f(1) demo_inodes(1) _ _ f(5) t prod.collapse [symmetric], of "[]" 0] f demo_inodes(7) by simp
qed

theorem tmpfs_consistent_witness:
  "fst (tmpfs_mount 5 0 0 demo_fs) = 0
   \<and> data_pages_used (snd (snd (tmpfs_create 6 0 ''b'' 0 (snd (tmpfs_mount 5 0 0 demo_fs))))) \<le> TMPFS_MAX_PAGES"
proof -
  define s1 where "s1 = snd (tmpfs_mount 5 0 0 demo_fs)"
  have m: "tmpfs_mount 5 0 0 demo_fs = (0, s1)"
    unfolding s1_def by (simp add: tmpfs_mount_def vfs_vnode_alloc_def demo_inodes Let_def)
  have "tm_step s1 (snd (snd (tmpfs_create 6 0 ''b'' 0 s1)))"
    by (rule tm_step.create [of "''b''" 6 0 0 s1 "fst (tmpfs_create 6 0 ''b'' 0 s1)" "fst (snd (tmpfs_create 6 0 ''b'' 0 s1))"])
      (simp_all add: good_name_def)
  then have reach: "tm_step\<^sup>*\<^sup>* s1 (snd (snd (tmpfs_create 6 0 ''b'' 0 s1)))" by blast
  have pm: "page_inv (page_state demo_fs)" using demo_mm_facts(3) by (simp add: demo_inodes)
  note C = tmpfs_consistent [OF demo_inodes(1) pm m reach]
  have "data_pages_used (snd (snd (tmpfs_create 6 0 ''b'' 0 s1))) \<le> TMPFS_MAX_PAGES"
    by (rule conjunct1 [OF conjunct2 [OF conjunct2 [OF conjunct2 [OF C]]]])
  moreover have "fst (tmpfs_mount 5 0 0 demo_fs) = 0" unfolding m by (rule fst_conv)
  ultimately show ?thesis unfolding s1_def by blast
qed

end
