(* ===== verification/Pipe.thy ===== *)
theory Pipe
  imports Prelude
begin

text \<open>
  Kernel pipes, \<^verbatim>\<open>src/kernel/vfs/pipe.c\<close>: a ring of 512 bytes with one slot kept empty, reader
  and writer counts, and a pool of four pipes. User memory is a function of a page and an offset
  in it, as the copy loops address it. Every turn of the \<^verbatim>\<open>for (;;)\<close> loops of \<^verbatim>\<open>pipe_read\<close> and
  \<^verbatim>\<open>pipe_write\<close> runs under \<^verbatim>\<open>SPIN_PIPE\<close> and is one step here; its first result is None where the
  caller goes to sleep. What other processes do meanwhile is an argument: a list with one entry per
  wake-up. The last result of a turn tells whether \<^verbatim>\<open>sched_wakeup\<close> is called on the pipe.
\<close>

subsection \<open>State\<close>

type_synonym 'w page_mem = "'w \<Rightarrow> u16 \<Rightarrow> u8"

record pipe =
  p_buf :: "u8 list"
  p_head :: u16
  p_tail :: u16
  p_readers :: u8
  p_writers :: u8
  p_in_use :: u8

abbreviation PIPE_BUF_SIZE :: nat where "PIPE_BUF_SIZE \<equiv> 512"
abbreviation PIPE_MASK :: u16 where "PIPE_MASK \<equiv> 511"
abbreviation PIPE_MAX :: nat where "PIPE_MAX \<equiv> 4"
abbreviation O_RDONLY :: u32 where "O_RDONLY \<equiv> 0"
abbreviation O_WRONLY :: u32 where "O_WRONLY \<equiv> 1"
abbreviation O_NONBLOCK :: u32 where "O_NONBLOCK \<equiv> 0x800"

subsection \<open>Pool\<close>

text \<open>A pipe after \<^verbatim>\<open>memset\<close> and the three stores of \<^verbatim>\<open>pipe_alloc\<close>.\<close>

definition pipe_fresh :: pipe where
  "pipe_fresh = \<lparr>p_buf = replicate PIPE_BUF_SIZE 0, p_head = 0, p_tail = 0, p_readers = 1,
     p_writers = 1, p_in_use = 1\<rparr>"

function pipe_alloc_from :: "pipe list \<Rightarrow> nat \<Rightarrow> (nat \<times> pipe list) option" where
  "pipe_alloc_from pool i =
     (if i < PIPE_MAX then
        if p_in_use (pool ! i) = 0 then Some (i, pool[i := pipe_fresh])
        else pipe_alloc_from pool (i + 1)
      else None)"
  by auto
termination by (relation "measure (\<lambda>(pool, i). PIPE_MAX - i)") auto

definition pipe_alloc :: "pipe list \<Rightarrow> (nat \<times> pipe list) option" where
  "pipe_alloc pool = pipe_alloc_from pool 0"

definition pipe_free :: "pipe \<Rightarrow> pipe" where
  "pipe_free p = p\<lparr>p_in_use := 0\<rparr>"

definition pipe_used :: "pipe \<Rightarrow> u16" where
  "pipe_used p = (p_head p - p_tail p) AND PIPE_MASK"

definition pipe_space :: "pipe \<Rightarrow> u16" where
  "pipe_space p = 511 - pipe_used p"

subsection \<open>Reading and writing\<close>

definition pipe_advance :: "'p::len word \<Rightarrow> u16 \<Rightarrow> 'p word \<times> u16" where
  "pipe_advance page off = (let off = off + 1 in if off = 4096 then (page + 1, 0) else (page, off))"

text \<open>\<^verbatim>\<open>mod_core.page_write\<close> of one byte; a write to the invalid page does nothing.\<close>

definition page_write1 :: "'p::len word page_mem \<Rightarrow> 'p word \<Rightarrow> u16 \<Rightarrow> u8 \<Rightarrow> 'p word page_mem" where
  "page_write1 mem page off ch =
     (if page = PAGE_ID_INVALID then mem else mem(page := (mem page)(off := ch)))"

fun pipe_drain :: "nat \<Rightarrow> pipe \<Rightarrow> 'p::len word page_mem \<Rightarrow> 'p word \<Rightarrow> u16 \<Rightarrow> pipe \<times> 'p word page_mem" where
  "pipe_drain 0 p mem page off = (p, mem)"
| "pipe_drain (Suc k) p mem page off =
     (let ch = p_buf p ! unat (p_tail p);
          mem = page_write1 mem page off ch;
          (page, off) = pipe_advance page off
      in pipe_drain k (p\<lparr>p_tail := (p_tail p + 1) AND PIPE_MASK\<rparr>) mem page off)"

fun pipe_fill :: "nat \<Rightarrow> pipe \<Rightarrow> 'p::len word page_mem \<Rightarrow> 'p word \<Rightarrow> u16 \<Rightarrow> pipe" where
  "pipe_fill 0 p mem page off = p"
| "pipe_fill (Suc k) p mem page off =
     (let ch = mem page off;
          p = p\<lparr>p_buf := (p_buf p)[unat (p_head p) := ch], p_head := (p_head p + 1) AND PIPE_MASK\<rparr>;
          (page, off) = pipe_advance page off
      in pipe_fill k p mem page off)"

definition pipe_read_turn ::
  "pipe \<Rightarrow> u32 \<Rightarrow> bool \<Rightarrow> 'p::len word \<Rightarrow> u16 \<Rightarrow> nat \<Rightarrow> 'p word page_mem
    \<Rightarrow> int option \<times> pipe \<times> 'p word page_mem \<times> bool" where
  "pipe_read_turn p flags sig page off n mem =
     (let avail = unat (pipe_used p) in
      if 0 < avail then
        let count = (if n < avail then n else avail);
            (p, mem) = pipe_drain count p mem page off
        in (Some (int count), p, mem, True)
      else if p_writers p = 0 then (Some 0, p, mem, False)
      else if nz (flags AND O_NONBLOCK) then (Some (- EAGAIN), p, mem, False)
      else if sig then (Some (- EINTR), p, mem, False)
      else (None, p, mem, False))"

definition pipe_write_turn ::
  "pipe \<Rightarrow> u32 \<Rightarrow> bool \<Rightarrow> 'p::len word \<Rightarrow> u16 \<Rightarrow> nat \<Rightarrow> 'p word page_mem
    \<Rightarrow> int option \<times> pipe \<times> bool" where
  "pipe_write_turn p flags sig page off n mem =
     (if p_readers p = 0 then (Some (- EPIPE), p, False)
      else
        let space = unat (pipe_space p) in
        if 0 < space then
          let count = (if n < space then n else space)
          in (Some (int count), pipe_fill count p mem page off, True)
        else if nz (flags AND O_NONBLOCK) then (Some (- EAGAIN), p, False)
        else if sig then (Some (- EINTR), p, False)
        else (None, p, False))"

text \<open>The calls: each entry of the list is what the rest of the system does to the pipe during one
  sleep and whether an unblocked signal is pending afterwards; None is a caller that still sleeps.\<close>

fun pipe_read ::
  "((pipe \<Rightarrow> pipe) \<times> bool) list \<Rightarrow> pipe \<Rightarrow> u32 \<Rightarrow> bool \<Rightarrow> 'p::len word \<Rightarrow> u16 \<Rightarrow> nat \<Rightarrow> 'p word page_mem
    \<Rightarrow> (int \<times> pipe \<times> 'p word page_mem) option" where
  "pipe_read sleeps p flags sig page off n mem =
     (case pipe_read_turn p flags sig page off n mem of
        (Some rc, p, mem, w) \<Rightarrow> Some (rc, p, mem)
      | (None, p, mem, w) \<Rightarrow>
          (case sleeps of [] \<Rightarrow> None
           | (g, sig') # rest \<Rightarrow> pipe_read rest (g p) flags sig' page off n mem))"

fun pipe_write ::
  "((pipe \<Rightarrow> pipe) \<times> bool) list \<Rightarrow> pipe \<Rightarrow> u32 \<Rightarrow> bool \<Rightarrow> 'p::len word \<Rightarrow> u16 \<Rightarrow> nat \<Rightarrow> 'p word page_mem
    \<Rightarrow> (int \<times> pipe) option" where
  "pipe_write sleeps p flags sig page off n mem =
     (case pipe_write_turn p flags sig page off n mem of
        (Some rc, p, w) \<Rightarrow> Some (rc, p)
      | (None, p, w) \<Rightarrow>
          (case sleeps of [] \<Rightarrow> None
           | (g, sig') # rest \<Rightarrow> pipe_write rest (g p) flags sig' page off n mem))"

definition pipe_close :: "pipe \<Rightarrow> u32 \<Rightarrow> pipe" where
  "pipe_close p flags =
     (let p = (if flags = O_RDONLY then p\<lparr>p_readers := p_readers p - 1\<rparr>
               else p\<lparr>p_writers := p_writers p - 1\<rparr>)
      in if p_readers p = 0 \<and> p_writers p = 0 then pipe_free p else p)"

declare pipe_read.simps [simp del] pipe_write.simps [simp del] pipe_alloc_from.simps [simp del]

subsection \<open>What a pipe means\<close>

definition pipe_inv :: "pipe \<Rightarrow> bool" where
  "pipe_inv p \<longleftrightarrow> length (p_buf p) = PIPE_BUF_SIZE \<and> unat (p_head p) < PIPE_BUF_SIZE
     \<and> unat (p_tail p) < PIPE_BUF_SIZE"

definition pipe_list :: "pipe \<Rightarrow> u8 list" where
  "pipe_list p = map (\<lambda>i. p_buf p ! ((unat (p_tail p) + i) mod 512)) [0 ..< unat (pipe_used p)]"

fun load_bytes :: "nat \<Rightarrow> 'p::len word page_mem \<Rightarrow> 'p word \<Rightarrow> u16 \<Rightarrow> u8 list" where
  "load_bytes 0 mem page off = []"
| "load_bytes (Suc k) mem page off =
     mem page off # (let (page', off') = pipe_advance page off in load_bytes k mem page' off')"

fun store_bytes :: "u8 list \<Rightarrow> 'p::len word page_mem \<Rightarrow> 'p word \<Rightarrow> u16 \<Rightarrow> 'p word page_mem" where
  "store_bytes [] mem page off = mem"
| "store_bytes (b # bs) mem page off =
     (let (page', off') = pipe_advance page off in store_bytes bs (page_write1 mem page off b) page' off')"

text \<open>The end counts and the pool flag are not touched by the loops.\<close>

definition pipe_ends :: "pipe \<Rightarrow> u8 \<times> u8 \<times> u8" where
  "pipe_ends p = (p_readers p, p_writers p, p_in_use p)"

definition byte_pos :: "'p::len word \<Rightarrow> u16 \<Rightarrow> nat \<Rightarrow> 'p word \<times> u16" where
  "byte_pos page off i = (page + of_nat ((unat off + i) div 4096), of_nat ((unat off + i) mod 4096))"

text \<open>The bytes a sequence of operations collects, by a function of each operation and the state it
  runs in.\<close>

fun collect :: "('op \<Rightarrow> 's \<Rightarrow> 's) \<Rightarrow> ('op \<Rightarrow> 's \<Rightarrow> 'b list) \<Rightarrow> 'op list \<Rightarrow> 's \<Rightarrow> 'b list" where
  "collect step out [] s = []"
| "collect step out (a # as) s = out a s @ collect step out as (step a s)"

text \<open>One turn of a read or write call on a pipe, with its flags, pending-signal state, buffer and
  user memory.\<close>

datatype 'w pipe_op =
    PRead u32 bool 'w u16 nat "'w page_mem"
  | PWrite u32 bool 'w u16 nat "'w page_mem"

fun pipe_step :: "'p::len word pipe_op \<Rightarrow> pipe \<Rightarrow> pipe" where
  "pipe_step (PRead flags sig page off n mem) p = fst (snd (pipe_read_turn p flags sig page off n mem))"
| "pipe_step (PWrite flags sig page off n mem) p = fst (snd (pipe_write_turn p flags sig page off n mem))"

definition rc_count :: "int option \<Rightarrow> nat" where
  "rc_count rc = (case rc of Some k \<Rightarrow> nat k | None \<Rightarrow> 0)"

text \<open>The bytes a read leaves in the caller's buffer, and those a write reports as written.\<close>

fun pipe_took :: "'p::len word pipe_op \<Rightarrow> pipe \<Rightarrow> u8 list" where
  "pipe_took (PRead flags sig page off n mem) p =
     (case pipe_read_turn p flags sig page off n mem of
        (rc, p', mem', w) \<Rightarrow> load_bytes (rc_count rc) mem' page off)"
| "pipe_took (PWrite flags sig page off n mem) p = []"

fun pipe_gave :: "'p::len word pipe_op \<Rightarrow> pipe \<Rightarrow> u8 list" where
  "pipe_gave (PRead flags sig page off n mem) p = []"
| "pipe_gave (PWrite flags sig page off n mem) p =
     (case pipe_write_turn p flags sig page off n mem of
        (rc, p', w) \<Rightarrow> load_bytes (rc_count rc) mem page off)"

definition buffer_ok :: "'p::len word \<Rightarrow> u16 \<Rightarrow> bool" where
  "buffer_ok page off \<longleftrightarrow> unat off < 4096 \<and> page \<noteq> PAGE_ID_INVALID \<and> page + 1 \<noteq> PAGE_ID_INVALID"

fun pipe_op_ok :: "'p::len word pipe_op \<Rightarrow> bool" where
  "pipe_op_ok (PRead flags sig page off n mem) = buffer_ok page off"
| "pipe_op_ok (PWrite flags sig page off n mem) = buffer_ok page off"

text \<open>When a reader has to wait, and the states a sleeping reader sees.\<close>

definition read_blocked :: "pipe \<Rightarrow> u32 \<Rightarrow> bool \<Rightarrow> bool" where
  "read_blocked p flags sig \<longleftrightarrow>
     pipe_list p = [] \<and> p_writers p \<noteq> 0 \<and> flags AND O_NONBLOCK = 0 \<and> \<not> sig"

fun sleeper_sees :: "((pipe \<Rightarrow> pipe) \<times> bool) list \<Rightarrow> pipe \<Rightarrow> bool \<Rightarrow> (pipe \<times> bool) list" where
  "sleeper_sees [] p sig = [(p, sig)]"
| "sleeper_sees ((g, sig') # rest) p sig = (p, sig) # sleeper_sees rest (g p) sig'"

text \<open>A fresh pipe with three bytes written from offset 4095 of page 7, so that the buffer crosses
  into page 8; used by the witnesses.\<close>

definition demo_mem :: "16 word page_mem" where
  "demo_mem = (\<lambda>_ _. 0)(7 := (\<lambda>_. 0)(4095 := 10), 8 := (\<lambda>_. 0)(0 := 20, 1 := 30))"

definition demo_write :: "16 word pipe_op" where
  "demo_write = PWrite 0 False 7 4095 3 demo_mem"

subsection \<open>The ring as a list\<close>

lemma unat_and_mask: "unat ((w :: u16) AND PIPE_MASK) = unat w mod 512"
proof -
  have "w AND PIPE_MASK = take_bit 9 w" by (simp add: take_bit_eq_mask mask_eq_exp_minus_1)
  then have "unat (w AND PIPE_MASK) = take_bit 9 (unat w)" by (simp only: unsigned_take_bit_eq)
  then show ?thesis by (simp add: take_bit_eq_mod)
qed

lemma pipe_used_unat:
  assumes "pipe_inv p"
  defines "h \<equiv> unat (p_head p)" and "t \<equiv> unat (p_tail p)"
  shows "unat (pipe_used p) = (if t \<le> h then h - t else h + 512 - t)"
proof (cases "t \<le> h")
  case True
  then have "unat (p_head p - p_tail p) = h - t" unfolding h_def t_def by (simp add: unat_sub_if_size)
  moreover have "h - t < 512" using assms(1) unfolding pipe_inv_def h_def by linarith
  ultimately show ?thesis using True by (simp add: pipe_used_def unat_and_mask)
next
  case False
  then have "unat (p_head p - p_tail p) = h + 512 - t + 127 * 512"
    using assms(1) unfolding h_def t_def by (simp add: unat_sub_if_size word_size pipe_inv_def)
  then have "unat (pipe_used p) = (h + 512 - t) mod 512"
    unfolding pipe_used_def unat_and_mask by (simp only: mod_mult_self1)
  then show ?thesis using False by simp
qed

lemma pipe_used_less [simp]: "unat (pipe_used p) < 512"
  by (simp add: pipe_used_def unat_and_mask)

lemma pipe_space_unat: "unat (pipe_space p) = 511 - unat (pipe_used p)"
proof -
  have "unat (pipe_used p) \<le> 511" using pipe_used_less [of p] by linarith
  then show ?thesis by (simp add: pipe_space_def unat_sub_if_size)
qed

lemma length_pipe_list [simp]: "length (pipe_list p) = unat (pipe_used p)"
  by (simp add: pipe_list_def)

text \<open>Taking one byte from the tail, putting one byte at the head.\<close>

definition pipe_pop :: "pipe \<Rightarrow> pipe" where
  "pipe_pop p = p\<lparr>p_tail := (p_tail p + 1) AND PIPE_MASK\<rparr>"

definition pipe_push :: "pipe \<Rightarrow> u8 \<Rightarrow> pipe" where
  "pipe_push p ch = p\<lparr>p_buf := (p_buf p)[unat (p_head p) := ch], p_head := (p_head p + 1) AND PIPE_MASK\<rparr>"

lemma unat_inc_mask:
  "unat w < 512 \<Longrightarrow> unat ((w + 1) AND PIPE_MASK) = (if unat w = 511 then 0 else unat w + 1)"
  by (simp add: unat_and_mask unat_word_ariths)

lemma pipe_inv_pop: "pipe_inv p \<Longrightarrow> pipe_inv (pipe_pop p)"
  by (simp add: pipe_inv_def pipe_pop_def unat_and_mask)

lemma pipe_inv_push: "pipe_inv p \<Longrightarrow> pipe_inv (pipe_push p ch)"
  by (simp add: pipe_inv_def pipe_push_def unat_and_mask)

lemma pipe_used_pop:
  assumes "pipe_inv p" and "0 < unat (pipe_used p)"
  shows "unat (pipe_used p) = Suc (unat (pipe_used (pipe_pop p)))"
  using assms unfolding pipe_used_unat [OF assms(1)] pipe_used_unat [OF pipe_inv_pop [OF assms(1)]]
  by (auto simp: pipe_pop_def unat_inc_mask pipe_inv_def split: if_splits)

lemma pipe_used_push:
  assumes "pipe_inv p" and "unat (pipe_used p) < 511"
  shows "unat (pipe_used (pipe_push p ch)) = Suc (unat (pipe_used p))"
  using assms unfolding pipe_used_unat [OF assms(1)] pipe_used_unat [OF pipe_inv_push [OF assms(1)]]
  by (auto simp: pipe_push_def unat_inc_mask pipe_inv_def split: if_splits)

lemma pipe_list_pop:
  assumes "pipe_inv p" and "pipe_list p \<noteq> []"
  shows "pipe_list p = p_buf p ! unat (p_tail p) # pipe_list (pipe_pop p)"
proof (rule nth_equalityI)
  have u: "unat (pipe_used p) = Suc (unat (pipe_used (pipe_pop p)))"
    using pipe_used_pop assms by (simp add: pipe_list_def)
  then show "length (pipe_list p) = length (p_buf p ! unat (p_tail p) # pipe_list (pipe_pop p))" by simp
  fix i assume i: "i < length (pipe_list p)"
  have t: "unat (p_tail p) < 512" using assms(1) by (simp add: pipe_inv_def)
  show "pipe_list p ! i = (p_buf p ! unat (p_tail p) # pipe_list (pipe_pop p)) ! i"
  proof (cases i)
    case 0
    then show ?thesis using i t by (simp add: pipe_list_def)
  next
    case (Suc j)
    have "unat (p_tail (pipe_pop p)) = (unat (p_tail p) + 1) mod 512"
      using t by (simp add: pipe_pop_def unat_inc_mask)
    then have "(unat (p_tail (pipe_pop p)) + j) mod 512 = (unat (p_tail p) + Suc j) mod 512"
      by (simp add: mod_simps)
    then show ?thesis using i u Suc by (simp add: pipe_list_def del: upt_Suc) (simp add: pipe_pop_def)
  qed
qed

lemma pipe_list_push:
  assumes "pipe_inv p" and "length (pipe_list p) < 511"
  shows "pipe_list (pipe_push p ch) = pipe_list p @ [ch]"
proof (rule nth_equalityI)
  let ?t = "unat (p_tail p)" and ?h = "unat (p_head p)" and ?u = "unat (pipe_used p)"
  have u: "unat (pipe_used (pipe_push p ch)) = Suc ?u" using pipe_used_push assms by simp
  then show "length (pipe_list (pipe_push p ch)) = length (pipe_list p @ [ch])" by simp
  fix i assume "i < length (pipe_list (pipe_push p ch))"
  then have i: "i \<le> ?u" using u by simp
  have inv: "?h < 512" "?t < 512" "length (p_buf p) = 512" using assms(1) by (simp_all add: pipe_inv_def)
  note uu = pipe_used_unat [OF assms(1)]
  have e: "pipe_list (pipe_push p ch) ! i = (p_buf p)[?h := ch] ! ((?t + i) mod 512)"
    using i u by (simp add: pipe_list_def del: upt_Suc) (simp add: pipe_push_def)
  show "pipe_list (pipe_push p ch) ! i = (pipe_list p @ [ch]) ! i"
  proof (cases "i = ?u")
    case True
    then have "(?t + i) mod 512 = ?h" using inv uu by (auto split: if_splits)
    then show ?thesis using e inv True by (simp add: nth_append)
  next
    case False
    then have "i < ?u" using i by simp
    moreover from this have "(?t + i) mod 512 \<noteq> ?h"
      using inv uu mod_if [of "?t + i" 512] mod_less [of "?t + i - 512" 512] by (auto split: if_splits)
    ultimately show ?thesis using e by (simp add: nth_append) (simp add: pipe_list_def)
  qed
qed

subsection \<open>The copy loops\<close>

lemma pipe_drain_list:
  assumes "pipe_inv p" and "k \<le> length (pipe_list p)"
  shows "pipe_inv (fst (pipe_drain k p mem page off))
    \<and> pipe_list (fst (pipe_drain k p mem page off)) = drop k (pipe_list p)
    \<and> snd (pipe_drain k p mem page off) = store_bytes (take k (pipe_list p)) mem page off"
  using assms
proof (induction k arbitrary: p mem page off)
  case (Suc k)
  obtain page' off' where adv: "pipe_advance page off = (page', off')" by fastforce
  have "pipe_list p \<noteq> []" using Suc.prems(2) by (cases "pipe_list p") auto
  note l = pipe_list_pop [OF Suc.prems(1) this]
  have "k \<le> length (pipe_list (pipe_pop p))" using Suc.prems(2) l by (metis Suc_le_mono length_Cons)
  note IH = Suc.IH [OF pipe_inv_pop [OF Suc.prems(1)] this]
  have "drop (Suc k) (pipe_list p) = drop k (pipe_list (pipe_pop p))"
    "take (Suc k) (pipe_list p) = p_buf p ! unat (p_tail p) # take k (pipe_list (pipe_pop p))"
    by (metis l drop_Suc_Cons, metis l take_Suc_Cons)
  then show ?case by (simp add: adv IH pipe_pop_def [symmetric] Let_def)
qed simp

lemma pipe_fill_list:
  assumes "pipe_inv p" and "length (pipe_list p) + k \<le> 511"
  shows "pipe_inv (pipe_fill k p mem page off)
    \<and> pipe_list (pipe_fill k p mem page off) = pipe_list p @ load_bytes k mem page off"
  using assms
proof (induction k arbitrary: p page off)
  case (Suc k)
  obtain page' off' where adv: "pipe_advance page off = (page', off')" by fastforce
  have l: "pipe_list (pipe_push p (mem page off)) = pipe_list p @ [mem page off]"
    by (rule pipe_list_push) (use Suc.prems in auto)
  have "length (pipe_list (pipe_push p (mem page off))) + k \<le> 511" using Suc.prems(2) unfolding l by simp
  note IH = Suc.IH [OF pipe_inv_push [OF Suc.prems(1)] this]
  show ?case using IH by (simp add: adv pipe_push_def [symmetric] Let_def l)
qed simp

lemma pipe_ends_drain [simp]: "pipe_ends (fst (pipe_drain k p mem page off)) = pipe_ends p"
  by (induction k p mem page off rule: pipe_drain.induct) (auto simp: pipe_ends_def Let_def split_beta)

lemma pipe_ends_fill [simp]: "pipe_ends (pipe_fill k p mem page off) = pipe_ends p"
  by (induction k p mem page off rule: pipe_fill.induct) (auto simp: pipe_ends_def Let_def split_beta)

subsection \<open>User memory\<close>

lemma unat_of_nat_off: "unat (of_nat (m mod 4096) :: u16) = m mod 4096"
  by (simp add: unat_of_nat mod_less)

lemma pipe_advance_pos:
  assumes "unat off < 4096"
  shows "pipe_advance page off = byte_pos page off 1"
proof (cases "unat off = 4095")
  case True
  then have "off = 4095" by (simp add: word_unat_eq_iff)
  then show ?thesis by (simp add: pipe_advance_def byte_pos_def Let_def)
next
  case False
  have "unat (off + 1) = unat off + 1" using assms by (simp add: unat_word_ariths)
  then have "off + 1 \<noteq> 4096" using False assms by auto
  moreover have "of_nat ((unat off + 1) mod 4096) = off + 1" using False assms by simp
  ultimately show ?thesis using False assms by (simp add: pipe_advance_def byte_pos_def Let_def)
qed

lemma byte_pos_off: "unat (snd (byte_pos page off i)) < 4096"
  by (simp add: byte_pos_def unat_of_nat_off)

lemma byte_pos_0 [simp]: "unat off < 4096 \<Longrightarrow> byte_pos page off 0 = (page, off)"
  by (simp add: byte_pos_def)

lemma byte_pos_add:
  "byte_pos (fst (byte_pos page off i)) (snd (byte_pos page off i)) j = byte_pos page off (i + j)"
proof -
  have "(unat off + i) div 4096 + ((unat off + i) mod 4096 + j) div 4096 = (unat off + (i + j)) div 4096"
  proof -
    let ?x = "unat off + i"
    have "?x + j = ?x mod 4096 + j + ?x div 4096 * 4096" by simp
    then have "(?x + j) div 4096 = ?x div 4096 + (?x mod 4096 + j) div 4096"
      by (metis div_mult_self1 zero_neq_numeral)
    then show ?thesis by (simp add: add.assoc)
  qed
  moreover have "((unat off + i) mod 4096 + j) mod 4096 = (unat off + (i + j)) mod 4096"
    by (simp add: mod_simps add.assoc)
  ultimately show ?thesis
    by (simp add: byte_pos_def unat_of_nat_off add.assoc of_nat_add [symmetric] del: of_nat_add)
qed

lemma byte_pos_neq:
  assumes "unat off < 4096" and "0 < i" and "i < 4096"
  shows "byte_pos page off i \<noteq> (page, off)"
proof
  assume "byte_pos page off i = (page, off)"
  then have "of_nat ((unat off + i) mod 4096) = off" by (simp add: byte_pos_def)
  then have "(unat off + i) mod 4096 = unat off" by (metis unat_of_nat_off)
  moreover have "(unat off + i) mod 4096 = (if unat off + i < 4096 then unat off + i else unat off + i - 4096)"
    using assms by (simp add: le_mod_geq)
  ultimately show False using assms by (auto split: if_splits)
qed

lemma load_bytes_nth:
  "unat off < 4096 \<Longrightarrow> load_bytes k mem page off = map (\<lambda>i. mem (fst (byte_pos page off i)) (snd (byte_pos page off i))) [0 ..< k]"
proof (induction k arbitrary: page off)
  case (Suc k)
  show ?case
    by (simp only: load_bytes.simps pipe_advance_pos [OF Suc.prems] Let_def split_beta
        Suc.IH [OF byte_pos_off] byte_pos_add)
      (simp add: upt_conv_Cons map_Suc_upt [symmetric] Suc.prems del: upt_Suc)
qed simp

lemma store_bytes_other:
  "unat off < 4096 \<Longrightarrow> (\<And>i. i < length bs \<Longrightarrow> byte_pos page off i \<noteq> (pg, x)) \<Longrightarrow>
   store_bytes bs mem page off pg x = mem pg x"
proof (induction bs arbitrary: mem page off)
  case (Cons b bs)
  let ?q = "byte_pos page off 1"
  have "store_bytes bs (page_write1 mem page off b) (fst ?q) (snd ?q) pg x = page_write1 mem page off b pg x"
    by (rule Cons.IH) (use byte_pos_off Cons.prems(2) [of "Suc _"] in \<open>auto simp: byte_pos_add plus_1_eq_Suc simp del: One_nat_def\<close>)
  also have "\<dots> = mem pg x" using Cons.prems(2) [of 0] Cons.prems(1) by (auto simp: page_write1_def)
  finally show ?case by (simp add: pipe_advance_pos [OF Cons.prems(1)] Let_def split_beta)
qed simp

lemma load_store_bytes:
  assumes "unat off < 4096" and "length bs \<le> 4096"
    and "\<And>i. i < length bs \<Longrightarrow> fst (byte_pos page off i) \<noteq> PAGE_ID_INVALID"
  shows "load_bytes (length bs) (store_bytes bs mem page off) page off = bs"
  using assms
proof (induction bs arbitrary: mem page off)
  case (Cons b bs)
  let ?q = "byte_pos page off 1"
  let ?m = "page_write1 mem page off b"
  have st: "store_bytes (b # bs) mem page off = store_bytes bs ?m (fst ?q) (snd ?q)"
    by (simp add: pipe_advance_pos [OF Cons.prems(1)] Let_def split_beta)
  have "store_bytes bs ?m (fst ?q) (snd ?q) page off = ?m page off"
  proof (rule store_bytes_other [OF byte_pos_off])
    fix i assume "i < length bs"
    then show "byte_pos (fst ?q) (snd ?q) i \<noteq> (page, off)"
      unfolding byte_pos_add using byte_pos_neq [OF Cons.prems(1), of "1 + i"] Cons.prems(2) by simp
  qed
  moreover have "?m page off = b" using Cons.prems(1) Cons.prems(3) [of 0] by (simp add: page_write1_def)
  moreover have "load_bytes (length bs) (store_bytes bs ?m (fst ?q) (snd ?q)) (fst ?q) (snd ?q) = bs"
    by (rule Cons.IH [OF byte_pos_off])
      (use Cons.prems(2) Cons.prems(3) [of "Suc _"] in \<open>auto simp: byte_pos_add plus_1_eq_Suc simp del: One_nat_def\<close>)
  ultimately show ?case
    unfolding st by (simp add: pipe_advance_pos [OF Cons.prems(1)] Let_def split_beta)
qed simp

subsection \<open>Sequences of operations\<close>

subsection \<open>Reads and writes\<close>

lemma byte_pos_page:
  "unat off < 4096 \<Longrightarrow> i < 4096 \<Longrightarrow> fst (byte_pos page off i) = page \<or> fst (byte_pos page off i) = page + 1"
proof -
  assume "unat off < 4096" "i < 4096"
  then have "(unat off + i) div 4096 = 0 \<or> (unat off + i) div 4096 = 1"
    by (cases "unat off + i < 4096") (auto simp: div_if)
  then show ?thesis by (auto simp: byte_pos_def)
qed

lemma buffer_okD:
  assumes "buffer_ok page off"
  shows "unat off < 4096" "i < 4096 \<Longrightarrow> fst (byte_pos page off i) \<noteq> PAGE_ID_INVALID"
  using assms byte_pos_page [of off i page] by (auto simp: buffer_ok_def)

lemma pipe_list_empty: "pipe_list p = [] \<longleftrightarrow> unat (pipe_used p) = 0"
  by (metis length_0_conv length_pipe_list)

lemma pipe_read_data:
  fixes page :: "'p::len word" and off :: u16 and n :: nat and mem :: "'p word page_mem"
    and flags :: u32 and sig :: bool
  assumes inv: "pipe_inv p" and buf: "buffer_ok page off" and ne: "pipe_list p \<noteq> []"
  defines "k \<equiv> min n (length (pipe_list p))" and "r \<equiv> pipe_read_turn p flags sig page off n mem"
  shows "fst r = Some (int k)" "pipe_inv (fst (snd r))" "pipe_list (fst (snd r)) = drop k (pipe_list p)"
    "load_bytes k (fst (snd (snd r))) page off = take k (pipe_list p)" "snd (snd (snd r))"
    "pipe_ends (fst (snd r)) = pipe_ends p"
    "(\<And>i. i < k \<Longrightarrow> byte_pos page off i \<noteq> (pg, x)) \<Longrightarrow> fst (snd (snd r)) pg x = mem pg x"
proof -
  have k: "k \<le> length (pipe_list p)" "k \<le> 511"
    using pipe_used_less [of p] unfolding k_def length_pipe_list by linarith+
  note d = pipe_drain_list [OF inv k(1), of mem page off]
  have kk: "(if n < unat (pipe_used p) then n else unat (pipe_used p)) = k" by (simp add: k_def)
  have r: "r = (Some (int k), fst (pipe_drain k p mem page off), snd (pipe_drain k p mem page off), True)"
    using ne by (simp add: r_def pipe_read_turn_def pipe_list_empty Let_def kk split_beta)
  show "fst r = Some (int k)" "pipe_inv (fst (snd r))" "pipe_list (fst (snd r)) = drop k (pipe_list p)"
    "snd (snd (snd r))" "pipe_ends (fst (snd r)) = pipe_ends p"
    using d by (simp_all add: r)
  have tl: "length (take k (pipe_list p)) = k" using k(1) by simp
  show "load_bytes k (fst (snd (snd r))) page off = take k (pipe_list p)"
    using load_store_bytes [of off "take k (pipe_list p)" page mem] buffer_okD [OF buf] k d tl by (simp add: r)
  assume "\<And>i. i < k \<Longrightarrow> byte_pos page off i \<noteq> (pg, x)"
  then show "fst (snd (snd r)) pg x = mem pg x"
    using store_bytes_other [OF buffer_okD(1) [OF buf], of "take k (pipe_list p)" page pg x mem] tl d
    by (simp add: r)
qed

lemma pipe_read_empty:
  assumes "pipe_list p = []"
  shows "pipe_read_turn p flags sig page off n mem =
    (if p_writers p = 0 then Some 0 else if nz (flags AND O_NONBLOCK) then Some (- EAGAIN)
     else if sig then Some (- EINTR) else None, p, mem, False)"
  using assms by (simp add: pipe_read_turn_def pipe_list_empty Let_def)

text \<open>One turn of \<^verbatim>\<open>pipe_read\<close>. With bytes in the pipe it returns how many it moved, the
  smaller of the request and the fill; these bytes are now in the caller's buffer in order, across a page
  boundary too, nothing else in memory changed, they and only they left the pipe, and blocked writers are
  woken. On an empty pipe nothing changes and the result is end of file, -EAGAIN, -EINTR or a sleep, in
  this order.\<close>

theorem pipe_read_turn_correct:
  fixes page :: "'p::len word" and off :: u16 and n :: nat and mem :: "'p word page_mem"
    and flags :: u32 and sig :: bool
  assumes "pipe_inv p" and "buffer_ok page off"
  defines "k \<equiv> min n (length (pipe_list p))"
  shows "case pipe_read_turn p flags sig page off n mem of (rc, p', mem', wake) \<Rightarrow>
    if pipe_list p \<noteq> [] then rc = Some (int k) \<and> pipe_inv p' \<and> pipe_list p' = drop k (pipe_list p)
      \<and> load_bytes k mem' page off = take k (pipe_list p) \<and> wake
      \<and> (\<forall>pg x. (\<forall>i < k. byte_pos page off i \<noteq> (pg, x)) \<longrightarrow> mem' pg x = mem pg x)
    else p' = p \<and> mem' = mem \<and> \<not> wake
      \<and> rc = (if p_writers p = 0 then Some 0 else if nz (flags AND O_NONBLOCK) then Some (- EAGAIN)
              else if sig then Some (- EINTR) else None)"
proof (cases "pipe_list p = []")
  case True
  then show ?thesis by (simp add: pipe_read_empty)
next
  case False
  from pipe_read_data [OF assms(1,2) False] False show ?thesis unfolding k_def by (auto simp: split_beta)
qed

lemma pipe_write_data:
  fixes page :: "'p::len word" and off :: u16 and n :: nat and mem :: "'p word page_mem"
    and flags :: u32 and sig :: bool
  assumes inv: "pipe_inv p" and rd: "p_readers p \<noteq> 0" and room: "length (pipe_list p) < 511"
  defines "k \<equiv> min n (511 - length (pipe_list p))" and "r \<equiv> pipe_write_turn p flags sig page off n mem"
  shows "fst r = Some (int k)" "pipe_inv (fst (snd r))"
    "pipe_list (fst (snd r)) = pipe_list p @ load_bytes k mem page off" "snd (snd r)"
    "pipe_ends (fst (snd r)) = pipe_ends p"
proof -
  have k: "length (pipe_list p) + k \<le> 511" using room by (simp add: k_def)
  have kk: "(if n < unat (pipe_space p) then n else unat (pipe_space p)) = k"
    by (simp add: k_def pipe_space_unat)
  have "0 < unat (pipe_space p)" using room by (simp add: pipe_space_unat)
  then have r: "r = (Some (int k), pipe_fill k p mem page off, True)"
    using rd by (simp add: r_def pipe_write_turn_def Let_def kk)
  show "fst r = Some (int k)" "pipe_inv (fst (snd r))" "snd (snd r)" "pipe_ends (fst (snd r)) = pipe_ends p"
    "pipe_list (fst (snd r)) = pipe_list p @ load_bytes k mem page off"
    using pipe_fill_list [OF inv k, of mem page off] by (simp_all add: r)
qed

lemma pipe_write_full:
  assumes "p_readers p = 0 \<or> 511 \<le> length (pipe_list p)"
  shows "pipe_write_turn p flags sig page off n mem =
    (if p_readers p = 0 then Some (- EPIPE) else if nz (flags AND O_NONBLOCK) then Some (- EAGAIN)
     else if sig then Some (- EINTR) else None, p, False)"
  using assms by (auto simp: pipe_write_turn_def Let_def pipe_space_unat)

text \<open>One turn of \<^verbatim>\<open>pipe_write\<close>. Without readers the result is -EPIPE. With room the
  bytes at the front of the caller's buffer, as many as asked for or as fit under the limit of 511, are
  appended to the pipe in order and blocked readers are woken. On a full pipe nothing changes and the
  result is -EAGAIN, -EINTR or a sleep.\<close>

theorem pipe_write_turn_correct:
  fixes page :: "'p::len word" and off :: u16 and n :: nat and mem :: "'p word page_mem"
    and flags :: u32 and sig :: bool
  assumes "pipe_inv p"
  defines "k \<equiv> min n (511 - length (pipe_list p))"
  shows "case pipe_write_turn p flags sig page off n mem of (rc, p', wake) \<Rightarrow>
    if p_readers p \<noteq> 0 \<and> length (pipe_list p) < 511
    then rc = Some (int k) \<and> pipe_inv p' \<and> pipe_list p' = pipe_list p @ load_bytes k mem page off \<and> wake
    else p' = p \<and> \<not> wake
      \<and> rc = (if p_readers p = 0 then Some (- EPIPE) else if nz (flags AND O_NONBLOCK) then Some (- EAGAIN)
              else if sig then Some (- EINTR) else None)"
proof (cases "p_readers p \<noteq> 0 \<and> length (pipe_list p) < 511")
  case True
  then have "p_readers p \<noteq> 0" "length (pipe_list p) < 511" by auto
  from pipe_write_data [OF assms(1) this, where page = page and off = off and n = n and mem = mem
      and flags = flags and sig = sig] True show ?thesis unfolding k_def by (simp add: split_beta)
next
  case False
  then have "p_readers p = 0 \<or> 511 \<le> length (pipe_list p)" by auto
  from pipe_write_full [OF this, of flags sig page off n mem] False show ?thesis by simp
qed

subsection \<open>First in, first out\<close>

text \<open>A channel whose operations each hand out some items and accept some: what goes out followed by
  what stays is what was there followed by what came in.\<close>

locale fifo_channel =
  fixes inv :: "'s \<Rightarrow> bool" and contents :: "'s \<Rightarrow> 'b list" and ok :: "'op \<Rightarrow> bool"
    and step :: "'op \<Rightarrow> 's \<Rightarrow> 's" and took :: "'op \<Rightarrow> 's \<Rightarrow> 'b list" and gave :: "'op \<Rightarrow> 's \<Rightarrow> 'b list"
  assumes step_inv: "inv s \<Longrightarrow> ok a \<Longrightarrow> inv (step a s)"
    and step_fifo: "inv s \<Longrightarrow> ok a \<Longrightarrow> took a s @ contents (step a s) = contents s @ gave a s"
begin

lemma run_inv: "inv s \<Longrightarrow> list_all ok as \<Longrightarrow> inv (fold step as s)"
  by (induction as arbitrary: s) (auto simp: step_inv)

lemma run_fifo:
  "inv s \<Longrightarrow> list_all ok as \<Longrightarrow>
   collect step took as s @ contents (fold step as s) = contents s @ collect step gave as s"
proof (induction as arbitrary: s)
  case (Cons a as)
  have "inv s" "ok a" "list_all ok as" using Cons.prems by auto
  then have IH: "collect step took as (step a s) @ contents (fold step as (step a s)) =
      contents (step a s) @ collect step gave as (step a s)"
    by (intro Cons.IH) (auto simp: step_inv)
  have "collect step took (a # as) s @ contents (fold step (a # as) s) =
      took a s @ (contents (step a s) @ collect step gave as (step a s))"
    using IH by simp
  also have "\<dots> = contents s @ collect step gave (a # as) s"
    using step_fifo [OF \<open>inv s\<close> \<open>ok a\<close>] by (simp add: append_assoc [symmetric] del: append_assoc)
  finally show ?case .
qed simp

end

lemma pipe_step_inv:
  assumes "pipe_inv p" and "pipe_op_ok a"
  shows "pipe_inv (pipe_step a p)"
proof (cases a)
  case (PRead flags sig page off n mem)
  then show ?thesis
    using pipe_read_data(2) [OF assms(1), where page = page and off = off and n = n and mem = mem and flags = flags and sig = sig] assms
    by (cases "pipe_list p = []") (auto simp: pipe_read_empty)
next
  case (PWrite flags sig page off n mem)
  then show ?thesis
    using pipe_write_data(2) [OF assms(1), where page = page and off = off and n = n and mem = mem and flags = flags and sig = sig]
      pipe_write_full [of p flags sig page off n mem] assms(1)
    by (cases "p_readers p = 0 \<or> 511 \<le> length (pipe_list p)") auto
qed

lemma pipe_step_fifo:
  assumes "pipe_inv p" and "pipe_op_ok a"
  shows "pipe_took a p @ pipe_list (pipe_step a p) = pipe_list p @ pipe_gave a p"
proof (cases a)
  case (PRead flags sig page off n mem)
  show ?thesis
  proof (cases "pipe_list p = []")
    case True
    then show ?thesis using PRead by (simp add: pipe_read_empty rc_count_def)
  next
    case False
    note d = pipe_read_data [OF assms(1) _ False, where page = page and off = off and n = n and mem = mem and flags = flags and sig = sig]
    show ?thesis using d assms(2) PRead by (simp add: split_beta rc_count_def)
  qed
next
  case (PWrite flags sig page off n mem)
  show ?thesis
  proof (cases "p_readers p = 0 \<or> 511 \<le> length (pipe_list p)")
    case True
    then show ?thesis using PWrite pipe_write_full [OF True, of flags sig page off n mem] by (simp add: rc_count_def)
  next
    case False
    then have "p_readers p \<noteq> 0" "length (pipe_list p) < 511" by auto
    note d = pipe_write_data [OF assms(1) this, where page = page and off = off and n = n and mem = mem and flags = flags and sig = sig]
    show ?thesis using d PWrite by (simp add: split_beta rc_count_def)
  qed
qed

interpretation pipe_chan: fifo_channel pipe_inv pipe_list pipe_op_ok pipe_step pipe_took pipe_gave
  by unfold_locales (simp_all add: pipe_step_inv pipe_step_fifo)

text \<open>C36: a pipe is a first-in first-out byte stream. For every interleaving of read and write turns
  with valid buffers, whatever the sizes and flags, the bytes delivered to readers' buffers followed by
  the bytes still in the ring are the bytes in the ring at the start followed by the bytes accepted from
  writers: none is lost, duplicated or reordered.\<close>

theorem pipe_fifo:
  fixes ops :: "'p::len word pipe_op list"
  assumes "pipe_inv p" and "list_all pipe_op_ok ops"
  shows "collect pipe_step pipe_took ops p @ pipe_list (fold pipe_step ops p) =
    pipe_list p @ collect pipe_step pipe_gave ops p"
  by (rule pipe_chan.run_fifo [OF assms])

subsection \<open>Blocking\<close>

lemma read_turn_sleeps:
  "fst (pipe_read_turn p flags sig page off n mem) = None \<longleftrightarrow> read_blocked p flags sig"
  by (auto simp: pipe_read_turn_def read_blocked_def pipe_list_empty Let_def split_beta)

lemma read_turn_sleep_state:
  "read_blocked p flags sig \<Longrightarrow> pipe_read_turn p flags sig page off n mem = (None, p, mem, False)"
  by (simp add: read_blocked_def pipe_read_empty)

text \<open>C37: a reader sleeps exactly as long as the pipe is empty, still has a writer, and no unblocked
  signal is pending. The call returns at the first state, at the start or after a wake-up, where this no
  longer holds, with the result of a turn on that state; it does not return only if it holds in all of
  them.\<close>

theorem pipe_read_blocks:
  "case find (\<lambda>(q, s). \<not> read_blocked q flags s) (sleeper_sees sleeps p sig) of
     None \<Rightarrow> pipe_read sleeps p flags sig page off n mem = None
   | Some (q, s) \<Rightarrow> (case pipe_read_turn q flags s page off n mem of
       (rc, p', mem', w) \<Rightarrow> rc \<noteq> None \<and> pipe_read sleeps p flags sig page off n mem = Some (the rc, p', mem'))"
proof (induction sleeps p sig rule: sleeper_sees.induct)
  case (1 p sig)
  show ?case
  proof (cases "read_blocked p flags sig")
    case True
    then show ?thesis by (simp add: pipe_read.simps read_turn_sleep_state)
  next
    case False
    then show ?thesis using read_turn_sleeps [of p flags sig page off n mem]
      by (auto simp: pipe_read.simps [of "[]"] split: prod.splits option.splits)
  qed
next
  case (2 g sig' rest p sig)
  show ?case
  proof (cases "read_blocked p flags sig")
    case True
    then have eq: "pipe_read ((g, sig') # rest) p flags sig page off n mem = pipe_read rest (g p) flags sig' page off n mem"
      by (simp add: pipe_read.simps [of "(g, sig') # rest"] read_turn_sleep_state)
    have fd: "find (\<lambda>(q, s). \<not> read_blocked q flags s) (sleeper_sees ((g, sig') # rest) p sig) =
        find (\<lambda>(q, s). \<not> read_blocked q flags s) (sleeper_sees rest (g p) sig')" using True by simp
    from 2 show ?thesis unfolding fd eq .
  next
    case False
    then show ?thesis using read_turn_sleeps [of p flags sig page off n mem]
      by (auto simp: pipe_read.simps [of "(g, sig') # rest"] split: prod.splits option.splits)
  qed
qed

subsection \<open>Ends and pool\<close>

text \<open>Closing the read end through a descriptor on which O_NONBLOCK was set takes the other branch:
  the writer count drops and the reader count stays.\<close>

lemma pipe_close_nonblock_reader:
  "p_readers (pipe_close p (O_RDONLY OR O_NONBLOCK)) = p_readers p"
  "p_writers (pipe_close p (O_RDONLY OR O_NONBLOCK)) = p_writers p - 1"
  by (simp_all add: pipe_close_def pipe_free_def Let_def)

lemma pipe_alloc_from_spec:
  assumes "i \<le> PIPE_MAX"
  shows "pipe_alloc_from pool i = None \<Longrightarrow> i \<le> j \<Longrightarrow> j < PIPE_MAX \<Longrightarrow> p_in_use (pool ! j) \<noteq> 0"
    and "pipe_alloc_from pool i = Some (k, pool') \<Longrightarrow>
      k < PIPE_MAX \<and> p_in_use (pool ! k) = 0 \<and> pool' = pool[k := pipe_fresh]"
  using assms
proof (induction "PIPE_MAX - i" arbitrary: i)
  case 0
  { case 1 then show ?case using 0 by simp }
  { case 2 then show ?case using 0 by (simp add: pipe_alloc_from.simps [of pool i]) }
next
  case (Suc d)
  have d: "d = PIPE_MAX - (i + 1)" using Suc.hyps(3) by simp
  { case 1
    then show ?case using Suc.hyps(1) [OF d]
      by (cases "j = i") (auto simp: pipe_alloc_from.simps [of pool i] split: if_splits) }
  { case 2
    then show ?case using Suc.hyps(2) [OF d]
      by (auto simp: pipe_alloc_from.simps [of pool i] split: if_splits) }
qed

lemma pipe_inv_fresh: "pipe_inv pipe_fresh" "pipe_list pipe_fresh = []"
  by (simp_all add: pipe_inv_def pipe_fresh_def pipe_list_def pipe_used_def)

lemma demo_load: "load_bytes 3 demo_mem 7 4095 = [10, 20, 30]"
  by (simp add: numeral_3_eq_3 pipe_advance_def demo_mem_def Let_def)

lemma demo_buffers: "buffer_ok (7 :: 16 word) 4095" "buffer_ok (9 :: 16 word) 0"
  by (simp_all add: buffer_ok_def PAGE_ID_INVALID_def)

lemma demo_written: "pipe_inv (pipe_step demo_write pipe_fresh)" "pipe_list (pipe_step demo_write pipe_fresh) = [10, 20, 30]"
proof -
  have rd: "p_readers pipe_fresh \<noteq> 0" "length (pipe_list pipe_fresh) < 511"
    by (simp add: pipe_fresh_def) (simp add: pipe_inv_fresh(2) [simplified] pipe_fresh_def pipe_used_def)
  note d = pipe_write_data [OF pipe_inv_fresh(1) rd, where n = 3 and mem = demo_mem and page = 7 and off = 4095 and flags = 0 and sig = False]
  have "min 3 (511 - length (pipe_list pipe_fresh)) = 3" by (simp only: pipe_inv_fresh(2)) simp
  with d show "pipe_inv (pipe_step demo_write pipe_fresh)" "pipe_list (pipe_step demo_write pipe_fresh) = [10, 20, 30]"
    by (simp_all add: demo_write_def demo_load pipe_inv_fresh(2) del: length_pipe_list)
qed

theorem pipe_read_turn_correct_witness:
  "case pipe_read_turn (pipe_step demo_write pipe_fresh) 0 False (9 :: 16 word) 0 2 (\<lambda>_ _. 0) of
     (rc, p', mem', wake) \<Rightarrow> rc = Some 2 \<and> pipe_list p' = [30] \<and> load_bytes 2 mem' 9 0 = [10, 20] \<and> wake"
proof -
  have "min 2 (length [10, 20, 30 :: u8]) = 2" by simp
  then show ?thesis
    using pipe_read_turn_correct [OF demo_written(1) demo_buffers(2), where n = 2 and flags = 0 and sig = False and mem = "\<lambda>_ _. 0"]
    unfolding demo_written(2) by (auto simp: split_beta numeral_2_eq_2)
qed

theorem pipe_write_turn_correct_witness:
  "pipe_inv pipe_fresh \<and> fst (pipe_write_turn pipe_fresh 0 False (7 :: 16 word) 4095 600 demo_mem) = Some 511"
proof -
  have "p_readers pipe_fresh \<noteq> 0" by (simp add: pipe_fresh_def)
  then show ?thesis
    using pipe_write_turn_correct [OF pipe_inv_fresh(1), where n = 600 and flags = 0 and sig = False and mem = demo_mem and page = 7 and off = 4095]
      pipe_inv_fresh
    by (simp add: split_beta del: length_pipe_list)
qed

theorem pipe_fifo_witness:
  "pipe_inv pipe_fresh \<and>
   collect pipe_step pipe_took [demo_write, PRead 0 False 9 0 2 (\<lambda>_ _. 0), demo_write] pipe_fresh @
   pipe_list (fold pipe_step [demo_write, PRead 0 False 9 0 2 (\<lambda>_ _. 0), demo_write] pipe_fresh) =
   collect pipe_step pipe_gave [demo_write, PRead 0 False 9 0 2 (\<lambda>_ _. 0), demo_write] pipe_fresh"
proof -
  have "list_all pipe_op_ok [demo_write, PRead 0 False 9 0 2 (\<lambda>_ _. 0), demo_write]"
    by (simp add: demo_write_def demo_buffers)
  from pipe_fifo [OF pipe_inv_fresh(1) this] show ?thesis
    unfolding pipe_inv_fresh(2) using pipe_inv_fresh(1) by simp
qed

end
