(* ===== verification/Fd.thy ===== *)
theory Fd
  imports Pipe "HOL-Library.Multiset"
begin

text \<open>
  The system-wide file descriptor pool, \<^verbatim>\<open>src/kernel/vfs/fd.c\<close>, with the pipe entry point
  \<^verbatim>\<open>vfs_fd_pipe_create\<close> of \<^verbatim>\<open>pipe.c\<close>. A driver vtable is a constructor of \<open>file_ops\<close>; the
  private pointer is the index of a pipe or a tty; a vnode is a number, with the sizes of vnodes and the
  list of released vnodes in the state. The entry points take a reference with \<^verbatim>\<open>fd_get\<close>, work on
  the entry under its \<^verbatim>\<open>kmutex\<close> and drop the reference; the mutex only excludes other users of
  the entry and is not part of the state. The drivers' read and write functions and the vnode
  operations of a file system are arguments.
\<close>

subsection \<open>State\<close>

datatype file_ops = TtyOps | BridgeOps | PipeReadOps | PipeWriteOps

record ofile =
  f_ops :: "file_ops option"
  f_priv :: nat
  f_flags :: u32
  f_refcnt :: u32
  f_vnode :: "nat option"
  f_offset :: u32

record fd_state =
  fd_pool :: "ofile list"
  stdio_descs :: "int list"
  pipe_pool :: "pipe list"
  vnode_size :: "nat \<Rightarrow> u32"
  vnodes_released :: "nat list"

abbreviation FILE_MAX :: nat where "FILE_MAX \<equiv> 32"
abbreviation O_ACCMODE :: u32 where "O_ACCMODE \<equiv> 3"
abbreviation O_APPEND :: u32 where "O_APPEND \<equiv> 0x400"

definition file_zero :: ofile where
  "file_zero = \<lparr>f_ops = None, f_priv = 0, f_flags = 0, f_refcnt = 0, f_vnode = None, f_offset = 0\<rparr>"

definition fd_upd :: "fd_state \<Rightarrow> nat \<Rightarrow> (ofile \<Rightarrow> ofile) \<Rightarrow> fd_state" where
  "fd_upd s d g = s\<lparr>fd_pool := (fd_pool s)[d := g (fd_pool s ! d)]\<rparr>"

subsection \<open>Pool\<close>

function fd_pool_alloc_from :: "fd_state \<Rightarrow> nat \<Rightarrow> (nat \<times> fd_state) option" where
  "fd_pool_alloc_from s i =
     (if i < FILE_MAX then
        if f_refcnt (fd_pool s ! i) = 0 \<and> f_ops (fd_pool s ! i) = None
        then Some (i, fd_upd s i (\<lambda>_. file_zero\<lparr>f_refcnt := 1\<rparr>))
        else fd_pool_alloc_from s (i + 1)
      else None)"
  by auto
termination by (relation "measure (\<lambda>(s, i). FILE_MAX - i)") auto

definition fd_pool_alloc :: "fd_state \<Rightarrow> (nat \<times> fd_state) option" where
  "fd_pool_alloc s = fd_pool_alloc_from s 0"

definition fd_get :: "fd_state \<Rightarrow> int \<Rightarrow> (nat \<times> fd_state) option" where
  "fd_get s desc =
     (if desc < 0 \<or> int FILE_MAX \<le> desc then None
      else let d = nat desc in
        if 0 < f_refcnt (fd_pool s ! d) \<and> f_ops (fd_pool s ! d) \<noteq> None
        then Some (d, fd_upd s d (\<lambda>f. f\<lparr>f_refcnt := f_refcnt f + 1\<rparr>))
        else None)"

subsection \<open>Bridge to vnodes\<close>

definition vfs_bridge_read :: "(nat \<Rightarrow> (nat \<Rightarrow> u32 \<Rightarrow> int) option) \<Rightarrow> ofile \<Rightarrow> nat \<Rightarrow> int \<times> ofile" where
  "vfs_bridge_read rd f n =
     (case f_vnode f of None \<Rightarrow> (- EBADF, f)
      | Some v \<Rightarrow> (case rd v of None \<Rightarrow> (- EBADF, f)
        | Some op \<Rightarrow> let ret = op n (f_offset f)
            in (ret, if 0 < ret then f\<lparr>f_offset := f_offset f + of_int ret\<rparr> else f)))"

definition vfs_bridge_write ::
  "(nat \<Rightarrow> (nat \<Rightarrow> u32 \<Rightarrow> int) option) \<Rightarrow> (nat \<Rightarrow> u32) \<Rightarrow> ofile \<Rightarrow> nat \<Rightarrow> int \<times> ofile" where
  "vfs_bridge_write wr size' f n =
     (case f_vnode f of None \<Rightarrow> (- EBADF, f)
      | Some v \<Rightarrow> (case wr v of None \<Rightarrow> (- EBADF, f)
        | Some op \<Rightarrow>
            let f = (if nz (f_flags f AND O_APPEND) then f\<lparr>f_offset := size' v\<rparr> else f);
                ret = op n (f_offset f)
            in (ret, if 0 < ret then f\<lparr>f_offset := f_offset f + of_int ret\<rparr> else f)))"

text \<open>The close functions of the vtables, on the saved copy of the entry: the bridge releases its
  vnode, a pipe end counts down, a tty has no close function.\<close>

definition file_close :: "fd_state \<Rightarrow> ofile \<Rightarrow> fd_state" where
  "file_close s f =
     (case f_ops f of
        Some BridgeOps \<Rightarrow> (case f_vnode f of None \<Rightarrow> s
          | Some v \<Rightarrow> s\<lparr>vnodes_released := v # vnodes_released s\<rparr>)
      | Some PipeReadOps \<Rightarrow> s\<lparr>pipe_pool := (pipe_pool s)[f_priv f := pipe_close (pipe_pool s ! f_priv f) (f_flags f)]\<rparr>
      | Some PipeWriteOps \<Rightarrow> s\<lparr>pipe_pool := (pipe_pool s)[f_priv f := pipe_close (pipe_pool s ! f_priv f) (f_flags f)]\<rparr>
      | _ \<Rightarrow> s)"

subsection \<open>Lifecycle\<close>

definition fd_pool_init :: "fd_state \<Rightarrow> nat \<Rightarrow> fd_state" where
  "fd_pool_init s console =
     s\<lparr>fd_pool := (fd_pool s)
         [0 := file_zero\<lparr>f_ops := Some TtyOps, f_priv := console, f_flags := O_RDONLY, f_refcnt := 1\<rparr>,
          1 := file_zero\<lparr>f_ops := Some TtyOps, f_priv := console, f_flags := O_WRONLY, f_refcnt := 1\<rparr>,
          2 := file_zero\<lparr>f_ops := Some TtyOps, f_priv := console, f_flags := O_WRONLY, f_refcnt := 1\<rparr>],
       stdio_descs := [0, 1, 2]\<rparr>"

definition vfs_fd_stdio_desc :: "fd_state \<Rightarrow> int \<Rightarrow> int \<times> fd_state" where
  "vfs_fd_stdio_desc s which =
     (if which < 0 \<or> 2 < which then (- 1, s)
      else let desc = stdio_descs s ! nat which
        in (desc, fd_upd s (nat desc) (\<lambda>f. f\<lparr>f_refcnt := f_refcnt f + 1\<rparr>)))"

definition vfs_fd_acquire :: "fd_state \<Rightarrow> int \<Rightarrow> fd_state" where
  "vfs_fd_acquire s desc =
     (if desc < 0 \<or> int FILE_MAX \<le> desc then s
      else if 0 < f_refcnt (fd_pool s ! nat desc)
        then fd_upd s (nat desc) (\<lambda>f. f\<lparr>f_refcnt := f_refcnt f + 1\<rparr>) else s)"

definition vfs_fd_release :: "fd_state \<Rightarrow> int \<Rightarrow> fd_state" where
  "vfs_fd_release s desc =
     (if desc < 0 \<or> int FILE_MAX \<le> desc then s
      else
        let d = nat desc;
            s = (if 0 < f_refcnt (fd_pool s ! d)
                 then fd_upd s d (\<lambda>f. f\<lparr>f_refcnt := f_refcnt f - 1\<rparr>) else s)
        in if f_refcnt (fd_pool s ! d) = 0 then
             let closing = fd_pool s ! d in file_close (fd_upd s d (\<lambda>_. file_zero)) closing
           else s)"

subsection \<open>Operations on an open descriptor\<close>

text \<open>The common frame of the entry points: take a reference, run the body on the entry, drop the
  reference; \<open>bad\<close> is the result where \<^verbatim>\<open>fd_get\<close> fails.\<close>

definition with_fd :: "'r \<Rightarrow> fd_state \<Rightarrow> int \<Rightarrow> (fd_state \<Rightarrow> ofile \<Rightarrow> 'r \<times> ofile) \<Rightarrow> 'r \<times> fd_state" where
  "with_fd bad s desc body =
     (case fd_get s desc of None \<Rightarrow> (bad, s)
      | Some (d, s) \<Rightarrow>
          let (r, f) = body s (fd_pool s ! d)
          in (r, vfs_fd_release (fd_upd s d (\<lambda>_. f)) desc))"

definition fd_read_body :: "(file_ops \<Rightarrow> (ofile \<Rightarrow> nat \<Rightarrow> int \<times> ofile) option) \<Rightarrow> nat \<Rightarrow> fd_state \<Rightarrow> ofile \<Rightarrow> int \<times> ofile" where
  "fd_read_body drv n s f =
     (case f_ops f of None \<Rightarrow> (- EBADF, f)
      | Some ops \<Rightarrow> (case drv ops of None \<Rightarrow> (- EBADF, f) | Some rd \<Rightarrow> rd f n))"

definition vfs_fd_read :: "(file_ops \<Rightarrow> (ofile \<Rightarrow> nat \<Rightarrow> int \<times> ofile) option) \<Rightarrow> fd_state \<Rightarrow> int \<Rightarrow> nat \<Rightarrow> int \<times> fd_state" where
  "vfs_fd_read drv s desc n = with_fd (- EBADF) s desc (fd_read_body drv n)"

definition fd_write_body :: "(file_ops \<Rightarrow> (ofile \<Rightarrow> nat \<Rightarrow> int \<times> ofile) option) \<Rightarrow> nat \<Rightarrow> fd_state \<Rightarrow> ofile \<Rightarrow> int \<times> ofile" where
  "fd_write_body drv n s f =
     (case f_ops f of None \<Rightarrow> (- EBADF, f)
      | Some ops \<Rightarrow> (case drv ops of None \<Rightarrow> (- EBADF, f) | Some wr \<Rightarrow> wr f n))"

definition vfs_fd_write :: "(file_ops \<Rightarrow> (ofile \<Rightarrow> nat \<Rightarrow> int \<times> ofile) option) \<Rightarrow> fd_state \<Rightarrow> int \<Rightarrow> nat \<Rightarrow> int \<times> fd_state" where
  "vfs_fd_write drv s desc n = with_fd (- EBADF) s desc (fd_write_body drv n)"

definition fd_ioctl_body :: "(file_ops \<Rightarrow> (ofile \<Rightarrow> int \<times> ofile) option) \<Rightarrow> fd_state \<Rightarrow> ofile \<Rightarrow> int \<times> ofile" where
  "fd_ioctl_body drv s f =
     (case f_ops f of None \<Rightarrow> (- EBADF, f)
      | Some ops \<Rightarrow> (case drv ops of None \<Rightarrow> (- ENOTTY, f) | Some io \<Rightarrow> io f))"

definition vfs_fd_ioctl :: "(file_ops \<Rightarrow> (ofile \<Rightarrow> int \<times> ofile) option) \<Rightarrow> fd_state \<Rightarrow> int \<Rightarrow> int \<times> fd_state" where
  "vfs_fd_ioctl drv s desc = with_fd (- EBADF) s desc (fd_ioctl_body drv)"

definition fd_poll_body :: "(file_ops \<Rightarrow> (ofile \<Rightarrow> int) option) \<Rightarrow> fd_state \<Rightarrow> ofile \<Rightarrow> int \<times> ofile" where
  "fd_poll_body drv s f =
     (case f_ops f of None \<Rightarrow> (5, f)
      | Some ops \<Rightarrow> (case drv ops of None \<Rightarrow> (5, f) | Some poll \<Rightarrow> (poll f, f)))"

definition vfs_fd_poll :: "(file_ops \<Rightarrow> (ofile \<Rightarrow> int) option) \<Rightarrow> fd_state \<Rightarrow> int \<Rightarrow> int \<times> fd_state" where
  "vfs_fd_poll drv s desc = with_fd 0 s desc (fd_poll_body drv)"

definition fd_lseek_body :: "int \<Rightarrow> int \<Rightarrow> fd_state \<Rightarrow> ofile \<Rightarrow> int \<times> ofile" where
  "fd_lseek_body off whence s f =
     (case f_vnode f of None \<Rightarrow> (- ESPIPE, f)
      | Some v \<Rightarrow>
         if whence \<noteq> 0 \<and> whence \<noteq> 1 \<and> whence \<noteq> 2 then (- EINVAL, f)
         else
           let new_off = (if whence = 0 then off
                          else if whence = 1 then sint (f_offset f) + off
                          else sint (vnode_size s v) + off)
           in if new_off < 0 then (- EINVAL, f) else (new_off, f\<lparr>f_offset := of_int new_off\<rparr>))"

definition vfs_fd_lseek :: "fd_state \<Rightarrow> int \<Rightarrow> int \<Rightarrow> int \<Rightarrow> int \<times> fd_state" where
  "vfs_fd_lseek s desc off whence = with_fd (- EBADF) s desc (fd_lseek_body off whence)"

text \<open>\<^verbatim>\<open>vfs_fd_fstat\<close> and \<^verbatim>\<open>vfs_fd_fstatfs\<close>: the result of the file system's \<^verbatim>\<open>stat\<close>, None where it has none;
  the structure they fill in is not modelled.\<close>

definition fd_fstat_body :: "(nat \<Rightarrow> int option) \<Rightarrow> fd_state \<Rightarrow> ofile \<Rightarrow> int \<times> ofile" where
  "fd_fstat_body stat s f =
     (case f_vnode f of None \<Rightarrow> (0, f)
      | Some v \<Rightarrow> (case stat v of None \<Rightarrow> (- ENOSYS, f) | Some ret \<Rightarrow> (ret, f)))"

definition vfs_fd_fstat :: "(nat \<Rightarrow> int option) \<Rightarrow> bool \<Rightarrow> fd_state \<Rightarrow> int \<Rightarrow> int \<times> fd_state" where
  "vfs_fd_fstat stat buf s desc =
     (if \<not> buf then (- EBADF, s) else with_fd (- EBADF) s desc (fd_fstat_body stat))"

definition vfs_fd_fstatfs :: "bool \<Rightarrow> fd_state \<Rightarrow> int \<Rightarrow> int \<times> fd_state" where
  "vfs_fd_fstatfs buf s desc =
     (if \<not> buf then (- EBADF, s) else with_fd (- EBADF) s desc (\<lambda>s f. (0, f)))"

text \<open>Reading a directory. The file system's \<^verbatim>\<open>readdir\<close> takes how many entries are wanted and the
  cookie, and returns a negative error or entries, and the new cookie. The result is the list of entries
  copied to the caller; the copy itself is not modelled.\<close>

abbreviation GETDENTS_EOF :: u32 where "GETDENTS_EOF \<equiv> 0xFFFFFFFF"

type_synonym 'e readdir = "nat \<Rightarrow> u32 \<Rightarrow> (int + 'e list) \<times> u32"

function getdents_loop :: "'e readdir \<Rightarrow> nat \<Rightarrow> u32 \<Rightarrow> 'e list \<Rightarrow> (int + 'e list) \<times> u32" where
  "getdents_loop rd max_entries cookie es =
     (if length es < max_entries then
        let want = min 4 (max_entries - length es)
        in case rd want cookie of
             (Inl n, cookie) \<Rightarrow> (if es = [] then Inl n else Inr es, cookie)
           | (Inr new, cookie) \<Rightarrow>
               if new = [] then (Inr es, cookie)
               else if length new < want then (Inr (es @ new), cookie)
               else getdents_loop rd max_entries cookie (es @ new)
      else (Inr es, cookie))"
  by pat_completeness auto
termination by (relation "measure (\<lambda>(rd, m, c, es). m - length es)") auto

declare getdents_loop.simps [simp del]

text \<open>The checks before reading, common to the two calls.\<close>

definition getdents_dir :: "(nat \<Rightarrow> bool) \<Rightarrow> (nat \<Rightarrow> 'e readdir option) \<Rightarrow> ofile \<Rightarrow> int + 'e readdir" where
  "getdents_dir isdir readdir f =
     (case f_vnode f of None \<Rightarrow> Inl (- ENOTDIR)
      | Some v \<Rightarrow> if \<not> isdir v then Inl (- ENOTDIR)
                  else (case readdir v of None \<Rightarrow> Inl (- ENOSYS) | Some rd \<Rightarrow> Inr rd))"

definition fd_getdents_body ::
  "(nat \<Rightarrow> bool) \<Rightarrow> (nat \<Rightarrow> 'e readdir option) \<Rightarrow> nat \<Rightarrow> nat \<Rightarrow> fd_state \<Rightarrow> ofile \<Rightarrow> (int + 'e list) \<times> ofile" where
  "fd_getdents_body isdir readdir dirent_size n s f =
     (case getdents_dir isdir readdir f of Inl e \<Rightarrow> (Inl e, f)
      | Inr rd \<Rightarrow>
          if f_offset f = GETDENTS_EOF then (Inr [], f)
          else if n div dirent_size = 0 then (Inl (- EINVAL), f)
          else (case getdents_loop rd (n div dirent_size) (f_offset f) [] of
                  (Inl e, cookie) \<Rightarrow> (Inl e, f)
                | (Inr es, cookie) \<Rightarrow>
                    (Inr es, f\<lparr>f_offset := if es \<noteq> [] \<and> cookie \<noteq> 0 then cookie else GETDENTS_EOF\<rparr>)))"

definition vfs_fd_getdents ::
  "(nat \<Rightarrow> bool) \<Rightarrow> (nat \<Rightarrow> 'e readdir option) \<Rightarrow> nat \<Rightarrow> bool \<Rightarrow> fd_state \<Rightarrow> int \<Rightarrow> nat \<Rightarrow> (int + 'e list) \<times> fd_state" where
  "vfs_fd_getdents isdir readdir dirent_size page_ok s desc n =
     (if \<not> page_ok then (Inl (- EBADF), s)
      else with_fd (Inl (- EBADF)) s desc (fd_getdents_body isdir readdir dirent_size n))"

text \<open>The records of the 64-bit call: entries are packed until one does not fit. The offset moves on by all
  the entries read.\<close>

definition dirent64_reclen :: "('e \<Rightarrow> string) \<Rightarrow> 'e \<Rightarrow> nat" where
  "dirent64_reclen name e = (19 + length (name e) + 1 + 7) div 8 * 8"

fun dirent64_pack :: "('e \<Rightarrow> string) \<Rightarrow> int \<Rightarrow> nat \<Rightarrow> 'e list \<Rightarrow> 'e list" where
  "dirent64_pack name n tot [] = []"
| "dirent64_pack name n tot (e # es) =
     (if n < int (tot + dirent64_reclen name e) then []
      else e # dirent64_pack name n (tot + dirent64_reclen name e) es)"

definition fd_getdents64_body ::
  "(nat \<Rightarrow> bool) \<Rightarrow> (nat \<Rightarrow> 'e readdir option) \<Rightarrow> ('e \<Rightarrow> string) \<Rightarrow> int \<Rightarrow> fd_state \<Rightarrow> ofile \<Rightarrow> (int + 'e list) \<times> ofile" where
  "fd_getdents64_body isdir readdir name n s f =
     (case getdents_dir isdir readdir f of Inl e \<Rightarrow> (Inl e, f)
      | Inr rd \<Rightarrow>
          if f_offset f = GETDENTS_EOF then (Inr [], f)
          else (case rd 8 (f_offset f) of
                  (Inl e, cookie) \<Rightarrow> (Inl e, f)
                | (Inr es, cookie) \<Rightarrow>
                    if es = [] then (Inr [], f\<lparr>f_offset := GETDENTS_EOF\<rparr>)
                    else (Inr (dirent64_pack name n 0 es), f\<lparr>f_offset := if cookie = 0 then GETDENTS_EOF else cookie\<rparr>)))"

definition vfs_fd_getdents64 ::
  "(nat \<Rightarrow> bool) \<Rightarrow> (nat \<Rightarrow> 'e readdir option) \<Rightarrow> ('e \<Rightarrow> string) \<Rightarrow> bool \<Rightarrow> fd_state \<Rightarrow> int \<Rightarrow> int \<Rightarrow> (int + 'e list) \<times> fd_state" where
  "vfs_fd_getdents64 isdir readdir name buf s desc n =
     (if \<not> buf then (Inl (- EBADF), s)
      else with_fd (Inl (- EBADF)) s desc (fd_getdents64_body isdir readdir name n))"

definition fd_fcntl_body :: "int \<Rightarrow> int \<Rightarrow> fd_state \<Rightarrow> ofile \<Rightarrow> int \<times> ofile" where
  "fd_fcntl_body cmd arg s f =
     (if cmd = 3 then (sint (f_flags f), f)
      else if cmd = 4
       then (0, f\<lparr>f_flags := (f_flags f AND O_ACCMODE) OR (of_int arg AND NOT O_ACCMODE)\<rparr>)
      else (- EINVAL, f))"

definition vfs_fd_fcntl :: "fd_state \<Rightarrow> int \<Rightarrow> int \<Rightarrow> int \<Rightarrow> int \<times> fd_state" where
  "vfs_fd_fcntl s desc cmd arg = with_fd (- EBADF) s desc (fd_fcntl_body cmd arg)"

definition vfs_fd_get_priv :: "fd_state \<Rightarrow> int \<Rightarrow> nat option \<times> fd_state" where
  "vfs_fd_get_priv s desc = with_fd None s desc (\<lambda>s f. (Some (f_priv f), f))"

subsection \<open>Opening\<close>

text \<open>What the file systems answer: the results of the two lookups, of the allocation of the name buffer,
  of \<^verbatim>\<open>create\<close> and \<^verbatim>\<open>truncate\<close> (None where the file system has none; the second with the size it leaves), and the facts read from a vnode.\<close>

record open_env =
  oe_lookup :: "int \<times> nat"
  oe_scratch :: bool
  oe_lookup_parent :: "int \<times> nat"
  oe_dir :: "nat \<Rightarrow> bool"
  oe_create :: "nat \<Rightarrow> (int \<times> nat) option"
  oe_rdonly :: "nat \<Rightarrow> bool"
  oe_file :: "nat \<Rightarrow> bool"
  oe_truncate :: "nat \<Rightarrow> (int \<times> u32) option"
  oe_devname :: "nat \<Rightarrow> string option"
  oe_console :: nat

abbreviation O_CREAT :: u32 where "O_CREAT \<equiv> 0x40"
abbreviation O_TRUNC :: u32 where "O_TRUNC \<equiv> 0x200"

definition release_vnode :: "nat \<Rightarrow> fd_state \<Rightarrow> fd_state" where
  "release_vnode v s = s\<lparr>vnodes_released := v # vnodes_released s\<rparr>"

definition open_create :: "open_env \<Rightarrow> fd_state \<Rightarrow> (int + nat) \<times> fd_state" where
  "open_create e s =
     (if \<not> oe_scratch e then (Inl (- ENOMEM), s)
      else let (err, parent) = oe_lookup_parent e
        in if err \<noteq> 0 then (Inl err, s)
           else if \<not> oe_dir e parent then (Inl (- ENOTDIR), release_vnode parent s)
           else case oe_create e parent of
             None \<Rightarrow> (Inl (- ENOSYS), release_vnode parent s)
           | Some (err, vn) \<Rightarrow>
               if oe_rdonly e parent then (Inl (- EROFS), release_vnode parent s)
               else if err \<noteq> 0 then (Inl err, release_vnode parent s)
               else (Inr vn, release_vnode parent s))"

definition open_vnode :: "open_env \<Rightarrow> u32 \<Rightarrow> fd_state \<Rightarrow> (int + nat) \<times> fd_state" where
  "open_vnode e flags s =
     (let (err, vn) = oe_lookup e
      in if err = - ENOENT \<and> nz (flags AND O_CREAT) then open_create e s
         else if err \<noteq> 0 then (Inl err, s) else (Inr vn, s))"

definition open_trunc :: "open_env \<Rightarrow> u32 \<Rightarrow> nat \<Rightarrow> fd_state \<Rightarrow> int option \<times> fd_state" where
  "open_trunc e flags vn s =
     (if nz (flags AND O_TRUNC) \<and> oe_file e vn
      then case oe_truncate e vn of
             Some (terr, sz) \<Rightarrow>
               let s = s\<lparr>vnode_size := (vnode_size s)(vn := sz)\<rparr>
               in if terr \<noteq> 0 then (Some terr, release_vnode vn s) else (None, s)
           | None \<Rightarrow> (None, s\<lparr>vnode_size := (vnode_size s)(vn := 0)\<rparr>)
      else (None, s))"

definition open_tty :: "open_env \<Rightarrow> nat \<Rightarrow> nat option" where
  "open_tty e vn =
     (case oe_devname e vn of None \<Rightarrow> None
      | Some name \<Rightarrow> if name = ''ttyS0'' then Some 0
                     else if name = ''tty1'' then Some 1
                     else if name = ''console'' then Some (oe_console e)
                     else if name = ''tty'' then Some (oe_console e)
                     else None)"

definition open_entry :: "open_env \<Rightarrow> u32 \<Rightarrow> nat \<Rightarrow> fd_state \<Rightarrow> int \<times> fd_state" where
  "open_entry e flags vn s =
     (case open_tty e vn of
        Some tty \<Rightarrow>
          (case fd_pool_alloc s of None \<Rightarrow> (- ENOMEM, release_vnode vn s)
           | Some (d, s) \<Rightarrow> (int d, release_vnode vn (fd_upd s d (\<lambda>f. f\<lparr>f_ops := Some TtyOps, f_priv := tty,
                 f_flags := flags, f_vnode := None, f_offset := 0\<rparr>))))
      | None \<Rightarrow>
          (case fd_pool_alloc s of None \<Rightarrow> (- ENOMEM, release_vnode vn s)
           | Some (d, s) \<Rightarrow> (int d, fd_upd s d (\<lambda>f. f\<lparr>f_ops := Some BridgeOps, f_priv := 0, f_flags := flags,
                 f_vnode := Some vn, f_offset := if nz (flags AND O_APPEND) then vnode_size s vn else 0\<rparr>))))"

definition vfs_fd_open :: "open_env \<Rightarrow> bool \<Rightarrow> u32 \<Rightarrow> fd_state \<Rightarrow> int \<times> fd_state" where
  "vfs_fd_open e path flags s =
     (if \<not> path then (- EINVAL, s)
      else case open_vnode e flags s of (Inl err, s) \<Rightarrow> (err, s)
        | (Inr vn, s) \<Rightarrow>
            (case open_trunc e flags vn s of (Some terr, s) \<Rightarrow> (terr, s)
             | (None, s) \<Rightarrow> open_entry e flags vn s))"

subsection \<open>Pipes\<close>

definition fd_pool_alloc_pipe :: "fd_state \<Rightarrow> file_ops \<Rightarrow> nat \<Rightarrow> u32 \<Rightarrow> int \<times> fd_state" where
  "fd_pool_alloc_pipe s ops priv flags =
     (case fd_pool_alloc s of None \<Rightarrow> (- ENOMEM, s)
      | Some (d, s) \<Rightarrow> (int d, fd_upd s d (\<lambda>f. f\<lparr>f_ops := Some ops, f_priv := priv, f_flags := flags,
            f_vnode := None, f_offset := 0\<rparr>)))"

text \<open>The first argument tells whether both result pointers are non-null.\<close>

definition vfs_fd_pipe_create :: "bool \<Rightarrow> fd_state \<Rightarrow> int \<times> (int \<times> int) option \<times> fd_state" where
  "vfs_fd_pipe_create ptrs s =
     (if \<not> ptrs then (- EINVAL, None, s)
      else case pipe_alloc (pipe_pool s) of None \<Rightarrow> (- ENOMEM, None, s)
      | Some (i, pool) \<Rightarrow>
          let s = s\<lparr>pipe_pool := pool\<rparr>;
              (rd, s) = fd_pool_alloc_pipe s PipeReadOps i O_RDONLY
          in if rd < 0 then (rd, None, s\<lparr>pipe_pool := (pipe_pool s)[i := pipe_free (pipe_pool s ! i)]\<rparr>)
             else
               let (wd, s) = fd_pool_alloc_pipe s PipeWriteOps i O_WRONLY
               in if wd < 0 then
                    let s = vfs_fd_release s rd
                    in (wd, None, s\<lparr>pipe_pool := (pipe_pool s)[i := pipe_free (pipe_pool s ! i)]\<rparr>)
                  else (0, Some (rd, wd), s))"

declare fd_pool_alloc_from.simps [simp del]

subsection \<open>Consistency\<close>

text \<open>Between operations an entry is either zero or referenced and open, the standard descriptors are
  entries 0 to 2, and pipe entries point into the pipe pool.\<close>

definition file_ok :: "ofile \<Rightarrow> bool" where
  "file_ok f \<longleftrightarrow> (if f_refcnt f = 0 then f = file_zero else f_ops f \<noteq> None)
     \<and> (f_ops f = Some PipeReadOps \<or> f_ops f = Some PipeWriteOps \<longrightarrow> f_priv f < PIPE_MAX)"

definition fd_inv :: "fd_state \<Rightarrow> bool" where
  "fd_inv s \<longleftrightarrow> length (fd_pool s) = FILE_MAX \<and> length (pipe_pool s) = PIPE_MAX
     \<and> list_all file_ok (fd_pool s) \<and> stdio_descs s = [0, 1, 2]"

text \<open>A driver function may change the entry it works on but not its vtable, private pointer or
  reference count; a reference count can be incremented without wrapping.\<close>

definition driver_ok :: "(file_ops \<Rightarrow> (ofile \<Rightarrow> nat \<Rightarrow> int \<times> ofile) option) \<Rightarrow> bool" where
  "driver_ok drv \<longleftrightarrow> (\<forall>ops rd f n. drv ops = Some rd \<longrightarrow>
     f_ops (snd (rd f n)) = f_ops f \<and> f_priv (snd (rd f n)) = f_priv f \<and> f_refcnt (snd (rd f n)) = f_refcnt f)"

definition refs_ok :: "fd_state \<Rightarrow> bool" where
  "refs_ok s \<longleftrightarrow> list_all (\<lambda>f. f_refcnt f + 1 \<noteq> 0) (fd_pool s)"

definition open_env_ok :: "open_env \<Rightarrow> bool" where
  "open_env_ok e \<longleftrightarrow> fst (oe_lookup e) \<le> 0 \<and> fst (oe_lookup_parent e) \<le> 0
     \<and> (\<forall>v err vn. oe_create e v = Some (err, vn) \<longrightarrow> err \<le> 0) \<and> (\<forall>v err sz. oe_truncate e v = Some (err, sz) \<longrightarrow> err \<le> 0)"

definition ioctl_ok :: "(file_ops \<Rightarrow> (ofile \<Rightarrow> int \<times> ofile) option) \<Rightarrow> bool" where
  "ioctl_ok drv \<longleftrightarrow> (\<forall>ops io f. drv ops = Some io \<longrightarrow>
     f_ops (snd (io f)) = f_ops f \<and> f_priv (snd (io f)) = f_priv f \<and> f_refcnt (snd (io f)) = f_refcnt f)"

text \<open>What the entry points do to the entry between \<^verbatim>\<open>fd_get\<close> and \<^verbatim>\<open>vfs_fd_release\<close>.\<close>

inductive fd_body :: "(fd_state \<Rightarrow> ofile \<Rightarrow> ofile) \<Rightarrow> bool" where
  body_read: "driver_ok drv \<Longrightarrow> fd_body (\<lambda>s f. snd (fd_read_body drv n s f))"
| body_write: "driver_ok drv \<Longrightarrow> fd_body (\<lambda>s f. snd (fd_write_body drv n s f))"
| body_ioctl: "ioctl_ok io \<Longrightarrow> fd_body (\<lambda>s f. snd (fd_ioctl_body io s f))"
| body_poll: "fd_body (\<lambda>s f. snd (fd_poll_body pdrv s f))"
| body_lseek: "fd_body (\<lambda>s f. snd (fd_lseek_body off whence s f))"
| body_fcntl: "fd_body (\<lambda>s f. snd (fd_fcntl_body cmd arg s f))"
| body_fstat: "fd_body (\<lambda>s f. snd (fd_fstat_body stat s f))"
| body_getdents: "fd_body (\<lambda>s f. snd (fd_getdents_body isdir (readdir :: nat \<Rightarrow> string readdir option) dirent_size n s f))"
| body_getdents64: "fd_body (\<lambda>s f. snd (fd_getdents64_body isdir (readdir :: nat \<Rightarrow> string readdir option) id m s f))"
| body_keep: "fd_body (\<lambda>s f. f)"

text \<open>The steps of the pool, with the multiset \<open>H\<close> of the descriptors its users hold and the multiset \<open>F\<close>
  of the references of the calls in flight. A process duplicates or releases only a descriptor it holds,
  and may pass any number to the other entry points. Such a call is three steps: \<^verbatim>\<open>fd_get\<close>, the work on the
  entry, during which it may sleep while others come, and \<^verbatim>\<open>vfs_fd_release\<close>; a call whose \<^verbatim>\<open>fd_get\<close> fails
  changes nothing. Allocating an entry and filling it in is one step: until it is filled in, its number is
  known to nobody and \<^verbatim>\<open>fd_get\<close> refuses it. The number of references at once stays below the width of
  the count, as the fixed descriptor tables and process table ensure. Errors of the file systems are
  negative.\<close>

abbreviation HELD_MAX :: nat where "HELD_MAX \<equiv> 65536"

inductive fd_step :: "fd_state \<times> nat multiset \<times> nat multiset \<Rightarrow> fd_state \<times> nat multiset \<times> nat multiset \<Rightarrow> bool" where
  fd_stdio: "size H + size F + 2 < HELD_MAX \<Longrightarrow> vfs_fd_stdio_desc s which = (desc, s') \<Longrightarrow> 0 \<le> desc \<Longrightarrow>
     fd_step (s, H, F) (s', add_mset (nat desc) H, F)"
| fd_acquire: "size H + size F + 2 < HELD_MAX \<Longrightarrow> d \<in># H \<Longrightarrow> fd_step (s, H, F) (vfs_fd_acquire s (int d), add_mset d H, F)"
| fd_release: "d \<in># H \<Longrightarrow> fd_step (s, H, F) (vfs_fd_release s (int d), H - {#d#}, F)"
| fd_open: "size H + size F + 2 < HELD_MAX \<Longrightarrow> vfs_fd_open e path flags s = (desc, s') \<Longrightarrow> open_env_ok e \<Longrightarrow> 0 \<le> desc \<Longrightarrow>
     fd_step (s, H, F) (s', add_mset (nat desc) H, F)"
| fd_open_fail: "vfs_fd_open e path flags s = (err, s') \<Longrightarrow> err < 0 \<Longrightarrow> fd_step (s, H, F) (s', H, F)"
| fd_pipe: "size H + size F + 2 < HELD_MAX \<Longrightarrow> vfs_fd_pipe_create ptrs s = (rc, Some (rd, wd), s') \<Longrightarrow>
     fd_step (s, H, F) (s', add_mset (nat rd) (add_mset (nat wd) H), F)"
| fd_pipe_fail: "vfs_fd_pipe_create ptrs s = (rc, None, s') \<Longrightarrow> fd_step (s, H, F) (s', H, F)"
| fd_call: "size H + size F + 2 < HELD_MAX \<Longrightarrow> fd_get s desc = Some (d, s') \<Longrightarrow> fd_step (s, H, F) (s', H, add_mset d F)"
| fd_work: "d \<in># F \<Longrightarrow> fd_body body \<Longrightarrow> fd_step (s, H, F) (fd_upd s d (body s), H, F)"
| fd_return: "d \<in># F \<Longrightarrow> fd_step (s, H, F) (vfs_fd_release s (int d), H, F - {#d#})"

text \<open>The references of an entry are those held for it, by descriptors and by calls, and one more for each of the three
  standard descriptors, which the pool itself keeps.\<close>

definition fd_own :: "fd_state \<times> nat multiset \<Rightarrow> bool" where
  "fd_own = (\<lambda>(s, H). fd_inv s \<and> size H < HELD_MAX \<and> (\<forall>d \<in># H. d < FILE_MAX)
     \<and> (\<forall>d < FILE_MAX. f_refcnt (fd_pool s ! d) = of_nat (count H d + of_bool (d < 3))))"

definition fd_ok :: "fd_state \<times> nat multiset \<times> nat multiset \<Rightarrow> bool" where
  "fd_ok = (\<lambda>(s, H, F). fd_own (s, H + F))"

text \<open>The pool at boot.\<close>

definition fd_boot :: "(nat \<Rightarrow> u32) \<Rightarrow> nat \<Rightarrow> fd_state" where
  "fd_boot sizes console = fd_pool_init \<lparr>fd_pool = replicate FILE_MAX file_zero, stdio_descs = [-1, -1, -1],
     pipe_pool = replicate PIPE_MAX \<lparr>p_buf = replicate PIPE_BUF_SIZE 0, p_head = 0, p_tail = 0, p_readers = 0,
       p_writers = 0, p_in_use = 0\<rparr>, vnode_size = sizes, vnodes_released = []\<rparr> console"

text \<open>Creating a pipe. The two entries and the pipe it takes were free; when it fails the descriptor
  pool is as before and no pipe is taken.\<close>

definition pipe_file :: "file_ops \<Rightarrow> nat \<Rightarrow> u32 \<Rightarrow> ofile" where
  "pipe_file ops i flags = \<lparr>f_ops = Some ops, f_priv = i, f_flags = flags, f_refcnt = 1, f_vnode = None, f_offset = 0\<rparr>"

definition free_entries :: "fd_state \<Rightarrow> nat set" where
  "free_entries s = {d. d < FILE_MAX \<and> f_refcnt (fd_pool s ! d) = 0}"

definition pipe_slots :: "fd_state \<Rightarrow> nat set" where
  "pipe_slots s = {i. i < PIPE_MAX \<and> p_in_use (pipe_pool s ! i) = 0}"

inductive_cases fd_stepE: "fd_step s s'"

lemma file_ok_zero [simp]: "file_ok file_zero"
  by (simp add: file_ok_def file_zero_def)

lemma fd_upd_simps [simp]:
  "pipe_pool (fd_upd s d g) = pipe_pool s" "stdio_descs (fd_upd s d g) = stdio_descs s"
  "length (fd_pool (fd_upd s d g)) = length (fd_pool s)" "vnode_size (fd_upd s d g) = vnode_size s"
  "d < length (fd_pool s) \<Longrightarrow> fd_pool (fd_upd s d g) ! i = (if i = d then g (fd_pool s ! d) else fd_pool s ! i)"
  by (simp_all add: fd_upd_def nth_list_update)

lemma fd_upd_upd [simp]: "d < length (fd_pool s) \<Longrightarrow> fd_upd (fd_upd s d g) d h = fd_upd s d (\<lambda>f. h (g f))"
  by (simp add: fd_upd_def)

lemma fd_invD:
  assumes "fd_inv s"
  shows "length (fd_pool s) = FILE_MAX" "length (pipe_pool s) = PIPE_MAX"
    "d < FILE_MAX \<Longrightarrow> file_ok (fd_pool s ! d)" "stdio_descs s = [0, 1, 2]"
  using assms by (auto simp: fd_inv_def list_all_length)

lemma fd_inv_upd: "fd_inv s \<Longrightarrow> d < FILE_MAX \<Longrightarrow> file_ok (g (fd_pool s ! d)) \<Longrightarrow> fd_inv (fd_upd s d g)"
  unfolding fd_inv_def fd_upd_def by (auto simp: list_all_length nth_list_update)

lemma fd_inv_pipes: "fd_inv s \<Longrightarrow> length ps = PIPE_MAX \<Longrightarrow> fd_inv (s\<lparr>pipe_pool := ps\<rparr>)"
  by (simp add: fd_inv_def)

lemma fd_inv_close: "fd_inv s \<Longrightarrow> fd_inv (file_close s f)"
  by (auto simp: file_close_def fd_inv_def split: option.splits file_ops.splits)

lemma fd_inv_release:
  assumes "fd_inv s"
  shows "fd_inv (vfs_fd_release s desc)"
proof (cases "desc < 0 \<or> int FILE_MAX \<le> desc")
  case False
  define d where "d = nat desc"
  have d: "d < FILE_MAX" using False by (auto simp: d_def)
  define s1 where "s1 = (if 0 < f_refcnt (fd_pool s ! d)
    then fd_upd s d (\<lambda>f. f\<lparr>f_refcnt := f_refcnt f - 1\<rparr>) else s)"
  have eq: "vfs_fd_release s desc = (if f_refcnt (fd_pool s1 ! d) = 0
      then file_close (fd_upd s1 d (\<lambda>_. file_zero)) (fd_pool s1 ! d) else s1)"
    using False by (simp add: vfs_fd_release_def d_def [symmetric] s1_def [symmetric] Let_def)
  note fo = fd_invD(3) [OF assms d] and len = fd_invD(1) [OF assms]
  show ?thesis
  proof (cases "f_refcnt (fd_pool s1 ! d) = 0")
    case True
    have "fd_upd s1 d (\<lambda>_. file_zero) = fd_upd s d (\<lambda>_. file_zero)"
      using d len by (simp add: s1_def)
    then show ?thesis using True assms d by (simp add: eq fd_inv_close fd_inv_upd)
  next
    case ne: False
    then have "fd_inv s1"
      using fo d len assms unfolding s1_def
      by (auto intro!: fd_inv_upd simp: file_ok_def word_gt_0 split: if_splits)
    with ne show ?thesis by (simp add: eq)
  qed
qed (simp add: vfs_fd_release_def assms)

lemma fd_pool_alloc_from_spec:
  assumes "i \<le> FILE_MAX"
  shows "fd_pool_alloc_from s i = None \<Longrightarrow> i \<le> j \<Longrightarrow> j < FILE_MAX \<Longrightarrow>
      \<not> (f_refcnt (fd_pool s ! j) = 0 \<and> f_ops (fd_pool s ! j) = None)"
    and "fd_pool_alloc_from s i = Some (d, s') \<Longrightarrow> d < FILE_MAX \<and> f_refcnt (fd_pool s ! d) = 0
      \<and> f_ops (fd_pool s ! d) = None \<and> s' = fd_upd s d (\<lambda>_. file_zero\<lparr>f_refcnt := 1\<rparr>)"
  using assms
proof (induction "FILE_MAX - i" arbitrary: i)
  case 0
  { case 1 then show ?case using 0 by simp }
  { case 2 then show ?case using 0 by (simp add: fd_pool_alloc_from.simps [of s i]) }
next
  case (Suc e)
  have e: "e = FILE_MAX - (i + 1)" using Suc.hyps(3) by simp
  { case 1
    then show ?case using Suc.hyps(1) [OF e]
      by (cases "j = i") (auto simp: fd_pool_alloc_from.simps [of s i] split: if_splits) }
  { case 2
    then show ?case using Suc.hyps(2) [OF e]
      by (auto simp: fd_pool_alloc_from.simps [of s i] split: if_splits) }
qed

text \<open>Allocation of a pipe end: a free entry if there is one, otherwise -ENOMEM.\<close>

lemma alloc_pipe_fail:
  "fst (fd_pool_alloc_pipe s ops priv flags) < 0 \<Longrightarrow>
   fd_pool_alloc_pipe s ops priv flags = (- ENOMEM, s) \<and>
   (\<forall>j < FILE_MAX. \<not> (f_refcnt (fd_pool s ! j) = 0 \<and> f_ops (fd_pool s ! j) = None))"
  using fd_pool_alloc_from_spec(1) [of 0 s]
  by (auto simp: fd_pool_alloc_pipe_def fd_pool_alloc_def split: option.splits prod.splits)

lemma alloc_pipe_ok:
  assumes "\<not> fst (fd_pool_alloc_pipe s ops priv flags) < 0" and "length (fd_pool s) = FILE_MAX"
  obtains d where "d < FILE_MAX" "f_refcnt (fd_pool s ! d) = 0" "f_ops (fd_pool s ! d) = None"
    "fd_pool_alloc_pipe s ops priv flags = (int d, fd_upd s d (\<lambda>_. \<lparr>f_ops = Some ops, f_priv = priv,
       f_flags = flags, f_refcnt = 1, f_vnode = None, f_offset = 0\<rparr>))"
proof -
  obtain d s' where a: "fd_pool_alloc_from s 0 = Some (d, s')"
    using assms(1) by (auto simp: fd_pool_alloc_pipe_def fd_pool_alloc_def split: option.splits)
  note sp = fd_pool_alloc_from_spec(2) [OF _ a]
  show thesis
    by (rule that [of d])
      (use sp a assms(2) in \<open>simp_all add: fd_pool_alloc_pipe_def fd_pool_alloc_def file_zero_def\<close>)
qed

lemma unat_refs: "n < HELD_MAX + 2 \<Longrightarrow> unat (of_nat n :: u32) = n"
  by (simp add: unsigned_of_nat take_bit_eq_mod)

lemma of_nat_refs_0: "n < HELD_MAX + 2 \<Longrightarrow> (of_nat n :: u32) = 0 \<longleftrightarrow> n = 0"
  using unat_refs [of n] by (auto simp: unat_eq_zero)

lemma fd_ownD:
  assumes "fd_own (s, H)"
  shows "fd_inv s" "size H < HELD_MAX" "refs_ok s" "d \<in># H \<Longrightarrow> d < FILE_MAX"
    "d < FILE_MAX \<Longrightarrow> f_refcnt (fd_pool s ! d) = of_nat (count H d + of_bool (d < 3))"
    "d < FILE_MAX \<Longrightarrow> f_refcnt (fd_pool s ! d) = 0 \<longleftrightarrow> count H d = 0 \<and> 3 \<le> d"
proof -
  show inv: "fd_inv s" and sz: "size H < HELD_MAX" and "d \<in># H \<Longrightarrow> d < FILE_MAX"
    and cnt: "\<And>d. d < FILE_MAX \<Longrightarrow> f_refcnt (fd_pool s ! d) = of_nat (count H d + of_bool (d < 3))"
    using assms by (auto simp: fd_own_def)
  have b: "count H d + of_bool (d < 3) + 1 < HELD_MAX + 2" for d
    using sz count_le_size [of H d] by (cases "d < 3") auto
  show "d < FILE_MAX \<Longrightarrow> f_refcnt (fd_pool s ! d) = 0 \<longleftrightarrow> count H d = 0 \<and> 3 \<le> d"
    using b [of d] cnt [of d] of_nat_refs_0 [of "count H d + of_bool (d < 3)"] by (simp add: not_less)
  have "f_refcnt (fd_pool s ! d) + 1 \<noteq> 0" if "d < FILE_MAX" for d
    using b [of d] cnt [OF that] of_nat_refs_0 [of "count H d + of_bool (d < 3) + 1"] by (simp add: add.commute)
  then show "refs_ok s" using fd_invD(1) [OF inv] by (simp add: refs_ok_def list_all_length)
qed

lemma fd_ownI:
  assumes "fd_own (s, H)" and "fd_inv s'" and "size H' < HELD_MAX" and "\<forall>d \<in># H'. d < FILE_MAX"
    and "\<And>d. d < FILE_MAX \<Longrightarrow>
      f_refcnt (fd_pool s' ! d) + of_nat (count H d) = f_refcnt (fd_pool s ! d) + of_nat (count H' d)"
  shows "fd_own (s', H')"
proof -
  have "f_refcnt (fd_pool s' ! d) = of_nat (count H' d + of_bool (d < 3))" if d: "d < FILE_MAX" for d
    using assms(5) [OF d] fd_ownD(5) [OF assms(1) d] by (simp add: algebra_simps)
  then show ?thesis using assms(2,3,4) by (simp add: fd_own_def)
qed

lemma fd_pool_close [simp]: "fd_pool (file_close s f) = fd_pool s"
  by (auto simp: file_close_def split: option.splits file_ops.splits)

lemma release_effect:
  assumes "d < FILE_MAX" "length (fd_pool s) = FILE_MAX" "f_refcnt (fd_pool s ! d) \<noteq> 0"
  shows "vfs_fd_release s (int d) = (if f_refcnt (fd_pool s ! d) = 1
    then file_close (fd_upd s d (\<lambda>_. file_zero)) ((fd_pool s ! d)\<lparr>f_refcnt := 0\<rparr>)
    else fd_upd s d (\<lambda>f. f\<lparr>f_refcnt := f_refcnt f - 1\<rparr>))"
  using assms by (simp add: vfs_fd_release_def Let_def word_gt_0)

lemma release_refs:
  assumes "d < FILE_MAX" "length (fd_pool s) = FILE_MAX" "f_refcnt (fd_pool s ! d) \<noteq> 0" "j < FILE_MAX"
  shows "f_refcnt (fd_pool (vfs_fd_release s (int d)) ! j) =
    (if j = d then f_refcnt (fd_pool s ! d) - 1 else f_refcnt (fd_pool s ! j))"
  using assms by (simp add: release_effect file_zero_def)

lemma free_entry_zero: "fd_inv s \<Longrightarrow> d < FILE_MAX \<Longrightarrow> f_refcnt (fd_pool s ! d) = 0 \<longleftrightarrow> fd_pool s ! d = file_zero"
  using fd_invD(3) [of s d] by (auto simp: file_ok_def file_zero_def)

lemma alloc_pipe_cases:
  assumes inv: "fd_inv s"
  obtains (full) "free_entries s = {}" "fd_pool_alloc_pipe s ops i flags = (- ENOMEM, s)"
  | (entry) d where "d \<in> free_entries s" "fd_pool s ! d = file_zero"
      "fd_pool_alloc_pipe s ops i flags = (int d, fd_upd s d (\<lambda>_. pipe_file ops i flags))"
proof (cases "fst (fd_pool_alloc_pipe s ops i flags) < 0")
  case True
  from alloc_pipe_fail [OF True] have a: "fd_pool_alloc_pipe s ops i flags = (- ENOMEM, s)"
    and nofree: "\<forall>j < FILE_MAX. \<not> (f_refcnt (fd_pool s ! j) = 0 \<and> f_ops (fd_pool s ! j) = None)" by auto
  have "free_entries s = {}"
    using nofree free_entry_zero [OF inv] by (auto simp: free_entries_def file_zero_def)
  then show thesis using a by (rule full)
next
  case False
  from alloc_pipe_ok [OF False fd_invD(1) [OF inv]] obtain d where
    "d < FILE_MAX" "f_refcnt (fd_pool s ! d) = 0"
    "fd_pool_alloc_pipe s ops i flags = (int d, fd_upd s d (\<lambda>_. pipe_file ops i flags))"
    unfolding pipe_file_def by metis
  then show thesis using free_entry_zero [OF inv] by (intro entry) (auto simp: free_entries_def file_zero_def)
qed

lemma pipe_file_ok: "i < PIPE_MAX \<Longrightarrow> file_ok (pipe_file ops i flags)"
  by (simp add: file_ok_def pipe_file_def)

lemma upd_zero_back:
  assumes "d < length (fd_pool s)" "fd_pool s ! d = file_zero"
  shows "fd_upd s d (\<lambda>_. file_zero) = s"
  using assms list_update_id [of "fd_pool s" d] by (simp add: fd_upd_def)

text \<open>The outcome of \<^verbatim>\<open>vfs_fd_pipe_create\<close>: it succeeds exactly when a pipe and two entries are
  free.\<close>

lemma card_two_le: "a \<in> A \<Longrightarrow> b \<in> A \<Longrightarrow> a \<noteq> b \<Longrightarrow> finite A \<Longrightarrow> 2 \<le> card A"
  using card_mono [of A "{a, b}"] by simp

lemma finite_free_entries [simp]: "finite (free_entries s)"
  by (simp add: free_entries_def)

lemma free_entries_upd:
  "length (fd_pool s) = FILE_MAX \<Longrightarrow> d < FILE_MAX \<Longrightarrow> f_refcnt (g (fd_pool s ! d)) \<noteq> 0 \<Longrightarrow>
   free_entries (fd_upd s d g) = free_entries s - {d}"
  by (auto simp: free_entries_def)

lemma free_entries_pipes [simp]: "free_entries (s\<lparr>pipe_pool := ps\<rparr>) = free_entries s"
  by (simp add: free_entries_def)

lemma pipe_create_cases:
  assumes inv: "fd_inv s"
  obtains (ok) i rd wd where "i \<in> pipe_slots s" "rd \<in> free_entries s" "wd \<in> free_entries s" "rd \<noteq> wd"
      "vfs_fd_pipe_create True s = (0, Some (int rd, int wd), s\<lparr>pipe_pool := (pipe_pool s)[i := pipe_fresh],
         fd_pool := (fd_pool s)[rd := pipe_file PipeReadOps i O_RDONLY, wd := pipe_file PipeWriteOps i O_WRONLY]\<rparr>)"
  | (no_pipe) "pipe_slots s = {}" "vfs_fd_pipe_create True s = (- ENOMEM, None, s)"
  | (no_entry) i p where "i \<in> pipe_slots s" "card (free_entries s) < 2" "p_in_use p = 0"
      "vfs_fd_pipe_create True s = (- ENOMEM, None, s\<lparr>pipe_pool := (pipe_pool s)[i := p]\<rparr>)"
proof (cases "pipe_alloc (pipe_pool s)")
  case None
  then have "pipe_slots s = {}"
    using pipe_alloc_from_spec(1) [of 0 "pipe_pool s"] by (auto simp: pipe_slots_def pipe_alloc_def)
  then show thesis by (rule no_pipe) (simp add: vfs_fd_pipe_create_def None)
next
  case (Some r)
  then obtain i where i: "i \<in> pipe_slots s" "pipe_alloc (pipe_pool s) = Some (i, (pipe_pool s)[i := pipe_fresh])"
    using pipe_alloc_from_spec(2) [of 0 "pipe_pool s" "fst r" "snd r"]
    by (cases r) (auto simp: pipe_slots_def pipe_alloc_def)
  have il: "i < PIPE_MAX" "length (pipe_pool s) = PIPE_MAX" using i fd_invD(2) [OF inv] by (auto simp: pipe_slots_def)
  define s1 where "s1 = s\<lparr>pipe_pool := (pipe_pool s)[i := pipe_fresh]\<rparr>"
  have inv1: "fd_inv s1" unfolding s1_def by (rule fd_inv_pipes [OF inv]) (simp add: il)
  have len: "length (fd_pool s1) = FILE_MAX" by (rule fd_invD(1) [OF inv1])
  have fe: "free_entries s1 = free_entries s" by (simp add: s1_def)
  note cr = vfs_fd_pipe_create_def [of True s, simplified i(2) option.case prod.case not_True_eq_False if_False
      Let_def s1_def [symmetric]]
  show thesis
  using inv1
  proof (cases rule: alloc_pipe_cases [where ops = PipeReadOps and i = i and flags = O_RDONLY])
    case full
    then have "vfs_fd_pipe_create True s = (- ENOMEM, None, s\<lparr>pipe_pool := (pipe_pool s)[i := pipe_free pipe_fresh]\<rparr>)"
      using il by (simp add: cr s1_def)
    then show thesis using i(1) full(1) by (intro no_entry) (auto simp: fe pipe_free_def)
  next
    case rd: (entry rd)
    define s2 where "s2 = fd_upd s1 rd (\<lambda>_. pipe_file PipeReadOps i O_RDONLY)"
    have rdl: "rd < FILE_MAX" using rd(1) by (simp add: free_entries_def)
    have inv2: "fd_inv s2" unfolding s2_def using rdl il by (intro fd_inv_upd inv1 pipe_file_ok)
    have fe2: "free_entries s2 = free_entries s - {rd}"
      unfolding s2_def fe [symmetric] using len rdl by (intro free_entries_upd) (simp_all add: pipe_file_def)
    show thesis
    using inv2
    proof (cases rule: alloc_pipe_cases [where ops = PipeWriteOps and i = i and flags = O_WRONLY])
      case full
      then have "card (free_entries s) < 2"
        using fe2 card_mono [of "{rd}" "free_entries s"] by auto
      moreover have "vfs_fd_release s2 (int rd) = file_close s1 ((pipe_file PipeReadOps i O_RDONLY)\<lparr>f_refcnt := 0\<rparr>)"
        using rdl len rd(2) by (subst release_effect) (simp_all add: s2_def pipe_file_def upd_zero_back)
      moreover have "file_close s1 ((pipe_file PipeReadOps i O_RDONLY)\<lparr>f_refcnt := 0\<rparr>) =
          s\<lparr>pipe_pool := (pipe_pool s)[i := pipe_close pipe_fresh O_RDONLY]\<rparr>"
        using il by (simp add: file_close_def pipe_file_def s1_def)
      ultimately show thesis using i(1) full rd(3) il
        by (intro no_entry [of i "pipe_free (pipe_close pipe_fresh O_RDONLY)"])
          (simp_all add: cr s2_def [symmetric], simp add: pipe_free_def)
    next
      case wd: (entry wd)
      then show thesis using i(1) rd fe fe2
        by (intro ok [of i rd wd]) (simp_all add: cr s2_def [symmetric], simp add: s2_def s1_def fd_upd_def)
    qed
  qed
qed

lemma free_entries_own: "fd_own (s, H) \<Longrightarrow> d \<in> free_entries s \<Longrightarrow> d < FILE_MAX \<and> count H d = 0 \<and> 3 \<le> d"
  using fd_ownD(6) [of s H d] by (simp add: free_entries_def)

lemma own_inc:
  assumes own: "fd_own (s, H)" and "size H + 2 < HELD_MAX" and d: "d < FILE_MAX" and "f_refcnt (fd_pool s ! d) \<noteq> 0"
  shows "fd_own (fd_upd s d (\<lambda>f. f\<lparr>f_refcnt := f_refcnt f + 1\<rparr>), add_mset d H)"
proof (rule fd_ownI [OF own])
  note D = fd_ownD [OF own]
  have "f_refcnt (fd_pool s ! d) + 1 \<noteq> 0"
    using D(3) d fd_invD(1) [OF D(1)] by (simp add: refs_ok_def list_all_length)
  then show "fd_inv (fd_upd s d (\<lambda>f. f\<lparr>f_refcnt := f_refcnt f + 1\<rparr>))"
    using assms fd_invD(3) [OF D(1) d] by (intro fd_inv_upd D(1)) (auto simp: file_ok_def)
  show "size (add_mset d H) < HELD_MAX" "\<forall>d \<in># add_mset d H. d < FILE_MAX" using assms D by auto
qed (use d fd_invD(1) [OF fd_ownD(1) [OF own]] in \<open>simp add: algebra_simps\<close>)

lemma own_release:
  assumes own: "fd_own (s, H)" and d: "d \<in># H"
  shows "fd_own (vfs_fd_release s (int d), H - {#d#})"
proof (rule fd_ownI [OF own])
  note D = fd_ownD [OF own]
  have d': "d < FILE_MAX" by (rule D(4) [OF d])
  have cnt: "count H d = Suc (count (H - {#d#}) d)" using d by (simp add: Suc_diff_Suc flip: count_greater_zero_iff)
  then have nz: "f_refcnt (fd_pool s ! d) \<noteq> 0" using D(6) [OF d'] by simp
  show "fd_inv (vfs_fd_release s (int d))" by (rule fd_inv_release [OF D(1)])
  show "size (H - {#d#}) < HELD_MAX" using D(2) d by (simp add: size_Diff_singleton)
  show "\<forall>d \<in># H - {#d#}. d < FILE_MAX" using D(4) by (auto dest: in_diffD)
  show "f_refcnt (fd_pool (vfs_fd_release s (int d)) ! j) + of_nat (count H j) =
      f_refcnt (fd_pool s ! j) + of_nat (count (H - {#d#}) j)" if "j < FILE_MAX" for j
    using release_refs [OF d' fd_invD(1) [OF D(1)] nz that] arg_cong [OF cnt, of "of_nat :: nat \<Rightarrow> u32"]
    by (cases "j = d") (simp_all del: count_diff, simp)
qed

lemma own_pipe_create:
  assumes own: "fd_own (s, H)" and H: "size H + 2 < HELD_MAX" and r: "vfs_fd_pipe_create ptrs s = (rc, Some (rd, wd), s')"
  shows "fd_own (s', add_mset (nat rd) (add_mset (nat wd) H))"
proof -
  note D = fd_ownD [OF own]
  have ptrs: "ptrs" using r by (cases ptrs) (auto simp: vfs_fd_pipe_create_def)
  show ?thesis using D(1)
  proof (cases rule: pipe_create_cases)
    case (ok i r w)
    then have e: "rd = int r" "wd = int w" and s': "s' = s\<lparr>pipe_pool := (pipe_pool s)[i := pipe_fresh],
         fd_pool := (fd_pool s)[r := pipe_file PipeReadOps i O_RDONLY, w := pipe_file PipeWriteOps i O_WRONLY]\<rparr>"
      using r ptrs by auto
    have lt: "r < FILE_MAX" "w < FILE_MAX" "i < PIPE_MAX"
      and zr: "f_refcnt (fd_pool s ! r) = 0" "f_refcnt (fd_pool s ! w) = 0"
      using ok(1-3) by (auto simp: free_entries_def pipe_slots_def)
    note len = fd_invD(1,2) [OF D(1)]
    define s1 where "s1 = s\<lparr>pipe_pool := (pipe_pool s)[i := pipe_fresh]\<rparr>"
    have s'2: "s' = fd_upd (fd_upd s1 r (\<lambda>_. pipe_file PipeReadOps i O_RDONLY)) w (\<lambda>_. pipe_file PipeWriteOps i O_WRONLY)"
      by (simp add: s' s1_def fd_upd_def)
    have "fd_inv s1" unfolding s1_def using len by (intro fd_inv_pipes D(1)) simp
    then have "fd_inv s'" unfolding s'2 using lt by (intro fd_inv_upd pipe_file_ok)
    then show ?thesis
      using H D(4) lt ok(4) len zr unfolding e
      by (intro fd_ownI [OF own]) (auto simp: s' nth_list_update pipe_file_def)
  qed (use r ptrs in auto)
qed

lemma own_pipe_create_fail:
  assumes own: "fd_own (s, H)" and r: "vfs_fd_pipe_create ptrs s = (rc, None, s')"
  shows "fd_own (s', H)"
proof (cases ptrs)
  case True
  show ?thesis using fd_ownD(1) [OF own]
  proof (cases rule: pipe_create_cases)
    case (no_entry i p)
    then have "s' = s\<lparr>pipe_pool := (pipe_pool s)[i := p]\<rparr>" using r True by simp
    then show ?thesis
      using own fd_invD(2) [OF fd_ownD(1) [OF own]] by (auto simp: fd_own_def intro!: fd_inv_pipes)
  qed (use r own True in auto)
qed (use r own in \<open>auto simp: vfs_fd_pipe_create_def\<close>)

lemma own_stdio:
  assumes own: "fd_own (s, H)" and H: "size H + 2 < HELD_MAX" and r: "vfs_fd_stdio_desc s which = (desc, s')" "0 \<le> desc"
  shows "fd_own (s', add_mset (nat desc) H)"
proof -
  note D = fd_ownD [OF own]
  have w: "0 \<le> which" "which \<le> 2" using r by (auto simp: vfs_fd_stdio_desc_def split: if_splits)
  then have "which = 0 \<or> which = 1 \<or> which = 2" by linarith
  then have "stdio_descs s ! nat which = which" using fd_invD(4) [OF D(1)] by auto
  then have e: "desc = which" "s' = fd_upd s (nat which) (\<lambda>f. f\<lparr>f_refcnt := f_refcnt f + 1\<rparr>)"
    using r w by (auto simp: vfs_fd_stdio_desc_def Let_def)
  have "nat which < FILE_MAX" "nat which < 3" using w by auto
  then show ?thesis unfolding e using D(6) [of "nat which"] by (intro own_inc [OF own H]) auto
qed

text \<open>Taking a free entry for one holder.\<close>

lemma own_take:
  assumes own: "fd_own (s, H)" and H: "size H + 2 < HELD_MAX" and a: "fd_pool_alloc s = Some (d, s1)"
    and g: "f_refcnt g = 1" "f_ops g = Some TtyOps \<or> f_ops g = Some BridgeOps"
  shows "fd_own (fd_upd s d (\<lambda>_. g), add_mset d H)"
proof (rule fd_ownI [OF own])
  note D = fd_ownD [OF own] and sp = fd_pool_alloc_from_spec(2) [OF _ a [unfolded fd_pool_alloc_def]]
  have d: "d < FILE_MAX" "f_refcnt (fd_pool s ! d) = 0" using sp by auto
  have "file_ok g" using g by (auto simp: file_ok_def)
  then show "fd_inv (fd_upd s d (\<lambda>_. g))" by (intro fd_inv_upd D(1) d(1))
  show "size (add_mset d H) < HELD_MAX" "\<forall>d \<in># add_mset d H. d < FILE_MAX" using H D(4) d by auto
  show "f_refcnt (fd_pool (fd_upd s d (\<lambda>_. g)) ! j) + of_nat (count H j) = f_refcnt (fd_pool s ! j) + of_nat (count (add_mset d H) j)"
    if "j < FILE_MAX" for j using d g fd_invD(1) [OF D(1)] by (cases "j = d") simp_all
qed

lemma own_fields: "fd_own (s\<lparr>vnodes_released := l\<rparr>, H) = fd_own (s, H)" "fd_own (s\<lparr>vnode_size := z\<rparr>, H) = fd_own (s, H)"
  "fd_own (release_vnode v s, H) = fd_own (s, H)"
  by (simp_all add: fd_own_def fd_inv_def release_vnode_def)

lemma own_open_entry:
  assumes own: "fd_own (s, H)" and r: "open_entry e flags vn s = (desc, s')"
  shows "(0 \<le> desc \<longrightarrow> size H + 2 < HELD_MAX \<longrightarrow> fd_own (s', add_mset (nat desc) H)) \<and> (desc < 0 \<longrightarrow> fd_own (s', H))"
proof (cases "fd_pool_alloc s")
  case None
  then show ?thesis using r own by (auto simp: open_entry_def own_fields split: option.splits)
next
  case (Some x)
  then obtain d s1 where a: "fd_pool_alloc s = Some (d, s1)" by (cases x) auto
  have s1: "s1 = fd_upd s d (\<lambda>_. file_zero\<lparr>f_refcnt := 1\<rparr>)" "d < length (fd_pool s)"
    using fd_pool_alloc_from_spec(2) [OF _ a [unfolded fd_pool_alloc_def]] fd_invD(1) [OF fd_ownD(1) [OF own]] by auto
  have take: "size H + 2 < HELD_MAX \<Longrightarrow> fd_own (fd_upd s d (\<lambda>_. g), add_mset d H)"
    if "f_refcnt g = 1" "f_ops g = Some TtyOps \<or> f_ops g = Some BridgeOps" for g
    using own_take [OF own _ a] that by blast
  show ?thesis
  proof (cases "open_tty e vn")
    case (Some tty)
    then show ?thesis using r take [of "file_zero\<lparr>f_refcnt := 1, f_ops := Some TtyOps, f_priv := tty, f_flags := flags, f_vnode := None, f_offset := 0\<rparr>"]
      by (auto simp: open_entry_def a s1 own_fields)
  next
    case None
    then show ?thesis using r take [of "file_zero\<lparr>f_refcnt := 1, f_ops := Some BridgeOps, f_priv := 0, f_flags := flags, f_vnode := Some vn,
        f_offset := if nz (flags AND O_APPEND) then vnode_size s vn else 0\<rparr>"]
      by (auto simp: open_entry_def a s1)
  qed
qed

lemma own_open_vnode:
  "fd_own (snd (open_vnode e flags s), H) = fd_own (s, H)" "fd_own (snd (open_trunc e flags vn s), H) = fd_own (s, H)"
  by (simp_all add: open_vnode_def open_create_def open_trunc_def Let_def split_beta own_fields split: option.splits)

lemma open_env_errs:
  assumes "open_env_ok e"
  shows "open_vnode e flags s = (Inl err, s') \<Longrightarrow> err < 0" "open_trunc e flags vn s = (Some err, s') \<Longrightarrow> err < 0"
proof -
  have c: "oe_create e v = Some (er, vn) \<Longrightarrow> er \<noteq> 0 \<Longrightarrow> er < 0" "oe_truncate e v = Some (er, sz) \<Longrightarrow> er \<noteq> 0 \<Longrightarrow> er < 0" for v er vn sz
    using assms unfolding open_env_ok_def by (metis order_le_less)+
  have l: "fst (oe_lookup e) \<noteq> 0 \<Longrightarrow> fst (oe_lookup e) < 0" "fst (oe_lookup_parent e) \<noteq> 0 \<Longrightarrow> fst (oe_lookup_parent e) < 0"
    using assms by (auto simp: open_env_ok_def)
  show "open_vnode e flags s = (Inl err, s') \<Longrightarrow> err < 0"
    using l by (auto simp: open_vnode_def open_create_def split_beta dest: c(1) split: if_splits option.splits)
  show "open_trunc e flags vn s = (Some err, s') \<Longrightarrow> err < 0"
    by (auto simp: open_trunc_def Let_def dest: c(2) split: if_splits option.splits)
qed

lemma own_open:
  assumes own: "fd_own (s, H)" and r: "vfs_fd_open e path flags s = (desc, s')"
  shows "desc < 0 \<Longrightarrow> fd_own (s', H)"
    "0 \<le> desc \<Longrightarrow> open_env_ok e \<Longrightarrow> size H + 2 < HELD_MAX \<Longrightarrow> fd_own (s', add_mset (nat desc) H)"
proof -
  obtain v s1 where v: "open_vnode e flags s = (v, s1)" by (cases "open_vnode e flags s")
  have s1: "fd_own (s1, H)" using own own_open_vnode(1) [of e flags s H] v by simp
  consider (null) "\<not> path" "desc = - EINVAL" "s' = s" | (err) err where "path" "v = Inl err" "desc = err" "s' = s1"
    | (trunc) vn terr s2 where "path" "v = Inr vn" "open_trunc e flags vn s1 = (Some terr, s2)" "desc = terr" "s' = s2"
    | (entry) vn s2 where "path" "v = Inr vn" "open_trunc e flags vn s1 = (None, s2)" "open_entry e flags vn s2 = (desc, s')"
    using r v by (auto simp: vfs_fd_open_def split: if_splits sum.splits prod.splits option.splits)
  then have "(desc < 0 \<longrightarrow> fd_own (s', H)) \<and> (0 \<le> desc \<longrightarrow> open_env_ok e \<longrightarrow> size H + 2 < HELD_MAX \<longrightarrow> fd_own (s', add_mset (nat desc) H))"
  proof cases
    case null
    then show ?thesis using own by simp
  next
    case (err er)
    then show ?thesis using s1 open_env_errs(1) [of e flags s er s1] v by auto
  next
    case (trunc vn terr s2)
    then show ?thesis using s1 own_open_vnode(2) [of e flags vn s1 H] open_env_errs(2) [of e flags vn s1 terr s2] by auto
  next
    case (entry vn s2)
    then have "fd_own (s2, H)" using s1 own_open_vnode(2) [of e flags vn s1 H] by simp
    from own_open_entry [OF this entry(4)] show ?thesis by blast
  qed
  then show "desc < 0 \<Longrightarrow> fd_own (s', H)"
    "0 \<le> desc \<Longrightarrow> open_env_ok e \<Longrightarrow> size H + 2 < HELD_MAX \<Longrightarrow> fd_own (s', add_mset (nat desc) H)" by auto
qed

lemma body_keeps: "fd_body body \<Longrightarrow> f_refcnt (body s f) = f_refcnt f \<and> f_ops (body s f) = f_ops f \<and> f_priv (body s f) = f_priv f"
proof (induction rule: fd_body.induct)
  case (body_getdents isdir readdir dirent_size n)
  show ?case by (simp add: fd_getdents_body_def split: sum.splits prod.splits)
next
  case (body_getdents64 isdir readdir m)
  show ?case by (simp add: fd_getdents64_body_def split: sum.splits prod.splits)
qed (auto simp: driver_ok_def ioctl_ok_def fd_read_body_def fd_write_body_def fd_ioctl_body_def fd_poll_body_def
    fd_lseek_body_def fd_fcntl_body_def fd_fstat_body_def Let_def split: option.splits)

lemma own_body:
  assumes own: "fd_own (s, H)" and d: "d \<in># H" and b: "fd_body body"
  shows "fd_own (fd_upd s d (body s), H)"
proof (rule fd_ownI [OF own])
  note D = fd_ownD [OF own] and k = body_keeps [OF b, of s "fd_pool s ! d"]
  have d': "d < FILE_MAX" by (rule D(4) [OF d])
  have "f_refcnt (fd_pool s ! d) \<noteq> 0" using D(6) [OF d'] d by simp
  then have "file_ok (body s (fd_pool s ! d))" using fd_invD(3) [OF D(1) d'] k by (auto simp: file_ok_def)
  then show "fd_inv (fd_upd s d (body s))" by (intro fd_inv_upd D(1) d')
  show "size H < HELD_MAX" "\<forall>d \<in># H. d < FILE_MAX" using D by auto
  show "f_refcnt (fd_pool (fd_upd s d (body s)) ! j) + of_nat (count H j) = f_refcnt (fd_pool s ! j) + of_nat (count H j)" for j
    using k d' fd_invD(1) [OF D(1)] by simp
qed

lemma own_get:
  assumes own: "fd_own (s, H)" and H: "size H + 2 < HELD_MAX" and g: "fd_get s desc = Some (d, s')"
  shows "fd_own (s', add_mset d H)"
proof -
  have d: "d < FILE_MAX" "f_refcnt (fd_pool s ! d) \<noteq> 0" and s': "s' = fd_upd s d (\<lambda>f. f\<lparr>f_refcnt := f_refcnt f + 1\<rparr>)"
    using g by (auto simp: fd_get_def Let_def split: if_splits)
  show ?thesis unfolding s' by (rule own_inc [OF own H d])
qed

lemma own_step: "fd_step x y \<Longrightarrow> fd_ok x \<Longrightarrow> fd_ok y"
proof (induction rule: fd_step.induct)
  case (fd_stdio H F s which desc s')
  then show ?case using own_stdio [of s "H + F"] by (simp add: fd_ok_def)
next
  case (fd_acquire H F d s)
  then have own: "fd_own (s, H + F)" and H: "size (H + F) + 2 < HELD_MAX" by (simp_all add: fd_ok_def)
  note D = fd_ownD [OF own]
  have d: "d < FILE_MAX" using D(4) fd_acquire(2) by simp
  have nz: "f_refcnt (fd_pool s ! d) \<noteq> 0" using D(6) [OF d] fd_acquire(2) by simp
  from own_inc [OF own H d nz] d nz show ?case by (simp add: vfs_fd_acquire_def word_gt_0 fd_ok_def)
next
  case (fd_release d H s F)
  then show ?case using own_release [of s "H + F" d] by (simp add: fd_ok_def)
next
  case (fd_open H F e path flags s desc s')
  then show ?case using own_open(2) [of s "H + F"] by (simp add: fd_ok_def)
next
  case (fd_open_fail e path flags s err s' H F)
  then show ?case using own_open(1) [of s "H + F"] by (simp add: fd_ok_def)
next
  case (fd_pipe H F ptrs s rc rd wd s')
  then show ?case using own_pipe_create [of s "H + F"] by (simp add: fd_ok_def)
next
  case (fd_pipe_fail ptrs s rc s' H F)
  then show ?case using own_pipe_create_fail [of s "H + F"] by (simp add: fd_ok_def)
next
  case (fd_call H F s desc d s')
  then show ?case using own_get [of s "H + F" desc d s'] by (simp add: fd_ok_def)
next
  case (fd_work d F body s H)
  then show ?case using own_body [of s "H + F" d body] by (simp add: fd_ok_def)
next
  case (fd_return d F s H)
  then show ?case using own_release [of s "H + F" d] by (simp add: fd_ok_def)
qed

text \<open>An entry point that is not interrupted is its three steps in a row.\<close>

lemma with_fd_steps:
  assumes "fd_get s desc = Some (d, s1)" and "fd_body (\<lambda>s f. snd (body s f))" and "size H + size F + 2 < HELD_MAX"
    and "desc = int d"
  shows "fd_step\<^sup>*\<^sup>* (s, H, F) (snd (with_fd bad s desc body), H, F)"
proof -
  have 1: "fd_step (s, H, F) (s1, H, add_mset d F)" by (rule fd_call [OF assms(3,1)])
  have 2: "fd_step (s1, H, add_mset d F) (fd_upd s1 d (\<lambda>f. snd (body s1 f)), H, add_mset d F)"
    using fd_work [OF _ assms(2), of d "add_mset d F" s1 H] by simp
  have 3: "fd_step (fd_upd s1 d (\<lambda>f. snd (body s1 f)), H, add_mset d F)
      (vfs_fd_release (fd_upd s1 d (\<lambda>f. snd (body s1 f))) (int d), H, F)"
    using fd_return [of d "add_mset d F"] by simp
  have "snd (with_fd bad s desc body) = vfs_fd_release (fd_upd s1 d (\<lambda>f. snd (body s1 f))) (int d)"
    using assms(1,4) by (simp add: with_fd_def split_beta fd_upd_def Let_def)
  then show ?thesis using 1 2 3 by (metis converse_rtranclp_into_rtranclp rtranclp.rtrancl_refl)
qed

lemma boot_entry:
  assumes "d < FILE_MAX"
  shows "fd_pool (fd_boot sizes console) ! d = (if d < 3
    then file_zero\<lparr>f_ops := Some TtyOps, f_priv := console, f_flags := if d = 0 then O_RDONLY else O_WRONLY, f_refcnt := 1\<rparr>
    else file_zero)"
proof -
  have "replicate FILE_MAX file_zero ! d = file_zero" by (rule nth_replicate [OF assms])
  moreover have "d < length (replicate FILE_MAX file_zero)" using assms by (simp only: length_replicate)
  moreover have "d < 3 \<longleftrightarrow> d = 0 \<or> d = 1 \<or> d = 2" by linarith
  ultimately show ?thesis
    unfolding fd_boot_def fd_pool_init_def by (auto simp: nth_list_update)
qed

lemma boot_rest:
  "length (fd_pool (fd_boot sizes console)) = FILE_MAX" "length (pipe_pool (fd_boot sizes console)) = PIPE_MAX"
  "stdio_descs (fd_boot sizes console) = [0, 1, 2]"
  "i < PIPE_MAX \<Longrightarrow> p_in_use (pipe_pool (fd_boot sizes console) ! i) = 0"
  by (simp_all add: fd_boot_def fd_pool_init_def nth_replicate)

lemma own_boot: "fd_own (fd_boot sizes console, {#})"
proof -
  have "file_ok (fd_pool (fd_boot sizes console) ! d)" if "d < FILE_MAX" for d
    by (simp add: boot_entry [OF that] file_ok_def file_zero_def)
  then have "fd_inv (fd_boot sizes console)"
    by (simp add: fd_inv_def boot_rest list_all_length)
  then show ?thesis by (simp add: fd_own_def boot_entry file_zero_def)
qed

interpretation fd_run: step_system fd_step fd_ok
  by unfold_locales (rule own_step)

text \<open>C23: reference counts are exact. Take any run from boot of the operations on the pool, in which calls
  on descriptors may be interrupted anywhere between taking and dropping their reference, a process
  duplicates or releases only descriptors it holds, and fewer than 2^16 references exist at a time. The
  reference count of every entry is the number of descriptors held for it plus the number of calls in
  flight on it, plus one permanent reference for each of the three standard entries. So an entry is open
  exactly while a descriptor or a call refers to it or it is a standard entry, a descriptor closed during a
  call on it stays open until the call ends, and an unreferenced entry is all zero and free for
  allocation.\<close>

theorem fd_refcount_exact:
  assumes "fd_step\<^sup>*\<^sup>* (fd_boot sizes console, {#}, {#}) (s, H, F)"
  shows "\<forall>d. d < FILE_MAX \<longrightarrow> unat (f_refcnt (fd_pool s ! d)) = count H d + count F d + of_bool (d < 3)
    \<and> (f_ops (fd_pool s ! d) \<noteq> None \<longleftrightarrow> d \<in># H \<or> d \<in># F \<or> d < 3)
    \<and> (count H d = 0 \<and> count F d = 0 \<and> 3 \<le> d \<longrightarrow> fd_pool s ! d = file_zero)"
proof (intro allI impI)
  fix d :: nat assume d: "d < FILE_MAX"
  have "fd_ok (fd_boot sizes console, {#}, {#})" using own_boot by (simp add: fd_ok_def)
  then have own: "fd_own (s, H + F)" using fd_run.reach_inv [OF assms] by (simp add: fd_ok_def)
  note D = fd_ownD [OF own]
  have "count (H + F) d + of_bool (d < 3) < HELD_MAX + 2"
    using D(2) count_le_size [of "H + F" d] by (cases "d < 3") auto
  then have "unat (f_refcnt (fd_pool s ! d)) = count H d + count F d + of_bool (d < 3)"
    using unat_refs [of "count (H + F) d + of_bool (d < 3)"] unfolding D(5) [OF d] by simp
  moreover have "f_ops (fd_pool s ! d) \<noteq> None \<longleftrightarrow> f_refcnt (fd_pool s ! d) \<noteq> 0"
    using fd_invD(3) [OF D(1) d] by (auto simp: file_ok_def file_zero_def)
  moreover have "f_refcnt (fd_pool s ! d) \<noteq> 0 \<longleftrightarrow> d \<in># H \<or> d \<in># F \<or> d < 3"
    using D(6) [OF d] by (auto simp flip: count_greater_zero_iff)
  moreover have "count H d = 0 \<and> count F d = 0 \<and> 3 \<le> d \<Longrightarrow> fd_pool s ! d = file_zero"
    using D(6) [OF d] free_entry_zero [OF D(1) d] by simp
  ultimately show "unat (f_refcnt (fd_pool s ! d)) = count H d + count F d + of_bool (d < 3)
    \<and> (f_ops (fd_pool s ! d) \<noteq> None \<longleftrightarrow> d \<in># H \<or> d \<in># F \<or> d < 3)
    \<and> (count H d = 0 \<and> count F d = 0 \<and> 3 \<le> d \<longrightarrow> fd_pool s ! d = file_zero)" by blast
qed

text \<open>The descriptors and the pipe after creation.\<close>

lemma pipe_create_boot:
  "vfs_fd_pipe_create True (fd_boot sizes console) = (0, Some (3, 4), (fd_boot sizes console)
     \<lparr>pipe_pool := (pipe_pool (fd_boot sizes console))[0 := pipe_fresh],
      fd_pool := (fd_pool (fd_boot sizes console))[3 := pipe_file PipeReadOps 0 O_RDONLY, 4 := pipe_file PipeWriteOps 0 O_WRONLY]\<rparr>)"
proof -
  let ?s = "fd_boot sizes console"
  define s1 where "s1 = ?s\<lparr>pipe_pool := (pipe_pool ?s)[0 := pipe_fresh]\<rparr>"
  define s2 where "s2 = fd_upd s1 3 (\<lambda>_. pipe_file PipeReadOps 0 O_RDONLY)"
  have e: "fd_pool s1 ! d = (if d < 3 then file_zero\<lparr>f_ops := Some TtyOps, f_priv := console,
      f_flags := if d = 0 then O_RDONLY else O_WRONLY, f_refcnt := 1\<rparr> else file_zero)" if "d < FILE_MAX" for d
    using boot_entry [OF that, of sizes console] by (simp add: s1_def)
  have len: "length (fd_pool s1) = FILE_MAX" by (simp add: s1_def boot_rest)
  have "fd_pool_alloc s1 = Some (3, fd_upd s1 3 (\<lambda>_. file_zero\<lparr>f_refcnt := 1\<rparr>))"
    by (simp add: fd_pool_alloc_def fd_pool_alloc_from.simps [of s1 0] fd_pool_alloc_from.simps [of s1 1]
        fd_pool_alloc_from.simps [of s1 2] fd_pool_alloc_from.simps [of s1 3] e file_zero_def del: One_nat_def)
  then have a1: "fd_pool_alloc_pipe s1 PipeReadOps 0 O_RDONLY = (3, s2)"
    using len by (simp add: fd_pool_alloc_pipe_def s2_def pipe_file_def file_zero_def)
  have "fd_pool s2 ! 3 = pipe_file PipeReadOps 0 O_RDONLY" "d \<noteq> 3 \<Longrightarrow> fd_pool s2 ! d = fd_pool s1 ! d" for d
    using len by (simp_all add: s2_def)
  then have "fd_pool_alloc s2 = Some (4, fd_upd s2 4 (\<lambda>_. file_zero\<lparr>f_refcnt := 1\<rparr>))"
    by (simp add: fd_pool_alloc_def fd_pool_alloc_from.simps [of s2 0] fd_pool_alloc_from.simps [of s2 1]
        fd_pool_alloc_from.simps [of s2 2] fd_pool_alloc_from.simps [of s2 3] fd_pool_alloc_from.simps [of s2 4]
        e file_zero_def pipe_file_def del: One_nat_def)
  then have a2: "fd_pool_alloc_pipe s2 PipeWriteOps 0 O_WRONLY = (4, fd_upd s2 4 (\<lambda>_. pipe_file PipeWriteOps 0 O_WRONLY))"
    using len by (simp add: fd_pool_alloc_pipe_def s2_def pipe_file_def file_zero_def)
  have "pipe_alloc (pipe_pool ?s) = Some (0, (pipe_pool ?s)[0 := pipe_fresh])"
    by (simp add: pipe_alloc_def pipe_alloc_from.simps [of _ 0] boot_rest)
  then show ?thesis
    by (simp add: vfs_fd_pipe_create_def s1_def [symmetric] a1 a2) (simp add: s2_def s1_def fd_upd_def)
qed

text \<open>A regular file is opened, a call takes its reference, and the descriptor is closed while the call is
  in flight.\<close>

definition demo_open_env :: open_env where
  "demo_open_env = \<lparr>oe_lookup = (0, 7), oe_scratch = True, oe_lookup_parent = (0, 1), oe_dir = (\<lambda>_. True),
     oe_create = (\<lambda>_. None), oe_rdonly = (\<lambda>_. False), oe_file = (\<lambda>_. True), oe_truncate = (\<lambda>_. None),
     oe_devname = (\<lambda>_. None), oe_console = 0\<rparr>"

definition demo_opened :: fd_state where
  "demo_opened = snd (vfs_fd_open demo_open_env True 2 (fd_boot (\<lambda>_. 0) 0))"

definition demo_in_call :: fd_state where
  "demo_in_call = (case fd_get demo_opened 3 of Some (_, s) \<Rightarrow> s | None \<Rightarrow> demo_opened)"

lemma demo_open_runs:
  "fst (vfs_fd_open demo_open_env True 2 (fd_boot (\<lambda>_. 0) 0)) = 3" "map_option fst (fd_get demo_opened 3) = Some 3"
  by code_simp+

theorem fd_refcount_exact_witness:
  "fd_step\<^sup>*\<^sup>* (fd_boot (\<lambda>_. 0) 0, {#}, {#}) (vfs_fd_release demo_in_call (int 3), {#}, {#3#})
   \<and> unat (f_refcnt (fd_pool (vfs_fd_release demo_in_call (int 3)) ! 3)) = 1
   \<and> f_ops (fd_pool (vfs_fd_release demo_in_call (int 3)) ! 3) \<noteq> None
   \<and> unat (f_refcnt (fd_pool (vfs_fd_release demo_in_call (int 3)) ! 0)) = 1
   \<and> fd_pool (vfs_fd_release demo_in_call (int 3)) ! 5 = file_zero"
proof -
  have o: "vfs_fd_open demo_open_env True 2 (fd_boot (\<lambda>_. 0) 0) = (3, demo_opened)"
    using demo_open_runs(1) by (simp add: demo_opened_def prod_eq_iff)
  have "open_env_ok demo_open_env" by (simp add: open_env_ok_def demo_open_env_def)
  then have 1: "fd_step (fd_boot (\<lambda>_. 0) 0, {#}, {#}) (demo_opened, {#3#}, {#})"
    using fd_open [OF _ o, of "{#}" "{#}"] by simp
  have "fd_get demo_opened 3 = Some (3, demo_in_call)" using demo_open_runs(2) by (auto simp: demo_in_call_def)
  then have 2: "fd_step (demo_opened, {#3#}, {#}) (demo_in_call, {#3#}, {#3#})" using fd_call [of "{#3#}" "{#}"] by simp
  have 3: "fd_step (demo_in_call, {#3#}, {#3#}) (vfs_fd_release demo_in_call (int 3), {#}, {#3#})"
    using fd_release [of 3 "{#3#}" demo_in_call "{#3#}"] by simp
  have st: "fd_step\<^sup>*\<^sup>* (fd_boot (\<lambda>_. 0) 0, {#}, {#}) (vfs_fd_release demo_in_call (int 3), {#}, {#3#})"
    using 1 2 3 by (meson converse_rtranclp_into_rtranclp rtranclp.rtrancl_refl)
  show ?thesis using st fd_refcount_exact [OF st] by simp
qed

text \<open>\<^verbatim>\<open>vfs_fd_getdents64\<close> loses the entries that do not fit: with room for one record, a directory of two
  entries that the file system returns at once is read as one entry, and the next call reports its end.\<close>

lemma getdents64_loses_entries:
  assumes "f_vnode f = Some v" and "f_offset f = 0"
  shows "fd_getdents64_body (\<lambda>_. True) (\<lambda>_. Some (\<lambda>want cookie. (Inr [''a'', ''b''], 0))) id 24 s f = (Inr [''a''], f\<lparr>f_offset := GETDENTS_EOF\<rparr>)
    \<and> fd_getdents64_body (\<lambda>_. True) (\<lambda>_. Some (\<lambda>want cookie. (Inr [''a'', ''b''], 0))) id 24 s (f\<lparr>f_offset := GETDENTS_EOF\<rparr>)
      = (Inr [], f\<lparr>f_offset := GETDENTS_EOF\<rparr>)"
  using assms by (simp add: fd_getdents64_body_def getdents_dir_def dirent64_reclen_def)

text \<open>\<^verbatim>\<open>vfs_fd_pipe_create\<close> is all or nothing. It succeeds exactly when the result pointers are
  valid, a pipe is free and at least two entries are free: then two different, previously free descriptors
  refer to the ends of one fresh, empty pipe with one reader and one writer, and every other entry and pipe
  is as before. Otherwise the error is -EINVAL for a null pointer and -ENOMEM else, the descriptor pool is
  unchanged, and every pipe in use is unchanged and none is taken.\<close>

theorem pipe_create_all_or_nothing:
  assumes "fd_inv s"
  shows "case vfs_fd_pipe_create ptrs s of
      (rc, Some (rd, wd), s') \<Rightarrow> rc = 0 \<and> ptrs \<and> rd \<noteq> wd \<and> nat rd \<in> free_entries s \<and> nat wd \<in> free_entries s
        \<and> 0 \<le> rd \<and> 0 \<le> wd \<and> (\<exists>i \<in> pipe_slots s. pipe_pool s' = (pipe_pool s)[i := pipe_fresh]
            \<and> fd_pool s' = (fd_pool s)[nat rd := pipe_file PipeReadOps i O_RDONLY, nat wd := pipe_file PipeWriteOps i O_WRONLY])
    | (rc, None, s') \<Rightarrow> rc = (if ptrs then - ENOMEM else - EINVAL)
        \<and> (ptrs \<longrightarrow> pipe_slots s = {} \<or> card (free_entries s) < 2)
        \<and> fd_pool s' = fd_pool s \<and> pipe_slots s' = pipe_slots s
        \<and> (\<forall>i. i \<notin> pipe_slots s \<longrightarrow> pipe_pool s' ! i = pipe_pool s ! i)"
proof (cases ptrs)
  case True
  show ?thesis using assms
  proof (cases rule: pipe_create_cases)
    case (ok i rd wd)
    then show ?thesis using True by auto
  next
    case no_pipe
    then show ?thesis using True by simp
  next
    case (no_entry i p)
    have "i < PIPE_MAX" "p_in_use (pipe_pool s ! i) = 0" "length (pipe_pool s) = PIPE_MAX"
      using no_entry(1) fd_invD(2) [OF assms] by (auto simp: pipe_slots_def)
    then have "pipe_slots (s\<lparr>pipe_pool := (pipe_pool s)[i := p]\<rparr>) = pipe_slots s"
      using no_entry(3) by (auto simp: pipe_slots_def nth_list_update)
    moreover have "j \<notin> pipe_slots s \<Longrightarrow> (pipe_pool s)[i := p] ! j = pipe_pool s ! j" for j
      using no_entry(1) by (cases "j = i") auto
    ultimately show ?thesis using no_entry True by simp
  qed
qed (simp add: vfs_fd_pipe_create_def)

theorem pipe_create_all_or_nothing_witness:
  "fd_inv (fd_boot (\<lambda>_. 0) 0) \<and>
   nat 3 \<in> free_entries (fd_boot (\<lambda>_. 0) 0) \<and> nat 4 \<in> free_entries (fd_boot (\<lambda>_. 0) 0)"
proof -
  have inv: "fd_inv (fd_boot (\<lambda>_. 0) 0)" by (rule fd_ownD(1) [OF own_boot])
  then show ?thesis using pipe_create_all_or_nothing [OF inv, of True] pipe_create_boot [of "\<lambda>_. 0" 0] by auto
qed

text \<open>Releasing the last reference of a pipe end.\<close>

lemma release_pipe_end:
  assumes "d < FILE_MAX" "length (fd_pool s) = FILE_MAX" and "fd_pool s ! d = pipe_file ops i flags"
    and "ops = PipeReadOps \<or> ops = PipeWriteOps"
  shows "vfs_fd_release s (int d) = s\<lparr>fd_pool := (fd_pool s)[d := file_zero],
    pipe_pool := (pipe_pool s)[i := pipe_close (pipe_pool s ! i) flags]\<rparr>"
  using assms by (subst release_effect) (auto simp: pipe_file_def file_close_def fd_upd_def)

text \<open>A pipe is returned to the pool by the last close. If both descriptors of a pipe are held
  once, with the access modes they were created with, releasing the two in either order leaves the pipe
  free and both entries zero, and changes nothing else of the two pools.\<close>

theorem pipe_ends_release:
  assumes inv: "fd_inv s" and d: "rd < FILE_MAX" "wd < FILE_MAX" "rd \<noteq> wd"
    and e: "fd_pool s ! rd = pipe_file PipeReadOps i O_RDONLY" "fd_pool s ! wd = pipe_file PipeWriteOps i O_WRONLY"
    and p: "p_readers (pipe_pool s ! i) = 1" "p_writers (pipe_pool s ! i) = 1"
  shows "\<forall>a b. {a, b} = {rd, wd} \<longrightarrow> (let s' = vfs_fd_release (vfs_fd_release s (int a)) (int b) in
      i \<in> pipe_slots s' \<and> fd_pool s' = (fd_pool s)[rd := file_zero, wd := file_zero]
      \<and> (\<forall>j. j \<noteq> i \<longrightarrow> pipe_pool s' ! j = pipe_pool s ! j))"
proof (intro allI impI)
  fix a b assume ab: "{a, b} = {rd, wd}"
  note len = fd_invD(1,2) [OF inv]
  have i: "i < PIPE_MAX" using fd_invD(3) [OF inv d(1)] e(1) by (simp add: file_ok_def pipe_file_def)
  have 1: "vfs_fd_release (vfs_fd_release s (int rd)) (int wd) = s\<lparr>fd_pool := (fd_pool s)[rd := file_zero, wd := file_zero],
      pipe_pool := (pipe_pool s)[i := pipe_close (pipe_close (pipe_pool s ! i) O_RDONLY) O_WRONLY]\<rparr>"
    using d e len i by (simp add: release_pipe_end)
  have 2: "vfs_fd_release (vfs_fd_release s (int wd)) (int rd) = s\<lparr>fd_pool := (fd_pool s)[wd := file_zero, rd := file_zero],
      pipe_pool := (pipe_pool s)[i := pipe_close (pipe_close (pipe_pool s ! i) O_WRONLY) O_RDONLY]\<rparr>"
    using d e len i by (simp add: release_pipe_end)
  have c: "p_in_use (pipe_close (pipe_close (pipe_pool s ! i) O_RDONLY) O_WRONLY) = 0"
      "p_in_use (pipe_close (pipe_close (pipe_pool s ! i) O_WRONLY) O_RDONLY) = 0"
    using p by (simp_all add: pipe_close_def pipe_free_def)
  from ab have "a = rd \<and> b = wd \<or> a = wd \<and> b = rd" by (auto simp: doubleton_eq_iff)
  then show "let s' = vfs_fd_release (vfs_fd_release s (int a)) (int b) in
      i \<in> pipe_slots s' \<and> fd_pool s' = (fd_pool s)[rd := file_zero, wd := file_zero]
      \<and> (\<forall>j. j \<noteq> i \<longrightarrow> pipe_pool s' ! j = pipe_pool s ! j)"
    using i len c list_update_swap [OF d(3), of "fd_pool s" file_zero file_zero]
    by (auto simp: 1 2 Let_def pipe_slots_def)
qed

theorem pipe_ends_release_witness:
  "case vfs_fd_pipe_create True (fd_boot (\<lambda>_. 0) 0) of (rc, descs, s) \<Rightarrow>
     descs = Some (3, 4) \<and> 0 \<in> pipe_slots (vfs_fd_release (vfs_fd_release s (int 4)) (int 3))"
proof -
  obtain s where c: "vfs_fd_pipe_create True (fd_boot (\<lambda>_. 0) 0) = (0, Some (3, 4), s)" and
    s: "s = (fd_boot (\<lambda>_. 0) 0)\<lparr>pipe_pool := (pipe_pool (fd_boot (\<lambda>_. 0) 0))[0 := pipe_fresh],
      fd_pool := (fd_pool (fd_boot (\<lambda>_. 0) 0))[3 := pipe_file PipeReadOps 0 O_RDONLY, 4 := pipe_file PipeWriteOps 0 O_WRONLY]\<rparr>"
    using pipe_create_boot [of "\<lambda>_. 0" 0] by blast
  have inv: "fd_inv s" using own_pipe_create [OF own_boot _ c] by (auto dest: fd_ownD(1))
  have "fd_pool s ! 3 = pipe_file PipeReadOps 0 O_RDONLY" "fd_pool s ! 4 = pipe_file PipeWriteOps 0 O_WRONLY"
    "p_readers (pipe_pool s ! 0) = 1" "p_writers (pipe_pool s ! 0) = 1"
    by (simp_all add: s boot_rest pipe_fresh_def)
  from pipe_ends_release [OF inv _ _ _ this] have "0 \<in> pipe_slots (vfs_fd_release (vfs_fd_release s (int 4)) (int 3))"
    by (simp add: Let_def doubleton_eq_iff)
  then show ?thesis by (simp add: c)
qed

text \<open>A pipe leaks when \<^verbatim>\<open>F_SETFL\<close> adds a flag to its read end. The close function tells the read
  end by flags equal to O_RDONLY, so after \<^verbatim>\<open>fcntl(F_SETFL, O_NONBLOCK)\<close> on the read end of a new
  pipe, releasing both descriptors takes two writers off: the pipe stays in use with one reader and no
  descriptor, and is never handed out again.\<close>

theorem pipe_nonblock_leak:
  assumes inv: "fd_inv s" and c: "vfs_fd_pipe_create True s = (0, Some (rd, wd), s1)"
  shows "\<exists>i \<in> pipe_slots s. let s2 = snd (vfs_fd_fcntl s1 rd 4 (int (unat O_NONBLOCK)));
      s3 = vfs_fd_release (vfs_fd_release s2 rd) wd
    in fd_pool s3 = fd_pool s \<and> pipe_slots s3 = pipe_slots s - {i} \<and> p_readers (pipe_pool s3 ! i) = 1"
  using inv
proof (cases rule: pipe_create_cases)
  case (ok i r w)
  have e: "rd = int r" "wd = int w" and s1: "s1 = s\<lparr>pipe_pool := (pipe_pool s)[i := pipe_fresh],
      fd_pool := (fd_pool s)[r := pipe_file PipeReadOps i O_RDONLY, w := pipe_file PipeWriteOps i O_WRONLY]\<rparr>"
    using ok(5) c by auto
  have lt: "r < FILE_MAX" "w < FILE_MAX" "i < PIPE_MAX" and z: "fd_pool s ! r = file_zero" "fd_pool s ! w = file_zero"
    using ok(1-3) free_entry_zero [OF inv] by (auto simp: free_entries_def pipe_slots_def)
  note len = fd_invD(1,2) [OF inv]
  have sw: "(fd_pool s)[r := a, w := b, r := c] = (fd_pool s)[r := c, w := b]" for a b c
    using ok(4) by (metis list_update_overwrite list_update_swap)
  have bk: "(fd_pool s)[r := file_zero, w := file_zero] = fd_pool s"
    using z by (metis list_update_id)
  define s2 where "s2 = s1\<lparr>fd_pool := (fd_pool s)[r := pipe_file PipeReadOps i O_NONBLOCK, w := pipe_file PipeWriteOps i O_WRONLY]\<rparr>"
  have "snd (vfs_fd_fcntl s1 rd 4 (int (unat O_NONBLOCK))) = s2"
    using lt len ok(4) unfolding e s1 s2_def
    by (simp add: vfs_fd_fcntl_def fd_fcntl_body_def with_fd_def fd_get_def pipe_file_def Let_def fd_upd_def vfs_fd_release_def
        sw)
  moreover have "vfs_fd_release (vfs_fd_release s2 rd) wd = s\<lparr>fd_pool := fd_pool s,
      pipe_pool := (pipe_pool s)[i := pipe_close (pipe_close pipe_fresh O_NONBLOCK) O_WRONLY]\<rparr>"
    using lt len ok(4) z unfolding e s1 s2_def
    by (simp add: release_pipe_end sw bk)
  moreover have "p_readers (pipe_close (pipe_close pipe_fresh O_NONBLOCK) O_WRONLY) = 1"
      "p_in_use (pipe_close (pipe_close pipe_fresh O_NONBLOCK) O_WRONLY) = 1"
    by (simp_all add: pipe_close_def pipe_fresh_def pipe_free_def)
  ultimately show ?thesis using ok(1) lt len
    by (intro bexI [of _ i]) (auto simp: pipe_slots_def nth_list_update)
qed (use c in auto)

theorem pipe_nonblock_leak_witness:
  "fd_inv (fd_boot (\<lambda>_. 0) 0) \<and> (\<exists>s1. vfs_fd_pipe_create True (fd_boot (\<lambda>_. 0) 0) = (0, Some (3, 4), s1) \<and>
     pipe_slots (vfs_fd_release (vfs_fd_release (snd (vfs_fd_fcntl s1 3 4 (int (unat O_NONBLOCK)))) 3) 4)
       \<noteq> pipe_slots (fd_boot (\<lambda>_. 0) 0))"
proof -
  have inv: "fd_inv (fd_boot (\<lambda>_. 0) 0)" by (rule fd_ownD(1) [OF own_boot])
  obtain s1 where c: "vfs_fd_pipe_create True (fd_boot (\<lambda>_. 0) 0) = (0, Some (3, 4), s1)"
    using pipe_create_boot by blast
  from pipe_nonblock_leak [OF inv c] inv c show ?thesis by (auto simp: Let_def)
qed

end
