(* ===== verification/Sched.thy ===== *)
theory Sched
  imports Prelude
begin

text \<open>
  The process table and the round-robin scheduler, \<^verbatim>\<open>src/kernel/core/proc/proc.c\<close> (slot
  allocation) and \<^verbatim>\<open>src/kernel/core/proc/sched.c\<close>. A process is its index in the table; a
  pointer that may be null is an option. Wait channels are addresses, with None for the null channel.
  The saved registers, the memory image and most of the tracing state of a PCB are not part of the record; the
  mutex links of \<^verbatim>\<open>kmutex.c\<close> are fields of the state because they thread through the PCBs. The
  number of the executing core is an argument. Every function holds \<^verbatim>\<open>SPIN_PROC\<close> from its first
  access of the table to its last.
\<close>

subsection \<open>State\<close>

datatype proc_state = PROC_FREE | PROC_RUNNABLE | PROC_SLEEPING | PROC_BLOCKED | PROC_ZOMBIE
  | PROC_TRACED_STOP | PROC_REAPING

record pcb =
  pid :: int
  ppid :: int
  pgid :: int
  sid :: int
  p_state :: proc_state
  fd_map :: "int list"
  ticks_remaining :: u32
  sleep_until :: u32
  running_on_core :: int
  is_idle :: bool
  exit_status :: int
  wait_channel :: "nat option"
  kmutex_held :: "nat option"
  sig_handlers :: "u32 list"
  sig_restorers :: "u32 list"
  sig_pending :: u32
  sig_blocked :: u32
  utime :: u32
  stime :: u32
  start_time :: u32
  umask_val :: u32
  tracer_pid :: int
  trace_wait_pending :: bool
  vfork_parent :: "nat option"

record kstate =
  proc_table :: "pcb list"
  current_core :: "nat option list"
  next_pid :: int
  tick_count :: u32
  switch_pending :: bool
  cpu_user_ticks :: "u32 list"
  cpu_system_ticks :: "u32 list"
  cpu_idle_ticks :: "u32 list"
  mtx_owner :: "nat \<Rightarrow> nat option"
  mtx_next :: "nat \<Rightarrow> nat option"

abbreviation PROC_MAX :: nat where "PROC_MAX \<equiv> 8"
abbreviation FD_MAX :: nat where "FD_MAX \<equiv> 16"
abbreviation NSIG :: nat where "NSIG \<equiv> 32"
abbreviation PROC_DEFAULT_TICKS :: u32 where "PROC_DEFAULT_TICKS \<equiv> 10"

definition proc_state_is_live :: "proc_state \<Rightarrow> bool" where
  "proc_state_is_live st \<longleftrightarrow> st \<noteq> PROC_FREE \<and> st \<noteq> PROC_REAPING"

text \<open>A PCB after \<^verbatim>\<open>memset\<close>.\<close>

definition pcb_zero :: pcb where
  "pcb_zero = \<lparr>pid = 0, ppid = 0, pgid = 0, sid = 0, p_state = PROC_FREE, fd_map = replicate FD_MAX 0, ticks_remaining = 0,
     sleep_until = 0, running_on_core = 0, is_idle = False, exit_status = 0, wait_channel = None,
     kmutex_held = None, sig_handlers = replicate NSIG 0, sig_restorers = replicate NSIG 0, sig_pending = 0,
     sig_blocked = 0, utime = 0, stime = 0, start_time = 0, umask_val = 0, tracer_pid = 0, trace_wait_pending = False,
     vfork_parent = None\<rparr>"

abbreviation proc :: "kstate \<Rightarrow> nat \<Rightarrow> pcb" where
  "proc s i \<equiv> proc_table s ! i"

definition proc_upd :: "nat \<Rightarrow> (pcb \<Rightarrow> pcb) \<Rightarrow> kstate \<Rightarrow> kstate" where
  "proc_upd i g s = s\<lparr>proc_table := (proc_table s)[i := g (proc s i)]\<rparr>"

text \<open>\<^verbatim>\<open>current\<close>, where it is not null.\<close>

definition cur :: "kstate \<Rightarrow> nat \<Rightarrow> nat" where
  "cur s c = (case current_core s ! c of Some i \<Rightarrow> i | None \<Rightarrow> 0)"

definition arch_yield :: "kstate \<Rightarrow> kstate" where
  "arch_yield s = s\<lparr>switch_pending := True\<rparr>"

subsection \<open>Process slots\<close>

definition proc_init :: "kstate \<Rightarrow> kstate" where
  "proc_init s = s\<lparr>proc_table := (replicate PROC_MAX pcb_zero)
       [0 := pcb_zero\<lparr>p_state := PROC_RUNNABLE, ticks_remaining := PROC_DEFAULT_TICKS, is_idle := True\<rparr>],
     current_core := (current_core s)[0 := Some 0]\<rparr>"

definition sched_get_ticks :: "kstate \<Rightarrow> u32" where
  "sched_get_ticks s = tick_count s"

definition proc_alloc :: "kstate \<Rightarrow> nat option \<times> kstate" where
  "proc_alloc s =
     (case find (\<lambda>i. p_state (proc s i) = PROC_FREE) [1..<PROC_MAX] of
        None \<Rightarrow> (None, s)
      | Some i \<Rightarrow> (Some i, proc_upd i (\<lambda>_. pcb_zero\<lparr>pid := next_pid s, umask_val := 0x12, running_on_core := - 1,
            start_time := sched_get_ticks s, fd_map := replicate FD_MAX (- 1)\<rparr>) (s\<lparr>next_pid := next_pid s + 1\<rparr>)))"

subsection \<open>Choosing the next process\<close>

definition sched_next :: "nat \<Rightarrow> kstate \<Rightarrow> nat \<times> kstate" where
  "sched_next c s =
     (let current = cur s c;
          result = (case find (\<lambda>i. \<not> is_idle (proc s ((current + i) mod PROC_MAX))
                        \<and> p_state (proc s ((current + i) mod PROC_MAX)) = PROC_RUNNABLE
                        \<and> running_on_core (proc s ((current + i) mod PROC_MAX)) < 0) [1..<PROC_MAX] of
                      Some i \<Rightarrow> (current + i) mod PROC_MAX | None \<Rightarrow> current);
          result = (if result = current \<and> p_state (proc s current) \<noteq> PROC_RUNNABLE
                    then case find (\<lambda>i. is_idle (proc s i) \<and> p_state (proc s i) = PROC_RUNNABLE
                           \<and> running_on_core (proc s i) < 0) [0..<PROC_MAX] of
                           Some i \<Rightarrow> i | None \<Rightarrow> result
                    else result);
          s = (if result \<noteq> current
               then proc_upd result (\<lambda>p. p\<lparr>running_on_core := int c\<rparr>)
                      (proc_upd current (\<lambda>p. p\<lparr>running_on_core := - 1\<rparr>) s)
               else s)
      in (result, s))"

text \<open>The switch made by the trap exit of a core, where \<^verbatim>\<open>sched_next\<close> is called: the saved
  stack pointers change hands and the result becomes the core's current process.\<close>

definition ctx_switch :: "nat \<Rightarrow> kstate \<Rightarrow> kstate" where
  "ctx_switch c s = (let (next, s) = sched_next c s in s\<lparr>current_core := (current_core s)[c := Some next]\<rparr>)"

text \<open>The start of the second core: an idle process of its own; the argument tells whether its stack
  could be allocated. Without a slot or a stack the core halts.\<close>

definition core1_sched_entry :: "bool \<Rightarrow> kstate \<Rightarrow> kstate" where
  "core1_sched_entry stack_ok s =
     (case proc_alloc s of (None, s) \<Rightarrow> s
      | (Some i, s) \<Rightarrow>
          if \<not> stack_ok then s
          else (proc_upd i (\<lambda>p. p\<lparr>p_state := PROC_RUNNABLE, ticks_remaining := PROC_DEFAULT_TICKS,
                  running_on_core := 1, is_idle := True\<rparr>) s)\<lparr>current_core := (current_core s)[1 := Some i]\<rparr>)"

subsection \<open>Timer\<close>

text \<open>The body of the wake-up loop of \<^verbatim>\<open>sched_tick\<close>; the cast to \<^verbatim>\<open>int32_t\<close> is \<^const>\<open>sint\<close>.\<close>

definition tick_wake :: "u32 \<Rightarrow> pcb \<Rightarrow> pcb" where
  "tick_wake ticks p =
     (let p = (if p_state p = PROC_SLEEPING \<and> 0 \<le> sint (ticks - sleep_until p)
               then p\<lparr>p_state := PROC_RUNNABLE\<rparr> else p)
      in if p_state p = PROC_BLOCKED \<and> sleep_until p \<noteq> 0 \<and> 0 \<le> sint (ticks - sleep_until p)
         then p\<lparr>p_state := PROC_RUNNABLE, wait_channel := None\<rparr> else p)"

definition sched_tick :: "nat \<Rightarrow> u32 \<Rightarrow> kstate \<Rightarrow> kstate" where
  "sched_tick c ticks s =
     (let s = (if c = 0 then s\<lparr>proc_table := map (tick_wake ticks) (proc_table s)\<rparr> else s)
      in case current_core s ! c of None \<Rightarrow> s
         | Some i \<Rightarrow>
             let s = proc_upd i (\<lambda>p. p\<lparr>ticks_remaining := ticks_remaining p - 1\<rparr>) s
             in if ticks_remaining (proc s i) = 0
                then arch_yield (proc_upd i (\<lambda>p. p\<lparr>ticks_remaining := PROC_DEFAULT_TICKS\<rparr>) s)
                else s)"

definition sched_timer_tick :: "nat \<Rightarrow> bool \<Rightarrow> kstate \<Rightarrow> kstate" where
  "sched_timer_tick c from_user s =
     (let acct_proc = (case current_core s ! c of None \<Rightarrow> None
            | Some i \<Rightarrow> if p_state (proc s i) = PROC_RUNNABLE \<and> \<not> is_idle (proc s i) then Some i else None);
          (ticks, s) = (if c = 0 then (tick_count s + 1, s\<lparr>tick_count := tick_count s + 1\<rparr>) else (0, s));
          s = (case acct_proc of
                 None \<Rightarrow> s\<lparr>cpu_idle_ticks := (cpu_idle_ticks s)[c := cpu_idle_ticks s ! c + 1]\<rparr>
               | Some i \<Rightarrow>
                   if from_user
                   then (proc_upd i (\<lambda>p. p\<lparr>utime := utime p + 1\<rparr>) s)
                          \<lparr>cpu_user_ticks := (cpu_user_ticks s)[c := cpu_user_ticks s ! c + 1]\<rparr>
                   else (proc_upd i (\<lambda>p. p\<lparr>stime := stime p + 1\<rparr>) s)
                          \<lparr>cpu_system_ticks := (cpu_system_ticks s)[c := cpu_system_ticks s ! c + 1]\<rparr>)
      in sched_tick c ticks s)"

subsection \<open>Sleeping and waking\<close>

definition sched_block_current :: "nat \<Rightarrow> nat option \<Rightarrow> kstate \<Rightarrow> kstate" where
  "sched_block_current c channel s =
     proc_upd (cur s c) (\<lambda>p. p\<lparr>wait_channel := channel, p_state := PROC_BLOCKED\<rparr>) s"

definition wake_on :: "nat option \<Rightarrow> pcb \<Rightarrow> pcb" where
  "wake_on channel p =
     (if p_state p = PROC_BLOCKED \<and> wait_channel p = channel
      then p\<lparr>p_state := PROC_RUNNABLE, wait_channel := None\<rparr> else p)"

definition sched_wakeup :: "nat option \<Rightarrow> kstate \<Rightarrow> kstate" where
  "sched_wakeup channel s =
     (let woke = list_ex (\<lambda>p. p_state p = PROC_BLOCKED \<and> wait_channel p = channel) (proc_table s);
          s = s\<lparr>proc_table := map (wake_on channel) (proc_table s)\<rparr>
      in if woke then arch_yield s else s)"

text \<open>A process a core may switch to, and the places of the running processes: the current process of
  a core is a slot of the table marked with the core's number.\<close>

definition candidate :: "kstate \<Rightarrow> nat \<Rightarrow> bool" where
  "candidate s i \<longleftrightarrow> \<not> is_idle (proc s i) \<and> p_state (proc s i) = PROC_RUNNABLE \<and> running_on_core (proc s i) < 0"

definition idle_candidate :: "kstate \<Rightarrow> nat \<Rightarrow> bool" where
  "idle_candidate s i \<longleftrightarrow> is_idle (proc s i) \<and> p_state (proc s i) = PROC_RUNNABLE \<and> running_on_core (proc s i) < 0"

definition sched_inv :: "kstate \<Rightarrow> bool" where
  "sched_inv s \<longleftrightarrow> length (proc_table s) = PROC_MAX \<and> length (current_core s) = 2
     \<and> (\<forall>c i. c < 2 \<longrightarrow> current_core s ! c = Some i \<longrightarrow> i < PROC_MAX \<and> running_on_core (proc s i) = int c
         \<and> p_state (proc s i) \<noteq> PROC_FREE)"

text \<open>How far after \<open>a\<close> the slot \<open>i\<close> comes in the cyclic order of the table.\<close>

definition slot_dist :: "nat \<Rightarrow> nat \<Rightarrow> nat" where
  "slot_dist a i = (i + PROC_MAX - a) mod PROC_MAX"

definition same_places :: "kstate \<Rightarrow> kstate \<Rightarrow> bool" where
  "same_places s s' \<longleftrightarrow> length (proc_table s') = length (proc_table s) \<and> current_core s' = current_core s
     \<and> (\<forall>i < length (proc_table s). running_on_core (proc s' i) = running_on_core (proc s i)
          \<and> (p_state (proc s i) \<noteq> PROC_FREE \<longrightarrow> p_state (proc s' i) \<noteq> PROC_FREE))"

definition sched_boot :: kstate where
  "sched_boot = proc_init \<lparr>proc_table = [], current_core = [None, None], next_pid = 1, tick_count = 0,
     switch_pending = False, cpu_user_ticks = [0, 0], cpu_system_ticks = [0, 0], cpu_idle_ticks = [0, 0],
     mtx_owner = (\<lambda>_. None), mtx_next = (\<lambda>_. None)\<rparr>"

text \<open>The boot state with two more runnable processes; used by the witnesses.\<close>

definition demo_ready :: pcb where
  "demo_ready = pcb_zero\<lparr>p_state := PROC_RUNNABLE, running_on_core := - 1\<rparr>"

definition demo_sched :: kstate where
  "demo_sched = sched_boot\<lparr>proc_table := (proc_table sched_boot)[1 := demo_ready, 2 := demo_ready]\<rparr>"

lemma slot_dist_eq: "a < PROC_MAX \<Longrightarrow> i < PROC_MAX \<Longrightarrow> slot_dist a i = (if a \<le> i then i - a else i + PROC_MAX - a)"
  by (auto simp: slot_dist_def le_mod_geq)

lemma wrap_slot: "a < PROC_MAX \<Longrightarrow> k < PROC_MAX \<Longrightarrow>
  (a + k) mod PROC_MAX = (if a + k < PROC_MAX then a + k else a + k - PROC_MAX)"
  by (simp add: le_mod_geq)

lemma slot_dist_range: "a < PROC_MAX \<Longrightarrow> i < PROC_MAX \<Longrightarrow> i \<noteq> a \<Longrightarrow> 1 \<le> slot_dist a i \<and> slot_dist a i < PROC_MAX"
  unfolding slot_dist_eq by auto

lemma slot_dist_add: "a < PROC_MAX \<Longrightarrow> i < PROC_MAX \<Longrightarrow> (a + slot_dist a i) mod PROC_MAX = i"
  by (simp add: slot_dist_eq le_mod_geq)

lemma slot_dist_of: "a < PROC_MAX \<Longrightarrow> k < PROC_MAX \<Longrightarrow> slot_dist a ((a + k) mod PROC_MAX) = k"
  unfolding wrap_slot by (subst slot_dist_eq) auto

lemma slot_dist_step:
  assumes "a < PROC_MAX" "b < PROC_MAX" "i < PROC_MAX" "b \<noteq> a" "slot_dist a b < slot_dist a i"
  shows "slot_dist b i < slot_dist a i"
  using assms by (auto simp: slot_dist_eq split: if_splits)

lemma find_upt_Some: "find P [m..<n] = Some k \<longleftrightarrow> m \<le> k \<and> k < n \<and> P k \<and> (\<forall>j. m \<le> j \<and> j < k \<longrightarrow> \<not> P j)"
proof
  assume "find P [m..<n] = Some k"
  then obtain i where i: "i < n - m" "P (m + i)" "k = m + i" "\<forall>j<i. \<not> P (m + j)"
    by (auto simp: find_Some_iff)
  have "\<not> P j" if "m \<le> j" "j < k" for j
    using i(3,4) that by (metis add_diff_inverse_nat less_diff_conv2 not_less add.commute add_less_cancel_left)
  with i show "m \<le> k \<and> k < n \<and> P k \<and> (\<forall>j. m \<le> j \<and> j < k \<longrightarrow> \<not> P j)" by auto
next
  assume k: "m \<le> k \<and> k < n \<and> P k \<and> (\<forall>j. m \<le> j \<and> j < k \<longrightarrow> \<not> P j)"
  then show "find P [m..<n] = Some k"
    unfolding find_Some_iff by (intro exI [of _ "k - m"]) auto
qed

lemma find_upt_None: "find P [m..<n] = None \<longleftrightarrow> (\<forall>j. m \<le> j \<and> j < n \<longrightarrow> \<not> P j)"
  by (auto simp: find_None_iff)

lemma proc_upd_simps [simp]:
  "length (proc_table (proc_upd i g s)) = length (proc_table s)" "current_core (proc_upd i g s) = current_core s"
  "mtx_owner (proc_upd i g s) = mtx_owner s" "mtx_next (proc_upd i g s) = mtx_next s"
  "tick_count (proc_upd i g s) = tick_count s" "cur (proc_upd i g s) c = cur s c"
  "i < length (proc_table s) \<Longrightarrow> proc (proc_upd i g s) j = (if j = i then g (proc s i) else proc s j)"
  by (simp_all add: proc_upd_def nth_list_update cur_def)

text \<open>The choice of \<^verbatim>\<open>sched_next\<close>, case by case.\<close>

lemma sched_next_cases:
  assumes inv: "sched_inv s" and c: "c < 2" "current_core s ! c = Some i"
  obtains (round_robin) r where "r < PROC_MAX" "r \<noteq> i" "candidate s r"
      "\<forall>j < PROC_MAX. j \<noteq> i \<and> slot_dist i j < slot_dist i r \<longrightarrow> \<not> candidate s j"
      "sched_next c s = (r, proc_upd r (\<lambda>p. p\<lparr>running_on_core := int c\<rparr>) (proc_upd i (\<lambda>p. p\<lparr>running_on_core := - 1\<rparr>) s))"
  | (idle) r where "r < PROC_MAX" "r \<noteq> i" "idle_candidate s r" "p_state (proc s i) \<noteq> PROC_RUNNABLE"
      "\<forall>j < PROC_MAX. j \<noteq> i \<longrightarrow> \<not> candidate s j"
      "sched_next c s = (r, proc_upd r (\<lambda>p. p\<lparr>running_on_core := int c\<rparr>) (proc_upd i (\<lambda>p. p\<lparr>running_on_core := - 1\<rparr>) s))"
  | (keep) "sched_next c s = (i, s)" "\<forall>j < PROC_MAX. j \<noteq> i \<longrightarrow> \<not> candidate s j"
      "p_state (proc s i) \<noteq> PROC_RUNNABLE \<Longrightarrow> \<forall>j < PROC_MAX. \<not> idle_candidate s j"
proof -
  have i: "i < PROC_MAX" "running_on_core (proc s i) = int c" and cur: "cur s c = i"
    using inv c by (auto simp: sched_inv_def cur_def)
  let ?P = "\<lambda>k. \<not> is_idle (proc s ((i + k) mod PROC_MAX)) \<and> p_state (proc s ((i + k) mod PROC_MAX)) = PROC_RUNNABLE
    \<and> running_on_core (proc s ((i + k) mod PROC_MAX)) < 0"
  have P: "?P k \<longleftrightarrow> candidate s ((i + k) mod PROC_MAX)" for k by (simp add: candidate_def)
  show thesis
  proof (cases "find ?P [1..<PROC_MAX]")
    case (Some k)
    then have k: "1 \<le> k" "k < PROC_MAX" "candidate s ((i + k) mod PROC_MAX)"
      and first: "\<And>j. 1 \<le> j \<Longrightarrow> j < k \<Longrightarrow> \<not> candidate s ((i + j) mod PROC_MAX)"
      unfolding find_upt_Some P by auto
    define r where "r = (i + k) mod PROC_MAX"
    have ne: "r \<noteq> i" unfolding r_def wrap_slot [OF i(1) k(2)] using k(1,2) by auto
    show thesis
    proof (rule round_robin [of r])
      show "\<forall>j < PROC_MAX. j \<noteq> i \<and> slot_dist i j < slot_dist i r \<longrightarrow> \<not> candidate s j"
        using first slot_dist_range [OF i(1)] slot_dist_add [OF i(1)] slot_dist_of [OF i(1) k(2)]
        by (metis r_def)
    qed (use k ne Some in \<open>simp_all add: sched_next_def cur r_def [symmetric] Let_def\<close>, simp add: r_def)
  next
    case None
    then have "\<And>k. 1 \<le> k \<Longrightarrow> k < PROC_MAX \<Longrightarrow> \<not> candidate s ((i + k) mod PROC_MAX)"
      unfolding find_upt_None P by auto
    then have no: "\<forall>j < PROC_MAX. j \<noteq> i \<longrightarrow> \<not> candidate s j"
      using slot_dist_range [OF i(1)] slot_dist_add [OF i(1)] by metis
    let ?Q = "\<lambda>i. is_idle (proc s i) \<and> p_state (proc s i) = PROC_RUNNABLE \<and> running_on_core (proc s i) < 0"
    have Q: "?Q k \<longleftrightarrow> idle_candidate s k" for k by (simp add: idle_candidate_def)
    show thesis
    proof (cases "p_state (proc s i) = PROC_RUNNABLE")
      case True
      then show thesis using None no by (intro keep) (simp_all add: sched_next_def cur)
    next
      case nrun: False
      show thesis
      proof (cases "find ?Q [0..<PROC_MAX]")
        case (Some r)
        then have "r < PROC_MAX" "idle_candidate s r" unfolding find_upt_Some Q by auto
        moreover from this have "r \<noteq> i" using i(2) by (auto simp: idle_candidate_def)
        ultimately show thesis using None no nrun Some
          by (intro idle [of r]) (simp_all add: sched_next_def cur Let_def)
      next
        case none: None
        then have "\<forall>j < PROC_MAX. \<not> idle_candidate s j" unfolding find_upt_None Q by auto
        then show thesis using None no nrun none by (intro keep) (simp_all add: sched_next_def cur)
      qed
    qed
  qed
qed

lemma sched_invD:
  assumes "sched_inv s"
  shows "length (proc_table s) = PROC_MAX" "length (current_core s) = 2"
    "c < 2 \<Longrightarrow> current_core s ! c = Some i \<Longrightarrow> i < PROC_MAX"
    "c < 2 \<Longrightarrow> current_core s ! c = Some i \<Longrightarrow> running_on_core (proc s i) = int c"
    "c < 2 \<Longrightarrow> current_core s ! c = Some i \<Longrightarrow> p_state (proc s i) \<noteq> PROC_FREE"
  using assms by (auto simp: sched_inv_def)

text \<open>The current processes of the two cores are different.\<close>

lemma sched_inv_distinct:
  "sched_inv s \<Longrightarrow> c < 2 \<Longrightarrow> d < 2 \<Longrightarrow> current_core s ! c = Some i \<Longrightarrow> current_core s ! d = Some i \<Longrightarrow> c = d"
  using sched_invD(4) [of s c i] sched_invD(4) [of s d i] by simp

text \<open>A change of the table that leaves slots in place.\<close>

lemma sched_inv_table:
  assumes inv: "sched_inv s" and "length (proc_table s') = PROC_MAX" "current_core s' = current_core s"
    and "\<And>i c. c < 2 \<Longrightarrow> current_core s ! c = Some i \<Longrightarrow> i < PROC_MAX \<Longrightarrow>
       running_on_core (proc s' i) = running_on_core (proc s i)
       \<and> (p_state (proc s i) \<noteq> PROC_FREE \<longrightarrow> p_state (proc s' i) \<noteq> PROC_FREE)"
  shows "sched_inv s'"
  using assms sched_invD [OF inv] by (simp add: sched_inv_def)

lemma tick_wake_simps [simp]:
  "running_on_core (tick_wake t p) = running_on_core p" "p_state (tick_wake t p) = PROC_FREE \<longleftrightarrow> p_state p = PROC_FREE"
  by (simp_all add: tick_wake_def Let_def)

lemma wake_on_simps [simp]:
  "running_on_core (wake_on ch p) = running_on_core p" "p_state (wake_on ch p) = PROC_FREE \<longleftrightarrow> p_state p = PROC_FREE"
  by (simp_all add: wake_on_def)

lemma arch_yield_simps [simp]:
  "proc_table (arch_yield s) = proc_table s" "current_core (arch_yield s) = current_core s"
  "mtx_owner (arch_yield s) = mtx_owner s" "mtx_next (arch_yield s) = mtx_next s"
  by (simp_all add: arch_yield_def)

lemma same_places_inv: "same_places s s' \<Longrightarrow> sched_inv s \<Longrightarrow> sched_inv s'"
  by (rule sched_inv_table [of s]) (auto simp: same_places_def sched_invD(1))

lemma same_places_trans: "same_places s t \<Longrightarrow> same_places t u \<Longrightarrow> same_places s u"
  by (simp add: same_places_def)

lemma same_places_refl [simp]: "same_places s s"
  by (simp add: same_places_def)

lemma same_places_upd [intro]:
  "(\<And>p. running_on_core (g p) = running_on_core p) \<Longrightarrow> (\<And>p. p_state p \<noteq> PROC_FREE \<Longrightarrow> p_state (g p) \<noteq> PROC_FREE) \<Longrightarrow>
   same_places s (proc_upd i g s)"
  by (cases "i < length (proc_table s)") (auto simp: same_places_def proc_upd_def nth_list_update)

lemma same_places_map [intro]:
  "(\<And>p. running_on_core (g p) = running_on_core p) \<Longrightarrow> (\<And>p. p_state p \<noteq> PROC_FREE \<Longrightarrow> p_state (g p) \<noteq> PROC_FREE) \<Longrightarrow>
   same_places s (s\<lparr>proc_table := map g (proc_table s)\<rparr>)"
  by (auto simp: same_places_def)

lemma same_places_fields [simp]:
  "same_places s (s'\<lparr>tick_count := t\<rparr>) = same_places s s'" "same_places s (arch_yield s') = same_places s s'"
  "same_places s (s'\<lparr>cpu_idle_ticks := a\<rparr>) = same_places s s'" "same_places s (s'\<lparr>cpu_user_ticks := a\<rparr>) = same_places s s'"
  "same_places s (s'\<lparr>cpu_system_ticks := a\<rparr>) = same_places s s'" "same_places s (s'\<lparr>mtx_owner := mo\<rparr>) = same_places s s'"
  "same_places s (s'\<lparr>mtx_next := mo\<rparr>) = same_places s s'"
  by (simp_all add: same_places_def)

lemma same_places_tick: "same_places s (sched_tick c ticks s)"
proof -
  define s1 where "s1 = (if c = 0 then s\<lparr>proc_table := map (tick_wake ticks) (proc_table s)\<rparr> else s)"
  have 1: "same_places s s1" unfolding s1_def by auto
  have 2: "same_places s1 (proc_upd i (\<lambda>p. p\<lparr>ticks_remaining := ticks_remaining p - 1\<rparr>) s1)"
    and 3: "same_places t (proc_upd i (\<lambda>p. p\<lparr>ticks_remaining := PROC_DEFAULT_TICKS\<rparr>) t)" for i t by auto
  show ?thesis
    using same_places_trans [OF 1 2] same_places_trans [OF same_places_trans [OF 1 2] 3] 1
    by (simp add: sched_tick_def s1_def [symmetric] Let_def split: option.splits)
qed

lemma same_places_timer: "same_places s (sched_timer_tick c from_user s)"
proof -
  have "same_places s s1 \<Longrightarrow> same_places s (sched_tick d t s1)" for d t s1
    using same_places_tick same_places_trans by blast
  moreover have "same_places s (proc_upd i (\<lambda>p. p\<lparr>utime := utime p + 1\<rparr>) s)"
    "same_places s (proc_upd i (\<lambda>p. p\<lparr>stime := stime p + 1\<rparr>) s)"
    "same_places s (proc_upd i (\<lambda>p. p\<lparr>utime := utime p + 1\<rparr>) (s\<lparr>tick_count := t\<rparr>))"
    "same_places s (proc_upd i (\<lambda>p. p\<lparr>stime := stime p + 1\<rparr>) (s\<lparr>tick_count := t\<rparr>))" for i t
    by (auto intro: same_places_trans [OF _ same_places_upd])
  ultimately show ?thesis
    unfolding sched_timer_tick_def by (simp add: Let_def split: option.splits)
qed

lemma sched_inv_switch:
  assumes inv: "sched_inv s" and c: "c < 2" "current_core s ! c \<noteq> None"
  shows "sched_inv (ctx_switch c s)"
proof -
  obtain i where i: "current_core s ! c = Some i" using c(2) by blast
  note D = sched_invD [OF inv] and D' = sched_invD(3-5) [OF inv c(1) i]
  have switched: "sched_inv ((proc_upd r (\<lambda>p. p\<lparr>running_on_core := int c\<rparr>)
      (proc_upd i (\<lambda>p. p\<lparr>running_on_core := - 1\<rparr>) s))\<lparr>current_core := (current_core s)[c := Some r]\<rparr>)"
    if r: "r < PROC_MAX" "r \<noteq> i" "p_state (proc s r) = PROC_RUNNABLE" "running_on_core (proc s r) < 0" for r
  proof -
    have other: "j \<noteq> i \<and> j \<noteq> r" if "d < 2" "d \<noteq> c" "current_core s ! d = Some j" for d j
      using sched_inv_distinct [OF inv that(1) c(1)] that D(4) [OF that(1,3)] i r(4) by auto
    show ?thesis
      using D r other c(1) D'(1) unfolding sched_inv_def by (auto simp: nth_list_update)
  qed
  show ?thesis using inv c(1) i
  proof (cases rule: sched_next_cases)
    case (round_robin r)
    then show ?thesis using switched [of r] by (simp add: ctx_switch_def candidate_def)
  next
    case (idle r)
    then show ?thesis using switched [of r] by (simp add: ctx_switch_def idle_candidate_def)
  next
    case keep
    have "(current_core s)[c := Some i] = current_core s" using i list_update_id [of "current_core s" c] by simp
    with keep(1) inv show ?thesis by (simp add: ctx_switch_def)
  qed
qed

lemma proc_alloc_cases:
  obtains (full) "proc_alloc s = (None, s)" "\<forall>i. 1 \<le> i \<and> i < PROC_MAX \<longrightarrow> p_state (proc s i) \<noteq> PROC_FREE"
  | (slot) i where "1 \<le> i" "i < PROC_MAX" "p_state (proc s i) = PROC_FREE"
      "proc_alloc s = (Some i, proc_upd i (\<lambda>_. pcb_zero\<lparr>pid := next_pid s, umask_val := 0x12, running_on_core := - 1,
            start_time := sched_get_ticks s, fd_map := replicate FD_MAX (- 1)\<rparr>) (s\<lparr>next_pid := next_pid s + 1\<rparr>))"
proof (cases "find (\<lambda>i. p_state (proc s i) = PROC_FREE) [1..<PROC_MAX]")
  case None
  then have "\<forall>i. 1 \<le> i \<and> i < PROC_MAX \<longrightarrow> p_state (proc s i) \<noteq> PROC_FREE" unfolding find_upt_None by auto
  with None show thesis by (intro full) (simp_all add: proc_alloc_def)
next
  case (Some i)
  then have "1 \<le> i" "i < PROC_MAX" "p_state (proc s i) = PROC_FREE" unfolding find_upt_Some by auto
  with Some show thesis by (intro slot [of i]) (simp_all add: proc_alloc_def)
qed

lemma sched_inv_alloc: "sched_inv s \<Longrightarrow> sched_inv (snd (proc_alloc s))"
proof (cases s rule: proc_alloc_cases)
  case (slot i)
  assume inv: "sched_inv s"
  have "j \<noteq> i" if "c < 2" "current_core s ! c = Some j" for c j using sched_invD(5) [OF inv that] slot(3) by auto
  then show ?thesis using inv slot sched_invD(1) [OF inv]
    by (intro sched_inv_table [OF inv]) (auto simp: proc_upd_def nth_list_update)
qed simp

subsection \<open>The choice of the next process\<close>

text \<open>C24: the choice of \<^verbatim>\<open>sched_next\<close>. It picks the first runnable, non-idle process that no
  core runs, in cyclic order after the current one; without such a process the current one continues if
  it is runnable, and otherwise a free idle process is picked if there is one. A switch marks the new
  process with the core, takes the mark off the old one and changes nothing else; without a switch the
  state is unchanged.\<close>

theorem sched_next_correct:
  assumes "sched_inv s" and "c < 2" and "current_core s ! c = Some i"
  shows "case sched_next c s of (r, s') \<Rightarrow> r < PROC_MAX
    \<and> (if \<exists>j < PROC_MAX. j \<noteq> i \<and> candidate s j
       then r \<noteq> i \<and> candidate s r \<and> (\<forall>j < PROC_MAX. j \<noteq> i \<and> candidate s j \<longrightarrow> slot_dist i r \<le> slot_dist i j)
       else if p_state (proc s i) = PROC_RUNNABLE \<or> (\<forall>j < PROC_MAX. \<not> idle_candidate s j) then r = i
       else r \<noteq> i \<and> idle_candidate s r)
    \<and> (if r = i then s' = s
       else s' = s\<lparr>proc_table := (proc_table s)[i := (proc s i)\<lparr>running_on_core := - 1\<rparr>, r := (proc s r)\<lparr>running_on_core := int c\<rparr>]\<rparr>)"
  using assms
proof (cases rule: sched_next_cases)
  case (round_robin r)
  then show ?thesis using sched_invD(1) [OF assms(1)] by (auto simp: proc_upd_def not_less [symmetric])
next
  case (idle r)
  then show ?thesis using sched_invD(1) [OF assms(1)] by (auto simp: proc_upd_def)
next
  case keep
  then show ?thesis using sched_invD(3) [OF assms] by auto
qed

subsection \<open>Boot\<close>

lemma boot_proc: "i < PROC_MAX \<Longrightarrow> proc sched_boot i = (if i = 0
    then pcb_zero\<lparr>p_state := PROC_RUNNABLE, ticks_remaining := PROC_DEFAULT_TICKS, is_idle := True\<rparr> else pcb_zero)"
  by (simp add: sched_boot_def proc_init_def nth_list_update)

lemma boot_cores: "current_core sched_boot = [Some 0, None]" "length (proc_table sched_boot) = PROC_MAX"
  by (simp_all add: sched_boot_def proc_init_def)

lemma sched_inv_boot: "sched_inv sched_boot"
proof -
  have "i < PROC_MAX \<and> running_on_core (proc sched_boot i) = int c \<and> p_state (proc sched_boot i) \<noteq> PROC_FREE"
    if "c < 2" "current_core sched_boot ! c = Some i" for c i
  proof -
    have "c = 0 \<and> i = 0" using that boot_cores(1) by (auto simp: less_2_cases_iff)
    then show ?thesis by (simp add: boot_proc pcb_zero_def)
  qed
  then show ?thesis unfolding sched_inv_def using boot_cores(2) by (simp add: boot_cores(1))
qed

subsection \<open>Fairness\<close>

lemma next_closer:
  assumes inv: "sched_inv s" and c: "c < 2" "current_core s ! c = Some a" and i: "i < PROC_MAX" "candidate s i"
    and ne: "fst (sched_next c s) \<noteq> i"
  shows "slot_dist (fst (sched_next c s)) i < slot_dist a i"
proof -
  have a: "a < PROC_MAX" "a \<noteq> i" using sched_invD(3,4) [OF inv c] i by (auto simp: candidate_def)
  show ?thesis using inv c
  proof (cases rule: sched_next_cases)
    case (round_robin r)
    then have "\<not> slot_dist a i < slot_dist a r" using i a by auto
    moreover have "slot_dist a i \<noteq> slot_dist a r"
      using round_robin ne slot_dist_add [OF a(1) i(1)] slot_dist_add [OF a(1), of r] by auto
    ultimately have "slot_dist a r < slot_dist a i" by linarith
    then show ?thesis using slot_dist_step [OF a(1) _ i(1), of r] round_robin by simp
  qed (use i a in auto)
qed

text \<open>C25: round-robin fairness. Take the successive switches of one core, with anything happening on
  the system between them that keeps the scheduler state consistent and leaves the core the process it
  switched to. A non-idle process that stays runnable and is not taken by the other core is switched to
  within seven switches, one less than the number of slots.\<close>

theorem sched_fair:
  assumes inv: "\<And>n. sched_inv (s n)" and "c < 2" and cur0: "current_core (s 0) ! c \<noteq> None"
    and cur: "\<And>n. current_core (s (Suc n)) ! c = Some (fst (sched_next c (s n)))"
    and "i < PROC_MAX" and ready: "\<And>n. (\<forall>m < n. fst (sched_next c (s m)) \<noteq> i) \<Longrightarrow> candidate (s n) i"
  shows "\<exists>n < PROC_MAX - 1. fst (sched_next c (s n)) = i"
proof (rule ccontr)
  assume no: "\<not> (\<exists>n < PROC_MAX - 1. fst (sched_next c (s n)) = i)"
  obtain a where a: "current_core (s 0) ! c = Some a" using cur0 by blast
  define now where "now n = (case n of 0 \<Rightarrow> a | Suc m \<Rightarrow> fst (sched_next c (s m)))" for n
  have now: "current_core (s n) ! c = Some (now n)" for n by (cases n) (simp_all add: now_def a cur)
  have cand: "candidate (s n) i" if "n < PROC_MAX - 1" for n using ready [of n] no that by auto
  have "slot_dist (now n) i + n < PROC_MAX" if "n \<le> PROC_MAX - 1" for n
    using that
  proof (induction n)
    case 0
    have "i \<noteq> a" using sched_invD(4) [OF inv \<open>c < 2\<close> a] cand [of 0] by (auto simp: candidate_def)
    then show ?case using slot_dist_range [of a i] sched_invD(3) [OF inv \<open>c < 2\<close> a] \<open>i < PROC_MAX\<close> by (simp add: now_def)
  next
    case (Suc n)
    have "slot_dist (now (Suc n)) i < slot_dist (now n) i"
      using next_closer [OF inv \<open>c < 2\<close> now [of n] \<open>i < PROC_MAX\<close> cand] no Suc.prems by (simp add: now_def)
    with Suc show ?case by simp
  qed
  from this [of "PROC_MAX - 1"] have z: "slot_dist (now (PROC_MAX - 1)) i = 0" by simp
  have "now (PROC_MAX - 1) \<noteq> i" using no by (auto simp: now_def split: nat.splits)
  then show False using z slot_dist_range [of "now (PROC_MAX - 1)" i] sched_invD(3) [OF inv \<open>c < 2\<close> now] \<open>i < PROC_MAX\<close> by auto
qed

subsection \<open>Deadlines\<close>

lemma sint_diff_nonneg:
  assumes "n < 2 ^ 31" and "d < 2 ^ 31"
  shows "0 \<le> sint ((t + of_nat n) - (t + of_nat d) :: u32) \<longleftrightarrow> d \<le> n"
proof -
  have e: "(t + of_nat n) - (t + of_nat d) = (word_of_int (int n - int d) :: u32)" by simp
  have "sint (word_of_int (int n - int d) :: u32) = int n - int d"
    unfolding signed_of_int using assms by (simp add: signed_take_bit_int_eq_self)
  then show ?thesis unfolding e by simp
qed

text \<open>C38: timer deadlines survive the wrap-around of the tick counter. A process put to sleep at tick
  \<open>t\<close> for \<open>d\<close> ticks is made runnable by the tick \<open>n\<close> ticks later exactly when \<open>n\<close> has reached \<open>d\<close>,
  for all \<open>t\<close> and all distances below 2^31; the same holds for a process blocked with a deadline, unless
  the deadline is tick 0, which stands for no deadline: such a process is not woken.\<close>

theorem tick_wake_deadline:
  assumes "n < 2 ^ 31" and "d < 2 ^ 31" and "sleep_until p = t + of_nat d"
  shows "(p_state p = PROC_SLEEPING \<longrightarrow>
      p_state (tick_wake (t + of_nat n) p) = (if d \<le> n then PROC_RUNNABLE else PROC_SLEEPING))
    \<and> (p_state p = PROC_BLOCKED \<longrightarrow>
      p_state (tick_wake (t + of_nat n) p) = (if d \<le> n \<and> t + of_nat d \<noteq> 0 then PROC_RUNNABLE else PROC_BLOCKED))"
  using sint_diff_nonneg [OF assms(1,2), of t] by (auto simp: tick_wake_def Let_def assms(3))

lemma sched_wakeup_exact:
  "(\<forall>i < length (proc_table s). proc (sched_wakeup ch s) i =
      (if p_state (proc s i) = PROC_BLOCKED \<and> wait_channel (proc s i) = ch
       then (proc s i)\<lparr>p_state := PROC_RUNNABLE, wait_channel := None\<rparr> else proc s i))
   \<and> length (proc_table (sched_wakeup ch s)) = length (proc_table s)
   \<and> (switch_pending (sched_wakeup ch s) \<longleftrightarrow> switch_pending s \<or>
        (\<exists>i < length (proc_table s). p_state (proc s i) = PROC_BLOCKED \<and> wait_channel (proc s i) = ch))"
  by (auto simp: sched_wakeup_def Let_def wake_on_def list_ex_length arch_yield_def)

lemma demo_proc: "i < PROC_MAX \<Longrightarrow> proc demo_sched i = (if i = 1 \<or> i = 2 then demo_ready else proc sched_boot i)"
  using boot_cores(2) by (auto simp: demo_sched_def nth_list_update)

lemma demo_sched_inv: "sched_inv demo_sched" "current_core demo_sched ! 0 = Some 0"
proof -
  have "c = 0 \<and> i = 0" if "c < 2" "current_core sched_boot ! c = Some i" for c i
    using that boot_cores(1) by (auto simp: less_2_cases_iff)
  then show "sched_inv demo_sched"
    by (intro sched_inv_table [OF sched_inv_boot]) (use boot_cores in \<open>force simp: demo_sched_def nth_list_update\<close>)+
  show "current_core demo_sched ! 0 = Some 0" by (simp add: demo_sched_def boot_cores)
qed

theorem sched_next_correct_witness:
  "sched_inv demo_sched \<and> fst (sched_next 0 demo_sched) = 1"
proof -
  let ?r = "fst (sched_next 0 demo_sched)"
  have c: "candidate demo_sched j \<longleftrightarrow> j = 1 \<or> j = 2" if "j < PROC_MAX" for j
    using that by (auto simp: candidate_def demo_proc boot_proc demo_ready_def pcb_zero_def)
  have "\<exists>j < PROC_MAX. j \<noteq> 0 \<and> candidate demo_sched j" using c by (intro exI [of _ 1]) simp
  then have "?r < PROC_MAX" "candidate demo_sched ?r"
      "\<forall>j < PROC_MAX. j \<noteq> 0 \<and> candidate demo_sched j \<longrightarrow> slot_dist 0 ?r \<le> slot_dist 0 j"
    using sched_next_correct [OF demo_sched_inv(1) _ demo_sched_inv(2)] by (simp_all add: split_beta)
  then have "?r = 1 \<or> ?r = 2" "slot_dist 0 ?r \<le> slot_dist 0 1" using c [of ?r] c [of 1] by simp_all
  then show ?thesis using demo_sched_inv(1) by (auto simp: slot_dist_eq)
qed

text \<open>Two switches of core 0: first to process 1, then to process 2.\<close>

lemma demo_find:
  assumes "cur s 0 = a" "b = a + 1" "a < 2" "\<not> is_idle (proc s b) \<and> p_state (proc s b) = PROC_RUNNABLE \<and> running_on_core (proc s b) < 0"
  shows "sched_next 0 s = (b, proc_upd b (\<lambda>p. p\<lparr>running_on_core := 0\<rparr>) (proc_upd a (\<lambda>p. p\<lparr>running_on_core := - 1\<rparr>) s))"
proof -
  have "find (\<lambda>i. \<not> is_idle (proc s ((a + i) mod PROC_MAX)) \<and> p_state (proc s ((a + i) mod PROC_MAX)) = PROC_RUNNABLE
      \<and> running_on_core (proc s ((a + i) mod PROC_MAX)) < 0) [1..<PROC_MAX] = Some 1"
    unfolding find_upt_Some using assms by simp
  then show ?thesis using assms(1-3) unfolding sched_next_def by (simp add: Let_def)
qed

theorem sched_fair_witness:
  "candidate demo_sched 2 \<and> (\<exists>n < PROC_MAX - 1. fst (sched_next 0 ((ctx_switch 0 ^^ n) demo_sched)) = 2)"
proof -
  let ?s = "\<lambda>n. (ctx_switch 0 ^^ n) demo_sched"
  have len: "length (proc_table demo_sched) = PROC_MAX" "length (current_core demo_sched) = 2"
    using sched_invD(1,2) [OF demo_sched_inv(1)] by auto
  have p1: "sched_next 0 demo_sched = (1, proc_upd 1 (\<lambda>p. p\<lparr>running_on_core := 0\<rparr>) (proc_upd 0 (\<lambda>p. p\<lparr>running_on_core := - 1\<rparr>) demo_sched))"
    using demo_find [of demo_sched 0 1] demo_sched_inv(2) by (simp add: cur_def demo_proc demo_ready_def pcb_zero_def)
  define s1 where "s1 = ctx_switch 0 demo_sched"
  have cur1: "cur s1 0 = 1" using len by (simp add: s1_def ctx_switch_def p1 cur_def)
  have proc2: "proc s1 2 = demo_ready" using len by (simp add: s1_def ctx_switch_def p1 proc_upd_def demo_proc)
  have p2: "fst (sched_next 0 s1) = 2"
    using demo_find [OF cur1, of 2] proc2 by (simp add: demo_ready_def pcb_zero_def)
  have inv: "sched_inv (?s n) \<and> current_core (?s n) ! 0 \<noteq> None" for n
  proof (induction n)
    case (Suc n)
    then have "sched_inv (?s (Suc n))" by (auto intro: sched_inv_switch)
    moreover have "current_core (?s (Suc n)) ! 0 \<noteq> None" using sched_invD(2) [of "?s n"] Suc
      by (auto simp: ctx_switch_def sched_next_def Let_def)
    ultimately show ?case by blast
  qed (use demo_sched_inv in simp)
  have cand: "candidate (?s n) 2" if "\<forall>m < n. fst (sched_next 0 (?s m)) \<noteq> 2" for n
  proof -
    have "n = 0 \<or> n = 1" using that p2 by (metis One_nat_def funpow_0 funpow_simps_right(2) less_one linorder_neqE_nat o_apply s1_def)
    then show ?thesis using proc2
      by (auto simp: candidate_def s1_def [symmetric] demo_proc demo_ready_def pcb_zero_def)
  qed
  have step: "current_core (?s (Suc n)) ! 0 = Some (fst (sched_next 0 (?s n)))" for n
    using inv [of n] sched_invD(2) [of "?s n"] by (simp add: ctx_switch_def split_beta sched_next_def Let_def)
  have "\<exists>n < PROC_MAX - 1. fst (sched_next 0 (?s n)) = 2"
    by (rule sched_fair [of ?s 0 2]) (use inv step cand demo_sched_inv(2) in auto)
  then show ?thesis using cand [of 0] by simp
qed

theorem tick_wake_deadline_witness:
  "p_state (tick_wake 0x10 (pcb_zero\<lparr>p_state := PROC_SLEEPING, sleep_until := 0x10\<rparr>)) = PROC_RUNNABLE \<and>
   p_state (tick_wake 0xF (pcb_zero\<lparr>p_state := PROC_SLEEPING, sleep_until := 0x10\<rparr>)) = PROC_SLEEPING \<and>
   p_state (tick_wake 5 (pcb_zero\<lparr>p_state := PROC_BLOCKED, sleep_until := 0\<rparr>)) = PROC_BLOCKED"
proof -
  let ?t = "0xFFFFFFF0 :: u32"
  have e: "?t + word_of_nat 32 = 0x10" "?t + word_of_nat 31 = 0xF" "?t + word_of_nat 16 = 0" "?t + word_of_nat 21 = 5"
    by simp_all
  show ?thesis
    using tick_wake_deadline [of 32 32 "pcb_zero\<lparr>p_state := PROC_SLEEPING, sleep_until := 0x10\<rparr>" ?t]
      tick_wake_deadline [of 31 32 "pcb_zero\<lparr>p_state := PROC_SLEEPING, sleep_until := 0x10\<rparr>" ?t]
      tick_wake_deadline [of 21 16 "pcb_zero\<lparr>p_state := PROC_BLOCKED, sleep_until := 0\<rparr>" ?t]
    unfolding e by simp
qed

end
