(* ===== verification/Lifecycle.thy ===== *)
theory Lifecycle
  imports Sched
begin

text \<open>
  The life of a process, \<^verbatim>\<open>src/kernel/core/syscall/sys_proc.c\<close> and \<^verbatim>\<open>sys_time.c\<close>: creation by
  \<^verbatim>\<open>sys_vfork\<close>, sleeping, the sections of \<^verbatim>\<open>sys_exit\<close> and \<^verbatim>\<open>sys_waitpid\<close> that hold
  \<^verbatim>\<open>SPIN_PROC\<close>, and the freeing of the slot; then the step relations that interleave them with
  the scheduler on two cores. The release of descriptors and pages at exit, the per-architecture child
  frames and the debugger commands other than attaching, detaching, stopping and resuming are not modelled
  here. Process numbers are integers: the counter of the code is a 32-bit int, so runs that create fewer than
  2^31 processes are covered. What
  \<^verbatim>\<open>sys_waitpid\<close> does between its two locked sections is the copy of the status to user memory;
  other steps can come there, so the sections are separate steps.
\<close>

abbreviation ECHILD :: int where "ECHILD \<equiv> 10"

subsection \<open>Waking a blocked process\<close>

definition proc_wake_blocked_locked :: "pcb \<Rightarrow> pcb" where
  "proc_wake_blocked_locked p =
     (if p_state p \<noteq> PROC_BLOCKED then p else p\<lparr>p_state := PROC_RUNNABLE, wait_channel := None\<rparr>)"

definition proc_wake_blocked_pid_locked :: "int \<Rightarrow> kstate \<Rightarrow> kstate" where
  "proc_wake_blocked_pid_locked pd s =
     (case find (\<lambda>i. proc_state_is_live (p_state (proc s i)) \<and> pid (proc s i) = pd) [0..<PROC_MAX] of
        None \<Rightarrow> s | Some i \<Rightarrow> proc_upd i proc_wake_blocked_locked s)"

subsection \<open>Sleeping and stopping\<close>

text \<open>A turn of the loop of the three sleep calls; None when the process goes to sleep. The argument
  tells whether the remaining time could not be written.\<close>

definition nanosleep_turn :: "bool \<Rightarrow> nat \<Rightarrow> kstate \<Rightarrow> int option \<times> kstate" where
  "nanosleep_turn rem_fault c s =
     (let i = cur s c
      in if sig_pending (proc s i) AND NOT (sig_blocked (proc s i)) \<noteq> 0
         then (Some (if rem_fault then - EFAULT else - EINTR), proc_upd i (\<lambda>p. p\<lparr>sleep_until := 0\<rparr>) s)
         else if 0 \<le> sint (sched_get_ticks s - sleep_until (proc s i))
         then (Some 0, proc_upd i (\<lambda>p. p\<lparr>sleep_until := 0\<rparr>) s)
         else (None, proc_upd i (\<lambda>p. p\<lparr>p_state := PROC_SLEEPING\<rparr>) s))"

definition trace_stop_current :: "nat \<Rightarrow> kstate \<Rightarrow> kstate" where
  "trace_stop_current c s =
     (let i = cur s c;
          s = proc_upd i (\<lambda>p. p\<lparr>trace_wait_pending := True, p_state := PROC_TRACED_STOP\<rparr>) s
      in proc_wake_blocked_pid_locked (tracer_pid (proc s i)) s)"

text \<open>\<^verbatim>\<open>trace_resume_target\<close> and the waking of a sleeping process by a signal, as functions on the PCB.\<close>

definition trace_resume_target :: "pcb \<Rightarrow> pcb" where
  "trace_resume_target p =
     (let p = p\<lparr>trace_wait_pending := False\<rparr>
      in if p_state p = PROC_TRACED_STOP then p\<lparr>p_state := PROC_RUNNABLE\<rparr> else p)"

definition wake_sleeping :: "pcb \<Rightarrow> pcb" where
  "wake_sleeping p = (if p_state p = PROC_SLEEPING then p\<lparr>p_state := PROC_RUNNABLE\<rparr> else p)"

text \<open>The requests of \<^verbatim>\<open>sys_ptrace\<close> that begin and end tracing; \<open>requested\<close> is the flag
  \<^verbatim>\<open>trace_requested\<close> of the process concerned, and the debugger's own data are not part of the record.\<close>

definition ptrace_traceme :: "bool \<Rightarrow> nat \<Rightarrow> kstate \<Rightarrow> int \<times> kstate" where
  "ptrace_traceme requested c s =
     (if tracer_pid (proc s (cur s c)) \<noteq> 0 \<or> requested then (- EPERM, s)
      else (0, proc_upd (cur s c) (\<lambda>p. p\<lparr>tracer_pid := ppid p, trace_wait_pending := False\<rparr>) s))"

definition trace_find_process_locked :: "int \<Rightarrow> kstate \<Rightarrow> nat option" where
  "trace_find_process_locked pd s =
     (if pd \<le> 0 then None
      else find (\<lambda>i. proc_state_is_live (p_state (proc s i)) \<and> pid (proc s i) = pd) [1..<PROC_MAX])"

definition ptrace_attach :: "bool \<Rightarrow> nat \<Rightarrow> int \<Rightarrow> kstate \<Rightarrow> int \<times> kstate" where
  "ptrace_attach requested c pd s =
     (case trace_find_process_locked pd s of None \<Rightarrow> (- ESRCH, s)
      | Some i \<Rightarrow>
          if p_state (proc s i) = PROC_ZOMBIE then (- ESRCH, s)
          else if i = cur s c then (- EPERM, s)
          else if tracer_pid (proc s i) \<noteq> 0 \<or> requested then (- EPERM, s)
          else let me = pid (proc s (cur s c));
                   s = proc_upd i (\<lambda>p. p\<lparr>tracer_pid := me, trace_wait_pending := True, p_state := PROC_TRACED_STOP\<rparr>) s
               in (0, proc_wake_blocked_pid_locked (tracer_pid (proc s i)) s))"

definition ptrace_detach :: "pcb \<Rightarrow> pcb" where
  "ptrace_detach p = trace_resume_target (p\<lparr>tracer_pid := 0, trace_wait_pending := False\<rparr>)"

subsection \<open>vfork\<close>

definition vfork_child_init :: "nat \<Rightarrow> nat \<Rightarrow> kstate \<Rightarrow> kstate" where
  "vfork_child_init c i s =
     (let me = proc s (cur s c)
      in proc_upd i (\<lambda>p. p\<lparr>ticks_remaining := PROC_DEFAULT_TICKS, ppid := pid me, pgid := pgid me, sid := sid me,
           vfork_parent := Some (cur s c), fd_map := fd_map me\<rparr>) s)"

definition vfork_start :: "nat \<Rightarrow> nat \<Rightarrow> kstate \<Rightarrow> kstate" where
  "vfork_start c i s =
     proc_upd i (\<lambda>p. p\<lparr>p_state := PROC_RUNNABLE\<rparr>)
       (proc_upd (cur s c) (\<lambda>p. p\<lparr>wait_channel := None, p_state := PROC_BLOCKED\<rparr>) s)"

text \<open>What \<^verbatim>\<open>sys_execve\<close> does to the table: the vfork parent goes on.\<close>

definition execve_unblock :: "nat \<Rightarrow> kstate \<Rightarrow> kstate" where
  "execve_unblock c s =
     (case vfork_parent (proc s (cur s c)) of None \<Rightarrow> s
      | Some v \<Rightarrow> proc_upd (cur s c) (\<lambda>p. p\<lparr>vfork_parent := None\<rparr>) (proc_upd v proc_wake_blocked_locked s))"

subsection \<open>exit\<close>

text \<open>The body of the loop over the children, for the slot \<open>i\<close>.\<close>

definition exit_adopt :: "int \<Rightarrow> nat \<Rightarrow> kstate \<Rightarrow> kstate" where
  "exit_adopt me i s =
     (if \<not> proc_state_is_live (p_state (proc s i)) \<or> ppid (proc s i) \<noteq> me then s
      else let s = proc_upd i (\<lambda>p. p\<lparr>ppid := 1\<rparr>) s
           in if p_state (proc s i) = PROC_ZOMBIE then proc_wake_blocked_pid_locked 1 s else s)"

text \<open>The section of \<^verbatim>\<open>sys_exit\<close> under \<^verbatim>\<open>SPIN_PROC\<close>: the wake-ups of the vfork parent, the parent and
  the tracer, then the adoption of the children, then the zombie state.\<close>

definition exit_wakes :: "nat \<Rightarrow> int \<Rightarrow> kstate \<Rightarrow> kstate" where
  "exit_wakes i status s =
     (let s = proc_upd i (\<lambda>p. p\<lparr>exit_status := status\<rparr>) s;
          s = (case vfork_parent (proc s i) of None \<Rightarrow> s
               | Some v \<Rightarrow> proc_upd i (\<lambda>p. p\<lparr>vfork_parent := None\<rparr>) (proc_upd v proc_wake_blocked_locked s));
          s = proc_wake_blocked_pid_locked (ppid (proc s i)) s
      in if tracer_pid (proc s i) \<noteq> 0 \<and> tracer_pid (proc s i) \<noteq> ppid (proc s i)
         then proc_wake_blocked_pid_locked (tracer_pid (proc s i)) s else s)"

definition sys_exit_locked :: "nat \<Rightarrow> int \<Rightarrow> kstate \<Rightarrow> kstate" where
  "sys_exit_locked c status s =
     (let i = cur s c;
          s = exit_wakes i status s;
          s = fold (exit_adopt (pid (proc s i))) [1..<PROC_MAX] s
      in proc_upd i (\<lambda>p. p\<lparr>p_state := PROC_ZOMBIE\<rparr>) s)"

text \<open>The call without the release of descriptors and pages, which comes before the locked section; a
  second call of a zombie has no effect.\<close>

definition sys_exit_proc :: "nat \<Rightarrow> int \<Rightarrow> kstate \<Rightarrow> kstate" where
  "sys_exit_proc c status s = (if p_state (proc s (cur s c)) = PROC_ZOMBIE then s else sys_exit_locked c status s)"

subsection \<open>waitpid\<close>

datatype wait_scan = Scan_none | Scan_wait | Scan_stopped nat int | Scan_zombie nat int bool

definition waitpid_match :: "int \<Rightarrow> int \<Rightarrow> pcb \<Rightarrow> bool" where
  "waitpid_match me pd p \<longleftrightarrow> proc_state_is_live (p_state p) \<and> (ppid p = me \<or> tracer_pid p = me) \<and> (pd > 0 \<longrightarrow> pid p = pd)"

definition waitpid_scan :: "nat \<Rightarrow> int \<Rightarrow> bool \<Rightarrow> kstate \<Rightarrow> wait_scan" where
  "waitpid_scan c pd wstopped s =
     (let me = pid (proc s (cur s c));
          stopped = (\<lambda>p. wstopped \<and> p_state p = PROC_TRACED_STOP \<and> trace_wait_pending p)
      in case find (\<lambda>i. waitpid_match me pd (proc s i) \<and> (stopped (proc s i) \<or> p_state (proc s i) = PROC_ZOMBIE)) [1..<PROC_MAX] of
           Some i \<Rightarrow> if stopped (proc s i) then Scan_stopped i (pid (proc s i))
                     else Scan_zombie i (pid (proc s i)) (ppid (proc s i) = me)
         | None \<Rightarrow> if list_ex (\<lambda>i. waitpid_match me pd (proc s i)) [1..<PROC_MAX] then Scan_wait else Scan_none)"

definition waitpid_stopped_locked :: "nat \<Rightarrow> nat \<Rightarrow> int \<Rightarrow> kstate \<Rightarrow> bool \<times> kstate" where
  "waitpid_stopped_locked c i stopped_pid s =
     (let p = proc s i; me = pid (proc s (cur s c))
      in if pid p \<noteq> stopped_pid \<or> p_state p \<noteq> PROC_TRACED_STOP \<or> tracer_pid p \<noteq> me \<or> \<not> trace_wait_pending p
         then (False, s) else (True, proc_upd i (\<lambda>p. p\<lparr>trace_wait_pending := False\<rparr>) s))"

datatype wait_claim = Claim_retry | Claim_traced | Claim_child

definition waitpid_claim :: "nat \<Rightarrow> nat \<Rightarrow> int \<Rightarrow> bool \<Rightarrow> kstate \<Rightarrow> wait_claim \<times> kstate" where
  "waitpid_claim c i zombie_pid is_child s =
     (let p = proc s i; me = pid (proc s (cur s c))
      in if pid p \<noteq> zombie_pid \<or> p_state p \<noteq> PROC_ZOMBIE then (Claim_retry, s)
         else if \<not> is_child
         then if tracer_pid p \<noteq> me \<or> ppid p = me then (Claim_retry, s)
              else (Claim_traced, proc_upd i (\<lambda>p. p\<lparr>tracer_pid := 0, trace_wait_pending := False\<rparr>) s)
         else if ppid p \<noteq> me then (Claim_retry, s)
         else (Claim_child, proc_upd i (\<lambda>p. p\<lparr>p_state := PROC_REAPING\<rparr>) s))"

text \<open>One turn of the loop. The caller frees the slot on \<open>Wait_reap\<close>, scans again on \<open>Wait_again\<close>,
  and switches away on \<open>Wait_sleep\<close>, to scan again when it runs; \<open>env\<close> is what happens between the
  sections.\<close>

datatype wait_turn = Wait_return int | Wait_again | Wait_reap nat int | Wait_sleep

definition sys_waitpid_turn ::
  "(kstate \<Rightarrow> kstate) \<Rightarrow> bool \<Rightarrow> nat \<Rightarrow> int \<Rightarrow> bool \<Rightarrow> bool \<Rightarrow> kstate \<Rightarrow> wait_turn \<times> kstate" where
  "sys_waitpid_turn env efault c pd wnohang wstopped s =
     (case waitpid_scan c pd wstopped s of
        Scan_stopped i spid \<Rightarrow>
          if efault then (Wait_return (- EFAULT), env s)
          else (case waitpid_stopped_locked c i spid (env s) of
                  (True, s) \<Rightarrow> (Wait_return spid, s) | (False, s) \<Rightarrow> (Wait_again, s))
      | Scan_zombie i zpid is_child \<Rightarrow>
          if efault then (Wait_return (- EFAULT), env s)
          else (case waitpid_claim c i zpid is_child (env s) of
                  (Claim_retry, s) \<Rightarrow> (Wait_again, s)
                | (Claim_traced, s) \<Rightarrow> (Wait_return zpid, s)
                | (Claim_child, s) \<Rightarrow> (Wait_reap i zpid, s))
      | Scan_none \<Rightarrow> (Wait_return (- ECHILD), s)
      | Scan_wait \<Rightarrow>
          if wnohang then (Wait_return 0, s)
          else if sig_pending (proc s (cur s c)) AND NOT (sig_blocked (proc s (cur s c))) \<noteq> 0 then (Wait_return (- EINTR), s)
          else (Wait_sleep, sched_block_current c None s))"

subsection \<open>Steps\<close>

text \<open>Everything that happens to the table apart from blocking on a channel, waking a channel, the start
  of a vfork child and the freeing of a slot. A slot that \<^verbatim>\<open>proc_alloc\<close> has returned is still
  PROC_FREE until its process is made runnable (\<open>life_ready\<close>, and \<open>vfork_start\<close>), so another call of
  \<^verbatim>\<open>proc_alloc\<close> may return it again; an allocated slot is recognised by its process number.\<close>

inductive life_step :: "kstate \<Rightarrow> kstate \<Rightarrow> bool" where
  life_switch: "c < 2 \<Longrightarrow> current_core s ! c \<noteq> None \<Longrightarrow> life_step s (ctx_switch c s)"
| life_tick: "c < 2 \<Longrightarrow> life_step s (sched_timer_tick c from_user s)"
| life_wake: "i < PROC_MAX \<Longrightarrow> life_step s (proc_upd i proc_wake_blocked_locked s)"
| life_signal: "i < PROC_MAX \<Longrightarrow> life_step s (proc_upd i wake_sleeping s)"
| life_resume: "i < PROC_MAX \<Longrightarrow> life_step s (proc_upd i trace_resume_target s)"
| life_deadline: "c < 2 \<Longrightarrow> current_core s ! c \<noteq> None \<Longrightarrow> life_step s (proc_upd (cur s c) (\<lambda>p. p\<lparr>sleep_until := t\<rparr>) s)"
| life_sleep: "c < 2 \<Longrightarrow> current_core s ! c \<noteq> None \<Longrightarrow> life_step s (snd (nanosleep_turn rem_fault c s))"
| life_stop: "c < 2 \<Longrightarrow> current_core s ! c \<noteq> None \<Longrightarrow> life_step s (trace_stop_current c s)"
| life_traceme: "c < 2 \<Longrightarrow> current_core s ! c \<noteq> None \<Longrightarrow> life_step s (snd (ptrace_traceme requested c s))"
| life_attach: "c < 2 \<Longrightarrow> current_core s ! c \<noteq> None \<Longrightarrow> life_step s (snd (ptrace_attach requested c pd s))"
| life_detach: "i < PROC_MAX \<Longrightarrow> life_step s (proc_upd i ptrace_detach s)"
| life_exec: "c < 2 \<Longrightarrow> current_core s ! c \<noteq> None \<Longrightarrow> life_step s (execve_unblock c s)"
| life_alloc: "life_step s (snd (proc_alloc s))"
| life_core1: "current_core s ! 1 = None \<Longrightarrow> life_step s (core1_sched_entry stack_ok s)"
| life_ready: "i < PROC_MAX \<Longrightarrow> p_state (proc s i) = PROC_FREE \<Longrightarrow> pid (proc s i) \<noteq> 0 \<Longrightarrow>
     life_step s (proc_upd i (\<lambda>p. p\<lparr>p_state := PROC_RUNNABLE\<rparr>) s)"
| life_vfork_init: "c < 2 \<Longrightarrow> current_core s ! c \<noteq> None \<Longrightarrow> i < PROC_MAX \<Longrightarrow> p_state (proc s i) = PROC_FREE \<Longrightarrow>
     pid (proc s i) \<noteq> 0 \<Longrightarrow> life_step s (vfork_child_init c i s)"
| life_exit: "c < 2 \<Longrightarrow> current_core s ! c \<noteq> None \<Longrightarrow> life_step s (sys_exit_proc c status s)"
| life_wait_stopped: "c < 2 \<Longrightarrow> current_core s ! c \<noteq> None \<Longrightarrow> i < PROC_MAX \<Longrightarrow>
     life_step s (snd (waitpid_stopped_locked c i stopped_pid s))"
| life_wait_claim: "c < 2 \<Longrightarrow> current_core s ! c \<noteq> None \<Longrightarrow> i < PROC_MAX \<Longrightarrow>
     life_step s (snd (waitpid_claim c i zombie_pid is_child s))"

text \<open>All steps. \<^verbatim>\<open>sys_waitpid\<close> frees the slot of a zombie without looking whether a core still runs it;
  with \<open>settled\<close> only the runs are taken in which no slot is freed while it is the current process of a
  core.\<close>

inductive sched_step :: "bool \<Rightarrow> kstate \<Rightarrow> kstate \<Rightarrow> bool" for settled where
  step_life: "life_step s s' \<Longrightarrow> sched_step settled s s'"
| step_block: "c < 2 \<Longrightarrow> current_core s ! c \<noteq> None \<Longrightarrow> sched_step settled s (sched_block_current c channel s)"
| step_wakeup: "sched_step settled s (sched_wakeup channel s)"
| step_vfork: "c < 2 \<Longrightarrow> current_core s ! c \<noteq> None \<Longrightarrow> i < PROC_MAX \<Longrightarrow> p_state (proc s i) = PROC_FREE \<Longrightarrow>
     pid (proc s i) \<noteq> 0 \<Longrightarrow> sched_step settled s (vfork_start c i s)"
| step_free: "i < PROC_MAX \<Longrightarrow> p_state (proc s i) = PROC_REAPING \<Longrightarrow> settled \<longrightarrow> running_on_core (proc s i) < 0 \<Longrightarrow>
     sched_step settled s (proc_upd i (\<lambda>p. p\<lparr>p_state := PROC_FREE\<rparr>) s)"

text \<open>The same steps with a record of the processes that sleep in \<^verbatim>\<open>sys_waitpid\<close>, each with the
  argument it waits for.\<close>

inductive wait_step :: "kstate \<times> (nat \<Rightarrow> int option) \<Rightarrow> kstate \<times> (nat \<Rightarrow> int option) \<Rightarrow> bool" where
  ws_life: "life_step s s' \<Longrightarrow> wait_step (s, X) (s', X)"
| ws_block: "c < 2 \<Longrightarrow> current_core s ! c \<noteq> None \<Longrightarrow> wait_step (s, X) (sched_block_current c channel s, X(cur s c := None))"
| ws_wakeup: "wait_step (s, X) (sched_wakeup channel s, X)"
| ws_vfork: "c < 2 \<Longrightarrow> current_core s ! c \<noteq> None \<Longrightarrow> i < PROC_MAX \<Longrightarrow> p_state (proc s i) = PROC_FREE \<Longrightarrow>
     pid (proc s i) \<noteq> 0 \<Longrightarrow> wait_step (s, X) (vfork_start c i s, X(cur s c := None))"
| ws_free: "i < PROC_MAX \<Longrightarrow> p_state (proc s i) = PROC_REAPING \<Longrightarrow> running_on_core (proc s i) < 0 \<Longrightarrow>
     wait_step (s, X) (proc_upd i (\<lambda>p. p\<lparr>p_state := PROC_FREE\<rparr>) s, X)"
| ws_wait: "c < 2 \<Longrightarrow> current_core s ! c \<noteq> None \<Longrightarrow> sys_waitpid_turn env efault c pd wnohang wstopped s = (Wait_sleep, s') \<Longrightarrow>
     wait_step (s, X) (s', X(cur s c := Some pd))"

subsection \<open>What most steps leave alone\<close>

text \<open>No process enters a channel, becomes a zombie or changes between free and used; the mutexes and the
  process numbers stay, and with \<open>kin\<close> the parents do too.\<close>

definition quiet_pcb :: "bool \<Rightarrow> pcb \<Rightarrow> pcb \<Rightarrow> bool" where
  "quiet_pcb kin p q \<longleftrightarrow> kmutex_held q = kmutex_held p \<and> pid q = pid p \<and> (kin \<longrightarrow> ppid q = ppid p)
     \<and> (p_state q = PROC_BLOCKED \<longrightarrow> p_state p = PROC_BLOCKED \<and> wait_channel q = wait_channel p)
     \<and> (p_state q = PROC_ZOMBIE \<longrightarrow> p_state p = PROC_ZOMBIE) \<and> (p_state q = PROC_FREE \<longleftrightarrow> p_state p = PROC_FREE)"

definition quiet :: "bool \<Rightarrow> kstate \<Rightarrow> kstate \<Rightarrow> bool" where
  "quiet kin s s' \<longleftrightarrow> mtx_owner s' = mtx_owner s \<and> mtx_next s' = mtx_next s \<and> next_pid s' = next_pid s
     \<and> length (proc_table s') = length (proc_table s)
     \<and> (\<forall>p < length (proc_table s). quiet_pcb kin (proc s p) (proc s' p))"

lemma quiet_pcb_refl [simp]: "quiet_pcb k p p"
  by (simp add: quiet_pcb_def)

lemma quiet_pcb_trans: "quiet_pcb k p q \<Longrightarrow> quiet_pcb k q r \<Longrightarrow> quiet_pcb k p r"
  by (simp add: quiet_pcb_def)

lemma quiet_trans: "quiet k s t \<Longrightarrow> quiet k t u \<Longrightarrow> quiet k s u"
  unfolding quiet_def using quiet_pcb_trans by metis

lemma quiet_refl [simp]: "quiet k s s"
  by (simp add: quiet_def)

lemma quiet_weak: "quiet k s t \<Longrightarrow> quiet False s t"
  by (simp add: quiet_def quiet_pcb_def)

lemma quiet_fields [simp]:
  "quiet k s (s'\<lparr>tick_count := t\<rparr>) = quiet k s s'" "quiet k s (arch_yield s') = quiet k s s'"
  "quiet k s (s'\<lparr>cpu_idle_ticks := a\<rparr>) = quiet k s s'" "quiet k s (s'\<lparr>cpu_user_ticks := a\<rparr>) = quiet k s s'"
  "quiet k s (s'\<lparr>cpu_system_ticks := a\<rparr>) = quiet k s s'" "quiet k s (s'\<lparr>current_core := cc\<rparr>) = quiet k s s'"
  by (simp_all add: quiet_def arch_yield_def)

lemma proc_upd_rest [simp]: "next_pid (proc_upd i g s) = next_pid s"
  by (simp add: proc_upd_def)

lemma proc_upd_out: "\<not> i < length (proc_table s) \<Longrightarrow> proc_upd i g s = s"
  by (simp add: proc_upd_def list_update_beyond)

lemma quiet_upd [intro]: "quiet_pcb k (proc s i) (g (proc s i)) \<Longrightarrow> quiet k s (proc_upd i g s)"
  by (cases "i < length (proc_table s)") (simp_all add: quiet_def proc_upd_out)

lemma quiet_map [intro]: "(\<And>p. quiet_pcb k p (g p)) \<Longrightarrow> quiet k s (s\<lparr>proc_table := map g (proc_table s)\<rparr>)"
  by (simp add: quiet_def)

lemma quiet_pcb_wake [simp]:
  "quiet_pcb k p (proc_wake_blocked_locked p)" "quiet_pcb k p (wake_sleeping p)" "quiet_pcb k p (wake_on ch p)"
  by (simp_all add: quiet_pcb_def proc_wake_blocked_locked_def wake_sleeping_def wake_on_def)

lemma quiet_pcb_resume [simp]: "quiet_pcb k p (trace_resume_target p)"
  by (cases "p_state p = PROC_TRACED_STOP") (simp_all add: quiet_pcb_def trace_resume_target_def)

lemma quiet_pcb_detach [simp]: "quiet_pcb k p (ptrace_detach p)"
proof -
  have "quiet_pcb k p (p\<lparr>tracer_pid := 0, trace_wait_pending := False\<rparr>)" by (simp add: quiet_pcb_def)
  then show ?thesis unfolding ptrace_detach_def by (rule quiet_pcb_trans) (rule quiet_pcb_resume)
qed

lemma quiet_pcb_tick [simp]: "quiet_pcb k p (tick_wake t p)"
  by (cases "p_state p") (simp_all add: quiet_pcb_def tick_wake_def)

lemma quiet_pcb_fields [simp]:
  "quiet_pcb k p (p\<lparr>ticks_remaining := a\<rparr>)" "quiet_pcb k p (p\<lparr>utime := a\<rparr>)" "quiet_pcb k p (p\<lparr>stime := a\<rparr>)"
  "quiet_pcb k p (p\<lparr>running_on_core := r\<rparr>)" "quiet_pcb k p (p\<lparr>sleep_until := a\<rparr>)" "quiet_pcb k p (p\<lparr>exit_status := r\<rparr>)"
  "quiet_pcb k p (p\<lparr>vfork_parent := v\<rparr>)" "quiet_pcb k p (p\<lparr>trace_wait_pending := b\<rparr>)"
  "quiet_pcb k p (p\<lparr>tracer_pid := r, trace_wait_pending := b\<rparr>)" "quiet_pcb False p (p\<lparr>ppid := r\<rparr>)"
  by (simp_all add: quiet_pcb_def)

lemma quiet_pcb_state:
  "st \<noteq> PROC_BLOCKED \<Longrightarrow> st \<noteq> PROC_ZOMBIE \<Longrightarrow> st \<noteq> PROC_FREE \<Longrightarrow> p_state p \<noteq> PROC_FREE \<Longrightarrow>
   quiet_pcb k p (p\<lparr>p_state := st\<rparr>) \<and> quiet_pcb k p (p\<lparr>trace_wait_pending := b, p_state := st\<rparr>)"
  by (simp add: quiet_pcb_def)

lemma quiet_tick: "quiet k s (sched_tick c ticks s)"
proof -
  define s1 where "s1 = (if c = 0 then s\<lparr>proc_table := map (tick_wake ticks) (proc_table s)\<rparr> else s)"
  have 1: "quiet k s s1" unfolding s1_def by (auto intro!: quiet_map)
  have 2: "quiet k s1 (proc_upd i (\<lambda>p. p\<lparr>ticks_remaining := ticks_remaining p - 1\<rparr>) s1)"
    and 3: "quiet k t (proc_upd i (\<lambda>p. p\<lparr>ticks_remaining := PROC_DEFAULT_TICKS\<rparr>) t)" for i t by auto
  show ?thesis
    using quiet_trans [OF 1 2] quiet_trans [OF quiet_trans [OF 1 2] 3] 1
    by (simp add: sched_tick_def s1_def [symmetric] Let_def split: option.splits)
qed

lemma quiet_timer: "quiet k s (sched_timer_tick c from_user s)"
proof -
  have "quiet k s s1 \<Longrightarrow> quiet k s (sched_tick d t s1)" for d t s1
    using quiet_tick quiet_trans by blast
  moreover have "quiet k s (proc_upd i (\<lambda>p. p\<lparr>utime := utime p + 1\<rparr>) s)"
    "quiet k s (proc_upd i (\<lambda>p. p\<lparr>stime := stime p + 1\<rparr>) s)"
    "quiet k s (proc_upd i (\<lambda>p. p\<lparr>utime := utime p + 1\<rparr>) (s\<lparr>tick_count := t\<rparr>))"
    "quiet k s (proc_upd i (\<lambda>p. p\<lparr>stime := stime p + 1\<rparr>) (s\<lparr>tick_count := t\<rparr>))" for i t
    by (auto intro: quiet_trans [OF _ quiet_upd])
  ultimately show ?thesis
    unfolding sched_timer_tick_def by (simp add: Let_def split: option.splits)
qed

lemma quiet_switch: "quiet k s (ctx_switch c s)"
proof -
  have "quiet k s (proc_upd r (\<lambda>p. p\<lparr>running_on_core := int c\<rparr>) (proc_upd i (\<lambda>p. p\<lparr>running_on_core := - 1\<rparr>) s))" for r i
    by (rule quiet_trans [OF quiet_upd quiet_upd]) simp_all
  then show ?thesis by (simp add: ctx_switch_def sched_next_def Let_def)
qed

lemma quiet_wakeup: "quiet k s (sched_wakeup ch s)"
proof -
  have "quiet k s (s\<lparr>proc_table := map (wake_on ch) (proc_table s)\<rparr>)" by (intro quiet_map) simp
  then show ?thesis by (simp add: sched_wakeup_def Let_def)
qed

lemma quiet_wake_pid: "quiet k s (proc_wake_blocked_pid_locked pd s)"
  by (auto simp: proc_wake_blocked_pid_locked_def split: option.splits)

lemma trace_find_live: "trace_find_process_locked pd s = Some i \<Longrightarrow> p_state (proc s i) \<noteq> PROC_FREE"
  by (auto simp: trace_find_process_locked_def proc_state_is_live_def find_upt_Some split: if_splits)

lemma quiet_trace:
  "quiet k s (snd (ptrace_traceme r c s))" "quiet k s (snd (ptrace_attach r c pd s))" "quiet k s (execve_unblock c s)"
proof -
  show "quiet k s (snd (ptrace_traceme r c s))" by (auto simp: ptrace_traceme_def)
  have "quiet k s (proc_upd i (\<lambda>p. p\<lparr>tracer_pid := me, trace_wait_pending := True, p_state := PROC_TRACED_STOP\<rparr>) s)"
    if "trace_find_process_locked pd s = Some i" for i me
    using trace_find_live [OF that] by (intro quiet_upd) (simp add: quiet_pcb_def)
  then show "quiet k s (snd (ptrace_attach r c pd s))"
    using quiet_wake_pid quiet_trans by (fastforce simp: ptrace_attach_def Let_def split: option.splits)
  have "quiet k s (proc_upd i (\<lambda>p. p\<lparr>vfork_parent := None\<rparr>) (proc_upd v proc_wake_blocked_locked s))" for i v
    by (rule quiet_trans [OF quiet_upd quiet_upd]) simp_all
  then show "quiet k s (execve_unblock c s)" by (simp add: execve_unblock_def split: option.splits)
qed

subsection \<open>One process on one core\<close>

lemma same_places_wake_pid: "same_places s (proc_wake_blocked_pid_locked pd s)"
proof -
  have "same_places s (proc_upd i proc_wake_blocked_locked s)" for i
    by (rule same_places_upd) (simp_all add: proc_wake_blocked_locked_def)
  then show ?thesis by (auto simp: proc_wake_blocked_pid_locked_def split: option.splits)
qed

lemma same_places_exit_wakes: "same_places s (exit_wakes i status s)"
proof -
  have w: "same_places t (proc_upd v proc_wake_blocked_locked t)" for v t
    by (rule same_places_upd) (simp_all add: proc_wake_blocked_locked_def)
  have e: "same_places t (proc_upd i (\<lambda>p. p\<lparr>exit_status := st\<rparr>) t)" "same_places t (proc_upd i (\<lambda>p. p\<lparr>vfork_parent := v\<rparr>) t)"
    for t st v by auto
  define s1 where "s1 = proc_upd i (\<lambda>p. p\<lparr>exit_status := status\<rparr>) s"
  define s2 where "s2 = (case vfork_parent (proc s1 i) of None \<Rightarrow> s1
      | Some v \<Rightarrow> proc_upd i (\<lambda>p. p\<lparr>vfork_parent := None\<rparr>) (proc_upd v proc_wake_blocked_locked s1))"
  define s3 where "s3 = proc_wake_blocked_pid_locked (ppid (proc s2 i)) s2"
  have "same_places s s1" unfolding s1_def by (rule e)
  moreover have "same_places s1 s2" unfolding s2_def
    by (auto intro: same_places_trans [OF w e(2)] split: option.splits)
  moreover have "same_places s2 s3" unfolding s3_def by (rule same_places_wake_pid)
  ultimately have "same_places s s3" by (blast intro: same_places_trans)
  then show ?thesis
    unfolding exit_wakes_def Let_def s1_def [symmetric] s2_def [symmetric] s3_def [symmetric]
    using same_places_wake_pid same_places_trans by auto
qed

lemma same_places_adopt: "same_places s (exit_adopt me i s)"
proof -
  have "same_places s (proc_upd i (\<lambda>p. p\<lparr>ppid := 1\<rparr>) s)" by auto
  then show ?thesis
    using same_places_wake_pid same_places_trans by (auto simp: exit_adopt_def Let_def)
qed

lemma fold_rel:
  assumes "\<And>x s. R s (g x s)" "\<And>s. R s s" "\<And>s t u. R s t \<Longrightarrow> R t u \<Longrightarrow> R s u"
  shows "R s (fold g xs s)"
proof (induction xs arbitrary: s)
  case (Cons x xs)
  show ?case using assms(3) [OF assms(1) Cons.IH] by simp
qed (simp add: assms(2))

lemma same_places_exit: "same_places s (sys_exit_proc c status s)"
proof -
  have "same_places t (fold (exit_adopt me) xs t)" for me xs t
    by (rule fold_rel) (auto intro: same_places_adopt same_places_trans)
  moreover have "same_places t (proc_upd i (\<lambda>p. p\<lparr>p_state := PROC_ZOMBIE\<rparr>) t)" for t i by auto
  ultimately have "same_places s (sys_exit_locked c status s)"
    unfolding sys_exit_locked_def Let_def using same_places_exit_wakes same_places_trans by meson
  then show ?thesis by (simp add: sys_exit_proc_def)
qed

lemma same_places_vfork: "same_places s (vfork_child_init c i s)" "same_places s (vfork_start c i s)"
proof -
  show "same_places s (vfork_child_init c i s)" unfolding vfork_child_init_def Let_def by auto
  have "same_places s (proc_upd (cur s c) (\<lambda>p. p\<lparr>wait_channel := None, p_state := PROC_BLOCKED\<rparr>) s)" by auto
  moreover have "same_places t (proc_upd i (\<lambda>p. p\<lparr>p_state := PROC_RUNNABLE\<rparr>) t)" for t by auto
  ultimately show "same_places s (vfork_start c i s)" unfolding vfork_start_def using same_places_trans by blast
qed

lemma same_places_turns:
  "same_places s (snd (nanosleep_turn f c s))" "same_places s (trace_stop_current c s)"
  "same_places s (snd (waitpid_stopped_locked c i spid s))" "same_places s (snd (waitpid_claim c i zpid b s))"
proof -
  show "same_places s (snd (nanosleep_turn f c s))" "same_places s (snd (waitpid_stopped_locked c i spid s))"
    "same_places s (snd (waitpid_claim c i zpid b s))"
    by (auto simp: nanosleep_turn_def waitpid_stopped_locked_def waitpid_claim_def Let_def)
  have "same_places s (proc_upd (cur s c) (\<lambda>p. p\<lparr>trace_wait_pending := True, p_state := PROC_TRACED_STOP\<rparr>) s)" by auto
  then show "same_places s (trace_stop_current c s)"
    unfolding trace_stop_current_def Let_def using same_places_wake_pid same_places_trans by blast
qed

lemma same_places_trace:
  "same_places s (snd (ptrace_traceme r c s))" "same_places s (snd (ptrace_attach r c pd s))" "same_places s (execve_unblock c s)"
proof -
  show "same_places s (snd (ptrace_traceme r c s))" by (auto simp: ptrace_traceme_def)
  have "same_places s (proc_upd i (\<lambda>p. p\<lparr>tracer_pid := me, trace_wait_pending := True, p_state := PROC_TRACED_STOP\<rparr>) s)" for i me
    by auto
  then show "same_places s (snd (ptrace_attach r c pd s))"
    using same_places_wake_pid same_places_trans by (fastforce simp: ptrace_attach_def Let_def split: option.splits)
  have "same_places t (proc_upd v proc_wake_blocked_locked t)" for v t
    by (rule same_places_upd) (simp_all add: proc_wake_blocked_locked_def)
  moreover have "same_places t (proc_upd i (\<lambda>p. p\<lparr>vfork_parent := None\<rparr>) t)" for i t by auto
  ultimately show "same_places s (execve_unblock c s)"
    using same_places_trans by (fastforce simp: execve_unblock_def split: option.splits)
qed

lemma sched_inv_life: "life_step s s' \<Longrightarrow> sched_inv s \<Longrightarrow> sched_inv s'"
proof (induction rule: life_step.induct)
  case (life_switch c s)
  then show ?case by (intro sched_inv_switch)
next
  case (life_tick c s from_user)
  then show ?case using same_places_inv [OF same_places_timer] by blast
next
  case (life_wake i s)
  have "same_places s (proc_upd i proc_wake_blocked_locked s)"
    by (rule same_places_upd) (simp_all add: proc_wake_blocked_locked_def)
  then show ?case using life_wake by (auto intro: same_places_inv)
next
  case (life_signal i s)
  have "same_places s (proc_upd i wake_sleeping s)" by (rule same_places_upd) (simp_all add: wake_sleeping_def)
  then show ?case using life_signal by (auto intro: same_places_inv)
next
  case (life_resume i s)
  have "same_places s (proc_upd i trace_resume_target s)"
    by (rule same_places_upd) (simp_all add: trace_resume_target_def Let_def)
  then show ?case using life_resume by (auto intro: same_places_inv)
next
  case (life_detach i s)
  have "same_places s (proc_upd i ptrace_detach s)"
    by (rule same_places_upd) (simp_all add: ptrace_detach_def trace_resume_target_def Let_def)
  then show ?case using life_detach by (auto intro: same_places_inv)
next
  case (life_traceme c s requested)
  then show ?case using same_places_inv [OF same_places_trace(1)] by blast
next
  case (life_attach c s requested pd)
  then show ?case using same_places_inv [OF same_places_trace(2)] by blast
next
  case (life_exec c s)
  then show ?case using same_places_inv [OF same_places_trace(3)] by blast
next
  case (life_deadline c s t)
  have "same_places s (proc_upd (cur s c) (\<lambda>p. p\<lparr>sleep_until := t\<rparr>) s)" by auto
  then show ?case using life_deadline by (auto intro: same_places_inv)
next
  case (life_sleep c s rem_fault)
  then show ?case using same_places_inv [OF same_places_turns(1)] by blast
next
  case (life_stop c s)
  then show ?case using same_places_inv [OF same_places_turns(2)] by blast
next
  case (life_alloc s)
  then show ?case by (rule sched_inv_alloc)
next
  case (life_core1 s stack_ok)
  note D = sched_invD [OF life_core1(2)]
  show ?case
  proof (cases s rule: proc_alloc_cases)
    case full
    then show ?thesis using life_core1(2) by (simp add: core1_sched_entry_def)
  next
    case (slot i)
    show ?thesis
    proof (cases stack_ok)
      case False
      then show ?thesis using sched_inv_alloc [OF life_core1(2)] slot(4) by (simp add: core1_sched_entry_def)
    next
      case True
      have "j \<noteq> i" if "c < 2" "current_core s ! c = Some j" for c j using D(5) [OF that] slot(3) by auto
      then show ?thesis using D slot True life_core1(1) by (auto simp: core1_sched_entry_def sched_inv_def nth_list_update)
    qed
  qed
next
  case (life_ready i s)
  have "same_places s (proc_upd i (\<lambda>p. p\<lparr>p_state := PROC_RUNNABLE\<rparr>) s)" by auto
  then show ?case using life_ready(4) by (rule same_places_inv)
next
  case (life_vfork_init c s i)
  then show ?case using same_places_inv [OF same_places_vfork(1)] by blast
next
  case (life_exit c s status)
  then show ?case using same_places_inv [OF same_places_exit] by blast
next
  case (life_wait_stopped c s i stopped_pid)
  then show ?case using same_places_inv [OF same_places_turns(3)] by blast
next
  case (life_wait_claim c s i zombie_pid is_child)
  then show ?case using same_places_inv [OF same_places_turns(4)] by blast
qed

lemma sched_inv_block: "sched_inv s \<Longrightarrow> sched_inv (sched_block_current c channel s)"
proof -
  have "same_places s (sched_block_current c channel s)" unfolding sched_block_current_def by auto
  then show "sched_inv s \<Longrightarrow> sched_inv (sched_block_current c channel s)" by (rule same_places_inv)
qed

lemma sched_inv_wakeup: "sched_inv s \<Longrightarrow> sched_inv (sched_wakeup channel s)"
proof -
  have "same_places s (s\<lparr>proc_table := map (wake_on channel) (proc_table s)\<rparr>)" by auto
  then have "same_places s (sched_wakeup channel s)" by (simp add: sched_wakeup_def Let_def)
  then show "sched_inv s \<Longrightarrow> sched_inv (sched_wakeup channel s)" by (rule same_places_inv)
qed

lemma sched_inv_free:
  assumes inv: "sched_inv s" and off: "running_on_core (proc s i) < 0"
  shows "sched_inv (proc_upd i (\<lambda>p. p\<lparr>p_state := PROC_FREE\<rparr>) s)"
proof -
  have "proc (proc_upd i (\<lambda>p. p\<lparr>p_state := PROC_FREE\<rparr>) s) j = proc s j" if "c < 2" "current_core s ! c = Some j" for c j
  proof -
    have "j \<noteq> i" using sched_invD(4) [OF inv that] off by auto
    then show ?thesis by (simp add: proc_upd_def)
  qed
  then show ?thesis
    by (intro sched_inv_table [OF inv]) (use sched_invD(1) [OF inv] in simp_all)
qed




subsection \<open>Runs\<close>

lemma life_run: "life_step\<^sup>*\<^sup>* s s' \<Longrightarrow> (sched_step b)\<^sup>*\<^sup>* s s'"
  by (induction rule: rtranclp_induct) (auto intro: rtranclp.rtrancl_into_rtrancl step_life)

text \<open>After boot: process 1 is made ready, the second core starts with its idle process in slot 2, core 0
  switches to process 1, and process 1 makes a child in slot 3.\<close>

definition demo_ready1 :: kstate where
  "demo_ready1 = proc_upd 1 (\<lambda>p. p\<lparr>p_state := PROC_RUNNABLE\<rparr>) (snd (proc_alloc sched_boot))"

definition demo_two :: kstate where
  "demo_two = ctx_switch 0 (core1_sched_entry True demo_ready1)"

definition demo_child :: kstate where
  "demo_child = vfork_child_init 0 3 (snd (proc_alloc demo_two))"

text \<open>The child starts and is chosen by core 0; the parent is woken and chosen by core 1.\<close>

definition demo_forked :: kstate where
  "demo_forked = vfork_start 0 3 demo_child"

definition demo_pair :: kstate where
  "demo_pair = ctx_switch 1 (proc_upd 1 proc_wake_blocked_locked (ctx_switch 0 demo_forked))"

lemma demo_child_life: "life_step\<^sup>*\<^sup>* sched_boot demo_child"
proof -
  have "life_step sched_boot (snd (proc_alloc sched_boot))" by (rule life_alloc)
  moreover have "life_step (snd (proc_alloc sched_boot)) demo_ready1"
    unfolding demo_ready1_def by (rule life_ready) code_simp+
  moreover have "life_step demo_ready1 (core1_sched_entry True demo_ready1)" by (rule life_core1) code_simp
  moreover have "life_step (core1_sched_entry True demo_ready1) demo_two" unfolding demo_two_def by (rule life_switch) code_simp+
  moreover have "life_step demo_two (snd (proc_alloc demo_two))" by (rule life_alloc)
  moreover have "life_step (snd (proc_alloc demo_two)) demo_child"
    unfolding demo_child_def by (rule life_vfork_init) code_simp+
  ultimately show ?thesis by (meson converse_rtranclp_into_rtranclp rtranclp.rtrancl_refl)
qed

lemma demo_child_free: "current_core demo_child ! 0 \<noteq> None \<and> p_state (proc demo_child 3) = PROC_FREE \<and> pid (proc demo_child 3) \<noteq> 0"
  by code_simp

lemma demo_pair_life: "life_step\<^sup>*\<^sup>* demo_forked demo_pair"
proof -
  have "life_step demo_forked (ctx_switch 0 demo_forked)" by (rule life_switch) code_simp+
  moreover have "life_step (ctx_switch 0 demo_forked) (proc_upd 1 proc_wake_blocked_locked (ctx_switch 0 demo_forked))"
    by (rule life_wake) simp
  moreover have "life_step (proc_upd 1 proc_wake_blocked_locked (ctx_switch 0 demo_forked)) demo_pair"
    unfolding demo_pair_def by (rule life_switch) code_simp+
  ultimately show ?thesis by (meson converse_rtranclp_into_rtranclp rtranclp.rtrancl_refl)
qed

lemma demo_pair_run: "(sched_step b)\<^sup>*\<^sup>* sched_boot demo_pair"
proof -
  have "sched_step b demo_child demo_forked" unfolding demo_forked_def by (rule step_vfork) (use demo_child_free in simp_all)
  then show ?thesis using life_run [OF demo_child_life] life_run [OF demo_pair_life] by (meson rtranclp.rtrancl_into_rtrancl rtranclp_trans)
qed

lemma demo_pair_cores: "current_core demo_pair = [Some 3, Some 1] \<and> p_state (proc demo_pair 3) = PROC_RUNNABLE
    \<and> p_state (proc demo_pair 1) = PROC_RUNNABLE \<and> pid (proc demo_pair 1) = 1 \<and> ppid (proc demo_pair 3) = 1"
  by code_simp


text \<open>The child exits on core 0; before core 0 has switched away from it, the parent on core 1 reaps it, the
  slot is freed, and the parent makes a new child, which gets the slot and is chosen by core 1.\<close>

definition demo_reaping :: kstate where
  "demo_reaping = snd (waitpid_claim 1 3 3 True (sys_exit_proc 0 0 demo_pair))"

definition demo_freed :: kstate where
  "demo_freed = proc_upd 3 (\<lambda>p. p\<lparr>p_state := PROC_FREE\<rparr>) demo_reaping"

definition demo_again :: kstate where
  "demo_again = vfork_child_init 1 3 (snd (proc_alloc demo_freed))"

definition demo_twice :: kstate where
  "demo_twice = ctx_switch 1 (vfork_start 1 3 demo_again)"

lemma demo_again_life: "life_step\<^sup>*\<^sup>* demo_freed demo_again"
proof -
  have "life_step demo_freed (snd (proc_alloc demo_freed))" by (rule life_alloc)
  moreover have "life_step (snd (proc_alloc demo_freed)) demo_again"
    unfolding demo_again_def by (rule life_vfork_init) code_simp+
  ultimately show ?thesis by (meson converse_rtranclp_into_rtranclp rtranclp.rtrancl_refl)
qed

theorem reaped_slot_runs_twice:
  "(sched_step False)\<^sup>*\<^sup>* sched_boot demo_twice \<and> current_core demo_twice = [Some 3, Some 3]"
proof -
  have 1: "life_step demo_pair (sys_exit_proc 0 0 demo_pair)" by (rule life_exit) code_simp+
  have 2: "life_step (sys_exit_proc 0 0 demo_pair) demo_reaping" unfolding demo_reaping_def by (rule life_wait_claim) code_simp+
  have 3: "sched_step False demo_reaping demo_freed" unfolding demo_freed_def by (rule step_free) code_simp+
  have 4: "sched_step False demo_again (vfork_start 1 3 demo_again)" by (rule step_vfork) code_simp+
  have 5: "life_step (vfork_start 1 3 demo_again) demo_twice" unfolding demo_twice_def by (rule life_switch) code_simp+
  have "current_core demo_twice = [Some 3, Some 3]" by code_simp
  then show ?thesis
    using demo_pair_run [of False] step_life [OF 1, of False] step_life [OF 2, of False] 3 life_run [OF demo_again_life, of False] 4
      step_life [OF 5, of False]
    by (meson rtranclp.rtrancl_into_rtrancl rtranclp_trans)
qed

subsection \<open>Process numbers\<close>

text \<open>Process numbers are unique, and only process 1 can be its own parent (it adopts itself if it was a
  child of the process whose children it adopts).\<close>

definition pid_inv :: "kstate \<Rightarrow> bool" where
  "pid_inv s \<longleftrightarrow> length (proc_table s) = PROC_MAX \<and> 1 \<le> next_pid s \<and> pid (proc s 0) = 0
     \<and> (\<forall>i. 1 \<le> i \<and> i < PROC_MAX \<longrightarrow> 0 \<le> pid (proc s i) \<and> pid (proc s i) < next_pid s
          \<and> (p_state (proc s i) \<noteq> PROC_FREE \<longrightarrow> pid (proc s i) \<noteq> 0)
          \<and> (ppid (proc s i) = pid (proc s i) \<longrightarrow> pid (proc s i) \<le> 1))
     \<and> (\<forall>i j. 1 \<le> i \<and> i < PROC_MAX \<and> 1 \<le> j \<and> j < PROC_MAX \<and> pid (proc s i) = pid (proc s j) \<and> pid (proc s i) \<noteq> 0 \<longrightarrow> i = j)"

lemma pid_invD:
  assumes "pid_inv s"
  shows "length (proc_table s) = PROC_MAX"
    "1 \<le> i \<Longrightarrow> i < PROC_MAX \<Longrightarrow> ppid (proc s i) = pid (proc s i) \<Longrightarrow> pid (proc s i) \<le> 1"
    "1 \<le> i \<Longrightarrow> i < PROC_MAX \<Longrightarrow> p_state (proc s i) \<noteq> PROC_FREE \<Longrightarrow> 0 < pid (proc s i)"
    "i < PROC_MAX \<Longrightarrow> 1 \<le> j \<Longrightarrow> j < PROC_MAX \<Longrightarrow> pid (proc s i) = pid (proc s j) \<Longrightarrow> pid (proc s j) \<noteq> 0 \<Longrightarrow> i = j"
    "i < PROC_MAX \<Longrightarrow> j < PROC_MAX \<Longrightarrow> p_state (proc s i) \<noteq> PROC_FREE \<Longrightarrow> p_state (proc s j) \<noteq> PROC_FREE \<Longrightarrow>
       pid (proc s i) = pid (proc s j) \<Longrightarrow> i = j"
proof -
  show "length (proc_table s) = PROC_MAX"
    and 2: "\<And>i. 1 \<le> i \<Longrightarrow> i < PROC_MAX \<Longrightarrow> ppid (proc s i) = pid (proc s i) \<Longrightarrow> pid (proc s i) \<le> 1"
    using assms unfolding pid_inv_def by blast+
  show 3: "\<And>i. 1 \<le> i \<Longrightarrow> i < PROC_MAX \<Longrightarrow> p_state (proc s i) \<noteq> PROC_FREE \<Longrightarrow> 0 < pid (proc s i)"
    using assms unfolding pid_inv_def by (metis order_le_less)
  have u: "\<And>i j. 1 \<le> i \<Longrightarrow> i < PROC_MAX \<Longrightarrow> 1 \<le> j \<Longrightarrow> j < PROC_MAX \<Longrightarrow> pid (proc s i) = pid (proc s j) \<Longrightarrow> pid (proc s i) \<noteq> 0 \<Longrightarrow> i = j"
    using assms unfolding pid_inv_def by blast
  have z: "pid (proc s 0) = 0" using assms unfolding pid_inv_def by blast
  show "\<And>i j. i < PROC_MAX \<Longrightarrow> 1 \<le> j \<Longrightarrow> j < PROC_MAX \<Longrightarrow> pid (proc s i) = pid (proc s j) \<Longrightarrow> pid (proc s j) \<noteq> 0 \<Longrightarrow> i = j"
    using u z by (metis less_one not_less)
  show "\<And>i j. i < PROC_MAX \<Longrightarrow> j < PROC_MAX \<Longrightarrow> p_state (proc s i) \<noteq> PROC_FREE \<Longrightarrow> p_state (proc s j) \<noteq> PROC_FREE \<Longrightarrow>
       pid (proc s i) = pid (proc s j) \<Longrightarrow> i = j"
    using u z 3 by (metis less_irrefl less_one not_less)
qed

lemma quietD:
  assumes "quiet k s s'" "p < length (proc_table s)"
  shows "kmutex_held (proc s' p) = kmutex_held (proc s p)" "pid (proc s' p) = pid (proc s p)"
    "k \<Longrightarrow> ppid (proc s' p) = ppid (proc s p)"
    "p_state (proc s' p) = PROC_BLOCKED \<Longrightarrow> p_state (proc s p) = PROC_BLOCKED \<and> wait_channel (proc s' p) = wait_channel (proc s p)"
    "p_state (proc s' p) = PROC_ZOMBIE \<Longrightarrow> p_state (proc s p) = PROC_ZOMBIE"
    "p_state (proc s' p) = PROC_FREE \<longleftrightarrow> p_state (proc s p) = PROC_FREE"
  using assms by (auto simp: quiet_def quiet_pcb_def)

text \<open>A change of the table that keeps the numbers, and parents unless they become process 1.\<close>

lemma pid_inv_keep:
  assumes inv: "pid_inv s" and len: "length (proc_table s') = PROC_MAX" and nx: "next_pid s' = next_pid s"
    and pids: "\<And>i. i < PROC_MAX \<Longrightarrow> pid (proc s' i) = pid (proc s i)"
    and st: "\<And>i. i < PROC_MAX \<Longrightarrow> p_state (proc s' i) \<noteq> PROC_FREE \<Longrightarrow> p_state (proc s i) \<noteq> PROC_FREE \<or> pid (proc s i) \<noteq> 0"
    and pp: "\<And>i. i < PROC_MAX \<Longrightarrow> 1 \<le> i \<Longrightarrow> ppid (proc s' i) = ppid (proc s i) \<or> ppid (proc s' i) = 1 \<or> ppid (proc s' i) \<noteq> pid (proc s i)"
  shows "pid_inv s'"
proof -
  have "0 \<le> pid (proc s' i) \<and> pid (proc s' i) < next_pid s' \<and> (p_state (proc s' i) \<noteq> PROC_FREE \<longrightarrow> pid (proc s' i) \<noteq> 0)
      \<and> (ppid (proc s' i) = pid (proc s' i) \<longrightarrow> pid (proc s' i) \<le> 1)" if i: "1 \<le> i" "i < PROC_MAX" for i
  proof -
    have b: "0 \<le> pid (proc s i)" "pid (proc s i) < next_pid s" using inv i unfolding pid_inv_def by blast+
    have n: "p_state (proc s i) \<noteq> PROC_FREE \<Longrightarrow> pid (proc s i) \<noteq> 0" using pid_invD(3) [OF inv i] by simp
    have p: "ppid (proc s i) = pid (proc s i) \<Longrightarrow> pid (proc s i) \<le> 1" by (rule pid_invD(2) [OF inv i])
    have "p_state (proc s' i) \<noteq> PROC_FREE \<longrightarrow> pid (proc s i) \<noteq> 0" using n st [OF i(2)] by blast
    moreover have "ppid (proc s' i) = pid (proc s i) \<longrightarrow> pid (proc s i) \<le> 1" using p pp [OF i(2,1)] by (metis order_refl)
    ultimately show ?thesis unfolding pids [OF i(2)] nx using b by blast
  qed
  moreover have "i = j" if "1 \<le> i \<and> i < PROC_MAX \<and> 1 \<le> j \<and> j < PROC_MAX \<and> pid (proc s' i) = pid (proc s' j) \<and> pid (proc s' i) \<noteq> 0" for i j
  proof (rule pid_invD(4) [OF inv])
    show "pid (proc s i) = pid (proc s j)" "pid (proc s j) \<noteq> 0" using that pids [of i] pids [of j] by metis+
  qed (use that in blast)+
  moreover have "pid (proc s' 0) = 0" using pids [of 0] inv by (simp add: pid_inv_def)
  moreover have "1 \<le> next_pid s'" using nx inv by (simp add: pid_inv_def)
  ultimately show ?thesis using len unfolding pid_inv_def by blast
qed

lemma pid_inv_quiet: "pid_inv s \<Longrightarrow> quiet True s s' \<Longrightarrow> pid_inv s'"
proof (rule pid_inv_keep)
  assume inv: "pid_inv s" and q: "quiet True s s'"
  note len = pid_invD(1) [OF inv]
  show "length (proc_table s') = PROC_MAX" "next_pid s' = next_pid s" using q len by (auto simp: quiet_def)
  fix i :: nat assume "i < PROC_MAX"
  then have i: "i < length (proc_table s)" using len by simp
  show "pid (proc s' i) = pid (proc s i)" using quietD(2) [OF q i] .
  show "p_state (proc s' i) \<noteq> PROC_FREE \<Longrightarrow> p_state (proc s i) \<noteq> PROC_FREE \<or> pid (proc s i) \<noteq> 0" using quietD(6) [OF q i] by simp
  show "ppid (proc s' i) = ppid (proc s i) \<or> ppid (proc s' i) = 1 \<or> ppid (proc s' i) \<noteq> pid (proc s i)" using quietD(3) [OF q i] by simp
qed

lemma pid_inv_upd:
  assumes inv: "pid_inv s" and "i < PROC_MAX" and "pid (g (proc s i)) = pid (proc s i)"
    and "p_state (g (proc s i)) \<noteq> PROC_FREE \<Longrightarrow> p_state (proc s i) \<noteq> PROC_FREE \<or> pid (proc s i) \<noteq> 0"
    and "ppid (g (proc s i)) = ppid (proc s i) \<or> ppid (g (proc s i)) = 1 \<or> ppid (g (proc s i)) \<noteq> pid (proc s i)"
  shows "pid_inv (proc_upd i g s)"
proof -
  have pr: "proc (proc_upd i g s) j = (if j = i then g (proc s i) else proc s j)" for j
    using assms(2) pid_invD(1) [OF inv] by simp
  show ?thesis
  proof (rule pid_inv_keep [OF inv])
    fix j :: nat
    show "pid (proc (proc_upd i g s) j) = pid (proc s j)"
      and "p_state (proc (proc_upd i g s) j) \<noteq> PROC_FREE \<Longrightarrow> p_state (proc s j) \<noteq> PROC_FREE \<or> pid (proc s j) \<noteq> 0"
      and "ppid (proc (proc_upd i g s) j) = ppid (proc s j) \<or> ppid (proc (proc_upd i g s) j) = 1 \<or> ppid (proc (proc_upd i g s) j) \<noteq> pid (proc s j)"
      using assms(3-5) by (cases "j = i"; simp add: pr)+
  qed (use pid_invD(1) [OF inv] in simp_all)
qed

lemma pid_inv_alloc:
  assumes inv: "pid_inv s" shows "pid_inv (snd (proc_alloc s))"
proof (cases s rule: proc_alloc_cases)
  case full
  then show ?thesis using inv by simp
next
  case (slot i)
  define q where "q = pcb_zero\<lparr>pid := next_pid s, umask_val := 0x12, running_on_core := - 1,
            start_time := sched_get_ticks s, fd_map := replicate FD_MAX (- 1)\<rparr>"
  have s': "snd (proc_alloc s) = proc_upd i (\<lambda>_. q) (s\<lparr>next_pid := next_pid s + 1\<rparr>)" using slot(4) by (simp add: q_def)
  have q: "pid q = next_pid s" "p_state q = PROC_FREE" "ppid q = 0" by (simp_all add: q_def pcb_zero_def)
  have n: "1 \<le> next_pid s" and lt: "\<And>j. 1 \<le> j \<Longrightarrow> j < PROC_MAX \<Longrightarrow> 0 \<le> pid (proc s j) \<and> pid (proc s j) < next_pid s"
    using inv unfolding pid_inv_def by blast+
  have pr: "proc (snd (proc_alloc s)) j = (if j = i then q else proc s j)" "next_pid (snd (proc_alloc s)) = next_pid s + 1"
    "length (proc_table (snd (proc_alloc s))) = PROC_MAX" for j
    using slot(2) pid_invD(1) [OF inv] by (simp_all add: s' proc_upd_def)
  have 1: "0 \<le> pid (proc (snd (proc_alloc s)) j) \<and> pid (proc (snd (proc_alloc s)) j) < next_pid s + 1
      \<and> (p_state (proc (snd (proc_alloc s)) j) \<noteq> PROC_FREE \<longrightarrow> pid (proc (snd (proc_alloc s)) j) \<noteq> 0)
      \<and> (ppid (proc (snd (proc_alloc s)) j) = pid (proc (snd (proc_alloc s)) j) \<longrightarrow> pid (proc (snd (proc_alloc s)) j) \<le> 1)"
    if "1 \<le> j" "j < PROC_MAX" for j
  proof (cases "j = i")
    case True
    then show ?thesis using q n by (simp add: pr)
  next
    case False
    then show ?thesis using inv that lt [OF that] unfolding pid_inv_def pr by auto
  qed
  have 2: "j = k" if "1 \<le> j \<and> j < PROC_MAX \<and> 1 \<le> k \<and> k < PROC_MAX
      \<and> pid (proc (snd (proc_alloc s)) j) = pid (proc (snd (proc_alloc s)) k) \<and> pid (proc (snd (proc_alloc s)) j) \<noteq> 0" for j k
  proof (cases "j = i \<or> k = i")
    case True
    then show ?thesis using lt [of j] lt [of k] that q(1) unfolding pr by (metis less_irrefl)
  next
    case False
    then show ?thesis using pid_invD(4) [OF inv, of j k] that unfolding pr by metis
  qed
  have 3: "pid (proc (snd (proc_alloc s)) 0) = 0" using inv slot(1) by (simp add: pr pid_inv_def)
  show ?thesis unfolding pid_inv_def pr(2,3) using 1 2 3 n by auto
qed

lemma pid_inv_boot: "pid_inv sched_boot"
proof -
  have "next_pid sched_boot = 1" by (simp add: sched_boot_def proc_init_def)
  moreover have "pid (proc sched_boot i) = 0" "i \<noteq> 0 \<Longrightarrow> p_state (proc sched_boot i) = PROC_FREE" if "i < PROC_MAX" for i
    using that by (simp_all add: boot_proc pcb_zero_def)
  ultimately show ?thesis unfolding pid_inv_def using boot_cores(2) by auto
qed

subsection \<open>No exit is missed\<close>

text \<open>No process sleeps in \<^verbatim>\<open>sys_waitpid\<close> while a child it waits for is a zombie.\<close>

definition wait_ok :: "(nat \<Rightarrow> int option) \<Rightarrow> kstate \<Rightarrow> bool" where
  "wait_ok X s \<longleftrightarrow> (\<forall>w < PROC_MAX. \<forall>pd. X w = Some pd \<and> p_state (proc s w) = PROC_BLOCKED \<and> wait_channel (proc s w) = None \<longrightarrow>
     (\<forall>i. 1 \<le> i \<and> i < PROC_MAX \<and> p_state (proc s i) = PROC_ZOMBIE \<and> ppid (proc s i) = pid (proc s w) \<longrightarrow> 0 < pd \<and> pid (proc s i) \<noteq> pd))"

definition wait_inv :: "kstate \<times> (nat \<Rightarrow> int option) \<Rightarrow> bool" where
  "wait_inv = (\<lambda>(s, X). sched_inv s \<and> pid_inv s \<and> wait_ok X s)"

lemma wait_okI:
  assumes "\<And>w pd i. w < PROC_MAX \<Longrightarrow> X w = Some pd \<Longrightarrow> p_state (proc s w) = PROC_BLOCKED \<Longrightarrow> wait_channel (proc s w) = None \<Longrightarrow>
     1 \<le> i \<Longrightarrow> i < PROC_MAX \<Longrightarrow> p_state (proc s i) = PROC_ZOMBIE \<Longrightarrow> ppid (proc s i) = pid (proc s w) \<Longrightarrow> 0 < pd \<and> pid (proc s i) \<noteq> pd"
  shows "wait_ok X s"
  unfolding wait_ok_def using assms by blast

lemma wait_okD:
  assumes "wait_ok X s" "w < PROC_MAX" "X w = Some pd" "p_state (proc s w) = PROC_BLOCKED" "wait_channel (proc s w) = None"
    "1 \<le> i" "i < PROC_MAX" "p_state (proc s i) = PROC_ZOMBIE" "ppid (proc s i) = pid (proc s w)"
  shows "0 < pd \<and> pid (proc s i) \<noteq> pd"
  using assms(1) [unfolded wait_ok_def, rule_format, OF assms(2)] assms(3-) by blast

text \<open>A change keeps this if it makes no new waiter, and a new zombie child of a waiter only where none
  waits for it.\<close>

lemma wait_ok_change:
  assumes ok: "wait_ok X s"
    and w: "\<And>w pd. w < PROC_MAX \<Longrightarrow> X' w = Some pd \<Longrightarrow> p_state (proc s' w) = PROC_BLOCKED \<Longrightarrow> wait_channel (proc s' w) = None \<Longrightarrow>
        X w = Some pd \<and> p_state (proc s w) = PROC_BLOCKED \<and> wait_channel (proc s w) = None \<and> pid (proc s' w) = pid (proc s w)"
    and z: "\<And>w i. w < PROC_MAX \<Longrightarrow> p_state (proc s' w) = PROC_BLOCKED \<Longrightarrow> 1 \<le> i \<Longrightarrow> i < PROC_MAX \<Longrightarrow>
        p_state (proc s' i) = PROC_ZOMBIE \<Longrightarrow> ppid (proc s' i) = pid (proc s' w) \<Longrightarrow>
        p_state (proc s i) = PROC_ZOMBIE \<and> ppid (proc s i) = ppid (proc s' i) \<and> pid (proc s' i) = pid (proc s i)"
  shows "wait_ok X' s'"
proof (rule wait_okI)
  fix w pd i
  assume a: "w < PROC_MAX" "X' w = Some pd" "p_state (proc s' w) = PROC_BLOCKED" "wait_channel (proc s' w) = None"
    and i: "1 \<le> i" "i < PROC_MAX" "p_state (proc s' i) = PROC_ZOMBIE" "ppid (proc s' i) = pid (proc s' w)"
  note w' = w [OF a] and z' = z [OF a(1,3) i]
  show "0 < pd \<and> pid (proc s' i) \<noteq> pd" using wait_okD [OF ok a(1), of pd i] w' z' i by metis
qed

lemma wait_ok_quiet:
  assumes ok: "wait_ok X s" and q: "quiet True s s'" and len: "length (proc_table s) = PROC_MAX"
  shows "wait_ok X s'"
  by (rule wait_ok_change [OF ok]) (use quietD [OF q] len in auto)

lemma wake_pid_woken:
  assumes inv: "pid_inv s" and w: "w < PROC_MAX" and b: "p_state (proc (proc_wake_blocked_pid_locked pd s) w) = PROC_BLOCKED"
  shows "pid (proc s w) \<noteq> pd"
proof
  assume pd: "pid (proc s w) = pd"
  note len = pid_invD(1) [OF inv]
  have wb: "p_state (proc s w) = PROC_BLOCKED"
    using quietD(4) [OF quiet_wake_pid _ b] w len by auto
  let ?P = "\<lambda>i. proc_state_is_live (p_state (proc s i)) \<and> pid (proc s i) = pd"
  show False
  proof (cases "find ?P [0..<PROC_MAX]")
    case None
    then have "\<not> ?P w" using w unfolding find_upt_None by blast
    then show False using wb pd by (simp add: proc_state_is_live_def)
  next
    case (Some i)
    then have i: "i < PROC_MAX" "p_state (proc s i) \<noteq> PROC_FREE" "pid (proc s i) = pd"
      unfolding find_upt_Some by (auto simp: proc_state_is_live_def)
    have "i = w" by (rule pid_invD(5) [OF inv]) (use i w wb pd in simp_all)
    then show False using b Some w len wb by (simp add: proc_wake_blocked_pid_locked_def proc_wake_blocked_locked_def)
  qed
qed

lemma quiet_exit_wakes: "quiet k s (exit_wakes i status s)"
proof -
  define s1 where "s1 = proc_upd i (\<lambda>p. p\<lparr>exit_status := status\<rparr>) s"
  define s2 where "s2 = (case vfork_parent (proc s1 i) of None \<Rightarrow> s1
      | Some v \<Rightarrow> proc_upd i (\<lambda>p. p\<lparr>vfork_parent := None\<rparr>) (proc_upd v proc_wake_blocked_locked s1))"
  have "quiet k s s1" by (auto simp: s1_def)
  moreover have "quiet k s1 (proc_upd i (\<lambda>p. p\<lparr>vfork_parent := None\<rparr>) (proc_upd v proc_wake_blocked_locked s1))" for v
    by (rule quiet_trans [OF quiet_upd quiet_upd]) simp_all
  then have "quiet k s1 s2" by (simp add: s2_def split: option.splits)
  ultimately have "quiet k s s2" by (rule quiet_trans)
  then have "quiet k s (proc_wake_blocked_pid_locked a s2)" "quiet k s (proc_wake_blocked_pid_locked b (proc_wake_blocked_pid_locked a s2))" for a b
    using quiet_wake_pid quiet_trans by blast+
  then show ?thesis unfolding exit_wakes_def Let_def s1_def [symmetric] s2_def [symmetric] by auto
qed

lemma exit_wakes_parent:
  assumes inv: "pid_inv s" and i: "i < PROC_MAX" and w: "w < PROC_MAX" "p_state (proc (exit_wakes i status s) w) = PROC_BLOCKED"
  shows "pid (proc s w) \<noteq> ppid (proc s i)"
proof -
  define s1 where "s1 = proc_upd i (\<lambda>p. p\<lparr>exit_status := status\<rparr>) s"
  define s2 where "s2 = (case vfork_parent (proc s1 i) of None \<Rightarrow> s1
      | Some v \<Rightarrow> proc_upd i (\<lambda>p. p\<lparr>vfork_parent := None\<rparr>) (proc_upd v proc_wake_blocked_locked s1))"
  have "quiet True s s1" by (auto simp: s1_def)
  moreover have "quiet True s1 (proc_upd i (\<lambda>p. p\<lparr>vfork_parent := None\<rparr>) (proc_upd v proc_wake_blocked_locked s1))" for v
    by (rule quiet_trans [OF quiet_upd quiet_upd]) simp_all
  then have "quiet True s1 s2" by (simp add: s2_def split: option.splits)
  ultimately have q: "quiet True s s2" by (rule quiet_trans)
  note len = pid_invD(1) [OF inv]
  have inv2: "pid_inv s2" by (rule pid_inv_quiet [OF inv q])
  define s3 where "s3 = proc_wake_blocked_pid_locked (ppid (proc s2 i)) s2"
  have "quiet True s3 (exit_wakes i status s)"
    unfolding exit_wakes_def Let_def s1_def [symmetric] s2_def [symmetric] s3_def [symmetric] by (simp add: quiet_wake_pid)
  moreover have "w < length (proc_table s3)" using pid_invD(1) [OF pid_inv_quiet [OF inv2 quiet_wake_pid]] w(1) by (simp add: s3_def)
  ultimately have "p_state (proc s3 w) = PROC_BLOCKED" using quietD(4) w(2) by blast
  then have "pid (proc s2 w) \<noteq> ppid (proc s2 i)" using wake_pid_woken [OF inv2 w(1)] by (simp add: s3_def)
  then show ?thesis using quietD(2) [OF q, of w] quietD(3) [OF q, of i] w i len by simp
qed

lemma adopt_ppid:
  assumes "length (proc_table s) = PROC_MAX" "i < PROC_MAX" "j < PROC_MAX"
  shows "ppid (proc (exit_adopt me i s) j) = (if j = i \<and> proc_state_is_live (p_state (proc s i)) \<and> ppid (proc s i) = me then 1 else ppid (proc s j))"
proof -
  have "ppid (proc (proc_wake_blocked_pid_locked 1 t) k) = ppid (proc t k)" if "length (proc_table t) = PROC_MAX" "k < PROC_MAX" for t k
    using quietD(3) [OF quiet_wake_pid [of True t 1], of k] that by simp
  then show ?thesis using assms by (simp add: exit_adopt_def Let_def)
qed

lemma quiet_adopt: "quiet False s (exit_adopt me i s)"
proof -
  have "quiet False s (proc_upd i (\<lambda>p. p\<lparr>ppid := 1\<rparr>) s)" by auto
  then show ?thesis using quiet_wake_pid quiet_trans by (auto simp: exit_adopt_def Let_def)
qed

text \<open>Adopting one child: a zombie child gets init as its parent, which is woken if it waits.\<close>

lemma adopt_inv:
  assumes inv: "pid_inv s" and ok: "wait_ok X s" and i: "1 \<le> i" "i < PROC_MAX"
  shows "pid_inv (exit_adopt me i s)" "wait_ok X (exit_adopt me i s)"
proof -
  note len = pid_invD(1) [OF inv]
  let ?s = "exit_adopt me i s"
  note q = quietD [OF quiet_adopt [of s me i], unfolded len]
  have len': "length (proc_table ?s) = PROC_MAX" "next_pid ?s = next_pid s"
    using quiet_adopt [of s me i] len by (simp_all add: quiet_def)
  show "pid_inv ?s"
  proof (rule pid_inv_keep [OF inv len'])
    fix j assume j: "j < PROC_MAX"
    show "pid (proc ?s j) = pid (proc s j)" by (rule q(2) [OF j])
    show "p_state (proc ?s j) \<noteq> PROC_FREE \<Longrightarrow> p_state (proc s j) \<noteq> PROC_FREE \<or> pid (proc s j) \<noteq> 0" using q(6) [OF j] by simp
    show "ppid (proc ?s j) = ppid (proc s j) \<or> ppid (proc ?s j) = 1 \<or> ppid (proc ?s j) \<noteq> pid (proc s j)"
      using adopt_ppid [OF len i(2) j] by simp
  qed
  show "wait_ok X ?s"
  proof (rule wait_ok_change [OF ok])
    fix w pd assume "w < PROC_MAX" "X w = Some pd" "p_state (proc ?s w) = PROC_BLOCKED" "wait_channel (proc ?s w) = None"
    then show "X w = Some pd \<and> p_state (proc s w) = PROC_BLOCKED \<and> wait_channel (proc s w) = None \<and> pid (proc ?s w) = pid (proc s w)"
      using q(2,4) by auto
  next
    fix w j assume w: "w < PROC_MAX" "p_state (proc ?s w) = PROC_BLOCKED" and j: "1 \<le> j" "j < PROC_MAX"
      and z: "p_state (proc ?s j) = PROC_ZOMBIE" "ppid (proc ?s j) = pid (proc ?s w)"
    have zj: "p_state (proc s j) = PROC_ZOMBIE" by (rule q(5) [OF j(2) z(1)])
    show "p_state (proc s j) = PROC_ZOMBIE \<and> ppid (proc s j) = ppid (proc ?s j) \<and> pid (proc ?s j) = pid (proc s j)"
    proof (cases "j = i \<and> proc_state_is_live (p_state (proc s i)) \<and> ppid (proc s i) = me")
      case True
      define s1 where "s1 = proc_upd i (\<lambda>p. p\<lparr>ppid := 1\<rparr>) s"
      have pr: "proc s1 k = (if k = i then (proc s i)\<lparr>ppid := 1\<rparr> else proc s k)" for k using i len by (simp add: s1_def)
      have e: "?s = proc_wake_blocked_pid_locked 1 s1" using True zj i len by (simp add: exit_adopt_def s1_def)
      have "pid_inv s1"
        unfolding s1_def by (rule pid_inv_upd [OF inv i(2)]) simp_all
      then have "pid (proc s1 w) \<noteq> 1" using wake_pid_woken w by (simp add: e)
      moreover have "ppid (proc ?s j) = 1" using adopt_ppid [OF len i(2) j(2)] True by simp
      ultimately show ?thesis using z(2) q(2) [OF w(1)] by (simp add: pr split: if_splits)
    next
      case False
      then have "ppid (proc ?s j) = ppid (proc s j)" unfolding adopt_ppid [OF len i(2) j(2)] by (rule if_not_P)
      then show ?thesis using zj q(2) [OF j(2)] by simp
    qed
  qed
qed

text \<open>The whole loop: apart from the invariants, the exiting process keeps its parent and the processes that
  were not blocked stay so.\<close>

lemma adopt_fold:
  assumes "pid_inv s" "wait_ok X s" "\<And>i. i \<in> set is \<Longrightarrow> 1 \<le> i \<and> i < PROC_MAX" "me < PROC_MAX"
    "me \<noteq> 0 \<Longrightarrow> p_state (proc s me) \<noteq> PROC_FREE"
  defines "t \<equiv> fold (exit_adopt (pid (proc s me))) is s"
  shows "pid_inv t \<and> wait_ok X t \<and> quiet False s t \<and> ppid (proc t me) = ppid (proc s me)"
  using assms(1-5) unfolding t_def
proof (induction "is" arbitrary: s)
  case (Cons i "is")
  let ?s = "exit_adopt (pid (proc s me)) i s"
  note len = pid_invD(1) [OF Cons.prems(1)]
  have i: "1 \<le> i" "i < PROC_MAX" using Cons.prems(3) [of i] by auto
  note a = adopt_inv [OF Cons.prems(1,2) i, of "pid (proc s me)"] and q = quietD [OF quiet_adopt [of s "pid (proc s me)" i], unfolded len]
  have pid_me: "pid (proc ?s me) = pid (proc s me)" by (rule q(2) [OF Cons.prems(4)])
  have "pid_inv (fold (exit_adopt (pid (proc ?s me))) is ?s) \<and> wait_ok X (fold (exit_adopt (pid (proc ?s me))) is ?s)
      \<and> quiet False ?s (fold (exit_adopt (pid (proc ?s me))) is ?s) \<and> ppid (proc (fold (exit_adopt (pid (proc ?s me))) is ?s) me) = ppid (proc ?s me)"
  proof (rule Cons.IH [OF a])
    show "me \<noteq> 0 \<Longrightarrow> p_state (proc ?s me) \<noteq> PROC_FREE" using q(6) [OF Cons.prems(4)] Cons.prems(5) by simp
  qed (use Cons.prems in auto)
  moreover have "ppid (proc ?s me) = ppid (proc s me)"
  proof (cases "me = i \<and> ppid (proc s me) = pid (proc s me)")
    case True
    then have "pid (proc s me) = 1" using pid_invD(2) [OF Cons.prems(1), of me] pid_invD(3) [OF Cons.prems(1), of me] Cons.prems(4,5) i by auto
    then show ?thesis using adopt_ppid [OF len i(2) Cons.prems(4), of "pid (proc s me)"] True by simp
  next
    case False
    then show ?thesis using adopt_ppid [OF len i(2) Cons.prems(4), of "pid (proc s me)"] by auto
  qed
  moreover note quiet_trans [OF quiet_adopt [of s "pid (proc s me)" i], of "fold (exit_adopt (pid (proc ?s me))) is ?s"]
  ultimately show ?case by (simp add: pid_me)
qed simp

lemma wait_inv_exit:
  assumes inv: "pid_inv s" and ok: "wait_ok X s" and i: "cur s c < PROC_MAX" "p_state (proc s (cur s c)) \<noteq> PROC_FREE"
  shows "pid_inv (sys_exit_proc c status s) \<and> wait_ok X (sys_exit_proc c status s)"
proof (cases "p_state (proc s (cur s c)) = PROC_ZOMBIE")
  case False
  define me where "me = cur s c"
  define s1 where "s1 = exit_wakes me status s"
  define s2 where "s2 = fold (exit_adopt (pid (proc s1 me))) [1..<PROC_MAX] s1"
  note len = pid_invD(1) [OF inv]
  have q1: "quiet True s s1" unfolding s1_def by (rule quiet_exit_wakes)
  have i1: "pid_inv s1" "wait_ok X s1" by (rule pid_inv_quiet [OF inv q1], rule wait_ok_quiet [OF ok q1 len])
  note len1 = pid_invD(1) [OF i1(1)]
  have nf: "p_state (proc s1 me) \<noteq> PROC_FREE" using quietD(6) [OF q1, of me] i len by (simp add: me_def)
  have J: "pid_inv s2" "wait_ok X s2" "quiet False s1 s2" "ppid (proc s2 me) = ppid (proc s1 me)"
    using adopt_fold [OF i1, of "[1..<PROC_MAX]" me] i nf unfolding s2_def me_def by auto
  note len2 = pid_invD(1) [OF J(1)]
  let ?t = "proc_upd me (\<lambda>p. p\<lparr>p_state := PROC_ZOMBIE\<rparr>) s2"
  have t: "sys_exit_proc c status s = ?t"
    using False by (simp add: sys_exit_proc_def sys_exit_locked_def me_def s1_def s2_def Let_def)
  have me: "me < PROC_MAX" using i by (simp add: me_def)
  have pr: "proc ?t k = (if k = me then (proc s2 me)\<lparr>p_state := PROC_ZOMBIE\<rparr> else proc s2 k)" for k using me len2 by simp
  have nf2: "p_state (proc s2 me) \<noteq> PROC_FREE" using quietD(6) [OF J(3), of me] nf me len1 by simp
  have "pid_inv ?t" by (rule pid_inv_upd [OF J(1) me]) (use nf2 in simp_all)
  moreover have "wait_ok X ?t"
  proof (rule wait_ok_change [OF J(2)])
    fix w j assume w: "w < PROC_MAX" "p_state (proc ?t w) = PROC_BLOCKED" and j: "1 \<le> j" "j < PROC_MAX"
      and z: "p_state (proc ?t j) = PROC_ZOMBIE" "ppid (proc ?t j) = pid (proc ?t w)"
    have wm: "w \<noteq> me" using w(2) by (auto simp: pr)
    have "j \<noteq> me"
    proof
      assume jm: "j = me"
      have "p_state (proc s2 w) = PROC_BLOCKED" using w(2) wm by (simp add: pr)
      then have b: "p_state (proc s1 w) = PROC_BLOCKED" using quietD(4) [OF J(3), of w] w(1) len1 by simp
      have "pid (proc s w) \<noteq> ppid (proc s me)" using exit_wakes_parent [OF inv me w(1)] b by (simp add: s1_def)
      moreover have "pid (proc ?t w) = pid (proc s w)" using wm quietD(2) [OF J(3), of w] quietD(2) [OF q1, of w] w(1) len len1 by (simp add: pr)
      moreover have "ppid (proc ?t me) = ppid (proc s me)" using J(4) quietD(3) [OF q1, of me] me len by (simp add: pr)
      ultimately show False using z(2) jm by simp
    qed
    then show "p_state (proc s2 j) = PROC_ZOMBIE \<and> ppid (proc s2 j) = ppid (proc ?t j) \<and> pid (proc ?t j) = pid (proc s2 j)"
      using z by (simp add: pr)
  qed (auto simp: pr split: if_splits)
  ultimately show ?thesis by (simp add: t)
qed (use inv ok in \<open>simp add: sys_exit_proc_def\<close>)

text \<open>Changing one PCB: the process does not become a waiter, and becomes no zombie.\<close>

lemma wait_inv_upd:
  assumes "pid_inv s" "wait_ok X s" "i < PROC_MAX" and "pid (g (proc s i)) = pid (proc s i)"
    and "p_state (g (proc s i)) \<noteq> PROC_FREE \<Longrightarrow> p_state (proc s i) \<noteq> PROC_FREE \<or> pid (proc s i) \<noteq> 0"
    and "ppid (g (proc s i)) = ppid (proc s i) \<or> ppid (g (proc s i)) = 1 \<or> ppid (g (proc s i)) \<noteq> pid (proc s i)"
    and "p_state (g (proc s i)) \<noteq> PROC_ZOMBIE" and "p_state (g (proc s i)) \<noteq> PROC_BLOCKED \<or> X' i = None"
    and "\<And>j. j \<noteq> i \<Longrightarrow> X' j = X j"
  shows "pid_inv (proc_upd i g s) \<and> wait_ok X' (proc_upd i g s)"
proof
  have pr: "proc (proc_upd i g s) j = (if j = i then g (proc s i) else proc s j)" for j
    using assms(3) pid_invD(1) [OF assms(1)] by simp
  show "pid_inv (proc_upd i g s)" using assms(1,3-6) by (rule pid_inv_upd)
  show "wait_ok X' (proc_upd i g s)"
  proof (rule wait_ok_change [OF assms(2)])
    fix w pd assume a: "X' w = Some pd" "p_state (proc (proc_upd i g s) w) = PROC_BLOCKED" "wait_channel (proc (proc_upd i g s) w) = None"
    then have "w \<noteq> i" using assms(8) by (auto simp: pr)
    then show "X w = Some pd \<and> p_state (proc s w) = PROC_BLOCKED \<and> wait_channel (proc s w) = None
        \<and> pid (proc (proc_upd i g s) w) = pid (proc s w)" using a assms(9) by (simp add: pr)
  next
    fix j assume z: "p_state (proc (proc_upd i g s) j) = PROC_ZOMBIE"
    then have "j \<noteq> i" using assms(7) by (auto simp: pr)
    then show "p_state (proc s j) = PROC_ZOMBIE \<and> ppid (proc s j) = ppid (proc (proc_upd i g s) j)
        \<and> pid (proc (proc_upd i g s) j) = pid (proc s j)" using z by (simp add: pr)
  qed
qed

lemma cur_slot: "sched_inv s \<Longrightarrow> c < 2 \<Longrightarrow> current_core s ! c \<noteq> None \<Longrightarrow> cur s c < PROC_MAX \<and> p_state (proc s (cur s c)) \<noteq> PROC_FREE"
  using sched_invD(3,5) [of s c] by (auto simp: cur_def)

lemma wait_inv_quiet: "pid_inv s \<and> wait_ok X s \<Longrightarrow> quiet True s s' \<Longrightarrow> pid_inv s' \<and> wait_ok X s'"
  using pid_inv_quiet wait_ok_quiet pid_invD(1) by blast

lemma wait_inv_alloc:
  assumes "pid_inv s" "wait_ok X s"
  shows "pid_inv (snd (proc_alloc s)) \<and> wait_ok X (snd (proc_alloc s))"
proof (cases s rule: proc_alloc_cases)
  case full
  then show ?thesis using assms by simp
next
  case (slot i)
  define q where "q = pcb_zero\<lparr>pid := next_pid s, umask_val := 0x12, running_on_core := - 1,
            start_time := sched_get_ticks s, fd_map := replicate FD_MAX (- 1)\<rparr>"
  have pr: "proc (snd (proc_alloc s)) j = (if j = i then q else proc s j)" for j
    using slot(2,4) pid_invD(1) [OF assms(1)] by (simp add: q_def proc_upd_def)
  have "p_state q = PROC_FREE" by (simp add: q_def pcb_zero_def)
  then have "wait_ok X (snd (proc_alloc s))"
    by (intro wait_ok_change [OF assms(2)]) (auto simp: pr split: if_splits)
  then show ?thesis using pid_inv_alloc [OF assms(1)] by simp
qed

lemma quiet_turns:
  assumes "p_state (proc s (cur s c)) \<noteq> PROC_FREE"
  shows "quiet k s (snd (nanosleep_turn f c s))" "quiet k s (trace_stop_current c s)"
    "quiet k s (snd (waitpid_stopped_locked c i spid s))"
proof -
  show "quiet k s (snd (nanosleep_turn f c s))" "quiet k s (snd (waitpid_stopped_locked c i spid s))"
    using assms by (auto simp: nanosleep_turn_def waitpid_stopped_locked_def Let_def quiet_pcb_state)
  have "quiet k s (proc_upd (cur s c) (\<lambda>p. p\<lparr>trace_wait_pending := True, p_state := PROC_TRACED_STOP\<rparr>) s)"
    using assms by (intro quiet_upd) (simp add: quiet_pcb_state)
  then show "quiet k s (trace_stop_current c s)"
    unfolding trace_stop_current_def Let_def using quiet_wake_pid quiet_trans by blast
qed

lemma claim_state: "snd (waitpid_claim c i zpid b s) = s \<or> (p_state (proc s i) = PROC_ZOMBIE \<and>
    (snd (waitpid_claim c i zpid b s) = proc_upd i (\<lambda>p. p\<lparr>tracer_pid := 0, trace_wait_pending := False\<rparr>) s
     \<or> snd (waitpid_claim c i zpid b s) = proc_upd i (\<lambda>p. p\<lparr>p_state := PROC_REAPING\<rparr>) s))"
  by (simp add: waitpid_claim_def Let_def)

lemma wait_inv_core1:
  assumes "pid_inv s" "wait_ok X s"
  shows "pid_inv (core1_sched_entry ok s) \<and> wait_ok X (core1_sched_entry ok s)"
proof (cases s rule: proc_alloc_cases)
  case full
  then show ?thesis using assms by (simp add: core1_sched_entry_def)
next
  case (slot i)
  define s1 where "s1 = snd (proc_alloc s)"
  have I: "pid_inv s1" "wait_ok X s1" using wait_inv_alloc [OF assms] by (simp_all add: s1_def)
  have "1 \<le> next_pid s" using assms(1) by (simp add: pid_inv_def)
  then have "pid (proc s1 i) \<noteq> 0" using slot pid_invD(1) [OF assms(1)] by (simp add: s1_def proc_upd_def)
  then have "pid_inv (proc_upd i (\<lambda>p. p\<lparr>p_state := PROC_RUNNABLE, ticks_remaining := PROC_DEFAULT_TICKS, running_on_core := 1, is_idle := True\<rparr>) s1)
      \<and> wait_ok X (proc_upd i (\<lambda>p. p\<lparr>p_state := PROC_RUNNABLE, ticks_remaining := PROC_DEFAULT_TICKS, running_on_core := 1, is_idle := True\<rparr>) s1)"
    by (intro wait_inv_upd [OF I slot(2)]) simp_all
  moreover have "core1_sched_entry ok s = (if \<not> ok then s1 else (proc_upd i (\<lambda>p. p\<lparr>p_state := PROC_RUNNABLE, ticks_remaining := PROC_DEFAULT_TICKS,
      running_on_core := 1, is_idle := True\<rparr>) s1)\<lparr>current_core := (current_core s1)[1 := Some i]\<rparr>)"
    using slot(4) by (simp add: core1_sched_entry_def s1_def)
  ultimately show ?thesis using I by (simp add: pid_inv_def wait_ok_def)
qed

lemma wait_inv_life: "life_step s s' \<Longrightarrow> sched_inv s \<Longrightarrow> pid_inv s \<and> wait_ok X s \<Longrightarrow> pid_inv s' \<and> wait_ok X s'"
proof (induction rule: life_step.induct)
  case (life_sleep c s rem_fault)
  then show ?case using wait_inv_quiet [OF _ quiet_turns(1)] cur_slot by blast
next
  case (life_stop c s)
  then show ?case using wait_inv_quiet [OF _ quiet_turns(2)] cur_slot by blast
next
  case (life_alloc s)
  then show ?case by (intro wait_inv_alloc) auto
next
  case (life_core1 s stack_ok)
  then show ?case by (intro wait_inv_core1) auto
next
  case (life_ready i s)
  then show ?case by (intro wait_inv_upd) auto
next
  case (life_vfork_init c s i)
  then have I: "pid_inv s" "wait_ok X s" and c: "cur s c < PROC_MAX" "p_state (proc s (cur s c)) \<noteq> PROC_FREE" using cur_slot by auto
  have i: "1 \<le> i" using life_vfork_init(5) I(1) by (cases i) (auto simp: pid_inv_def)
  have "pid (proc s (cur s c)) \<noteq> pid (proc s i)"
    using pid_invD(4) [OF I(1) c(1) i life_vfork_init(3)] life_vfork_init(4,5) c by auto
  then show ?case unfolding vfork_child_init_def Let_def using life_vfork_init(3-5) by (intro wait_inv_upd [OF I]) auto
next
  case (life_exit c s status)
  then show ?case using cur_slot by (intro wait_inv_exit) auto
next
  case (life_wait_stopped c s i stopped_pid)
  then show ?case using wait_inv_quiet [OF _ quiet_turns(3)] cur_slot by blast
next
  case (life_wait_claim c s i zombie_pid is_child)
  have "quiet True s (proc_upd i (\<lambda>p. p\<lparr>tracer_pid := 0, trace_wait_pending := False\<rparr>) s)" by auto
  moreover have "pid_inv (proc_upd i (\<lambda>p. p\<lparr>p_state := PROC_REAPING\<rparr>) s) \<and> wait_ok X (proc_upd i (\<lambda>p. p\<lparr>p_state := PROC_REAPING\<rparr>) s)"
    if "p_state (proc s i) = PROC_ZOMBIE" using life_wait_claim that by (intro wait_inv_upd) auto
  ultimately show ?case using claim_state [of c i zombie_pid is_child s] wait_inv_quiet life_wait_claim(5) by metis
next
  case (life_traceme c s requested)
  show ?case by (rule wait_inv_quiet [OF life_traceme(4) quiet_trace(1)])
next
  case (life_attach c s requested pd)
  show ?case by (rule wait_inv_quiet [OF life_attach(4) quiet_trace(2)])
next
  case (life_exec c s)
  show ?case by (rule wait_inv_quiet [OF life_exec(4) quiet_trace(3)])
next
  case (life_switch c s)
  show ?case by (rule wait_inv_quiet [OF life_switch(4) quiet_switch])
next
  case (life_tick c s from_user)
  show ?case by (rule wait_inv_quiet [OF life_tick(3) quiet_timer])
next
  case (life_deadline c s t)
  show ?case by (rule wait_inv_quiet [OF life_deadline(4)]) auto
qed (rule wait_inv_quiet, assumption, rule quiet_upd, simp)+

lemma wait_inv_block:
  assumes "pid_inv s" "wait_ok X s" and c: "cur s c < PROC_MAX" "p_state (proc s (cur s c)) \<noteq> PROC_FREE"
  shows "pid_inv (sched_block_current c ch s) \<and> wait_ok (X(cur s c := None)) (sched_block_current c ch s)"
  unfolding sched_block_current_def by (intro wait_inv_upd [OF assms(1,2) c(1)]) (use c in auto)

text \<open>The scan of \<^verbatim>\<open>sys_waitpid\<close> finds every zombie child it is asked for, so a caller falls asleep only
  when there is none.\<close>

lemma scan_none_zombie:
  assumes "waitpid_scan c pd wstopped s = Scan_wait" and "1 \<le> i" "i < PROC_MAX"
    and "p_state (proc s i) = PROC_ZOMBIE" "ppid (proc s i) = pid (proc s (cur s c))"
  shows "0 < pd \<and> pid (proc s i) \<noteq> pd"
proof -
  let ?P = "\<lambda>i. waitpid_match (pid (proc s (cur s c))) pd (proc s i)
      \<and> (wstopped \<and> p_state (proc s i) = PROC_TRACED_STOP \<and> trace_wait_pending (proc s i) \<or> p_state (proc s i) = PROC_ZOMBIE)"
  have "find ?P [1..<PROC_MAX] = None" using assms(1) by (auto simp: waitpid_scan_def Let_def split: option.splits if_splits)
  then have "\<not> ?P i" using assms(2,3) unfolding find_upt_None by blast
  then show ?thesis using assms(4,5) by (simp add: waitpid_match_def proc_state_is_live_def)
qed

lemma wait_turn_sleep:
  assumes "sys_waitpid_turn env efault c pd wnohang wstopped s = (Wait_sleep, s')"
  shows "waitpid_scan c pd wstopped s = Scan_wait \<and> s' = sched_block_current c None s"
  using assms by (auto simp: sys_waitpid_turn_def split: wait_scan.splits if_splits prod.splits bool.splits wait_claim.splits)

lemma wait_inv_sleep:
  assumes inv: "pid_inv s" "wait_ok X s" and c: "cur s c < PROC_MAX" "p_state (proc s (cur s c)) \<noteq> PROC_FREE"
    and scan: "waitpid_scan c pd wstopped s = Scan_wait"
  shows "pid_inv (sched_block_current c None s) \<and> wait_ok (X(cur s c := Some pd)) (sched_block_current c None s)"
proof
  let ?s = "sched_block_current c None s"
  have b: "pid_inv ?s" "wait_ok (X(cur s c := None)) ?s" using wait_inv_block [OF inv c] by auto
  show "pid_inv ?s" by (rule b)
  have pr: "proc ?s j = (if j = cur s c then (proc s j)\<lparr>wait_channel := None, p_state := PROC_BLOCKED\<rparr> else proc s j)" for j
    using c pid_invD(1) [OF inv(1)] by (simp add: sched_block_current_def)
  show "wait_ok (X(cur s c := Some pd)) ?s"
  proof (rule wait_okI)
    fix w d i
    assume a: "w < PROC_MAX" "(X(cur s c := Some pd)) w = Some d" "p_state (proc ?s w) = PROC_BLOCKED" "wait_channel (proc ?s w) = None"
      and i: "1 \<le> i" "i < PROC_MAX" "p_state (proc ?s i) = PROC_ZOMBIE" "ppid (proc ?s i) = pid (proc ?s w)"
    show "0 < d \<and> pid (proc ?s i) \<noteq> d"
    proof (cases "w = cur s c")
      case True
      then show ?thesis using scan_none_zombie [OF scan i(1,2)] a(2) i(3,4) by (simp add: pr split: if_splits)
    next
      case False
      then show ?thesis using wait_okD [OF b(2) a(1) _ a(3,4) i] a(2) by simp
    qed
  qed
qed

lemma wait_inv_vfork:
  assumes inv: "pid_inv s" "wait_ok X s" and c: "cur s c < PROC_MAX" "p_state (proc s (cur s c)) \<noteq> PROC_FREE"
    and i: "i < PROC_MAX" "p_state (proc s i) = PROC_FREE" "pid (proc s i) \<noteq> 0"
  shows "pid_inv (vfork_start c i s) \<and> wait_ok (X(cur s c := None)) (vfork_start c i s)"
proof -
  let ?s = "sched_block_current c None s"
  have e: "vfork_start c i s = proc_upd i (\<lambda>p. p\<lparr>p_state := PROC_RUNNABLE\<rparr>) ?s" by (simp add: vfork_start_def sched_block_current_def)
  have b: "pid_inv ?s" "wait_ok (X(cur s c := None)) ?s" using wait_inv_block [OF inv c] by auto
  have "i \<noteq> cur s c" using i(2) c(2) by auto
  then have "pid (proc ?s i) \<noteq> 0" using c i pid_invD(1) [OF inv(1)] by (simp add: sched_block_current_def)
  then show ?thesis unfolding e by (intro wait_inv_upd [OF b i(1)]) auto
qed

lemma wait_inv_step: "wait_step x y \<Longrightarrow> wait_inv x \<Longrightarrow> wait_inv y"
proof (induction rule: wait_step.induct)
  case (ws_life s s' X)
  then show ?case using sched_inv_life wait_inv_life by (auto simp: wait_inv_def)
next
  case (ws_block c s X channel)
  then show ?case using sched_inv_block wait_inv_block cur_slot by (auto simp: wait_inv_def)
next
  case (ws_wakeup s X channel)
  then show ?case using sched_inv_wakeup wait_inv_quiet [OF _ quiet_wakeup] by (auto simp: wait_inv_def)
next
  case (ws_vfork c s i X)
  then show ?case using same_places_inv [OF same_places_vfork(2)] wait_inv_vfork cur_slot by (auto simp: wait_inv_def)
next
  case (ws_free i s X)
  have "pid_inv (proc_upd i (\<lambda>p. p\<lparr>p_state := PROC_FREE\<rparr>) s) \<and> wait_ok X (proc_upd i (\<lambda>p. p\<lparr>p_state := PROC_FREE\<rparr>) s)"
    using ws_free by (intro wait_inv_upd) (auto simp: wait_inv_def)
  then show ?case using sched_inv_free ws_free by (auto simp: wait_inv_def)
next
  case (ws_wait c s env efault pd wnohang wstopped s' X)
  then show ?case using wait_turn_sleep [OF ws_wait(3)] sched_inv_block wait_inv_sleep cur_slot by (auto simp: wait_inv_def)
qed

interpretation wait_run: step_system wait_step wait_inv
  by unfold_locales (rule wait_inv_step)

text \<open>C27: no exit is missed by \<^verbatim>\<open>sys_waitpid\<close>. On every run from boot in which no slot is freed while a
  core still runs it, with fewer than 2^31 processes created: a process asleep in \<^verbatim>\<open>sys_waitpid\<close>, for one child or (with an argument that is not
  positive) for any, has no zombie child that it waits for. So an exit that comes between the scan of the
  children and the falling asleep, an exit at the same time on the other core, and the adoption of a zombie
  by init all wake the waiter. The wake-up of a tracer that is not the parent is not part of the claim.\<close>

theorem waitpid_no_lost_exit:
  assumes "wait_step\<^sup>*\<^sup>* (sched_boot, \<lambda>_. None) (s, X)" and "w < PROC_MAX" and "X w = Some pd"
    and "p_state (proc s w) = PROC_BLOCKED" and "wait_channel (proc s w) = None"
  shows "\<not> (\<exists>i. 1 \<le> i \<and> i < PROC_MAX \<and> p_state (proc s i) = PROC_ZOMBIE \<and> ppid (proc s i) = pid (proc s w)
    \<and> (pd \<le> 0 \<or> pid (proc s i) = pd))"
proof -
  have "wait_inv (sched_boot, \<lambda>_. None)" using sched_inv_boot pid_inv_boot by (simp add: wait_inv_def wait_ok_def)
  then have ok: "wait_ok X s" using wait_run.reach_inv [OF assms(1)] by (simp add: wait_inv_def)
  show ?thesis using wait_okD [OF ok assms(2-5)] by (metis not_less)
qed

text \<open>Process 1 waits on core 1 for any child; its child, in slot 3, then exits on core 0.\<close>

definition demo_waiting :: kstate where
  "demo_waiting = snd (sys_waitpid_turn id False 1 (- 1) False False demo_pair)"

lemma life_wait_run: "life_step\<^sup>*\<^sup>* s s' \<Longrightarrow> wait_step\<^sup>*\<^sup>* (s, X) (s', X)"
  by (induction rule: rtranclp_induct) (auto intro: rtranclp.rtrancl_into_rtrancl ws_life)

lemma demo_waiting_run: "wait_step\<^sup>*\<^sup>* (sched_boot, \<lambda>_. None) (demo_waiting, (\<lambda>_. None)(1 := Some (- 1)))"
proof -
  have c: "cur demo_child 0 = 1" "cur demo_pair 1 = 1" by code_simp+
  have "wait_step (demo_child, \<lambda>_. None) (demo_forked, (\<lambda>_. None)(cur demo_child 0 := None))"
    unfolding demo_forked_def by (rule ws_vfork) (use demo_child_free in simp_all)
  then have 1: "wait_step (demo_child, \<lambda>_. None) (demo_forked, \<lambda>_. None)" by (simp add: fun_upd_idem)
  have "fst (sys_waitpid_turn id False 1 (- 1) False False demo_pair) = Wait_sleep" by code_simp
  then have "sys_waitpid_turn id False 1 (- 1) False False demo_pair = (Wait_sleep, demo_waiting)"
    by (simp add: demo_waiting_def prod_eq_iff)
  then have "wait_step (demo_pair, \<lambda>_. None) (demo_waiting, (\<lambda>_. None)(cur demo_pair 1 := Some (- 1)))"
    by (intro ws_wait) (use demo_pair_cores in simp_all)
  then show ?thesis
    using 1 life_wait_run [OF demo_child_life] life_wait_run [OF demo_pair_life] unfolding c
    by (meson rtranclp.rtrancl_into_rtrancl rtranclp_trans)
qed

lemma demo_waiting_states:
  "p_state (proc demo_waiting 1) = PROC_BLOCKED \<and> wait_channel (proc demo_waiting 1) = None \<and> ppid (proc demo_waiting 3) = pid (proc demo_waiting 1)"
  "p_state (proc (sys_exit_proc 0 0 demo_waiting) 3) = PROC_ZOMBIE \<and> p_state (proc (sys_exit_proc 0 0 demo_waiting) 1) = PROC_RUNNABLE"
  by code_simp+

theorem waitpid_no_lost_exit_witness:
  "wait_step\<^sup>*\<^sup>* (sched_boot, \<lambda>_. None) (demo_waiting, (\<lambda>_. None)(1 := Some (- 1))) \<and> p_state (proc demo_waiting 1) = PROC_BLOCKED
   \<and> ppid (proc demo_waiting 3) = pid (proc demo_waiting 1) \<and> p_state (proc demo_waiting 3) \<noteq> PROC_ZOMBIE
   \<and> p_state (proc (sys_exit_proc 0 0 demo_waiting) 3) = PROC_ZOMBIE \<and> p_state (proc (sys_exit_proc 0 0 demo_waiting) 1) = PROC_RUNNABLE"
proof -
  have "\<not> (\<exists>i. 1 \<le> i \<and> i < PROC_MAX \<and> p_state (proc demo_waiting i) = PROC_ZOMBIE \<and> ppid (proc demo_waiting i) = pid (proc demo_waiting 1)
      \<and> (- 1 \<le> (0 :: int) \<or> pid (proc demo_waiting i) = - 1))"
    by (rule waitpid_no_lost_exit [OF demo_waiting_run]) (use demo_waiting_states in simp_all)
  then have "p_state (proc demo_waiting 3) \<noteq> PROC_ZOMBIE"
    using demo_waiting_states(1) by (auto dest: spec [of _ 3])
  then show ?thesis using demo_waiting_run demo_waiting_states by blast
qed

end
