(* ===== verification/Kmutex.thy ===== *)
theory Kmutex
  imports Lifecycle
begin

text \<open>
  The sleepable kernel mutex, \<^verbatim>\<open>src/kernel/core/sync/kmutex.c\<close>. A mutex is its address; its
  owner and the link \<^verbatim>\<open>next_held\<close> of the intrusive list of mutexes held by a process are maps in
  the state, the head of the list is a field of the PCB. A panic is an outcome. Each turn of the loop of
  \<^verbatim>\<open>kmutex_lock\<close> runs under \<^verbatim>\<open>SPIN_PROC\<close> and is one step; the list walks are
  \<^theory_text>\<open>partial_function\<close>s, which have no value on a cyclic list. Unlocking clears the owner under the
  lock and wakes the waiters after it, so the step relation has the two as separate steps and carries the
  set of mutexes whose wake-up is still to come.
\<close>

subsection \<open>Operations\<close>

datatype lock_outcome = Acquired | Busy | Sleeps | Released | Panicked

definition kmutex_link_held :: "nat \<Rightarrow> nat \<Rightarrow> kstate \<Rightarrow> kstate" where
  "kmutex_link_held c m s =
     (let s = s\<lparr>mtx_next := (mtx_next s)(m := kmutex_held (proc s (cur s c)))\<rparr>
      in proc_upd (cur s c) (\<lambda>p. p\<lparr>kmutex_held := Some m\<rparr>) s)"

text \<open>The walk of \<^verbatim>\<open>kmutex_unlink_held\<close>: \<open>pp\<close> is the slot it looks at, None for the head in the
  PCB and otherwise the link of a mutex.\<close>

partial_function (option) kmutex_unlink_walk :: "nat \<Rightarrow> nat \<Rightarrow> nat option \<Rightarrow> kstate \<Rightarrow> kstate option" where
  "kmutex_unlink_walk owner m pp s =
     (case (case pp of None \<Rightarrow> kmutex_held (proc s owner) | Some q \<Rightarrow> mtx_next s q) of
        None \<Rightarrow> Some s
      | Some x \<Rightarrow>
          if x = m then
            let s = (case pp of
                       None \<Rightarrow> proc_upd owner (\<lambda>p. p\<lparr>kmutex_held := mtx_next s m\<rparr>) s
                     | Some q \<Rightarrow> s\<lparr>mtx_next := (mtx_next s)(q := mtx_next s m)\<rparr>)
            in Some (s\<lparr>mtx_next := (mtx_next s)(m := None)\<rparr>)
          else kmutex_unlink_walk owner m (Some x) s)"

definition kmutex_unlink_held :: "nat \<Rightarrow> nat \<Rightarrow> kstate \<Rightarrow> kstate option" where
  "kmutex_unlink_held owner m s = kmutex_unlink_walk owner m None s"

definition kmutex_require_process_context :: "bool \<Rightarrow> nat \<Rightarrow> kstate \<Rightarrow> bool" where
  "kmutex_require_process_context irq c s \<longleftrightarrow> \<not> irq \<and> current_core s ! c \<noteq> None"

definition kmutex_init :: "nat option \<Rightarrow> kstate \<Rightarrow> kstate" where
  "kmutex_init m s = (case m of None \<Rightarrow> s
     | Some m \<Rightarrow> s\<lparr>mtx_owner := (mtx_owner s)(m := None), mtx_next := (mtx_next s)(m := None)\<rparr>)"

definition kmutex_lock_turn :: "bool \<Rightarrow> nat \<Rightarrow> nat option \<Rightarrow> kstate \<Rightarrow> lock_outcome \<times> kstate" where
  "kmutex_lock_turn irq c mp s =
     (case mp of None \<Rightarrow> (Panicked, s)
      | Some m \<Rightarrow>
          if \<not> kmutex_require_process_context irq c s then (Panicked, s)
          else case mtx_owner s m of
            None \<Rightarrow> (Acquired, kmutex_link_held c m (s\<lparr>mtx_owner := (mtx_owner s)(m := Some (cur s c))\<rparr>))
          | Some p \<Rightarrow> if p = cur s c then (Panicked, s)
                      else (Sleeps, sched_block_current c (Some m) s))"

text \<open>The call: each entry of the list is what happens between falling asleep and running again, and
  the core on which the process runs again.\<close>

fun kmutex_lock :: "((kstate \<Rightarrow> kstate) \<times> nat) list \<Rightarrow> bool \<Rightarrow> nat \<Rightarrow> nat option \<Rightarrow> kstate \<Rightarrow> lock_outcome \<times> kstate" where
  "kmutex_lock sleeps irq c mp s =
     (case kmutex_lock_turn irq c mp s of
        (Sleeps, s) \<Rightarrow> (case sleeps of [] \<Rightarrow> (Sleeps, s) | (g, c') # rest \<Rightarrow> kmutex_lock rest irq c' mp (g s))
      | r \<Rightarrow> r)"

definition kmutex_try_lock :: "bool \<Rightarrow> nat \<Rightarrow> nat option \<Rightarrow> kstate \<Rightarrow> lock_outcome \<times> kstate" where
  "kmutex_try_lock irq c mp s =
     (case mp of None \<Rightarrow> (Panicked, s)
      | Some m \<Rightarrow>
          if \<not> kmutex_require_process_context irq c s then (Panicked, s)
          else case mtx_owner s m of
            None \<Rightarrow> (Acquired, kmutex_link_held c m (s\<lparr>mtx_owner := (mtx_owner s)(m := Some (cur s c))\<rparr>))
          | Some p \<Rightarrow> if p = cur s c then (Panicked, s) else (Busy, s))"

text \<open>The part of \<^verbatim>\<open>kmutex_unlock\<close> under the lock, then the whole call.\<close>

definition kmutex_unlock_locked :: "nat \<Rightarrow> nat \<Rightarrow> kstate \<Rightarrow> (lock_outcome \<times> kstate) option" where
  "kmutex_unlock_locked c m s =
     (if mtx_owner s m \<noteq> current_core s ! c then Some (Panicked, s)
      else case kmutex_unlink_held (cur s c) m s of None \<Rightarrow> None
        | Some s \<Rightarrow> Some (Released, s\<lparr>mtx_owner := (mtx_owner s)(m := None)\<rparr>))"

definition kmutex_unlock :: "bool \<Rightarrow> nat \<Rightarrow> nat option \<Rightarrow> kstate \<Rightarrow> (lock_outcome \<times> kstate) option" where
  "kmutex_unlock irq c mp s =
     (case mp of None \<Rightarrow> Some (Panicked, s)
      | Some m \<Rightarrow>
          if \<not> kmutex_require_process_context irq c s then Some (Panicked, s)
          else case kmutex_unlock_locked c m s of
            Some (Released, s) \<Rightarrow> Some (Released, sched_wakeup (Some m) s)
          | r \<Rightarrow> r)"

definition kmutex_release_one :: "nat \<Rightarrow> nat \<Rightarrow> kstate \<Rightarrow> kstate" where
  "kmutex_release_one p m s =
     (let s = proc_upd p (\<lambda>q. q\<lparr>kmutex_held := mtx_next s m\<rparr>) s;
          s = s\<lparr>mtx_next := (mtx_next s)(m := None)\<rparr>
      in if mtx_owner s m = Some p then s\<lparr>mtx_owner := (mtx_owner s)(m := None)\<rparr> else s)"

partial_function (option) kmutex_release_owned :: "nat \<Rightarrow> kstate \<Rightarrow> kstate option" where
  "kmutex_release_owned p s =
     (case kmutex_held (proc s p) of
        None \<Rightarrow> Some s
      | Some m \<Rightarrow> kmutex_release_owned p (sched_wakeup (Some m) (kmutex_release_one p m s)))"

definition proc_free :: "nat option \<Rightarrow> kstate \<Rightarrow> kstate option" where
  "proc_free pp s =
     (case pp of None \<Rightarrow> Some s
      | Some p \<Rightarrow> (case kmutex_release_owned p s of None \<Rightarrow> None
          | Some s \<Rightarrow> Some (proc_upd p (\<lambda>q. q\<lparr>p_state := PROC_FREE\<rparr>) s)))"

declare kmutex_lock.simps [simp del]
declare kmutex_unlink_walk.simps [code] kmutex_release_owned.simps [code]

subsection \<open>What the links mean\<close>

fun held_path :: "(nat \<Rightarrow> nat option) \<Rightarrow> nat option \<Rightarrow> nat list \<Rightarrow> bool" where
  "held_path nx st [] \<longleftrightarrow> st = None"
| "held_path nx st (x # xs) \<longleftrightarrow> st = Some x \<and> held_path nx (nx x) xs"

text \<open>Every process has a finite list of held mutexes, and these are exactly the ones it owns.\<close>

definition owns_path :: "kstate \<Rightarrow> nat \<Rightarrow> nat list \<Rightarrow> bool" where
  "owns_path s p xs \<longleftrightarrow> held_path (mtx_next s) (kmutex_held (proc s p)) xs \<and> (\<forall>m. mtx_owner s m = Some p \<longleftrightarrow> m \<in> set xs)"

definition kmutex_inv :: "kstate \<Rightarrow> bool" where
  "kmutex_inv s \<longleftrightarrow> length (proc_table s) = PROC_MAX \<and> (\<forall>p < PROC_MAX. \<exists>xs. owns_path s p xs)
     \<and> (\<forall>m p. mtx_owner s m = Some p \<longrightarrow> p < PROC_MAX)"

text \<open>No process waits for a free mutex, except while a wake-up of it is on its way.\<close>

definition waiters_ok :: "nat set \<Rightarrow> nat set \<Rightarrow> kstate \<Rightarrow> bool" where
  "waiters_ok M W s \<longleftrightarrow> (\<forall>p < PROC_MAX. \<forall>m \<in> M. p_state (proc s p) = PROC_BLOCKED \<and> wait_channel (proc s p) = Some m
     \<longrightarrow> mtx_owner s m \<noteq> None \<or> m \<in> W)"

inductive kmutex_step :: "nat set \<Rightarrow> kstate \<times> nat set \<Rightarrow> kstate \<times> nat set \<Rightarrow> bool" for M where
  km_life: "life_step s s' \<Longrightarrow> kmutex_step M (s, W) (s', W)"
| km_lock: "c < 2 \<Longrightarrow> m \<in> M \<Longrightarrow> kmutex_lock_turn irq c (Some m) s = (out, s') \<Longrightarrow> kmutex_step M (s, W) (s', W)"
| km_try: "c < 2 \<Longrightarrow> m \<in> M \<Longrightarrow> kmutex_try_lock irq c (Some m) s = (out, s') \<Longrightarrow> kmutex_step M (s, W) (s', W)"
| km_unlock: "c < 2 \<Longrightarrow> current_core s ! c \<noteq> None \<Longrightarrow> kmutex_unlock_locked c m s = Some (Released, s') \<Longrightarrow>
     kmutex_step M (s, W) (s', insert m W)"
| km_wakeup: "kmutex_step M (s, W) (sched_wakeup channel s, W - set_option channel)"
| km_block: "c < 2 \<Longrightarrow> current_core s ! c \<noteq> None \<Longrightarrow> channel \<notin> Some ` M \<Longrightarrow>
     kmutex_step M (s, W) (sched_block_current c channel s, W)"
| km_vfork: "c < 2 \<Longrightarrow> current_core s ! c \<noteq> None \<Longrightarrow> i < PROC_MAX \<Longrightarrow> p_state (proc s i) = PROC_FREE \<Longrightarrow>
     pid (proc s i) \<noteq> 0 \<Longrightarrow> kmutex_step M (s, W) (vfork_start c i s, W)"
| km_release: "p < PROC_MAX \<Longrightarrow> p_state (proc s p) = PROC_REAPING \<Longrightarrow> kmutex_held (proc s p) = Some m \<Longrightarrow>
     kmutex_step M (s, W) (kmutex_release_one p m s, insert m W)"
| km_free: "p < PROC_MAX \<Longrightarrow> p_state (proc s p) = PROC_REAPING \<Longrightarrow> running_on_core (proc s p) < 0 \<Longrightarrow>
     kmutex_held (proc s p) = None \<Longrightarrow> kmutex_step M (s, W) (proc_upd p (\<lambda>q. q\<lparr>p_state := PROC_FREE\<rparr>) s, W)"

text \<open>Steps that leave the mutexes alone: a process that blocks does so on no channel, and a slot that
  becomes free holds no mutex.\<close>

definition calm_pcb :: "pcb \<Rightarrow> pcb \<Rightarrow> bool" where
  "calm_pcb p q \<longleftrightarrow> kmutex_held q = kmutex_held p
     \<and> (p_state q = PROC_BLOCKED \<longrightarrow> wait_channel q = None \<or> p_state p = PROC_BLOCKED \<and> wait_channel q = wait_channel p)
     \<and> (p_state q = PROC_FREE \<longrightarrow> p_state p = PROC_FREE \<or> kmutex_held p = None)"

definition calm :: "kstate \<Rightarrow> kstate \<Rightarrow> bool" where
  "calm s s' \<longleftrightarrow> mtx_owner s' = mtx_owner s \<and> mtx_next s' = mtx_next s
     \<and> length (proc_table s') = length (proc_table s)
     \<and> (\<forall>p < length (proc_table s). calm_pcb (proc s p) (proc s' p))"

text \<open>A free slot holds no mutex.\<close>

definition free_clean :: "kstate \<Rightarrow> bool" where
  "free_clean s \<longleftrightarrow> (\<forall>p < PROC_MAX. p_state (proc s p) = PROC_FREE \<longrightarrow> kmutex_held (proc s p) = None)"

definition kmutex_safe :: "nat set \<Rightarrow> kstate \<times> nat set \<Rightarrow> bool" where
  "kmutex_safe M = (\<lambda>(s, W). sched_inv s \<and> kmutex_inv s \<and> free_clean s \<and> waiters_ok M W s)"

text \<open>Process 0 takes mutexes 100 and 200 after boot; used by the witnesses.\<close>

definition demo_locked :: kstate where
  "demo_locked = snd (kmutex_lock_turn False 0 (Some 200) (snd (kmutex_lock_turn False 0 (Some 100) sched_boot)))"

subsection \<open>Lists of held mutexes\<close>

lemma held_path_unique: "held_path nx st xs \<Longrightarrow> held_path nx st ys \<Longrightarrow> xs = ys"
proof (induction xs arbitrary: st ys)
  case Nil
  then show ?case by (cases ys) auto
next
  case (Cons x xs)
  then show ?case by (cases ys) auto
qed

lemma held_path_suffix: "held_path nx st (xs @ x # ys) \<Longrightarrow> held_path nx (Some x) (x # ys)"
  by (induction xs arbitrary: st) auto

lemma held_path_distinct: "held_path nx st xs \<Longrightarrow> distinct xs"
proof (induction xs arbitrary: st)
  case (Cons x xs)
  have "x \<notin> set xs"
  proof
    assume "x \<in> set xs"
    then obtain as bs where "xs = as @ x # bs" by (auto simp: in_set_conv_decomp)
    then have "held_path nx (Some x) (x # bs)" using Cons.prems held_path_suffix [of nx st "x # as" x bs] by simp
    moreover have "held_path nx (Some x) (x # xs)" using Cons.prems by simp
    ultimately have "x # bs = x # xs" by (rule held_path_unique)
    then show False using \<open>xs = as @ x # bs\<close> by simp
  qed
  then show ?case using Cons by auto
qed simp

lemma held_path_upd: "m \<notin> set xs \<Longrightarrow> held_path (nx(m := v)) st xs = held_path nx st xs"
  by (induction xs arbitrary: st) auto

text \<open>Removing one element: the link before it is redirected.\<close>

lemma held_path_remove:
  "held_path nx st (as @ q # m # bs) \<Longrightarrow> held_path (nx(q := nx m, m := None)) st (as @ q # bs)"
proof -
  assume p: "held_path nx st (as @ q # m # bs)"
  have d: "distinct (as @ q # m # bs)" by (rule held_path_distinct [OF p])
  from p d show ?thesis
  proof (induction as arbitrary: st)
    case Nil
    then have "held_path nx (nx m) bs" "m \<noteq> q" "m \<notin> set bs" "q \<notin> set bs" by auto
    then have "held_path (nx(q := nx m, m := None)) (nx m) bs" by (simp only: held_path_upd not_False_eq_True)
    moreover have "(nx(q := nx m, m := None)) q = nx m" "st = Some q" using \<open>m \<noteq> q\<close> Nil by auto
    ultimately show ?case by (simp only: append_Nil held_path.simps simp_thms)
  qed auto
qed

lemma kmutex_invD:
  assumes "kmutex_inv s"
  shows "length (proc_table s) = PROC_MAX" "mtx_owner s m = Some p \<Longrightarrow> p < PROC_MAX"
    "p < PROC_MAX \<Longrightarrow> (\<And>xs. owns_path s p xs \<Longrightarrow> thesis) \<Longrightarrow> thesis"
  using assms by (auto simp: kmutex_inv_def)

lemma owns_pathD:
  assumes "owns_path s p xs"
  shows "held_path (mtx_next s) (kmutex_held (proc s p)) xs" "mtx_owner s m = Some p \<longleftrightarrow> m \<in> set xs" "distinct xs"
  using assms held_path_distinct by (auto simp: owns_path_def)

lemma held_same: "kmutex_held q = h \<Longrightarrow> q\<lparr>kmutex_held := h\<rparr> = q"
  by (cases q) simp

text \<open>The walk finds the mutex and takes it off the list.\<close>

lemma unlink_walk_at:
  assumes "held_path (mtx_next s) (kmutex_held (proc s p)) (as @ q # bs @ m # cs)" and "m \<notin> set (as @ q # bs)"
    and "l = last (q # bs)"
  shows "kmutex_unlink_walk p m (Some q) s = Some (s\<lparr>mtx_next := (mtx_next s)(l := mtx_next s m, m := None)\<rparr>)"
  using assms
proof (induction bs arbitrary: as q)
  case Nil
  then have "held_path (mtx_next s) (Some q) (q # m # cs)" using held_path_suffix [of "mtx_next s" _ as q "m # cs"] by simp
  then have "mtx_next s q = Some m" "l = q" using Nil by simp_all
  then show ?case unfolding kmutex_unlink_walk.simps [of p m "Some q"]
    by (simp only: option.case if_True simp_thms Let_def) (cases s, simp only: kstate.simps kstate.update_convs)
next
  case (Cons b bs)
  then have "held_path (mtx_next s) (Some q) (q # b # bs @ m # cs)"
    using held_path_suffix [of "mtx_next s" _ as q "b # bs @ m # cs"] by simp
  then have "mtx_next s q = Some b" "b \<noteq> m" using Cons.prems by auto
  then have "kmutex_unlink_walk p m (Some q) s = kmutex_unlink_walk p m (Some b) s"
    by (simp add: kmutex_unlink_walk.simps [of p m "Some q"])
  also have "\<dots> = Some (s\<lparr>mtx_next := (mtx_next s)(l := mtx_next s m, m := None)\<rparr>)"
    using Cons.prems by (intro Cons.IH [of "as @ [q]" b]) simp_all
  finally show ?case .
qed

lemma unlink_held:
  assumes p: "p < length (proc_table s)" and path: "held_path (mtx_next s) (kmutex_held (proc s p)) xs" and m: "m \<in> set xs"
  obtains h nx where "kmutex_unlink_held p m s = Some ((proc_upd p (\<lambda>q. q\<lparr>kmutex_held := h\<rparr>) s)\<lparr>mtx_next := nx\<rparr>)"
    "held_path nx h (remove1 m xs)" "\<And>x. x \<notin> set xs \<Longrightarrow> nx x = mtx_next s x"
proof -
  obtain as bs where xs: "xs = as @ m # bs" "m \<notin> set as" using m split_list_first by metis
  have d: "distinct xs" by (rule held_path_distinct [OF path])
  have rm: "remove1 m xs = as @ bs" using xs by (simp add: remove1_append)
  show thesis
  proof (cases as)
    case Nil
    then have h: "kmutex_held (proc s p) = Some m" "held_path (mtx_next s) (mtx_next s m) bs" using path xs by auto
    have "kmutex_unlink_held p m s = Some ((proc_upd p (\<lambda>q. q\<lparr>kmutex_held := mtx_next s m\<rparr>) s)\<lparr>mtx_next := (mtx_next s)(m := None)\<rparr>)"
      using h by (simp add: kmutex_unlink_held_def kmutex_unlink_walk.simps [of p m None])
    moreover have "held_path ((mtx_next s)(m := None)) (mtx_next s m) (remove1 m xs)"
      using h d xs Nil by (simp add: held_path_upd)
    ultimately show thesis using m by (intro that [where h = "mtx_next s m" and nx = "(mtx_next s)(m := None)"]) auto
  next
    case (Cons a as')
    then have h: "kmutex_held (proc s p) = Some a" and "a \<noteq> m" using path xs by auto
    then have "kmutex_unlink_held p m s = kmutex_unlink_walk p m (Some a) s"
      by (simp add: kmutex_unlink_held_def kmutex_unlink_walk.simps [of p m None])
    also have "\<dots> = Some (s\<lparr>mtx_next := (mtx_next s)(last as := mtx_next s m, m := None)\<rparr>)"
      by (rule unlink_walk_at [of s p "[]" a as' m bs]) (use path xs Cons in simp_all)
    finally have "kmutex_unlink_held p m s = Some ((proc_upd p (\<lambda>q. q\<lparr>kmutex_held := Some a\<rparr>) s)
        \<lparr>mtx_next := (mtx_next s)(last as := mtx_next s m, m := None)\<rparr>)"
      using h by (simp add: proc_upd_def held_same)
    moreover have "as = butlast as @ [last as]" using Cons by simp
    then have "held_path ((mtx_next s)(last as := mtx_next s m, m := None)) (Some a) (remove1 m xs)"
      using path xs held_path_remove [of "mtx_next s" "Some a" "butlast as" "last as" m bs] h rm
      by (metis append_assoc append_Cons append_Nil)
    moreover have "last as \<in> set xs" "m \<in> set xs" using xs Cons by auto
    ultimately show thesis
      by (intro that [where h = "Some a" and nx = "(mtx_next s)(last as := mtx_next s m, m := None)"]) auto
  qed
qed

subsection \<open>Steps keep the links consistent\<close>

text \<open>Changing the mutexes of one process: its list and owners change together, links of others stay.\<close>

lemma kmutex_inv_change:
  assumes inv: "kmutex_inv s" and p: "p < PROC_MAX" and "length (proc_table s') = PROC_MAX"
    and new: "owns_path s' p xs'"
    and held: "\<And>q. q < PROC_MAX \<Longrightarrow> q \<noteq> p \<Longrightarrow> kmutex_held (proc s' q) = kmutex_held (proc s q)"
    and own: "\<And>m q. q \<noteq> p \<Longrightarrow> mtx_owner s' m = Some q \<longleftrightarrow> mtx_owner s m = Some q"
    and nx: "\<And>m q. q \<noteq> p \<Longrightarrow> mtx_owner s m = Some q \<Longrightarrow> mtx_next s' m = mtx_next s m"
  shows "kmutex_inv s'"
proof -
  have same: "held_path (mtx_next s') st ys = held_path (mtx_next s) st ys"
    if "\<And>m. m \<in> set ys \<Longrightarrow> mtx_next s' m = mtx_next s m" for st ys
    using that by (induction ys arbitrary: st) auto
  have "\<exists>ys. owns_path s' q ys" if q: "q < PROC_MAX" for q
  proof (cases "q = p")
    case True
    with new show ?thesis by blast
  next
    case False
    obtain ys where ys: "owns_path s q ys" using kmutex_invD(3) [OF inv q] by blast
    have eq: "held_path (mtx_next s') (kmutex_held (proc s q)) ys = held_path (mtx_next s) (kmutex_held (proc s q)) ys"
      by (rule same) (use nx [OF False] ys in \<open>auto simp: owns_path_def\<close>)
    then have "owns_path s' q ys" using ys held [OF q False] own [OF False] by (simp add: owns_path_def)
    then show ?thesis by blast
  qed
  moreover have "q < PROC_MAX" if "mtx_owner s' m = Some q" for m q
    using that own [of q m] kmutex_invD(2) [OF inv, of m q] p by (cases "q = p") auto
  ultimately show ?thesis using assms(3) by (simp add: kmutex_inv_def)
qed

lemma kmutex_inv_acquire:
  assumes inv: "kmutex_inv s" and i: "cur s c < PROC_MAX" and free: "mtx_owner s m = None"
  defines "s' \<equiv> kmutex_link_held c m (s\<lparr>mtx_owner := (mtx_owner s)(m := Some (cur s c))\<rparr>)"
  shows "kmutex_inv s'"
proof -
  note len = kmutex_invD(1) [OF inv]
  obtain xs where xs: "owns_path s (cur s c) xs" using kmutex_invD(3) [OF inv i] by blast
  have m: "m \<notin> set xs" using owns_pathD(2) [OF xs, of m] free by simp
  have cur': "cur (s\<lparr>mtx_owner := (mtx_owner s)(m := Some (cur s c)), mtx_next := nx\<rparr>) c = cur s c" for nx
    by (simp add: cur_def)
  have s': "s' = (proc_upd (cur s c) (\<lambda>p. p\<lparr>kmutex_held := Some m\<rparr>) s)\<lparr>mtx_owner := (mtx_owner s)(m := Some (cur s c)),
      mtx_next := (mtx_next s)(m := kmutex_held (proc s (cur s c)))\<rparr>"
    by (simp add: s'_def kmutex_link_held_def proc_upd_def cur_def)
  have new: "owns_path s' (cur s c) (m # xs)"
    using xs m i len by (auto simp: owns_path_def s' held_path_upd)
  show ?thesis
    by (rule kmutex_inv_change [OF inv i _ new]) (use len i free in \<open>auto simp: s'\<close>)
qed

lemma unlock_locked_effect:
  assumes inv: "kmutex_inv s" and c: "current_core s ! c = Some i" and own: "mtx_owner s m = Some i"
  obtains h nx where "kmutex_unlock_locked c m s = Some (Released,
      (proc_upd i (\<lambda>q. q\<lparr>kmutex_held := h\<rparr>) s)\<lparr>mtx_next := nx, mtx_owner := (mtx_owner s)(m := None)\<rparr>)"
    "kmutex_inv ((proc_upd i (\<lambda>q. q\<lparr>kmutex_held := h\<rparr>) s)\<lparr>mtx_next := nx, mtx_owner := (mtx_owner s)(m := None)\<rparr>)"
proof -
  note len = kmutex_invD(1) [OF inv]
  have i: "i < PROC_MAX" and ci: "cur s c = i" using kmutex_invD(2) [OF inv own] c by (auto simp: cur_def)
  obtain xs where xs: "owns_path s i xs" using kmutex_invD(3) [OF inv i] by blast
  have m: "m \<in> set xs" using owns_pathD(2) [OF xs] own by simp
  from i len have il: "i < length (proc_table s)" by simp
  obtain h nx where u: "kmutex_unlink_held i m s = Some ((proc_upd i (\<lambda>q. q\<lparr>kmutex_held := h\<rparr>) s)\<lparr>mtx_next := nx\<rparr>)"
    and path: "held_path nx h (remove1 m xs)" and nx: "\<And>x. x \<notin> set xs \<Longrightarrow> nx x = mtx_next s x"
    using unlink_held [OF il owns_pathD(1) [OF xs] m] by blast
  let ?s = "(proc_upd i (\<lambda>q. q\<lparr>kmutex_held := h\<rparr>) s)\<lparr>mtx_next := nx, mtx_owner := (mtx_owner s)(m := None)\<rparr>"
  have new: "owns_path ?s i (remove1 m xs)"
    using path xs owns_pathD(3) [OF xs] i len by (auto simp: owns_path_def set_remove1_eq)
  have nx': "nx x = mtx_next s x" if "q \<noteq> i" "mtx_owner s x = Some q" for x q
    using nx [of x] that owns_pathD(2) [OF xs, of x] by auto
  have "kmutex_inv ?s"
    by (rule kmutex_inv_change [OF inv i _ new]) (use len i own nx' in \<open>auto\<close>)
  moreover have "kmutex_unlock_locked c m s = Some (Released, ?s)"
    using own c u ci by (simp add: kmutex_unlock_locked_def)
  ultimately show thesis by (rule that [rotated])
qed

lemma release_one_inv:
  assumes inv: "kmutex_inv s" and p: "p < PROC_MAX" and h: "kmutex_held (proc s p) = Some m"
  shows "kmutex_inv (kmutex_release_one p m s)" "mtx_owner s m = Some p"
    "mtx_owner (kmutex_release_one p m s) = (mtx_owner s)(m := None)"
    "owns_path s p xs \<Longrightarrow> \<exists>ys. xs = m # ys \<and> owns_path (kmutex_release_one p m s) p ys"
proof -
  note len = kmutex_invD(1) [OF inv]
  obtain xs where xs: "owns_path s p xs" using kmutex_invD(3) [OF inv p] by blast
  obtain ys where ys: "xs = m # ys" "held_path (mtx_next s) (mtx_next s m) ys"
    using owns_pathD(1) [OF xs] h by (cases xs) auto
  have my: "m \<notin> set ys" using owns_pathD(3) [OF xs] ys by simp
  show own: "mtx_owner s m = Some p" using owns_pathD(2) [OF xs] ys by simp
  have r: "kmutex_release_one p m s = (proc_upd p (\<lambda>q. q\<lparr>kmutex_held := mtx_next s m\<rparr>) s)
      \<lparr>mtx_next := (mtx_next s)(m := None), mtx_owner := (mtx_owner s)(m := None)\<rparr>"
    using own by (simp add: kmutex_release_one_def Let_def)
  show o: "mtx_owner (kmutex_release_one p m s) = (mtx_owner s)(m := None)" by (simp add: r)
  have new: "owns_path (kmutex_release_one p m s) p ys"
    using ys my owns_pathD(2) [OF xs] p len by (auto simp: owns_path_def r held_path_upd)
  show "kmutex_inv (kmutex_release_one p m s)"
    by (rule kmutex_inv_change [OF inv p _ new]) (use len p own in \<open>auto simp: r\<close>)
  show "owns_path s p xs' \<Longrightarrow> \<exists>ys. xs' = m # ys \<and> owns_path (kmutex_release_one p m s) p ys" for xs'
    using new ys xs held_path_unique owns_pathD(1) by metis
qed

lemma kmutex_inv_same:
  "kmutex_inv s \<Longrightarrow> length (proc_table s') = length (proc_table s) \<Longrightarrow> mtx_owner s' = mtx_owner s \<Longrightarrow> mtx_next s' = mtx_next s \<Longrightarrow>
   (\<And>p. p < length (proc_table s) \<Longrightarrow> kmutex_held (proc s' p) = kmutex_held (proc s p)) \<Longrightarrow> kmutex_inv s'"
  by (simp add: kmutex_inv_def owns_path_def)

lemma calm_inv: "calm s s' \<Longrightarrow> kmutex_inv s \<Longrightarrow> kmutex_inv s'"
  by (erule kmutex_inv_same) (simp_all add: calm_def calm_pcb_def)

lemma calm_clean: "calm s s' \<Longrightarrow> length (proc_table s) = PROC_MAX \<Longrightarrow> free_clean s \<Longrightarrow> free_clean s'"
  by (auto simp: calm_def calm_pcb_def free_clean_def)

lemma calm_waiters:
  assumes "calm s s'" "length (proc_table s) = PROC_MAX" "waiters_ok M W s"
  shows "waiters_ok M W s'"
  unfolding waiters_ok_def
proof (intro allI ballI impI)
  fix p m assume p: "p < PROC_MAX" "m \<in> M" "p_state (proc s' p) = PROC_BLOCKED \<and> wait_channel (proc s' p) = Some m"
  have "calm_pcb (proc s p) (proc s' p)" and o: "mtx_owner s' = mtx_owner s" using assms(1,2) p(1) by (simp_all add: calm_def)
  then have "p_state (proc s p) = PROC_BLOCKED \<and> wait_channel (proc s p) = Some m" using p(3) by (auto simp: calm_pcb_def)
  then show "mtx_owner s' m \<noteq> None \<or> m \<in> W" using assms(3) p(1,2) unfolding waiters_ok_def o by blast
qed

lemma calm_pcb_trans: "calm_pcb p q \<Longrightarrow> calm_pcb q r \<Longrightarrow> calm_pcb p r"
  unfolding calm_pcb_def by auto

lemma calm_trans: "calm s t \<Longrightarrow> calm t u \<Longrightarrow> calm s u"
  unfolding calm_def using calm_pcb_trans by metis

lemma quiet_calm: "quiet k s s' \<Longrightarrow> calm s s'"
  by (simp add: quiet_def calm_def quiet_pcb_def calm_pcb_def)

lemma calm_upd: "calm_pcb (proc s i) (g (proc s i)) \<Longrightarrow> calm s (proc_upd i g s)"
proof -
  have "calm_pcb p p" for p by (simp add: calm_pcb_def)
  then show "calm_pcb (proc s i) (g (proc s i)) \<Longrightarrow> calm s (proc_upd i g s)"
    by (cases "i < length (proc_table s)") (simp_all add: calm_def proc_upd_out)
qed

lemma calm_alloc:
  assumes clean: "free_clean s" and len: "length (proc_table s) = PROC_MAX"
  shows "calm s (snd (proc_alloc s))"
proof (cases s rule: proc_alloc_cases)
  case full
  then show ?thesis using quiet_calm [OF quiet_refl [of True]] by simp
next
  case (slot i)
  then have "kmutex_held (proc s i) = None" using clean by (simp add: free_clean_def)
  then show ?thesis using slot(4) calm_upd [of s i "\<lambda>_. pcb_zero\<lparr>pid := next_pid s, umask_val := 0x12, running_on_core := - 1,
            start_time := sched_get_ticks s, fd_map := replicate FD_MAX (- 1)\<rparr>"]
    by (simp add: calm_pcb_def pcb_zero_def calm_def proc_upd_def)
qed

lemma calm_core1:
  assumes clean: "free_clean s" and len: "length (proc_table s) = PROC_MAX"
  shows "calm s (core1_sched_entry ok s)"
proof (cases s rule: proc_alloc_cases)
  case full
  then show ?thesis using quiet_calm [OF quiet_refl [of True]] by (simp add: core1_sched_entry_def)
next
  case (slot i)
  note a = calm_alloc [OF clean len]
  have "calm (snd (proc_alloc s)) (proc_upd i (\<lambda>p. p\<lparr>p_state := PROC_RUNNABLE, ticks_remaining := PROC_DEFAULT_TICKS,
      running_on_core := 1, is_idle := True\<rparr>) (snd (proc_alloc s)))" by (rule calm_upd) (simp add: calm_pcb_def)
  then have "calm s (proc_upd i (\<lambda>p. p\<lparr>p_state := PROC_RUNNABLE, ticks_remaining := PROC_DEFAULT_TICKS,
      running_on_core := 1, is_idle := True\<rparr>) (snd (proc_alloc s)))" by (rule calm_trans [OF a])
  then show ?thesis using a slot(4) by (cases ok) (simp_all add: core1_sched_entry_def calm_def)
qed

lemma calm_exit: "calm s (sys_exit_proc c status s)"
proof -
  define t where "t = fold (exit_adopt (pid (proc (exit_wakes (cur s c) status s) (cur s c)))) [1..<PROC_MAX] (exit_wakes (cur s c) status s)"
  have "quiet False u (fold (exit_adopt me) xs u)" for me xs u
    by (rule fold_rel) (auto intro: quiet_adopt quiet_trans)
  then have "quiet False s t" unfolding t_def using quiet_trans [OF quiet_exit_wakes] by blast
  then have "calm s t" by (rule quiet_calm)
  moreover have "calm t (proc_upd (cur s c) (\<lambda>p. p\<lparr>p_state := PROC_ZOMBIE\<rparr>) t)" by (rule calm_upd) (simp add: calm_pcb_def)
  ultimately have "calm s (proc_upd (cur s c) (\<lambda>p. p\<lparr>p_state := PROC_ZOMBIE\<rparr>) t)" by (rule calm_trans)
  then show ?thesis using quiet_calm [OF quiet_refl [of True s]] by (simp add: sys_exit_proc_def sys_exit_locked_def t_def Let_def)
qed

lemma calm_claim: "calm s (snd (waitpid_claim c i zpid b s))"
proof -
  have "calm s s" "calm s (proc_upd i (\<lambda>p. p\<lparr>tracer_pid := 0, trace_wait_pending := False\<rparr>) s)"
    "calm s (proc_upd i (\<lambda>p. p\<lparr>p_state := PROC_REAPING\<rparr>) s)"
    using quiet_calm [OF quiet_refl [of True s]] by (auto intro!: calm_upd simp: calm_pcb_def)
  then show ?thesis using claim_state [of c i zpid b s] by metis
qed

lemma calm_vfork_init: "calm s (vfork_child_init c i s)"
  unfolding vfork_child_init_def Let_def by (rule calm_upd) (simp add: calm_pcb_def)

lemma calm_life:
  assumes "life_step s s'" "sched_inv s" "free_clean s"
  shows "calm s s'"
  using assms
proof (induction rule: life_step.induct)
  case (life_sleep c s rem_fault)
  then show ?case using quiet_calm [OF quiet_turns(1)] cur_slot by blast
next
  case (life_stop c s)
  then show ?case using quiet_calm [OF quiet_turns(2)] cur_slot by blast
next
  case (life_wait_stopped c s i stopped_pid)
  then show ?case using quiet_calm [OF quiet_turns(3)] cur_slot by blast
next
  case (life_traceme c s requested)
  show ?case by (rule quiet_calm [OF quiet_trace(1)])
next
  case (life_attach c s requested pd)
  show ?case by (rule quiet_calm [OF quiet_trace(2)])
next
  case (life_exec c s)
  show ?case by (rule quiet_calm [OF quiet_trace(3)])
next
  case (life_switch c s)
  show ?case by (rule quiet_calm [OF quiet_switch])
next
  case (life_tick c s from_user)
  show ?case by (rule quiet_calm [OF quiet_timer])
next
  case (life_ready i s)
  show ?case by (rule calm_upd) (simp add: calm_pcb_def)
next
  case (life_deadline c s t)
  show ?case by (rule calm_upd) (simp add: calm_pcb_def)
qed (use sched_invD(1) in \<open>auto intro: calm_alloc calm_core1 calm_exit calm_claim calm_vfork_init quiet_calm [OF quiet_upd [where k = True]]\<close>)

lemma calm_wakeup: "calm s (sched_wakeup ch s)"
  by (rule quiet_calm [OF quiet_wakeup])

lemma same_places_held: "same_places s ((proc_upd i (\<lambda>q. q\<lparr>kmutex_held := h\<rparr>) s)\<lparr>mtx_next := nx, mtx_owner := ow\<rparr>)"
  by simp (intro same_places_upd; simp)

text \<open>Changing owners and the list of one process: owned mutexes stay owned or have a wake-up coming.\<close>

lemma safe_held:
  fixes s :: kstate and i :: nat and h :: "nat option" and nx ow :: "nat \<Rightarrow> nat option"
  defines "s' \<equiv> (proc_upd i (\<lambda>q. q\<lparr>kmutex_held := h\<rparr>) s)\<lparr>mtx_next := nx, mtx_owner := ow\<rparr>"
  assumes safe: "kmutex_safe M (s, W)" and inv: "kmutex_inv s'"
    and ow: "\<And>m. mtx_owner s m \<noteq> None \<Longrightarrow> ow m \<noteq> None \<or> m \<in> W'" and "W \<subseteq> W'"
    and used: "p_state (proc s i) \<noteq> PROC_FREE"
  shows "kmutex_safe M (s', W')"
proof -
  have S: "sched_inv s" "kmutex_inv s" "waiters_ok M W s" "free_clean s" using safe by (auto simp: kmutex_safe_def)
  have pr: "proc s' p = (if p = i \<and> i < length (proc_table s) then (proc s i)\<lparr>kmutex_held := h\<rparr> else proc s p)" for p
    unfolding s'_def proc_upd_def by (cases "p = i"; cases "i < length (proc_table s)") (simp_all add: list_update_beyond not_less)
  have fr: "p_state (proc s' p) = p_state (proc s p)" "wait_channel (proc s' p) = wait_channel (proc s p)" for p
    unfolding pr by simp_all
  have o: "mtx_owner s' = ow" by (simp add: s'_def)
  have "waiters_ok M W' s'"
    unfolding waiters_ok_def fr o
  proof (intro allI ballI impI)
    fix p m assume p: "p < PROC_MAX" "m \<in> M" "p_state (proc s p) = PROC_BLOCKED \<and> wait_channel (proc s p) = Some m"
    then have "mtx_owner s m \<noteq> None \<or> m \<in> W" using S(3) unfolding waiters_ok_def by blast
    then show "ow m \<noteq> None \<or> m \<in> W'" using ow [of m] \<open>W \<subseteq> W'\<close> by blast
  qed
  moreover have "free_clean s'" using S(4) used by (auto simp: free_clean_def pr)
  moreover have "sched_inv s'" unfolding s'_def by (rule same_places_inv [OF same_places_held S(1)])
  ultimately show ?thesis using inv by (simp add: kmutex_safe_def)
qed

lemma acquire_form:
  "kmutex_link_held c m (s\<lparr>mtx_owner := (mtx_owner s)(m := Some (cur s c))\<rparr>) =
   (proc_upd (cur s c) (\<lambda>p. p\<lparr>kmutex_held := Some m\<rparr>) s)\<lparr>mtx_next := (mtx_next s)(m := kmutex_held (proc s (cur s c))),
      mtx_owner := (mtx_owner s)(m := Some (cur s c))\<rparr>"
  by (simp add: kmutex_link_held_def proc_upd_def cur_def)

lemma release_form:
  "mtx_owner s m = Some p \<Longrightarrow> kmutex_release_one p m s = (proc_upd p (\<lambda>q. q\<lparr>kmutex_held := mtx_next s m\<rparr>) s)
      \<lparr>mtx_next := (mtx_next s)(m := None), mtx_owner := (mtx_owner s)(m := None)\<rparr>"
  by (simp add: kmutex_release_one_def Let_def)

lemma safe_acquire:
  assumes safe: "kmutex_safe M (s, W)" and c: "c < 2" "current_core s ! c \<noteq> None" and free: "mtx_owner s m = None"
  shows "kmutex_safe M (kmutex_link_held c m (s\<lparr>mtx_owner := (mtx_owner s)(m := Some (cur s c))\<rparr>), W)"
proof -
  have S: "sched_inv s" "kmutex_inv s" "waiters_ok M W s" using safe by (auto simp: kmutex_safe_def)
  have i: "cur s c < PROC_MAX" "p_state (proc s (cur s c)) \<noteq> PROC_FREE" using cur_slot [OF S(1) c] by auto
  show ?thesis
    using kmutex_inv_acquire [OF S(2) i(1) free] i(2) unfolding acquire_form by (intro safe_held [OF safe]) auto
qed

lemma safe_block:
  assumes safe: "kmutex_safe M (s, W)" and c: "c < 2" "current_core s ! c \<noteq> None"
    and ch: "\<And>m. channel = Some m \<Longrightarrow> m \<in> M \<Longrightarrow> mtx_owner s m \<noteq> None"
  shows "kmutex_safe M (sched_block_current c channel s, W)"
proof -
  have S: "sched_inv s" "kmutex_inv s" "waiters_ok M W s" "free_clean s" using safe by (auto simp: kmutex_safe_def)
  note len = kmutex_invD(1) [OF S(2)]
  have i: "cur s c < PROC_MAX" using cur_slot [OF S(1) c] by auto
  have 1: "sched_inv (sched_block_current c channel s)" by (rule sched_inv_block [OF S(1)])
  have held: "kmutex_held (proc (sched_block_current c channel s) p) = kmutex_held (proc s p)"
    and own: "mtx_owner (sched_block_current c channel s) = mtx_owner s" "mtx_next (sched_block_current c channel s) = mtx_next s"
      "length (proc_table (sched_block_current c channel s)) = length (proc_table s)" for p
    using i len by (simp_all add: sched_block_current_def)
  have 2: "kmutex_inv (sched_block_current c channel s)"
    using S(2) unfolding kmutex_inv_def owns_path_def held own by simp
  have 3: "waiters_ok M W (sched_block_current c channel s)"
    using S(3) ch i len unfolding waiters_ok_def by (auto simp: sched_block_current_def)
  have 4: "free_clean (sched_block_current c channel s)"
    using S(4) i len by (auto simp: free_clean_def sched_block_current_def)
  show ?thesis using 1 2 3 4 by (simp add: kmutex_safe_def)
qed

lemma safe_calm:
  "kmutex_safe M (s, W) \<Longrightarrow> calm s s' \<Longrightarrow> sched_inv s' \<Longrightarrow> kmutex_safe M (s', W)"
  using calm_inv calm_waiters calm_clean kmutex_invD(1) by (auto simp: kmutex_safe_def)

lemma safe_wakeup:
  assumes "kmutex_safe M (s, W)"
  shows "kmutex_safe M (sched_wakeup channel s, W - set_option channel)"
proof -
  have q: "kmutex_safe M (sched_wakeup channel s, W)"
    using assms by (intro safe_calm [OF assms calm_wakeup]) (simp add: kmutex_safe_def sched_inv_wakeup)
  have len: "length (proc_table s) = PROC_MAX" using assms kmutex_invD(1) by (auto simp: kmutex_safe_def)
  have "\<not> (p_state (proc (sched_wakeup channel s) p) = PROC_BLOCKED \<and> wait_channel (proc (sched_wakeup channel s) p) = Some m)"
    if "p < PROC_MAX" "channel = Some m" for p m
    using sched_wakeup_exact [of s channel] that len by (auto split: if_splits)
  then show ?thesis using q by (auto simp: kmutex_safe_def waiters_ok_def)
qed

lemma safe_step: "kmutex_step M x y \<Longrightarrow> kmutex_safe M x \<Longrightarrow> kmutex_safe M y"
proof (induction rule: kmutex_step.induct)
  case (km_life s s' W)
  then have "sched_inv s" "free_clean s" by (auto simp: kmutex_safe_def)
  then show ?case using safe_calm [OF km_life(2) calm_life [OF km_life(1)]] sched_inv_life [OF km_life(1)] by blast
next
  case (km_lock c m irq s out s' W)
  show ?case
  proof (cases "kmutex_require_process_context irq c s")
    case True
    then have c: "current_core s ! c \<noteq> None" by (simp add: kmutex_require_process_context_def)
    show ?thesis
    proof (cases "mtx_owner s m")
      case None
      then show ?thesis using km_lock(3) True safe_acquire [OF km_lock(4,1) c None] by (simp add: kmutex_lock_turn_def)
    next
      case (Some p)
      have "kmutex_safe M (sched_block_current c (Some m) s, W)"
        by (rule safe_block [OF km_lock(4,1) c]) (use Some in auto)
      then show ?thesis using km_lock(3,4) True Some by (auto simp: kmutex_lock_turn_def split: if_splits)
    qed
  qed (use km_lock in \<open>simp add: kmutex_lock_turn_def\<close>)
next
  case (km_try c m irq s out s' W)
  show ?case
  proof (cases "kmutex_require_process_context irq c s \<and> mtx_owner s m = None")
    case True
    then have c: "current_core s ! c \<noteq> None" "mtx_owner s m = None" by (auto simp: kmutex_require_process_context_def)
    show ?thesis using km_try(3) True safe_acquire [OF km_try(4,1) c] by (simp add: kmutex_try_lock_def)
  qed (use km_try in \<open>auto simp: kmutex_try_lock_def split: if_splits option.splits\<close>)
next
  case (km_unlock c s m s' W)
  have S: "sched_inv s" "kmutex_inv s" "waiters_ok M W s" using km_unlock(4) by (auto simp: kmutex_safe_def)
  obtain i where i: "current_core s ! c = Some i" using km_unlock(2) by blast
  have own: "mtx_owner s m = Some i" using km_unlock(3) i by (auto simp: kmutex_unlock_locked_def split: if_splits)
  obtain h nx where s': "s' = (proc_upd i (\<lambda>q. q\<lparr>kmutex_held := h\<rparr>) s)\<lparr>mtx_next := nx, mtx_owner := (mtx_owner s)(m := None)\<rparr>"
    and inv: "kmutex_inv s'" using unlock_locked_effect [OF S(2) i own] km_unlock(3) by (metis option.inject prod.inject)
  show ?case using inv sched_invD(5) [OF S(1) km_unlock(1) i] unfolding s' by (intro safe_held [OF km_unlock(4)]) auto
next
  case (km_release p s m W)
  have S: "sched_inv s" "kmutex_inv s" "waiters_ok M W s" using km_release(4) by (auto simp: kmutex_safe_def)
  note r = release_one_inv(1,2) [OF S(2) km_release(1,3)]
  show ?case using r(1) km_release(2) unfolding release_form [OF r(2)] by (intro safe_held [OF km_release(4)]) auto
next
  case (km_wakeup s W channel)
  then show ?case by (rule safe_wakeup)
next
  case (km_block c s channel W)
  show ?case by (rule safe_block [OF km_block(4,1,2)]) (use km_block(3) in auto)
next
  case (km_vfork c s i W)
  have b: "kmutex_safe M (sched_block_current c None s, W)" by (rule safe_block [OF km_vfork(6,1,2)]) simp
  have "vfork_start c i s = proc_upd i (\<lambda>p. p\<lparr>p_state := PROC_RUNNABLE\<rparr>) (sched_block_current c None s)"
    by (simp add: vfork_start_def sched_block_current_def)
  moreover have "calm (sched_block_current c None s) (proc_upd i (\<lambda>p. p\<lparr>p_state := PROC_RUNNABLE\<rparr>) (sched_block_current c None s))"
    by (rule calm_upd) (simp add: calm_pcb_def)
  moreover have "sched_inv (vfork_start c i s)" using same_places_inv [OF same_places_vfork(2)] km_vfork(6) by (simp add: kmutex_safe_def)
  ultimately show ?case using safe_calm [OF b] by simp
next
  case (km_free p s W)
  have "calm s (proc_upd p (\<lambda>q. q\<lparr>p_state := PROC_FREE\<rparr>) s)" by (rule calm_upd) (use km_free(4) in \<open>simp add: calm_pcb_def\<close>)
  then show ?case using safe_calm [OF km_free(5)] sched_inv_free km_free(3,5) by (simp add: kmutex_safe_def)
qed

interpretation km_run: step_system "kmutex_step M" "kmutex_safe M" for M
  by unfold_locales (rule safe_step)

lemma kmutex_inv_boot: "kmutex_inv sched_boot"
proof -
  have e: "kmutex_held (proc sched_boot p) = None" if "p < PROC_MAX" for p
    by (simp add: boot_proc [OF that] pcb_zero_def)
  have o: "mtx_owner sched_boot m = None" for m by (simp add: sched_boot_def proc_init_def)
  have "owns_path sched_boot p []" if "p < PROC_MAX" for p using e [OF that] by (simp add: owns_path_def o)
  then show ?thesis unfolding kmutex_inv_def using boot_cores(2) o by auto
qed

lemma safe_boot: "kmutex_safe M (sched_boot, {})"
proof -
  have "waiters_ok M {} sched_boot" "free_clean sched_boot" by (simp_all add: waiters_ok_def free_clean_def boot_proc pcb_zero_def)
  then show ?thesis by (simp add: kmutex_safe_def sched_inv_boot kmutex_inv_boot)
qed

text \<open>C28: mutex ownership and no lost wake-ups. Take any interleaving, from boot, of lock, try-lock and
  unlock calls on two cores with process creation, switches, timer ticks, wake-ups, blocking on other
  channels, exit, and the freeing of reaped slots with the release of the mutexes they hold, in which no slot
  is freed while a core still runs it. The mutexes held by a process form a finite list without repetition
  and are exactly those it owns, so no mutex is on two lists; and a process blocked on a mutex waits for one
  that is owned, or whose wake-up has not been delivered yet.\<close>

theorem kmutex_exclusive_no_lost_wakeup:
  assumes "(kmutex_step M)\<^sup>*\<^sup>* (sched_boot, {}) (s, W)"
  shows "(\<forall>p < PROC_MAX. \<exists>xs. held_path (mtx_next s) (kmutex_held (proc s p)) xs \<and> distinct xs
      \<and> set xs = {m. mtx_owner s m = Some p})
    \<and> (\<forall>p < PROC_MAX. \<forall>m \<in> M. p_state (proc s p) = PROC_BLOCKED \<and> wait_channel (proc s p) = Some m
      \<longrightarrow> mtx_owner s m \<noteq> None \<or> m \<in> W)"
proof -
  have S: "kmutex_inv s" "waiters_ok M W s" using km_run.reach_inv [OF assms safe_boot] by (auto simp: kmutex_safe_def)
  have "\<exists>xs. held_path (mtx_next s) (kmutex_held (proc s p)) xs \<and> distinct xs \<and> set xs = {m. mtx_owner s m = Some p}"
    if p: "p < PROC_MAX" for p
  proof -
    obtain xs where xs: "owns_path s p xs" using kmutex_invD(3) [OF S(1) p] by blast
    show ?thesis using owns_pathD [OF xs] by (intro exI [of _ xs]) auto
  qed
  then show ?thesis using S(2) [unfolded waiters_ok_def] by blast
qed

subsection \<open>Unlocking and exit\<close>

text \<open>Unlocking by the owner returns. In a consistent state the list walk of
  \<^verbatim>\<open>kmutex_unlock\<close> ends; the mutex is free afterwards, all other mutexes keep their owners, every
  process that was blocked on it is runnable, and the state is consistent. Any other caller panics without
  effect.\<close>

theorem kmutex_unlock_returns:
  assumes inv: "kmutex_inv s" and c: "current_core s ! c = Some i"
  shows "\<exists>out s'. kmutex_unlock False c (Some m) s = Some (out, s') \<and>
    (if mtx_owner s m = Some i
     then out = Released \<and> kmutex_inv s' \<and> mtx_owner s' = (mtx_owner s)(m := None)
       \<and> (\<forall>p < PROC_MAX. p_state (proc s' p) = (if p_state (proc s p) = PROC_BLOCKED \<and> wait_channel (proc s p) = Some m
            then PROC_RUNNABLE else p_state (proc s p)))
     else out = Panicked \<and> s' = s)"
proof (cases "mtx_owner s m = Some i")
  case True
  note len = kmutex_invD(1) [OF inv]
  have i: "i < PROC_MAX" by (rule kmutex_invD(2) [OF inv True])
  obtain h nx where u: "kmutex_unlock_locked c m s = Some (Released,
      (proc_upd i (\<lambda>q. q\<lparr>kmutex_held := h\<rparr>) s)\<lparr>mtx_next := nx, mtx_owner := (mtx_owner s)(m := None)\<rparr>)"
    and s1: "kmutex_inv ((proc_upd i (\<lambda>q. q\<lparr>kmutex_held := h\<rparr>) s)\<lparr>mtx_next := nx, mtx_owner := (mtx_owner s)(m := None)\<rparr>)"
    by (rule unlock_locked_effect [OF inv c True])
  let ?s1 = "(proc_upd i (\<lambda>q. q\<lparr>kmutex_held := h\<rparr>) s)\<lparr>mtx_next := nx, mtx_owner := (mtx_owner s)(m := None)\<rparr>"
  have r: "kmutex_unlock False c (Some m) s = Some (Released, sched_wakeup (Some m) ?s1)"
    using u c by (simp add: kmutex_unlock_def kmutex_require_process_context_def)
  have "kmutex_inv (sched_wakeup (Some m) ?s1)" by (rule calm_inv [OF calm_wakeup s1])
  moreover have "mtx_owner (sched_wakeup (Some m) ?s1) = (mtx_owner s)(m := None)"
    using calm_wakeup [of ?s1 "Some m"] by (simp add: calm_def)
  moreover have "p_state (proc (sched_wakeup (Some m) ?s1) p) = (if p_state (proc s p) = PROC_BLOCKED \<and> wait_channel (proc s p) = Some m
      then PROC_RUNNABLE else p_state (proc s p))" if "p < PROC_MAX" for p
    using sched_wakeup_exact [of ?s1 "Some m"] that len i by simp
  ultimately show ?thesis unfolding if_P [OF True] using r by blast
next
  case False
  then show ?thesis using c
    by (simp add: kmutex_unlock_def kmutex_require_process_context_def kmutex_unlock_locked_def)
qed

text \<open>The exit loop, by induction on the list of held mutexes.\<close>

lemma release_owned_run:
  assumes "kmutex_inv s" "p < PROC_MAX" "owns_path s p xs"
  shows "\<exists>s'. kmutex_release_owned p s = Some s' \<and> kmutex_inv s'
    \<and> mtx_owner s' = (\<lambda>m. if m \<in> set xs then None else mtx_owner s m)
    \<and> (\<forall>q < PROC_MAX. p_state (proc s' q) = (if p_state (proc s q) = PROC_BLOCKED \<and> (\<exists>m \<in> set xs. wait_channel (proc s q) = Some m)
         then PROC_RUNNABLE else p_state (proc s q)))"
  using assms
proof (induction xs arbitrary: s)
  case Nil
  then have "kmutex_held (proc s p) = None" by (simp add: owns_path_def)
  then show ?case using Nil by (simp add: kmutex_release_owned.simps)
next
  case (Cons m xs)
  have h: "kmutex_held (proc s p) = Some m" using owns_pathD(1) [OF Cons.prems(3)] by simp
  define s1 where "s1 = kmutex_release_one p m s"
  define s2 where "s2 = sched_wakeup (Some m) s1"
  note r = release_one_inv [OF Cons.prems(1,2) h]
  note len = kmutex_invD(1) [OF Cons.prems(1)]
  have len1: "length (proc_table s1) = PROC_MAX" using kmutex_invD(1) [OF r(1)] by (simp add: s1_def)
  have q: "calm s1 s2" by (simp add: s2_def calm_wakeup)
  have inv2: "kmutex_inv s2" using r(1) calm_inv [OF q] by (simp add: s1_def)
  have "owns_path s1 p xs" using r(4) [OF Cons.prems(3)] by (simp add: s1_def)
  then have own2: "owns_path s2 p xs" using q Cons.prems(2) len1 by (simp add: owns_path_def calm_def calm_pcb_def)
  obtain s' where s': "kmutex_release_owned p s2 = Some s'" "kmutex_inv s'"
      "mtx_owner s' = (\<lambda>m. if m \<in> set xs then None else mtx_owner s2 m)"
      "\<And>q. q < PROC_MAX \<Longrightarrow> p_state (proc s' q) = (if p_state (proc s2 q) = PROC_BLOCKED \<and> (\<exists>m \<in> set xs. wait_channel (proc s2 q) = Some m)
         then PROC_RUNNABLE else p_state (proc s2 q))"
    using Cons.IH [OF inv2 Cons.prems(2) own2] by blast
  have run: "kmutex_release_owned p s = Some s'"
    using h s'(1) by (simp add: kmutex_release_owned.simps [of p s] s1_def s2_def)
  have own: "mtx_owner s' = (\<lambda>a. if a \<in> set (m # xs) then None else mtx_owner s a)"
    using s'(3) q r(3) by (auto simp: calm_def s1_def fun_eq_iff)
  have pr1: "p_state (proc s1 q) = p_state (proc s q)" "wait_channel (proc s1 q) = wait_channel (proc s q)" if "q < PROC_MAX" for q
    using that Cons.prems(2) len by (simp_all add: s1_def release_form [OF r(2)])
  have st: "p_state (proc s' q) = (if p_state (proc s q) = PROC_BLOCKED \<and> (\<exists>a \<in> set (m # xs). wait_channel (proc s q) = Some a)
         then PROC_RUNNABLE else p_state (proc s q))" if q: "q < PROC_MAX" for q
  proof -
    have "proc s2 q = (if p_state (proc s1 q) = PROC_BLOCKED \<and> wait_channel (proc s1 q) = Some m
        then (proc s1 q)\<lparr>p_state := PROC_RUNNABLE, wait_channel := None\<rparr> else proc s1 q)"
      using sched_wakeup_exact [of s1 "Some m"] q len1 by (simp add: s2_def)
    then show ?thesis using s'(4) [OF q] pr1 [OF q] by auto
  qed
  show ?case using run s'(2) own st by blast
qed

text \<open>The release of held mutexes at process exit ends. \<^verbatim>\<open>proc_free\<close> of a process in a
  consistent state returns with the slot free: the process owns no mutex any more, all other mutexes keep
  their owners, every other process blocked on one of its mutexes is runnable, and the state is
  consistent.\<close>

theorem proc_free_releases:
  assumes inv: "kmutex_inv s" and p: "p < PROC_MAX"
  shows "\<exists>s'. proc_free (Some p) s = Some s' \<and> kmutex_inv s' \<and> p_state (proc s' p) = PROC_FREE
    \<and> mtx_owner s' = (\<lambda>m. if mtx_owner s m = Some p then None else mtx_owner s m)
    \<and> (\<forall>q < PROC_MAX. q \<noteq> p \<longrightarrow> p_state (proc s' q) =
         (if p_state (proc s q) = PROC_BLOCKED \<and> (\<exists>m. wait_channel (proc s q) = Some m \<and> mtx_owner s m = Some p)
          then PROC_RUNNABLE else p_state (proc s q)))"
proof -
  obtain xs where xs: "owns_path s p xs" using kmutex_invD(3) [OF inv p] by blast
  obtain s1 where s1: "kmutex_release_owned p s = Some s1" "kmutex_inv s1"
      "mtx_owner s1 = (\<lambda>m. if m \<in> set xs then None else mtx_owner s m)"
      "\<And>q. q < PROC_MAX \<Longrightarrow> p_state (proc s1 q) = (if p_state (proc s q) = PROC_BLOCKED \<and> (\<exists>m \<in> set xs. wait_channel (proc s q) = Some m)
         then PROC_RUNNABLE else p_state (proc s q))"
    using release_owned_run [OF inv p xs] by blast
  note len = kmutex_invD(1) [OF s1(2)]
  define s2 where "s2 = proc_upd p (\<lambda>q. q\<lparr>p_state := PROC_FREE\<rparr>) s1"
  have inv2: "kmutex_inv s2" by (rule kmutex_inv_same [OF s1(2)]) (use len p in \<open>simp_all add: s2_def\<close>)
  have fr: "proc_free (Some p) s = Some s2" by (simp add: proc_free_def s1(1) s2_def)
  have ow: "mtx_owner s2 = (\<lambda>m. if mtx_owner s m = Some p then None else mtx_owner s m)"
    using s1(3) owns_pathD(2) [OF xs] by (simp add: s2_def)
  have free: "p_state (proc s2 p) = PROC_FREE" using len p by (simp add: s2_def)
  have st: "p_state (proc s2 q) = (if p_state (proc s q) = PROC_BLOCKED \<and> (\<exists>m. wait_channel (proc s q) = Some m \<and> mtx_owner s m = Some p)
          then PROC_RUNNABLE else p_state (proc s q))" if "q < PROC_MAX" "q \<noteq> p" for q
    using s1(4) [OF that(1)] that len p owns_pathD(2) [OF xs] by (auto simp: s2_def)
  show ?thesis using fr inv2 free ow st by blast
qed

lemma demo_lock1: "kmutex_lock_turn False 0 (Some 100) sched_boot =
  (Acquired, (proc_upd 0 (\<lambda>p. p\<lparr>kmutex_held := Some 100\<rparr>) sched_boot)
     \<lparr>mtx_owner := (\<lambda>_. None)(100 := Some 0), mtx_next := (\<lambda>_. None)(100 := None)\<rparr>)"
proof -
  have "kmutex_held (proc sched_boot 0) = None" "mtx_owner sched_boot = (\<lambda>_. None)" "mtx_next sched_boot = (\<lambda>_. None)" "cur sched_boot 0 = 0"
    by (simp_all add: boot_proc pcb_zero_def cur_def boot_cores) (simp_all add: sched_boot_def proc_init_def)
  then show ?thesis
    using acquire_form [of 0 100 sched_boot]
    by (simp add: kmutex_lock_turn_def kmutex_require_process_context_def boot_cores)
qed

lemma demo_locked_facts:
  "(kmutex_step M)\<^sup>*\<^sup>* (sched_boot, {}) (demo_locked, {}) \<or> \<not> {100, 200} \<subseteq> M"
  "kmutex_inv demo_locked" "current_core demo_locked ! 0 = Some 0"
  "mtx_owner demo_locked = (\<lambda>_. None)(100 := Some 0, 200 := Some 0)"
  "kmutex_held (proc demo_locked 0) = Some 200" "mtx_next demo_locked 200 = Some 100"
proof -
  define s1 where "s1 = snd (kmutex_lock_turn False 0 (Some 100) sched_boot)"
  have s1: "s1 = (proc_upd 0 (\<lambda>p. p\<lparr>kmutex_held := Some 100\<rparr>) sched_boot)
     \<lparr>mtx_owner := (\<lambda>_. None)(100 := Some 0), mtx_next := (\<lambda>_. None)(100 := None)\<rparr>" by (simp add: s1_def demo_lock1)
  have len: "length (proc_table sched_boot) = PROC_MAX" by (rule boot_cores(2))
  have c1: "current_core s1 = [Some 0, None]" "cur s1 0 = 0" by (simp_all add: s1 boot_cores cur_def)
  have l2: "kmutex_lock_turn False 0 (Some 200) s1 = (Acquired, (proc_upd 0 (\<lambda>p. p\<lparr>kmutex_held := Some 200\<rparr>) s1)
     \<lparr>mtx_next := (mtx_next s1)(200 := kmutex_held (proc s1 0)), mtx_owner := (mtx_owner s1)(200 := Some 0)\<rparr>)"
    unfolding kmutex_lock_turn_def kmutex_require_process_context_def using c1 acquire_form [of 0 200 s1] by (simp add: s1)
  have d: "demo_locked = (proc_upd 0 (\<lambda>p. p\<lparr>kmutex_held := Some 200\<rparr>) s1)
     \<lparr>mtx_next := (mtx_next s1)(200 := kmutex_held (proc s1 0)), mtx_owner := (mtx_owner s1)(200 := Some 0)\<rparr>"
    by (simp add: demo_locked_def s1_def [symmetric] l2)
  show cc: "current_core demo_locked ! 0 = Some 0" by (simp add: d c1)
  have len1: "length (proc_table s1) = PROC_MAX" "kmutex_held (proc s1 0) = Some 100" using len by (simp_all add: s1)
  show "mtx_owner demo_locked = (\<lambda>_. None)(100 := Some 0, 200 := Some 0)" by (simp add: d) (simp add: s1)
  show "kmutex_held (proc demo_locked 0) = Some 200" "mtx_next demo_locked 200 = Some 100" using len1 by (simp_all add: d)
  have steps: "(kmutex_step M)\<^sup>*\<^sup>* (sched_boot, {}) (demo_locked, {})" if M: "{100, 200} \<subseteq> M" for M
  proof -
    have "kmutex_step M (sched_boot, {}) (s1, {})" by (rule km_lock [of 0 100 _ False]) (use M demo_lock1 s1 in auto)
    moreover have "kmutex_step M (s1, {}) (demo_locked, {})" by (rule km_lock [of 0 200 _ False]) (use M l2 d in auto)
    ultimately show ?thesis by (meson converse_rtranclp_into_rtranclp rtranclp.rtrancl_refl)
  qed
  then show "(kmutex_step M)\<^sup>*\<^sup>* (sched_boot, {}) (demo_locked, {}) \<or> \<not> {100, 200} \<subseteq> M" by blast
  show "kmutex_inv demo_locked" using km_run.reach_inv [OF steps [of UNIV] safe_boot] by (simp add: kmutex_safe_def)
qed

text \<open>The run of the witness: on core 0 the process in slot 3 takes the mutex 100, on core 1 process 1 asks for
  it and falls asleep, process 3 clears the owner, and the wake-up makes process 1 runnable.\<close>

definition demo_held :: kstate where
  "demo_held = snd (kmutex_lock_turn False 0 (Some 100) demo_pair)"

definition demo_contended :: kstate where
  "demo_contended = snd (kmutex_lock_turn False 1 (Some 100) demo_held)"

definition demo_released :: kstate where
  "demo_released = (case kmutex_unlock_locked 0 100 demo_contended of Some (_, s) \<Rightarrow> s | None \<Rightarrow> demo_contended)"

lemma life_kmutex_run: "life_step\<^sup>*\<^sup>* s s' \<Longrightarrow> (kmutex_step M)\<^sup>*\<^sup>* (s, W) (s', W)"
  by (induction rule: rtranclp_induct) (auto intro: rtranclp.rtrancl_into_rtrancl km_life)

lemma demo_pair_kmutex: "(kmutex_step M)\<^sup>*\<^sup>* (sched_boot, {}) (demo_pair, {})"
proof -
  have "kmutex_step M (demo_child, {}) (demo_forked, {})" unfolding demo_forked_def by (rule km_vfork) (use demo_child_free in simp_all)
  then show ?thesis using life_kmutex_run [OF demo_child_life] life_kmutex_run [OF demo_pair_life]
    by (meson rtranclp.rtrancl_into_rtrancl rtranclp_trans)
qed

lemma demo_contended_facts:
  "p_state (proc demo_contended 1) = PROC_BLOCKED \<and> wait_channel (proc demo_contended 1) = Some 100"
  "mtx_owner demo_released 100 = None \<and> p_state (proc demo_released 1) = PROC_BLOCKED"
  "p_state (proc (sched_wakeup (Some 100) demo_released) 1) = PROC_RUNNABLE"
  by code_simp+

lemma demo_contended_run: "(kmutex_step {100})\<^sup>*\<^sup>* (sched_boot, {}) (demo_contended, {})"
proof -
  have "kmutex_step {100} (demo_pair, {}) (demo_held, {})"
    by (rule km_lock [of 0 100 _ False _ "fst (kmutex_lock_turn False 0 (Some 100) demo_pair)"]) (simp_all add: demo_held_def)
  moreover have "kmutex_step {100} (demo_held, {}) (demo_contended, {})"
    by (rule km_lock [of 1 100 _ False _ "fst (kmutex_lock_turn False 1 (Some 100) demo_held)"]) (simp_all add: demo_contended_def)
  ultimately show ?thesis using demo_pair_kmutex [of "{100}"] by (meson rtranclp.rtrancl_into_rtrancl)
qed

lemma demo_woken_run: "(kmutex_step {100})\<^sup>*\<^sup>* (demo_contended, {}) (sched_wakeup (Some 100) demo_released, {})"
proof -
  have "map_option fst (kmutex_unlock_locked 0 100 demo_contended) = Some Released" by code_simp
  then have "kmutex_unlock_locked 0 100 demo_contended = Some (Released, demo_released)" by (auto simp: demo_released_def)
  moreover have "current_core demo_contended ! 0 \<noteq> None" by code_simp
  ultimately have "kmutex_step {100} (demo_contended, {}) (demo_released, {100})" by (intro km_unlock [of 0]) simp_all
  moreover have "kmutex_step {100} (demo_released, {100}) (sched_wakeup (Some 100) demo_released, {})"
    using km_wakeup [of "{100}" demo_released "{100}" "Some 100"] by simp
  ultimately show ?thesis by (meson converse_rtranclp_into_rtranclp rtranclp.rtrancl_refl)
qed

theorem kmutex_exclusive_no_lost_wakeup_witness:
  "(kmutex_step {100})\<^sup>*\<^sup>* (sched_boot, {}) (demo_contended, {}) \<and> p_state (proc demo_contended 1) = PROC_BLOCKED
   \<and> wait_channel (proc demo_contended 1) = Some 100 \<and> mtx_owner demo_contended 100 \<noteq> None
   \<and> (kmutex_step {100})\<^sup>*\<^sup>* (demo_contended, {}) (sched_wakeup (Some 100) demo_released, {})
   \<and> p_state (proc (sched_wakeup (Some 100) demo_released) 1) = PROC_RUNNABLE"
proof -
  have "mtx_owner demo_contended 100 \<noteq> None"
    using conjunct2 [OF kmutex_exclusive_no_lost_wakeup [OF demo_contended_run], rule_format, of 1 100] demo_contended_facts(1) by simp
  then show ?thesis using demo_contended_run demo_woken_run demo_contended_facts by blast
qed

theorem kmutex_unlock_returns_witness:
  "kmutex_inv demo_locked \<and> (\<exists>s'. kmutex_unlock False 0 (Some 100) demo_locked = Some (Released, s')
     \<and> mtx_owner s' = (\<lambda>_. None)(200 := Some 0))"
proof -
  have "((\<lambda>_ :: nat. None :: nat option)(100 := Some 0, 200 := Some 0))(100 := None) = (\<lambda>_. None)(200 := Some 0)"
    by (rule ext) simp
  then show ?thesis
    using kmutex_unlock_returns [OF demo_locked_facts(2,3), of 100] demo_locked_facts(2) by (auto simp: demo_locked_facts(4))
qed

theorem proc_free_releases_witness:
  "kmutex_inv demo_locked \<and> (\<exists>s'. proc_free (Some 0) demo_locked = Some s' \<and> mtx_owner s' 100 = None \<and> mtx_owner s' 200 = None)"
  using proc_free_releases [OF demo_locked_facts(2), of 0] demo_locked_facts(2) by (auto simp: demo_locked_facts(4))

end
