(* ===== verification/Signal.thy ===== *)
theory Signal
  imports Lifecycle
begin

text \<open>
  Signals, \<^verbatim>\<open>src/kernel/core/signal/signal.c\<close> with \<^verbatim>\<open>ctz32\<close> of \<^verbatim>\<open>bitops.h\<close>. Handlers are
  32-bit user addresses, 0 for SIG_DFL and 1 for SIG_IGN. The subsystem hook of the current process and
  \<^verbatim>\<open>sys_exit\<close> are arguments of the functions that call them. A user pointer is None when null and
  otherwise carries the return code of the copy routine and, for input, the data it delivers; output is
  returned.
\<close>

subsection \<open>Operations\<close>

abbreviation SIGKILL :: nat where "SIGKILL \<equiv> 9"
abbreviation SIGCHLD :: nat where "SIGCHLD \<equiv> 17"
abbreviation SIGSTOP :: nat where "SIGSTOP \<equiv> 19"
abbreviation SIG_DFL :: u32 where "SIG_DFL \<equiv> 0"
abbreviation SIG_IGN :: u32 where "SIG_IGN \<equiv> 1"

definition ctz32 :: "u32 \<Rightarrow> nat" where
  "ctz32 x =
     (let n = 0;
          (n, x) = (if \<not> nz (x AND 0xFFFF) then (n + 16, drop_bit 16 x) else (n, x));
          (n, x) = (if \<not> nz (x AND 0xFF) then (n + 8, drop_bit 8 x) else (n, x));
          (n, x) = (if \<not> nz (x AND 0xF) then (n + 4, drop_bit 4 x) else (n, x));
          (n, x) = (if \<not> nz (x AND 0x3) then (n + 2, drop_bit 2 x) else (n, x))
      in if \<not> nz (x AND 0x1) then n + 1 else n)"

type_synonym signal_hook = "(nat \<Rightarrow> nat \<Rightarrow> kstate \<Rightarrow> bool \<times> kstate) option"

definition signal_default_action :: "signal_hook \<Rightarrow> (int \<Rightarrow> kstate \<Rightarrow> kstate) \<Rightarrow> nat \<Rightarrow> nat \<Rightarrow> kstate \<Rightarrow> kstate" where
  "signal_default_action on_signal sys_exit c sig s =
     (if sig = SIGCHLD then s
      else case on_signal of
        None \<Rightarrow> sys_exit (128 + int sig) s
      | Some hook \<Rightarrow> (let (handled, s) = hook (cur s c) sig s
                      in if handled then s else sys_exit (128 + int sig) s))"

definition signal_pop_pending ::
  "signal_hook \<Rightarrow> (int \<Rightarrow> kstate \<Rightarrow> kstate) \<Rightarrow> nat \<Rightarrow> kstate \<Rightarrow> nat option \<times> kstate" where
  "signal_pop_pending on_signal sys_exit c s =
     (if current_core s ! c = None \<or> p_state (proc s (cur s c)) \<noteq> PROC_RUNNABLE then (None, s)
      else
        let deliverable = sig_pending (proc s (cur s c)) AND NOT (sig_blocked (proc s (cur s c)))
        in if deliverable = 0 then (None, s)
           else
             let sig = ctz32 deliverable;
                 s = proc_upd (cur s c) (\<lambda>p. p\<lparr>sig_pending := sig_pending p AND NOT (push_bit sig 1)\<rparr>) s;
                 handler = sig_handlers (proc s (cur s c)) ! sig
             in if handler = SIG_IGN then (None, s)
                else if handler = SIG_DFL then (None, signal_default_action on_signal sys_exit c sig s)
                else (Some sig, s))"

definition signal_check_kernel ::
  "signal_hook \<Rightarrow> (int \<Rightarrow> kstate \<Rightarrow> kstate) \<Rightarrow> nat \<Rightarrow> kstate \<Rightarrow> int \<times> kstate" where
  "signal_check_kernel on_signal sys_exit c s =
     (let deliverable = sig_pending (proc s (cur s c)) AND NOT (sig_blocked (proc s (cur s c)))
      in if deliverable = 0 then (0, s)
         else
           let sig = ctz32 deliverable;
               s = proc_upd (cur s c) (\<lambda>p. p\<lparr>sig_pending := sig_pending p AND NOT (push_bit sig 1)\<rparr>) s
           in if sig_handlers (proc s (cur s c)) ! sig = SIG_IGN then (1, s)
              else (1, signal_default_action on_signal sys_exit c sig s))"

definition post_signal :: "int \<Rightarrow> pcb \<Rightarrow> pcb" where
  "post_signal sig p =
     (if sig = 0 then p
      else
        let p = p\<lparr>sig_pending := sig_pending p OR push_bit (nat sig) 1\<rparr>
        in if p_state p = PROC_BLOCKED then p\<lparr>p_state := PROC_RUNNABLE, wait_channel := None\<rparr>
           else if p_state p = PROC_SLEEPING then p\<lparr>p_state := PROC_RUNNABLE\<rparr>
           else p)"

definition sys_kill :: "int \<Rightarrow> int \<Rightarrow> kstate \<Rightarrow> int \<times> kstate" where
  "sys_kill tpid sig s =
     (if sig < 0 \<or> int NSIG \<le> sig then (- EINVAL, s)
      else case find (\<lambda>i. proc_state_is_live (p_state (proc s i)) \<and> pid (proc s i) = tpid) [0..<PROC_MAX] of
        None \<Rightarrow> (- ESRCH, s)
      | Some i \<Rightarrow> (0, proc_upd i (post_signal sig) s))"

text \<open>The result carries the old handler where it was asked for.\<close>

definition sys_sigaction :: "nat \<Rightarrow> int \<Rightarrow> u32 \<Rightarrow> bool \<Rightarrow> kstate \<Rightarrow> (int \<times> u32 option) \<times> kstate" where
  "sys_sigaction c sig handler want_old s =
     (if sig < 1 \<or> int NSIG \<le> sig then ((- EINVAL, None), s)
      else if sig = int SIGKILL \<or> sig = int SIGSTOP then ((- EINVAL, None), s)
      else ((0, if want_old then Some (sig_handlers (proc s (cur s c)) ! nat sig) else None),
            proc_upd (cur s c) (\<lambda>p. p\<lparr>sig_handlers := (sig_handlers p)[nat sig := handler]\<rparr>) s))"

record kernel_sigaction =
  ksa_handler :: u32
  ksa_flags :: u32
  ksa_restorer :: u32
  ksa_mask :: "u32 \<times> u32"

text \<open>The second half of \<^verbatim>\<open>sys_rt_sigaction\<close>: copy in the new action, if any, and store it.\<close>

definition sigaction_install ::
  "nat \<Rightarrow> nat \<Rightarrow> (int \<times> kernel_sigaction) option \<Rightarrow> kstate \<Rightarrow> int \<times> kstate" where
  "sigaction_install c sig act_ptr s =
     (case act_ptr of None \<Rightarrow> (0, s)
      | Some (rc, user_act) \<Rightarrow>
          if rc < 0 then (rc, s)
          else (0, proc_upd (cur s c) (\<lambda>p. p\<lparr>sig_handlers := (sig_handlers p)[sig := ksa_handler user_act],
                      sig_restorers := (sig_restorers p)[sig := ksa_restorer user_act]\<rparr>) s))"

definition sys_rt_sigaction ::
  "nat \<Rightarrow> int \<Rightarrow> (int \<times> kernel_sigaction) option \<Rightarrow> int option \<Rightarrow> kstate \<Rightarrow> int \<times> kernel_sigaction option \<times> kstate" where
  "sys_rt_sigaction c sig act_ptr oact_ptr s =
     (if sig < 1 \<or> int NSIG \<le> sig then (- EINVAL, None, s)
      else if sig = int SIGKILL \<or> sig = int SIGSTOP then (- EINVAL, None, s)
      else
        let user_oact = \<lparr>ksa_handler = sig_handlers (proc s (cur s c)) ! nat sig, ksa_flags = 0,
              ksa_restorer = sig_restorers (proc s (cur s c)) ! nat sig, ksa_mask = (0, 0)\<rparr>
        in case oact_ptr of
             None \<Rightarrow> (let (rc, s) = sigaction_install c (nat sig) act_ptr s in (rc, None, s))
           | Some rc \<Rightarrow> if rc < 0 then (rc, None, s)
               else (let (rc, s) = sigaction_install c (nat sig) act_ptr s in (rc, Some user_oact, s)))"

text \<open>The second half of \<^verbatim>\<open>sys_rt_sigprocmask\<close>, then the call. The mask is read as two words of
  which the first counts; the size argument only chooses how many bytes are copied.\<close>

definition procmask_set :: "nat \<Rightarrow> int \<Rightarrow> (int \<times> u32) option \<Rightarrow> kstate \<Rightarrow> int \<times> kstate" where
  "procmask_set c how set_ptr s =
     (case set_ptr of None \<Rightarrow> (0, s)
      | Some (rc, user_set) \<Rightarrow>
          if rc < 0 then (rc, s)
          else if how = 0 then (0, proc_upd (cur s c) (\<lambda>p. p\<lparr>sig_blocked := sig_blocked p OR user_set\<rparr>) s)
          else if how = 1 then (0, proc_upd (cur s c) (\<lambda>p. p\<lparr>sig_blocked := sig_blocked p AND NOT user_set\<rparr>) s)
          else if how = 2 then (0, proc_upd (cur s c) (\<lambda>p. p\<lparr>sig_blocked := user_set\<rparr>) s)
          else (- EINVAL, s))"

definition sys_rt_sigprocmask ::
  "nat \<Rightarrow> int \<Rightarrow> (int \<times> u32) option \<Rightarrow> int option \<Rightarrow> kstate \<Rightarrow> int \<times> u32 option \<times> kstate" where
  "sys_rt_sigprocmask c how set_ptr oset_ptr s =
     (case oset_ptr of
        None \<Rightarrow> (let (rc, s) = procmask_set c how set_ptr s in (rc, None, s))
      | Some rc \<Rightarrow>
          if rc < 0 then (rc, None, s)
          else let old = sig_blocked (proc s (cur s c));
                   (rc, s) = procmask_set c how set_ptr s
               in (rc, Some old, s))"

definition lowest_bit :: "u32 \<Rightarrow> nat" where
  "lowest_bit x = (LEAST n. bit x n)"

definition deliverable :: "pcb \<Rightarrow> nat set" where
  "deliverable p = {n. bit (sig_pending p) n \<and> \<not> bit (sig_blocked p) n}"

text \<open>Every process has a full handler table in which SIGKILL and SIGSTOP have the default action.\<close>

definition handlers_ok :: "kstate \<Rightarrow> bool" where
  "handlers_ok s \<longleftrightarrow> list_all (\<lambda>p. length (sig_handlers p) = NSIG \<and> length (sig_restorers p) = NSIG
     \<and> sig_handlers p ! SIGKILL = SIG_DFL \<and> sig_handlers p ! SIGSTOP = SIG_DFL) (proc_table s)"

inductive sig_step :: "kstate \<Rightarrow> kstate \<Rightarrow> bool" where
  ss_action: "sig_step s (snd (sys_sigaction c sig handler want_old s))"
| ss_rt_action: "sig_step s (snd (snd (sys_rt_sigaction c sig act_ptr oact_ptr s)))"
| ss_mask: "sig_step s (snd (snd (sys_rt_sigprocmask c how set_ptr oset_ptr s)))"
| ss_kill: "sig_step s (snd (sys_kill tpid sig s))"
| ss_alloc: "sig_step s (snd (proc_alloc s))"
| ss_sched: "sched_step False s s' \<Longrightarrow> sig_step s s'"

text \<open>A process with signals 10 and 17 pending, 10 blocked; used by the witnesses.\<close>

definition demo_signal :: kstate where
  "demo_signal = proc_upd 0 (\<lambda>p. p\<lparr>sig_pending := 0x20400, sig_blocked := 0x400, sig_handlers := (sig_handlers p)[17 := 0x8000]\<rparr>) sched_boot"

subsection \<open>Counting trailing zeros\<close>

lemma lowest_bit: 
  assumes "x \<noteq> 0"
  shows "bit x (lowest_bit x)" "n < lowest_bit x \<Longrightarrow> \<not> bit x n" "bit x n \<Longrightarrow> lowest_bit x \<le> n"
proof -
  obtain k where "bit x k" using assms by (metis bit_eq_iff bit_0_eq bot_apply bot_bool_def)
  then show "bit x (lowest_bit x)" unfolding lowest_bit_def by (rule LeastI)
  show "n < lowest_bit x \<Longrightarrow> \<not> bit x n" unfolding lowest_bit_def by (rule not_less_Least)
  show "bit x n \<Longrightarrow> lowest_bit x \<le> n" unfolding lowest_bit_def by (rule Least_le)
qed

lemma low_bits_nonzero: "x AND mask k \<noteq> 0 \<longleftrightarrow> (\<exists>n < k. bit (x :: u32) n)"
proof
  assume "x AND mask k \<noteq> 0"
  then obtain n where "bit (x AND mask k) n" by (metis bit_eq_iff bit_0_eq bot_apply bot_bool_def)
  then show "\<exists>n < k. bit x n" by (auto simp: bit_simps)
next
  assume "\<exists>n < k. bit x n"
  then obtain n where "n < k" "bit x n" by blast
  then have "bit (x AND mask k) n" by (auto simp: bit_simps dest: bit_imp_le_length)
  then show "x AND mask k \<noteq> 0" by auto
qed

text \<open>One step of the search: with the low bits clear the lowest bit is found in the rest.\<close>

lemma lowest_bit_shift:
  assumes "x \<noteq> 0" and "x AND mask k = 0"
  shows "drop_bit k x \<noteq> 0" "lowest_bit x = k + lowest_bit (drop_bit k x)" "k \<le> lowest_bit x"
proof -
  have no: "\<not> bit x n" if "n < k" for n using assms(2) low_bits_nonzero [of x k] that by blast
  have k: "k \<le> lowest_bit x" using no lowest_bit(1) [OF assms(1)] not_le by blast
  then have b: "bit (drop_bit k x) (lowest_bit x - k)" using lowest_bit(1) [OF assms(1)] by (simp add: bit_simps)
  then show d: "drop_bit k x \<noteq> 0" by auto
  have "lowest_bit (drop_bit k x) \<le> lowest_bit x - k" by (rule lowest_bit(3) [OF d b])
  moreover have "bit x (k + lowest_bit (drop_bit k x))" using lowest_bit(1) [OF d] by (simp add: bit_simps add.commute)
  then have "lowest_bit x \<le> k + lowest_bit (drop_bit k x)" by (rule lowest_bit(3) [OF assms(1)])
  ultimately show "lowest_bit x = k + lowest_bit (drop_bit k x)" using k by linarith
  show "k \<le> lowest_bit x" by (rule k)
qed

lemma ctz_step:
  fixes x m :: u32 and n k :: nat
  assumes "x \<noteq> 0" "lowest_bit x < 2 * k" and m: "m = mask k"
  defines "r \<equiv> if x AND m = 0 then (n + k, drop_bit k x) else (n, x)"
  shows "snd r \<noteq> 0 \<and> lowest_bit (snd r) < k \<and> fst r + lowest_bit (snd r) = n + lowest_bit x"
proof (cases "x AND m = 0")
  case True
  then show ?thesis using lowest_bit_shift [OF assms(1), of k] assms(2) by (simp add: r_def m)
next
  case False
  then obtain i where "i < k" "bit x i" using low_bits_nonzero [of x k] by (auto simp: m)
  then have "lowest_bit x < k" using lowest_bit(3) [OF assms(1)] by (meson le_less_trans)
  then show ?thesis using False assms(1) by (simp add: r_def)
qed

lemma ctz32_eq:
  assumes "x \<noteq> 0"
  shows "ctz32 x = (LEAST n. bit x n)"
proof -
  define r1 :: "nat \<times> u32" where "r1 = (if x AND 0xFFFF = 0 then (0 + 16, drop_bit 16 x) else (0, x))"
  define r2 where "r2 = (if snd r1 AND 0xFF = 0 then (fst r1 + 8, drop_bit 8 (snd r1)) else (fst r1, snd r1))"
  define r3 where "r3 = (if snd r2 AND 0xF = 0 then (fst r2 + 4, drop_bit 4 (snd r2)) else (fst r2, snd r2))"
  define r4 where "r4 = (if snd r3 AND 0x3 = 0 then (fst r3 + 2, drop_bit 2 (snd r3)) else (fst r3, snd r3))"
  have m: "(0xFFFF :: u32) = mask 16" "(0xFF :: u32) = mask 8" "(0xF :: u32) = mask 4" "(0x3 :: u32) = mask 2"
    by (simp_all add: mask_eq_exp_minus_1)
  have "lowest_bit x < 2 * 16" using bit_imp_le_length [OF lowest_bit(1) [OF assms]] by simp
  note s1 = ctz_step [OF assms this m(1), where n = 0, folded r1_def]
  have s1': "snd r1 \<noteq> 0" "lowest_bit (snd r1) < 2 * 8" using s1 by auto
  note s2 = ctz_step [OF s1' m(2), where n = "fst r1", folded r2_def]
  have s2': "snd r2 \<noteq> 0" "lowest_bit (snd r2) < 2 * 4" using s2 by auto
  note s3 = ctz_step [OF s2' m(3), where n = "fst r2", folded r3_def]
  have s3': "snd r3 \<noteq> 0" "lowest_bit (snd r3) < 2 * 2" using s3 by auto
  note s4 = ctz_step [OF s3' m(4), where n = "fst r3", folded r4_def]
  have "ctz32 x = (if snd r4 AND 1 = 0 then fst r4 + 1 else fst r4)"
    unfolding ctz32_def Let_def r1_def r2_def r3_def r4_def by (simp add: split_beta)
  moreover have "lowest_bit (snd r4) = (if snd r4 AND 1 = 0 then 1 else 0)"
  proof (cases "bit (snd r4) 0")
    case True
    then show ?thesis using lowest_bit(3) [of "snd r4" 0] s4 by (simp add: and_one_eq bit_0 odd_iff_mod_2_eq_one)
  next
    case False
    then have "lowest_bit (snd r4) \<noteq> 0" using lowest_bit(1) [of "snd r4"] s4 by metis
    then have "lowest_bit (snd r4) = 1" using s4 by linarith
    then show ?thesis using False using nz_and_bit(1) [of "snd r4"] by auto
  qed
  ultimately have "ctz32 x = lowest_bit x" using s1 s2 s3 s4 by auto
  then show ?thesis by (simp add: lowest_bit_def)
qed

text \<open>\<^verbatim>\<open>ctz32\<close>, a binary search by shifts and masks, computes the position of the lowest set bit
  of every non-zero word.\<close>

theorem ctz32_lowest:
  assumes "x \<noteq> 0"
  shows "ctz32 x = (LEAST n. bit x n)"
  by (rule ctz32_eq [OF assms])

theorem ctz32_lowest_witness: "ctz32 0x00080200 = 9 \<and> (LEAST n. bit (0x00080200 :: u32) n) = 9"
proof -
  have "ctz32 0x00080200 = 9" by (simp add: ctz32_def)
  then show ?thesis using ctz32_lowest [of "0x00080200"] by simp
qed

subsection \<open>Delivery\<close>

lemma bit_deliverable:
  "bit (sig_pending p AND NOT (sig_blocked p)) n \<longleftrightarrow> n \<in> deliverable p"
  by (auto simp: deliverable_def bit_simps dest: bit_imp_le_length)

lemma deliverable_zero: "sig_pending p AND NOT (sig_blocked p) = 0 \<longleftrightarrow> deliverable p = {}"
proof
  assume "sig_pending p AND NOT (sig_blocked p) = 0"
  then have "n \<notin> deliverable p" for n using bit_deliverable [of p n] by simp
  then show "deliverable p = {}" by blast
next
  assume "deliverable p = {}"
  then have "\<not> bit (sig_pending p AND NOT (sig_blocked p)) n" for n using bit_deliverable [of p n] by simp
  then show "sig_pending p AND NOT (sig_blocked p) = 0" by (intro bit_eqI) simp
qed

lemma ctz_deliverable:
  assumes "deliverable p \<noteq> {}"
  defines "n \<equiv> ctz32 (sig_pending p AND NOT (sig_blocked p))"
  shows "n \<in> deliverable p" "\<forall>k \<in> deliverable p. n \<le> k" "n < NSIG"
proof -
  let ?w = "sig_pending p AND NOT (sig_blocked p)"
  have w: "?w \<noteq> 0" using assms(1) deliverable_zero by blast
  have n: "n = (LEAST k. k \<in> deliverable p)" using ctz32_eq [OF w] unfolding n_def bit_deliverable by simp
  obtain k where "k \<in> deliverable p" using assms(1) by blast
  then show nd: "n \<in> deliverable p" unfolding n by (rule LeastI)
  show "\<forall>k \<in> deliverable p. n \<le> k" unfolding n by (auto intro: Least_le)
  show "n < NSIG" using nd bit_imp_le_length [of "sig_pending p" n] by (auto simp: deliverable_def)
qed

lemma bit_clear: "bit ((w :: u32) AND NOT (push_bit n 1)) k \<longleftrightarrow> bit w k \<and> k \<noteq> n"
  by (auto simp: bit_simps dest: bit_imp_le_length)

text \<open>C39: delivery of signals to the running process. If no pending signal is unblocked nothing happens.
  Otherwise the lowest-numbered one is taken off the pending set, and only that: an ignored signal is
  dropped, a signal with the default action goes to \<^verbatim>\<open>signal_default_action\<close>, and any other is
  reported to the caller for its handler. A process that is not runnable gets nothing.\<close>

theorem signal_pop_pending_correct:
  assumes c: "current_core s ! c = Some i" and i: "i < length (proc_table s)"
  shows "case signal_pop_pending hook exit c s of (r, s') \<Rightarrow>
    if p_state (proc s i) \<noteq> PROC_RUNNABLE \<or> deliverable (proc s i) = {} then r = None \<and> s' = s
    else \<exists>sig s1. sig \<in> deliverable (proc s i) \<and> (\<forall>k \<in> deliverable (proc s i). sig \<le> k)
      \<and> (\<forall>n. bit (sig_pending (proc s1 i)) n \<longleftrightarrow> bit (sig_pending (proc s i)) n \<and> n \<noteq> sig)
      \<and> s1 = s\<lparr>proc_table := (proc_table s)[i := (proc s i)\<lparr>sig_pending := sig_pending (proc s1 i)\<rparr>]\<rparr>
      \<and> (if sig_handlers (proc s i) ! sig = SIG_IGN then r = None \<and> s' = s1
         else if sig_handlers (proc s i) ! sig = SIG_DFL then r = None \<and> s' = signal_default_action hook exit c sig s1
         else r = Some sig \<and> s' = s1)"
proof -
  have ci: "cur s c = i" using c by (simp add: cur_def)
  let ?p = "proc s i"
  define sig where "sig = ctz32 (sig_pending ?p AND NOT (sig_blocked ?p))"
  define s1 where "s1 = proc_upd i (\<lambda>p. p\<lparr>sig_pending := sig_pending p AND NOT (push_bit sig 1)\<rparr>) s"
  show ?thesis
  proof (cases "p_state ?p \<noteq> PROC_RUNNABLE \<or> deliverable ?p = {}")
    case True
    then show ?thesis using c ci by (auto simp: signal_pop_pending_def deliverable_zero Let_def)
  next
    case False
    note d = ctz_deliverable [of ?p, folded sig_def]
    have nz: "sig_pending ?p AND NOT (sig_blocked ?p) \<noteq> 0" using False deliverable_zero by blast
    have p1: "proc s1 i = ?p\<lparr>sig_pending := sig_pending ?p AND NOT (push_bit sig 1)\<rparr>" using i by (simp add: s1_def)
    have "signal_pop_pending hook exit c s = (if sig_handlers ?p ! sig = SIG_IGN then (None, s1)
        else if sig_handlers ?p ! sig = SIG_DFL then (None, signal_default_action hook exit c sig s1) else (Some sig, s1))"
      using False c ci nz i by (simp add: signal_pop_pending_def Let_def sig_def [symmetric] s1_def [symmetric] p1)
        (simp add: s1_def ci)
    moreover have "sig \<in> deliverable ?p" "\<forall>k \<in> deliverable ?p. sig \<le> k" using d False by auto
    moreover have "\<forall>n. bit (sig_pending (proc s1 i)) n \<longleftrightarrow> bit (sig_pending ?p) n \<and> n \<noteq> sig"
      unfolding p1 using bit_clear by simp
    moreover have "s1 = s\<lparr>proc_table := (proc_table s)[i := ?p\<lparr>sig_pending := sig_pending (proc s1 i)\<rparr>]\<rparr>"
      unfolding p1 by (simp add: s1_def proc_upd_def)
    ultimately show ?thesis using False by (simp only: split_beta if_False) (intro exI [of _ sig] exI [of _ s1]; auto)
  qed
qed

subsection \<open>Posting\<close>

lemma bit_set: "n < NSIG \<Longrightarrow> bit ((w :: u32) OR push_bit n 1) k \<longleftrightarrow> bit w k \<or> k = n"
  by (auto simp: bit_simps)

text \<open>\<^verbatim>\<open>sys_kill\<close> on every branch. A signal number out of range is -EINVAL and an unknown
  process -ESRCH, without effect. Otherwise exactly the first live process with the pid is touched: the
  signal is added to its pending set and it is woken if it was blocked or sleeping; signal 0 only checks
  that the process exists.\<close>

theorem sys_kill_correct:
  assumes "length (proc_table s) = PROC_MAX"
  shows "case sys_kill tpid sig s of (rc, s') \<Rightarrow>
    if sig < 0 \<or> int NSIG \<le> sig then rc = - EINVAL \<and> s' = s
    else if \<forall>i < PROC_MAX. \<not> (proc_state_is_live (p_state (proc s i)) \<and> pid (proc s i) = tpid) then rc = - ESRCH \<and> s' = s
    else \<exists>i < PROC_MAX. proc_state_is_live (p_state (proc s i)) \<and> pid (proc s i) = tpid
      \<and> rc = 0 \<and> (\<forall>j < PROC_MAX. j \<noteq> i \<longrightarrow> proc s' j = proc s j)
      \<and> (\<forall>n. bit (sig_pending (proc s' i)) n \<longleftrightarrow> bit (sig_pending (proc s i)) n \<or> (sig \<noteq> 0 \<and> n = nat sig))
      \<and> p_state (proc s' i) = (if sig \<noteq> 0 \<and> p_state (proc s i) \<in> {PROC_BLOCKED, PROC_SLEEPING} then PROC_RUNNABLE
          else p_state (proc s i))
      \<and> (sig = 0 \<longrightarrow> s' = s)"
proof (cases "sig < 0 \<or> int NSIG \<le> sig")
  case True
  then show ?thesis by (simp add: sys_kill_def)
next
  case range: False
  let ?P = "\<lambda>i. proc_state_is_live (p_state (proc s i)) \<and> pid (proc s i) = tpid"
  show ?thesis
  proof (cases "find ?P [0..<PROC_MAX]")
    case None
    then have "\<forall>i < PROC_MAX. \<not> ?P i" unfolding find_upt_None by auto
    then show ?thesis using range None by (simp add: sys_kill_def)
  next
    case (Some i)
    then have i: "i < PROC_MAX" "?P i" unfolding find_upt_Some by auto
    have n: "nat sig < NSIG" using range by auto
    have k: "sys_kill tpid sig s = (0, proc_upd i (post_signal sig) s)" using range Some by (simp add: sys_kill_def)
    have pi: "proc (proc_upd i (post_signal sig) s) j = (if j = i then post_signal sig (proc s i) else proc s j)" for j
      using i assms by simp
    have "sig = 0 \<Longrightarrow> proc_upd i (post_signal sig) s = s" by (simp add: post_signal_def proc_upd_def)
    moreover have "\<forall>n. bit (sig_pending (post_signal sig (proc s i))) n \<longleftrightarrow> bit (sig_pending (proc s i)) n \<or> (sig \<noteq> 0 \<and> n = nat sig)"
      using bit_set [OF n] by (simp add: post_signal_def Let_def)
    moreover have "p_state (post_signal sig (proc s i)) = (if sig \<noteq> 0 \<and> p_state (proc s i) \<in> {PROC_BLOCKED, PROC_SLEEPING} then PROC_RUNNABLE
          else p_state (proc s i))" by (simp add: post_signal_def Let_def)
    ultimately show ?thesis using range i unfolding k prod.case pi
      by (simp only: if_False) (intro if_not_P [THEN iffD2]; auto)
  qed
qed

subsection \<open>Signals that cannot be caught\<close>

lemma handlers_ok_upd:
  assumes "handlers_ok s" and "\<And>p. length (sig_handlers p) = NSIG \<Longrightarrow> length (sig_restorers p) = NSIG \<Longrightarrow>
      sig_handlers p ! SIGKILL = SIG_DFL \<Longrightarrow> sig_handlers p ! SIGSTOP = SIG_DFL \<Longrightarrow>
      length (sig_handlers (g p)) = NSIG \<and> length (sig_restorers (g p)) = NSIG
      \<and> sig_handlers (g p) ! SIGKILL = SIG_DFL \<and> sig_handlers (g p) ! SIGSTOP = SIG_DFL"
  shows "handlers_ok (proc_upd i g s)"
proof (cases "i < length (proc_table s)")
  case True
  then show ?thesis using assms unfolding handlers_ok_def proc_upd_def list_all_length
    by (simp add: nth_list_update)
next
  case False
  then show ?thesis using assms(1) by (simp add: handlers_ok_def proc_upd_def list_update_beyond not_less)
qed

lemma handlers_ok_map:
  assumes "handlers_ok s" and "\<And>p. sig_handlers (g p) = sig_handlers p \<and> sig_restorers (g p) = sig_restorers p"
  shows "handlers_ok (s\<lparr>proc_table := map g (proc_table s)\<rparr>)"
  using assms by (simp add: handlers_ok_def list_all_length)

lemma handlers_ok_fields [simp]:
  "handlers_ok (s\<lparr>current_core := cc\<rparr>) = handlers_ok s" "handlers_ok (s\<lparr>tick_count := t\<rparr>) = handlers_ok s"
  "handlers_ok (s\<lparr>next_pid := n\<rparr>) = handlers_ok s" "handlers_ok (arch_yield s) = handlers_ok s"
  "handlers_ok (s\<lparr>cpu_idle_ticks := a\<rparr>) = handlers_ok s" "handlers_ok (s\<lparr>cpu_user_ticks := a\<rparr>) = handlers_ok s"
  "handlers_ok (s\<lparr>cpu_system_ticks := a\<rparr>) = handlers_ok s"
  by (simp_all add: handlers_ok_def)

lemma handlers_ok_alloc: "handlers_ok s \<Longrightarrow> handlers_ok (snd (proc_alloc s))"
  by (cases s rule: proc_alloc_cases) (auto intro!: handlers_ok_upd simp: pcb_zero_def)

lemma handlers_ok_switch: "handlers_ok s \<Longrightarrow> handlers_ok (ctx_switch c s)"
  by (auto simp: ctx_switch_def sched_next_def Let_def intro!: handlers_ok_upd)

lemma handlers_ok_tick: "handlers_ok s \<Longrightarrow> handlers_ok (sched_tick c ticks s)"
proof -
  assume "handlers_ok s"
  then have "handlers_ok (if c = 0 then s\<lparr>proc_table := map (tick_wake ticks) (proc_table s)\<rparr> else s)"
    by (auto intro: handlers_ok_map simp: tick_wake_def Let_def)
  then show ?thesis
    unfolding sched_tick_def by (auto simp: Let_def intro!: handlers_ok_upd split: option.splits)
qed

lemma handlers_ok_timer: "handlers_ok s \<Longrightarrow> handlers_ok (sched_timer_tick c from_user s)"
  unfolding sched_timer_tick_def
  by (auto simp: Let_def intro!: handlers_ok_tick handlers_ok_upd split: option.splits)

lemma handlers_ok_wakeup: "handlers_ok s \<Longrightarrow> handlers_ok (sched_wakeup ch s)"
proof -
  assume "handlers_ok s"
  then have "handlers_ok (s\<lparr>proc_table := map (wake_on ch) (proc_table s)\<rparr>)"
    by (rule handlers_ok_map) (simp add: wake_on_def)
  then show ?thesis by (simp add: sched_wakeup_def Let_def)
qed

lemma handlers_ok_wake_pid: "handlers_ok s \<Longrightarrow> handlers_ok (proc_wake_blocked_pid_locked pd s)"
  by (auto simp: proc_wake_blocked_pid_locked_def proc_wake_blocked_locked_def split: option.splits intro!: handlers_ok_upd)

lemma handlers_ok_exit: "handlers_ok s \<Longrightarrow> handlers_ok (sys_exit_proc c status s)"
proof -
  assume s: "handlers_ok s"
  have w: "handlers_ok (proc_upd v proc_wake_blocked_locked t)" if "handlers_ok t" for v t
    using that by (auto simp: proc_wake_blocked_locked_def intro!: handlers_ok_upd)
  have "handlers_ok (exit_wakes i status s)" for i
    unfolding exit_wakes_def using s by (auto simp: Let_def intro!: handlers_ok_wake_pid w handlers_ok_upd split: option.splits)
  moreover have "handlers_ok (exit_adopt me i t)" if "handlers_ok t" for me i t
    using that by (auto simp: exit_adopt_def Let_def intro!: handlers_ok_wake_pid handlers_ok_upd)
  then have "handlers_ok (fold (exit_adopt me) xs t)" if "handlers_ok t" for me xs t
    using that by (induction xs arbitrary: t) simp_all
  ultimately show ?thesis
    using s by (auto simp: sys_exit_proc_def sys_exit_locked_def Let_def intro!: handlers_ok_upd)
qed

lemma handlers_ok_life: "life_step s s' \<Longrightarrow> handlers_ok s \<Longrightarrow> handlers_ok s'"
proof (induction rule: life_step.induct)
  case (life_core1 s stack_ok)
  from handlers_ok_alloc [OF life_core1(2)] show ?case
    by (auto simp: core1_sched_entry_def split: prod.splits option.splits intro!: handlers_ok_upd)
next
  case (life_sleep c s rem_fault)
  then show ?case by (auto simp: nanosleep_turn_def Let_def intro!: handlers_ok_upd)
next
  case (life_stop c s)
  then show ?case by (auto simp: trace_stop_current_def Let_def intro!: handlers_ok_wake_pid handlers_ok_upd)
next
  case (life_wait_stopped c s i stopped_pid)
  then show ?case by (auto simp: waitpid_stopped_locked_def Let_def intro!: handlers_ok_upd)
next
  case (life_wait_claim c s i zombie_pid is_child)
  then show ?case by (auto simp: waitpid_claim_def Let_def intro!: handlers_ok_upd)
next
  case (life_traceme c s requested)
  then show ?case by (auto simp: ptrace_traceme_def intro!: handlers_ok_upd)
next
  case (life_attach c s requested pd)
  then show ?case by (auto simp: ptrace_attach_def Let_def intro!: handlers_ok_wake_pid handlers_ok_upd split: option.splits)
next
  case (life_exec c s)
  then show ?case
    by (auto simp: execve_unblock_def proc_wake_blocked_locked_def intro!: handlers_ok_upd split: option.splits)
qed (auto simp: proc_wake_blocked_locked_def wake_sleeping_def trace_resume_target_def ptrace_detach_def vfork_child_init_def Let_def
    intro!: handlers_ok_switch handlers_ok_timer handlers_ok_alloc handlers_ok_exit handlers_ok_upd)

lemma handlers_ok_sched: "sched_step b s s' \<Longrightarrow> handlers_ok s \<Longrightarrow> handlers_ok s'"
proof (induction rule: sched_step.induct)
  case (step_life s s')
  then show ?case by (rule handlers_ok_life)
qed (auto simp: sched_block_current_def vfork_start_def intro!: handlers_ok_wakeup handlers_ok_upd)

lemma handlers_ok_sig: "sig_step s s' \<Longrightarrow> handlers_ok s \<Longrightarrow> handlers_ok s'"
proof (induction rule: sig_step.induct)
  case (ss_action s c sig handler want_old)
  then show ?case by (auto simp: sys_sigaction_def intro!: handlers_ok_upd)
next
  case (ss_rt_action s c sig act_ptr oact_ptr)
  have "handlers_ok (snd (sigaction_install c (nat sig) act_ptr s))" if "nat sig \<noteq> SIGKILL" "nat sig \<noteq> SIGSTOP"
    using ss_rt_action that by (auto simp: sigaction_install_def split: option.splits intro!: handlers_ok_upd)
  then show ?case using ss_rt_action
    by (auto simp: sys_rt_sigaction_def Let_def split_beta split: option.splits)
next
  case (ss_mask s c how set_ptr oset_ptr)
  have "handlers_ok (snd (procmask_set c how set_ptr s))"
    using ss_mask by (auto simp: procmask_set_def split: option.splits intro!: handlers_ok_upd)
  then show ?case using ss_mask
    by (auto simp: sys_rt_sigprocmask_def Let_def split_beta split: option.splits)
next
  case (ss_kill s tpid sig)
  then show ?case
    by (auto simp: sys_kill_def post_signal_def Let_def split: option.splits intro!: handlers_ok_upd)
next
  case (ss_alloc s)
  then show ?case by (rule handlers_ok_alloc)
next
  case (ss_sched s s')
  then show ?case by (rule handlers_ok_sched)
qed

interpretation sig_run: step_system sig_step handlers_ok
  by unfold_locales (rule handlers_ok_sig)

lemma handlers_ok_boot: "handlers_ok sched_boot"
  by (simp add: handlers_ok_def list_all_length boot_cores boot_proc pcb_zero_def)

text \<open>C40: SIGKILL and SIGSTOP cannot be caught or ignored. From boot, whatever signal calls, process
  creation and scheduling follow, every process keeps a handler and a restorer slot for each of the 32 signals
  and the default action for these two; both installation calls reject them with -EINVAL and change nothing.\<close>

theorem sigkill_uncatchable:
  assumes "sig_step\<^sup>*\<^sup>* sched_boot s" and "p \<in> set (proc_table s)"
  shows "length (sig_handlers p) = NSIG \<and> length (sig_restorers p) = NSIG
    \<and> sig_handlers p ! SIGKILL = SIG_DFL \<and> sig_handlers p ! SIGSTOP = SIG_DFL
    \<and> (\<forall>sig \<in> {int SIGKILL, int SIGSTOP}. sys_sigaction c sig h old s = ((- EINVAL, None), s)
         \<and> sys_rt_sigaction c sig act oact s = (- EINVAL, None, s))"
  using sig_run.reach_inv [OF assms(1) handlers_ok_boot] assms(2)
  by (auto simp: handlers_ok_def list_all_iff sys_sigaction_def sys_rt_sigaction_def)

theorem sigkill_uncatchable_witness:
  "\<exists>s p. sig_step\<^sup>*\<^sup>* sched_boot s \<and> p \<in> set (proc_table s) \<and> s = snd (sys_sigaction 0 10 0x1234 False sched_boot)
     \<and> sig_handlers p ! SIGKILL = SIG_DFL"
proof -
  define s where "s = snd (sys_sigaction 0 10 0x1234 False sched_boot)"
  have st: "sig_step\<^sup>*\<^sup>* sched_boot s" unfolding s_def by (rule r_into_rtranclp, rule ss_action)
  have "0 < length (proc_table s)" by (simp add: s_def sys_sigaction_def boot_cores)
  then have p: "proc s 0 \<in> set (proc_table s)" by (rule nth_mem)
  from sigkill_uncatchable [OF st p] st p s_def show ?thesis by blast
qed

text \<open>SIGKILL can be blocked. \<^verbatim>\<open>sys_rt_sigprocmask\<close> takes the mask of the caller unfiltered: a
  process with nothing pending that blocks SIGKILL and is then killed keeps running, since delivery leaves
  the state unchanged.\<close>

theorem sigkill_blockable:
  assumes "current_core s ! c = Some i" and "i < length (proc_table s)" and "sig_pending (proc s i) = 0"
  shows "case sys_rt_sigprocmask c 0 (Some (0, push_bit SIGKILL 1)) None s of (rc, old, s1) \<Rightarrow>
    rc = 0 \<and> (let s2 = proc_upd i (post_signal (int SIGKILL)) s1 in
      bit (sig_pending (proc s2 i)) SIGKILL \<and> signal_pop_pending hook exit c s2 = (None, s2))"
proof -
  have ci: "cur s c = i" using assms(1) by (simp add: cur_def)
  define s1 where "s1 = proc_upd i (\<lambda>p. p\<lparr>sig_blocked := sig_blocked p OR push_bit SIGKILL 1\<rparr>) s"
  define s2 where "s2 = proc_upd i (post_signal (int SIGKILL)) s1"
  have r: "sys_rt_sigprocmask c 0 (Some (0, push_bit SIGKILL 1)) None s = (0, None, s1)"
    by (simp add: sys_rt_sigprocmask_def procmask_set_def ci s1_def)
  have pend: "sig_pending (proc s2 i) = push_bit SIGKILL 1"
    and blk: "sig_blocked (proc s2 i) = sig_blocked (proc s i) OR push_bit SIGKILL 1"
    and cc: "current_core s2 = current_core s" "cur s2 c = i"
    using assms ci by (simp_all add: s2_def s1_def post_signal_def Let_def)
  have "deliverable (proc s2 i) = {}"
    unfolding deliverable_def pend blk by (auto simp: bit_simps)
  then have "signal_pop_pending hook exit c s2 = (None, s2)"
    using cc by (simp add: signal_pop_pending_def Let_def deliverable_zero)
  moreover have "bit (sig_pending (proc s2 i)) SIGKILL" unfolding pend by (simp add: bit_simps)
  ultimately show ?thesis unfolding r prod.case Let_def s2_def [symmetric] by simp
qed

theorem sigkill_blockable_witness:
  "current_core sched_boot ! 0 = Some 0 \<and> sig_pending (proc sched_boot 0) = 0 \<and>
   fst (sys_rt_sigprocmask 0 0 (Some (0, push_bit SIGKILL 1)) None sched_boot) = 0"
proof -
  have "sig_pending (proc sched_boot 0) = 0" by (simp add: boot_proc pcb_zero_def)
  with sigkill_blockable [of sched_boot 0 0 None "\<lambda>_ s. s"] show ?thesis by (simp add: boot_cores split_beta)
qed

lemma demo_signal_facts:
  "current_core demo_signal ! 0 = Some 0" "length (proc_table demo_signal) = PROC_MAX"
  "p_state (proc demo_signal 0) = PROC_RUNNABLE" "deliverable (proc demo_signal 0) = {17}"
  "sig_handlers (proc demo_signal 0) ! 17 = 0x8000"
proof -
  show "current_core demo_signal ! 0 = Some 0" "length (proc_table demo_signal) = PROC_MAX"
    by (simp_all add: demo_signal_def boot_cores)
  have p: "proc demo_signal 0 = (proc sched_boot 0)\<lparr>sig_pending := 0x20400, sig_blocked := 0x400,
      sig_handlers := (sig_handlers (proc sched_boot 0))[17 := 0x8000]\<rparr>"
    by (simp add: demo_signal_def boot_cores)
  show "p_state (proc demo_signal 0) = PROC_RUNNABLE" "sig_handlers (proc demo_signal 0) ! 17 = 0x8000"
    by (simp_all add: p boot_proc pcb_zero_def)
  have "sig_pending (proc demo_signal 0) AND NOT (sig_blocked (proc demo_signal 0)) = push_bit 17 1" by (simp add: p)
  moreover have "bit (push_bit 17 1 :: u32) n \<longleftrightarrow> n = 17" for n
    unfolding bit_push_bit_iff bit_1_iff by auto
  ultimately have "n \<in> deliverable (proc demo_signal 0) \<longleftrightarrow> n = 17" for n
    using bit_deliverable [of "proc demo_signal 0" n] by metis
  then show "deliverable (proc demo_signal 0) = {17}" by blast
qed

theorem signal_pop_pending_correct_witness:
  "current_core demo_signal ! 0 = Some 0 \<and> fst (signal_pop_pending None (\<lambda>_ s. s) 0 demo_signal) = Some 17"
  using signal_pop_pending_correct [of demo_signal 0 0 None "\<lambda>_ s. s"] demo_signal_facts by (auto simp: split_beta)

theorem sys_kill_correct_witness:
  "length (proc_table sched_boot) = PROC_MAX \<and> fst (sys_kill 5 9 sched_boot) = - ESRCH \<and> fst (sys_kill 5 40 sched_boot) = - EINVAL"
proof -
  have "\<not> (proc_state_is_live (p_state (proc sched_boot i)) \<and> pid (proc sched_boot i) = 5)" if "i < PROC_MAX" for i
    by (simp add: boot_proc [OF that] pcb_zero_def)
  then show ?thesis
    using sys_kill_correct [OF boot_cores(2), where tpid = 5 and sig = 9] sys_kill_correct [OF boot_cores(2), where tpid = 5 and sig = 40] boot_cores(2)
    by (simp add: split_beta)
qed

end
