(* ===== verification/Tty.thy ===== *)
theory Tty
  imports Tmpfs_File Signal Pipe
begin

text \<open>
  Terminals, \<^verbatim>\<open>src/kernel/vfs/tty.c\<close>: two terminals with a line discipline each. The callbacks of a
  backend are fields: \<open>t_inq\<close> are the bytes its input callback will deliver, \<open>t_outs\<close> the characters its output
  callback accepted and \<open>t_room\<close> how many more it accepts before it is full. Echo waits for the backend, so an
  echoed character is always accepted; flushing hands accepted characters to the device and changes nothing here.
  A caller that sleeps is handled as for pipes: a list with one entry per wake-up says what the rest of the system
  did to the terminal and to the process table; None is a caller that still sleeps. \<open>sw\<close> is the same for the context
  switch that follows the delivery of a signal. A canonical read is related to line editing on plain lists, with
  the input arriving in any pieces, and a write to the expansion of its bytes.
\<close>

subsection \<open>State\<close>

record termios =
  c_iflag :: u32
  c_oflag :: u32
  c_cflag :: u32
  c_lflag :: u32
  c_line :: u8
  c_cc :: "u8 list"

record tty_dev =
  t_has_out :: bool
  t_has_in :: bool
  t_inq :: "u8 list"
  t_outs :: "u8 list"
  t_room :: nat
  t_winsize :: "(int option \<times> int option) \<times> bool"
  line_buf :: "u8 list"
  line_pos :: u16
  line_ready :: bool
  t_termios :: termios
  fg_pgrp :: int
  t_session :: int
  t_addr :: nat
  tx_page :: nat

type_synonym tks = "tty_dev \<times> kstate"

abbreviation LINE_BUF_SIZE :: u16 where "LINE_BUF_SIZE \<equiv> 128"
abbreviation ICRNL :: u32 where "ICRNL \<equiv> 0x100"
abbreviation IXON :: u32 where "IXON \<equiv> 0x400"
abbreviation OPOST :: u32 where "OPOST \<equiv> 1"
abbreviation ONLCR :: u32 where "ONLCR \<equiv> 4"
abbreviation ISIG :: u32 where "ISIG \<equiv> 1"
abbreviation ICANON :: u32 where "ICANON \<equiv> 2"
abbreviation ECHO :: u32 where "ECHO \<equiv> 8"
abbreviation CTRL_C :: u8 where "CTRL_C \<equiv> 0x03"
abbreviation CTRL_D :: u8 where "CTRL_D \<equiv> 0x04"
abbreviation CTRL_U :: u8 where "CTRL_U \<equiv> 0x15"
abbreviation ASCII_BS :: u8 where "ASCII_BS \<equiv> 0x08"
abbreviation ASCII_DEL :: u8 where "ASCII_DEL \<equiv> 0x7F"
abbreviation ch_nl :: u8 where "ch_nl \<equiv> 0x0A"
abbreviation ch_cr :: u8 where "ch_cr \<equiv> 0x0D"
abbreviation ch_bell :: u8 where "ch_bell \<equiv> 0x07"
abbreviation ch_space :: u8 where "ch_space \<equiv> 0x20"
abbreviation SIGINT :: int where "SIGINT \<equiv> 2"
abbreviation TTY_MAX :: nat where "TTY_MAX \<equiv> 2"
abbreviation POLLIN :: u32 where "POLLIN \<equiv> 1"
abbreviation POLLOUT :: u32 where "POLLOUT \<equiv> 4"

abbreviation iflag :: "tty_dev \<Rightarrow> u32 \<Rightarrow> bool" where "iflag t b \<equiv> nz (c_iflag (t_termios t) AND b)"
abbreviation oflag :: "tty_dev \<Rightarrow> u32 \<Rightarrow> bool" where "oflag t b \<equiv> nz (c_oflag (t_termios t) AND b)"
abbreviation lflag :: "tty_dev \<Rightarrow> u32 \<Rightarrow> bool" where "lflag t b \<equiv> nz (c_lflag (t_termios t) AND b)"

definition sig_now :: "nat \<Rightarrow> kstate \<Rightarrow> bool" where
  "sig_now c s \<longleftrightarrow> nz (sig_pending (proc s (cur s c)) AND NOT (sig_blocked (proc s (cur s c))))"

subsection \<open>Positions in user memory\<close>

definition tty_advance :: "'p::len word \<Rightarrow> u16 \<Rightarrow> u32 \<Rightarrow> 'p word \<times> u16" where
  "tty_advance page off delta =
     (let pos = ucast off + delta in (page + ucast (pos div PAGE_SIZE), ucast (pos mod PAGE_SIZE)))"

lemma tty_advance_page_end: "tty_advance page 4096 0 = (page + 1, 0)"
  by (simp add: tty_advance_def)

lemma copy_chunk_progress:
  fixes off :: u16
  assumes "src \<noteq> []" "n = (if length src < unat (PAGE_SIZE - ucast off :: u32) then length src
      else unat (PAGE_SIZE - ucast off :: u32))" "n = 0"
  shows "off = 4096"
proof -
  have "(PAGE_SIZE - ucast off :: u32) = 0" using assms by (simp add: unat_eq_0 split: if_splits)
  then have "unat (ucast off :: u32) = unat (4096 :: u32)" by simp
  then have "unat off = unat (4096 :: u16)" by simp
  then show ?thesis by (simp add: word_unat_eq_iff)
qed

function tty_copy_to_pages :: "'p::len word \<Rightarrow> u16 \<Rightarrow> u8 list \<Rightarrow> memory \<Rightarrow> memory" where
  "tty_copy_to_pages page off src mem =
     (if src = [] then mem
      else
        let chunk = PAGE_SIZE - ucast off :: u32;
            n = (if length src < unat chunk then length src else unat chunk);
            mem = page_write mem page off (take n src) (of_nat n);
            (page, off) = tty_advance page off (of_nat n)
        in tty_copy_to_pages page off (drop n src) mem)"
  by auto
termination
proof (relation "measures [\<lambda>(page, off, src, mem). length src, \<lambda>(page, off :: u16, src, mem). if off = 4096 then 1 else 0]",
       simp, goal_cases)
  case (1 page off src mem chunk n mem' r page' off')
  show ?case
  proof (cases "n = 0")
    case True
    have "off = 4096" by (rule copy_chunk_progress [OF 1(1) _ True]) (use 1(2,3) in simp)
    then show ?thesis using 1 True by (simp add: tty_advance_page_end)
  next
    case False
    then show ?thesis using 1(1) by auto
  qed
qed

declare tty_copy_to_pages.simps [simp del]

lemma page_below_invalid:
  fixes page :: "'p::len word"
  assumes "unat page * 4096 < (2 ^ LENGTH('p) - 1) * 4096"
  shows "page \<noteq> PAGE_ID_INVALID"
  using assms by (auto simp: PAGE_ID_INVALID_def unsigned_minus_1_eq_mask mask_eq_exp_minus_1)

lemma page_base_unat:
  fixes page :: "'p::len word"
  assumes "page \<noteq> PAGE_ID_INVALID"
  shows "page_linear page = of_nat (unat page * 4096)"
  using assms by (simp add: page_linear_def page_id_linear_def)

lemma tty_copy_last:
  assumes "src \<noteq> []" "unat off + length src < 4096"
  shows "tty_copy_to_pages page off src mem = page_write mem page off src (of_nat (length src))"
proof -
  have "unat (PAGE_SIZE - ucast off :: u32) = 4096 - unat off" using assms(2) by (simp add: unat_sub_if')
  moreover have "length src < 4096 - unat off" using assms(2) by linarith
  ultimately show ?thesis using assms(1) by (subst tty_copy_to_pages.simps)
    (simp add: Let_def tty_copy_to_pages.simps [of _ _ "[]"] split: prod.split)
qed

lemma tty_copy_next_page:
  assumes "unat off < 4096" "4096 \<le> unat off + length src"
  defines "n \<equiv> 4096 - unat off"
  shows "tty_copy_to_pages page off src mem
    = tty_copy_to_pages (page + 1) 0 (drop n src) (page_write mem page off (take n src) (of_nat n))"
proof -
  have n: "unat (PAGE_SIZE - ucast off :: u32) = n" using assms by (simp add: unat_sub_if')
  have "ucast off + (of_nat n :: u32) = 4096" using assms(1) by (simp add: n_def word_unat_eq_iff unat_word_ariths unat_of_nat)
  then have adv: "tty_advance page off (of_nat n) = (page + 1, 0)" by (simp add: tty_advance_def)
  have "src \<noteq> []" "\<not> length src < n" using assms by auto
  then show ?thesis by (subst tty_copy_to_pages.simps) (simp add: Let_def n adv)
qed

text \<open>The copy stores the bytes at consecutive addresses, as long as they stay below the invalid page and the end of
  the address space.\<close>

lemma page_write_at:
  assumes "page \<noteq> PAGE_ID_INVALID" "length src < 65536"
  shows "page_write mem page off src (of_nat (length src)) a =
    (let k = unat (a - (page_linear page + ucast off)) in if k < length src then src ! k else mem a)"
  using assms by (simp add: page_write_def Let_def unat_of_nat word_unat_eq_iff)

lemma window_shift:
  fixes k :: u32
  assumes "n + m \<le> 2 ^ 32"
  shows "unat (k - of_nat n) < m \<longleftrightarrow> n \<le> unat k \<and> unat k < n + m"
    and "n < 2 ^ 32 \<Longrightarrow> n \<le> unat k \<Longrightarrow> unat (k - of_nat n) = unat k - n"
proof -
  show sub: "unat (k - of_nat n) = unat k - n" if "n < 2 ^ 32" "n \<le> unat k"
    using that by (simp add: unat_sub_if' unat_of_nat)
  show "unat (k - of_nat n) < m \<longleftrightarrow> n \<le> unat k \<and> unat k < n + m"
  proof (cases "m = 0 \<or> n \<le> unat k")
    case True
    then show ?thesis using sub assms by (cases "m = 0") auto
  next
    case False
    then have "unat (k - of_nat n) = unat k + 2 ^ 32 - n"
      using assms by (simp add: unat_sub_if' unat_of_nat)
    then show ?thesis using False assms by auto
  qed
qed

lemma tty_copy_linear:
  fixes page :: "'p::len word"
  assumes "unat off < 4096" "unat page * 4096 + unat off + length src \<le> (2 ^ LENGTH('p) - 1) * 4096"
    "unat page * 4096 + unat off + length src \<le> 2 ^ 32"
  shows "tty_copy_to_pages page off src mem a =
    (let k = unat (a - (page_linear page + ucast off)) in if k < length src then src ! k else mem a)"
  using assms
proof (induction "length src" arbitrary: page off src mem rule: less_induct)
  case less
  show ?case
  proof (cases "src = []")
    case True
    then show ?thesis by (simp add: tty_copy_to_pages.simps)
  next
    case ne: False
    have "unat page * 4096 < (2 ^ LENGTH('p) - 1) * 4096" using less.prems(2) ne by (cases src) auto
    then have pg: "page \<noteq> PAGE_ID_INVALID" and pl: "unat page < 2 ^ LENGTH('p) - 1" by (rule page_below_invalid, simp)
    show ?thesis
    proof (cases "unat off + length src < 4096")
      case True
      then show ?thesis using ne pg by (simp add: tty_copy_last page_write_at)
    next
      case False
      define n where "n = 4096 - unat off"
      have n: "0 < n" "n \<le> length src" "n \<le> 4096" "unat off + n = 4096" using False less.prems(1) by (auto simp: n_def)
      have "unat page + 1 < 2 ^ LENGTH('p)" using pl by linarith
      then have up: "unat (page + 1) = unat page + 1" by (simp add: unat_word_ariths)
      have base: "a - (page_linear (page + 1) + ucast (0 :: u16)) = a - (page_linear page + ucast off) - of_nat n" if "page + 1 \<noteq> PAGE_ID_INVALID"
      proof -
        have "(ucast off :: u32) = of_nat (unat off)" by (simp add: word_unat_eq_iff unat_of_nat)
        then have "page_linear page + ucast off + of_nat n = of_nat (unat page * 4096 + (unat off + n))"
          using pg by (simp add: page_base_unat)
        also have "\<dots> = page_linear (page + 1)" unfolding n(4) page_base_unat [OF that] up by (simp add: algebra_simps)
        finally show ?thesis by (simp add: algebra_simps)
      qed
      let ?m = "page_write mem page off (take n src) (of_nat (length (take n src)))"
      let ?k = "unat (a - (page_linear page + ucast off))"
      have m: "?m a = (if ?k < n then src ! ?k else mem a)"
        using n(2,3) pg by (subst page_write_at) (simp_all add: Let_def)
      have eq: "tty_copy_to_pages page off src mem = tty_copy_to_pages (page + 1) 0 (drop n src) ?m"
        using tty_copy_next_page [OF less.prems(1), of src page mem] False n(2) by (simp add: n_def)
      show ?thesis
      proof (cases "drop n src = []")
        case True
        then have "n = length src" using n(2) by simp
        then show ?thesis using m eq True by (simp add: tty_copy_to_pages.simps [of _ _ "[]"] Let_def)
      next
        case more: False
        have IH: "tty_copy_to_pages (page + 1) 0 (drop n src) ?m a = (let k = unat (a - (page_linear (page + 1) + ucast (0 :: u16)))
            in if k < length (drop n src) then drop n src ! k else ?m a)"
          by (rule less.hyps) (use n up less.prems in auto)
        have "unat (page + 1) * 4096 < (2 ^ LENGTH('p) - 1) * 4096" unfolding up using less.prems(2) n(4) more by simp
        note b = base [OF page_below_invalid [OF this]]
        have w: "unat (a - (page_linear page + ucast off) - of_nat n) < length src - n \<longleftrightarrow> n \<le> ?k \<and> ?k < length src"
          using window_shift(1) [of n "length src - n"] less.prems(3) n(2) by simp
        have w2: "n \<le> ?k \<Longrightarrow> unat (a - (page_linear page + ucast off) - of_nat n) = ?k - n"
          using window_shift(2) [of n 0] n(3) by simp
        show ?thesis unfolding eq IH b Let_def length_drop w m using w2 n(2) by auto
      qed
    qed
  qed
qed

subsection \<open>Echo and signals\<close>

definition dev_echo :: "tty_dev \<Rightarrow> u8 \<Rightarrow> tty_dev" where
  "dev_echo t ch = t\<lparr>t_outs := t_outs t @ [ch], t_room := t_room t - 1\<rparr>"

definition echo_seq :: "u8 list \<Rightarrow> tty_dev \<Rightarrow> tty_dev" where
  "echo_seq chs t = foldl dev_echo t chs"

text \<open>The processes \<^verbatim>\<open>dev_send_signal\<close> does not skip.\<close>

definition sig_target :: "tty_dev \<Rightarrow> pcb \<Rightarrow> bool" where
  "sig_target t p \<longleftrightarrow> proc_state_is_live (p_state p) \<and> (if fg_pgrp t \<noteq> 0 then pgid p = fg_pgrp t else \<not> pid p \<le> 1)"

definition dev_send_signal :: "(tks \<Rightarrow> tks) \<Rightarrow> int \<Rightarrow> tks \<Rightarrow> tks" where
  "dev_send_signal sw sig ts =
     (let (t, s) = ts;
          woke = list_ex (\<lambda>p. sig_target t p \<and> (p_state p = PROC_BLOCKED \<or> p_state p = PROC_SLEEPING)) (proc_table s);
          s = s\<lparr>proc_table := map (\<lambda>p. if sig_target t p then post_signal sig p else p) (proc_table s)\<rparr>
      in if woke then sw (t, s) else (t, s))"

subsection \<open>Reading\<close>

datatype canon_next = Canon_more | Canon_done | Canon_ret int

text \<open>The inner loop of Ctrl-U.\<close>

function kill_loop :: "tty_dev \<Rightarrow> tty_dev" where
  "kill_loop t =
     (if 0 < line_pos t then
        let t = t\<lparr>line_pos := line_pos t - 1\<rparr>
        in kill_loop (if lflag t ECHO then echo_seq [ASCII_BS, ch_space, ASCII_BS] t else t)
      else t)"
  by auto
termination
  by (relation "measure (\<lambda>t. unat (line_pos t))")
    (auto simp: echo_seq_def dev_echo_def unat_minus_one word_gt_0 unat_gt_0)

definition canon_put :: "u8 \<Rightarrow> tty_dev \<Rightarrow> tty_dev" where
  "canon_put ch t = t\<lparr>line_buf := (line_buf t)[unat (line_pos t) := ch], line_pos := line_pos t + 1\<rparr>"

text \<open>One character of canonical input, after \<^verbatim>\<open>c = t->in()\<close> delivered it.\<close>

definition canon_char :: "(tks \<Rightarrow> tks) \<Rightarrow> u8 \<Rightarrow> tks \<Rightarrow> canon_next \<times> tks" where
  "canon_char sw ch ts =
     (let (t, s) = ts; ch = (if iflag t ICRNL \<and> ch = ch_cr then ch_nl else ch) in
      if lflag t ISIG \<and> ch = CTRL_C then
        let (t, s) = dev_send_signal sw SIGINT (t, s);
            t = (if lflag t ECHO then echo_seq [0x5E, 0x43, ch_cr, ch_nl] t else t)
        in (Canon_ret (- EINTR), t\<lparr>line_pos := 0\<rparr>, s)
      else if ch = ASCII_DEL \<or> ch = ASCII_BS then
        if 0 < line_pos t then
          let t = t\<lparr>line_pos := line_pos t - 1\<rparr>
          in (Canon_more, if lflag t ECHO then echo_seq [ASCII_BS, ch_space, ASCII_BS] t else t, s)
        else (Canon_more, t, s)
      else if ch = CTRL_U then (Canon_more, kill_loop t, s)
      else if ch = CTRL_D then
        if line_pos t = 0 then (Canon_ret 0, t, s) else (Canon_done, t\<lparr>line_ready := True\<rparr>, s)
      else if ch = ch_nl then
        let t = (if line_pos t < LINE_BUF_SIZE then canon_put ch t else t);
            t = (if lflag t ECHO then echo_seq [ch_cr, ch_nl] t else t)
        in (Canon_done, t\<lparr>line_ready := True\<rparr>, s)
      else if line_pos t < LINE_BUF_SIZE then
        let t = canon_put ch t in (Canon_more, if lflag t ECHO then dev_echo t ch else t, s)
      else (Canon_more, dev_echo t ch_bell, s))"

lemma echo_same [simp]:
  "t_inq (dev_echo t ch) = t_inq t" "line_buf (dev_echo t ch) = line_buf t" "line_pos (dev_echo t ch) = line_pos t"
  "line_ready (dev_echo t ch) = line_ready t" "t_termios (dev_echo t ch) = t_termios t"
  "t_inq (echo_seq chs t) = t_inq t" "line_buf (echo_seq chs t) = line_buf t" "line_pos (echo_seq chs t) = line_pos t"
  "line_ready (echo_seq chs t) = line_ready t" "t_termios (echo_seq chs t) = t_termios t"
proof -
  show "t_inq (dev_echo t ch) = t_inq t" "line_buf (dev_echo t ch) = line_buf t" "line_pos (dev_echo t ch) = line_pos t"
    "line_ready (dev_echo t ch) = line_ready t" "t_termios (dev_echo t ch) = t_termios t" for t ch
    by (simp_all add: dev_echo_def)
  then show "t_inq (echo_seq chs t) = t_inq t" "line_buf (echo_seq chs t) = line_buf t" "line_pos (echo_seq chs t) = line_pos t"
    "line_ready (echo_seq chs t) = line_ready t" "t_termios (echo_seq chs t) = t_termios t"
    by (induction chs arbitrary: t) (simp_all add: echo_seq_def)
qed

declare kill_loop.simps [simp del]

lemma kill_loop_same [simp]:
  "t_inq (kill_loop t) = t_inq t" "line_buf (kill_loop t) = line_buf t" "line_pos (kill_loop t) = 0"
  "line_ready (kill_loop t) = line_ready t" "t_termios (kill_loop t) = t_termios t"
  by (induction t rule: kill_loop.induct; subst kill_loop.simps; simp add: Let_def word_gt_0)+

lemma canon_char_more: "canon_char sw ch (t, s) = (Canon_more, t', s') \<Longrightarrow> t_inq t' = t_inq t"
  by (auto simp: canon_char_def Let_def canon_put_def split: if_splits prod.splits)

function canon_loop :: "(tks \<Rightarrow> tks) \<Rightarrow> nat \<Rightarrow> (tks \<Rightarrow> tks) list \<Rightarrow> bool \<Rightarrow> tks \<Rightarrow> (canon_next \<times> tks) option" where
  "canon_loop sw c sleeps nonblock ts =
     (let (t, s) = ts in
      if line_ready t then Some (Canon_done, t, s)
      else case t_inq t of
        [] \<Rightarrow>
          if nonblock then Some (Canon_ret (- EAGAIN), t, s)
          else if sig_now c s then Some (Canon_ret (- EINTR), t, s)
          else (case sleeps of [] \<Rightarrow> None
                | g # rest \<Rightarrow> canon_loop sw c rest nonblock (g (t, sched_block_current c (Some (t_addr t)) s)))
      | ch # chs \<Rightarrow>
          (case canon_char sw ch (t\<lparr>t_inq := chs\<rparr>, s) of
             (Canon_more, ts) \<Rightarrow> canon_loop sw c sleeps nonblock ts
           | (r, ts) \<Rightarrow> Some (r, ts)))"
  by auto
termination
  by (relation "measures [\<lambda>(sw, c, sleeps, nonblock, ts). length sleeps, \<lambda>(sw, c, sleeps, nonblock, ts). length (t_inq (fst ts))]")
    (auto dest!: canon_char_more [OF sym])

declare canon_loop.simps [simp del]

text \<open>The delivery of a complete line: copy out, then move the rest to the front.\<close>

definition canon_deliver :: "'p::len word \<Rightarrow> u16 \<Rightarrow> nat \<Rightarrow> tty_dev \<Rightarrow> memory \<Rightarrow> int \<times> tty_dev \<times> memory" where
  "canon_deliver page off n t mem =
     (let avail = unat (line_pos t);
          avail = (if n < avail then n else avail);
          mem = tty_copy_to_pages page off (take avail (line_buf t)) mem;
          t = (if avail < unat (line_pos t)
               then t\<lparr>line_buf := fold (\<lambda>i b. b[i := b ! (avail + i)]) [0..<unat (line_pos t) - avail] (line_buf t),
                      line_pos := line_pos t - of_nat avail\<rparr>
               else t\<lparr>line_pos := 0, line_ready := False\<rparr>)
      in (int avail, t, mem))"

definition tty_read_canon ::
  "(tks \<Rightarrow> tks) \<Rightarrow> nat \<Rightarrow> (tks \<Rightarrow> tks) list \<Rightarrow> bool \<Rightarrow> 'p::len word \<Rightarrow> u16 \<Rightarrow> nat \<Rightarrow> tks \<Rightarrow> memory
    \<Rightarrow> (int \<times> tks \<times> memory) option" where
  "tty_read_canon sw c sleeps nonblock page off n ts mem =
     (case canon_loop sw c sleeps nonblock ts of None \<Rightarrow> None
      | Some (Canon_ret r, ts) \<Rightarrow> Some (r, ts, mem)
      | Some (_, t, s) \<Rightarrow> (let (r, t, mem) = canon_deliver page off n t mem in Some (r, (t, s), mem)))"

fun raw_wait :: "nat \<Rightarrow> (tks \<Rightarrow> tks) list \<Rightarrow> bool \<Rightarrow> tks \<Rightarrow> ((int + u8) \<times> tks) option" where
  "raw_wait c sleeps nonblock (t, s) =
     (case t_inq t of
        ch # chs \<Rightarrow> Some (Inr ch, t\<lparr>t_inq := chs\<rparr>, s)
      | [] \<Rightarrow>
          if nonblock then Some (Inl (- EAGAIN), t, s)
          else if sig_now c s then Some (Inl (- EINTR), t, s)
          else (case sleeps of [] \<Rightarrow> None
                | g # rest \<Rightarrow> raw_wait c rest nonblock (g (t, sched_block_current c (Some (t_addr t)) s))))"

definition tty_read_raw ::
  "(tks \<Rightarrow> tks) \<Rightarrow> nat \<Rightarrow> (tks \<Rightarrow> tks) list \<Rightarrow> bool \<Rightarrow> 'p::len word \<Rightarrow> u16 \<Rightarrow> nat \<Rightarrow> tks \<Rightarrow> memory
    \<Rightarrow> (int \<times> tks \<times> memory) option" where
  "tty_read_raw sw c sleeps nonblock page off n ts mem =
     (case raw_wait c sleeps nonblock ts of None \<Rightarrow> None
      | Some (Inl r, ts) \<Rightarrow> Some (r, ts, mem)
      | Some (Inr ch, t, s) \<Rightarrow>
          let ch = (if iflag t ICRNL \<and> ch = ch_cr then ch_nl else ch) in
          if lflag t ISIG \<and> ch = CTRL_C then Some (- EINTR, dev_send_signal sw SIGINT (t, s), mem)
          else
            let t = (if lflag t ECHO
                     then let t = (if ch = ch_nl \<and> oflag t OPOST \<and> oflag t ONLCR then dev_echo t ch_cr else t)
                          in dev_echo t ch
                     else t)
            in Some (1, (t, s), page_write mem page off [ch] 1))"

fun no_input_wait :: "nat \<Rightarrow> (tks \<Rightarrow> tks) list \<Rightarrow> tks \<Rightarrow> (int \<times> tks) option" where
  "no_input_wait c sleeps (t, s) =
     (if sig_now c s then Some (- EINTR, t, s)
      else case sleeps of [] \<Rightarrow> None
         | g # rest \<Rightarrow> no_input_wait c rest (g (t, sched_block_current c (Some (t_addr t)) s)))"

text \<open>The terminal of a file is None for a null \<^verbatim>\<open>priv\<close>.\<close>

definition tty_read ::
  "(tks \<Rightarrow> tks) \<Rightarrow> nat \<Rightarrow> (tks \<Rightarrow> tks) list \<Rightarrow> u32 \<Rightarrow> 'p::len word \<Rightarrow> u16 \<Rightarrow> nat \<Rightarrow> tty_dev option \<Rightarrow> kstate \<Rightarrow> memory
    \<Rightarrow> (int \<times> tty_dev option \<times> kstate \<times> memory) option" where
  "tty_read sw c sleeps flags page off n priv s mem =
     (case priv of None \<Rightarrow> Some (- ENODEV, None, s, mem)
      | Some t \<Rightarrow>
          let nonblock = nz (flags AND O_NONBLOCK) in
          if \<not> t_has_in t then
            if nonblock then Some (- EAGAIN, Some t, s, mem)
            else map_option (\<lambda>(r, t, s). (r, Some t, s, mem)) (no_input_wait c sleeps (t, s))
          else if n = 0 then Some (0, Some t, s, mem)
          else if lflag t ICANON
          then map_option (\<lambda>(r, (t, s), mem). (r, Some t, s, mem)) (tty_read_canon sw c sleeps nonblock page off n (t, s) mem)
          else map_option (\<lambda>(r, (t, s), mem). (r, Some t, s, mem)) (tty_read_raw sw c sleeps nonblock page off n (t, s) mem))"

subsection \<open>Writing\<close>

text \<open>One \<^verbatim>\<open>while (!t->out(c, t->tx_wakeup))\<close> loop: the error to return, if any, and the wake-ups left.\<close>

fun tty_put ::
  "nat \<Rightarrow> bool \<Rightarrow> u8 \<Rightarrow> (tks \<Rightarrow> tks) list \<Rightarrow> tks \<Rightarrow> (int option \<times> (tks \<Rightarrow> tks) list \<times> tks) option" where
  "tty_put c nonblock ch sleeps (t, s) =
     (if 0 < t_room t then Some (None, sleeps, t\<lparr>t_outs := t_outs t @ [ch], t_room := t_room t - 1\<rparr>, s)
      else if nonblock then Some (Some (- EAGAIN), sleeps, t, s)
      else if sig_now c s then Some (Some (- EINTR), sleeps, t, s)
      else (case sleeps of [] \<Rightarrow> None
            | g # rest \<Rightarrow> tty_put c nonblock ch rest (g (t, sched_block_current c (Some (tx_page t)) s))))"

text \<open>The byte a write reads at a position; \<open>junk\<close> is the uninitialised local, kept when the page is invalid.\<close>

definition tty_fetch :: "u8 \<Rightarrow> memory \<Rightarrow> 'p::len word \<Rightarrow> u16 \<Rightarrow> u8" where
  "tty_fetch junk mem page off = hd (page_read mem page off [junk] 1)"

text \<open>The main loop of \<^verbatim>\<open>tty_write\<close> with \<open>k\<close> bytes to go.\<close>

fun tty_write_loop ::
  "nat \<Rightarrow> bool \<Rightarrow> bool \<Rightarrow> u8 \<Rightarrow> memory \<Rightarrow> nat \<Rightarrow> nat \<Rightarrow> 'p::len word \<Rightarrow> u16 \<Rightarrow> (tks \<Rightarrow> tks) list \<Rightarrow> tks
    \<Rightarrow> (int \<times> tks) option" where
  "tty_write_loop c nonblock onlcr junk mem 0 pos page off sleeps ts = Some (int pos, ts)"
| "tty_write_loop c nonblock onlcr junk mem (Suc k) pos page off sleeps ts =
     (let ch = tty_fetch junk mem page off in
      case (if onlcr \<and> ch = ch_nl then tty_put c nonblock ch_cr sleeps ts else Some (None, sleeps, ts)) of
        None \<Rightarrow> None
      | Some (Some e, sleeps, ts) \<Rightarrow> Some (if 0 < pos then int pos else e, ts)
      | Some (None, sleeps, ts) \<Rightarrow>
          (case tty_put c nonblock ch sleeps ts of
             None \<Rightarrow> None
           | Some (Some e, sleeps, ts) \<Rightarrow> Some (if 0 < pos then int pos else e, ts)
           | Some (None, sleeps, ts) \<Rightarrow>
               let (page, off) = tty_advance page off 1
               in tty_write_loop c nonblock onlcr junk mem k (pos + 1) page off sleeps ts))"

definition tty_write ::
  "nat \<Rightarrow> (tks \<Rightarrow> tks) list \<Rightarrow> u8 \<Rightarrow> u32 \<Rightarrow> 'p::len word \<Rightarrow> u16 \<Rightarrow> nat \<Rightarrow> memory \<Rightarrow> tty_dev option \<Rightarrow> kstate
    \<Rightarrow> (int \<times> tty_dev option \<times> kstate) option" where
  "tty_write c sleeps junk flags page off n mem priv s =
     (case priv of None \<Rightarrow> Some (- ENODEV, None, s)
      | Some t \<Rightarrow>
          if \<not> t_has_out t then Some (int n, Some t, s)
          else map_option (\<lambda>(r, t, s). (r, Some t, s))
            (tty_write_loop c (nz (flags AND O_NONBLOCK)) (oflag t OPOST \<and> oflag t ONLCR) junk mem n 0 page off sleeps (t, s)))"

subsection \<open>Control and notification\<close>

datatype ioctl_arg = Arg_none | Arg_termios termios | Arg_winsize "u16 \<times> u16 \<times> u16 \<times> u16" | Arg_pid int

text \<open>The object the last argument points to is passed in and returned. The window callbacks of a terminal are
  the two optional sizes and whether it can be resized; resizing sets the sizes the callbacks then report.\<close>

definition tty_ioctl :: "nat \<Rightarrow> u32 \<Rightarrow> ioctl_arg \<Rightarrow> tty_dev option \<Rightarrow> kstate \<Rightarrow> int \<times> ioctl_arg \<times> tty_dev option" where
  "tty_ioctl c cmd arg priv s =
     (case priv of None \<Rightarrow> (- ENOTTY, arg, None)
      | Some t \<Rightarrow>
          if cmd = 0x5401 then (0, Arg_termios (t_termios t), Some t)
          else if cmd = 0x5402 \<or> cmd = 0x5403 \<or> cmd = 0x5404 then
            (case arg of Arg_termios tm \<Rightarrow> (0, arg, Some (t\<lparr>t_termios := tm\<rparr>)) | _ \<Rightarrow> (0, arg, Some t))
          else if cmd = 0x5413 then
            (let ((cols, rows), resizable) = t_winsize t
             in (0, Arg_winsize (of_int (case rows of None \<Rightarrow> 25 | Some r \<Rightarrow> r), of_int (case cols of None \<Rightarrow> 80 | Some w \<Rightarrow> w), 0, 0), Some t))
          else if cmd = 0x5414 then
            (case arg of
               Arg_winsize (row, col, _, _) \<Rightarrow>
                 (0, arg, Some (if snd (t_winsize t) then t\<lparr>t_winsize := ((Some (uint col), Some (uint row)), True)\<rparr> else t))
             | _ \<Rightarrow> (0, arg, Some t))
          else if cmd = 0x540F then (0, Arg_pid (fg_pgrp t), Some t)
          else if cmd = 0x5410 then (case arg of Arg_pid p \<Rightarrow> (0, arg, Some (t\<lparr>fg_pgrp := p\<rparr>)) | _ \<Rightarrow> (0, arg, Some t))
          else if cmd = 0x540E then
            (case current_core s ! c of None \<Rightarrow> (- EPERM, arg, Some t)
             | Some i \<Rightarrow>
                 if pid (proc s i) \<noteq> sid (proc s i) then (- EPERM, arg, Some t)
                 else (0, arg, Some (t\<lparr>t_session := sid (proc s i), fg_pgrp := pgid (proc s i)\<rparr>)))
          else if cmd = 0x5429 then (0, Arg_pid (t_session t), Some t)
          else (- ENOTTY, arg, Some t))"

definition tty_poll :: "tty_dev option \<Rightarrow> u32" where
  "tty_poll priv = (case priv of None \<Rightarrow> POLLOUT
     | Some t \<Rightarrow> if line_ready t \<or> t_has_in t \<and> t_inq t \<noteq> [] then POLLOUT OR POLLIN else POLLOUT)"

definition tty_close :: "tty_dev option \<Rightarrow> int \<times> tty_dev option" where
  "tty_close priv = (0, priv)"

text \<open>The terminals of the system; an index out of range is ignored.\<close>

definition tty_rx_notify :: "nat \<Rightarrow> tty_dev list \<Rightarrow> kstate \<Rightarrow> kstate" where
  "tty_rx_notify idx devs s = (if TTY_MAX \<le> idx then s else sched_wakeup (Some (t_addr (devs ! idx))) s)"

definition tty_poll_input :: "tty_dev list \<Rightarrow> kstate \<Rightarrow> kstate" where
  "tty_poll_input devs s =
     fold (\<lambda>i s. if t_has_in (devs ! i) \<and> t_inq (devs ! i) \<noteq> [] then tty_rx_notify i devs s else s) [0..<TTY_MAX] s"

definition tx_ready :: "nat \<Rightarrow> tty_dev list \<Rightarrow> kstate \<Rightarrow> kstate" where
  "tx_ready idx devs s = sched_wakeup (Some (tx_page (devs ! idx))) s"

text \<open>\<^verbatim>\<open>tty_signal_intr\<close> is called by the interrupt handlers of the serial lines and keyboards. It is one step here, which
  comes between the turns of a read; on the machine it can also come inside a turn, for instance during an echo, and clear
  the line there.\<close>

definition tty_signal_intr :: "(tks \<Rightarrow> tks) \<Rightarrow> nat \<Rightarrow> tty_dev list \<Rightarrow> kstate \<Rightarrow> int \<times> tty_dev list \<times> kstate" where
  "tty_signal_intr sw idx devs s =
     (if TTY_MAX \<le> idx then (0, devs, s)
      else
        let t = devs ! idx in
        if \<not> lflag t ISIG then (0, devs, s)
        else
          let t = (if lflag t ECHO \<and> t_has_out t then echo_seq [0x5E, 0x43, ch_cr, ch_nl] t else t);
              t = t\<lparr>line_pos := 0, line_ready := False\<rparr>;
              (t, s) = dev_send_signal sw SIGINT (t, s)
          in (1, devs[idx := t], s))"

definition tty_set_fg_pgrp :: "nat \<Rightarrow> int \<Rightarrow> tty_dev list \<Rightarrow> tty_dev list" where
  "tty_set_fg_pgrp idx pg devs = (if TTY_MAX \<le> idx then devs else devs[idx := (devs ! idx)\<lparr>fg_pgrp := pg\<rparr>])"

record tty_backend =
  be_room :: nat
  be_input :: "u8 list"
  be_winsize :: "(int option \<times> int option) \<times> bool"

definition tty_set_backend :: "nat \<Rightarrow> tty_backend \<Rightarrow> tty_dev list \<Rightarrow> tty_dev list" where
  "tty_set_backend idx be devs =
     (if TTY_MAX \<le> idx then devs
      else devs[idx := (devs ! idx)\<lparr>t_has_out := True, t_has_in := True, t_inq := be_input be, t_room := be_room be,
             t_winsize := be_winsize be\<rparr>])"

definition tty_get_dev :: "nat \<Rightarrow> nat" where
  "tty_get_dev idx = (if TTY_MAX \<le> idx then 0 else idx)"

definition tty_backend_ready :: "nat \<Rightarrow> tty_dev list \<Rightarrow> bool" where
  "tty_backend_ready idx devs = (idx < TTY_MAX \<and> t_has_out (devs ! idx))"

definition tty_set_console :: "nat \<Rightarrow> nat \<Rightarrow> nat" where
  "tty_set_console idx console_tty_idx = (if idx < TTY_MAX then idx else console_tty_idx)"

definition tty_get_console_dev :: "nat \<Rightarrow> nat" where
  "tty_get_console_dev console_tty_idx = tty_get_dev console_tty_idx"

definition tty_raw_getc :: "nat \<Rightarrow> tty_dev list \<Rightarrow> int \<times> tty_dev list" where
  "tty_raw_getc idx devs =
     (if TTY_MAX \<le> idx then (- 1, devs)
      else if \<not> t_has_in (devs ! idx) then (- 1, devs)
      else case t_inq (devs ! idx) of [] \<Rightarrow> (- 1, devs)
           | ch # chs \<Rightarrow> (uint ch, devs[idx := (devs ! idx)\<lparr>t_inq := chs\<rparr>]))"

definition tty_raw_putc :: "nat \<Rightarrow> u8 \<Rightarrow> tty_dev list \<Rightarrow> int \<times> tty_dev list" where
  "tty_raw_putc idx ch devs =
     (if TTY_MAX \<le> idx then (0, devs)
      else if \<not> t_has_out (devs ! idx) then (0, devs)
      else if t_room (devs ! idx) = 0 then (0, devs)
      else (1, devs[idx := (devs ! idx)\<lparr>t_outs := t_outs (devs ! idx) @ [ch], t_room := t_room (devs ! idx) - 1\<rparr>]))"

text \<open>A terminal as the static initialiser leaves it.\<close>

definition termios_default :: termios where
  "termios_default = \<lparr>c_iflag = ICRNL OR IXON, c_oflag = OPOST OR ONLCR, c_cflag = 0xBF, c_lflag = 0x8A3B, c_line = 0,
     c_cc = replicate 19 0\<rparr>"

definition tty_init :: "nat \<Rightarrow> nat \<Rightarrow> tty_dev" where
  "tty_init addr tx = \<lparr>t_has_out = False, t_has_in = False, t_inq = [], t_outs = [], t_room = 0,
     t_winsize = ((None, None), False), line_buf = replicate 128 0, line_pos = 0, line_ready = False,
     t_termios = termios_default, fg_pgrp = 0, t_session = 0, t_addr = addr, tx_page = tx\<rparr>"

subsection \<open>Line editing on lists\<close>

text \<open>What a canonical read means: the line typed so far is a plain list of at most 128 bytes.\<close>

datatype edited = Editing "u8 list" | Complete "u8 list" | Eof | Interrupted

definition edit_char :: "bool \<Rightarrow> bool \<Rightarrow> u8 list \<Rightarrow> u8 \<Rightarrow> edited" where
  "edit_char icrnl isig line x =
     (let x = (if icrnl \<and> x = ch_cr then ch_nl else x) in
      if isig \<and> x = CTRL_C then Interrupted
      else if x = ASCII_DEL \<or> x = ASCII_BS then Editing (butlast line)
      else if x = CTRL_U then Editing []
      else if x = CTRL_D then (if line = [] then Eof else Complete line)
      else if x = ch_nl then Complete (take 128 (line @ [x]))
      else Editing (take 128 (line @ [x])))"

fun edit_line :: "bool \<Rightarrow> bool \<Rightarrow> u8 list \<Rightarrow> u8 list \<Rightarrow> edited \<times> u8 list" where
  "edit_line icrnl isig line [] = (Editing line, [])"
| "edit_line icrnl isig line (x # xs) =
     (case edit_char icrnl isig line x of Editing l \<Rightarrow> edit_line icrnl isig l xs | e \<Rightarrow> (e, xs))"

definition tty_line :: "tty_dev \<Rightarrow> u8 list" where
  "tty_line t = take (unat (line_pos t)) (line_buf t)"

definition tty_inv :: "tty_dev \<Rightarrow> bool" where
  "tty_inv t \<longleftrightarrow> length (line_buf t) = 128 \<and> unat (line_pos t) \<le> 128 \<and> (line_ready t \<longrightarrow> 0 < unat (line_pos t))"

text \<open>A wake-up that only brings input, and leaves the process table as given.\<close>

definition feed :: "u8 list \<times> kstate \<Rightarrow> tks \<Rightarrow> tks" where
  "feed ev ts = ((fst ts)\<lparr>t_inq := t_inq (fst ts) @ fst ev\<rparr>, snd ev)"

abbreviation fed :: "(u8 list \<times> kstate) list \<Rightarrow> u8 list" where
  "fed evs \<equiv> concat (map fst evs)"

definition quiet :: "nat \<Rightarrow> ('e \<times> kstate) list \<Rightarrow> bool" where
  "quiet c evs \<longleftrightarrow> list_all (\<lambda>ev. \<not> sig_now c (snd ev)) evs"

abbreviation t_edit :: "tty_dev \<Rightarrow> u8 list \<Rightarrow> u8 list \<Rightarrow> edited \<times> u8 list" where
  "t_edit t \<equiv> edit_line (iflag t ICRNL) (lflag t ISIG)"

lemma pos_bounds:
  "0 < line_pos t \<longleftrightarrow> 0 < unat (line_pos t)" "line_pos t = 0 \<longleftrightarrow> unat (line_pos t) = 0"
  "line_pos t < LINE_BUF_SIZE \<longleftrightarrow> unat (line_pos t) < 128"
  by (simp_all add: word_less_nat_alt unat_eq_0)

lemma pos_pred: "0 < unat (p :: u16) \<Longrightarrow> unat (p - 1) = unat p - 1"
  by (metis One_nat_def unat_minus_one unat_gt_0)

lemma pos_succ: "unat (p :: u16) < 128 \<Longrightarrow> unat (p + 1) = unat p + 1"
  by (simp add: unat_word_ariths)

lemma tty_line_length: "tty_inv t \<Longrightarrow> length (tty_line t) = unat (line_pos t)"
  by (simp add: tty_inv_def tty_line_def)

lemma tty_line_echo [simp]: "tty_line (echo_seq chs t) = tty_line t" "tty_line (dev_echo t ch) = tty_line t"
    "tty_inv (echo_seq chs t) = tty_inv t" "tty_inv (dev_echo t ch) = tty_inv t"
  by (simp_all add: tty_line_def tty_inv_def)

lemma tty_line_pred: "tty_inv t \<Longrightarrow> 0 < unat (line_pos t) \<Longrightarrow> tty_line (t\<lparr>line_pos := line_pos t - 1\<rparr>) = butlast (tty_line t)"
  by (simp add: tty_line_def tty_inv_def pos_pred butlast_take)

lemma canon_put_line:
  assumes "tty_inv t" "unat (line_pos t) < 128" "\<not> line_ready t"
  shows "tty_line (canon_put ch t) = tty_line t @ [ch]" "tty_inv (canon_put ch t)"
    "unat (line_pos (canon_put ch t)) = unat (line_pos t) + 1"
  using assms by (simp_all add: tty_line_def tty_inv_def canon_put_def pos_succ take_Suc_conv_app_nth)

lemma canon_put_same [simp]:
  "t_inq (canon_put ch t) = t_inq t" "line_ready (canon_put ch t) = line_ready t" "t_termios (canon_put ch t) = t_termios t"
  by (simp_all add: canon_put_def)

definition editing_as :: "tty_dev \<Rightarrow> u8 list \<Rightarrow> tty_dev \<Rightarrow> bool" where
  "editing_as t l t' \<longleftrightarrow> tty_inv t' \<and> tty_line t' = l \<and> t_inq t' = t_inq t \<and> t_termios t' = t_termios t"

lemma canon_char_edit:
  assumes inv: "tty_inv t" "\<not> line_ready t"
  shows "case edit_char (iflag t ICRNL) (lflag t ISIG) (tty_line t) ch of
      Editing l \<Rightarrow> \<exists>t'. canon_char sw ch (t, s) = (Canon_more, t', s) \<and> editing_as t l t' \<and> \<not> line_ready t'
    | Complete l \<Rightarrow> \<exists>t'. canon_char sw ch (t, s) = (Canon_done, t', s) \<and> editing_as t l t' \<and> line_ready t'
    | Eof \<Rightarrow> canon_char sw ch (t, s) = (Canon_ret 0, t, s)
    | Interrupted \<Rightarrow> \<exists>ts'. canon_char sw ch (t, s) = (Canon_ret (- EINTR), ts')"
proof -
  define x where "x = (if iflag t ICRNL \<and> ch = ch_cr then ch_nl else ch)"
  have len: "length (tty_line t) = unat (line_pos t)" by (rule tty_line_length) (rule inv)
  have p128: "unat (line_pos t) \<le> 128" using inv by (simp add: tty_inv_def)
  note defs = canon_char_def edit_char_def Let_def x_def [symmetric] prod.case
  consider "lflag t ISIG \<and> x = CTRL_C" | "\<not> (lflag t ISIG \<and> x = CTRL_C)" "x = ASCII_DEL \<or> x = ASCII_BS"
    | "x = CTRL_U" | "x = CTRL_D" | "x = ch_nl"
    | "\<not> (lflag t ISIG \<and> x = CTRL_C)" "x \<noteq> ASCII_DEL \<and> x \<noteq> ASCII_BS" "x \<noteq> CTRL_U" "x \<noteq> CTRL_D" "x \<noteq> ch_nl" by blast
  then show ?thesis
  proof cases
    case 1
    then show ?thesis unfolding defs by (auto split: prod.split)
  next
    case 2
    have "tty_line t = []" if "unat (line_pos t) = 0" using that by (simp add: tty_line_def)
    then show ?thesis unfolding defs using 2 inv tty_line_pred [OF inv(1)] p128
      by (auto simp: pos_bounds editing_as_def tty_inv_def pos_pred)
  next
    case 3
    then show ?thesis unfolding defs using inv by (simp add: editing_as_def tty_line_def tty_inv_def)
  next
    case 4
    have "tty_line t = [] \<longleftrightarrow> line_pos t = 0" using len by (metis length_0_conv pos_bounds(2))
    then show ?thesis unfolding defs using 4 inv by (auto simp: editing_as_def tty_inv_def tty_line_def pos_bounds)
  next
    case 5
    then show ?thesis unfolding defs using inv len p128 canon_put_line [OF inv(1) _ inv(2), of x]
      by (auto simp: pos_bounds editing_as_def tty_inv_def tty_line_def)
  next
    case 6
    then show ?thesis unfolding defs using inv len p128 canon_put_line [OF inv(1) _ inv(2), of x]
      by (auto simp: pos_bounds editing_as_def)
  qed
qed

text \<open>The loop edits like the reference, whatever pieces the input arrives in.\<close>

definition canon_outcome :: "edited \<Rightarrow> u8 list \<Rightarrow> (u8 list \<times> kstate) list \<Rightarrow> (canon_next \<times> tks) option \<Rightarrow> bool" where
  "canon_outcome e rest evs r \<longleftrightarrow>
     (case e of
        Editing l \<Rightarrow> r = None
      | Complete l \<Rightarrow> \<exists>t' s' k. r = Some (Canon_done, t', s') \<and> tty_inv t' \<and> line_ready t' \<and> tty_line t' = l
          \<and> t_inq t' @ fed (drop k evs) = rest
      | Eof \<Rightarrow> \<exists>t' s'. r = Some (Canon_ret 0, t', s')
      | Interrupted \<Rightarrow> \<exists>ts'. r = Some (Canon_ret (- EINTR), ts'))"

lemma canon_outcome_later: "canon_outcome e rest evs r \<Longrightarrow> canon_outcome e rest (ev # evs) r"
proof (cases e)
  case (Complete l)
  assume "canon_outcome e rest evs r"
  then obtain t' s' k where k: "r = Some (Canon_done, t', s')" "tty_inv t'" "line_ready t'" "tty_line t' = l"
      "t_inq t' @ fed (drop k evs) = rest" unfolding canon_outcome_def Complete by auto
  have "fed (drop (Suc k) (ev # evs)) = fed (drop k evs)" by simp
  then show ?thesis unfolding canon_outcome_def Complete edited.case using k by (metis (no_types))
qed (simp_all add: canon_outcome_def)

lemma canon_loop_edit:
  assumes "tty_inv t" "\<not> line_ready t" "\<not> sig_now c s" "quiet c evs"
    and "t_edit t (tty_line t) (t_inq t @ fed evs) = (e, rest)"
  shows "canon_outcome e rest evs (canon_loop sw c (map feed evs) False (t, s))"
  using assms
proof (induction "length evs + length (t_inq t @ fed evs)" arbitrary: t s evs rule: less_induct)
  case less
  note inv = less.prems(1,2) and quiet = less.prems(3,4) and edit = less.prems(5)
  show ?case
  proof (cases "t_inq t")
    case empty: Nil
    show ?thesis
    proof (cases evs)
      case Nil
      then show ?thesis using inv quiet edit empty by (subst canon_loop.simps) (auto simp: canon_outcome_def)
    next
      case (Cons ev evs')
      let ?t = "t\<lparr>t_inq := fst ev\<rparr>"
      have "canon_outcome e rest evs' (canon_loop sw c (map feed evs') False (?t, snd ev))"
        by (rule less.hyps) (use Cons empty inv quiet edit in \<open>auto simp: tty_inv_def tty_line_def quiet_def\<close>)
      moreover have "canon_loop sw c (map feed evs) False (t, s) = canon_loop sw c (map feed evs') False (?t, snd ev)"
        using inv quiet empty Cons by (subst canon_loop.simps) (simp add: feed_def)
      ultimately show ?thesis unfolding Cons by (simp add: canon_outcome_later)
    qed
  next
    case (Cons ch chs)
    let ?t = "t\<lparr>t_inq := chs\<rparr>"
    have inv': "tty_inv ?t" "\<not> line_ready ?t" "tty_line ?t = tty_line t" using inv by (auto simp: tty_inv_def tty_line_def)
    have loop: "canon_loop sw c (map feed evs) False (t, s) = (case canon_char sw ch (?t, s) of
        (Canon_more, ts) \<Rightarrow> canon_loop sw c (map feed evs) False ts | (r, ts) \<Rightarrow> Some (r, ts))"
      using inv Cons by (subst canon_loop.simps) simp
    note char = canon_char_edit [OF inv'(1,2), of sw ch s]
    show ?thesis
    proof (cases "edit_char (iflag t ICRNL) (lflag t ISIG) (tty_line t) ch")
      case (Editing l)
      then obtain t' where t': "canon_char sw ch (?t, s) = (Canon_more, t', s)" "editing_as ?t l t'" "\<not> line_ready t'"
        using char inv' by auto
      have "canon_outcome e rest evs (canon_loop sw c (map feed evs) False (t', s))"
        by (rule less.hyps) (use t' Cons quiet edit Editing in \<open>auto simp: editing_as_def\<close>)
      then show ?thesis unfolding loop t' by simp
    next
      case (Complete l)
      then obtain t' where t': "canon_char sw ch (?t, s) = (Canon_done, t', s)" "editing_as ?t l t'" "line_ready t'"
        using char inv' by auto
      have "e = Complete l" "rest = t_inq t' @ fed (drop 0 evs)" using edit Cons Complete t'(2) by (auto simp: editing_as_def)
      then show ?thesis unfolding loop t' canon_outcome_def using t'(2,3)
        by (simp add: editing_as_def) (metis drop0)
    next
      case Eof
      then show ?thesis unfolding loop canon_outcome_def using edit Cons char inv' by auto
    next
      case Interrupted
      then show ?thesis unfolding loop canon_outcome_def using edit Cons char inv' by auto
    qed
  qed
qed

subsection \<open>Delivery\<close>

lemma shift_down:
  assumes "0 < a" "a + m \<le> length b"
  shows "length (fold (\<lambda>i b. b[i := b ! (a + i)]) [0..<m] b) = length b
    \<and> (\<forall>i < length b. fold (\<lambda>i b. b[i := b ! (a + i)]) [0..<m] b ! i = (if i < m then b ! (a + i) else b ! i))"
  using assms by (induction m) (auto simp: nth_list_update less_Suc_eq)

lemma canon_deliver_spec:
  assumes inv: "tty_inv t" "line_ready t" and n: "0 < n"
  shows "\<exists>t'. canon_deliver page off n t mem
      = (int (min n (length (tty_line t))), t', tty_copy_to_pages page off (take n (tty_line t)) mem)
    \<and> tty_inv t' \<and> tty_line t' = drop n (tty_line t) \<and> (line_ready t' \<longleftrightarrow> n < length (tty_line t))
    \<and> t_inq t' = t_inq t \<and> t_termios t' = t_termios t"
proof -
  have len: "length (tty_line t) = unat (line_pos t)" by (rule tty_line_length) (rule inv)
  have b: "length (line_buf t) = 128" "unat (line_pos t) \<le> 128" using inv by (auto simp: tty_inv_def)
  show ?thesis
  proof (cases "n < unat (line_pos t)")
    case True
    have sub: "unat (line_pos t - of_nat n) = unat (line_pos t) - n" using True b by (simp add: unat_sub_if' unat_of_nat)
    have sh: "take (unat (line_pos t) - n) (fold (\<lambda>i b. b[i := b ! (n + i)]) [0..<unat (line_pos t) - n] (line_buf t))
        = drop n (tty_line t)"
      using shift_down [OF n, of "unat (line_pos t) - n" "line_buf t"] True b
      by (intro nth_equalityI) (auto simp: tty_line_def)
    have l: "length (fold (\<lambda>i b. b[i := b ! (n + i)]) [0..<unat (line_pos t) - n] (line_buf t)) = 128"
      using shift_down [OF n, of "unat (line_pos t) - n" "line_buf t"] True b by simp
    have tk: "take n (tty_line t) = take n (line_buf t)" using True by (simp add: tty_line_def)
    show ?thesis using True inv b sub sh l
      by (simp add: canon_deliver_def Let_def len tk tty_inv_def tty_line_def min_def)
  next
    case False
    then have "take n (tty_line t) = take (unat (line_pos t)) (line_buf t)" "min n (unat (line_pos t)) = unat (line_pos t)"
      using len by (simp_all add: tty_line_def)
    then show ?thesis using False inv b by (simp add: canon_deliver_def Let_def len tty_inv_def tty_line_def)
  qed
qed

subsection \<open>Output\<close>

text \<open>What a write means: the bytes, with a carriage return before each newline. A wake-up here only makes room.\<close>

definition onlcr_expand :: "bool \<Rightarrow> u8 list \<Rightarrow> u8 list" where
  "onlcr_expand onlcr bs = concat (map (\<lambda>b. if onlcr \<and> b = ch_nl then [ch_cr, ch_nl] else [b]) bs)"

fun tty_bytes :: "u8 \<Rightarrow> memory \<Rightarrow> 'p::len word \<Rightarrow> u16 \<Rightarrow> nat \<Rightarrow> u8 list" where
  "tty_bytes junk mem page off 0 = []"
| "tty_bytes junk mem page off (Suc k) =
     tty_fetch junk mem page off # (let (page, off) = tty_advance page off 1 in tty_bytes junk mem page off k)"

definition drain :: "nat \<times> kstate \<Rightarrow> tks \<Rightarrow> tks" where
  "drain ev ts = ((fst ts)\<lparr>t_room := t_room (fst ts) + fst ev\<rparr>, snd ev)"

definition total_room :: "tty_dev \<Rightarrow> (nat \<times> kstate) list \<Rightarrow> nat" where
  "total_room t evs = t_room t + sum_list (map fst evs)"

definition put_outcome :: "nat \<Rightarrow> bool \<Rightarrow> u8 list \<Rightarrow> tty_dev \<Rightarrow> (nat \<times> kstate) list \<Rightarrow> tty_dev \<Rightarrow> kstate \<Rightarrow> (nat \<times> kstate) list \<Rightarrow> bool" where
  "put_outcome c quiet0 chs t evs t' s' evs' \<longleftrightarrow> t_outs t' = t_outs t @ chs
     \<and> total_room t evs = total_room t' evs' + length chs
     \<and> (quiet0 \<and> quiet c evs \<longrightarrow> \<not> sig_now c s' \<and> quiet c evs')"

lemma put_outcome_trans:
  "put_outcome c q as t evs t' s' evs' \<Longrightarrow> put_outcome c (\<not> sig_now c s') bs t' evs' t'' s'' evs'' \<Longrightarrow>
    put_outcome c q (as @ bs) t evs t'' s'' evs''"
  by (auto simp: put_outcome_def)

lemma put_outcome_refl: "put_outcome c (\<not> sig_now c s) [] t evs t s evs"
  by (simp add: put_outcome_def)

lemma tty_put_room:
  assumes "0 < t_room t"
  shows "\<exists>t'. tty_put c nonblock ch (map drain evs) (t, s) = Some (None, map drain evs, t', s)
    \<and> put_outcome c (\<not> sig_now c s) [ch] t evs t' s evs"
  using assms by (subst tty_put.simps) (simp add: put_outcome_def total_room_def)

declare tty_put.simps [simp del]

text \<open>Putting one character: it goes out, or the call gives up with no change, or there is no room to come.\<close>

lemma tty_put_spec:
  "(\<exists>t' s' evs'. tty_put c nonblock ch (map drain evs) (t, s) = Some (None, map drain evs', t', s')
        \<and> put_outcome c (\<not> sig_now c s) [ch] t evs t' s' evs')
   \<or> (\<exists>t' s' evs'. tty_put c nonblock ch (map drain evs) (t, s) = Some (Some (if nonblock then - EAGAIN else - EINTR), map drain evs', t', s')
        \<and> put_outcome c (\<not> sig_now c s) [] t evs t' s' evs' \<and> (nonblock \<or> sig_now c s'))
   \<or> tty_put c nonblock ch (map drain evs) (t, s) = None \<and> total_room t evs = 0 \<and> \<not> nonblock"
proof (induction evs arbitrary: t s)
  case Nil
  show ?case
  proof (cases "0 < t_room t")
    case True
    then show ?thesis using tty_put_room by blast
  next
    case False
    then show ?thesis by (cases nonblock; cases "sig_now c s") (auto simp: tty_put.simps put_outcome_def total_room_def quiet_def)
  qed
next
  case (Cons ev evs)
  consider "0 < t_room t" | "t_room t = 0" "nonblock \<or> sig_now c s" | "t_room t = 0" "\<not> nonblock" "\<not> sig_now c s" by blast
  then show ?case
  proof cases
    case 1
    then show ?thesis using tty_put_room by blast
  next
    case 2
    then have "tty_put c nonblock ch (map drain (ev # evs)) (t, s)
        = Some (Some (if nonblock then - EAGAIN else - EINTR), map drain (ev # evs), t, s)" by (subst tty_put.simps) auto
    then show ?thesis using put_outcome_refl 2 by blast
  next
    case 3
    let ?t = "t\<lparr>t_room := fst ev\<rparr>"
    have step: "tty_put c nonblock ch (map drain (ev # evs)) (t, s) = tty_put c nonblock ch (map drain evs) (?t, snd ev)"
      using 3 by (subst tty_put.simps) (simp add: drain_def)
    have tr: "total_room t (ev # evs) = total_room ?t evs" using 3 by (simp add: total_room_def)
    have po: "put_outcome c (\<not> sig_now c s) chs t (ev # evs) t' s' evs'" if "put_outcome c (\<not> sig_now c (snd ev)) chs ?t evs t' s' evs'" for chs t' s' evs'
      using that 3 unfolding put_outcome_def tr by (auto simp: quiet_def)
    show ?thesis unfolding step tr using Cons.IH [of ?t "snd ev"] po by blast
  qed
qed

lemma onlcr_expand_simps [simp]:
  "onlcr_expand f [] = []" "onlcr_expand f (b # bs) = (if f \<and> b = ch_nl then [ch_cr, ch_nl] else [b]) @ onlcr_expand f bs"
  by (simp_all add: onlcr_expand_def)

definition write_outcome ::
  "nat \<Rightarrow> bool \<Rightarrow> bool \<Rightarrow> u8 list \<Rightarrow> nat \<Rightarrow> tty_dev \<Rightarrow> (int \<times> tks) option \<Rightarrow> bool" where
  "write_outcome c nonblock f bs pos t r \<longleftrightarrow>
     (case r of None \<Rightarrow> \<not> nonblock
      | Some (rc, t', s') \<Rightarrow>
          rc = int (pos + length bs) \<and> t_outs t' = t_outs t @ onlcr_expand f bs
          \<or> (nonblock \<or> sig_now c s') \<and> (\<exists>k < length bs. rc = (if 0 < pos + k then int (pos + k) else if nonblock then - EAGAIN else - EINTR)
               \<and> (t_outs t' = t_outs t @ onlcr_expand f (take k bs)
                  \<or> f \<and> bs ! k = ch_nl \<and> t_outs t' = t_outs t @ onlcr_expand f (take k bs) @ [ch_cr])))"

lemma write_outcome_Cons:
  assumes "write_outcome c nonblock f bs (pos + 1) t' r" "t_outs t' = t_outs t @ onlcr_expand f [b]"
  shows "write_outcome c nonblock f (b # bs) pos t r"
proof (cases r)
  case None
  then show ?thesis using assms by (simp add: write_outcome_def)
next
  case (Some x)
  obtain rc u s' where x: "x = (rc, u, s')" by (cases x)
  from assms(1) consider "rc = int (pos + 1 + length bs)" "t_outs u = t_outs t' @ onlcr_expand f bs"
    | k where "nonblock \<or> sig_now c s'" "k < length bs" "rc = int (pos + 1 + k)"
        "t_outs u = t_outs t' @ onlcr_expand f (take k bs) \<or> f \<and> bs ! k = ch_nl \<and> t_outs u = t_outs t' @ onlcr_expand f (take k bs) @ [ch_cr]"
    unfolding write_outcome_def Some x by auto
  then show ?thesis
  proof cases
    case 1
    then show ?thesis using assms(2) unfolding write_outcome_def Some x by auto
  next
    case 2
    have "Suc k < length (b # bs)" "rc = (if 0 < pos + Suc k then int (pos + Suc k) else if nonblock then - EAGAIN else - EINTR)"
        "t_outs u = t_outs t @ onlcr_expand f (take (Suc k) (b # bs))
         \<or> f \<and> (b # bs) ! Suc k = ch_nl \<and> t_outs u = t_outs t @ onlcr_expand f (take (Suc k) (b # bs)) @ [ch_cr]"
      using 2 assms(2) by auto
    then show ?thesis using 2(1) unfolding write_outcome_def Some x option.case prod.case by blast
  qed
qed

lemma tty_write_loop_outcome:
  "write_outcome c nonblock f (tty_bytes junk mem page off k) pos t
     (tty_write_loop c nonblock f junk mem k pos page off (map drain evs) (t, s))"
proof (induction k arbitrary: pos page off t s evs)
  case 0
  show ?case by (simp add: write_outcome_def)
next
  case (Suc k)
  let ?ch = "tty_fetch junk mem page off"
  obtain page' off' where adv: "tty_advance page off 1 = (page', off')" by fastforce
  let ?err = "if nonblock then - EAGAIN else - EINTR"
  let ?b = "tty_bytes junk mem page' off' k"
  let ?rest = "\<lambda>evs t s. tty_write_loop c nonblock f junk mem k (pos + 1) page' off' (map drain evs) (t, s)"
  have bytes: "tty_bytes junk mem page off (Suc k) = ?ch # ?b" by (simp add: adv)
  have stop: "write_outcome c nonblock f (?ch # ?b) pos t (Some (if 0 < pos then int pos else ?err, t', s'))"
    if "nonblock \<or> sig_now c s'" "t_outs t' = t_outs t \<or> f \<and> ?ch = ch_nl \<and> t_outs t' = t_outs t @ [ch_cr]" for t' s'
    using that by (auto simp: write_outcome_def intro!: exI [of _ 0])
  have second: "write_outcome c nonblock f (?ch # ?b) pos t
      (case tty_put c nonblock ?ch (map drain evs1) (t1, s1) of None \<Rightarrow> None
       | Some (Some e, sleeps, ts) \<Rightarrow> Some (if 0 < pos then int pos else e, ts)
       | Some (None, sleeps, ts) \<Rightarrow> tty_write_loop c nonblock f junk mem k (pos + 1) page' off' sleeps ts)"
    if t1: "t_outs t1 = t_outs t @ (if f \<and> ?ch = ch_nl then [ch_cr] else [])" for t1 s1 evs1
    using tty_put_spec [of c nonblock ?ch evs1 t1 s1]
  proof (elim disjE exE conjE, goal_cases)
    case (1 t' s' evs')
    then have "t_outs t' = t_outs t @ onlcr_expand f [?ch]" using t1 by (simp add: put_outcome_def)
    then have "write_outcome c nonblock f (?ch # ?b) pos t (?rest evs' t' s')"
      by (rule write_outcome_Cons [OF Suc.IH [of page' off' "pos + 1" t' evs' s']])
    then show ?case using 1 by simp
  next
    case (2 t' s' evs')
    then have "t_outs t' = t_outs t \<or> f \<and> ?ch = ch_nl \<and> t_outs t' = t_outs t @ [ch_cr]" using t1 by (auto simp: put_outcome_def)
    then have "write_outcome c nonblock f (?ch # ?b) pos t (Some (if 0 < pos then int pos else ?err, t', s'))"
      by (intro stop) (use 2 in auto)
    then show ?case unfolding 2(1) by simp
  next
    case (3 t' s' evs')
    then have "t_outs t' = t_outs t \<or> f \<and> ?ch = ch_nl \<and> t_outs t' = t_outs t @ [ch_cr]" using t1 by (auto simp: put_outcome_def)
    then have "write_outcome c nonblock f (?ch # ?b) pos t (Some (if 0 < pos then int pos else ?err, t', s'))"
      by (intro stop) (use 3 in auto)
    then show ?case unfolding 3(1) by simp
  next
    case 4
    then show ?case by (simp add: write_outcome_def)
  qed
  have loop: "tty_write_loop c nonblock f junk mem (Suc k) pos page off (map drain evs) (t, s) =
      (case (if f \<and> ?ch = ch_nl then tty_put c nonblock ch_cr (map drain evs) (t, s) else Some (None, map drain evs, t, s)) of
         None \<Rightarrow> None
       | Some (Some e, sleeps, ts) \<Rightarrow> Some (if 0 < pos then int pos else e, ts)
       | Some (None, sleeps, ts) \<Rightarrow>
           (case tty_put c nonblock ?ch sleeps ts of None \<Rightarrow> None
            | Some (Some e, sleeps, ts) \<Rightarrow> Some (if 0 < pos then int pos else e, ts)
            | Some (None, sleeps, ts) \<Rightarrow> tty_write_loop c nonblock f junk mem k (pos + 1) page' off' sleeps ts))"
    unfolding tty_write_loop.simps Let_def adv prod.case by (rule refl)
  show ?case
  proof (cases "f \<and> ?ch = ch_nl")
    case False
    then have no: "(f \<and> ?ch = ch_nl) = False" by blast
    show ?thesis unfolding bytes loop no if_False option.case prod.case by (rule second) (use no in simp)
  next
    case True
    show ?thesis unfolding bytes loop using tty_put_spec [of c nonblock ch_cr evs t s]
    proof (elim disjE exE conjE, goal_cases)
      case (1 t' s' evs')
      then show ?case using True second [of t' evs' s'] by (simp add: put_outcome_def)
    next
      case (2 t' s' evs')
      then have "write_outcome c nonblock f (?ch # ?b) pos t (Some (if 0 < pos then int pos else ?err, t', s'))"
        by (intro stop) (auto simp: put_outcome_def)
      then show ?case using True 2(1) by simp
    next
      case (3 t' s' evs')
      then have "write_outcome c nonblock f (?ch # ?b) pos t (Some (if 0 < pos then int pos else ?err, t', s'))"
        by (intro stop) (auto simp: put_outcome_def)
      then show ?case using True 3(1) by simp
    next
      case 4
      then show ?case using True by (simp add: write_outcome_def)
    qed
  qed
qed

text \<open>With enough room to come and no signal, a blocking write sends everything.\<close>

lemma tty_put_goes:
  assumes "\<not> sig_now c s" "quiet c evs" "0 < total_room t evs"
  shows "\<exists>t' s' evs'. tty_put c False ch (map drain evs) (t, s) = Some (None, map drain evs', t', s')
    \<and> total_room t evs = total_room t' evs' + 1 \<and> \<not> sig_now c s' \<and> quiet c evs'"
  using tty_put_spec [of c False ch evs t s] assms unfolding put_outcome_def by fastforce

lemma tty_write_loop_all:
  assumes "\<not> sig_now c s" "quiet c evs" "length (onlcr_expand f (tty_bytes junk mem page off k)) \<le> total_room t evs"
  shows "\<exists>t' s'. tty_write_loop c False f junk mem k pos page off (map drain evs) (t, s) = Some (int (pos + k), t', s')"
  using assms
proof (induction k arbitrary: pos page off t s evs)
  case (Suc k)
  let ?ch = "tty_fetch junk mem page off"
  obtain page' off' where adv: "tty_advance page off 1 = (page', off')" by fastforce
  define cr where "cr = (if f \<and> ?ch = ch_nl then 1 else 0 :: nat)"
  have room: "cr + 1 + length (onlcr_expand f (tty_bytes junk mem page' off' k)) \<le> total_room t evs"
    using Suc.prems(3) by (cases "f \<and> ?ch = ch_nl") (auto simp: adv cr_def)
  obtain t1 s1 evs1 where 1: "(if f \<and> ?ch = ch_nl then tty_put c False ch_cr (map drain evs) (t, s) else Some (None, map drain evs, t, s))
        = Some (None, map drain evs1, t1, s1)" "total_room t evs = total_room t1 evs1 + cr" "\<not> sig_now c s1" "quiet c evs1"
    using tty_put_goes [OF Suc.prems(1,2), of t ch_cr] room Suc.prems(1,2) by (cases "f \<and> ?ch = ch_nl") (auto simp: cr_def)
  obtain t2 s2 evs2 where 2: "tty_put c False ?ch (map drain evs1) (t1, s1) = Some (None, map drain evs2, t2, s2)"
      "total_room t1 evs1 = total_room t2 evs2 + 1" "\<not> sig_now c s2" "quiet c evs2"
    using tty_put_goes [OF 1(3,4), of t1 ?ch] room 1(2) by auto
  have "\<exists>t' s'. tty_write_loop c False f junk mem k (pos + 1) page' off' (map drain evs2) (t2, s2) = Some (int (pos + 1 + k), t', s')"
    by (rule Suc.IH) (use 1 2 room in auto)
  moreover have "tty_write_loop c False f junk mem (Suc k) pos page off (map drain evs) (t, s)
      = tty_write_loop c False f junk mem k (pos + 1) page' off' (map drain evs2) (t2, s2)"
    unfolding tty_write_loop.simps Let_def 1(1) option.case prod.case 2(1) adv by (rule refl)
  ultimately show ?case by simp
qed simp

subsection \<open>Properties\<close>

text \<open>Facts the properties of this theory rest on: a signal from the keyboard reaches exactly the foreground group, and
  no operation breaks the line buffer.\<close>

lemma tty_inv_init: "tty_inv (tty_init addr tx)"
  by (simp add: tty_inv_def tty_init_def)

lemma sig_target_posted:
  "proc_table (snd (dev_send_signal id SIGINT (t, s))) =
     map (\<lambda>p. if sig_target t p then post_signal SIGINT p else p) (proc_table s)"
  by (simp add: dev_send_signal_def Let_def)

text \<open>A terminal with a backend and the typed characters \<open>inp\<close>; used by the witnesses.\<close>

definition demo_tty :: "u8 list \<Rightarrow> nat \<Rightarrow> tty_dev" where
  "demo_tty inp room = (tty_init 1 2)\<lparr>t_has_out := True, t_has_in := True, t_inq := inp, t_room := room\<rparr>"

text \<open>C29: A blocking canonical read returns the line that editing the typed bytes on a plain list gives: backspace, line
  kill, end-of-file flush, carriage return mapping and the 128-byte limit included, and however the input is
  split between what is queued and what later wake-ups bring. The caller's memory holds the first \<open>n\<close> bytes of the line at
  consecutive addresses and is unchanged elsewhere; the rest of the line stays buffered and ready, the buffer
  invariant holds, and no typed byte after the line is consumed.\<close>

theorem tty_read_canon_correct:
  fixes page :: "'p::len word"
  assumes "tty_inv t" "\<not> line_ready t" "0 < n" "\<not> sig_now c s" "quiet c evs"
    and "edit_line (iflag t ICRNL) (lflag t ISIG) (tty_line t) (t_inq t @ fed evs) = (Complete l, rest)"
    and "unat off < 4096" "unat page * 4096 + unat off + 128 \<le> (2 ^ LENGTH('p) - 1) * 4096"
      "unat page * 4096 + unat off + 128 \<le> 2 ^ 32"
  shows "\<exists>t' s' mem' k. tty_read_canon sw c (map feed evs) False page off n (t, s) mem
        = Some (int (min n (length l)), (t', s'), mem')
    \<and> (\<forall>a. mem' a = (let i = unat (a - (page_linear page + ucast off)) in if i < min n (length l) then l ! i else mem a))
    \<and> tty_inv t' \<and> tty_line t' = drop n l \<and> (line_ready t' \<longleftrightarrow> n < length l)
    \<and> t_inq t' @ fed (drop k evs) = rest"
proof -
  have "canon_outcome (Complete l) rest evs (canon_loop sw c (map feed evs) False (t, s))"
    using assms(1,2,4-6) by (rule canon_loop_edit)
  then obtain t1 s1 k where 1: "canon_loop sw c (map feed evs) False (t, s) = Some (Canon_done, t1, s1)" "tty_inv t1"
      "line_ready t1" "tty_line t1 = l" "t_inq t1 @ fed (drop k evs) = rest" by (auto simp: canon_outcome_def)
  have "length l \<le> 128" using 1(2,4) tty_line_length [OF 1(2)] by (auto simp: tty_inv_def)
  then have mem: "tty_copy_to_pages page off (take n l) mem a =
      (let i = unat (a - (page_linear page + ucast off)) in if i < min n (length l) then l ! i else mem a)" for a
    using assms(7-9) by (subst tty_copy_linear) (auto simp: Let_def min.commute)
  obtain t2 where 2: "canon_deliver page off n t1 mem = (int (min n (length l)), t2, tty_copy_to_pages page off (take n l) mem)"
      "tty_inv t2" "tty_line t2 = drop n l" "line_ready t2 \<longleftrightarrow> n < length l" "t_inq t2 = t_inq t1"
    using canon_deliver_spec [OF 1(2,3) assms(3), of page off mem] 1(4) by auto
  have "tty_read_canon sw c (map feed evs) False page off n (t, s) mem
      = Some (int (min n (length l)), (t2, s1), tty_copy_to_pages page off (take n l) mem)"
    by (simp add: tty_read_canon_def 1(1) 2(1))
  then show ?thesis using mem 2 1(5) by metis
qed

text \<open>C30: A write sends the bytes of the caller with a carriage return before each newline when ONLCR is on: all of them
  when it returns their number, and otherwise, for a non-blocking file or with a signal pending, the first
  \<open>k\<close> of them and it returns \<open>k\<close>, or the error when \<open>k\<close> is 0; at most a carriage return of the newline it stopped at is
  sent besides. When the backend will make room for everything and no signal comes, a blocking write
  returns and has sent everything.\<close>

theorem tty_write_correct:
  fixes page :: "'p::len word"
  assumes "t_has_out t" and bs: "bs = tty_bytes junk mem page off n"
    and f: "f \<longleftrightarrow> oflag t OPOST \<and> oflag t ONLCR" and nb: "nonblock \<longleftrightarrow> nz (flags AND O_NONBLOCK)"
  shows "(\<forall>rc t' s'. tty_write c (map drain evs) junk flags page off n mem (Some t) s = Some (rc, Some t', s') \<longrightarrow>
      rc = int n \<and> t_outs t' = t_outs t @ onlcr_expand f bs
      \<or> (nonblock \<or> sig_now c s') \<and> (\<exists>k < n. rc = (if 0 < k then int k else if nonblock then - EAGAIN else - EINTR)
          \<and> (t_outs t' = t_outs t @ onlcr_expand f (take k bs)
             \<or> f \<and> bs ! k = ch_nl \<and> t_outs t' = t_outs t @ onlcr_expand f (take k bs) @ [ch_cr])))
    \<and> (\<not> nonblock \<and> \<not> sig_now c s \<and> quiet c evs \<and> length (onlcr_expand f bs) \<le> total_room t evs \<longrightarrow>
      (\<exists>t' s'. tty_write c (map drain evs) junk flags page off n mem (Some t) s = Some (int n, Some t', s')
        \<and> t_outs t' = t_outs t @ onlcr_expand f bs))"
proof -
  have len: "length bs = n" unfolding bs by (induction n arbitrary: page off) (auto split: prod.split)
  define r where "r = tty_write_loop c nonblock f junk mem n 0 page off (map drain evs) (t, s)"
  have w: "tty_write c (map drain evs) junk flags page off n mem (Some t) s = map_option (\<lambda>(r, t, s). (r, Some t, s)) r"
    using assms(1) by (simp add: tty_write_def r_def f nb)
  have out: "write_outcome c nonblock f bs 0 t r" unfolding bs r_def by (rule tty_write_loop_outcome)
  have all: "\<exists>t' s'. r = Some (int n, t', s') \<and> t_outs t' = t_outs t @ onlcr_expand f bs"
    if q: "\<not> nonblock" "\<not> sig_now c s" "quiet c evs" "length (onlcr_expand f bs) \<le> total_room t evs"
  proof -
    obtain t' s' where "r = Some (int n, t', s')"
      using tty_write_loop_all [OF q(2,3) q(4) [unfolded bs], of 0] q(1) by (auto simp: r_def)
    then show ?thesis using out len unfolding write_outcome_def by (auto split: if_splits)
  qed
  show ?thesis
  proof (intro conjI allI impI, goal_cases)
    case (1 rc t' s')
    then have "r = Some (rc, t', s')" using w by auto
    then show ?case using out unfolding write_outcome_def by (simp only: option.case prod.case add_0 len)
  next
    case 2
    then show ?case using all w by auto
  qed
qed

text \<open>What the rest of the system may do to a terminal: keep it well formed; during the switch that follows the delivery
  of a signal also complete no line.\<close>

definition keeps_inv :: "(tks \<Rightarrow> tks) \<Rightarrow> bool" where
  "keeps_inv g \<longleftrightarrow> (\<forall>ts. tty_inv (fst ts) \<longrightarrow> tty_inv (fst (g ts)))"

definition keeps_line :: "(tks \<Rightarrow> tks) \<Rightarrow> bool" where
  "keeps_line g \<longleftrightarrow> keeps_inv g \<and> (\<forall>ts. \<not> line_ready (fst ts) \<longrightarrow> \<not> line_ready (fst (g ts)))"

lemma dev_send_signal_inv:
  assumes "keeps_inv sw" "tty_inv t"
  shows "tty_inv (fst (dev_send_signal sw sig (t, s)))"
  using assms by (auto simp: dev_send_signal_def Let_def keeps_inv_def)

lemma dev_send_signal_line:
  assumes "keeps_line sw" "\<not> line_ready t"
  shows "\<not> line_ready (fst (dev_send_signal sw sig (t, s)))"
  using assms by (auto simp: dev_send_signal_def Let_def keeps_line_def)

lemma canon_char_inv:
  assumes sw: "keeps_line sw" and inv: "tty_inv t" "\<not> line_ready t" and r: "canon_char sw ch (t, s) = (r, t', s')"
  shows "tty_inv t' \<and> (r = Canon_more \<longrightarrow> \<not> line_ready t') \<and> (r = Canon_done \<longrightarrow> line_ready t')"
proof (cases "edit_char (iflag t ICRNL) (lflag t ISIG) (tty_line t) ch")
  case Interrupted
  obtain u v where d: "dev_send_signal sw SIGINT (t, s) = (u, v)" by fastforce
  then have u: "tty_inv u" "\<not> line_ready u"
    using dev_send_signal_inv [of sw t SIGINT s] dev_send_signal_line [of sw t SIGINT s] sw inv by (auto simp: keeps_line_def)
  have "lflag t ISIG \<and> (if iflag t ICRNL \<and> ch = ch_cr then ch_nl else ch) = CTRL_C"
    using Interrupted by (auto simp: edit_char_def Let_def split: if_splits)
  then have "t' = (if lflag u ECHO then echo_seq [0x5E, 0x43, ch_cr, ch_nl] u else u)\<lparr>line_pos := 0\<rparr>" "r = Canon_ret (- EINTR)"
    using r by (simp_all add: canon_char_def d)
  then show ?thesis using u by (auto simp: tty_inv_def)
qed (use canon_char_edit [OF inv, of sw ch s] r inv in \<open>auto simp: editing_as_def\<close>)

lemmas canon_loop_eq = canon_loop.simps [of _ _ _ _ "(t, s)" for t s, unfolded Let_def prod.case]

lemma canon_loop_inv:
  assumes "keeps_line sw" "list_all keeps_inv sleeps" "tty_inv (fst ts)" "canon_loop sw c sleeps nonblock ts = Some (r, t', s')"
  shows "tty_inv t' \<and> r \<noteq> Canon_more \<and> (r = Canon_done \<longrightarrow> line_ready t')"
  using assms
proof (induction sw c sleeps nonblock ts rule: canon_loop.induct)
  case (1 sw c sleeps nonblock ts)
  obtain t s where ts: "ts = (t, s)" by (cases ts)
  note loop = trans [OF canon_loop_eq [symmetric] 1(6) [unfolded ts]]
  show ?case
  proof (cases "line_ready t")
    case True
    then show ?thesis using loop 1(5) ts by simp
  next
    case nr: False
    show ?thesis
    proof (cases "t_inq t")
      case Nil
      show ?thesis
      proof (cases "nonblock \<or> sig_now c s \<or> sleeps = []")
        case True
        then show ?thesis using loop nr Nil 1(5) ts by (auto split: if_splits)
      next
        case False
        then obtain g rest where g: "sleeps = g # rest" by (cases sleeps) auto
        let ?ts = "g (t, sched_block_current c (Some (t_addr t)) s)"
        have "tty_inv (fst ?ts)" using 1(4,5) g ts by (auto simp: keeps_inv_def)
        moreover have "canon_loop sw c rest nonblock ?ts = Some (r, t', s')" using loop nr Nil False g by simp
        ultimately show ?thesis using 1(1) [OF refl ts [symmetric] nr Nil _ _ g] False 1(3,4) g by simp
      qed
    next
      case (Cons ch chs)
      obtain r1 t1 s1 where c: "canon_char sw ch (t\<lparr>t_inq := chs\<rparr>, s) = (r1, t1, s1)" using prod_cases3 by blast
      have i: "tty_inv t1 \<and> (r1 = Canon_more \<longrightarrow> \<not> line_ready t1) \<and> (r1 = Canon_done \<longrightarrow> line_ready t1)"
        using canon_char_inv [OF 1(3) _ _ c] 1(5) nr ts by (simp add: tty_inv_def)
      show ?thesis
      proof (cases r1)
        case Canon_more
        then have "canon_loop sw c sleeps nonblock (t1, s1) = Some (r, t', s')" using loop nr Cons c by simp
        then show ?thesis using 1(2) [OF refl ts [symmetric] nr Cons c [symmetric]] Canon_more 1(3,4) i by simp
      qed (use loop nr Cons c i in auto)
    qed
  qed
qed

lemma canon_deliver_inv:
  assumes "tty_inv t" "line_ready t" "0 < n"
  shows "tty_inv (fst (snd (canon_deliver page off n t mem)))"
  using canon_deliver_spec [OF assms, of page off mem] by auto

lemma tty_read_canon_inv:
  assumes "keeps_line sw" "list_all keeps_inv sleeps" "tty_inv t" "0 < n"
    and "tty_read_canon sw c sleeps nonblock page off n (t, s) mem = Some (r, (t', s'), mem')"
  shows "tty_inv t'"
proof -
  obtain k t1 s1 where l: "canon_loop sw c sleeps nonblock (t, s) = Some (k, t1, s1)"
    using assms(5) unfolding tty_read_canon_def by (auto split: option.splits)
  note i = canon_loop_inv [OF assms(1,2) _ l, simplified, OF assms(3)]
  show ?thesis
  proof (cases k)
    case Canon_done
    then show ?thesis using assms(5) l canon_deliver_inv [of t1 n page off mem] i assms(4)
      by (auto simp: tty_read_canon_def split: prod.splits)
  qed (use assms(5) l i in \<open>auto simp: tty_read_canon_def\<close>)
qed

lemma raw_wait_inv:
  assumes "list_all keeps_inv sleeps" "tty_inv t" "raw_wait c sleeps nonblock (t, s) = Some (x, t', s')"
  shows "tty_inv t'"
  using assms
proof (induction sleeps arbitrary: t s)
  case Nil
  then show ?case by (auto simp: tty_inv_def split: list.splits if_splits)
next
  case (Cons g sleeps)
  obtain u v where uv: "g (t, sched_block_current c (Some (t_addr t)) s) = (u, v)" by fastforce
  then have u: "tty_inv u" using Cons.prems(1,2) by (auto simp: keeps_inv_def) (metis fst_conv)
  show ?case using Cons.prems(2,3) Cons.IH [of u v] Cons.prems(1) u uv by (auto simp: tty_inv_def split: list.splits if_splits)
qed

lemma no_input_wait_inv:
  assumes "list_all keeps_inv sleeps" "tty_inv t" "no_input_wait c sleeps (t, s) = Some (x, t', s')"
  shows "tty_inv t'"
  using assms
proof (induction sleeps arbitrary: t s)
  case Nil
  then show ?case by (auto split: if_splits)
next
  case (Cons g sleeps)
  obtain u v where uv: "g (t, sched_block_current c (Some (t_addr t)) s) = (u, v)" by fastforce
  then have u: "tty_inv u" using Cons.prems(1,2) by (auto simp: keeps_inv_def) (metis fst_conv)
  show ?case using Cons.prems(2,3) Cons.IH [of u v] Cons.prems(1) u uv by (auto split: if_splits)
qed

lemma tty_read_raw_inv:
  assumes "keeps_inv sw" "list_all keeps_inv sleeps" "tty_inv t"
    and r: "tty_read_raw sw c sleeps nonblock page off n (t, s) mem = Some (r, (t', s'), mem')"
  shows "tty_inv t'"
proof -
  obtain x t1 s1 where w: "raw_wait c sleeps nonblock (t, s) = Some (x, t1, s1)"
    using r unfolding tty_read_raw_def by (auto split: option.splits)
  have i: "tty_inv t1" by (rule raw_wait_inv [OF assms(2,3) w])
  show ?thesis
  proof (cases x)
    case (Inl e)
    then show ?thesis using r w i by (simp add: tty_read_raw_def)
  next
    case (Inr ch)
    then show ?thesis using r w i dev_send_signal_inv [OF assms(1) i, of SIGINT s1]
      by (auto simp: tty_read_raw_def Let_def split: if_splits)
  qed
qed

text \<open>When a terminal stays well formed: the line buffer has 128 bytes with the position inside it, and a line is marked
  ready only when it holds a byte. It holds after start-up, and every read (in either mode), control call and keyboard
  interrupt keeps it, provided that what happens while a read sleeps keeps it, and that what happens in the switch after a
  keyboard signal does not complete a line. The second condition can fail: see \<open>tty_interrupt_race_reads_eof\<close>. An
  interrupt is taken between the turns of a read here.\<close>

theorem tty_inv_preserved:
  assumes "tty_inv t" "keeps_line sw" "list_all keeps_inv sleeps"
  shows "tty_inv (tty_init addr tx)
    \<and> (\<forall>r t' s' mem'. tty_read sw c sleeps flags page off n (Some t) s mem = Some (r, Some t', s', mem') \<longrightarrow> tty_inv t')
    \<and> (\<forall>r arg' t'. tty_ioctl c cmd arg (Some t) s = (r, arg', Some t') \<longrightarrow> tty_inv t')
    \<and> (\<forall>r devs' s'. idx < length devs \<and> devs ! idx = t \<and> tty_signal_intr sw idx devs s = (r, devs', s') \<longrightarrow> tty_inv (devs' ! idx))"
proof (intro conjI allI impI, goal_cases)
  case 1
  show ?case by (rule tty_inv_init)
next
  case (2 r t' s' mem')
  have sw: "keeps_inv sw" using assms(2) by (simp add: keeps_line_def)
  show ?case using 2 assms(1)
    by (auto simp: tty_read_def Let_def simp del: no_input_wait.simps split: if_splits
        dest: no_input_wait_inv [OF assms(3,1)] tty_read_raw_inv [OF sw assms(3,1)] tty_read_canon_inv [OF assms(2,3,1)])
next
  case (3 r arg' t')
  obtain cols rows rz where "t_winsize t = ((cols, rows), rz)" by (metis surj_pair)
  then show ?case using 3 assms(1) by (auto simp: tty_ioctl_def tty_inv_def Let_def split: if_splits ioctl_arg.splits option.splits)
next
  case (4 r devs' s')
  define u where "u = (if lflag t ECHO \<and> t_has_out t then echo_seq [0x5E, 0x43, ch_cr, ch_nl] t else t)\<lparr>line_pos := 0, line_ready := False\<rparr>"
  have "tty_inv u" using assms(1) by (auto simp: u_def tty_inv_def)
  then have "tty_inv (fst (dev_send_signal sw SIGINT (u, s)))"
    using assms(2) dev_send_signal_inv by (simp add: keeps_line_def)
  then show ?case using 4 assms(1) by (auto simp: tty_signal_intr_def Let_def u_def split: if_splits prod.splits)
qed

lemma demo_tty_facts:
  "tty_inv (demo_tty inp room)" "\<not> line_ready (demo_tty inp room)" "tty_line (demo_tty inp room) = []"
  "t_inq (demo_tty inp room) = inp" "t_has_out (demo_tty inp room)" "t_room (demo_tty inp room) = room"
  "t_outs (demo_tty inp room) = []" "t_termios (demo_tty inp room) = termios_default"
  by (simp_all add: demo_tty_def tty_init_def tty_inv_def tty_line_def)

lemma boot_quiet: "\<not> sig_now 0 sched_boot"
  by (simp add: sig_now_def sched_boot_def proc_init_def cur_def pcb_zero_def)

lemma keeps_id: "keeps_line id" "keeps_inv id"
  by (simp_all add: keeps_line_def keeps_inv_def)

theorem tty_read_canon_correct_witness:
  "\<exists>t' s' mem'. tty_read_canon id 0 (map feed [([0x63, 0x0D], sched_boot)]) False (3 :: u16) 0 2
       (demo_tty [0x61, 0x62, 0x7F] 9, sched_boot) (\<lambda>_. 0) = Some (2, (t', s'), mem')
     \<and> tty_line t' = [0x0A] \<and> line_ready t'"
proof -
  let ?t = "demo_tty [0x61, 0x62, 0x7F] 9"
  have e: "edit_line (iflag ?t ICRNL) (lflag ?t ISIG) (tty_line ?t) (t_inq ?t @ fed [([0x63, 0x0D], sched_boot)])
      = (Complete [0x61, 0x63, 0x0A], [])"
    by (simp add: demo_tty_facts termios_default_def edit_char_def Let_def)
  show ?thesis
    using tty_read_canon_correct [OF demo_tty_facts(1,2) _ boot_quiet _ e, of 2 0 "3 :: u16" id "\<lambda>_. 0"]
    by (auto simp: quiet_def boot_quiet)
qed

theorem tty_write_correct_witness:
  "\<exists>t' s'. tty_write 0 (map drain [(5, sched_boot)]) 0 0 (3 :: u16) 0 2 (\<lambda>_. 0x0A) (Some (demo_tty [] 1)) sched_boot
      = Some (2, Some t', s') \<and> t_outs t' = [0x0D, 0x0A, 0x0D, 0x0A]"
proof -
  have "tty_bytes 0 (\<lambda>_. 0x0A) (3 :: u16) 0 (Suc (Suc 0)) = [0x0A, 0x0A]"
    by (simp add: tty_fetch_def page_read_def PAGE_ID_INVALID_def tty_advance_def)
  then have b: "tty_bytes 0 (\<lambda>_. 0x0A) (3 :: u16) 0 2 = [0x0A, 0x0A]" by (simp only: Suc_1 One_nat_def [symmetric])
  have f: "oflag (demo_tty [] 1) OPOST \<and> oflag (demo_tty [] 1) ONLCR" by (simp add: demo_tty_facts termios_default_def)
  show ?thesis
    using tty_write_correct [OF demo_tty_facts(5) refl refl refl, of 0 "[(5, sched_boot)]" 0 0 "3 :: u16" 0 2 "\<lambda>_. 0x0A" "[]" 1 sched_boot]
    unfolding b using f by (simp add: demo_tty_facts quiet_def boot_quiet total_room_def)
qed

theorem tty_inv_preserved_witness:
  "tty_inv (tty_init 1 2) \<and> tty_inv (fst (snd (tty_signal_intr id 0 [demo_tty [0x61] 1] sched_boot)) ! 0)"
  using tty_inv_preserved [OF demo_tty_facts(1) [of "[0x61]" 1] keeps_id(1), of "[]" 1 2 0 0 "3 :: u16" 0 5 sched_boot "\<lambda>_. 0" 0 Arg_none 0
      "[demo_tty [0x61] 1]"]
  by (cases "tty_signal_intr id 0 [demo_tty [0x61] 1] sched_boot") auto

text \<open>What the polling result promises and the calls do not: a terminal whose backend is full reports POLLOUT, and a
  non-blocking write then fails; and a failed write of a newline has already sent its carriage return, which a
  retry sends again.\<close>

lemma tty_poll_out_but_full:
  "tty_poll (Some (demo_tty [] 0)) AND POLLOUT \<noteq> 0
   \<and> tty_write 0 [] 0 O_NONBLOCK (3 :: u16) 0 1 (\<lambda>_. 0x0A) (Some (demo_tty [] 0)) sched_boot
       = Some (- EAGAIN, Some (demo_tty [] 0), sched_boot)"
  by (simp add: tty_poll_def demo_tty_facts tty_write_def tty_fetch_def page_read_def PAGE_ID_INVALID_def tty_put.simps
      termios_default_def)

lemma tty_write_retry_repeats_cr:
  "\<exists>t. tty_write 0 [] 0 O_NONBLOCK (3 :: u16) 0 1 (\<lambda>_. 0x0A) (Some (demo_tty [] 1)) sched_boot = Some (- EAGAIN, Some t, sched_boot)
     \<and> (\<exists>t'. tty_write 0 [] 0 O_NONBLOCK (3 :: u16) 0 1 (\<lambda>_. 0x0A) (Some (t\<lparr>t_room := 2\<rparr>)) sched_boot = Some (1, Some t', sched_boot)
          \<and> t_outs t' = [0x0D, 0x0D, 0x0A])"
  by (simp add: demo_tty_facts tty_write_def tty_fetch_def page_read_def PAGE_ID_INVALID_def tty_put.simps
      termios_default_def tty_advance_def)

text \<open>A line completed by another reader during the switch after a keyboard interrupt is left marked ready with no bytes,
  and the next read returns 0, an end of file nobody typed.\<close>

definition demo_blocked :: kstate where
  "demo_blocked = sched_boot\<lparr>proc_table := (proc_table sched_boot)[2 := pcb_zero\<lparr>pid := 2, p_state := PROC_BLOCKED\<rparr>]\<rparr>"

lemma tty_interrupt_race_reads_eof:
  "\<exists>t s. canon_char (\<lambda>(t, s). (t\<lparr>line_pos := 1, line_ready := True\<rparr>, s)) CTRL_C (demo_tty [] 9, demo_blocked)
       = (Canon_ret (- EINTR), t, s)
     \<and> (\<exists>t'. tty_read_canon sw c sleeps nonblock page off n (t, s) mem = Some (0, (t', s), mem))"
proof -
  have "2 < length (proc_table sched_boot)" by (simp add: sched_boot_def proc_init_def)
  then have "pcb_zero\<lparr>pid := 2, p_state := PROC_BLOCKED\<rparr> \<in> set (proc_table demo_blocked)"
    by (simp add: demo_blocked_def set_update_memI)
  then have woke: "list_ex (\<lambda>p. sig_target (demo_tty [] 9) p \<and> (p_state p = PROC_BLOCKED \<or> p_state p = PROC_SLEEPING)) (proc_table demo_blocked)"
    unfolding list_ex_iff by (rule bexI [rotated]) (simp add: sig_target_def proc_state_is_live_def demo_tty_def tty_init_def)
  have empty: "\<exists>t'. tty_read_canon sw c sleeps nonblock page off n (t, s) mem = Some (0, (t', s), mem)"
    if "line_ready t" "line_pos t = 0" for t s
    using that by (simp add: tty_read_canon_def canon_loop.simps canon_deliver_def tty_copy_to_pages.simps)
  obtain t s where "canon_char (\<lambda>(t, s). (t\<lparr>line_pos := 1, line_ready := True\<rparr>, s)) CTRL_C (demo_tty [] 9, demo_blocked)
      = (Canon_ret (- EINTR), t, s)" "line_ready t" "line_pos t = 0"
    by (simp add: canon_char_def dev_send_signal_def woke demo_tty_facts termios_default_def)
  then show ?thesis using empty by blast
qed

end
