(* ===== verification/Klog.thy ===== *)
theory Klog
  imports Prelude
begin

text \<open>
  The kernel log, \<^verbatim>\<open>src/kernel/vfs/klog.c\<close>: formatted output to up to two registered loggers. A logger slot is
  None when empty and otherwise the characters its \<^verbatim>\<open>putc\<close> has accepted; the retry loop around it waits until the
  logger takes the character. A C string is its bytes without the terminator. An argument list that does not
  fit the format is undefined in C and None here. The formatter is related to a text built from the decimal and
  hexadecimal digits of the numbers.
\<close>

subsection \<open>State and operations\<close>

type_synonym loggers = "u8 list option list"

datatype klog_arg = Arg_str "u8 list" | Arg_num u32

definition klog_set_logger :: "nat \<Rightarrow> u8 list option \<Rightarrow> loggers \<Rightarrow> loggers" where
  "klog_set_logger slot putc ls = (if 2 \<le> slot then ls else ls[slot := putc])"

definition klog_putc :: "u8 \<Rightarrow> loggers \<Rightarrow> loggers" where
  "klog_putc ch ls = map (map_option (\<lambda>out. out @ [ch])) ls"

fun klog_puts_raw :: "u8 list \<Rightarrow> loggers \<Rightarrow> loggers" where
  "klog_puts_raw [] ls = ls"
| "klog_puts_raw (ch # chs) ls =
     (let ls = (if ch = 0x0A then klog_putc 0x0D ls else ls)
      in klog_puts_raw chs (klog_putc ch ls))"

definition hex_nibble :: "u32 \<Rightarrow> u8" where
  "hex_nibble nibble = (if nibble < 10 then 0x30 + ucast nibble else 0x61 + ucast nibble - 10)"

definition klog_print_hex32 :: "u32 \<Rightarrow> loggers \<Rightarrow> loggers" where
  "klog_print_hex32 v ls =
     fold (\<lambda>i. klog_putc (hex_nibble (drop_bit (i * 4) v AND 0xF))) (rev [0..<8]) (klog_putc 0x78 (klog_putc 0x30 ls))"

lemma div10_less: "(0 :: u32) < v \<Longrightarrow> unat (v div 10) < unat v"
  by (simp add: unat_div word_gt_0 unat_gt_0)

function dec_fill :: "u32 \<Rightarrow> nat \<Rightarrow> u8 list \<Rightarrow> nat \<times> u8 list" where
  "dec_fill v i buf =
     (if 0 < v then dec_fill (v div 10) (i + 1) (buf[i := 0x30 + ucast (v mod 10)]) else (i, buf))"
  by auto
termination by (relation "measure (\<lambda>(v, i, buf). unat v)") (auto intro: div10_less)

fun dec_out :: "nat \<Rightarrow> u8 list \<Rightarrow> loggers \<Rightarrow> loggers" where
  "dec_out 0 buf ls = ls"
| "dec_out (Suc i) buf ls = dec_out i buf (klog_putc (buf ! i) ls)"

definition klog_print_dec :: "u32 \<Rightarrow> loggers \<Rightarrow> loggers" where
  "klog_print_dec v ls =
     (if v = 0 then klog_putc 0x30 ls
      else let (i, buf) = dec_fill v 0 (replicate 10 0) in dec_out i buf ls)"

fun kvlogf :: "u8 list \<Rightarrow> klog_arg list \<Rightarrow> loggers \<Rightarrow> loggers option" where
  "kvlogf [] ap ls = Some ls"
| "kvlogf (ch # fmt) ap ls =
     (if ch = 0x25 then
        (case fmt of [] \<Rightarrow> Some ls
         | d # fmt \<Rightarrow>
             if d = 0x73 then
               (case ap of Arg_str s # ap \<Rightarrow> kvlogf fmt ap (klog_puts_raw s ls) | _ \<Rightarrow> None)
             else if d = 0x75 then
               (case ap of Arg_num v # ap \<Rightarrow> kvlogf fmt ap (klog_print_dec v ls) | _ \<Rightarrow> None)
             else if d = 0x78 then
               (case ap of Arg_num v # ap \<Rightarrow> kvlogf fmt ap (klog_print_hex32 v ls) | _ \<Rightarrow> None)
             else if d = 0x6C then
               (case fmt of [] \<Rightarrow> Some ls
                | e # fmt \<Rightarrow>
                    if e = 0x75 then
                      (case ap of Arg_num v # ap \<Rightarrow> kvlogf fmt ap (klog_print_dec v ls) | _ \<Rightarrow> None)
                    else if e = 0x78 then
                      (case ap of Arg_num v # ap \<Rightarrow> kvlogf fmt ap (klog_print_hex32 v ls) | _ \<Rightarrow> None)
                    else kvlogf fmt ap (klog_putc e (klog_putc 0x6C (klog_putc 0x25 ls))))
             else if d = 0x25 then kvlogf fmt ap (klog_putc 0x25 ls)
             else kvlogf fmt ap (klog_putc d (klog_putc 0x25 ls)))
      else
        let ls = (if ch = 0x0A then klog_putc 0x0D ls else ls)
        in kvlogf fmt ap (klog_putc ch ls))"

subsection \<open>Texts\<close>

definition log_text :: "u8 list \<Rightarrow> loggers \<Rightarrow> loggers" where
  "log_text txt ls = map (map_option (\<lambda>out. out @ txt)) ls"

definition crlf :: "u8 list \<Rightarrow> u8 list" where
  "crlf chs = concat (map (\<lambda>ch. if ch = 0x0A then [0x0D, 0x0A] else [ch]) chs)"

fun dec_text :: "nat \<Rightarrow> u8 list" where
  "dec_text n = (if n < 10 then [of_nat (48 + n)] else dec_text (n div 10) @ [of_nat (48 + n mod 10)])"

definition hex_digit :: "nat \<Rightarrow> u8" where
  "hex_digit d = of_nat (if d < 10 then 48 + d else 87 + d)"

definition hex_text :: "nat \<Rightarrow> u8 list" where
  "hex_text n = 0x30 # 0x78 # map (\<lambda>i. hex_digit (n div 16 ^ (7 - i) mod 16)) [0..<8]"

text \<open>What a log call writes: the format with each directive replaced.\<close>

definition arg_text :: "u8 \<Rightarrow> klog_arg \<Rightarrow> u8 list option" where
  "arg_text d a = (case a of Arg_str s \<Rightarrow> if d = 0x73 then Some (crlf s) else None
     | Arg_num v \<Rightarrow> if d = 0x75 then Some (dec_text (unat v)) else if d = 0x78 then Some (hex_text (unat v)) else None)"

datatype log_token = Lit "u8 list" | Directive u8

fun log_tokens :: "u8 list \<Rightarrow> log_token list" where
  "log_tokens [] = []"
| "log_tokens (ch # fmt) =
     (if ch \<noteq> 0x25 then Lit (crlf [ch]) # log_tokens fmt
      else case fmt of [] \<Rightarrow> []
      | d # fmt \<Rightarrow>
          if d = 0x6C then
            (case fmt of [] \<Rightarrow> []
             | e # fmt \<Rightarrow> (if e = 0x75 \<or> e = 0x78 then Directive e else Lit [0x25, 0x6C, e]) # log_tokens fmt)
          else (if d = 0x73 \<or> d = 0x75 \<or> d = 0x78 then Directive d else Lit (if d = 0x25 then [0x25] else [0x25, d]))
            # log_tokens fmt)"

fun render :: "log_token list \<Rightarrow> klog_arg list \<Rightarrow> u8 list option" where
  "render [] ap = Some []"
| "render (Lit x # ts) ap = map_option ((@) x) (render ts ap)"
| "render (Directive d # ts) [] = None"
| "render (Directive d # ts) (a # ap) =
     (case arg_text d a of None \<Rightarrow> None | Some x \<Rightarrow> map_option ((@) x) (render ts ap))"

definition klog_text :: "u8 list \<Rightarrow> klog_arg list \<Rightarrow> u8 list option" where
  "klog_text fmt ap = render (log_tokens fmt) ap"

subsection \<open>The formatter writes the text\<close>

named_theorems log_simps

lemma log_text_Nil [log_simps]: "log_text [] ls = ls"
  by (induction ls) (auto simp: log_text_def map_option_case split: option.split)

lemma log_text_append [log_simps]: "log_text ys (log_text xs ls) = log_text (xs @ ys) ls"
  by (simp add: log_text_def option.map_comp comp_def)

lemma klog_putc_text [log_simps]: "klog_putc ch ls = log_text [ch] ls"
  by (simp add: klog_putc_def log_text_def)

lemma klog_puts_raw_text [log_simps]: "klog_puts_raw chs ls = log_text (crlf chs) ls"
  by (induction chs arbitrary: ls) (simp_all add: crlf_def log_simps)

lemma fold_putc_text: "fold (\<lambda>i. klog_putc (g i)) is ls = log_text (map g is) ls"
  by (induction "is" arbitrary: ls) (simp_all add: log_simps)

declare dec_text.simps [simp del] dec_fill.simps [simp del]

lemma dec_text_pos: "0 < n \<Longrightarrow> dec_text n = (if n div 10 = 0 then [] else dec_text (n div 10)) @ [of_nat (48 + n mod 10)]"
  by (subst dec_text.simps) (auto simp: div_eq_0_iff)

lemma dec_out_text: "i \<le> length buf \<Longrightarrow> dec_out i buf ls = log_text (rev (take i buf)) ls"
  by (induction i arbitrary: ls) (simp_all add: log_simps take_Suc_conv_app_nth)

text \<open>The digits fill the buffer from its start, least significant first, and fit into its ten bytes.\<close>

lemma dec_fill_digits:
  assumes "unat v < 10 ^ k" "i + k \<le> length buf"
  shows "\<exists>j buf'. dec_fill v i buf = (j, buf') \<and> i \<le> j \<and> j \<le> i + k \<and> length buf' = length buf
    \<and> rev (take j buf') = (if v = 0 then [] else dec_text (unat v)) @ rev (take i buf)"
  using assms
proof (induction k arbitrary: v i buf)
  case 0
  then have "v = 0" by (simp add: unat_eq_0)
  then show ?case by (simp add: dec_fill.simps)
next
  case (Suc k)
  show ?case
  proof (cases "v = 0")
    case True
    then show ?thesis by (simp add: dec_fill.simps)
  next
    case False
    let ?d = "0x30 + ucast (v mod 10) :: u8"
    have u: "unat (v div 10) = unat v div 10" "unat (v mod 10) = unat v mod 10" by (simp_all add: unat_div unat_mod)
    have d: "?d = of_nat (48 + unat v mod 10)"
      using u(2) by (simp add: word_unat_eq_iff unat_word_ariths unat_of_nat unsigned_ucast_eq take_bit_eq_mod)
    have z: "v div 10 = 0 \<longleftrightarrow> unat v div 10 = 0" using u(1) by (metis unat_eq_0)
    have "unat (v div 10) < 10 ^ k" using Suc.prems(1) u(1) by (simp add: div_less_iff_less_mult)
    from Suc.IH [OF this, of "i + 1" "buf[i := ?d]"] Suc.prems(2)
    obtain j buf' where j: "dec_fill (v div 10) (i + 1) (buf[i := ?d]) = (j, buf')" "i + 1 \<le> j" "j \<le> i + 1 + k"
        "length buf' = length buf"
        "rev (take j buf') = (if v div 10 = 0 then [] else dec_text (unat (v div 10))) @ rev (take (i + 1) (buf[i := ?d]))"
      by auto
    have "take (i + 1) (buf[i := ?d]) = take i buf @ [?d]" using Suc.prems(2) by (simp add: take_Suc_conv_app_nth)
    then have "rev (take j buf') = dec_text (unat v) @ rev (take i buf)"
      using j(5) dec_text_pos [of "unat v"] False by (simp add: d z u(1) unat_gt_0)
    then show ?thesis using j(1-4) False by (subst dec_fill.simps) (simp add: word_gt_0)
  qed
qed

lemma klog_print_dec_text [log_simps]: "klog_print_dec v ls = log_text (dec_text (unat v)) ls"
proof (cases "v = 0")
  case True
  then show ?thesis by (simp add: klog_print_dec_def log_simps dec_text.simps)
next
  case False
  have "unat v < 10 ^ 10" by (rule less_trans [OF unat_u32_less]) simp
  from dec_fill_digits [OF this, of 0 "replicate 10 0"]
  obtain j buf' where "dec_fill v 0 (replicate 10 0) = (j, buf')" "j \<le> length buf'" "rev (take j buf') = dec_text (unat v)"
    using False by auto
  then show ?thesis using False by (simp add: klog_print_dec_def dec_out_text)
qed

lemma hex_nibble_digit: "hex_nibble (drop_bit (i * 4) v AND 0xF) = hex_digit (unat v div 16 ^ i mod 16)"
proof -
  let ?n = "drop_bit (i * 4) v AND 0xF"
  have "?n = take_bit 4 (drop_bit (i * 4) v)" by (simp add: take_bit_eq_mask mask_eq_exp_minus_1)
  then have "unat ?n = take_bit 4 (drop_bit (i * 4) (unat v))" using unat_u32_less [of v]
    by (simp only: unsigned_take_bit_eq unsigned_drop_bit_eq) (simp add: take_bit_nat_eq_self)
  also have "\<dots> = unat v div (2 ^ 4) ^ i mod 16" unfolding power_mult [symmetric] by (simp add: take_bit_eq_mod drop_bit_eq_div mult.commute)
  finally have n: "unat ?n = unat v div 16 ^ i mod 16" by simp
  have u: "unat (ucast ?n :: u8) = unat ?n" by (simp add: unsigned_ucast_eq take_bit_eq_mod n)
  show ?thesis unfolding hex_nibble_def hex_digit_def n [symmetric]
    using u n by (auto simp: word_unat_eq_iff unat_word_ariths unat_of_nat unat_sub_if' word_less_nat_alt)
qed

lemma klog_print_hex32_text [log_simps]: "klog_print_hex32 v ls = log_text (hex_text (unat v)) ls"
proof -
  have "map (\<lambda>i. hex_digit (unat v div 16 ^ i mod 16)) (rev [0..<8]) = map (\<lambda>i. hex_digit (unat v div 16 ^ (7 - i) mod 16)) [0..<8]"
    by (simp add: upt_rec)
  then show ?thesis unfolding klog_print_hex32_def hex_nibble_digit fold_putc_text hex_text_def by (simp add: log_simps)
qed

text \<open>The numbers a call prints can be read back.\<close>

definition dec_value :: "u8 list \<Rightarrow> nat" where
  "dec_value txt = foldl (\<lambda>n d. n * 10 + (unat d - 48)) 0 txt"

definition hex_value :: "u8 list \<Rightarrow> nat" where
  "hex_value txt = foldl (\<lambda>n d. n * 16 + (if unat d < 58 then unat d - 48 else unat d - 87)) 0 txt"

lemma unat_dec_digit: "k < 10 \<Longrightarrow> unat (of_nat (48 + k) :: u8) = 48 + k"
  by (subst unat_of_nat) simp

lemma dec_value_text: "dec_value (dec_text n) = n"
proof (induction n rule: dec_text.induct)
  case (1 n)
  have d: "unat (of_nat (48 + k mod 10) :: u8) = 48 + k mod 10" for k by (rule unat_dec_digit) simp
  show ?case
  proof (cases "n < 10")
    case True
    then show ?thesis using d [of n] by (subst dec_text.simps) (simp add: dec_value_def)
  next
    case False
    then have "dec_value (dec_text n) = n div 10 * 10 + n mod 10"
      using 1 d [of n] by (subst dec_text.simps) (simp add: dec_value_def)
    then show ?thesis by simp
  qed
qed

lemma dec_text_shape:
  "list_all (\<lambda>d. 48 \<le> unat d \<and> unat d \<le> 57) (dec_text n) \<and> dec_text n \<noteq> [] \<and> (hd (dec_text n) = 0x30 \<longrightarrow> n = 0)"
proof (induction n rule: dec_text.induct)
  case (1 n)
  have z: "of_nat (48 + k) = (0x30 :: u8) \<longleftrightarrow> k = 0" if "k < 10" for k
    using unat_dec_digit [OF that] by (auto simp: word_unat_eq_iff)
  show ?case
  proof (cases "n < 10")
    case True
    then show ?thesis using unat_dec_digit [OF True] z [OF True] by (subst (1 2 3) dec_text.simps) simp
  next
    case False
    have "unat (of_nat (48 + n mod 10) :: u8) = 48 + n mod 10" by (rule unat_dec_digit) simp
    moreover have "n mod 10 \<le> 9" using mod_less_divisor [of 10 n] by simp
    ultimately show ?thesis using 1 False by (subst (1 2 3) dec_text.simps) (auto simp: div_eq_0_iff)
  qed
qed

lemma dec_text_length: "n < 10 ^ Suc k \<Longrightarrow> length (dec_text n) \<le> Suc k"
proof (induction k arbitrary: n)
  case (Suc k)
  then have "n div 10 < 10 ^ Suc k" by (simp add: div_less_iff_less_mult)
  from Suc.IH [OF this] show ?case by (subst dec_text.simps) simp
qed (simp add: dec_text.simps)

lemma hex_digit_value: "d < 16 \<Longrightarrow> (if unat (hex_digit d) < 58 then unat (hex_digit d) - 48 else unat (hex_digit d) - 87) = d"
  unfolding hex_digit_def by (subst unat_of_nat)+ auto

lemma hex_value_snoc: "hex_value (xs @ [d]) = hex_value xs * 16 + (if unat d < 58 then unat d - 48 else unat d - 87)"
  by (simp add: hex_value_def)

lemma hex_digits_value:
  "hex_value (map (\<lambda>i. hex_digit (n div 16 ^ (k - Suc i) mod 16)) [0..<k]) = n mod 16 ^ k"
proof (induction k arbitrary: n)
  case (Suc k)
  have d: "n mod 16 < 16" by simp
  have "map (\<lambda>i. hex_digit (n div 16 ^ (Suc k - Suc i) mod 16)) [0..<Suc k]
      = map (\<lambda>i. hex_digit (n div 16 div 16 ^ (k - Suc i) mod 16)) [0..<k] @ [hex_digit (n mod 16)]"
    by (auto simp: div_mult2_eq [symmetric] power_Suc [symmetric] Suc_diff_Suc simp del: power_Suc)
  then have "hex_value (map (\<lambda>i. hex_digit (n div 16 ^ (Suc k - Suc i) mod 16)) [0..<Suc k]) = (n div 16 mod 16 ^ k) * 16 + n mod 16"
    by (simp only: hex_value_snoc Suc.IH hex_digit_value [OF d])
  then show ?case by (simp add: mod_mult2_eq)
qed (simp add: hex_value_def)

lemma hex_value_text: "n < 2 ^ 32 \<Longrightarrow> hex_value (drop 2 (hex_text n)) = n"
  using hex_digits_value [of n 8] by (simp add: hex_text_def)

text \<open>C31: A log call appends to every registered logger exactly its text, the format with each directive replaced: strings
  with a carriage return before each newline, numbers in decimal or as eight hexadecimal digits, an unknown
  directive unchanged, and everything after a trailing percent sign dropped. An empty slot stays empty.\<close>

theorem kvlogf_writes_text: "kvlogf fmt ap ls = map_option (\<lambda>txt. log_text txt ls) (klog_text fmt ap)"
proof (induction fmt ap ls rule: kvlogf.induct)
  case (1 ap ls)
  show ?case by (simp add: klog_text_def log_simps)
next
  case (2 ch fmt ap ls)
  note [simp] = klog_text_def log_simps arg_text_def option.map_comp comp_def
  show ?case
  proof (cases "ch = 0x25")
    case False
    then show ?thesis using 2 by (auto simp: crlf_def)
  next
    case pc: True
    show ?thesis
    proof (cases fmt)
      case Nil
      then show ?thesis using pc by simp
    next
      case d: (Cons d fmt1)
      show ?thesis
      proof (cases "d = 0x6C")
        case long: True
        show ?thesis
        proof (cases fmt1)
          case Nil
          then show ?thesis using pc d long by simp
        next
          case (Cons e fmt2)
          then show ?thesis using 2 pc d long by (cases ap; cases "hd ap") auto
        qed
      next
        case False
        then show ?thesis using 2 pc d by (cases ap; cases "hd ap") auto
      qed
    qed
  qed
qed

text \<open>C33: Printed numbers read back as the number, in at most ten decimal digits without a leading zero (so the buffer of ten
  bytes is never overrun), or in exactly eight hexadecimal digits after \<^verbatim>\<open>0x\<close>.\<close>

theorem klog_numbers_read_back:
  "\<exists>txt hex. klog_print_dec v [Some []] = [Some txt] \<and> dec_value txt = unat v \<and> length txt \<le> 10
     \<and> (txt = [0x30] \<or> hd txt \<noteq> 0x30) \<and> list_all (\<lambda>d. 48 \<le> unat d \<and> unat d \<le> 57) txt
     \<and> klog_print_hex32 v [Some []] = [Some ([0x30, 0x78] @ hex)] \<and> hex_value hex = unat v \<and> length hex = 8"
proof -
  have "unat v < 10 ^ Suc 9" by (rule less_trans [OF unat_u32_less]) simp
  from dec_text_length [OF this] have len: "length (dec_text (unat v)) \<le> 10" by simp
  have lead: "dec_text (unat v) = [0x30] \<or> hd (dec_text (unat v)) \<noteq> 0x30"
    using dec_text_shape [of "unat v"] by (auto simp: dec_text.simps [of 0])
  have "[0x30, 0x78] @ drop 2 (hex_text (unat v)) = hex_text (unat v)" by (simp add: hex_text_def)
  then have hex: "klog_print_hex32 v [Some []] = [Some ([0x30, 0x78] @ drop 2 (hex_text (unat v)))]"
    by (simp only: klog_print_hex32_text log_text_def list.map option.map append_Nil)
  have dec: "klog_print_dec v [Some []] = [Some (dec_text (unat v))]" by (simp add: klog_print_dec_text log_text_def)
  have "hex_value (drop 2 (hex_text (unat v))) = unat v" by (rule hex_value_text) simp
  moreover have "length (drop 2 (hex_text (unat v))) = 8" by (simp add: hex_text_def)
  ultimately show ?thesis using len lead hex dec dec_text_shape [of "unat v"] dec_value_text [of "unat v"] by blast
qed

theorem klog_numbers_read_back_witness:
  "\<exists>txt hex. klog_print_dec 4096 [Some []] = [Some txt] \<and> dec_value txt = 4096 \<and> length txt \<le> 10
     \<and> klog_print_hex32 4096 [Some []] = [Some ([0x30, 0x78] @ hex)] \<and> hex_value hex = 4096"
  using klog_numbers_read_back [of 4096] by auto

end
