(* ===== verification/Spec2Isabelle.thy ===== *)
theory Spec2Isabelle
  imports Z80_Exec Kmem User_Mem16 Romfs Tmpfs_File Fd Kmutex Tty Klog
begin

text \<open>
  A verification library for the PPAP kernel, a small Unix-like system for microcontrollers and old
  personal computers written in C.

  \<^bold>\<open>The program.\<close> The kernel core (\<^verbatim>\<open>src/kernel/core\<close>) owns memory, processes, signals and the CPU
  emulators on which foreign programs run; the file layer (\<^verbatim>\<open>src/kernel/vfs\<close>) owns open files,
  pipes and file systems; architecture and target code (\<^verbatim>\<open>src/arch\<close>, \<^verbatim>\<open>src/target\<close>) enters
  the kernel by traps and timer interrupts and switches stacks; subsystems (CP/M, MS-DOS, Human68k, S-OS)
  translate foreign system calls; user programs (\<^verbatim>\<open>src/user\<close>) are separate. Processes allocate
  regions, regions are runs of pages, pages come from a pool of free blocks; processes block on channels,
  which are addresses of pipes, terminals or mutexes, and are woken through the process table; descriptors
  of a process name entries of a system-wide pool whose last release closes the file.

  \<^bold>\<open>Theories.\<close> State is a record per component, an operation is a function on it, a null pointer or a
  failed search is None, an error is the negated errno the C function returns. Machine integers are words of
  their width.

  \<^item> \<open>Prelude\<close>: integer types, byte and half-word conversions, carries and borrows of words, errno
    values, and the locale \<open>step_system\<close>: what every step of a state machine keeps holds in every
    reachable state. It is interpreted on the descriptor pool, the scheduler, the mutexes, the signal
    calls, the object pool, the memory calls of the 8086, the mount table and tmpfs.
  \<^item> \<open>Z80_State\<close>, \<open>Z80_ALU\<close>, \<open>Z80_Core\<close>, \<open>Z80_Exec\<close>: the Z80 emulator (\<^verbatim>\<open>ecpu_z80.h\<close>,
    \<^verbatim>\<open>ecpu_z80_alu.c\<close>, \<^verbatim>\<open>ecpu_z80.c\<close>), every instruction and the run loop. The arithmetic
    unit agrees with integer arithmetic in result and flags, DAA makes binary addition decimal, every register
    reads back, a run with a step budget ends, a budget of one is one instruction, LDIR is a block copy,
    exchanges, stack operations and rotates undo each other. The trap handler, installed by the caller, is a
    parameter.
  \<^item> \<open>Page_Pool\<close>, \<open>Page\<close>, \<open>Region\<close>: physical memory (\<^verbatim>\<open>page_pool.c\<close>, \<^verbatim>\<open>page.c\<close>,
    \<^verbatim>\<open>region.c\<close>, default hooks of \<^verbatim>\<open>mem_helper.c\<close>). The sorted block list refines a set of free
    pages; allocation fails only when it must and takes what it returns; freeing is safe for any argument and
    never overflows the table; boot gives exactly the pages above the boot stack; placed allocation is all or
    nothing. Each layer is used by the next through a locale: \<open>page_store\<close> for the pool, \<open>frame_source\<close>
    for the allocator, both interpreted on the code's functions.
  \<^item> \<open>Kmem\<close>: the fixed-size object pool (\<^verbatim>\<open>kmem.c\<close>), a free list threaded through the free
    objects. Under any use by clients that write only objects they hold, it never hands out an object twice
    and fails only when all are held.
  \<^item> \<open>User_Mem\<close>, \<open>User_Mem16\<close>: the page tracking of a process (\<^verbatim>\<open>proc.c\<close>) and the calls
    of \<^verbatim>\<open>sys_mem.c\<close>, the second for the 8086. The break moves all or nothing, a mapping takes exactly
    its pages and unmapping gives them back; on the 8086 heap, mappings and stack never overlap.
    \<^verbatim>\<open>sys_munmap\<close> frees pages of others, and a growing break overwrites slots of mappings.
  \<^item> \<open>Sched\<close>, \<open>Lifecycle\<close>, \<open>Kmutex\<close>, \<open>Signal\<close>: processes (\<^verbatim>\<open>sched.c\<close>, slots of \<^verbatim>\<open>proc.c\<close>,
    vfork, exit, waitpid and tracing of \<^verbatim>\<open>sys_proc.c\<close>, sleeping of \<^verbatim>\<open>sys_time.c\<close>,
    \<^verbatim>\<open>kmutex.c\<close>, \<^verbatim>\<open>signal.c\<close>, \<^verbatim>\<open>bitops.h\<close>). The scheduler picks round robin, a ready
    process waits at most seven switches, deadlines survive the wrap-around of the tick counter. Two cores never run
    one process, and no process sleeps in waitpid over a zombie child, on all runs with creation, exit and reuse of
    slots in which no slot is freed while a core still runs it; the code does not ensure this condition, and
    \<open>reaped_slot_runs_twice\<close> is a run where two cores execute one slot. The intrusive lists of held mutexes are exactly the ownership relation on every
    interleaving, list walks end, no wake-up is lost. Signals are delivered lowest first, SIGKILL and
    SIGSTOP keep the default action; SIGKILL can be blocked, which it should not.
  \<^item> \<open>Pipe\<close>, \<open>Fd\<close>: pipes and the descriptor pool (\<^verbatim>\<open>pipe.c\<close>, \<^verbatim>\<open>fd.c\<close>). A pipe is a byte queue
    (locale \<open>fifo_channel\<close>) under every interleaving of reads and writes, blocks exactly when it must;
    reference counts of descriptors count the holders and the calls in flight, for every order of opening, calls that
    sleep, and closing; creating a pipe is all or nothing; both ends released
    give it back, except after \<^verbatim>\<open>F_SETFL\<close> on the read end, where it leaks.
  \<^item> \<open>Path\<close>, \<open>Vfs\<close>, \<open>Namei\<close>: names of files (\<^verbatim>\<open>namei.c\<close>, \<^verbatim>\<open>vfs.c\<close>). Normal forms of paths, also when
    computed in place; vnodes with reference counts, scratch buffers and the mount table, whose search finds the
    longest mount; the walk over components, mount points and symbolic links, and the calls by path. The functions
    of a file system driver are a record; the locale \<open>vfs_drivers\<close> states what the walk relies on, and in it
    every lookup and every call by path is proved to keep references and buffers balanced.
  \<^item> \<open>Tmpfs\<close>, \<open>Romfs\<close>: the two file systems in memory (\<^verbatim>\<open>tmpfs.c\<close>, \<^verbatim>\<open>romfs.c\<close>, \<^verbatim>\<open>page_io.c\<close>), all
    operations; \<open>vfs_drivers\<close> is interpreted on them in \<open>Romfs\<close>.
  \<^item> \<open>Tmpfs_Inv\<close>, \<open>Tmpfs_File\<close>: tmpfs keeps its pages, counts and names consistent; reads and writes are exact on the
    bytes of files; creating, removing and renaming are updates of a map of names. Renaming a file to itself
    removes it, truncation beyond a page lets reads leave the page, and the theorems on names are about names of at
    most 31 characters, which the directory entries can hold.
  \<^item> \<open>Tty\<close>, \<open>Klog\<close>: terminals and the kernel log (\<^verbatim>\<open>tty.c\<close>, \<^verbatim>\<open>klog.c\<close>). A canonical read is line editing on a plain
    list however the input arrives; a write sends the newline expansion of the bytes it reports; the line buffer
    keeps its bounds. An interrupt of a keyboard comes between the turns of a read, not inside one. A retried write may repeat a carriage return, and an interrupt racing with a second reader leaves
    an empty line that reads as end of file. A log call writes the format with its directives replaced, and
    printed numbers read back.

  \<^bold>\<open>Concurrency.\<close> A critical section under a spin lock is one step. A function that sleeps is split
  into turns: the model runs one turn, and what the rest of the system does during the sleep is a list of
  state changes, one per wake-up (\<open>pipe_read\<close>, \<open>pipe_write\<close>, \<open>kmutex_lock\<close>, \<open>tty_read\<close>, \<open>tty_write\<close>). The step relations
  \<open>fd_step\<close>, \<open>life_step\<close>, \<open>sched_step\<close>, \<open>wait_step\<close>, \<open>kmutex_step\<close>, \<open>sig_step\<close>, \<open>kmem_step\<close>, \<open>umem16_step\<close>,
  \<open>mt_step\<close> and \<open>tm_step\<close> interleave the sections in any order;
  unlocking and waking are separate steps of \<open>kmutex_step\<close>; taking a reference, working on the file and releasing
  the reference are separate steps of \<open>fd_step\<close>; the scan and the claim of waitpid are separate steps too.

  \<^bold>\<open>Loops and bounds.\<close> Loops over arrays are recursions or searches on the index with a termination
  proof. The Z80 run loop and the walks over mutex links need not end and are \<^theory_text>\<open>partial_function\<close>s,
  whose termination under the stated conditions is proved; there is no fuel. Loops that sleep end with the list of wake-ups. Array sizes are those of the
  sources (8 processes, 32 files, 4 pipes of 512 bytes, 32 signals, 64 page slots of a process, where the m68k targets have 512); the block table of the page pool and the
  width of page ids, which differ per target, are arbitrary. The descriptor steps assume fewer than 65536
  references to an entry; the system has at most 128 descriptors and 8 calls in flight.

  \<^bold>\<open>Parameters.\<close> Trap handlers of the emulator, the callbacks of terminal backends, driver functions behind the vtables of files and mounts, the time of day, the
  subsystem signal hook, \<^verbatim>\<open>sys_exit\<close>, the result of copying from and to user memory, and the
  pool hook of \<^verbatim>\<open>mm_init\<close>.

  \<^bold>\<open>Not modelled.\<close> Device registers, boot and trap code, the saved register frames and memory image
  of a process, the debugger commands that read and write its memory and registers;
  the disk file systems, devfs and procfs and block devices; the loaders, the remaining system calls, the
  m68k emulator, the subsystem bridges and the user programs.
\<close>

end
